(* ===== verification/Scif_Prelude.thy ===== *)
theory Scif_Prelude
  imports Main "HOL-Library.Word" "HOL-Library.Monad_Syntax"
begin

unbundle bit_operations_syntax

text \<open>
  Shared vocabulary of the development: the machine-integer types of the driver sources, the
  error numbers the driver returns, the handful of kernel macros the sources expand
  (circular-buffer counts, alignment, bounded memory copies), and the list, option and word
  lemmas the component theories rely on.
\<close>

section \<open>Types and error numbers\<close>

type_synonym u8 = "8 word"
type_synonym u16 = "16 word"
type_synonym u32 = "32 word"
type_synonym u64 = "64 word"

text \<open>The error numbers of the driver; \<open>Inl e\<close> models a return of \<open>-e\<close>.\<close>

datatype errno =
    EPERM | ENXIO | ENOMEM | EFAULT | EBUSY | ENODEV | EINVAL | ENOSPC | EISCONN | ENOTCONN
  | ECONNREFUSED | ECONNRESET | EAGAIN | EOPNOTSUPP | EINTR | ENOTTY | EACCES | ENOENT | ERESTARTSYS | EADDRINUSE

named_theorems word_nat \<open>transfer of machine arithmetic to natural numbers\<close>
named_theorems mem_simps \<open>bounded memory copies\<close>

section \<open>Kernel macros used by the sources\<close>

text \<open>\<open>linux/circ_buf.h\<close>: \<open>CIRC_CNT\<close> and \<open>CIRC_SPACE\<close> for a power-of-two ring.\<close>

definition CIRC_CNT :: "u32 \<Rightarrow> u32 \<Rightarrow> u32 \<Rightarrow> u32" where
  "CIRC_CNT head tail sz = (head - tail) AND (sz - 1)"

definition CIRC_SPACE :: "u32 \<Rightarrow> u32 \<Rightarrow> u32 \<Rightarrow> u32" where
  "CIRC_SPACE head tail sz = CIRC_CNT tail (head + 1) sz"

text \<open>
  A copy into, or out of, an array of known length. An access outside the array is undefined
  in C; it is \<open>None\<close> here, so that a proof that an operation returns \<open>Some\<close> is a
  proof that all its accesses are in bounds.
\<close>

definition memcpy_toio :: "'a list \<Rightarrow> nat \<Rightarrow> 'a list \<Rightarrow> 'a list option" where
  "memcpy_toio buf off bs =
     (if off + length bs \<le> length buf
      then Some (take off buf @ bs @ drop (off + length bs) buf) else None)"

definition memcpy_fromio :: "'a list \<Rightarrow> nat \<Rightarrow> nat \<Rightarrow> 'a list option" where
  "memcpy_fromio buf off n =
     (if off + n \<le> length buf then Some (take n (drop off buf)) else None)"

section \<open>Lists\<close>

lemma memcpy_toio_length [mem_simps]:
  "memcpy_toio buf off bs = Some buf' \<Longrightarrow> length buf' = length buf"
  by (auto simp: memcpy_toio_def split: if_splits)

lemma memcpy_toio_nth [mem_simps]:
  assumes "memcpy_toio buf off bs = Some buf'" and "i < length buf"
  shows "buf' ! i = (if off \<le> i \<and> i < off + length bs then bs ! (i - off) else buf ! i)"
  using assms
  by (auto simp: memcpy_toio_def nth_append min_def not_less less_diff_conv2 split: if_splits)

lemma memcpy_toio_Some [mem_simps]:
  "off + length bs \<le> length buf \<Longrightarrow> \<exists>buf'. memcpy_toio buf off bs = Some buf'"
  by (simp add: memcpy_toio_def)

lemma memcpy_fromio_Some [mem_simps]:
  "off + n \<le> length buf \<Longrightarrow> memcpy_fromio buf off n = Some (map (\<lambda>i. buf ! (off + i)) [0..<n])"
  by (auto simp: memcpy_fromio_def intro: nth_equalityI)

lemma map_nth_upt_eq_take_drop:
  "a + n \<le> length xs \<Longrightarrow> map (\<lambda>i. xs ! (a + i)) [0..<n] = take n (drop a xs)"
  by (auto intro: nth_equalityI)

section \<open>Words and powers of two\<close>

lemma unat_less_pow: "unat (x :: 'a::len word) < 2 ^ LENGTH('a)"
  by (rule unsigned_less)

lemma unat_pow2_eq:
  fixes s :: "'a::len word"
  assumes "unat s = 2 ^ k" shows "s = 2 ^ k" and "k < LENGTH('a)"
proof -
  show "s = 2 ^ k" using arg_cong [OF assms, of "of_nat :: nat \<Rightarrow> 'a word"] by simp
  have "(2::nat) ^ k < 2 ^ LENGTH('a)" using assms unat_less_pow [of s] by simp
  then show "k < LENGTH('a)" by simp
qed

lemma nat_and_minus_1_eq_0: "0 < n \<Longrightarrow> n AND (n - 1) = 0 \<Longrightarrow> \<exists>k. n = 2 ^ k" for n :: nat
proof (induction n rule: less_induct)
  case (less n)
  show ?case
  proof (cases "even n")
    case True
    then obtain m where m: "n = 2 * m" by (elim evenE)
    with less.prems have "0 < m" and "m < n" by auto
    moreover have "2 * m - 1 = Suc (2 * (m - 1))" using \<open>0 < m\<close> by simp
    then have "m AND (m - 1) = 0" using less.prems(2) m by (simp add: and_nat_rec [of "2 * m"])
    ultimately obtain k where "m = 2 ^ k" using less.IH by blast
    then show ?thesis using m by (metis power_Suc)
  next
    case False
    then obtain m where m: "n = Suc (2 * m)" by (elim oddE) simp
    with less.prems(2) have "m AND m = 0" by (simp add: and_nat_rec [of "Suc (2 * m)"])
    then have "n = 2 ^ 0" using m by simp
    then show ?thesis by blast
  qed
qed

lemma pow2_of_and_minus_1:
  fixes x :: "'a::len word"
  assumes "x AND (x - 1) = 0" and "x \<noteq> 0" shows "\<exists>k. unat x = 2 ^ k"
proof (rule nat_and_minus_1_eq_0)
  show pos: "0 < unat x" using assms(2) by (simp add: unat_gt_0)
  have "unat (x - 1) = unat x - 1" using pos by (simp add: unat_minus_one assms(2))
  then show "unat x AND (unat x - 1) = 0" using arg_cong [OF assms(1), of unat] by (simp add: unsigned_and_eq)
qed

lemma unat_and_pow2_minus_1 [word_nat]:
  fixes s :: "'a::len word"
  assumes "unat s = 2 ^ k" shows "unat (x AND (s - 1)) = unat x mod 2 ^ k"
proof -
  have "x AND (s - 1) = take_bit k x"
    using unat_pow2_eq(1) [OF assms] by (simp add: take_bit_eq_mask mask_eq_exp_minus_1)
  then show ?thesis by (simp add: unsigned_take_bit_eq flip: take_bit_eq_mod)
qed

lemma unat_mod_pow2_add:
  fixes x y :: "'a::len word"
  assumes "k \<le> LENGTH('a)"
  shows "unat (x + y) mod 2 ^ k = (unat x + unat y) mod 2 ^ k"
proof -
  have "(2::nat) ^ k dvd 2 ^ LENGTH('a)" using assms by (simp add: le_imp_power_dvd)
  then show ?thesis by (simp add: unat_word_ariths mod_mod_cancel)
qed

lemma unat_mod_pow2_sub:
  fixes x y :: "'a::len word"
  assumes "k \<le> LENGTH('a)" and "unat x mod 2 ^ k = X mod 2 ^ k" and "unat y mod 2 ^ k = Y mod 2 ^ k"
    and "Y \<le> X"
  shows "unat (x - y) mod 2 ^ k = (X - Y) mod 2 ^ k"
proof -
  have "(unat (x - y) + Y) mod 2 ^ k = (unat (x - y) + unat y) mod 2 ^ k"
    using assms(3) by (metis mod_add_right_eq)
  also have "\<dots> = unat (x - y + y) mod 2 ^ k" using assms(1) by (rule unat_mod_pow2_add [symmetric])
  also have "\<dots> = (X - Y + Y) mod 2 ^ k" using assms(2,4) by simp
  finally have "int (unat (x - y) + Y) mod 2 ^ k = int (X - Y + Y) mod 2 ^ k"
    by (metis of_nat_mod of_nat_numeral of_nat_power)
  then have "(int (unat (x - y)) + int Y - int Y) mod 2 ^ k = (int (X - Y) + int Y - int Y) mod 2 ^ k"
    by (metis mod_diff_left_eq of_nat_add)
  then have "int (unat (x - y) mod 2 ^ k) = int ((X - Y) mod 2 ^ k)"
    by (simp add: of_nat_mod)
  then show ?thesis by (simp only: of_nat_eq_iff)
qed

lemma CIRC_CNT_nat [word_nat]:
  assumes "unat sz = 2 ^ k" and "unat head mod 2 ^ k = H mod 2 ^ k" and "unat tail mod 2 ^ k = T mod 2 ^ k"
    and "T \<le> H"
  shows "unat (CIRC_CNT head tail sz) = (H - T) mod 2 ^ k"
proof -
  have "k \<le> LENGTH(32)" using unat_pow2_eq(2) [OF assms(1)] by simp
  then show ?thesis
    using assms unat_mod_pow2_sub [of k head H tail T]
    by (simp add: CIRC_CNT_def unat_and_pow2_minus_1)
qed

lemma CIRC_SPACE_nat [word_nat]:
  assumes "unat sz = 2 ^ k" and "unat head mod 2 ^ k = H mod 2 ^ k" and "unat tail mod 2 ^ k = T mod 2 ^ k"
    and "T \<le> H" and "H < T + 2 ^ k"
  shows "unat (CIRC_SPACE head tail sz) = T + 2 ^ k - 1 - H"
proof -
  have k: "k \<le> LENGTH(32)" using unat_pow2_eq(2) [OF assms(1)] by simp
  have "unat (head + 1) mod 2 ^ k = (H + 1) mod 2 ^ k"
    using assms(2) by (metis k unat_mod_pow2_add unat_1 mod_add_left_eq)
  moreover have "unat tail mod 2 ^ k = (T + 2 ^ k) mod 2 ^ k" using assms(3) by simp
  ultimately have "unat (CIRC_CNT tail (head + 1) sz) = (T + 2 ^ k - (H + 1)) mod 2 ^ k"
    using assms(1,5) by (intro CIRC_CNT_nat) auto
  moreover have "T + 2 ^ k - (H + 1) < 2 ^ k" using assms(4,5) by linarith
  ultimately show ?thesis by (simp add: CIRC_SPACE_def)
qed

lemma ring_advance [word_nat]:
  fixes s :: "'a::len word"
  assumes "unat s = 2 ^ k" and "unat x = X mod 2 ^ k"
  shows "unat ((x + n) AND (s - 1)) = (X + unat n) mod 2 ^ k"
proof -
  have "k \<le> LENGTH('a)" using unat_pow2_eq(2) [OF assms(1)] by simp
  then have "unat (x + n) mod 2 ^ k = (unat x + unat n) mod 2 ^ k" by (rule unat_mod_pow2_add)
  then show ?thesis using assms by (simp add: unat_and_pow2_minus_1 mod_simps)
qed

lemma unat_ucast_up:
  "LENGTH('a) \<le> LENGTH('b) \<Longrightarrow> unat (ucast (x :: 'a::len word) :: 'b::len word) = unat x"
  by (metis unat_less_pow unsigned_ucast_eq take_bit_nat_eq_self_iff unsigned_take_bit_eq
      power_increasing_iff one_less_numeral_iff semiring_norm(76) order_less_le_trans)

end
