(* ===== verification/Rma_Window.thy ===== *)
theory Rma_Window
  imports Scif_Prelude "HOL-Library.Multiset"
begin

text \<open>
  Registered windows (\<open>micscif_rma.h\<close>, \<open>micscif_rma_list.c\<close>): the list of windows of an endpoint in the order of their
  offsets, the insertion into it, the queries that find the windows of a range, the list of temporary windows
  in the order of their virtual addresses, and the lookup of the DMA address of an offset in a window. A list is
  the sequence of its windows from the head on; a pointer to a window is its address \<open>waddr\<close>.
  \<open>None\<close> is a \<open>BUG_ON\<close>, or an access outside of an array or past the end of a list.
\<close>

section \<open>Data\<close>

datatype range_request = WINDOW_PARTIAL | WINDOW_SINGLE | WINDOW_FULL

datatype rma_window_type = RMA_WINDOW_SELF | RMA_WINDOW_PEER

datatype micscif_msg_state = OP_IDLE | OP_IN_PROGRESS | OP_COMPLETED | OP_FAILED

record allocmsg =
  al_phys_addr :: u64
  al_vaddr :: u64
  al_state :: micscif_msg_state

record reg_range =
  waddr :: u64
  nr_pages :: u64
  nr_contig_chunks :: u64
  prot :: u32
  wref_count :: u32
  magic :: u64
  offset :: u64
  va_for_temp :: u64
  wtype :: rma_window_type
  peer_window :: u64
  unreg_state :: micscif_msg_state
  offset_freed :: bool
  pinned :: "u64 list"
  get_put_ref_count :: u32
  dma_addrs :: "u64 list"
  num_pages :: "u32 list"
  wtemp :: bool
  reg_state :: micscif_msg_state
  alloc_handle :: allocmsg
  pinned_pages :: u64
  mapped_offset :: u64
  nr_lookup :: nat
  dma_lookup :: "nat list"
  dma_lookup_offset :: u64

record micscif_rma_req =
  req_offset :: u64
  req_nr_bytes :: u64
  req_prot :: u32
  req_type :: range_request
  req_va_for_temp :: u64

abbreviation (input) WPAGE_SHIFT :: nat where "WPAGE_SHIFT \<equiv> 12"
abbreviation WPAGE :: u64 where "WPAGE \<equiv> 4096"

definition SCIFEP_MAGIC :: u64 where "SCIFEP_MAGIC = 0x5c1f000000005c1f"

definition end_offset :: "reg_range \<Rightarrow> u64" where
  "end_offset w = offset w + push_bit WPAGE_SHIFT (nr_pages w)"

section \<open>Operations\<close>

text \<open>The scan of the insertions: past all windows that do not come after the new one.\<close>

fun insert_scan :: "(reg_range \<Rightarrow> u64) \<Rightarrow> reg_range \<Rightarrow> reg_range list \<Rightarrow> reg_range list" where
  "insert_scan key window [] = [window]"
| "insert_scan key window (cur # head) =
     (if key cur > key window then window # cur # head else cur # insert_scan key window head)"

definition micscif_insert_window :: "reg_range \<Rightarrow> reg_range list \<Rightarrow> reg_range list" where
  "micscif_insert_window window head = insert_scan offset window head"

definition micscif_insert_tcw :: "reg_range \<Rightarrow> reg_range list \<Rightarrow> reg_range list" where
  "micscif_insert_tcw window head =
     (if head \<noteq> [] \<and> va_for_temp (last head) < va_for_temp window then head @ [window]
      else insert_scan va_for_temp window head)"

text \<open>The loop of \<open>micscif_query_window\<close>: the result is an error or the first window.\<close>

fun query_loop :: "micscif_rma_req \<Rightarrow> reg_range list \<Rightarrow> u64 \<Rightarrow> u64 \<Rightarrow> reg_range option \<Rightarrow> errno + reg_range option" where
  "query_loop req [] off left out = Inl ENXIO"
| "query_loop req (window # head) off left out =
     (if off < offset window then Inl ENXIO
      else if off < end_offset window then
        if prot window AND req_prot req \<noteq> req_prot req then Inl EPERM
        else
          let out = (if left = req_nr_bytes req then Some window else out);
              tmp_min = min (end_offset window - off) left;
              left = left - tmp_min;
              off = off + tmp_min
          in if left = 0 then
               if req_type req = WINDOW_PARTIAL \<or> req_type req = WINDOW_SINGLE then Inr out
               else if off = end_offset window then Inr out
               else Inl ENXIO
             else if req_type req = WINDOW_SINGLE then Inl ENXIO
             else query_loop req head off left out
      else query_loop req head off left out)"

definition micscif_query_window :: "micscif_rma_req \<Rightarrow> reg_range list \<Rightarrow> errno + reg_range option" where
  "micscif_query_window req head = query_loop req head (req_offset req) (req_nr_bytes req) None"

text \<open>
  The query of the temporary windows. The result has the window found, if any, the request, which may have been extended, the list, from which
  an overlapping window may have been taken out, and the windows queued for cleanup.
\<close>

record tcw_result =
  tcw_found :: "reg_range option"
  tcw_req :: micscif_rma_req
  tcw_list :: "reg_range list"
  tcw_cleanup :: "reg_range list"

definition va_end :: "reg_range \<Rightarrow> u64" where
  "va_end w = va_for_temp w + push_bit WPAGE_SHIFT (nr_pages w)"

fun tcw_loop :: "micscif_rma_req \<Rightarrow> reg_range list \<Rightarrow> reg_range list \<Rightarrow> tcw_result" where
  "tcw_loop req pre [] = \<lparr>tcw_found = None, tcw_req = req, tcw_list = pre, tcw_cleanup = []\<rparr>"
| "tcw_loop req pre (window # head) =
     (let start_va_req = req_va_for_temp req; end_va_req = start_va_req + req_nr_bytes req;
          start_va_window = va_for_temp window; end_va_window = va_end window
      in if start_va_req < start_va_window then
           if end_va_req < start_va_window then \<lparr>tcw_found = None, tcw_req = req, tcw_list = pre @ window # head, tcw_cleanup = []\<rparr>
           else \<lparr>tcw_found = None,
                  tcw_req = (if prot window AND req_prot req \<noteq> req_prot req then req
                    else req\<lparr>req_nr_bytes := req_nr_bytes req + (if end_va_req > end_va_window then 0 else end_va_window - end_va_req)\<rparr>),
                  tcw_list = pre @ head, tcw_cleanup = [window]\<rparr>
         else if start_va_req > end_va_window then tcw_loop req (pre @ [window]) head
         else if prot window AND req_prot req \<noteq> req_prot req then
           \<lparr>tcw_found = None, tcw_req = req, tcw_list = pre @ head, tcw_cleanup = [window]\<rparr>
         else if end_va_req > end_va_window then
           \<lparr>tcw_found = None, tcw_req = req\<lparr>req_va_for_temp := start_va_window, req_nr_bytes := end_va_req - start_va_window\<rparr>,
             tcw_list = pre @ head, tcw_cleanup = [window]\<rparr>
         else \<lparr>tcw_found = Some window, tcw_req = req, tcw_list = pre @ window # head, tcw_cleanup = []\<rparr>)"

definition micscif_query_tcw :: "micscif_rma_req \<Rightarrow> reg_range list \<Rightarrow> tcw_result" where
  "micscif_query_tcw req head =
     (if head \<noteq> [] \<and> req_va_for_temp req > va_end (last head)
      then \<lparr>tcw_found = None, tcw_req = req, tcw_list = head, tcw_cleanup = []\<rparr>
      else tcw_loop req [] head)"

text \<open>
  \<open>chunk_bytes\<close> is \<open>num_pages[i] << PAGE_SHIFT\<close>, which is computed at the width of an \<open>int\<close>
  and then extended with its sign.
\<close>

definition chunk_bytes :: "u32 \<Rightarrow> u64" where
  "chunk_bytes n = scast (push_bit WPAGE_SHIFT n)"

text \<open>The search for the chunk of an offset, from chunk \<open>i\<close> on, which starts at \<open>start\<close>.\<close>

fun chunk_search :: "reg_range \<Rightarrow> u64 \<Rightarrow> nat \<Rightarrow> nat \<Rightarrow> u64 \<Rightarrow> (u64 \<times> u64 \<times> nat \<times> u64) option" where
  "chunk_search w off 0 i start = None"
| "chunk_search w off (Suc n) i start =
     (if i < length (num_pages w) \<and> i < length (dma_addrs w) then
        let fin = start + chunk_bytes (num_pages w ! i)
        in if off \<ge> start \<and> off < fin then Some (dma_addrs w ! i + (off - start), fin - off, i, start)
           else chunk_search w off n (i + 1) fin
      else None)"

text \<open>
  \<open>micscif_get_dma_addr\<close>: the address, the number of contiguous bytes from there, and the new values of \<open>index\<close> and
  \<open>start_off\<close>. A caller that passes no pointer for these starts at \<open>0\<close> and at the offset of the window.
\<close>

definition micscif_get_dma_addr :: "reg_range \<Rightarrow> u64 \<Rightarrow> nat \<times> u64 \<Rightarrow> (u64 \<times> u64 \<times> nat \<times> u64) option" where
  "micscif_get_dma_addr w off idx =
     (if nr_pages w = nr_contig_chunks w then
        let page_nr = sint (ucast (drop_bit WPAGE_SHIFT (off - offset w)) :: u32);
            page_off = off AND (WPAGE - 1)
        in if 0 \<le> page_nr \<and> nat page_nr < length (dma_addrs w)
           then Some (dma_addrs w ! nat page_nr OR page_off, WPAGE - page_off, fst idx, snd idx) else None
      else chunk_search w off (unat (nr_contig_chunks w) - fst idx) (fst idx) (snd idx))"

abbreviation no_index :: "reg_range \<Rightarrow> nat \<times> u64" where "no_index w \<equiv> (0, offset w)"

definition get_window_ref_count :: "reg_range \<Rightarrow> u64 \<Rightarrow> reg_range" where
  "get_window_ref_count w n = w\<lparr>wref_count := wref_count w + ucast n\<rparr>"

definition put_window_ref_count :: "reg_range \<Rightarrow> u64 \<Rightarrow> reg_range option" where
  "put_window_ref_count w n =
     (if sint (nr_pages w) < 0 then None else Some (w\<lparr>wref_count := wref_count w - ucast n\<rparr>))"

section \<open>Windows as sets of bytes\<close>

definition wlo :: "reg_range \<Rightarrow> nat" where "wlo w = unat (offset w)"
definition whi :: "reg_range \<Rightarrow> nat" where "whi w = unat (offset w) + unat (nr_pages w) * 4096"

text \<open>The windows of an endpoint: each of at least one page, in the order of their offsets and without a common byte.\<close>

definition win_ok :: "reg_range \<Rightarrow> bool" where
  "win_ok w \<longleftrightarrow> 0 < unat (nr_pages w) \<and> whi w < 2 ^ 63 \<and> unat (offset w) mod 4096 = 0"

definition wins_ok :: "reg_range list \<Rightarrow> bool" where
  "wins_ok ws \<longleftrightarrow> (\<forall>w \<in> set ws. win_ok w) \<and> sorted_wrt (\<lambda>v w. whi v \<le> wlo w) ws"

lemma wins_ok_Nil [simp]: "wins_ok []" by (simp add: wins_ok_def)

lemma wins_ok_Cons [simp]: "wins_ok (w # ws) \<longleftrightarrow> win_ok w \<and> (\<forall>v \<in> set ws. whi w \<le> wlo v) \<and> wins_ok ws"
  by (auto simp: wins_ok_def)

lemma wins_ok_append: "wins_ok (us @ ws) \<longleftrightarrow> wins_ok us \<and> wins_ok ws \<and> (\<forall>u \<in> set us. \<forall>w \<in> set ws. whi u \<le> wlo w)"
  by (auto simp: wins_ok_def sorted_wrt_append)

lemma push_page: "unat n * 4096 < 2 ^ 64 \<Longrightarrow> unat (push_bit WPAGE_SHIFT n) = unat n * 4096" for n :: u64
  by (simp add: push_bit_eq_mult unat_word_ariths)

lemma win_ok_end:
  assumes "win_ok w"
  shows "unat (end_offset w) = whi w" and "wlo w < whi w"
proof -
  have b: "unat (offset w) + unat (nr_pages w) * 4096 < 2 ^ 64" using assms by (simp add: win_ok_def whi_def)
  then have "unat (push_bit WPAGE_SHIFT (nr_pages w)) = unat (nr_pages w) * 4096" by (intro push_page) linarith
  then show "unat (end_offset w) = whi w" using b by (simp add: end_offset_def whi_def unat_word_ariths)
  show "wlo w < whi w" using assms by (simp add: win_ok_def whi_def wlo_def)
qed

section \<open>Insertion\<close>

lemma insert_scan_mset [simp]: "mset (insert_scan key w ws) = add_mset w (mset ws)"
  by (induction ws) auto

lemma insert_scan_set [simp]: "set (insert_scan key w ws) = insert w (set ws)"
  by (induction ws) auto

lemma insert_scan_split:
  "\<exists>us vs. insert_scan key w ws = us @ w # vs \<and> ws = us @ vs \<and> (\<forall>u \<in> set us. key u \<le> key w) \<and> (vs \<noteq> [] \<longrightarrow> key w < key (hd vs))"
proof (induction ws)
  case (Cons x xs)
  show ?case
  proof (cases "key x > key w")
    case True
    then show ?thesis by (intro exI [of _ "[]"] exI [of _ "x # xs"]) auto
  next
    case False
    from Cons obtain us vs where "insert_scan key w xs = us @ w # vs" "xs = us @ vs" "\<forall>u \<in> set us. key u \<le> key w"
      "vs \<noteq> [] \<longrightarrow> key w < key (hd vs)" by blast
    then show ?thesis using False by (intro exI [of _ "x # us"] exI [of _ vs]) auto
  qed
qed simp

lemma insert_scan_sorted:
  "sorted (map key ws) \<Longrightarrow> sorted (map key (insert_scan key w ws))"
  by (induction ws) (auto simp: not_less)

lemma insert_scan_tail:
  "ws \<noteq> [] \<Longrightarrow> sorted (map key ws) \<Longrightarrow> key (last ws) < key w \<Longrightarrow> insert_scan key w ws = ws @ [w]"
proof (induction ws)
  case (Cons x xs)
  have "key x \<le> key (last (x # xs))" using Cons.prems(2) by auto
  then have "\<not> key x > key w" using Cons.prems(3) by (meson leD le_less_trans order.strict_trans)
  then show ?case using Cons by (cases "xs = []") auto
qed simp

lemma insert_window_ok:
  assumes "wins_ok ws" and "win_ok w" and "\<forall>v \<in> set ws. whi v \<le> wlo w \<or> whi w \<le> wlo v"
  shows "wins_ok (micscif_insert_window w ws)"
  using assms
proof (induction ws)
  case (Cons x xs)
  have x: "win_ok x" using Cons.prems by simp
  show ?case
  proof (cases "offset x > offset w")
    case True
    then have "wlo w < wlo x" by (simp add: wlo_def word_less_nat_alt)
    then have "whi w \<le> wlo x" using Cons.prems win_ok_end(2) [OF x] by fastforce
    then show ?thesis using True Cons.prems win_ok_end(2) [OF x] by (fastforce simp: micscif_insert_window_def)
  next
    case False
    then have "wlo x \<le> wlo w" by (simp add: wlo_def word_le_nat_alt word_less_nat_alt)
    then have "whi x \<le> wlo w" using Cons.prems win_ok_end(2) [OF Cons.prems(2)] by fastforce
    then show ?thesis using False Cons by (auto simp: micscif_insert_window_def)
  qed
qed (simp add: micscif_insert_window_def)

section \<open>Queries\<close>

text \<open>The reference for the queries looks at every byte of the range.\<close>

definition win_at :: "reg_range list \<Rightarrow> nat \<Rightarrow> reg_range option" where
  "win_at ws x = List.find (\<lambda>w. wlo w \<le> x \<and> x < whi w) ws"

definition permits :: "u32 \<Rightarrow> reg_range \<Rightarrow> bool" where
  "permits p w \<longleftrightarrow> prot w AND p = p"

fun check_bytes :: "reg_range list \<Rightarrow> u32 \<Rightarrow> nat \<Rightarrow> nat \<Rightarrow> errno option" where
  "check_bytes ws p x 0 = None"
| "check_bytes ws p x (Suc n) =
     (case win_at ws x of
        None \<Rightarrow> Some ENXIO
      | Some w \<Rightarrow> if permits p w then check_bytes ws p (Suc x) n else Some EPERM)"

text \<open>What the code answers: for full windows it looks at the end of the range only.\<close>

fun query_answer :: "range_request \<Rightarrow> reg_range list \<Rightarrow> u32 \<Rightarrow> nat \<Rightarrow> nat \<Rightarrow> errno + reg_range option" where
  "query_answer WINDOW_PARTIAL ws p x n = (case check_bytes ws p x n of Some e \<Rightarrow> Inl e | None \<Rightarrow> Inr (win_at ws x))"
| "query_answer WINDOW_SINGLE ws p x n =
     (case win_at ws x of
        None \<Rightarrow> Inl ENXIO
      | Some w \<Rightarrow> if \<not> permits p w then Inl EPERM else if x + n \<le> whi w then Inr (Some w) else Inl ENXIO)"
| "query_answer WINDOW_FULL ws p x n =
     (case check_bytes ws p x n of
        Some e \<Rightarrow> Inl e
      | None \<Rightarrow> if \<exists>w \<in> set ws. whi w = x + n then Inr (win_at ws x) else Inl ENXIO)"

text \<open>
  What the query is documented to decide. A range of full windows begins where a window begins and ends where one ends.
\<close>

fun query_spec :: "range_request \<Rightarrow> reg_range list \<Rightarrow> u32 \<Rightarrow> nat \<Rightarrow> nat \<Rightarrow> errno + reg_range option" where
  "query_spec WINDOW_PARTIAL ws p x n = (case check_bytes ws p x n of Some e \<Rightarrow> Inl e | None \<Rightarrow> Inr (win_at ws x))"
| "query_spec WINDOW_SINGLE ws p x n =
     (case win_at ws x of
        None \<Rightarrow> Inl ENXIO
      | Some w \<Rightarrow> if \<not> permits p w then Inl EPERM else if x + n \<le> whi w then Inr (Some w) else Inl ENXIO)"
| "query_spec WINDOW_FULL ws p x n =
     (case check_bytes ws p x n of
        Some e \<Rightarrow> Inl e
      | None \<Rightarrow> if (\<exists>w \<in> set ws. wlo w = x) \<and> (\<exists>w \<in> set ws. whi w = x + n) then Inr (win_at ws x) else Inl ENXIO)"

text \<open>The answers are the same for a range that does not begin in the midst of a window.\<close>

lemma query_answer_spec:
  assumes "t = WINDOW_FULL \<Longrightarrow> \<forall>w \<in> set ws. wlo w < x \<longrightarrow> whi w \<le> x" and "0 < n"
  shows "query_answer t ws p x n = query_spec t ws p x n"
proof (cases t)
  case WINDOW_FULL
  have "\<exists>w \<in> set ws. wlo w = x" if c: "check_bytes ws p x n = None"
  proof -
    obtain w where "win_at ws x = Some w" using c assms(2) by (cases n) (auto split: option.splits)
    then have "w \<in> set ws" "wlo w \<le> x" "x < whi w" by (auto simp: win_at_def find_Some_iff)
    then show ?thesis using assms(1) WINDOW_FULL by (metis le_neq_implies_less not_le)
  qed
  then show ?thesis using WINDOW_FULL by (auto split: option.split)
qed simp_all

lemma win_at_before: "wins_ok (w # ws) \<Longrightarrow> x < wlo w \<Longrightarrow> win_at (w # ws) x = None"
  using win_ok_end(2) [of w] by (fastforce simp: win_at_def find_None_iff)

lemma win_at_in: "wlo w \<le> x \<Longrightarrow> x < whi w \<Longrightarrow> win_at (w # ws) x = Some w"
  by (simp add: win_at_def)

lemma win_at_after: "whi w \<le> x \<Longrightarrow> win_at (w # ws) x = win_at ws x"
  by (simp add: win_at_def)

lemma check_bytes_after: "whi w \<le> x \<Longrightarrow> check_bytes (w # ws) p x n = check_bytes ws p x n"
  by (induction n arbitrary: x) (simp_all add: win_at_after split: option.split)

lemma check_bytes_in:
  "wlo w \<le> x \<Longrightarrow> x + m \<le> whi w \<Longrightarrow> permits p w \<Longrightarrow> check_bytes (w # ws) p x (m + n) = check_bytes (w # ws) p (x + m) n"
  by (induction m arbitrary: x) (auto simp: win_at_in)

lemma query_answer_multi:
  "t \<noteq> WINDOW_SINGLE \<Longrightarrow> query_answer t ws p x n =
     (case check_bytes ws p x n of Some e \<Rightarrow> Inl e
      | None \<Rightarrow> if t = WINDOW_FULL \<and> \<not> (\<exists>w \<in> set ws. whi w = x + n) then Inl ENXIO else Inr (win_at ws x))"
  by (cases t) (auto split: option.split)

lemma check_bytes_before: "wins_ok (w # ws) \<Longrightarrow> x < wlo w \<Longrightarrow> 0 < n \<Longrightarrow> check_bytes (w # ws) p x n = Some ENXIO"
  by (cases n) (simp_all add: win_at_before)

lemma check_bytes_denied: "wlo w \<le> x \<Longrightarrow> x < whi w \<Longrightarrow> \<not> permits p w \<Longrightarrow> 0 < n \<Longrightarrow> check_bytes (w # ws) p x n = Some EPERM"
  by (cases n) (simp_all add: win_at_in)

text \<open>A range that ends in the first window, and one that goes beyond it.\<close>

lemma check_bytes_inside: "wlo w \<le> x \<Longrightarrow> x + n \<le> whi w \<Longrightarrow> permits p w \<Longrightarrow> check_bytes (w # ws) p x n = None"
  using check_bytes_in [of w x n p ws 0] by simp

lemma check_bytes_beyond:
  assumes "wlo w \<le> x" and "x \<le> whi w" and "whi w \<le> x + n" and "permits p w"
  shows "check_bytes (w # ws) p x n = check_bytes ws p (whi w) (x + n - whi w)"
  using check_bytes_in [of w x "whi w - x" p ws "x + n - whi w"] check_bytes_after [of w "whi w" ws] assms by simp

lemma full_end:
  assumes "wins_ok (w # ws)" and "e \<le> whi w"
  shows "(\<exists>v \<in> set (w # ws). whi v = e) \<longleftrightarrow> whi w = e"
  using assms win_ok_end(2) by (fastforce simp: wins_ok_def)

lemma query_loop_spec:
  assumes "wins_ok ws" and "0 < left" and "unat off + unat left < 2 ^ 64" and "left \<le> req_nr_bytes req"
    and t: "req_type req \<noteq> WINDOW_SINGLE"
  shows "query_loop req ws off left out =
    map_sum id (\<lambda>first. if left = req_nr_bytes req then first else out)
      (query_answer (req_type req) ws (req_prot req) (unat off) (unat left))"
  using assms(1-4)
proof (induction ws arbitrary: off left out)
  case Nil
  then obtain k where "unat left = Suc k" using unat_gt_0 [of left] by (metis gr0_implies_Suc word_neq_0_conv)
  then show ?case using t by (simp add: query_answer_multi win_at_def)
next
  case (Cons w ws)
  let ?x = "unat off" and ?n = "unat left" and ?p = "req_prot req"
  have w: "win_ok w" using Cons.prems by simp
  have n: "0 < ?n" using Cons.prems(2) by (simp add: unat_gt_0 word_neq_0_conv)
  note en = win_ok_end(1) [OF w]
  have lt: "off < offset w \<longleftrightarrow> ?x < wlo w" "off < end_offset w \<longleftrightarrow> ?x < whi w"
    using en by (simp_all add: word_less_nat_alt wlo_def)
  have pr: "prot w AND ?p \<noteq> ?p \<longleftrightarrow> \<not> permits ?p w" by (simp add: permits_def)
  consider "?x < wlo w" | "whi w \<le> ?x" | "wlo w \<le> ?x" "?x < whi w" "\<not> permits ?p w"
    | "wlo w \<le> ?x" "?x < whi w" "permits ?p w" by linarith
  then show ?case
  proof cases
    case 1
    then show ?thesis using Cons.prems n t lt check_bytes_before by (simp add: query_answer_multi)
  next
    case 2
    then have "\<not> ?x < wlo w" using win_ok_end(2) [OF w] by linarith
    moreover have "query_answer (req_type req) (w # ws) ?p ?x ?n = query_answer (req_type req) ws ?p ?x ?n"
      using t 2 n by (simp add: query_answer_multi check_bytes_after win_at_after split: option.split)
    ultimately show ?thesis using Cons.IH [of left off out] Cons.prems 2 lt by simp
  next
    case 3
    then show ?thesis using Cons.prems n t lt pr check_bytes_denied by (simp add: query_answer_multi)
  next
    case 4
    have m: "unat (min (end_offset w - off) left) = min (whi w - ?x) ?n"
      using en 4 by (auto simp: min_def word_le_nat_alt unat_sub word_less_nat_alt)
    show ?thesis
    proof (cases "?x + ?n \<le> whi w")
      case True
      then have mm: "min (end_offset w - off) left = left" using m by (simp add: word_unat_eq_iff)
      have "off + left = end_offset w \<longleftrightarrow> ?x + ?n = whi w"
        using en Cons.prems(3) by (simp add: word_unat_eq_iff unat_word_ariths)
      then show ?thesis using 4 t lt pr mm True full_end [OF Cons.prems(1) True] check_bytes_inside [OF 4(1) True 4(3)]
        by (cases "req_type req") (auto simp: query_answer_multi win_at_in)
    next
      case False
      let ?d = "end_offset w - off"
      have mm: "min (end_offset w - off) left = ?d" and d: "unat ?d = whi w - ?x"
        using m False 4 en by (simp_all add: word_unat_eq_iff)
      have e: "unat (off + ?d) = whi w" "unat (left - ?d) = ?x + ?n - whi w"
        using d en 4 False by (simp_all add: unat_sub word_le_nat_alt)
      have "query_loop req ws (off + ?d) (left - ?d) out' =
          map_sum id (\<lambda>_. out') (query_answer (req_type req) ws ?p (whi w) (?x + ?n - whi w))" for out'
      proof -
        have l: "0 < left - ?d" "unat (left - ?d) < unat (req_nr_bytes req)"
          using e False Cons.prems(4) 4 by (simp_all add: word_less_nat_alt word_le_nat_alt)
        have ne: "left - ?d \<noteq> req_nr_bytes req" using l(2) by auto
        have "query_loop req ws (off + ?d) (left - ?d) out' = map_sum id (\<lambda>first. if left - ?d = req_nr_bytes req then first else out')
            (query_answer (req_type req) ws ?p (unat (off + ?d)) (unat (left - ?d)))"
          using l Cons.prems(1,3) e False by (intro Cons.IH) (simp_all add: word_le_nat_alt)
        then show ?thesis unfolding e if_not_P [OF ne] .
      qed
      note ih = this
      have "left - ?d \<noteq> 0" using e False by (auto simp: unat_eq_0 [symmetric] simp del: unat_eq_0)
      then have "query_loop req (w # ws) off left out =
          query_loop req ws (off + ?d) (left - ?d) (if left = req_nr_bytes req then Some w else out)"
        using 4 lt pr mm t by (simp add: Let_def)
      moreover have "check_bytes (w # ws) ?p ?x ?n = check_bytes ws ?p (whi w) (?x + ?n - whi w)"
        using 4 False by (intro check_bytes_beyond) auto
      ultimately show ?thesis using ih 4 t False by (auto simp: query_answer_multi win_at_in split: option.split)
    qed
  qed
qed

lemma query_loop_single:
  assumes "wins_ok ws" and "0 < req_nr_bytes req" and "unat off + unat (req_nr_bytes req) < 2 ^ 64"
    and "req_type req = WINDOW_SINGLE"
  shows "query_loop req ws off (req_nr_bytes req) out = query_answer WINDOW_SINGLE ws (req_prot req) (unat off) (unat (req_nr_bytes req))"
  using assms(1,3)
proof (induction ws)
  case (Cons w ws)
  let ?x = "unat off" and ?n = "unat (req_nr_bytes req)" and ?p = "req_prot req"
  have w: "win_ok w" using Cons.prems by simp
  note en = win_ok_end(1) [OF w]
  have lt: "off < offset w \<longleftrightarrow> ?x < wlo w" "off < end_offset w \<longleftrightarrow> ?x < whi w"
    using en by (simp_all add: word_less_nat_alt wlo_def)
  have pr: "prot w AND ?p \<noteq> ?p \<longleftrightarrow> \<not> permits ?p w" by (simp add: permits_def)
  consider "?x < wlo w" | "whi w \<le> ?x" | "wlo w \<le> ?x" "?x < whi w" by linarith
  then show ?case
  proof cases
    case 1
    then show ?thesis using Cons.prems lt by (simp add: win_at_before)
  next
    case 2
    then have "\<not> ?x < wlo w" using win_ok_end(2) [OF w] by linarith
    then show ?thesis using Cons 2 lt by (simp add: win_at_after)
  next
    case 3
    have m: "unat (min (end_offset w - off) (req_nr_bytes req)) = min (whi w - ?x) ?n"
      using en 3 by (auto simp: min_def word_le_nat_alt unat_sub word_less_nat_alt)
    have "req_nr_bytes req - min (end_offset w - off) (req_nr_bytes req) = 0 \<longleftrightarrow> ?n = min (whi w - ?x) ?n"
      by (simp only: right_minus_eq word_unat_eq_iff [of "req_nr_bytes req"] m)
    also have "\<dots> \<longleftrightarrow> ?x + ?n \<le> whi w" using 3 by (simp add: min_def) linarith
    finally have "req_nr_bytes req - min (end_offset w - off) (req_nr_bytes req) = 0 \<longleftrightarrow> ?x + ?n \<le> whi w" .
    then show ?thesis using 3 lt pr assms(4) by (simp add: win_at_in Let_def)
  qed
qed (simp add: win_at_def)

section \<open>DMA addresses\<close>

text \<open>The page of a window with number \<open>p\<close> is in the chunk whose pages are counted by \<open>pages_before\<close>.\<close>

definition nchunks :: "reg_range \<Rightarrow> nat" where "nchunks w = unat (nr_contig_chunks w)"

definition pages_before :: "reg_range \<Rightarrow> nat \<Rightarrow> nat" where
  "pages_before w i = (\<Sum>j < i. unat (num_pages w ! j))"

definition dma_ok :: "reg_range \<Rightarrow> bool" where
  "dma_ok w \<longleftrightarrow> win_ok w \<and> nchunks w \<le> length (dma_addrs w) \<and> nchunks w \<le> length (num_pages w) \<and>
     pages_before w (nchunks w) = unat (nr_pages w) \<and> unat (nr_pages w) < 2 ^ 31 \<and>
     (\<forall>i < nchunks w. 0 < unat (num_pages w ! i) \<and> unat (num_pages w ! i) < 2 ^ 19 \<and>
        unat (dma_addrs w ! i) mod 4096 = 0 \<and> unat (dma_addrs w ! i) + unat (num_pages w ! i) * 4096 < 2 ^ 64)"

definition page_addrs :: "reg_range \<Rightarrow> nat list" where
  "page_addrs w = concat (map (\<lambda>i. map (\<lambda>k. unat (dma_addrs w ! i) + k * 4096) [0..<unat (num_pages w ! i)]) [0..<nchunks w])"

text \<open>The bus address of the byte with offset \<open>x\<close> in the registered address space.\<close>

definition byte_addr :: "reg_range \<Rightarrow> nat \<Rightarrow> nat" where
  "byte_addr w x = page_addrs w ! ((x - wlo w) div 4096) + x mod 4096"

lemma pages_before_Suc: "pages_before w (Suc i) = pages_before w i + unat (num_pages w ! i)"
  by (simp add: pages_before_def)

lemma pages_before_mono: "i \<le> j \<Longrightarrow> pages_before w i \<le> pages_before w j"
  unfolding pages_before_def by (rule sum_mono2) auto

lemma concat_upt_nth:
  assumes "i < n" and "k < length (f i)"
  shows "concat (map f [0..<n]) ! ((\<Sum>j < i. length (f j)) + k) = f i ! k"
  using assms
proof (induction n)
  case (Suc n)
  have len: "length (concat (map f [0..<m])) = (\<Sum>j < m. length (f j))" for m by (induction m) auto
  show ?case
  proof (cases "i = n")
    case True
    then show ?thesis using Suc.prems len [of n] by (simp add: nth_append)
  next
    case False
    then have "i < n" using Suc.prems by simp
    then have "(\<Sum>j < i. length (f j)) + length (f i) \<le> (\<Sum>j < n. length (f j))"
      using sum_mono2 [of "{..<n}" "{..<Suc i}" "\<lambda>j. length (f j)"] by simp
    then show ?thesis using Suc \<open>i < n\<close> len [of n] by (simp add: nth_append)
  qed
qed simp

lemma page_addrs_nth:
  assumes "i < nchunks w" and "k < unat (num_pages w ! i)"
  shows "page_addrs w ! (pages_before w i + k) = unat (dma_addrs w ! i) + k * 4096"
  using concat_upt_nth [of i "nchunks w" k "\<lambda>i. map (\<lambda>k. unat (dma_addrs w ! i) + k * 4096) [0..<unat (num_pages w ! i)]"] assms
  by (simp add: page_addrs_def pages_before_def)

lemma sint_small: "unat n < 2 ^ 31 \<Longrightarrow> sint n = int (unat n)" for n :: u32
proof -
  assume "unat n < 2 ^ 31"
  then have "int (unat n) < int (2 ^ 31)" by (simp only: of_nat_less_iff)
  moreover have "- (2 ^ 31) \<le> uint n" by (rule order_trans [of _ 0]) simp_all
  ultimately have "signed_take_bit 31 (uint n) = int (unat n)" by (subst signed_take_bit_int_eq_self) simp_all
  then show ?thesis by (simp add: sint_uint)
qed

lemma chunk_bytes_nat:
  assumes "unat n < 2 ^ 19"
  shows "unat (chunk_bytes n) = unat n * 4096"
proof -
  have u: "unat (push_bit WPAGE_SHIFT n) = unat n * 4096" using assms by (simp add: push_bit_eq_mult unat_word_ariths)
  then have "sint (push_bit WPAGE_SHIFT n) = int (unat n * 4096)" using assms sint_small [of "push_bit WPAGE_SHIFT n"] by simp
  then have "chunk_bytes n = of_nat (unat n * 4096)" unfolding chunk_bytes_def scast_eq by (simp only: of_int_of_nat_eq)
  then show ?thesis using assms by (simp only: unat_of_nat) simp
qed

text \<open>An index into the chunks, as an earlier lookup in the same window leaves it behind.\<close>

definition idx_ok :: "reg_range \<Rightarrow> nat \<times> u64 \<Rightarrow> bool" where
  "idx_ok w idx \<longleftrightarrow> fst idx < nchunks w \<and> unat (snd idx) = wlo w + pages_before w (fst idx) * 4096"

definition lookup_ok :: "reg_range \<Rightarrow> nat \<Rightarrow> u64 \<Rightarrow> u64 \<Rightarrow> bool" where
  "lookup_ok w x a nr \<longleftrightarrow> 0 < unat nr \<and> x + unat nr \<le> whi w \<and> (\<forall>k < unat nr. byte_addr w (x + k) = unat a + k) \<and>
     unat a + unat nr < 2 ^ 64 \<and> (x + unat nr) mod 4096 = 0"

lemma chunk_lookup:
  assumes w: "dma_ok w" and i: "i < nchunks w"
    and lo: "wlo w + pages_before w i * 4096 \<le> unat off" and hi: "unat off < wlo w + pages_before w (Suc i) * 4096"
    and st: "unat start = wlo w + pages_before w i * 4096" and fin: "unat fin = wlo w + pages_before w (Suc i) * 4096"
  shows "lookup_ok w (unat off) (dma_addrs w ! i + (off - start)) (fin - off)"
proof -
  let ?x = "unat off" and ?n = "unat (num_pages w ! i)" and ?d = "unat (dma_addrs w ! i)"
  have pg: "?d + ?n * 4096 < 2 ^ 64" "?d mod 4096 = 0" using w i by (auto simp: dma_ok_def)
  have wl: "wlo w mod 4096 = 0" using w by (simp add: dma_ok_def win_ok_def wlo_def)
  have S: "pages_before w (Suc i) = pages_before w i + ?n" by (rule pages_before_Suc)
  have a: "unat (off - start) = ?x - unat start" "unat (fin - off) = unat fin - ?x"
    using lo hi st fin by (simp_all add: unat_sub word_le_nat_alt)
  have lt: "?d + (?x - unat start) < ?d + ?n * 4096" using lo hi st S by simp
  then have da: "unat (dma_addrs w ! i + (off - start)) = ?d + (?x - unat start)"
    using pg(1) a by (simp add: unat_word_ariths)
  have "pages_before w (Suc i) \<le> unat (nr_pages w)" using w i pages_before_mono [of "Suc i" "nchunks w" w] by (simp add: dma_ok_def)
  then have e: "unat fin \<le> whi w" using fin by (simp add: whi_def wlo_def)
  have "byte_addr w (?x + k) = ?d + (?x - unat start) + k" if "k < unat fin - ?x" for k
  proof -
    let ?y = "?x + k - unat start"
    have y: "?y < ?n * 4096" "?x + k = unat start + ?y" using that lo st fin S by simp_all
    have "(?x + k - wlo w) div 4096 = (?y + pages_before w i * 4096) div 4096" using y(2) st by (simp add: add.commute)
    also have "\<dots> = pages_before w i + ?y div 4096" by simp
    finally have p: "(?x + k - wlo w) div 4096 = pages_before w i + ?y div 4096" .
    have "?y div 4096 < ?n" using y(1) by (simp add: div_less_iff_less_mult)
    then have "page_addrs w ! ((?x + k - wlo w) div 4096) = ?d + ?y div 4096 * 4096" unfolding p by (intro page_addrs_nth i)
    moreover have "(?x + k) mod 4096 = ?y mod 4096"
    proof -
      have "unat start mod 4096 = 0" unfolding st using wl by simp
      then have "(unat start + ?y) mod 4096 = ?y mod 4096" by (metis mod_add_left_eq add_0)
      then show ?thesis by (simp only: y(2) [symmetric])
    qed
    ultimately show ?thesis unfolding byte_addr_def using div_mult_mod_eq [of ?y 4096] lo st by linarith
  qed
  moreover have "?x + (unat fin - ?x) = unat fin" "?x < unat fin" using hi fin by simp_all
  moreover have "unat fin mod 4096 = 0" unfolding fin using wl by simp
  moreover have "?d + (?x - unat start) + (unat fin - ?x) = ?d + ?n * 4096" using lo hi st fin S by simp
  ultimately show ?thesis unfolding lookup_ok_def a(2) da using e pg(1) by simp
qed

lemma chunk_search_spec:
  assumes w: "dma_ok w" and "i + n = nchunks w" and "unat start = wlo w + pages_before w i * 4096"
    and "unat start \<le> unat off" and off: "unat off < whi w"
  shows "\<exists>a nr j s. chunk_search w off n i start = Some (a, nr, j, s) \<and> lookup_ok w (unat off) a nr \<and> idx_ok w (j, s) \<and> unat s \<le> unat off"
  using assms(2-4)
proof (induction n arbitrary: i start)
  case 0
  then have "whi w \<le> unat off" using w by (simp add: dma_ok_def whi_def wlo_def)
  then show ?case using off by simp
next
  case (Suc n)
  have i: "i < nchunks w" using Suc.prems(1) by simp
  let ?fin = "start + chunk_bytes (num_pages w ! i)"
  have len: "i < length (num_pages w)" "i < length (dma_addrs w)" and np: "unat (num_pages w ! i) < 2 ^ 19"
    using w i by (auto simp: dma_ok_def)
  have "pages_before w (Suc i) \<le> unat (nr_pages w)" using w i pages_before_mono [of "Suc i" "nchunks w" w] by (simp add: dma_ok_def)
  then have "wlo w + pages_before w (Suc i) * 4096 \<le> whi w" by (simp add: whi_def wlo_def)
  then have b: "wlo w + pages_before w (Suc i) * 4096 < 2 ^ 64" using w by (simp add: dma_ok_def win_ok_def)
  have f: "unat ?fin = wlo w + pages_before w (Suc i) * 4096"
    using Suc.prems(2) chunk_bytes_nat [OF np] b by (simp add: unat_word_ariths pages_before_Suc add_mult_distrib)
  show ?case
  proof (cases "off < ?fin")
    case True
    then have "lookup_ok w (unat off) (dma_addrs w ! i + (off - start)) (?fin - off)"
      using Suc.prems f by (intro chunk_lookup [OF w i]) (simp_all add: word_less_nat_alt)
    then show ?thesis using True Suc.prems i len by (simp add: word_le_nat_alt Let_def idx_ok_def)
  next
    case False
    then have "unat ?fin \<le> unat off" by (simp add: word_le_nat_alt word_less_nat_alt)
    from Suc.IH [OF _ f this] Suc.prems(1) show ?thesis using False len by (simp add: Let_def)
  qed
qed

text \<open>A window of single pages.\<close>

lemma single_pages:
  assumes w: "dma_ok w" and c: "nr_pages w = nr_contig_chunks w" and i: "i < nchunks w"
  shows "unat (num_pages w ! i) = 1" and "pages_before w i = i"
proof -
  have n: "(\<Sum>j < nchunks w. unat (num_pages w ! j)) = nchunks w" and pos: "\<forall>j < nchunks w. 1 \<le> unat (num_pages w ! j)"
    using w c by (auto simp: nchunks_def dma_ok_def pages_before_def)
  have "(\<Sum>j < nchunks w. unat (num_pages w ! j) - 1) = 0" using n pos by (subst sum_subtractf_nat) auto
  then have one: "\<forall>j < nchunks w. unat (num_pages w ! j) = 1" using pos by (simp add: Suc_le_eq le_antisym)
  show "unat (num_pages w ! i) = 1" using one i by blast
  have "pages_before w i = (\<Sum>j < i. 1)" unfolding pages_before_def using one i by (intro sum.cong) auto
  then show "pages_before w i = i" by simp
qed

lemma unat_of_nat64: "n < 2 ^ 64 \<Longrightarrow> unat (of_nat n :: u64) = n"
  by (simp add: unat_of_nat)

lemma page_off: "unat (off AND (WPAGE - 1)) = unat off mod 4096" for off :: u64
  using unat_and_pow2_minus_1 [of "WPAGE" 12 off] by simp

text \<open>A page address and an offset in the page have no common bit.\<close>

lemma page_or:
  fixes d :: u64
  assumes "unat d mod 4096 = 0" and "r < 4096"
  shows "d OR of_nat r = d + of_nat r"
proof -
  have "d AND of_nat r = 0"
  proof (rule bit_word_eqI)
    fix n
    have "\<not> (bit d n \<and> bit (of_nat r :: u64) n)"
    proof (cases "n < 12")
      case True
      then have "bit (take_bit 12 (unat d)) n \<longleftrightarrow> bit (unat d) n" by (simp add: bit_take_bit_iff)
      then show ?thesis using assms(1) by (simp add: take_bit_eq_mod bit_unsigned_iff)
    next
      case False
      have "take_bit 12 r = r" using assms(2) by (simp add: take_bit_nat_eq_self)
      then have "\<not> bit r n" using False by (metis bit_take_bit_iff)
      then show ?thesis by (simp add: bit_of_nat_iff)
    qed
    then show "bit (d AND of_nat r) n \<longleftrightarrow> bit 0 n" by (simp add: bit_and_iff)
  qed
  then show ?thesis by (simp add: disjunctive_add_eq_or)
qed

lemma get_dma_addr_spec:
  assumes w: "dma_ok w" and lo: "wlo w \<le> unat off" and hi: "unat off < whi w" and idx: "idx_ok w idx" "unat (snd idx) \<le> unat off"
  shows "\<exists>a nr idx'. micscif_get_dma_addr w off idx = Some (a, nr, idx') \<and> lookup_ok w (unat off) a nr \<and>
    idx_ok w idx' \<and> unat (snd idx') \<le> unat off"
proof (cases "nr_pages w = nr_contig_chunks w")
  case False
  have "fst idx + (nchunks w - fst idx) = nchunks w" using idx(1) by (simp add: idx_ok_def)
  from chunk_search_spec [OF w this _ idx(2) hi] idx(1) show ?thesis
    using False by (auto simp: micscif_get_dma_addr_def idx_ok_def nchunks_def)
next
  case True
  let ?p = "(unat off - wlo w) div 4096" and ?r = "unat off mod 4096"
  have wl: "wlo w mod 4096 = 0" "whi w = wlo w + unat (nr_pages w) * 4096" and np: "unat (nr_pages w) < 2 ^ 31"
    using w by (simp_all add: dma_ok_def win_ok_def wlo_def whi_def)
  have sub: "unat (off - offset w) = unat off - wlo w" using lo by (simp add: wlo_def unat_sub word_le_nat_alt)
  have p: "?p < nchunks w" using hi lo wl True by (simp add: div_less_iff_less_mult nchunks_def)
  have u: "unat (drop_bit WPAGE_SHIFT (off - offset w)) = ?p" using sub by (simp add: drop_bit_eq_div unat_div)
  have pn: "?p < 2 ^ 31" using p np True by (simp add: nchunks_def)
  have "unat (ucast (drop_bit WPAGE_SHIFT (off - offset w)) :: u32) = ?p"
    using pn u by (simp add: unsigned_ucast_eq take_bit_nat_eq_self)
  then have s: "sint (ucast (drop_bit WPAGE_SHIFT (off - offset w)) :: u32) = int ?p" using sint_small pn by metis
  have len: "?p < length (dma_addrs w)" using w p by (simp add: dma_ok_def)
  have x: "unat off = wlo w + ?p * 4096 + ?r"
  proof -
    have "(unat off - wlo w) mod 4096 = ?r" using wl(1) lo by (metis le_add_diff_inverse2 add_0_right mod_add_right_eq)
    then show ?thesis using lo div_mult_mod_eq [of "unat off - wlo w" 4096] by linarith
  qed
  let ?start = "of_nat (wlo w + ?p * 4096) :: u64" and ?fin = "of_nat (wlo w + Suc ?p * 4096) :: u64"
  have "wlo w + Suc ?p * 4096 \<le> whi w" using p wl(2) True by (simp add: nchunks_def)
  moreover have "whi w < 2 ^ 63" using w by (simp add: dma_ok_def win_ok_def)
  ultimately have uf: "unat ?start = wlo w + ?p * 4096" "unat ?fin = wlo w + Suc ?p * 4096"
    by (intro unat_of_nat64; simp)+
  note sp = single_pages [OF w True p]
  have xl: "wlo w + ?p * 4096 \<le> unat off" "unat off < wlo w + Suc ?p * 4096"
    using x mod_less_divisor [of 4096 "unat off"] unfolding mult_Suc by linarith+
  have lk: "lookup_ok w (unat off) (dma_addrs w ! ?p + (off - ?start)) (?fin - off)"
    using xl uf by (intro chunk_lookup [OF w p]; simp only: pages_before_Suc sp add_Suc_right add_0_right One_nat_def)
  have "off = ?start + of_nat ?r"
  proof -
    have "of_nat (wlo w + ?p * 4096 + ?r) = off" by (simp only: x [symmetric] of_nat_unat ucast_id)
    then show ?thesis by (simp only: of_nat_add)
  qed
  then have e: "off - ?start = of_nat ?r" "?fin - off = WPAGE - of_nat ?r" by (simp_all add: algebra_simps)
  have po: "off AND (WPAGE - 1) = of_nat ?r"
  proof -
    have "of_nat (unat (off AND (WPAGE - 1))) = (of_nat ?r :: u64)" unfolding page_off ..
    then show ?thesis by (simp only: of_nat_unat ucast_id)
  qed
  have "unat (dma_addrs w ! ?p) mod 4096 = 0" using w p by (auto simp: dma_ok_def)
  then have orr: "dma_addrs w ! ?p OR of_nat ?r = dma_addrs w ! ?p + of_nat ?r" by (intro page_or) simp_all
  have "lookup_ok w (unat off) (dma_addrs w ! ?p OR (off AND (WPAGE - 1))) (WPAGE - (off AND (WPAGE - 1)))"
    using lk unfolding po orr e .
  then show ?thesis using True s len idx unfolding micscif_get_dma_addr_def by (simp add: Let_def)
qed

lemma idx_ok_start: "dma_ok w \<Longrightarrow> idx_ok w (no_index w)"
proof -
  assume w: "dma_ok w"
  then have "pages_before w (nchunks w) \<noteq> 0" by (auto simp: dma_ok_def win_ok_def)
  then have "nchunks w \<noteq> 0" by (auto simp: pages_before_def intro: gr0I)
  then show ?thesis by (simp add: idx_ok_def wlo_def pages_before_def)
qed

text \<open>The address of a byte does not depend on the index from which the lookup starts.\<close>

lemma dma_addr_at:
  assumes "dma_ok w" and "wlo w \<le> unat off" and "unat off < whi w" and "idx_ok w idx" and "unat (snd idx) \<le> unat off"
  shows "\<exists>nr idx'. micscif_get_dma_addr w off idx = Some (of_nat (byte_addr w (unat off)), nr, idx') \<and>
    lookup_ok w (unat off) (of_nat (byte_addr w (unat off))) nr \<and> idx_ok w idx' \<and> unat (snd idx') \<le> unat off"
proof -
  obtain a nr idx' where l: "micscif_get_dma_addr w off idx = Some (a, nr, idx')" "lookup_ok w (unat off) a nr"
    "idx_ok w idx'" "unat (snd idx') \<le> unat off" using get_dma_addr_spec [OF assms] by blast
  then have "byte_addr w (unat off + 0) = unat a + 0" unfolding lookup_ok_def by blast
  then have "of_nat (byte_addr w (unat off)) = a" by (simp only: add_0_right of_nat_unat ucast_id)
  then show ?thesis using l by blast
qed

lemma dma_addr_start:
  assumes "dma_ok w" and "wlo w \<le> unat off" and "unat off < whi w"
  shows "\<exists>nr idx'. micscif_get_dma_addr w off (no_index w) = Some (of_nat (byte_addr w (unat off)), nr, idx') \<and>
    lookup_ok w (unat off) (of_nat (byte_addr w (unat off))) nr"
  using dma_addr_at [OF assms idx_ok_start [OF assms(1)]] assms(2) by (auto simp: wlo_def)

lemma check_bytes_le: "check_bytes ws p x n = None \<Longrightarrow> m \<le> n \<Longrightarrow> check_bytes ws p x m = None"
proof (induction n arbitrary: x m)
  case (Suc n)
  then show ?case by (cases m) (auto split: option.splits if_splits)
qed simp

lemma check_bytes_drop: "check_bytes ws p x (m + n) = None \<Longrightarrow> check_bytes ws p (x + m) n = None"
proof (induction m arbitrary: x)
  case (Suc m)
  then have "check_bytes ws p (Suc x) (m + n) = None" by (auto split: option.splits if_splits)
  from Suc.IH [OF this] show ?case by simp
qed simp

text \<open>The windows from the one with the first byte on.\<close>

lemma win_at_split:
  assumes "wins_ok ws" and "win_at ws x = Some w"
  shows "\<exists>us vs. ws = us @ w # vs \<and> wlo w \<le> x \<and> x < whi w \<and> (\<forall>u \<in> set us. whi u \<le> x)"
  using assms
proof (induction ws)
  case (Cons v vs)
  show ?case
  proof (cases "wlo v \<le> x \<and> x < whi v")
    case True
    then show ?thesis using Cons.prems by (intro exI [of _ "[]"] exI [of _ vs]) (simp add: win_at_def)
  next
    case False
    then have "\<not> x < wlo v" using Cons.prems win_at_before [of v vs x] by auto
    then have v: "whi v \<le> x" using False by simp
    then obtain us vs' where "vs = us @ w # vs'" "wlo w \<le> x" "x < whi w" "\<forall>u \<in> set us. whi u \<le> x"
      using Cons by (auto simp: win_at_after)
    then show ?thesis using v by (intro exI [of _ "v # us"] exI [of _ vs']) simp
  qed
qed (simp add: win_at_def)

lemma check_bytes_skip: "\<forall>u \<in> set us. whi u \<le> x \<Longrightarrow> check_bytes (us @ ws) p x n = check_bytes ws p x n"
  by (induction us) (simp_all add: check_bytes_after)

lemma win_at_skip: "\<forall>u \<in> set us. whi u \<le> x \<Longrightarrow> win_at (us @ ws) x = win_at ws x"
  by (induction us) (simp_all add: win_at_after)

text \<open>Where a range goes beyond a window, the next window starts there.\<close>

lemma next_win:
  assumes "wins_ok (w # ws)" and "check_bytes ws p (whi w) n = None" and "0 < n"
  shows "\<exists>v vs. ws = v # vs \<and> wlo v = whi w"
proof -
  obtain v where v: "win_at ws (whi w) = Some v" using assms(2,3) by (cases n) (auto split: option.splits)
  then obtain u us where r: "ws = u # us" by (cases ws) (auto simp: win_at_def)
  have "wlo u \<le> whi w" using v r win_at_before [of u us] assms(1) by (cases "whi w < wlo u") auto
  then show ?thesis using r assms(1) by auto
qed

lemma query_window_spec:
  assumes "wins_ok ws" and "0 < req_nr_bytes req" and "unat (req_offset req) + unat (req_nr_bytes req) < 2 ^ 64"
  shows "micscif_query_window req ws =
    query_answer (req_type req) ws (req_prot req) (unat (req_offset req)) (unat (req_nr_bytes req))"
proof (cases "req_type req = WINDOW_SINGLE")
  case True
  then show ?thesis using query_loop_single [OF assms True] by (simp add: micscif_query_window_def)
next
  case False
  have "map_sum id (\<lambda>first. first) r = r" for r :: "errno + reg_range option" by (cases r) simp_all
  then show ?thesis using query_loop_spec [OF assms(1,2,3) _ False, of None] by (simp add: micscif_query_window_def)
qed

section \<open>Properties\<close>

text \<open>C12. The query of the registered windows decides what it is meant to decide: on a list of windows in order, for a non-empty range that does not wrap around,
  it gives for each kind of request exactly the answer found by looking at every byte of the range: an unregistered byte is \<open>ENXIO\<close>, a byte in a window
  without the permissions asked for is \<open>EPERM\<close>, whichever comes first; a request for a single window also has to end in the window it starts in;
  a request for full windows has to start where a window starts and end where one ends, else it is \<open>ENXIO\<close>. On success the window returned is the one with the first
  byte. The one case left out is a request for full windows that starts in the midst of a window, which the code accepts (\<open>query_full_middle\<close>).\<close>

theorem query_window_exact:
  assumes "wins_ok ws" and "0 < req_nr_bytes req" and "unat (req_offset req) + unat (req_nr_bytes req) < 2 ^ 64"
    and "req_type req = WINDOW_FULL \<Longrightarrow> \<forall>w \<in> set ws. wlo w < unat (req_offset req) \<longrightarrow> whi w \<le> unat (req_offset req)"
  shows "micscif_query_window req ws =
    query_spec (req_type req) ws (req_prot req) (unat (req_offset req)) (unat (req_nr_bytes req))"
proof -
  have "0 < unat (req_nr_bytes req)" using assms(2) by (simp add: word_less_nat_alt)
  then show ?thesis using query_window_spec [OF assms(1-3)] query_answer_spec assms(4) by presburger
qed

definition demo_win :: "u64 \<Rightarrow> u64 \<Rightarrow> u32 \<Rightarrow> reg_range" where
  "demo_win off n p = \<lparr>waddr = off, nr_pages = n, nr_contig_chunks = n, prot = p, wref_count = 0, magic = SCIFEP_MAGIC, offset = off,
     va_for_temp = off, wtype = RMA_WINDOW_SELF, peer_window = 0, unreg_state = OP_IDLE, offset_freed = False, pinned = [], get_put_ref_count = 0,
     dma_addrs = map (\<lambda>i. 0x200000 + of_nat i * 0x2000) [0..<unat n], num_pages = replicate (unat n) 1, wtemp = False, reg_state = OP_COMPLETED,
     alloc_handle = \<lparr>al_phys_addr = 0, al_vaddr = 0, al_state = OP_COMPLETED\<rparr>, pinned_pages = 0,
     mapped_offset = 0, nr_lookup = 0, dma_lookup = [], dma_lookup_offset = 0\<rparr>"

lemma demo_wins_ok: "wins_ok [demo_win 0x1000 1 3, demo_win 0x2000 2 1]"
  by (simp add: win_ok_def whi_def wlo_def demo_win_def)

theorem query_window_exact_witness:
  "micscif_query_window \<lparr>req_offset = 0x1000, req_nr_bytes = 0x3000, req_prot = 1, req_type = WINDOW_FULL, req_va_for_temp = 0\<rparr>
     [demo_win 0x1000 1 3, demo_win 0x2000 2 1] =
   query_spec WINDOW_FULL [demo_win 0x1000 1 3, demo_win 0x2000 2 1] 1 0x1000 0x3000"
  using query_window_exact [OF demo_wins_ok,
    of "\<lparr>req_offset = 0x1000, req_nr_bytes = 0x3000, req_prot = 1, req_type = WINDOW_FULL, req_va_for_temp = 0\<rparr>"]
  by (simp add: wlo_def whi_def demo_win_def)

text \<open>The list of registered windows stays in order: inserting a window that shares no byte with the others gives a list in order with
  exactly this window added, so the queries keep their meaning.\<close>

theorem insert_window_order:
  assumes "wins_ok ws" and "win_ok w" and "\<forall>v \<in> set ws. whi v \<le> wlo w \<or> whi w \<le> wlo v"
  shows "wins_ok (micscif_insert_window w ws) \<and> mset (micscif_insert_window w ws) = add_mset w (mset ws)"
  using insert_window_ok [OF assms] by (simp add: micscif_insert_window_def)

theorem insert_window_order_witness:
  "wins_ok (micscif_insert_window (demo_win 0x2000 2 1) [demo_win 0x1000 1 3, demo_win 0x4000 1 1])"
  using insert_window_order [of "[demo_win 0x1000 1 3, demo_win 0x4000 1 1]" "demo_win 0x2000 2 1"]
  by (simp add: win_ok_def whi_def wlo_def demo_win_def)

text \<open>The shortcut of \<open>micscif_insert_tcw\<close>, which looks at the last window first, gives the same list as the scan from the
  head; on a list sorted by virtual address it keeps the list sorted.\<close>

theorem insert_tcw_shortcut:
  assumes "sorted (map va_for_temp ws)"
  shows "micscif_insert_tcw w ws = insert_scan va_for_temp w ws \<and> sorted (map va_for_temp (micscif_insert_tcw w ws))"
  using insert_scan_tail [OF _ assms, of w] insert_scan_sorted [OF assms, of w] by (auto simp: micscif_insert_tcw_def)

theorem insert_tcw_shortcut_witness:
  "sorted (map va_for_temp (micscif_insert_tcw (demo_win 0x5000 1 3) [demo_win 0x1000 1 3, demo_win 0x2000 2 1]))"
  using insert_tcw_shortcut [of "[demo_win 0x1000 1 3, demo_win 0x2000 2 1]" "demo_win 0x5000 1 3"] by (simp add: demo_win_def)

text \<open>C34. The lookup of DMA addresses computes the address of the byte: for an offset in a window it succeeds, and the addresses from the one returned on are those of
  the following bytes for as many bytes as it reports, whether the window is a list of single pages or of larger chunks, and whether the
  lookup starts from the beginning or continues from the chunk an earlier lookup has found.\<close>

theorem dma_addr_exact:
  assumes "dma_ok w" and "wlo w \<le> unat off" and "unat off < whi w" and "idx_ok w idx" and "unat (snd idx) \<le> unat off"
  shows "\<exists>a nr idx'. micscif_get_dma_addr w off idx = Some (a, nr, idx') \<and> 0 < unat nr \<and> unat off + unat nr \<le> whi w \<and>
    (\<forall>k < unat nr. unat (a + of_nat k) = byte_addr w (unat off + k)) \<and> idx_ok w idx' \<and> unat (snd idx') \<le> unat off"
proof -
  obtain a nr idx' where l: "micscif_get_dma_addr w off idx = Some (a, nr, idx')" "lookup_ok w (unat off) a nr" "idx_ok w idx'" "unat (snd idx') \<le> unat off"
    using get_dma_addr_spec [OF assms] by blast
  have "unat (a + of_nat k) = byte_addr w (unat off + k)" if "k < unat nr" for k
    using l(2) that by (simp add: lookup_ok_def unat_word_ariths unat_of_nat)
  then show ?thesis using l by (auto simp: lookup_ok_def)
qed

definition demo_chunks :: reg_range where
  "demo_chunks = (demo_win 0x1000 3 3)\<lparr>nr_contig_chunks := 2, dma_addrs := [0x200000, 0x700000], num_pages := [2, 1]\<rparr>"

lemma demo_chunks_ok: "dma_ok demo_chunks" "wlo demo_chunks = 0x1000" "whi demo_chunks = 0x4000" "idx_ok demo_chunks (1, 0x3000)"
proof -
  have n: "nchunks demo_chunks = 2" by (simp add: nchunks_def demo_chunks_def)
  have "{..<2 :: nat} = {0, 1}" "{..<1 :: nat} = {0}" by auto
  then have p: "pages_before demo_chunks 2 = 3" "pages_before demo_chunks 1 = 2"
    by (simp_all add: pages_before_def demo_chunks_def)
  show lo: "wlo demo_chunks = 0x1000" "whi demo_chunks = 0x4000" by (simp_all add: wlo_def whi_def demo_chunks_def demo_win_def)
  have w: "win_ok demo_chunks" using lo by (simp add: win_ok_def) (simp add: demo_chunks_def demo_win_def)
  show "dma_ok demo_chunks" unfolding dma_ok_def n p
    using w by (auto simp: less_2_cases_iff demo_chunks_def demo_win_def)
  show "idx_ok demo_chunks (1, 0x3000)" using n p lo by (simp add: idx_ok_def)
qed

theorem dma_addr_exact_witness:
  "\<exists>a nr idx'. micscif_get_dma_addr demo_chunks 0x3100 (1, 0x3000) = Some (a, nr, idx') \<and> 0 < unat nr \<and> 0x3100 + unat nr \<le> 0x4000"
  using dma_addr_exact [OF demo_chunks_ok(1), of "0x3100" "(1, 0x3000)"] demo_chunks_ok by auto

text \<open>A request for full windows accepts a range that starts in the middle of a window: only the end of the range is compared with the end of a window.
  An unregistration of the last page of a window of several pages is therefore accepted and concerns the whole window.\<close>

theorem query_full_middle:
  assumes "win_ok w" and "permits p w" and "x = wlo w + k * 4096" and "x < whi w"
  shows "micscif_query_window \<lparr>req_offset = of_nat x, req_nr_bytes = of_nat (whi w - x), req_prot = p, req_type = WINDOW_FULL, req_va_for_temp = 0\<rparr> [w] =
    Inr (Some w)"
proof -
  have "whi w < 2 ^ 63" using assms(1) by (simp add: win_ok_def)
  then have u: "unat (of_nat x :: u64) = x" "unat (of_nat (whi w - x) :: u64) = whi w - x" using assms(4) by (intro unat_of_nat64; simp)+
  let ?req = "\<lparr>req_offset = of_nat x, req_nr_bytes = of_nat (whi w - x), req_prot = p, req_type = WINDOW_FULL, req_va_for_temp = 0\<rparr>"
  have "0 < req_nr_bytes ?req" using u assms(4) by (simp add: word_less_nat_alt)
  moreover have "check_bytes [w] p x (whi w - x) = None" using assms by (intro check_bytes_inside) simp_all
  moreover have "win_at [w] x = Some w" using assms by (intro win_at_in) simp_all
  ultimately show ?thesis using query_loop_spec [of "[w]" "req_nr_bytes ?req" "of_nat x" ?req None] u assms \<open>whi w < 2 ^ 63\<close> by (simp add: micscif_query_window_def)
qed

theorem query_full_middle_witness:
  "micscif_query_window \<lparr>req_offset = of_nat 0x2000, req_nr_bytes = of_nat (whi (demo_win 0x1000 2 3) - 0x2000), req_prot = 0, req_type = WINDOW_FULL,
     req_va_for_temp = 0\<rparr> [demo_win 0x1000 2 3] = Inr (Some (demo_win 0x1000 2 3))"
  by (rule query_full_middle [where k = 1]) (simp_all add: win_ok_def whi_def wlo_def demo_win_def permits_def)

end
