(* ===== verification/Rma_Pages.thy ===== *)
theory Rma_Pages
  imports Rma_Window
begin

text \<open>
  The pages behind a window (\<open>micscif_api.c\<close>, \<open>micscif_rma.c\<close>, \<open>micscif_rma.h\<close>): pinning the pages of a range of a process or of the
  kernel, the limit on pinned pages, the division into chunks of contiguous memory, and the release of the pages. A page is the address of its
  \<open>struct page\<close>, with \<open>0\<close> for none. What the kernel answers is an argument: the allocations, \<open>get_user_pages\<close> for each value of its \<open>write\<close>
  argument, the pages behind addresses of the kernel, which pages belong to a huge page, and the number of pages that other threads pin while the lock of the address space is free.
  \<open>None\<close> is a \<open>BUG_ON\<close> or an access outside of an array.
\<close>

section \<open>Data\<close>

abbreviation SCIF_PROT_READ :: u32 where "SCIF_PROT_READ \<equiv> 1"
abbreviation SCIF_PROT_WRITE :: u32 where "SCIF_PROT_WRITE \<equiv> 2"
abbreviation SCIF_MAP_FIXED :: u32 where "SCIF_MAP_FIXED \<equiv> 0x10"
abbreviation SCIF_MAP_KERNEL :: u32 where "SCIF_MAP_KERNEL \<equiv> 0x20"
abbreviation SCIF_MAP_ULIMIT :: u32 where "SCIF_MAP_ULIMIT \<equiv> 0x40"

record scif_pinned_pages =
  pp_nr_pages :: int
  pp_prot :: u32
  pp_map_flags :: u32
  pp_ref_count :: int
  pp_pages :: "u64 list"
  pp_num_pages :: "u32 list"
  pp_nr_contig_chunks :: nat

text \<open>What the pinning changes outside of the set of pages: references to pages, their dirty marks and the count of pinned pages of the process.\<close>

record mm_struct =
  page_count :: "u64 \<Rightarrow> int"
  page_dirty :: "u64 \<Rightarrow> bool"
  pinned_vm :: int

record pin_env =
  zalloc :: "nat \<Rightarrow> bool"
  is_vmalloc_addr :: "u64 \<Rightarrow> bool"
  vmalloc_to_page :: "u64 \<Rightarrow> u64"
  virt_to_page :: "u64 \<Rightarrow> u64"
  gup :: "bool \<Rightarrow> int + u64 list"
  huge_page :: "u64 \<Rightarrow> bool"
  mic_ulimit_check :: bool
  lock_limit :: int
  cap_ipc_lock :: bool
  drift :: int

definition align_low :: "u64 \<Rightarrow> u32 \<Rightarrow> u64" where
  "align_low data granularity =
     (let m = ucast granularity - 1 in (data - ucast (granularity - 1) + m) AND NOT m)"

section \<open>Sets of pinned pages\<close>

definition micscif_create_pinned_pages :: "pin_env \<Rightarrow> int \<Rightarrow> u32 \<Rightarrow> scif_pinned_pages option" where
  "micscif_create_pinned_pages env n p =
     (if zalloc env 0 \<and> zalloc env 1 \<and> zalloc env 2
      then Some \<lparr>pp_nr_pages = 0, pp_prot = p, pp_map_flags = 0, pp_ref_count = 0, pp_pages = replicate (nat n) 0,
        pp_num_pages = replicate (nat n) 0, pp_nr_contig_chunks = 0\<rparr>
      else None)"

definition page_cache_release :: "u64 \<Rightarrow> mm_struct \<Rightarrow> mm_struct" where
  "page_cache_release pg mm = mm\<lparr>page_count := (page_count mm)(pg := page_count mm pg - 1)\<rparr>"

definition SetPageDirty :: "u64 \<Rightarrow> mm_struct \<Rightarrow> mm_struct" where
  "SetPageDirty pg mm = mm\<lparr>page_dirty := (page_dirty mm)(pg := True)\<rparr>"

text \<open>The references of the pages of a list are given back.\<close>

fun release_pages :: "bool \<Rightarrow> u64 list \<Rightarrow> mm_struct \<Rightarrow> mm_struct" where
  "release_pages writeable [] mm = mm"
| "release_pages writeable (pg # pgs) mm =
     release_pages writeable pgs
       (if pg = 0 then mm else page_cache_release pg (if writeable then SetPageDirty pg mm else mm))"

definition micscif_destroy_pinned_pages :: "scif_pinned_pages \<Rightarrow> mm_struct \<Rightarrow> mm_struct option" where
  "micscif_destroy_pinned_pages pp mm =
     (if nat (pp_nr_pages pp) > length (pp_pages pp) then None
      else if pp_map_flags pp AND SCIF_MAP_KERNEL \<noteq> 0 then Some mm
      else Some (release_pages (pp_prot pp AND SCIF_PROT_WRITE \<noteq> 0) (take (nat (pp_nr_pages pp)) (pp_pages pp)) mm))"

definition scif_unpin_pages :: "scif_pinned_pages \<Rightarrow> mm_struct \<Rightarrow> (scif_pinned_pages option \<times> mm_struct) option" where
  "scif_unpin_pages pp mm =
     (let ret = pp_ref_count pp - pp_nr_pages pp
      in if ret < 0 then None
         else if ret = 0 then map_option (Pair None) (micscif_destroy_pinned_pages pp mm)
         else Some (Some (pp\<lparr>pp_ref_count := ret\<rparr>), mm))"

section \<open>The limit on pinned pages\<close>

definition scif_check_inc_pinned_vm :: "pin_env \<Rightarrow> int \<Rightarrow> mm_struct \<Rightarrow> bool \<times> mm_struct" where
  "scif_check_inc_pinned_vm env n mm =
     (if mic_ulimit_check env \<and> n \<noteq> 0 then
        let locked = n + pinned_vm mm
        in if locked > lock_limit env \<and> \<not> cap_ipc_lock env then (False, mm) else (True, mm\<lparr>pinned_vm := locked\<rparr>)
      else (True, mm))"

definition scif_dec_pinned_vm_lock :: "pin_env \<Rightarrow> int \<Rightarrow> mm_struct \<Rightarrow> mm_struct" where
  "scif_dec_pinned_vm_lock env n mm =
     (if n \<noteq> 0 \<and> mic_ulimit_check env then mm\<lparr>pinned_vm := pinned_vm mm - n\<rparr> else mm)"

section \<open>Chunks\<close>

abbreviation (input) PMD_SIZE :: nat where "PMD_SIZE \<equiv> 2097152"

definition next_huge :: "nat \<Rightarrow> nat" where
  "next_huge addr = (addr + 1 + (PMD_SIZE - 1)) div PMD_SIZE * PMD_SIZE"

text \<open>
  The loop of \<open>micscif_detect_large_page\<close>. It runs when \<open>get_user_pages\<close> has given all pages of the range, which then lies in the address space of the process and does
  not wrap around: its addresses are natural numbers.
\<close>

function detect_loop :: "(u64 \<Rightarrow> bool) \<Rightarrow> nat \<Rightarrow> nat \<Rightarrow> nat \<Rightarrow> scif_pinned_pages \<Rightarrow> scif_pinned_pages option" where
  "detect_loop huge end_addr addr i pp =
     (if addr < end_addr then
        if i < length (pp_pages pp) \<and> i < length (pp_num_pages pp) then
          let fin = (if huge (pp_pages pp ! i) then min (next_huge addr) end_addr else addr + 4096);
              n = (if huge (pp_pages pp ! i) then (fin - addr) div 4096 else 1)
          in detect_loop huge end_addr fin (i + n)
               (pp\<lparr>pp_num_pages := (pp_num_pages pp)[i := of_nat n], pp_nr_contig_chunks := pp_nr_contig_chunks pp + 1\<rparr>)
        else None
      else Some pp)"
  by pat_completeness auto

lemma next_huge_gt: "x < next_huge x"
proof -
  have "x + 1 + (PMD_SIZE - 1) = x + PMD_SIZE" by simp
  moreover have "x < (x + PMD_SIZE) div PMD_SIZE * PMD_SIZE" using div_mult_mod_eq [of x PMD_SIZE] mod_less_divisor [of PMD_SIZE x] by simp
  ultimately show ?thesis by (simp add: next_huge_def)
qed

termination detect_loop
proof (relation "measure (\<lambda>(huge, end_addr, addr, i, pp). end_addr - addr)", goal_cases)
  case (2 huge end_addr addr i pp fin n)
  have "addr < min (next_huge addr) end_addr" using 2(1) next_huge_gt by simp
  then show ?case using 2 by (auto split: if_splits)
qed simp

declare detect_loop.simps [simp del]

definition micscif_detect_large_page :: "(u64 \<Rightarrow> bool) \<Rightarrow> nat \<Rightarrow> scif_pinned_pages \<Rightarrow> scif_pinned_pages option" where
  "micscif_detect_large_page huge addr pp = detect_loop huge (addr + nat (pp_nr_pages pp) * 4096) addr 0 pp"

section \<open>Pinning\<close>

definition get_user_pages :: "pin_env \<Rightarrow> bool \<Rightarrow> scif_pinned_pages \<Rightarrow> mm_struct \<Rightarrow> scif_pinned_pages \<times> mm_struct" where
  "get_user_pages env w pp mm =
     (case gup env w of
        Inl err \<Rightarrow> (pp\<lparr>pp_nr_pages := err\<rparr>, mm)
      | Inr ps \<Rightarrow> (pp\<lparr>pp_nr_pages := int (length ps), pp_pages := ps @ drop (length ps) (pp_pages pp)\<rparr>,
          mm\<lparr>page_count := (\<lambda>pg. page_count mm pg + int (count_list ps pg))\<rparr>))"

text \<open>The two ways out of \<open>__scif_pin_pages\<close> after the pages have been allocated: the label \<open>error_unmap\<close>, and the check of the number of pages.\<close>

definition pin_error_unmap :: "errno \<Rightarrow> int \<Rightarrow> scif_pinned_pages \<Rightarrow> mm_struct \<Rightarrow> ((errno + u32 \<times> scif_pinned_pages) \<times> mm_struct) option" where
  "pin_error_unmap err n pp mm = map_option (Pair (Inl err)) (micscif_destroy_pinned_pages (pp\<lparr>pp_nr_pages := n\<rparr>) mm)"

definition pin_finish :: "pin_env \<Rightarrow> bool \<Rightarrow> int \<Rightarrow> u32 \<Rightarrow> scif_pinned_pages \<Rightarrow> mm_struct \<Rightarrow> ((errno + u32 \<times> scif_pinned_pages) \<times> mm_struct) option" where
  "pin_finish env ulimit n p pp mm =
     (if pp_nr_pages pp < n then pin_error_unmap EFAULT n pp (if ulimit then scif_dec_pinned_vm_lock env n mm else mm)
      else Some (Inr (p, pp\<lparr>pp_ref_count := n\<rparr>), mm))"

text \<open>The loop at the label \<open>retry\<close>: a second time, without write access, when only read access was asked for.\<close>

function pin_user :: "pin_env \<Rightarrow> bool \<Rightarrow> nat \<Rightarrow> int \<Rightarrow> u32 \<Rightarrow> bool \<Rightarrow> scif_pinned_pages \<Rightarrow> mm_struct \<Rightarrow>
    ((errno + u32 \<times> scif_pinned_pages) \<times> mm_struct) option" where
  "pin_user env ulimit addr n p try_upgrade pp mm =
     (let (ok, mm) = (if ulimit then scif_check_inc_pinned_vm env n mm else (True, mm))
      in if \<not> ok then pin_error_unmap ENOMEM n pp mm
         else
           let (pp, mm) = get_user_pages env (p AND SCIF_PROT_WRITE \<noteq> 0) pp mm
           in if pp_nr_pages pp = n then do {
                pp \<leftarrow> micscif_detect_large_page (huge_page env) addr pp;
                pin_finish env ulimit n p (pp\<lparr>pp_map_flags := 0\<rparr>) mm }
              else if try_upgrade then
                let mm = (if ulimit then scif_dec_pinned_vm_lock env n mm else mm);
                    mm = release_pages False (take (nat (pp_nr_pages pp)) (pp_pages pp)) mm
                in pin_user env ulimit addr n (p AND NOT SCIF_PROT_WRITE) False pp (mm\<lparr>pinned_vm := pinned_vm mm + drift env\<rparr>)
              else pin_finish env ulimit n p (pp\<lparr>pp_map_flags := 0\<rparr>) mm)"
  by pat_completeness auto

termination pin_user
  by (relation "measure (\<lambda>(env, ulimit, addr, n, p, try_upgrade, pp, mm). if try_upgrade then 1 else 0)") auto

declare pin_user.simps [simp del]

definition pin_kernel :: "pin_env \<Rightarrow> u64 \<Rightarrow> int \<Rightarrow> scif_pinned_pages \<Rightarrow> scif_pinned_pages" where
  "pin_kernel env addr n pp = pp\<lparr>
     pp_pages := map (\<lambda>i. if is_vmalloc_addr env addr then vmalloc_to_page env (addr + of_nat i * WPAGE) else virt_to_page env (addr + of_nat i * WPAGE)) [0..<nat n],
     pp_num_pages := replicate (nat n) 1,
     pp_nr_contig_chunks := pp_nr_contig_chunks pp + nat n, pp_nr_pages := n, pp_map_flags := SCIF_MAP_KERNEL\<rparr>"

definition page_aligned :: "u64 \<Rightarrow> bool" where "page_aligned x \<longleftrightarrow> align_low x 4096 = x"

definition scif_pin_pages :: "pin_env \<Rightarrow> u64 \<Rightarrow> u64 \<Rightarrow> u32 \<Rightarrow> u32 \<Rightarrow> mm_struct \<Rightarrow> ((errno + u32 \<times> scif_pinned_pages) \<times> mm_struct) option" where
  "scif_pin_pages env addr len p map_flags mm =
     (if map_flags AND NOT (SCIF_MAP_KERNEL OR SCIF_MAP_ULIMIT) \<noteq> 0 then Some (Inl EINVAL, mm)
      else if p AND NOT (SCIF_PROT_READ OR SCIF_PROT_WRITE) \<noteq> 0 then Some (Inl EINVAL, mm)
      else if len = 0 \<or> \<not> page_aligned addr \<or> \<not> page_aligned len then Some (Inl EINVAL, mm)
      else
        let n = sint (ucast (drop_bit WPAGE_SHIFT len) :: u32)
        in case micscif_create_pinned_pages env n p of
             None \<Rightarrow> Some (Inl ENOMEM, mm)
           | Some pp \<Rightarrow>
               if map_flags AND SCIF_MAP_KERNEL \<noteq> 0 then pin_finish env (map_flags AND SCIF_MAP_ULIMIT \<noteq> 0) n p (pin_kernel env addr n pp) mm
               else pin_user env (map_flags AND SCIF_MAP_ULIMIT \<noteq> 0) (unat addr) n (p OR SCIF_PROT_WRITE) (p = SCIF_PROT_READ) pp mm)"

section \<open>The chunks divide the pages\<close>

text \<open>\<open>cs\<close> are the lengths of the chunks; the length of a chunk is stored at the index of its first page.\<close>

definition chunk_prefix :: "scif_pinned_pages \<Rightarrow> nat list \<Rightarrow> bool" where
  "chunk_prefix pp cs \<longleftrightarrow> length cs = pp_nr_contig_chunks pp \<and>
     (\<forall>j < length cs. 0 < cs ! j \<and> cs ! j \<le> 512 \<and> pp_num_pages pp ! sum_list (take j cs) = of_nat (cs ! j))"

definition pp_wf :: "scif_pinned_pages \<Rightarrow> bool" where
  "pp_wf pp \<longleftrightarrow> 0 < pp_nr_pages pp \<and> pp_nr_pages pp < 2 ^ 31 \<and> length (pp_pages pp) = nat (pp_nr_pages pp) \<and>
     length (pp_num_pages pp) = nat (pp_nr_pages pp) \<and> (\<exists>cs. chunk_prefix pp cs \<and> sum_list cs = nat (pp_nr_pages pp))"

lemma sum_take_less:
  fixes cs :: "nat list"
  assumes "\<forall>j < length cs. 0 < cs ! j" and "j < length cs" shows "sum_list (take j cs) < sum_list cs"
proof -
  have "sum_list cs = sum_list (take j cs) + (cs ! j + sum_list (drop (Suc j) cs))"
    using assms(2) by (metis append_take_drop_id Cons_nth_drop_Suc sum_list.append sum_list.Cons)
  then show ?thesis using assms by simp
qed

lemma chunk_prefix_snoc:
  assumes c: "chunk_prefix pp cs" and i: "sum_list cs = i" "i < length (pp_num_pages pp)" and n: "0 < n" "n \<le> 512"
  shows "chunk_prefix (pp\<lparr>pp_num_pages := (pp_num_pages pp)[i := of_nat n], pp_nr_contig_chunks := pp_nr_contig_chunks pp + 1\<rparr>) (cs @ [n])"
proof -
  have pos: "\<forall>j < length cs. 0 < cs ! j" using c by (simp add: chunk_prefix_def)
  have "(pp_num_pages pp)[i := v] ! sum_list (take j cs) = pp_num_pages pp ! sum_list (take j cs)" if "j < length cs" for j v
    using sum_take_less [OF pos that] i(1) by simp
  then show ?thesis using c i n by (auto simp: chunk_prefix_def nth_append less_Suc_eq)
qed

text \<open>One step of the loop, at a multiple of the page size.\<close>

lemma huge_step:
  fixes x :: nat
  assumes "4096 dvd x" and "4096 dvd e" and "x < e"
  defines "fin \<equiv> min (next_huge x) e"
  shows "x < fin" "fin \<le> e" "4096 dvd fin" "0 < (fin - x) div 4096" "(fin - x) div 4096 \<le> 512" "x + (fin - x) div 4096 * 4096 = fin"
proof -
  show lt: "x < fin" using next_huge_gt [of x] assms(3) by (simp add: fin_def)
  show "fin \<le> e" by (simp add: fin_def)
  have "4096 dvd PMD_SIZE" by simp
  then have "4096 dvd next_huge x" unfolding next_huge_def by (rule dvd_mult)
  then show dv: "4096 dvd fin" using assms(2) by (simp add: fin_def min_def)
  then have d: "4096 dvd fin - x" using assms(1) by (simp add: dvd_diff_nat)
  then show "x + (fin - x) div 4096 * 4096 = fin" using lt by simp
  show "0 < (fin - x) div 4096" using d lt by (metis dvd_div_eq_0_iff gr_zeroI zero_less_diff less_numeral_extra(3))
  have "fin \<le> next_huge x" unfolding fin_def by (rule min.cobounded1)
  also have "\<dots> \<le> x + 1 + (PMD_SIZE - 1)" unfolding next_huge_def by (rule div_times_less_eq_dividend)
  finally have "fin - x \<le> PMD_SIZE" by simp
  then have "(fin - x) div 4096 \<le> PMD_SIZE div 4096" by (rule div_le_mono)
  then show "(fin - x) div 4096 \<le> 512" by simp
qed

lemma small_step:
  fixes x :: nat
  assumes "4096 dvd x" and "4096 dvd e" and "x < e" shows "x + 4096 \<le> e"
  using assms by (auto simp: dvd_def)

lemma detect_loop_spec:
  assumes "chunk_prefix pp cs" and "sum_list cs = i" and "i \<le> N" and "x = A + i * 4096" and "e = A + N * 4096" and "4096 dvd A"
    and "length (pp_pages pp) = N" and "length (pp_num_pages pp) = N"
  shows "\<exists>pp' cs'. detect_loop huge e x i pp = Some pp' \<and> chunk_prefix pp' cs' \<and> sum_list cs' = N \<and> length (pp_num_pages pp') = N \<and>
    pp' = pp\<lparr>pp_num_pages := pp_num_pages pp', pp_nr_contig_chunks := pp_nr_contig_chunks pp'\<rparr>"
  using assms
proof (induction huge e x i pp arbitrary: cs rule: detect_loop.induct)
  case (1 huge e x i pp)
  show ?case
  proof (cases "x < e")
    case False
    then have "i = N" using "1.prems" by simp
    moreover have "detect_loop huge e x i pp = Some pp" using False by (simp add: detect_loop.simps [of huge e x i pp])
    ultimately show ?thesis using "1.prems"(1,2,8) by (intro exI [of _ pp] exI [of _ cs]) simp
  next
    case True
    then have iN: "i < N" using "1.prems" by simp
    define fin where "fin = (if huge (pp_pages pp ! i) then min (next_huge x) e else x + 4096)"
    define n where "n = (if huge (pp_pages pp ! i) then (fin - x) div 4096 else 1)"
    define pp1 where "pp1 = pp\<lparr>pp_num_pages := (pp_num_pages pp)[i := of_nat n], pp_nr_contig_chunks := pp_nr_contig_chunks pp + 1\<rparr>"
    have dv: "4096 dvd x" "4096 dvd e" using "1.prems" by (auto intro: dvd_add)
    have n: "0 < n" "n \<le> 512" "x + n * 4096 = fin" "fin \<le> e"
      using huge_step [OF dv True] True small_step [OF dv True] by (simp_all add: n_def fin_def del: min_less_iff_conj)
    have fx: "fin = A + (i + n) * 4096" using n(3) "1.prems"(4) by simp
    have inN: "i + n \<le> N" using n(4) fx "1.prems"(5) by simp
    have un: "detect_loop huge e x i pp = detect_loop huge e fin (i + n) pp1"
      using True iN "1.prems"(7,8) by (simp add: detect_loop.simps [of huge e x i pp] Let_def fin_def n_def pp1_def)
    have "chunk_prefix pp1 (cs @ [n])" unfolding pp1_def
      using chunk_prefix_snoc [OF "1.prems"(1,2) _ n(1,2)] iN "1.prems"(8) by simp
    moreover have "sum_list (cs @ [n]) = i + n" using "1.prems"(2) by simp
    moreover have "length (pp_pages pp1) = N" "length (pp_num_pages pp1) = N" using "1.prems"(7,8) by (simp_all add: pp1_def)
    moreover have "i < length (pp_pages pp) \<and> i < length (pp_num_pages pp)" using iN "1.prems"(7,8) by simp
    ultimately obtain pp' cs' where r: "detect_loop huge e fin (i + n) pp1 = Some pp'" "chunk_prefix pp' cs'" "sum_list cs' = N"
      "length (pp_num_pages pp') = N" "pp' = pp1\<lparr>pp_num_pages := pp_num_pages pp', pp_nr_contig_chunks := pp_nr_contig_chunks pp'\<rparr>"
      using "1.IH" [OF True _ fin_def n_def, folded pp1_def, of "cs @ [n]"] inN fx "1.prems"(5,6) by blast
    have "pp' = pp\<lparr>pp_num_pages := pp_num_pages pp', pp_nr_contig_chunks := pp_nr_contig_chunks pp'\<rparr>"
      using r(5) by (simp add: pp1_def)
    then show ?thesis unfolding un using r by blast
  qed
qed

section \<open>References and the limit\<close>

lemma release_pages_count:
  "page_count (release_pages w ps mm) pg = page_count mm pg - (if pg = 0 then 0 else int (count_list ps pg))"
  by (induction ps arbitrary: mm) (auto simp: page_cache_release_def SetPageDirty_def)

lemma release_pages_vm [simp]: "pinned_vm (release_pages w ps mm) = pinned_vm mm"
  by (induction ps arbitrary: mm) (auto simp: page_cache_release_def SetPageDirty_def)

lemma count_zeros: "set ps \<subseteq> {0} \<Longrightarrow> pg \<noteq> 0 \<Longrightarrow> count_list ps pg = 0" for pg :: u64
  by (induction ps) auto

definition charge :: "pin_env \<Rightarrow> bool \<Rightarrow> int \<Rightarrow> int" where
  "charge env ulimit n = (if ulimit \<and> mic_ulimit_check env then n else 0)"

lemma check_inc_charge:
  "scif_check_inc_pinned_vm env n mm = (ok, mm') \<Longrightarrow> ok \<Longrightarrow> page_count mm' = page_count mm \<and> pinned_vm mm' = pinned_vm mm + charge env True n"
  by (auto simp: scif_check_inc_pinned_vm_def charge_def Let_def split: if_splits)

lemma dec_charge:
  "page_count (scif_dec_pinned_vm_lock env n mm) = page_count mm" "pinned_vm (scif_dec_pinned_vm_lock env n mm) = pinned_vm mm - charge env True n"
  by (auto simp: scif_dec_pinned_vm_lock_def charge_def)

text \<open>What is documented of \<open>get_user_pages\<close>: an error, or at most as many pages as asked for.\<close>

definition gup_ok :: "pin_env \<Rightarrow> int \<Rightarrow> bool" where
  "gup_ok env n \<longleftrightarrow> (\<forall>w. case gup env w of Inl err \<Rightarrow> err < 0 | Inr ps \<Rightarrow> length ps \<le> nat n \<and> 0 \<notin> set ps)"

definition fresh_set :: "int \<Rightarrow> u32 \<Rightarrow> scif_pinned_pages \<Rightarrow> bool" where
  "fresh_set n p pp \<longleftrightarrow> length (pp_pages pp) = nat n \<and> length (pp_num_pages pp) = nat n \<and> pp_nr_contig_chunks pp = 0 \<and> pp_prot pp = p \<and> pp_map_flags pp = 0"

text \<open>The result of a pinning that started with the counts of \<open>mm\<close>.\<close>

definition pinned_result :: "pin_env \<Rightarrow> bool \<Rightarrow> int \<Rightarrow> u32 \<Rightarrow> mm_struct \<Rightarrow> scif_pinned_pages \<Rightarrow> mm_struct \<Rightarrow> bool" where
  "pinned_result env ulimit n p mm pp mm' \<longleftrightarrow> pp_wf pp \<and> pp_nr_pages pp = n \<and> pp_ref_count pp = n \<and> pp_prot pp = p \<and> pp_map_flags pp = 0 \<and> 0 \<notin> set (pp_pages pp) \<and>
     (\<forall>pg. page_count mm' pg = page_count mm pg + int (count_list (pp_pages pp) pg)) \<and> pinned_vm mm' = pinned_vm mm + charge env ulimit n"

lemma error_unmap_result:
  assumes "nat n \<le> length (pp_pages pp)" and "pp_map_flags pp = 0"
  shows "\<exists>mm'. pin_error_unmap e n pp mm = Some (Inl e, mm') \<and> pinned_vm mm' = pinned_vm mm \<and>
    (\<forall>pg. page_count mm' pg = page_count mm pg - (if pg = 0 then 0 else int (count_list (take (nat n) (pp_pages pp)) pg)))"
  using assms by (simp add: pin_error_unmap_def micscif_destroy_pinned_pages_def release_pages_count)

lemma detect_result:
  assumes f: "fresh_set n p pp" and n: "0 < n" "n < 2 ^ 31" "pp_nr_pages pp = n" and a: "4096 dvd addr"
  shows "\<exists>pp'. micscif_detect_large_page huge addr pp = Some pp' \<and> pp_wf (pp'\<lparr>pp_map_flags := 0, pp_ref_count := n\<rparr>) \<and>
    pp_pages pp' = pp_pages pp \<and> pp_nr_pages pp' = n \<and> pp_prot pp' = p"
proof -
  have "chunk_prefix pp []" using f by (simp add: chunk_prefix_def fresh_set_def)
  from detect_loop_spec [OF this, of 0 "nat n" addr addr "addr + nat n * 4096" huge] f n(3) a obtain pp' cs' where
    d: "micscif_detect_large_page huge addr pp = Some pp'" "chunk_prefix pp' cs'" "sum_list cs' = nat n" "length (pp_num_pages pp') = nat n"
    "pp' = pp\<lparr>pp_num_pages := pp_num_pages pp', pp_nr_contig_chunks := pp_nr_contig_chunks pp'\<rparr>"
    by (auto simp: micscif_detect_large_page_def fresh_set_def)
  have "pp_nr_pages pp' = n" "pp_pages pp' = pp_pages pp" "pp_prot pp' = p" using f n(3) by (subst d(5), simp add: fresh_set_def)+
  moreover have "chunk_prefix (pp'\<lparr>pp_map_flags := 0, pp_ref_count := n\<rparr>) cs'" using d(2) by (simp add: chunk_prefix_def)
  ultimately show ?thesis using d(1,3,4) n f unfolding pp_wf_def fresh_set_def by auto
qed

text \<open>The last round of the loop. \<open>old\<close> is what the array held before; errors are balanced when the round leaves none of it.\<close>

lemma pin_last_round:
  assumes f: "fresh_set n p0 pp" and n: "0 < n" "n < 2 ^ 31" and a: "4096 dvd addr" and g: "gup_ok env n"
  shows "\<exists>r mm'. pin_user env ulimit addr n p False pp mm = Some (r, mm') \<and>
    (\<forall>p' pp'. r = Inr (p', pp') \<longrightarrow> p' = p \<and> gup env (p AND SCIF_PROT_WRITE \<noteq> 0) = Inr (pp_pages pp') \<and> pinned_result env ulimit n p0 mm pp' mm') \<and>
    (set (drop (case gup env (p AND SCIF_PROT_WRITE \<noteq> 0) of Inl e \<Rightarrow> 0 | Inr qs \<Rightarrow> length qs) (pp_pages pp)) \<subseteq> {0} \<and>
     (set (pp_pages pp) \<subseteq> {0} \<or> (ulimit \<longrightarrow> fst (scif_check_inc_pinned_vm env n mm))) \<longrightarrow>
     (\<forall>e. r = Inl e \<longrightarrow> page_count mm' = page_count mm \<and> pinned_vm mm' = pinned_vm mm))"
proof -
  define w where "w = (p AND SCIF_PROT_WRITE \<noteq> 0)"
  obtain ok mm1 where lim: "(if ulimit then scif_check_inc_pinned_vm env n mm else (True, mm)) = (ok, mm1)" by fastforce
  have l: "length (pp_pages pp) = nat n" and fl: "pp_map_flags pp = 0" using f by (simp_all add: fresh_set_def)
  have noc: "page_count mm1 = page_count mm \<and> pinned_vm mm1 = pinned_vm mm + charge env ulimit n" if ok
    using lim check_inc_charge [of env n mm ok mm1] that by (auto simp: charge_def split: if_splits)
  have gw: "case gup env w of Inl err \<Rightarrow> err < 0 | Inr ps \<Rightarrow> length ps \<le> nat n \<and> 0 \<notin> set ps" using g unfolding gup_ok_def by (rule spec)
  note step = pin_user.simps [of env ulimit addr n p False pp mm, unfolded lim, simplified, folded w_def]
  show ?thesis
  proof (cases ok)
    case False
    have "mm1 = mm" using False lim by (auto simp: scif_check_inc_pinned_vm_def Let_def split: if_splits)
    then have "pin_user env ulimit addr n p False pp mm = pin_error_unmap ENOMEM n pp mm" using step False by simp
    moreover have "ulimit \<and> \<not> fst (scif_check_inc_pinned_vm env n mm)" using False lim by (auto split: if_splits)
    moreover obtain mm' where "pin_error_unmap ENOMEM n pp mm = Some (Inl ENOMEM, mm')" "pinned_vm mm' = pinned_vm mm"
      "\<forall>pg. page_count mm' pg = page_count mm pg - (if pg = 0 then 0 else int (count_list (pp_pages pp) pg))"
      using error_unmap_result [of n pp ENOMEM mm] l fl by auto
    moreover from this(3) have "page_count mm' = page_count mm" if "set (pp_pages pp) \<subseteq> {0}" using count_zeros [OF that] by (intro ext) simp
    ultimately show ?thesis by auto
  next
    case ok: True
    note noc = noc [OF ok]
    show ?thesis
    proof (cases "gup env w")
      case (Inl e)
      have "e < 0" using gw Inl by simp
      then have "pin_user env ulimit addr n p False pp mm =
          pin_error_unmap EFAULT n (pp\<lparr>pp_nr_pages := e, pp_map_flags := 0\<rparr>) (if ulimit then scif_dec_pinned_vm_lock env n mm1 else mm1)"
        using step ok Inl n by (simp add: get_user_pages_def pin_finish_def)
      moreover obtain mm' where "pin_error_unmap EFAULT n (pp\<lparr>pp_nr_pages := e, pp_map_flags := 0\<rparr>) (if ulimit then scif_dec_pinned_vm_lock env n mm1 else mm1) = Some (Inl EFAULT, mm')"
        "pinned_vm mm' = pinned_vm mm"
        "\<forall>pg. page_count mm' pg = page_count mm pg - (if pg = 0 then 0 else int (count_list (pp_pages pp) pg))"
        using error_unmap_result [of n "pp\<lparr>pp_nr_pages := e, pp_map_flags := 0\<rparr>" EFAULT "if ulimit then scif_dec_pinned_vm_lock env n mm1 else mm1"] l noc
        by (auto simp: dec_charge charge_def)
      moreover from this(3) have "page_count mm' = page_count mm" if "set (pp_pages pp) \<subseteq> {0}" using count_zeros [OF that] by (intro ext) simp
      ultimately show ?thesis using Inl by (auto simp: w_def)
    next
      case (Inr qs)
      have q: "length qs \<le> nat n" "0 \<notin> set qs" using gw Inr by simp_all
      define pp1 where "pp1 = pp\<lparr>pp_nr_pages := int (length qs), pp_pages := qs @ drop (length qs) (pp_pages pp)\<rparr>"
      define mm2 where "mm2 = mm1\<lparr>page_count := (\<lambda>pg. page_count mm1 pg + int (count_list qs pg))\<rparr>"
      have gu: "get_user_pages env w pp mm1 = (pp1, mm2)" using Inr by (simp add: get_user_pages_def pp1_def mm2_def)
      have f1: "fresh_set n p0 pp1" using f q l by (simp add: fresh_set_def pp1_def)
      show ?thesis
      proof (cases "int (length qs) = n")
        case True
        then have pg: "pp_pages pp1 = qs" using l by (simp add: pp1_def)
        obtain pp2 where d: "micscif_detect_large_page (huge_page env) addr pp1 = Some pp2" "pp_wf (pp2\<lparr>pp_map_flags := 0, pp_ref_count := n\<rparr>)"
          "pp_pages pp2 = qs" "pp_nr_pages pp2 = n" "pp_prot pp2 = p0"
          using detect_result [OF f1 n _ a, of "huge_page env"] True pg by (auto simp: pp1_def)
        have "pin_user env ulimit addr n p False pp mm = Some (Inr (p, pp2\<lparr>pp_map_flags := 0, pp_ref_count := n\<rparr>), mm2)"
          using step ok gu d True by (simp add: pp1_def pin_finish_def)
        then show ?thesis using d q noc Inr by (simp add: pinned_result_def mm2_def w_def)
      next
        case False
        then have lt: "int (length qs) < n" using q(1) n by simp
        let ?mm3 = "if ulimit then scif_dec_pinned_vm_lock env n mm2 else mm2"
        have "pin_user env ulimit addr n p False pp mm = pin_error_unmap EFAULT n (pp1\<lparr>pp_map_flags := 0\<rparr>) ?mm3"
          using step ok gu lt by (simp add: pp1_def pin_finish_def)
        moreover obtain mm' where "pin_error_unmap EFAULT n (pp1\<lparr>pp_map_flags := 0\<rparr>) ?mm3 = Some (Inl EFAULT, mm')" "pinned_vm mm' = pinned_vm mm"
          "\<forall>pg. page_count mm' pg = page_count mm pg + int (count_list qs pg) - (if pg = 0 then 0 else int (count_list (qs @ drop (length qs) (pp_pages pp)) pg))"
          using error_unmap_result [of n "pp1\<lparr>pp_map_flags := 0\<rparr>" EFAULT ?mm3] l noc q(1)
          by (auto simp: dec_charge charge_def pp1_def mm2_def)
        moreover from this(3) have "page_count mm' = page_count mm" if "set (drop (length qs) (pp_pages pp)) \<subseteq> {0}"
          using count_zeros [OF that] q(2) by (intro ext) (simp add: count_list_0_iff)
        ultimately show ?thesis using Inr by (auto simp: w_def)
      qed
    qed
  qed
qed

text \<open>The first round is the last one, or it is undone before the second.\<close>

lemma pin_first_round:
  assumes f: "fresh_set n p0 pp" and g: "gup_ok env n" and w: "p AND SCIF_PROT_WRITE \<noteq> 0"
  shows "pin_user env ulimit addr n p True pp mm = pin_user env ulimit addr n p False pp mm \<or>
    (\<exists>pp1 mm1. pin_user env ulimit addr n p True pp mm = pin_user env ulimit addr n (p AND NOT SCIF_PROT_WRITE) False pp1 mm1 \<and> fresh_set n p0 pp1 \<and>
       page_count mm1 = page_count mm \<and> pinned_vm mm1 = pinned_vm mm + drift env \<and> (ulimit \<longrightarrow> fst (scif_check_inc_pinned_vm env n mm)) \<and>
       (case gup env True of Inl e \<Rightarrow> pp_pages pp1 = pp_pages pp
        | Inr ps \<Rightarrow> int (length ps) \<noteq> n \<and> pp_pages pp1 = ps @ drop (length ps) (pp_pages pp)))"
proof -
  obtain ok mm1 where lim: "(if ulimit then scif_check_inc_pinned_vm env n mm else (True, mm)) = (ok, mm1)" by fastforce
  obtain pp1 mm2 where gu: "get_user_pages env True pp mm1 = (pp1, mm2)" by fastforce
  have w': "(p AND SCIF_PROT_WRITE \<noteq> 0) = True" using w by simp
  note step = pin_user.simps [of env ulimit addr n p _ pp mm, unfolded lim w', simplified, unfolded gu, simplified]
  show ?thesis
  proof (cases "ok \<and> pp_nr_pages pp1 \<noteq> n")
    case False
    then have "pin_user env ulimit addr n p True pp mm = pin_user env ulimit addr n p False pp mm"
      unfolding step [of True] step [of False] by (cases ok) simp_all
    then show ?thesis by simp
  next
    case True
    then have ok: ok and ne: "pp_nr_pages pp1 \<noteq> n" by simp_all
    have noc: "page_count mm1 = page_count mm \<and> pinned_vm mm1 = pinned_vm mm + charge env ulimit n"
      using lim check_inc_charge [of env n mm ok mm1] ok by (auto simp: charge_def split: if_splits)
    define mm3 where "mm3 = release_pages False (take (nat (pp_nr_pages pp1)) (pp_pages pp1)) (if ulimit then scif_dec_pinned_vm_lock env n mm2 else mm2)"
    have eq: "pin_user env ulimit addr n p True pp mm =
        pin_user env ulimit addr n (p AND NOT SCIF_PROT_WRITE) False pp1 (mm3\<lparr>pinned_vm := pinned_vm mm3 + drift env\<rparr>)"
      unfolding step [of True] using ok ne by (simp add: mm3_def Let_def)
    have lim': "ulimit \<longrightarrow> fst (scif_check_inc_pinned_vm env n mm)" using lim ok by (auto split: if_splits)
    have gw: "case gup env True of Inl err \<Rightarrow> err < 0 | Inr ps \<Rightarrow> length ps \<le> nat n \<and> 0 \<notin> set ps" using g unfolding gup_ok_def by (rule spec)
    have pg: "page_count mm3 = page_count mm" "pinned_vm mm3 = pinned_vm mm" "fresh_set n p0 pp1"
      "case gup env True of Inl e \<Rightarrow> pp_pages pp1 = pp_pages pp | Inr ps \<Rightarrow> int (length ps) \<noteq> n \<and> pp_pages pp1 = ps @ drop (length ps) (pp_pages pp)"
      using gu gw noc ne f unfolding mm3_def
      by (auto simp: get_user_pages_def release_pages_count dec_charge charge_def fresh_set_def count_list_0_iff fun_eq_iff split: sum.splits)
    show ?thesis using eq lim' pg by (intro disjI2 exI [of _ pp1] exI [of _ "mm3\<lparr>pinned_vm := pinned_vm mm3 + drift env\<rparr>"]) simp
  qed
qed

lemma page_aligned_iff: "page_aligned x \<longleftrightarrow> 4096 dvd unat x"
proof -
  have "page_aligned x \<longleftrightarrow> x AND NOT 4095 = x" by (simp add: page_aligned_def align_low_def)
  also have "\<dots> \<longleftrightarrow> x AND (WPAGE - 1) = 0" by (auto simp: bit_eq_iff bit_simps; blast)
  also have "\<dots> \<longleftrightarrow> unat (x AND (WPAGE - 1)) = 0" by (rule unat_eq_0 [symmetric])
  finally show ?thesis unfolding page_off by (simp add: mod_eq_0_iff_dvd)
qed

lemma nr_pages_small:
  fixes len :: u64
  assumes "len < 0x80000000000" shows "sint (ucast (drop_bit WPAGE_SHIFT len) :: u32) = int (unat len div 4096)"
proof -
  have l: "unat len < 2 ^ 31 * 4096" using assms by (simp add: word_less_nat_alt)
  then have d: "unat len div 4096 < 2 ^ 31" by (subst div_less_iff_less_mult) simp_all
  have "unat (drop_bit WPAGE_SHIFT len) = unat len div 4096" by (simp add: drop_bit_eq_div unat_div)
  then have "unat (ucast (drop_bit WPAGE_SHIFT len) :: u32) = unat len div 4096" using d by (simp add: unsigned_ucast_eq take_bit_eq_mod)
  moreover from this d have "sint (ucast (drop_bit WPAGE_SHIFT len) :: u32) = int (unat (ucast (drop_bit WPAGE_SHIFT len) :: u32))"
    by (intro sint_small) simp
  ultimately show ?thesis by (simp only:)
qed

lemma kernel_result:
  assumes "fresh_set n p pp" and "0 < n" and "n < 2 ^ 31"
  shows "pp_wf (pin_kernel env addr n pp\<lparr>pp_ref_count := n\<rparr>)"
proof -
  have "chunk_prefix (pin_kernel env addr n pp\<lparr>pp_ref_count := n\<rparr>) (replicate (nat n) 1)"
    using assms by (auto simp: chunk_prefix_def pin_kernel_def fresh_set_def min_def sum_list_replicate)
  then show ?thesis using assms by (auto simp: pp_wf_def pin_kernel_def sum_list_replicate intro!: exI [of _ "replicate (nat n) 1"])
qed

section \<open>Properties\<close>

lemma create_fresh:
  "micscif_create_pinned_pages env n p = Some pp \<Longrightarrow> fresh_set n p pp \<and> set (pp_pages pp) \<subseteq> {0}"
  by (auto simp: micscif_create_pinned_pages_def fresh_set_def split: if_splits)

text \<open>All cases of a pinning in terms of the rounds of its loop.\<close>

lemma scif_pin_pages_cases:
  fixes len :: u64 and map_flags :: u32
  assumes "0 < len" and "len < 0x80000000000"
  defines "n \<equiv> int (unat len div 4096)" and "ulimit \<equiv> map_flags AND SCIF_MAP_ULIMIT \<noteq> 0"
  obtains e where "scif_pin_pages env addr len p map_flags mm = Some (Inl e, mm)"
  | pp where "0 < n" "n < 2 ^ 31" "fresh_set n p pp" "map_flags AND SCIF_MAP_KERNEL \<noteq> 0"
      "scif_pin_pages env addr len p map_flags mm = Some (Inr (p, pin_kernel env addr n pp\<lparr>pp_ref_count := n\<rparr>), mm)"
  | pp where "0 < n" "n < 2 ^ 31" "fresh_set n p pp" "set (pp_pages pp) \<subseteq> {0}" "4096 dvd unat addr" "map_flags AND SCIF_MAP_KERNEL = 0"
      "scif_pin_pages env addr len p map_flags mm = pin_user env ulimit (unat addr) n (p OR SCIF_PROT_WRITE) (p = SCIF_PROT_READ) pp mm"
proof -
  have n: "sint (ucast (drop_bit WPAGE_SHIFT len) :: u32) = n" unfolding n_def by (rule nr_pages_small [OF assms(2)])
  have "unat len < 2 ^ 31 * 4096" using assms(2) by (simp add: word_less_nat_alt)
  then have lt: "n < 2 ^ 31" unfolding n_def by (simp add: div_less_iff_less_mult)
  have pos: "0 < n" if "page_aligned len"
  proof -
    have "0 < unat len" using assms(1) by (simp add: unat_gt_0)
    then have "0 < unat len div 4096" using that unfolding page_aligned_iff by (auto simp: dvd_def)
    then show ?thesis by (simp add: n_def)
  qed
  note def = scif_pin_pages_def [of env addr len p map_flags mm, unfolded n Let_def, folded ulimit_def]
  show thesis
  proof (cases "map_flags AND NOT (SCIF_MAP_KERNEL OR SCIF_MAP_ULIMIT) = 0 \<and> p AND NOT (SCIF_PROT_READ OR SCIF_PROT_WRITE) = 0 \<and>
      page_aligned addr \<and> page_aligned len")
    case False
    then show thesis using that(1) [of EINVAL] assms(1) def by auto
  next
    case True
    show thesis
    proof (cases "micscif_create_pinned_pages env n p")
      case None
      then show thesis using that(1) [of ENOMEM] True assms(1) def by simp
    next
      case (Some pp)
      have nz: "len \<noteq> 0" using assms(1) by auto
      have eq: "scif_pin_pages env addr len p map_flags mm =
          (if map_flags AND SCIF_MAP_KERNEL \<noteq> 0 then Some (Inr (p, pin_kernel env addr n pp\<lparr>pp_ref_count := n\<rparr>), mm)
           else pin_user env ulimit (unat addr) n (p OR SCIF_PROT_WRITE) (p = SCIF_PROT_READ) pp mm)"
        using def Some True nz by (simp add: pin_finish_def pin_kernel_def)
      have c: "0 < n" "fresh_set n p pp" "set (pp_pages pp) \<subseteq> {0}" "4096 dvd unat addr"
        using pos create_fresh [OF Some] True by (auto simp: page_aligned_iff)
      show thesis
      proof (cases "map_flags AND SCIF_MAP_KERNEL = 0")
        case True
        then show thesis using that(3) [OF c(1) lt c(2-4)] eq by simp
      next
        case False
        then show thesis using that(2) [OF c(1) lt c(2)] eq by simp
      qed
    qed
  qed
qed

lemma pin_pages_wf_aux:
  assumes "0 < len" and "len < 0x80000000000" and "gup_ok env (int (unat len div 4096))"
  shows "\<exists>r mm'. scif_pin_pages env addr len p map_flags mm = Some (r, mm') \<and>
    (\<forall>p' pp. r = Inr (p', pp) \<longrightarrow> pp_wf pp \<and> pp_nr_pages pp = int (unat len div 4096) \<and> pp_ref_count pp = pp_nr_pages pp \<and> pp_prot pp = p \<and>
       (if map_flags AND SCIF_MAP_KERNEL \<noteq> 0
        then mm' = mm \<and> pp_map_flags pp = SCIF_MAP_KERNEL \<and> (\<forall>i < unat len div 4096. pp_pages pp ! i =
          (if is_vmalloc_addr env addr then vmalloc_to_page env (addr + of_nat i * 4096) else virt_to_page env (addr + of_nat i * 4096)))
        else pp_map_flags pp = 0 \<and> gup env (p' AND SCIF_PROT_WRITE \<noteq> 0) = Inr (pp_pages pp) \<and> 0 \<notin> set (pp_pages pp) \<and> (\<forall>pg. page_count mm' pg = page_count mm pg + int (count_list (pp_pages pp) pg)) \<and>
          pinned_vm mm' - pinned_vm mm - charge env (map_flags AND SCIF_MAP_ULIMIT \<noteq> 0) (pp_nr_pages pp) \<in> {0, drift env}))"
proof (rule scif_pin_pages_cases [OF assms(1,2), of env addr p map_flags mm])
  let ?n = "int (unat len div 4096)" and ?u = "map_flags AND SCIF_MAP_ULIMIT \<noteq> 0"
  fix pp assume c: "0 < ?n" "?n < 2 ^ 31" "fresh_set ?n p pp" "4096 dvd unat addr" "map_flags AND SCIF_MAP_KERNEL = 0"
    and eq: "scif_pin_pages env addr len p map_flags mm = pin_user env ?u (unat addr) ?n (p OR SCIF_PROT_WRITE) (p = SCIF_PROT_READ) pp mm"
  have w: "(p OR SCIF_PROT_WRITE) AND SCIF_PROT_WRITE \<noteq> 0" by (simp add: bit.conj_disj_distrib2)
  obtain q pp1 mm1 where r: "scif_pin_pages env addr len p map_flags mm = pin_user env ?u (unat addr) ?n q False pp1 mm1" "fresh_set ?n p pp1"
    "page_count mm1 = page_count mm" "pinned_vm mm1 - pinned_vm mm \<in> {0, drift env}"
  proof (cases "p = SCIF_PROT_READ")
    case True
    then show thesis using pin_first_round [OF c(3) assms(3) w, of ?u "unat addr" mm] eq c(3) that by (elim disjE exE) auto
  next
    case False
    then show thesis using eq c(3) that by simp
  qed
  from pin_last_round [OF r(2) c(1,2,4) assms(3), of ?u q mm1] obtain r' mm' where
    "pin_user env ?u (unat addr) ?n q False pp1 mm1 = Some (r', mm')" "\<forall>p' pp'. r' = Inr (p', pp') \<longrightarrow> p' = q \<and> gup env (q AND SCIF_PROT_WRITE \<noteq> 0) = Inr (pp_pages pp') \<and> pinned_result env ?u ?n p mm1 pp' mm'" by blast
  then show ?thesis using r c(5) unfolding pinned_result_def by (intro exI [of _ r'] exI [of _ mm']) (auto simp: algebra_simps)
next
  fix pp assume "0 < int (unat len div 4096)" "int (unat len div 4096) < 2 ^ 31" "fresh_set (int (unat len div 4096)) p pp" "map_flags AND SCIF_MAP_KERNEL \<noteq> 0"
    "scif_pin_pages env addr len p map_flags mm =
      Some (Inr (p, pin_kernel env addr (int (unat len div 4096)) pp\<lparr>pp_ref_count := int (unat len div 4096)\<rparr>), mm)"
  then show ?thesis using kernel_result [of "int (unat len div 4096)" p pp env addr] by (simp add: pin_kernel_def fresh_set_def)
qed simp

text \<open>
  C38. Pinning always returns, and a set of pages it returns is well formed: the arrays have one entry for each page, the chunks have
  1 to 512 pages and divide the set from its first to its last page, and the reference count is the number of pages. The pages of a process are those
  \<open>get_user_pages\<close> has given for the access the set is returned with, none is missing, each is counted once more for each place it has in the set, and the pages
  are charged to the process when the limit applies. The pages of a range of the kernel are the pages behind its addresses, by \<open>vmalloc_to_page\<close> or \<open>virt_to_page\<close>;
  no reference to them is taken.
\<close>

theorem pin_pages_wf:
  assumes "0 < len" and "len < 0x80000000000" and "gup_ok env (int (unat len div 4096))"
  shows "\<exists>r mm'. scif_pin_pages env addr len p map_flags mm = Some (r, mm') \<and>
    (\<forall>p' pp. r = Inr (p', pp) \<longrightarrow> pp_wf pp \<and> pp_nr_pages pp = int (unat len div 4096) \<and> pp_ref_count pp = pp_nr_pages pp \<and> pp_prot pp = p \<and>
       (if map_flags AND SCIF_MAP_KERNEL \<noteq> 0
        then mm' = mm \<and> pp_map_flags pp = SCIF_MAP_KERNEL \<and> (\<forall>i < unat len div 4096. pp_pages pp ! i =
          (if is_vmalloc_addr env addr then vmalloc_to_page env (addr + of_nat i * 4096) else virt_to_page env (addr + of_nat i * 4096)))
        else pp_map_flags pp = 0 \<and> gup env (p' AND SCIF_PROT_WRITE \<noteq> 0) = Inr (pp_pages pp) \<and> 0 \<notin> set (pp_pages pp) \<and> (\<forall>pg. page_count mm' pg = page_count mm pg + int (count_list (pp_pages pp) pg)) \<and>
          pinned_vm mm' - pinned_vm mm - charge env (map_flags AND SCIF_MAP_ULIMIT \<noteq> 0) (pp_nr_pages pp) \<in> {0, drift env}))"
  by (rule pin_pages_wf_aux [OF assms])

definition demo_mm :: mm_struct where
  "demo_mm = \<lparr>page_count = (\<lambda>_. 1), page_dirty = (\<lambda>_. False), pinned_vm = 0\<rparr>"

definition demo_pin :: "(bool \<Rightarrow> int + u64 list) \<Rightarrow> pin_env" where
  "demo_pin g = \<lparr>zalloc = (\<lambda>_. True), is_vmalloc_addr = (\<lambda>_. False), vmalloc_to_page = (\<lambda>_. 0), virt_to_page = (\<lambda>a. drop_bit WPAGE_SHIFT a * 64), gup = g, huge_page = (\<lambda>_. False), mic_ulimit_check = True,
     lock_limit = 16, cap_ipc_lock = False, drift = 0\<rparr>"

abbreviation demo_gup :: "bool \<Rightarrow> int + u64 list" where "demo_gup \<equiv> (\<lambda>w. if w then Inr [7] else Inr [7, 8])"

lemma demo_gup_ok: "gup_ok (demo_pin demo_gup) 2"
  by (simp add: gup_ok_def demo_pin_def)

definition demo_kernel :: "scif_pinned_pages \<times> mm_struct" where
  "demo_kernel = (case scif_pin_pages (demo_pin demo_gup) 0x5000 0x2000 SCIF_PROT_READ SCIF_MAP_KERNEL demo_mm of Some (Inr (_, pp), mm) \<Rightarrow> (pp, mm))"

lemma demo_kernel_eq:
  "scif_pin_pages (demo_pin demo_gup) 0x5000 0x2000 SCIF_PROT_READ SCIF_MAP_KERNEL demo_mm = Some (Inr (SCIF_PROT_READ, fst demo_kernel), snd demo_kernel)"
proof -
  have "map_option (\<lambda>(r, mm). case r of Inr (q, pp) \<Rightarrow> q | Inl e \<Rightarrow> 0)
      (scif_pin_pages (demo_pin demo_gup) 0x5000 0x2000 SCIF_PROT_READ SCIF_MAP_KERNEL demo_mm) = Some SCIF_PROT_READ" by code_simp
  then show ?thesis unfolding demo_kernel_def
    by (cases "scif_pin_pages (demo_pin demo_gup) 0x5000 0x2000 SCIF_PROT_READ SCIF_MAP_KERNEL demo_mm") (auto split: sum.splits prod.splits)
qed

theorem pin_pages_wf_witness:
  "\<exists>pp mm'. scif_pin_pages (demo_pin demo_gup) 0x5000 0x2000 SCIF_PROT_READ SCIF_MAP_KERNEL demo_mm = Some (Inr (SCIF_PROT_READ, pp), mm') \<and>
    pp_wf pp \<and> pp_nr_pages pp = 2 \<and> pp_pages pp ! 0 = 0x140 \<and> pp_pages pp ! 1 = 0x180"
proof -
  have "gup_ok (demo_pin demo_gup) (int (unat (0x2000 :: u64) div 4096))" using demo_gup_ok by simp
  from pin_pages_wf [OF _ _ this, of "0x5000" SCIF_PROT_READ SCIF_MAP_KERNEL demo_mm] demo_kernel_eq
  have w: "pp_wf (fst demo_kernel)" "pp_nr_pages (fst demo_kernel) = 2"
    and k: "\<forall>i < 2. pp_pages (fst demo_kernel) ! i = virt_to_page (demo_pin demo_gup) (0x5000 + of_nat i * 4096)"
    by (auto simp: demo_pin_def)
  have "pp_pages (fst demo_kernel) ! 0 = 0x140" "pp_pages (fst demo_kernel) ! 1 = 0x180"
    using k [rule_format, of 0] k [rule_format, of 1] by (simp_all add: demo_pin_def)
  then show ?thesis using demo_kernel_eq w by blast
qed

text \<open>
  When pinning fails no page stays referenced and nothing stays charged, provided the second attempt, without write access, reaches at least
  as many pages as the first and other threads do not use up the limit between the two.
\<close>

theorem pin_pages_error_balanced:
  assumes "0 < len" and "len < 0x80000000000" and "gup_ok env (int (unat len div 4096))"
    and "p = SCIF_PROT_READ \<Longrightarrow> drift env \<le> 0 \<and>
      (\<forall>ps. gup env True = Inr ps \<longrightarrow> length ps = unat len div 4096 \<or> (\<exists>qs. gup env False = Inr qs \<and> length ps \<le> length qs))"
    and "scif_pin_pages env addr len p map_flags mm = Some (Inl e, mm')"
  shows "page_count mm' = page_count mm \<and> pinned_vm mm' - pinned_vm mm \<in> {0, drift env}"
proof (rule scif_pin_pages_cases [OF assms(1,2), of env addr p map_flags mm])
  let ?n = "int (unat len div 4096)" and ?u = "map_flags AND SCIF_MAP_ULIMIT \<noteq> 0"
  fix pp assume c: "0 < ?n" "?n < 2 ^ 31" "fresh_set ?n p pp" "set (pp_pages pp) \<subseteq> {0}" "4096 dvd unat addr"
    and eq: "scif_pin_pages env addr len p map_flags mm = pin_user env ?u (unat addr) ?n (p OR SCIF_PROT_WRITE) (p = SCIF_PROT_READ) pp mm"
  have w: "(p OR SCIF_PROT_WRITE) AND SCIF_PROT_WRITE \<noteq> 0" by (simp add: bit.conj_disj_distrib2)
  have one: "page_count mm' = page_count mm \<and> pinned_vm mm' = pinned_vm mm"
    if "pin_user env ?u (unat addr) ?n q False pp mm = Some (Inl e, mm')" for q
    using pin_last_round [OF c(3,1,2,5) assms(3), of ?u q mm] that c(4) set_drop_subset [of _ "pp_pages pp"] by fastforce
  show ?thesis
  proof (cases "p = SCIF_PROT_READ \<and> pin_user env ?u (unat addr) ?n (p OR SCIF_PROT_WRITE) True pp mm \<noteq> pin_user env ?u (unat addr) ?n (p OR SCIF_PROT_WRITE) False pp mm")
    case False
    then show ?thesis using one [of "p OR SCIF_PROT_WRITE"] eq assms(5) by (cases "p = SCIF_PROT_READ") auto
  next
    case True
    then have p: "p = SCIF_PROT_READ" and ro: "(p OR SCIF_PROT_WRITE) AND NOT SCIF_PROT_WRITE = 1" by simp_all
    from pin_first_round [OF c(3) assms(3) w, of ?u "unat addr" mm, unfolded ro] True obtain pp1 mm1 where
      r: "scif_pin_pages env addr len p map_flags mm = pin_user env ?u (unat addr) ?n 1 False pp1 mm1" "fresh_set ?n p pp1"
        "page_count mm1 = page_count mm" "pinned_vm mm1 = pinned_vm mm + drift env" "?u \<longrightarrow> fst (scif_check_inc_pinned_vm env ?n mm)"
        "case gup env True of Inl e \<Rightarrow> pp_pages pp1 = pp_pages pp | Inr ps \<Rightarrow> int (length ps) \<noteq> ?n \<and> pp_pages pp1 = ps @ drop (length ps) (pp_pages pp)"
      using eq by auto
    have "?u \<longrightarrow> fst (scif_check_inc_pinned_vm env ?n mm1)"
      using r(4,5) assms(4) [OF p] by (auto simp: scif_check_inc_pinned_vm_def Let_def split: if_splits)
    moreover have "set (drop (case gup env False of Inl e \<Rightarrow> 0 | Inr qs \<Rightarrow> length qs) (pp_pages pp1)) \<subseteq> {0}"
    proof (cases "gup env True")
      case (Inl e)
      then show ?thesis using r(6) c(4) set_drop_subset [of _ "pp_pages pp"] by fastforce
    next
      case (Inr ps)
      then obtain qs where "gup env False = Inr qs" "length ps \<le> length qs" using r(6) assms(4) [OF p] by auto
      then show ?thesis using Inr r(6) c(4) by (auto dest: in_set_dropD)
    qed
    ultimately show ?thesis using pin_last_round [OF r(2) c(1,2,5) assms(3), of ?u 1 mm1] r(1,3,4) assms(5) by auto
  qed
qed (use assms(5) in auto)

abbreviation short_gup :: "bool \<Rightarrow> int + u64 list" where "short_gup \<equiv> (\<lambda>w. Inr [7])"

definition demo_failed :: mm_struct where
  "demo_failed = snd (the (scif_pin_pages (demo_pin short_gup) 0 0x2000 SCIF_PROT_READ SCIF_MAP_ULIMIT demo_mm))"

lemma demo_failed_eq:
  "scif_pin_pages (demo_pin short_gup) 0 0x2000 SCIF_PROT_READ SCIF_MAP_ULIMIT demo_mm = Some (Inl EFAULT, demo_failed)"
proof -
  have "map_option fst (scif_pin_pages (demo_pin short_gup) 0 0x2000 SCIF_PROT_READ SCIF_MAP_ULIMIT demo_mm) = Some (Inl EFAULT)" by code_simp
  then show ?thesis by (auto simp: demo_failed_def)
qed

theorem pin_pages_error_balanced_witness:
  "page_count demo_failed = page_count demo_mm \<and> pinned_vm demo_failed - pinned_vm demo_mm \<in> {0, drift (demo_pin short_gup)}"
  by (rule pin_pages_error_balanced [OF _ _ _ _ demo_failed_eq]) (simp_all add: gup_ok_def demo_pin_def)

text \<open>
  C39. Unpinning a set of pages that no window uses gives all its references back.
\<close>

theorem pin_unpin_roundtrip:
  assumes "0 < len" and "len < 0x80000000000" and "gup_ok env (int (unat len div 4096))"
    and "scif_pin_pages env addr len p map_flags mm = Some (Inr (p', pp), mm')"
  shows "\<exists>mm''. scif_unpin_pages pp mm' = Some (None, mm'') \<and> page_count mm'' = page_count mm \<and> pinned_vm mm'' = pinned_vm mm'"
proof -
  have wf: "pp_wf pp" and ref: "pp_ref_count pp = pp_nr_pages pp"
    and c: "if map_flags AND SCIF_MAP_KERNEL \<noteq> 0 then mm' = mm \<and> pp_map_flags pp = SCIF_MAP_KERNEL
      else pp_map_flags pp = 0 \<and> 0 \<notin> set (pp_pages pp) \<and> (\<forall>pg. page_count mm' pg = page_count mm pg + int (count_list (pp_pages pp) pg))"
    using pin_pages_wf_aux [OF assms(1-3), of addr p map_flags mm] assms(4) by (auto split: if_splits)
  have "length (pp_pages pp) = nat (pp_nr_pages pp)" using wf by (simp add: pp_wf_def)
  then have u: "scif_unpin_pages pp mm' = Some (None, if pp_map_flags pp AND SCIF_MAP_KERNEL \<noteq> 0 then mm' else
      release_pages (pp_prot pp AND SCIF_PROT_WRITE \<noteq> 0) (pp_pages pp) mm')"
    using ref by (simp add: scif_unpin_pages_def micscif_destroy_pinned_pages_def)
  then show ?thesis
    using c by (cases "map_flags AND SCIF_MAP_KERNEL \<noteq> 0") (auto simp: fun_eq_iff release_pages_count count_list_0_iff)
qed

definition demo_pinned :: "scif_pinned_pages \<times> mm_struct" where
  "demo_pinned = (case scif_pin_pages (demo_pin demo_gup) 0 0x2000 SCIF_PROT_READ SCIF_MAP_ULIMIT demo_mm of Some (Inr (_, pp), mm) \<Rightarrow> (pp, mm))"

lemma demo_pinned_eq:
  "scif_pin_pages (demo_pin demo_gup) 0 0x2000 SCIF_PROT_READ SCIF_MAP_ULIMIT demo_mm = Some (Inr (SCIF_PROT_READ, fst demo_pinned), snd demo_pinned)"
proof -
  have "map_option (\<lambda>(r, mm). case r of Inr (q, pp) \<Rightarrow> q | Inl e \<Rightarrow> 0)
      (scif_pin_pages (demo_pin demo_gup) 0 0x2000 SCIF_PROT_READ SCIF_MAP_ULIMIT demo_mm) = Some SCIF_PROT_READ" by code_simp
  then show ?thesis unfolding demo_pinned_def
    by (cases "scif_pin_pages (demo_pin demo_gup) 0 0x2000 SCIF_PROT_READ SCIF_MAP_ULIMIT demo_mm") (auto split: sum.splits prod.splits)
qed

theorem pin_unpin_roundtrip_witness:
  "\<exists>mm''. scif_unpin_pages (fst demo_pinned) (snd demo_pinned) = Some (None, mm'') \<and> page_count mm'' = page_count demo_mm \<and>
    pinned_vm mm'' = pinned_vm (snd demo_pinned)"
  using pin_unpin_roundtrip [OF _ _ _ demo_pinned_eq] demo_gup_ok by simp

text \<open>
  Without the condition on the second attempt pages are released twice: the array still has the pages of the first attempt, which have been released, and
  the error path releases them again. Here the first attempt reaches two of three pages and the second none.
\<close>

theorem pin_pages_stale_release:
  "map_option (\<lambda>(r, mm'). (r, page_count mm' 7 - page_count demo_mm 7))
     (scif_pin_pages (demo_pin (\<lambda>w. if w then Inr [7, 8] else Inl (- 14))) 0 0x3000 SCIF_PROT_READ 0 demo_mm) = Some (Inl EFAULT, - 1)"
  by code_simp

end
