(* ===== verification/Rma_Remote.thy ===== *)
theory Rma_Remote
  imports Rma_Pages
begin

text \<open>
  The two copies of a registered window (\<open>micscif_rma.c\<close>, \<open>micscif_rma.h\<close>, host build for KNC). The window of the owner has the
  addresses of the chunks of its pinned pages as the other node sees them, with the number of pages of a chunk in the upper 12 bits of its address. The other node
  allocates a window of its own and makes its array of addresses reachable page by page through a lookup table. The owner writes the
  addresses there, and both sides then take them apart again. What the allocator and the mapping for the other node answer are arguments.
  An entry of the lookup table is the index in the array of the first address in its page. \<open>None\<close> is a \<open>BUG_ON\<close> or an access
  outside of an array.
\<close>

section \<open>Addresses with page counts\<close>

definition RMA_GET_NR_PAGES :: "u64 \<Rightarrow> u64" where "RMA_GET_NR_PAGES addr = drop_bit 52 addr"

definition RMA_SET_NR_PAGES :: "u64 \<Rightarrow> u32 \<Rightarrow> u64" where
  "RMA_SET_NR_PAGES addr n = push_bit 52 (scast n AND 0xFFF) OR addr"

definition RMA_GET_ADDR :: "u64 \<Rightarrow> u64" where "RMA_GET_ADDR addr = addr AND NOT (push_bit 52 0xFFF)"

section \<open>Windows of the owner\<close>

definition no_alloc :: allocmsg where "no_alloc = \<lparr>al_phys_addr = 0, al_vaddr = 0, al_state = OP_IDLE\<rparr>"

text \<open>A zeroed window at an address, with arrays of \<open>n\<close> entries.\<close>

definition zero_window :: "u64 \<Rightarrow> nat \<Rightarrow> reg_range" where
  "zero_window a n = \<lparr>waddr = a, nr_pages = 0, nr_contig_chunks = 0, prot = 0, wref_count = 0, magic = SCIFEP_MAGIC, offset = 0, va_for_temp = 0,
     wtype = RMA_WINDOW_SELF, peer_window = 0, unreg_state = OP_IDLE, offset_freed = False, pinned = [], get_put_ref_count = 0, dma_addrs = replicate n 0,
     num_pages = replicate n 0, wtemp = False, reg_state = OP_IDLE, alloc_handle = no_alloc, pinned_pages = 0, mapped_offset = 0, nr_lookup = 0,
     dma_lookup = [], dma_lookup_offset = 0\<rparr>"

definition micscif_create_window :: "(nat \<Rightarrow> bool) \<Rightarrow> u64 \<Rightarrow> u64 \<Rightarrow> u64 \<Rightarrow> bool \<Rightarrow> reg_range option" where
  "micscif_create_window za a n off temp =
     (if za 0 \<and> za 1 \<and> za 2 then Some ((zero_window a (unat n))\<lparr>offset := off, wtemp := temp\<rparr>) else None)"

text \<open>The loop of \<open>micscif_map_window_pages\<close>: chunk \<open>j\<close> starts with page \<open>i\<close>; \<open>mp\<close> is \<open>map_virt_into_aperture\<close>.\<close>

fun map_pages :: "(u64 \<Rightarrow> u64 \<Rightarrow> errno + u64) \<Rightarrow> bool \<Rightarrow> scif_pinned_pages \<Rightarrow> nat \<Rightarrow> nat \<Rightarrow> nat \<Rightarrow> reg_range \<Rightarrow> (errno option \<times> reg_range) option" where
  "map_pages mp temp pp 0 j i w = Some (None, w)"
| "map_pages mp temp pp (Suc m) j i w =
     (if i < length (pp_num_pages pp) \<and> i < length (pp_pages pp) \<and> j < length (dma_addrs w) \<and> j < length (num_pages w) then
        let n = pp_num_pages pp ! i
        in case mp (pp_pages pp ! i) (chunk_bytes n) of
             Inl err \<Rightarrow> Some (Some err, w\<lparr>dma_addrs := (dma_addrs w)[j := 0]\<rparr>)
           | Inr a \<Rightarrow> map_pages mp temp pp m (j + 1) (i + unat n)
               (w\<lparr>dma_addrs := (dma_addrs w)[j := if temp then a else RMA_SET_NR_PAGES a n], num_pages := (num_pages w)[j := n]\<rparr>)
      else None)"

definition micscif_map_window_pages :: "(u64 \<Rightarrow> u64 \<Rightarrow> errno + u64) \<Rightarrow> scif_pinned_pages \<Rightarrow> bool \<Rightarrow> reg_range \<Rightarrow> (errno option \<times> reg_range) option" where
  "micscif_map_window_pages mp pp temp w = (if magic w \<noteq> SCIFEP_MAGIC then None else map_pages mp temp pp (unat (nr_contig_chunks w)) 0 0 w)"

fun set_pages :: "nat \<Rightarrow> nat \<Rightarrow> reg_range \<Rightarrow> reg_range option" where
  "set_pages 0 j w = Some w"
| "set_pages (Suc m) j w =
     (if j < length (dma_addrs w) \<and> j < length (num_pages w) then
        let n = ucast (RMA_GET_NR_PAGES (dma_addrs w ! j)); w = w\<lparr>num_pages := (num_pages w)[j := n]\<rparr>
        in if n \<noteq> 0 then set_pages m (j + 1) (w\<lparr>dma_addrs := (dma_addrs w)[j := RMA_GET_ADDR (dma_addrs w ! j)]\<rparr>) else Some w
      else None)"

definition micscif_set_nr_pages :: "reg_range \<Rightarrow> reg_range option" where
  "micscif_set_nr_pages w = set_pages (unat (nr_contig_chunks w)) 0 w"

section \<open>Windows of the other node\<close>

record remote_env =
  re_zalloc :: "nat \<Rightarrow> bool"
  re_map_window :: "errno + u64"
  re_map_lookup :: "errno + u64"
  re_map_page :: "nat \<Rightarrow> errno option"

abbreviation (input) NR_PHYS_ADDR_IN_PAGE :: nat where "NR_PHYS_ADDR_IN_PAGE \<equiv> 512"

function lookup_loop :: "(nat \<Rightarrow> errno option) \<Rightarrow> nat \<Rightarrow> nat \<Rightarrow> nat \<Rightarrow> reg_range \<Rightarrow> (errno option \<times> reg_range) option" where
  "lookup_loop mp n i j w =
     (if i < n then
        if j < nr_lookup w \<and> i < length (dma_addrs w) then
          case mp j of
            Some err \<Rightarrow> Some (Some err, w)
          | None \<Rightarrow> lookup_loop mp n (i + NR_PHYS_ADDR_IN_PAGE) (j + 1) (w\<lparr>dma_lookup := dma_lookup w @ [i]\<rparr>)
        else None
      else Some (None, w))"
  by pat_completeness auto

termination lookup_loop
  by (relation "measure (\<lambda>(mp, n, i, j, w). n - i)") auto

declare lookup_loop.simps [simp del]

text \<open>\<open>err\<close> is still \<open>0\<close> when the allocation of the lookup table fails.\<close>

definition micscif_create_remote_lookup :: "remote_env \<Rightarrow> reg_range \<Rightarrow> (errno option \<times> reg_range) option" where
  "micscif_create_remote_lookup env w =
     (case re_map_window env of
        Inl err \<Rightarrow> Some (Some err, w)
      | Inr off \<Rightarrow>
          let w = w\<lparr>mapped_offset := off, nr_lookup := (unat (nr_pages w) * 4096 + (0x200000 - 1)) div 0x200000\<rparr>
          in if \<not> re_zalloc env 3 then Some (None, w)
             else case re_map_lookup env of
               Inl err \<Rightarrow> Some (Some err, w)
             | Inr lo \<Rightarrow> lookup_loop (re_map_page env) (unat (nr_pages w)) 0 0 (w\<lparr>dma_lookup_offset := lo\<rparr>))"

text \<open>The number of mappings taken down, and the window without its table.\<close>

definition micscif_destroy_remote_lookup :: "reg_range \<Rightarrow> (nat \<times> reg_range) option" where
  "micscif_destroy_remote_lookup w =
     (if magic w \<noteq> SCIFEP_MAGIC then None
      else if nr_lookup w = 0 then Some (0, w)
      else Some (length (filter (\<lambda>j. j < length (dma_lookup w)) [0..<(unat (nr_pages w) + 511) div NR_PHYS_ADDR_IN_PAGE]) +
             (if dma_lookup_offset w \<noteq> 0 then 1 else 0) + (if mapped_offset w \<noteq> 0 then 1 else 0),
           w\<lparr>nr_lookup := 0, dma_lookup := []\<rparr>))"

definition micscif_destroy_remote_window :: "reg_range \<Rightarrow> nat option" where
  "micscif_destroy_remote_window w = map_option fst (micscif_destroy_remote_lookup w)"

definition micscif_create_remote_window :: "remote_env \<Rightarrow> u64 \<Rightarrow> u32 \<Rightarrow> (reg_range option) option" where
  "micscif_create_remote_window env a n =
     (if \<not> re_zalloc env 0 then Some None
      else
        let w = (zero_window a (if re_zalloc env 1 \<and> re_zalloc env 2 then unat n else 0))\<lparr>nr_pages := scast n\<rparr>
        in if \<not> re_zalloc env 1 \<or> \<not> re_zalloc env 2 then map_option (\<lambda>_. None) (micscif_destroy_remote_window w)
           else do {
             (err, w) \<leftarrow> micscif_create_remote_lookup env w;
             if err \<noteq> None then map_option (\<lambda>_. None) (micscif_destroy_remote_window w)
             else Some (Some (w\<lparr>wtype := RMA_WINDOW_PEER, wref_count := n, get_put_ref_count := 0, unreg_state := OP_IDLE\<rparr>)) })"

section \<open>The transfer\<close>

text \<open>The loop that copies the addresses, one page of the array of the other node after the other.\<close>

function copy_addrs :: "reg_range \<Rightarrow> nat \<Rightarrow> nat \<Rightarrow> nat \<Rightarrow> reg_range \<Rightarrow> reg_range option" where
  "copy_addrs w i j left rw =
     (if left = 0 then Some rw
      else
        let n = min left NR_PHYS_ADDR_IN_PAGE
        in if j < length (dma_lookup rw) then do {
             bs \<leftarrow> memcpy_fromio (dma_addrs w) i n;
             as \<leftarrow> memcpy_toio (dma_addrs rw) (dma_lookup rw ! j) bs;
             copy_addrs w (i + n) (j + 1) (left - n) (rw\<lparr>dma_addrs := as\<rparr>) }
           else None)"
  by pat_completeness auto

termination copy_addrs
  by (relation "measure (\<lambda>(w, i, j, left, rw). left)") auto

declare copy_addrs.simps [simp del]

text \<open>The part of \<open>micscif_prep_remote_window\<close> in which the window of the other node is filled: both windows afterwards.\<close>

definition prep_transfer :: "reg_range \<Rightarrow> reg_range \<Rightarrow> (reg_range \<times> reg_range) option" where
  "prep_transfer w rw =
     (if magic rw \<noteq> SCIFEP_MAGIC then None
      else do {
        rw \<leftarrow> copy_addrs w 0 0 (unat (nr_contig_chunks w)) rw;
        Some (w\<lparr>peer_window := al_vaddr (alloc_handle w)\<rparr>,
          rw\<lparr>peer_window := waddr w, offset := offset w, prot := prot w, nr_contig_chunks := nr_contig_chunks w\<rparr>) })"

section \<open>What the loops do\<close>

lemma nr_pages_code:
  assumes a: "unat a < 2 ^ 52" and n: "n < 4096"
  shows "ucast (RMA_GET_NR_PAGES (RMA_SET_NR_PAGES a (of_nat n))) = (of_nat n :: u32)" and "RMA_GET_ADDR (RMA_SET_NR_PAGES a (of_nat n)) = a"
proof -
  have ab: "\<not> bit a i" if "52 \<le> i" for i
  proof -
    have "take_bit 52 (unat a) = unat a" using a by (simp add: take_bit_nat_eq_self_iff)
    then have "take_bit 52 a = a" by (metis unsigned_take_bit_eq word_unat_eq_iff)
    then show ?thesis using that by (metis bit_take_bit_iff not_less)
  qed
  have "sint (of_nat n :: u32) = int n" using n sint_small [of "of_nat n :: u32"] by (simp add: unsigned_of_nat take_bit_nat_eq_self)
  then have sc: "scast (of_nat n :: u32) = (of_nat n :: u64)" unfolding scast_eq by simp
  have nb: "bit (of_nat n :: u64) i \<longleftrightarrow> bit n i" "bit (of_nat n :: u32) i \<longleftrightarrow> bit n i" if "i < 32" for i
    using that by (simp_all add: bit_simps)
  have n12: "bit n i \<longrightarrow> i < 12" for i
  proof -
    have "take_bit 12 n = n" using n by (simp add: take_bit_nat_eq_self_iff)
    then show ?thesis by (metis bit_take_bit_iff)
  qed
  have m: "(of_nat n :: u64) AND 0xFFF = of_nat n"
  proof -
    have "(of_nat n :: u64) AND 0xFFF = take_bit 12 (of_nat n)" by (simp add: take_bit_eq_mask mask_eq_exp_minus_1)
    also have "\<dots> = of_nat (take_bit 12 n)" by (simp add: take_bit_of_nat)
    finally show ?thesis using n by (simp add: take_bit_nat_eq_self)
  qed
  have "NOT (push_bit 52 0xFFF) = (mask 52 :: u64)" by (simp add: mask_eq_exp_minus_1)
  then have ga: "RMA_GET_ADDR x = take_bit 52 x" for x by (simp only: RMA_GET_ADDR_def take_bit_eq_mask)
  show "ucast (RMA_GET_NR_PAGES (RMA_SET_NR_PAGES a (of_nat n))) = (of_nat n :: u32)"
    unfolding RMA_GET_NR_PAGES_def RMA_SET_NR_PAGES_def sc m
    by (rule bit_word_eqI) (use ab n12 in \<open>auto simp: bit_simps not_less [symmetric]\<close>)
  show "RMA_GET_ADDR (RMA_SET_NR_PAGES a (of_nat n)) = a"
    unfolding ga RMA_SET_NR_PAGES_def sc m
    by (rule bit_word_eqI) (use ab in \<open>auto simp: bit_simps not_less [symmetric]\<close>)
qed

lemma list_update_steps:
  assumes "j < length d"
  shows "take (Suc j) (d[j := x]) = take j d @ [x]" "drop (Suc j + m) (d[j := x]) = drop (Suc j + m) d"
  using assms by (simp_all add: take_Suc_conv_app_nth)

text \<open>Entries \<open>j\<close> and following of an array are replaced.\<close>

definition put_at :: "nat \<Rightarrow> 'a list \<Rightarrow> 'a list \<Rightarrow> 'a list" where
  "put_at j xs d = take j d @ xs @ drop (j + length xs) d"

lemma put_at_Nil [simp]: "put_at j [] d = d" by (simp add: put_at_def)

lemma put_at_length [simp]: "j + length xs \<le> length d \<Longrightarrow> length (put_at j xs d) = length d" by (simp add: put_at_def)

lemma put_at_Cons: "j < length d \<Longrightarrow> put_at (Suc j) xs (d[j := x]) = put_at j (x # xs) d"
  using list_update_steps(1) [of j d x] list_update_steps(2) [of j d "length xs" x] by (simp add: put_at_def)

lemma put_at_append: "j + length xs + length ys \<le> length d \<Longrightarrow> put_at (j + length xs) ys (put_at j xs d) = put_at j (xs @ ys) d"
  by (simp add: put_at_def ac_simps)

lemma map_pages_spec:
  assumes "\<And>k. k < length cs \<Longrightarrow> pp_num_pages pp ! (i + sum_list (take k cs)) = of_nat (cs ! k) \<and> 0 < cs ! k \<and> cs ! k \<le> 512"
    and "\<And>k l. k < length cs \<Longrightarrow> mp (pp_pages pp ! (i + sum_list (take k cs))) l = Inr (bus ! k)" and "length bus = length cs"
    and "i + sum_list cs \<le> length (pp_num_pages pp)" and "i + sum_list cs \<le> length (pp_pages pp)"
    and "j + length cs \<le> length (dma_addrs w)" and "j + length cs \<le> length (num_pages w)"
  shows "map_pages mp False pp (length cs) j i w = Some (None, w\<lparr>dma_addrs := put_at j (map2 (\<lambda>a c. RMA_SET_NR_PAGES a (of_nat c)) bus cs) (dma_addrs w),
    num_pages := put_at j (map of_nat cs) (num_pages w)\<rparr>)"
  using assms
proof (induction cs arbitrary: i j w bus)
  case (Cons c cs)
  obtain b bs where bus: "bus = b # bs" using Cons.prems(3) by (cases bus) auto
  note k0 = Cons.prems(1) [of 0, simplified] Cons.prems(2) [of 0, simplified]
  have cn: "unat (of_nat c :: u32) = c" using k0(1) by (simp add: unat_of_nat)
  have bound: "i < length (pp_num_pages pp)" "i < length (pp_pages pp)" "j < length (dma_addrs w)" "j < length (num_pages w)"
    using Cons.prems(4-7) k0(1) by auto
  define w1 where "w1 = w\<lparr>dma_addrs := (dma_addrs w)[j := RMA_SET_NR_PAGES b (of_nat c)], num_pages := (num_pages w)[j := of_nat c]\<rparr>"
  have "map_pages mp False pp (Suc (length cs)) j i w = map_pages mp False pp (length cs) (j + 1) (i + c) w1"
    using bound k0 bus cn by (simp add: w1_def Let_def)
  also have "\<dots> = Some (None, w1\<lparr>dma_addrs := put_at (j + 1) (map2 (\<lambda>a c. RMA_SET_NR_PAGES a (of_nat c)) bs cs) (dma_addrs w1),
      num_pages := put_at (j + 1) (map of_nat cs) (num_pages w1)\<rparr>)"
  proof (rule Cons.IH)
    show "pp_num_pages pp ! (i + c + sum_list (take k cs)) = of_nat (cs ! k) \<and> 0 < cs ! k \<and> cs ! k \<le> 512" if "k < length cs" for k
      using Cons.prems(1) [of "Suc k"] that by (simp add: add.assoc)
    show "mp (pp_pages pp ! (i + c + sum_list (take k cs))) l = Inr (bs ! k)" if "k < length cs" for k l
      using Cons.prems(2) [of "Suc k" l] that bus by (simp add: add.assoc)
  qed (use Cons.prems(3-7) bus in \<open>auto simp: w1_def\<close>)
  finally show ?case using bound bus by (simp add: w1_def put_at_Cons)
qed simp

lemma set_pages_spec:
  assumes "\<And>k. k < length cs \<Longrightarrow> dma_addrs w ! (j + k) = RMA_SET_NR_PAGES (bus ! k) (of_nat (cs ! k)) \<and> unat (bus ! k) < 2 ^ 52 \<and> 0 < cs ! k \<and> cs ! k \<le> 512"
    and "length bus = length cs" and "j + length cs \<le> length (dma_addrs w)" and "j + length cs \<le> length (num_pages w)"
  shows "set_pages (length cs) j w = Some (w\<lparr>dma_addrs := put_at j bus (dma_addrs w), num_pages := put_at j (map of_nat cs) (num_pages w)\<rparr>)"
  using assms
proof (induction cs arbitrary: j w bus)
  case (Cons c cs)
  obtain b bs where bus: "bus = b # bs" using Cons.prems(2) by (cases bus) auto
  note k0 = Cons.prems(1) [of 0, simplified]
  have code: "ucast (RMA_GET_NR_PAGES (dma_addrs w ! j)) = (of_nat c :: u32)" "RMA_GET_ADDR (dma_addrs w ! j) = b"
    using nr_pages_code [of b c] k0 bus by auto
  have cn: "(of_nat c :: u32) \<noteq> 0" using k0 by (simp add: word_unat_eq_iff unat_of_nat)
  have bound: "j < length (dma_addrs w)" "j < length (num_pages w)" using Cons.prems(3,4) by auto
  define w1 where "w1 = w\<lparr>num_pages := (num_pages w)[j := of_nat c], dma_addrs := (dma_addrs w)[j := b]\<rparr>"
  have "set_pages (Suc (length cs)) j w = set_pages (length cs) (j + 1) w1" using bound code cn by (simp add: w1_def)
  also have "\<dots> = Some (w1\<lparr>dma_addrs := put_at (j + 1) bs (dma_addrs w1), num_pages := put_at (j + 1) (map of_nat cs) (num_pages w1)\<rparr>)"
  proof (rule Cons.IH)
    show "dma_addrs w1 ! (j + 1 + k) = RMA_SET_NR_PAGES (bs ! k) (of_nat (cs ! k)) \<and> unat (bs ! k) < 2 ^ 52 \<and> 0 < cs ! k \<and> cs ! k \<le> 512"
      if "k < length cs" for k
      using Cons.prems(1) [of "Suc k"] that bus by (simp add: w1_def)
  qed (use Cons.prems(2-4) bus in \<open>auto simp: w1_def\<close>)
  finally show ?case using bound bus by (simp add: w1_def put_at_Cons)
qed simp

lemma lookup_loop_spec:
  assumes "lookup_loop mp n i j w = Some (None, w')" and "i = 512 * j"
  shows "w' = w\<lparr>dma_lookup := dma_lookup w @ map ((*) 512) [j..<(n + 511) div 512]\<rparr>"
  using assms
proof (induction mp n i j w rule: lookup_loop.induct)
  case (1 mp n i j w)
  show ?case
  proof (cases "i < n")
    case True
    then have "Suc j \<le> (n + 511) div 512" using "1.prems"(2) by (simp add: less_eq_div_iff_mult_less_eq)
    then have up: "[j..<(n + 511) div 512] = j # [Suc j..<(n + 511) div 512]" by (simp add: upt_conv_Cons)
    from True "1.prems"(1) have c: "j < nr_lookup w \<and> i < length (dma_addrs w)" "mp j = None"
      "lookup_loop mp n (i + 512) (j + 1) (w\<lparr>dma_lookup := dma_lookup w @ [i]\<rparr>) = Some (None, w')"
      by (auto simp: lookup_loop.simps [of mp n i j w] split: if_splits option.splits)
    show ?thesis using "1.IH" [OF True c(1,2,3)] "1.prems"(2) up by simp
  next
    case False
    then have "(n + 511) div 512 < Suc j" using "1.prems"(2) by (simp add: div_less_iff_less_mult)
    moreover have "w' = w" using False "1.prems"(1) by (simp add: lookup_loop.simps [of mp n i j w])
    ultimately show ?thesis by simp
  qed
qed

lemma copy_addrs_spec:
  assumes "dma_lookup rw = map ((*) 512) [0..<L]" and "left = 0 \<or> i = 512 * j" and "i + left \<le> 512 * L"
    and "i + left \<le> length (dma_addrs rw)" and "i + left \<le> length (dma_addrs w)"
  shows "copy_addrs w i j left rw = Some (rw\<lparr>dma_addrs := put_at i (take left (drop i (dma_addrs w))) (dma_addrs rw)\<rparr>)"
  using assms
proof (induction w i j left rw rule: copy_addrs.induct)
  case (1 w i j left rw)
  show ?case
  proof (cases "left = 0")
    case False
    define n where "n = min left 512"
    have n: "0 < n" "n \<le> left" "n \<le> 512" using False by (auto simp: n_def)
    have i: "i = 512 * j" using False "1.prems"(2) by simp
    have jL: "j < L" using "1.prems"(3) i n by linarith
    then have lk: "j < length (dma_lookup rw)" "dma_lookup rw ! j = i" using "1.prems"(1) i by simp_all
    define bs where "bs = take n (drop i (dma_addrs w))"
    have fr: "memcpy_fromio (dma_addrs w) i n = Some bs" using "1.prems"(5) n by (simp add: memcpy_fromio_def bs_def)
    have lb: "length bs = n" using "1.prems"(5) n by (simp add: bs_def)
    have tr: "memcpy_toio (dma_addrs rw) (dma_lookup rw ! j) bs = Some (put_at i bs (dma_addrs rw))"
      using "1.prems"(4) n lb lk by (simp add: memcpy_toio_def put_at_def)
    define rw1 where "rw1 = rw\<lparr>dma_addrs := put_at i bs (dma_addrs rw)\<rparr>"
    have "copy_addrs w i j left rw = copy_addrs w (i + n) (j + 1) (left - n) rw1"
      using False lk fr tr by (simp add: copy_addrs.simps [of w i j left rw] n_def [symmetric] rw1_def Let_def)
    also have "\<dots> = Some (rw1\<lparr>dma_addrs := put_at (i + n) (take (left - n) (drop (i + n) (dma_addrs w))) (dma_addrs rw1)\<rparr>)"
    proof (rule "1.IH" [OF False n_def lk(1) fr tr, folded rw1_def])
      show "left - n = 0 \<or> i + n = 512 * (j + 1)" using i by (auto simp: n_def)
    qed (use "1.prems" n lb in \<open>auto simp: rw1_def\<close>)
    also have "put_at (i + n) (take (left - n) (drop (i + n) (dma_addrs w))) (dma_addrs rw1) =
        put_at i (bs @ take (left - n) (drop (i + n) (dma_addrs w))) (dma_addrs rw)"
      using put_at_append [of i bs "take (left - n) (drop (i + n) (dma_addrs w))" "dma_addrs rw"] "1.prems"(4,5) n lb by (simp add: rw1_def)
    also have "bs @ take (left - n) (drop (i + n) (dma_addrs w)) = take left (drop i (dma_addrs w))"
      using take_add [of n "left - n" "drop i (dma_addrs w)"] n by (simp add: bs_def add.commute)
    finally show ?thesis by (simp add: rw1_def)
  next
    case True
    then show ?thesis by (simp add: copy_addrs.simps [of w i j 0 rw])
  qed
qed

section \<open>Both copies of a window\<close>

definition heads :: "scif_pinned_pages \<Rightarrow> nat list \<Rightarrow> u64 list" where
  "heads pp cs = map (\<lambda>k. pp_pages pp ! sum_list (take k cs)) [0..<length cs]"

text \<open>The addresses of all pages, when the first page of a chunk is at \<open>bus\<close> and the others follow it.\<close>

definition chunk_addrs :: "(u64 \<Rightarrow> u64) \<Rightarrow> scif_pinned_pages \<Rightarrow> nat list \<Rightarrow> nat list" where
  "chunk_addrs bus pp cs = concat (map2 (\<lambda>pg c. map (\<lambda>k. unat (bus pg) + k * 4096) [0..<c]) (heads pp cs) cs)"

definition bus_ok :: "(u64 \<Rightarrow> u64 \<Rightarrow> errno + u64) \<Rightarrow> (u64 \<Rightarrow> u64) \<Rightarrow> scif_pinned_pages \<Rightarrow> bool" where
  "bus_ok mp bus pp \<longleftrightarrow> (\<forall>pg \<in> set (pp_pages pp). unat (bus pg) + 0x200000 \<le> 2 ^ 52 \<and> unat (bus pg) mod 4096 = 0 \<and> (\<forall>l. mp pg l = Inr (bus pg)))"

text \<open>A window with the chunks \<open>cs\<close> at the addresses \<open>as\<close> at the start of its arrays.\<close>

definition has_table :: "reg_range \<Rightarrow> u64 list \<Rightarrow> nat list \<Rightarrow> bool" where
  "has_table w as cs \<longleftrightarrow> length as = length cs \<and> nr_contig_chunks w = of_nat (length cs) \<and>
     (\<exists>ds ns. dma_addrs w = as @ ds \<and> num_pages w = map of_nat cs @ ns)"

lemma length_le_sum: "\<forall>k < length cs. 0 < cs ! k \<Longrightarrow> length cs \<le> sum_list cs" for cs :: "nat list"
proof (induction cs)
  case (Cons c cs)
  then show ?case using Cons.prems [rule_format, of 0] by (fastforce dest: spec [of _ "Suc _"])
qed simp

lemma table_dma:
  assumes t: "has_table w as cs" and cs: "\<forall>k < length cs. 0 < cs ! k \<and> cs ! k \<le> 512" "sum_list cs = unat (nr_pages w)" "unat (nr_pages w) < 2 ^ 31"
    and a: "\<forall>k < length cs. unat (as ! k) + 0x200000 \<le> 2 ^ 52 \<and> unat (as ! k) mod 4096 = 0" and w: "win_ok w"
  shows "dma_ok w" and "page_addrs w = concat (map2 (\<lambda>a c. map (\<lambda>k. unat a + k * 4096) [0..<c]) as cs)"
proof -
  obtain ds ns where l: "length as = length cs" "dma_addrs w = as @ ds" "num_pages w = map of_nat cs @ ns" using t by (auto simp: has_table_def)
  have "length cs \<le> sum_list cs" using cs(1) by (simp add: length_le_sum)
  then have "length cs < 2 ^ 64" using cs by simp
  then have n: "nchunks w = length cs" using t by (simp add: has_table_def nchunks_def unat_of_nat)
  have e: "dma_addrs w ! k = as ! k" "unat (num_pages w ! k) = cs ! k" if "k < length cs" for k
    using that l cs(1) by (auto simp: nth_append unat_of_nat order.strict_trans1)
  have "pages_before w (nchunks w) = (\<Sum>j < length cs. cs ! j)" unfolding pages_before_def n by (rule sum.cong) (simp_all add: e)
  also have "\<dots> = sum_list cs" by (simp add: sum_list_sum_nth atLeast0LessThan)
  finally have pb: "pages_before w (nchunks w) = unat (nr_pages w)" using cs(2) by simp
  have "0 < unat (num_pages w ! k) \<and> unat (num_pages w ! k) < 2 ^ 19 \<and> unat (dma_addrs w ! k) mod 4096 = 0 \<and>
      unat (dma_addrs w ! k) + unat (num_pages w ! k) * 4096 < 2 ^ 64" if k: "k < length cs" for k
  proof -
    have "0 < cs ! k" "cs ! k \<le> 512" "unat (as ! k) + 0x200000 \<le> 2 ^ 52" "unat (as ! k) mod 4096 = 0" using cs(1) a k by auto
    then show ?thesis unfolding e [OF k] by simp
  qed
  then show "dma_ok w" using w pb cs(3) l by (simp add: dma_ok_def n)
  show "page_addrs w = concat (map2 (\<lambda>a c. map (\<lambda>k. unat a + k * 4096) [0..<c]) as cs)"
    unfolding page_addrs_def n using l(1) by (intro arg_cong [of _ _ concat] nth_equalityI) (simp_all add: e)
qed

lemma remote_window_created:
  assumes "micscif_create_remote_window env a n = Some (Some rw)" and "re_zalloc env 3" and "unat n < 2 ^ 31"
  shows "magic rw = SCIFEP_MAGIC" "unat (nr_pages rw) = unat n" "dma_addrs rw = replicate (unat n) 0" "num_pages rw = replicate (unat n) 0"
    "dma_lookup rw = map ((*) 512) [0..<(unat n + 511) div 512]" "waddr rw = a" "wtype rw = RMA_WINDOW_PEER" "wref_count rw = n"
proof -
  define w0 where "w0 = (zero_window a (unat n))\<lparr>nr_pages := scast n\<rparr>"
  have "sint n = int (unat n)" by (rule sint_small [OF assms(3)])
  then have "scast n = (of_nat (unat n) :: u64)" unfolding scast_eq by simp
  then have sn: "unat (scast n :: u64) = unat n" using unat_of_nat64 [of "unat n"] unat_less_pow [of n] by simp
  obtain w' where c: "micscif_create_remote_lookup env w0 = Some (None, w')"
    and rw: "rw = w'\<lparr>wtype := RMA_WINDOW_PEER, wref_count := n, get_put_ref_count := 0, unreg_state := OP_IDLE\<rparr>"
    using assms(1) by (auto simp: micscif_create_remote_window_def w0_def Let_def split: if_splits bind_splits option.splits)
  obtain mo lo where env: "re_map_window env = Inr mo" "re_map_lookup env = Inr lo"
    using c assms(2) by (auto simp: micscif_create_remote_lookup_def Let_def split: sum.splits)
  define w1 where "w1 = w0\<lparr>mapped_offset := mo, nr_lookup := (unat (nr_pages w0) * 4096 + (0x200000 - 1)) div 0x200000, dma_lookup_offset := lo\<rparr>"
  have w1: "lookup_loop (re_map_page env) (unat (nr_pages w1)) 0 0 w1 = Some (None, w')" "dma_lookup w1 = []"
    using c assms(2) env by (simp_all add: micscif_create_remote_lookup_def w1_def w0_def zero_window_def)
  have "unat (nr_pages w1) = unat n" using sn by (simp add: w1_def w0_def)
  then have "w' = w1\<lparr>dma_lookup := map ((*) 512) [0..<(unat n + 511) div 512]\<rparr>" using lookup_loop_spec [OF w1(1)] w1(2) by simp
  then show "magic rw = SCIFEP_MAGIC" "unat (nr_pages rw) = unat n" "dma_addrs rw = replicate (unat n) 0" "num_pages rw = replicate (unat n) 0"
    "dma_lookup rw = map ((*) 512) [0..<(unat n + 511) div 512]" "waddr rw = a" "wtype rw = RMA_WINDOW_PEER" "wref_count rw = n"
    using sn rw by (simp_all add: w1_def w0_def zero_window_def)
qed

lemma put_at_0: "length xs \<le> length d \<Longrightarrow> put_at 0 xs d = xs @ drop (length xs) d"
  by (simp add: put_at_def)

text \<open>Mapping, transfer and decoding for a given division into chunks.\<close>

lemma transfer_tables:
  assumes cs: "chunk_prefix pp cs" "sum_list cs = nat (pp_nr_pages pp)" and pp: "0 < pp_nr_pages pp" "pp_nr_pages pp < 2 ^ 31"
      "length (pp_pages pp) = nat (pp_nr_pages pp)" "length (pp_num_pages pp) = nat (pp_nr_pages pp)"
    and w: "magic w = SCIFEP_MAGIC" "nr_pages w = of_int (pp_nr_pages pp)" "nr_contig_chunks w = of_nat (pp_nr_contig_chunks pp)"
      "length (dma_addrs w) = nat (pp_nr_pages pp)" "length (num_pages w) = nat (pp_nr_pages pp)"
    and bus: "bus_ok mp bus pp"
    and rw: "magic rw = SCIFEP_MAGIC" "dma_addrs rw = replicate (nat (pp_nr_pages pp)) 0" "num_pages rw = replicate (nat (pp_nr_pages pp)) 0"
      "dma_lookup rw = map ((*) 512) [0..<(nat (pp_nr_pages pp) + 511) div 512]"
  shows "\<exists>w1 w2 w3 rw1 rw2. micscif_map_window_pages mp pp False w = Some (None, w1) \<and> prep_transfer w1 rw = Some (w2, rw1) \<and>
    micscif_set_nr_pages w2 = Some w3 \<and> micscif_set_nr_pages rw1 = Some rw2 \<and>
    has_table w3 (map bus (heads pp cs)) cs \<and> has_table rw2 (map bus (heads pp cs)) cs \<and>
    w3 = w\<lparr>peer_window := al_vaddr (alloc_handle w), dma_addrs := dma_addrs w3, num_pages := num_pages w3\<rparr> \<and>
    rw2 = rw\<lparr>peer_window := waddr w, offset := offset w, prot := prot w, nr_contig_chunks := nr_contig_chunks w, dma_addrs := dma_addrs rw2, num_pages := num_pages rw2\<rparr>"
proof -
  let ?n = "nat (pp_nr_pages pp)" and ?m = "length cs"
  have ch: "pp_num_pages pp ! sum_list (take k cs) = of_nat (cs ! k)" "0 < cs ! k" "cs ! k \<le> 512" if "k < ?m" for k
    using cs(1) that by (auto simp: chunk_prefix_def)
  have mn: "?m \<le> ?n" using length_le_sum [of cs] ch(2) cs(2) by simp
  have m64: "unat (nr_contig_chunks w) = ?m" using w(3) cs(1) mn pp(2) by (simp add: chunk_prefix_def unat_of_nat)
  define hs where "hs = heads pp cs"
  have lh: "length hs = ?m" by (simp add: hs_def heads_def)
  have h: "hs ! k = pp_pages pp ! sum_list (take k cs)" "hs ! k \<in> set (pp_pages pp)" if "k < ?m" for k
    using that sum_take_less [of cs k] ch(2) cs(2) pp(3) by (auto simp: hs_def heads_def)
  have b: "mp (hs ! k) l = Inr (bus (hs ! k))" "unat (bus (hs ! k)) + 0x200000 \<le> 2 ^ 52" if "k < ?m" for k l
    using bus h(2) [OF that] by (auto simp: bus_ok_def)
  define es where "es = map2 (\<lambda>a c. RMA_SET_NR_PAGES a (of_nat c)) (map bus hs) cs"
  have le: "length es = ?m" by (simp add: es_def lh)
  define w1 where "w1 = w\<lparr>dma_addrs := put_at 0 es (dma_addrs w), num_pages := put_at 0 (map of_nat cs) (num_pages w)\<rparr>"
  have "map_pages mp False pp ?m 0 0 w = Some (None, w1)" unfolding w1_def es_def
    by (rule map_pages_spec) (use ch h(1) b(1) cs(2) pp w mn lh in auto)
  then have s1: "micscif_map_window_pages mp pp False w = Some (None, w1)" using w(1) m64 by (simp add: micscif_map_window_pages_def)
  have d1: "dma_addrs w1 = es @ drop ?m (dma_addrs w)" "num_pages w1 = map of_nat cs @ drop ?m (num_pages w)"
    using le mn w(4,5) by (simp_all add: w1_def put_at_0)
  define rw0 where "rw0 = rw\<lparr>dma_addrs := put_at 0 es (dma_addrs rw)\<rparr>"
  have "copy_addrs w1 0 0 ?m rw = Some rw0"
    using copy_addrs_spec [OF rw(4), of ?m 0 0 w1] mn rw(2) d1(1) le w(4) by (simp add: rw0_def)
  moreover define rw1 where "rw1 = rw0\<lparr>peer_window := waddr w, offset := offset w, prot := prot w, nr_contig_chunks := nr_contig_chunks w\<rparr>"
  moreover define w2 where "w2 = w1\<lparr>peer_window := al_vaddr (alloc_handle w)\<rparr>"
  ultimately have s2: "prep_transfer w1 rw = Some (w2, rw1)" using rw(1) m64 by (simp add: prep_transfer_def w1_def)
  have drw: "dma_addrs rw1 = es @ drop ?m (dma_addrs rw)" "length (num_pages rw1) = ?n"
    using le mn rw by (simp_all add: rw1_def rw0_def put_at_0)
  have code: "dma_addrs x ! (0 + k) = RMA_SET_NR_PAGES (map bus hs ! k) (of_nat (cs ! k)) \<and> unat (map bus hs ! k) < 2 ^ 52 \<and> 0 < cs ! k \<and> cs ! k \<le> 512"
    if "dma_addrs x = es @ ds" "k < ?m" for x ds k
    using that b(2) [of k] ch [of k] lh le by (simp add: nth_append es_def)
  define w3 where "w3 = w2\<lparr>dma_addrs := put_at 0 (map bus hs) (dma_addrs w2), num_pages := put_at 0 (map of_nat cs) (num_pages w2)\<rparr>"
  define rw2 where "rw2 = rw1\<lparr>dma_addrs := put_at 0 (map bus hs) (dma_addrs rw1), num_pages := put_at 0 (map of_nat cs) (num_pages rw1)\<rparr>"
  have "set_pages ?m 0 w2 = Some w3" unfolding w3_def
    by (rule set_pages_spec) (use code [of w2] d1 lh le mn w(4,5) in \<open>auto simp: w2_def\<close>)
  then have s3: "micscif_set_nr_pages w2 = Some w3" using m64 by (simp add: micscif_set_nr_pages_def w2_def w1_def)
  have "set_pages ?m 0 rw1 = Some rw2" unfolding rw2_def
    by (rule set_pages_spec) (use code [OF drw(1)] drw lh le mn rw(2) in auto)
  then have s4: "micscif_set_nr_pages rw1 = Some rw2" using m64 by (simp add: micscif_set_nr_pages_def rw1_def)
  have nc: "nr_contig_chunks w = of_nat ?m" using w(3) cs(1) by (simp add: chunk_prefix_def)
  have l2: "length (dma_addrs w2) = ?n" "length (num_pages w2) = ?n" "length (dma_addrs rw1) = ?n"
    using d1 le mn w(4,5) drw rw(2) by (simp_all add: w2_def)
  have t3: "has_table w3 (map bus hs) cs" and t2: "has_table rw2 (map bus hs) cs"
    using lh mn l2 drw(2) nc by (simp_all add: put_at_0 has_table_def w3_def rw2_def w2_def w1_def rw1_def)
  have "w3 = w\<lparr>peer_window := al_vaddr (alloc_handle w), dma_addrs := dma_addrs w3, num_pages := num_pages w3\<rparr>"
    by (simp add: w3_def w2_def w1_def)
  moreover have "rw2 = rw\<lparr>peer_window := waddr w, offset := offset w, prot := prot w, nr_contig_chunks := nr_contig_chunks w, dma_addrs := dma_addrs rw2, num_pages := num_pages rw2\<rparr>"
    by (simp add: rw2_def rw1_def rw0_def)
  ultimately show ?thesis using s1 s2 s3 s4 t3 t2 unfolding hs_def by blast
qed

section \<open>Lookup tables\<close>

lemma nr_lookup_pages: "(n * 4096 + (0x200000 - 1)) div 0x200000 = (n + 511) div 512" for n :: nat
proof -
  have "(n * 4096 + (0x200000 - 1)) div 0x200000 = (n * 4096 + (0x200000 - 1)) div 4096 div 512" by (simp add: div_mult2_eq [symmetric])
  also have "(n * 4096 + (0x200000 - 1)) div 4096 = n + 511" by simp
  finally show ?thesis .
qed

lemma lookup_loop_total:
  assumes "i = 512 * j" and "nr_lookup w = (n + 511) div 512" and "n \<le> length (dma_addrs w)" and "length (dma_lookup w) = j" and "j \<le> (n + 511) div 512"
  shows "\<exists>e ls. lookup_loop mp n i j w = Some (e, w\<lparr>dma_lookup := ls\<rparr>) \<and> length ls \<le> (n + 511) div 512"
  using assms
proof (induction mp n i j w rule: lookup_loop.induct)
  case (1 mp n i j w)
  show ?case
  proof (cases "i < n")
    case True
    then have "Suc j \<le> (n + 511) div 512" using "1.prems"(1) by (simp add: less_eq_div_iff_mult_less_eq)
    then have j: "j < nr_lookup w \<and> i < length (dma_addrs w)" "j + 1 \<le> (n + 511) div 512" using True "1.prems"(2,3) by simp_all
    show ?thesis
    proof (cases "mp j")
      case None
      then have "\<exists>e ls. lookup_loop mp n (i + 512) (j + 1) (w\<lparr>dma_lookup := dma_lookup w @ [i]\<rparr>) =
          Some (e, w\<lparr>dma_lookup := dma_lookup w @ [i], dma_lookup := ls\<rparr>) \<and> length ls \<le> (n + 511) div 512"
        using "1.IH" [OF True j(1) None] "1.prems" j(2) by simp
      then show ?thesis using True j(1) None by (simp add: lookup_loop.simps [of mp n i j w])
    next
      case (Some e)
      then show ?thesis using True j(1) "1.prems"(4,5)
        by (intro exI [of _ "Some e"] exI [of _ "dma_lookup w"]) (simp add: lookup_loop.simps [of mp n i j w])
    qed
  next
    case False
    then show ?thesis using "1.prems"(4,5)
      by (intro exI [of _ None] exI [of _ "dma_lookup w"]) (simp add: lookup_loop.simps [of mp n i j w])
  qed
qed

lemma filter_below: "length (filter (\<lambda>j. j < m) [0..<n]) = min m n"
  by (induction n) (auto simp: min_def)

text \<open>
  A registered window is the same on both nodes. When the window of the other node has been created and its addresses transferred, both
  windows are valid for DMA and cover the same offsets, the other node has the owner's protection, each refers to the other, and
  the pages of both are the pinned pages: chunk by chunk, from the address at which the first page of the chunk was mapped.
\<close>

theorem window_transfer:
  assumes "pp_wf pp" and "bus_ok mp bus pp"
    and "win_ok w" and "magic w = SCIFEP_MAGIC" and "nr_pages w = of_int (pp_nr_pages pp)" and "nr_contig_chunks w = of_nat (pp_nr_contig_chunks pp)"
    and "length (dma_addrs w) = nat (pp_nr_pages pp)" and "length (num_pages w) = nat (pp_nr_pages pp)"
    and "micscif_create_remote_window env a (ucast (nr_pages w)) = Some (Some rw)" and "re_zalloc env 3"
  shows "\<exists>w1 w2 w3 rw1 rw2 cs. micscif_map_window_pages mp pp False w = Some (None, w1) \<and> prep_transfer w1 rw = Some (w2, rw1) \<and>
    micscif_set_nr_pages w2 = Some w3 \<and> micscif_set_nr_pages rw1 = Some rw2 \<and> dma_ok w3 \<and> dma_ok rw2 \<and>
    chunk_prefix pp cs \<and> sum_list cs = nat (pp_nr_pages pp) \<and> page_addrs w3 = chunk_addrs bus pp cs \<and> page_addrs rw2 = chunk_addrs bus pp cs \<and>
    wlo rw2 = wlo w \<and> whi rw2 = whi w \<and> wlo w3 = wlo w \<and> whi w3 = whi w \<and> prot rw2 = prot w \<and> wtype rw2 = RMA_WINDOW_PEER \<and>
    peer_window rw2 = waddr w \<and> peer_window w3 = al_vaddr (alloc_handle w)"
proof -
  let ?n = "nat (pp_nr_pages pp)"
  obtain cs where cs: "chunk_prefix pp cs" "sum_list cs = ?n" and pp: "0 < pp_nr_pages pp" "pp_nr_pages pp < 2 ^ 31"
      "length (pp_pages pp) = ?n" "length (pp_num_pages pp) = ?n" using assms(1) by (auto simp: pp_wf_def)
  have "nr_pages w = of_nat ?n" using assms(5) pp(1) by simp
  then have un: "unat (nr_pages w) = ?n" using unat_of_nat64 [of ?n] pp(2) by simp
  have uc: "unat (ucast (nr_pages w) :: u32) = ?n" using un pp(2) by (simp add: unsigned_ucast_eq take_bit_eq_mod)
  then have "unat (ucast (nr_pages w) :: u32) < 2 ^ 31" using pp(2) by simp
  note rw = remote_window_created [OF assms(9,10) this, unfolded uc]
  from transfer_tables [OF cs pp assms(4-8,2) rw(1,3,4,5)] obtain w1 w2 w3 rw1 rw2 where
    s: "micscif_map_window_pages mp pp False w = Some (None, w1)" "prep_transfer w1 rw = Some (w2, rw1)" "micscif_set_nr_pages w2 = Some w3"
      "micscif_set_nr_pages rw1 = Some rw2" and t: "has_table w3 (map bus (heads pp cs)) cs" "has_table rw2 (map bus (heads pp cs)) cs"
    and w3: "w3 = w\<lparr>peer_window := al_vaddr (alloc_handle w), dma_addrs := dma_addrs w3, num_pages := num_pages w3\<rparr>"
    and rw2: "rw2 = rw\<lparr>peer_window := waddr w, offset := offset w, prot := prot w, nr_contig_chunks := nr_contig_chunks w, dma_addrs := dma_addrs rw2, num_pages := num_pages rw2\<rparr>"
    by blast
  have same: "offset w3 = offset w" "nr_pages w3 = nr_pages w" "peer_window w3 = al_vaddr (alloc_handle w)" by (subst w3, simp)+
  have rsame: "offset rw2 = offset w" "nr_pages rw2 = nr_pages rw" "prot rw2 = prot w" "peer_window rw2 = waddr w" "wtype rw2 = wtype rw" by (subst rw2, simp)+
  have ch: "\<forall>k < length cs. 0 < cs ! k \<and> cs ! k \<le> 512" using cs(1) by (simp add: chunk_prefix_def)
  have bus: "\<forall>k < length cs. unat (map bus (heads pp cs) ! k) + 0x200000 \<le> 2 ^ 52 \<and> unat (map bus (heads pp cs) ! k) mod 4096 = 0"
    using assms(2) sum_take_less [of cs] ch cs(2) pp(3) by (auto simp: bus_ok_def heads_def)
  have ok: "win_ok w3" "win_ok rw2" using assms(3) same rsame rw(2) un by (simp_all add: win_ok_def whi_def)
  have un': "sum_list cs = unat (nr_pages w3)" "unat (nr_pages w3) < 2 ^ 31" "sum_list cs = unat (nr_pages rw2)" "unat (nr_pages rw2) < 2 ^ 31"
    using same(2) rsame(2) rw(2) un cs(2) pp(2) by simp_all
  note d3 = table_dma [OF t(1) ch un'(1,2) bus ok(1)] and d2 = table_dma [OF t(2) ch un'(3,4) bus ok(2)]
  have eq: "concat (map2 (\<lambda>a c. map (\<lambda>k. unat a + k * 4096) [0..<c]) (map bus (heads pp cs)) cs) = chunk_addrs bus pp cs"
    unfolding chunk_addrs_def by (intro arg_cong [of _ _ concat] nth_equalityI) (simp_all add: heads_def)
  show ?thesis using s d3 d2 cs same rsame rw(2,7) un unfolding eq by (intro exI [of _ w1] exI [of _ w2] exI [of _ w3] exI [of _ rw1] exI [of _ rw2] exI [of _ cs])
    (simp add: wlo_def whi_def)
qed

section \<open>Properties\<close>

text \<open>
  Creating the lookup table of a window never leaves its bounds, and tearing the table down, whether its creation succeeded or failed at any point,
  takes down exactly the mappings that were made.
\<close>

theorem remote_lookup_bounds:
  fixes n :: u32
  assumes "unat n < 2 ^ 31" and "\<And>a. re_map_window env = Inr a \<Longrightarrow> a \<noteq> 0" and "\<And>a. re_map_lookup env = Inr a \<Longrightarrow> a \<noteq> 0" and "0 < n"
  shows "\<exists>e w'. micscif_create_remote_lookup env ((zero_window a (unat n))\<lparr>nr_pages := scast n\<rparr>) = Some (e, w') \<and>
    micscif_destroy_remote_window w' =
      Some (case re_map_window env of Inl _ \<Rightarrow> 0
            | Inr _ \<Rightarrow> 1 + (if re_zalloc env 3 \<and> \<not> isl (re_map_lookup env) then 1 else 0) + length (dma_lookup w'))"
proof -
  define w0 where "w0 = (zero_window a (unat n))\<lparr>nr_pages := scast n\<rparr>"
  have "sint n = int (unat n)" by (rule sint_small [OF assms(1)])
  then have "scast n = (of_nat (unat n) :: u64)" unfolding scast_eq by simp
  then have sn: "unat (nr_pages w0) = unat n" using unat_of_nat64 [of "unat n"] unat_less_pow [of n] by (simp add: w0_def)
  have p: "0 < (unat n + 511) div 512" using assms(4) by (simp add: div_greater_zero_iff Suc_le_eq unat_gt_0 word_gt_0)
  show ?thesis
  proof (cases "re_map_window env")
    case (Inl e)
    then show ?thesis by (simp add: micscif_create_remote_lookup_def micscif_destroy_remote_window_def micscif_destroy_remote_lookup_def zero_window_def)
  next
    case (Inr mo)
    define w1 where "w1 = w0\<lparr>mapped_offset := mo, nr_lookup := (unat n + 511) div 512\<rparr>"
    have c: "micscif_create_remote_lookup env w0 =
        (if \<not> re_zalloc env 3 then Some (None, w1)
         else case re_map_lookup env of Inl err \<Rightarrow> Some (Some err, w1) | Inr lo \<Rightarrow> lookup_loop (re_map_page env) (unat n) 0 0 (w1\<lparr>dma_lookup_offset := lo\<rparr>))"
      using Inr nr_lookup_pages [of "unat n"] by (simp add: micscif_create_remote_lookup_def w1_def sn Let_def split: sum.split)
    have "\<exists>e ls lo. micscif_create_remote_lookup env w0 = Some (e, w1\<lparr>dma_lookup_offset := lo, dma_lookup := ls\<rparr>) \<and>
        length ls \<le> (unat n + 511) div 512 \<and> (lo \<noteq> 0 \<longleftrightarrow> re_zalloc env 3 \<and> \<not> isl (re_map_lookup env))"
    proof (cases "re_zalloc env 3 \<and> (\<exists>lo. re_map_lookup env = Inr lo)")
      case True
      then obtain lo where lo: "re_map_lookup env = Inr lo" by blast
      then obtain e ls where "lookup_loop (re_map_page env) (unat n) 0 0 (w1\<lparr>dma_lookup_offset := lo\<rparr>) = Some (e, w1\<lparr>dma_lookup_offset := lo, dma_lookup := ls\<rparr>)"
        "length ls \<le> (unat n + 511) div 512"
        using lookup_loop_total [of 0 0 "w1\<lparr>dma_lookup_offset := lo\<rparr>" "unat n" "re_map_page env"] by (auto simp: w1_def w0_def zero_window_def)
      then show ?thesis using c True lo assms(3) by (intro exI [of _ e] exI [of _ ls] exI [of _ lo]) simp
    next
      case False
      then show ?thesis using c by (intro exI [of _ "if re_zalloc env 3 then Some (projl (re_map_lookup env)) else None"] exI [of _ "[]"] exI [of _ 0])
        (auto simp: w1_def w0_def zero_window_def split: sum.splits)
    qed
    then obtain e ls lo where r: "micscif_create_remote_lookup env w0 = Some (e, w1\<lparr>dma_lookup_offset := lo, dma_lookup := ls\<rparr>)"
      "length ls \<le> (unat n + 511) div 512" "lo \<noteq> 0 \<longleftrightarrow> re_zalloc env 3 \<and> \<not> isl (re_map_lookup env)" by blast
    have "magic w1 = SCIFEP_MAGIC" "nr_lookup w1 \<noteq> 0" "mapped_offset w1 \<noteq> 0" "unat (nr_pages w1) = unat n"
      using p sn assms(2) [OF Inr] by (simp_all add: w1_def w0_def zero_window_def)
    then have "micscif_destroy_remote_window (w1\<lparr>dma_lookup_offset := lo, dma_lookup := ls\<rparr>) = Some (1 + (if re_zalloc env 3 \<and> \<not> isl (re_map_lookup env) then 1 else 0) + length ls)"
      using r(2,3) by (simp add: micscif_destroy_remote_window_def micscif_destroy_remote_lookup_def filter_below)
    then show ?thesis using r(1) Inr unfolding w0_def [symmetric] by simp
  qed
qed

definition demo_env :: "(nat \<Rightarrow> bool) \<Rightarrow> remote_env" where
  "demo_env za = \<lparr>re_zalloc = za, re_map_window = Inr 0x8000001000, re_map_lookup = Inr 0x8000002000, re_map_page = (\<lambda>_. None)\<rparr>"

theorem remote_lookup_bounds_witness:
  "\<exists>e w'. micscif_create_remote_lookup (demo_env (\<lambda>_. True)) ((zero_window 0x7000 (unat (3 :: u32)))\<lparr>nr_pages := scast (3 :: u32)\<rparr>) = Some (e, w') \<and>
    micscif_destroy_remote_window w' = Some (2 + length (dma_lookup w'))"
  using remote_lookup_bounds [of 3 "demo_env (\<lambda>_. True)" "0x7000"] by (simp add: demo_env_def)

definition demo_pp :: scif_pinned_pages where
  "demo_pp = \<lparr>pp_nr_pages = 3, pp_prot = 3, pp_map_flags = 0, pp_ref_count = 3, pp_pages = [7, 8, 9], pp_num_pages = [2, 0, 1], pp_nr_contig_chunks = 2\<rparr>"

definition demo_bus :: "u64 \<Rightarrow> u64" where "demo_bus pg = 0x8000000000 + pg * 0x1000"

lemma demo_pp_wf: "pp_wf demo_pp"
proof -
  have "chunk_prefix demo_pp [2, 1]" by (auto simp: chunk_prefix_def demo_pp_def less_Suc_eq numeral_2_eq_2)
  then show ?thesis by (auto simp: pp_wf_def demo_pp_def intro!: exI [of _ "[2, 1]"])
qed

definition demo_self :: reg_range where
  "demo_self = (zero_window 0x6000 3)\<lparr>offset := 0x4000000000000000, nr_pages := 3, nr_contig_chunks := 2, prot := 3\<rparr>"

definition demo_remote :: reg_range where
  "demo_remote = the (the (micscif_create_remote_window (demo_env (\<lambda>_. True)) 0x7000 3))"

lemma demo_remote_eq: "micscif_create_remote_window (demo_env (\<lambda>_. True)) 0x7000 (ucast (nr_pages demo_self)) = Some (Some demo_remote)"
proof -
  have "\<exists>rw. micscif_create_remote_window (demo_env (\<lambda>_. True)) 0x7000 3 = Some (Some rw)"
    by (simp add: micscif_create_remote_window_def micscif_create_remote_lookup_def demo_env_def zero_window_def scast_eq
      lookup_loop.simps [of "\<lambda>_. None" 3 0] lookup_loop.simps [of "\<lambda>_. None" 3 512])
  then show ?thesis by (auto simp: demo_remote_def demo_self_def)
qed

theorem window_transfer_example:
  "\<exists>w1 w2 w3 rw1 rw2 cs. micscif_map_window_pages (\<lambda>pg l. Inr (demo_bus pg)) demo_pp False demo_self = Some (None, w1) \<and>
    prep_transfer w1 demo_remote = Some (w2, rw1) \<and> micscif_set_nr_pages w2 = Some w3 \<and> micscif_set_nr_pages rw1 = Some rw2 \<and>
    page_addrs rw2 = chunk_addrs demo_bus demo_pp cs \<and> page_addrs w3 = page_addrs rw2"
  using window_transfer [OF demo_pp_wf _ _ _ _ _ _ _ demo_remote_eq, of "\<lambda>pg l. Inr (demo_bus pg)" demo_bus]
  by (fastforce simp: bus_ok_def demo_pp_def demo_bus_def demo_self_def win_ok_def whi_def zero_window_def demo_env_def)

text \<open>
  A failed allocation of the lookup table is not noticed: the window of the other node is created without a table, and the owner finds
  none when it transfers the addresses.
\<close>

theorem lookup_failure_lost:
  assumes "re_zalloc env 0" and "re_zalloc env 1" and "re_zalloc env 2" and "\<not> re_zalloc env 3" and "re_map_window env = Inr off"
  shows "\<exists>rw. micscif_create_remote_window env a n = Some (Some rw) \<and> (\<forall>w. nr_contig_chunks w \<noteq> 0 \<longrightarrow> prep_transfer w rw = None)"
proof -
  have "copy_addrs w 0 0 (unat (nr_contig_chunks w)) rw = None" if "nr_contig_chunks w \<noteq> 0" "dma_lookup rw = []" for w rw
    using that by (simp add: copy_addrs.simps [of w 0 0] unat_eq_0)
  then show ?thesis using assms
    by (auto simp: micscif_create_remote_window_def micscif_create_remote_lookup_def prep_transfer_def zero_window_def Let_def)
qed

theorem lookup_failure_lost_witness:
  "\<exists>rw. micscif_create_remote_window (demo_env (\<lambda>i. i < 3)) 0x7000 3 = Some (Some rw) \<and> prep_transfer demo_self rw = None"
  using lookup_failure_lost [of "demo_env (\<lambda>i. i < 3)" "0x8000001000" "0x7000" 3] by (auto simp: demo_env_def demo_self_def zero_window_def)

end
