(* ===== verification/Va_Node.thy ===== *)
theory Va_Node
  imports Scif_Prelude
begin

text \<open>
  The node allocator of the address generator (\<open>micscif_va_node.c\<close>): a growing array of list
  nodes kept as a directory of fixed-size slabs, with the unused nodes on a free list threaded
  through their \<open>next\<close> fields. An entry of the directory is \<open>None\<close> for a null pointer; reading or
  writing through a null entry or past the end of a slab is \<open>None\<close>. The two calls of
  \<open>kzalloc\<close> may fail; whether the one for the directory and the one for the slab succeed is an
  argument of the operations that allocate.
\<close>

section \<open>State\<close>

record va_node =
  vn_next :: u32
  vn_base :: u64
  vn_range :: u64

record va_node_allocator =
  slab_shift :: u32
  nodes_in_slab :: u32
  slab_mask :: u32
  pp_slab_directory :: "va_node list option list"
  num_slabs :: u32
  num_free_slabs :: u32
  free_list :: u32

abbreviation invalid_va_node_index :: u32 where "invalid_va_node_index \<equiv> - 1"

definition va_node_zero :: va_node where
  "va_node_zero = \<lparr>vn_next = 0, vn_base = 0, vn_range = 0\<rparr>"

type_synonym kzalloc_result = "bool \<times> bool"

section \<open>Operations\<close>

definition va_node_init :: "va_node_allocator \<Rightarrow> va_node_allocator" where
  "va_node_init a =
     (let a = a\<lparr>pp_slab_directory := [], slab_shift := 7\<rparr>;
          a = a\<lparr>nodes_in_slab := push_bit (unat (slab_shift a)) 1\<rparr>
      in a\<lparr>slab_mask := nodes_in_slab a - 1, num_slabs := 0, num_free_slabs := 0,
           free_list := invalid_va_node_index\<rparr>)"

definition va_node_is_valid :: "u32 \<Rightarrow> bool" where
  "va_node_is_valid index \<longleftrightarrow> invalid_va_node_index \<noteq> index"

definition va_node_destroy :: "va_node_allocator \<Rightarrow> va_node_allocator" where
  "va_node_destroy a = a\<lparr>pp_slab_directory := []\<rparr>"

definition va_node_realloc :: "bool \<Rightarrow> va_node_allocator \<Rightarrow> errno + va_node_allocator" where
  "va_node_realloc dir_ok a =
     (let growSlabs = 2 * num_slabs a + 1 in
      if \<not> dir_ok then Inl ENOMEM
      else Inr (a\<lparr>pp_slab_directory :=
                    take (unat (num_slabs a)) (pp_slab_directory a) @
                    replicate (unat growSlabs - unat (num_slabs a)) None,
                  num_free_slabs := growSlabs - num_slabs a\<rparr>))"

definition va_node_grow :: "kzalloc_result \<Rightarrow> va_node_allocator \<Rightarrow> errno + va_node_allocator" where
  "va_node_grow kz a =
     (case (if num_free_slabs a = 0 then va_node_realloc (fst kz) a else Inr a) of
        Inl e \<Rightarrow> Inl e
      | Inr a \<Rightarrow>
          if \<not> snd kz then Inl ENOMEM
          else
            (let start = num_slabs a * nodes_in_slab a;
                 n = unat (nodes_in_slab a);
                 slab = map (\<lambda>i. va_node_zero\<lparr>vn_next := start + of_nat i + 1\<rparr>) [0..<n - 1] @
                        [va_node_zero\<lparr>vn_next := free_list a\<rparr>]
             in Inr (a\<lparr>pp_slab_directory := (pp_slab_directory a)[unat (num_slabs a) := Some slab],
                       free_list := start,
                       num_slabs := num_slabs a + 1,
                       num_free_slabs := num_free_slabs a - 1\<rparr>)))"

text \<open>The node an index refers to, and a store to it.\<close>

definition va_node_get :: "va_node_allocator \<Rightarrow> u32 \<Rightarrow> va_node option" where
  "va_node_get a index =
     (let slabIndex = unat (drop_bit (unat (slab_shift a)) index);
          nodeIndex = unat (index AND slab_mask a)
      in if slabIndex < length (pp_slab_directory a) then
           do { slab \<leftarrow> pp_slab_directory a ! slabIndex;
                if nodeIndex < length slab then Some (slab ! nodeIndex) else None }
         else None)"

definition va_node_set :: "va_node_allocator \<Rightarrow> u32 \<Rightarrow> va_node \<Rightarrow> va_node_allocator" where
  "va_node_set a index nd =
     (let slabIndex = unat (drop_bit (unat (slab_shift a)) index);
          nodeIndex = unat (index AND slab_mask a)
      in a\<lparr>pp_slab_directory := (pp_slab_directory a)[slabIndex :=
             map_option (\<lambda>slab. slab[nodeIndex := nd]) (pp_slab_directory a ! slabIndex)]\<rparr>)"

text \<open>\<open>None\<close> is an access through a bad index; \<open>Inl\<close> an error return.\<close>

definition va_node_alloc ::
  "kzalloc_result \<Rightarrow> va_node_allocator \<Rightarrow> (errno + u32 \<times> va_node_allocator) option" where
  "va_node_alloc kz a =
     (case (if \<not> va_node_is_valid (free_list a) then va_node_grow kz a else Inr a) of
        Inl e \<Rightarrow> Some (Inl e)
      | Inr a \<Rightarrow>
          do { nd \<leftarrow> va_node_get a (free_list a);
               Some (Inr (free_list a, a\<lparr>free_list := vn_next nd\<rparr>)) })"

definition va_node_free :: "va_node_allocator \<Rightarrow> u32 \<Rightarrow> va_node_allocator option" where
  "va_node_free a index =
     do { tmp \<leftarrow> va_node_get a index;
          Some ((va_node_set a index (tmp\<lparr>vn_next := free_list a\<rparr>))\<lparr>free_list := index\<rparr>) }"

section \<open>Shape of the allocator\<close>

definition va_shape :: "va_node_allocator \<Rightarrow> bool" where
  "va_shape a \<longleftrightarrow> slab_shift a = 7 \<and> nodes_in_slab a = 128 \<and> slab_mask a = 127 \<and>
     length (pp_slab_directory a) = unat (num_slabs a) + unat (num_free_slabs a) \<and>
     unat (num_slabs a) < 2 ^ 25 \<and>
     (\<forall>i < unat (num_slabs a). \<exists>s. pp_slab_directory a ! i = Some s \<and> length s = 128)"

text \<open>The indices of existing nodes: the slabs behave as one array.\<close>

definition va_size :: "va_node_allocator \<Rightarrow> nat" where
  "va_size a = 128 * unat (num_slabs a)"

definition va_at :: "va_node_allocator \<Rightarrow> nat \<Rightarrow> va_node" where
  "va_at a i = the (pp_slab_directory a ! (i div 128)) ! (i mod 128)"

lemma index_split:
  "unat (drop_bit 7 (i :: u32)) = unat i div 128" "unat (i AND 127) = unat i mod 128"
proof -
  show "unat (drop_bit 7 i) = unat i div 128" by (simp add: drop_bit_eq_div unat_div)
  have "unat (128 :: u32) = 2 ^ 7" by simp
  from unat_and_pow2_minus_1 [OF this, of i] show "unat (i AND 127) = unat i mod 128" by simp
qed

lemma va_node_get_at:
  assumes "va_shape a" and "unat i < va_size a"
  shows "va_node_get a i = Some (va_at a (unat i))"
proof -
  have "unat i div 128 < unat (num_slabs a)"
    using assms(2) by (simp add: va_size_def less_mult_imp_div_less mult.commute)
  then show ?thesis using assms(1)
    by (auto simp: va_node_get_def va_shape_def index_split va_at_def Let_def)
qed


lemma va_node_set_at:
  assumes "va_shape a" and i: "unat i < va_size a"
  shows "va_shape (va_node_set a i nd)" and "va_size (va_node_set a i nd) = va_size a"
    and "free_list (va_node_set a i nd) = free_list a" and "num_slabs (va_node_set a i nd) = num_slabs a"
    and "\<And>j. j < va_size a \<Longrightarrow> va_at (va_node_set a i nd) j = (if j = unat i then nd else va_at a j)"
proof -
  have ix: "unat i div 128 < unat (num_slabs a)"
    using i by (simp add: va_size_def less_mult_imp_div_less mult.commute)
  then obtain s where s: "pp_slab_directory a ! (unat i div 128) = Some s" "length s = 128"
    using assms(1) by (auto simp: va_shape_def)
  have ixl: "unat i div 128 < length (pp_slab_directory a)" using ix assms(1) by (simp add: va_shape_def)
  have eq: "va_node_set a i nd = a\<lparr>pp_slab_directory :=
      (pp_slab_directory a)[unat i div 128 := Some (s[unat i mod 128 := nd])]\<rparr>"
    using assms(1) s by (simp add: va_node_set_def va_shape_def index_split Let_def)
  show "va_shape (va_node_set a i nd)" using assms(1) s ixl
    by (auto simp: eq va_shape_def nth_list_update)
  show "va_size (va_node_set a i nd) = va_size a" "free_list (va_node_set a i nd) = free_list a"
    "num_slabs (va_node_set a i nd) = num_slabs a" by (simp_all add: eq va_size_def)
  fix j assume "j < va_size a"
  then have jx: "j div 128 < length (pp_slab_directory a)" using assms(1)
    by (auto simp: va_size_def va_shape_def less_mult_imp_div_less mult.commute)
  have "j = unat i \<longleftrightarrow> j div 128 = unat i div 128 \<and> j mod 128 = unat i mod 128"
    by (metis div_mult_mod_eq)
  then show "va_at (va_node_set a i nd) j = (if j = unat i then nd else va_at a j)"
    using jx s ixl by (auto simp: eq va_at_def nth_list_update)
qed

text \<open>Growing appends a slab whose nodes are chained up and end in the old free list.\<close>

lemma va_node_grow_spec:
  assumes sh: "va_shape a" and room: "unat (num_slabs a) + 1 < 2 ^ 25"
  shows "va_node_grow kz a = Inl ENOMEM \<and> \<not> (fst kz \<and> snd kz) \<or>
    (\<exists>b. va_node_grow kz a = Inr b \<and> va_shape b \<and> va_size b = va_size a + 128 \<and>
      unat (free_list b) = va_size a \<and>
      (\<forall>j < va_size a. va_at b j = va_at a j) \<and>
      (\<forall>j < 127. unat (vn_next (va_at b (va_size a + j))) = va_size a + j + 1) \<and>
      vn_next (va_at b (va_size a + 127)) = free_list a)"
proof -
  let ?n = "unat (num_slabs a)"
  define d where "d = (if num_free_slabs a = 0 then take ?n (pp_slab_directory a) @ replicate (?n + 1) None
                       else pp_slab_directory a)"
  define f where "f = (if num_free_slabs a = 0 then num_slabs a + 1 else num_free_slabs a)"
  define slab where "slab = map (\<lambda>i. va_node_zero\<lparr>vn_next := num_slabs a * 128 + of_nat i + 1\<rparr>) [0..<127] @
                            [va_node_zero\<lparr>vn_next := free_list a\<rparr>]"
  let ?b = "a\<lparr>pp_slab_directory := d[?n := Some slab], free_list := num_slabs a * 128,
              num_slabs := num_slabs a + 1, num_free_slabs := f - 1\<rparr>"
  have grow: "2 * num_slabs a + 1 - num_slabs a = num_slabs a + 1" by simp
  have ns1: "unat (num_slabs a + 1) = ?n + 1" and ns2: "unat (2 * num_slabs a + 1) = 2 * ?n + 1"
    and st: "unat (num_slabs a * 128) = 128 * ?n"
    using room by (simp_all add: unat_word_ariths)
  have f1: "unat f = length d - ?n" "f \<noteq> 0" and d1: "length d = ?n + unat f"
    and d2: "\<And>i. i < ?n \<Longrightarrow> d ! i = pp_slab_directory a ! i" "?n < length d"
    using sh ns1 by (auto simp: f_def d_def va_shape_def nth_append word_unat_eq_iff)
  have "va_node_grow kz a = Inl ENOMEM \<and> \<not> (fst kz \<and> snd kz) \<or> va_node_grow kz a = Inr ?b"
  proof (cases "num_free_slabs a = 0")
    case True
    then show ?thesis using sh ns2 grow
      by (auto simp: va_node_grow_def va_node_realloc_def va_shape_def d_def f_def slab_def Let_def)
  next
    case False
    then show ?thesis using sh
      by (auto simp: va_node_grow_def va_shape_def d_def f_def slab_def Let_def)
  qed
  moreover have "va_shape ?b"
  proof -
    have "unat (f - 1) = unat f - 1" using f1(2) by (simp add: unat_minus_one)
    moreover have "0 < unat f" using f1(2) by (simp add: unat_gt_0)
    ultimately show ?thesis using sh room ns1 d1 d2 
      by (auto simp: va_shape_def nth_list_update less_Suc_eq slab_def)
  qed
  moreover have "va_size ?b = va_size a + 128" "unat (free_list ?b) = va_size a"
    using ns1 st by (simp_all add: va_size_def)
  moreover have "va_at ?b j = va_at a j" if "j < va_size a" for j
  proof -
    have "j div 128 < ?n" using that by (simp add: va_size_def less_mult_imp_div_less mult.commute)
    then show ?thesis using d2 by (simp add: va_at_def)
  qed
  moreover have new: "va_at ?b (va_size a + j) = slab ! j" if "j < 128" for j
    using that d2(2) by (simp add: va_at_def va_size_def)
  moreover have "unat (vn_next (va_at ?b (va_size a + j))) = va_size a + j + 1" if "j < 127" for j
  proof -
    have "128 * ?n + j + 1 < 2 ^ 32" using room that by simp
    then have "unat (num_slabs a * 128 + of_nat j + 1) = 128 * ?n + j + 1"
      using st that by (simp add: unat_word_ariths unat_of_nat mod_simps)
    then show ?thesis using new [of j] that by (simp add: slab_def nth_append va_size_def)
  qed
  moreover have "vn_next (va_at ?b (va_size a + 127)) = free_list a"
    using new [of 127] by (simp add: slab_def nth_append)
  ultimately show ?thesis by blast
qed


section \<open>Linked lists of nodes\<close>

text \<open>\<open>linked h i xs\<close>: following \<open>next\<close> from index \<open>i\<close> visits exactly the nodes \<open>xs\<close>.\<close>

fun linked :: "(nat \<Rightarrow> va_node) \<Rightarrow> u32 \<Rightarrow> nat list \<Rightarrow> bool" where
  "linked h i [] \<longleftrightarrow> i = invalid_va_node_index"
| "linked h i (x # xs) \<longleftrightarrow> i \<noteq> invalid_va_node_index \<and> unat i = x \<and> linked h (vn_next (h x)) xs"

lemma unat_invalid: "unat invalid_va_node_index = 2 ^ 32 - 1"
  by (simp add: unsigned_minus_1_eq_mask mask_eq_exp_minus_1)

lemma linked_cong:
  "(\<And>x. x \<in> set xs \<Longrightarrow> vn_next (h x) = vn_next (h' x)) \<Longrightarrow> linked h i xs \<longleftrightarrow> linked h' i xs"
  by (induction xs arbitrary: i) auto

lemma linked_upd [simp]: "x \<notin> set xs \<Longrightarrow> linked (h(x := nd)) i xs \<longleftrightarrow> linked h i xs"
  by (rule linked_cong) auto

lemma linked_invalid [simp]: "linked h invalid_va_node_index xs \<longleftrightarrow> xs = []"
  by (cases xs) auto

lemma linked_valid: "i \<noteq> invalid_va_node_index \<Longrightarrow>
    linked h i xs \<longleftrightarrow> (\<exists>ys. xs = unat i # ys \<and> linked h (vn_next (h (unat i))) ys)"
  by (cases xs) auto

lemma linked_unique: "linked h i xs \<Longrightarrow> linked h i ys \<Longrightarrow> xs = ys"
proof (induction xs arbitrary: i ys)
  case (Cons x xs)
  then show ?case by (cases ys) auto
qed (metis linked.simps(1) linked_invalid)

lemma linked_upt:
  assumes "\<And>j. lo \<le> j \<Longrightarrow> j + 1 < lo + n \<Longrightarrow> unat (vn_next (h j)) = j + 1"
    and "0 < n" and "lo + n < 2 ^ 32" and "unat i = lo" and "linked h (vn_next (h (lo + n - 1))) xs"
  shows "linked h i ([lo..<lo + n] @ xs)"
  using assms
proof (induction n arbitrary: lo i)
  case (Suc n)
  have i: "i \<noteq> invalid_va_node_index" using Suc.prems(3,4) by (auto simp: unat_invalid)
  show ?case
  proof (cases "n = 0")
    case True
    then show ?thesis using Suc.prems i by simp
  next
    case False
    have "linked h (vn_next (h lo)) ([lo + 1..<lo + 1 + n] @ xs)"
      by (rule Suc.IH) (use Suc.prems False in auto)
    then show ?thesis using i Suc.prems(4) False by (simp add: upt_conv_Cons)
  qed
qed simp

text \<open>A path from one index to another, and what redirecting one link of a list does.\<close>

fun seg :: "(nat \<Rightarrow> va_node) \<Rightarrow> u32 \<Rightarrow> nat list \<Rightarrow> u32 \<Rightarrow> bool" where
  "seg h i [] j \<longleftrightarrow> i = j"
| "seg h i (x # xs) j \<longleftrightarrow> i \<noteq> invalid_va_node_index \<and> unat i = x \<and> seg h (vn_next (h x)) xs j"

lemma linked_append: "linked h i (xs @ ys) \<longleftrightarrow> (\<exists>j. seg h i xs j \<and> linked h j ys)"
  by (induction xs arbitrary: i) auto

lemma seg_append: "seg h i (xs @ ys) k \<longleftrightarrow> (\<exists>j. seg h i xs j \<and> seg h j ys k)"
  by (induction xs arbitrary: i) auto

lemma seg_cong:
  "(\<And>x. x \<in> set xs \<Longrightarrow> vn_next (h x) = vn_next (h' x)) \<Longrightarrow> seg h i xs j \<longleftrightarrow> seg h' i xs j"
  by (induction xs arbitrary: i) auto

lemma seg_end_unique: "seg h i xs j \<Longrightarrow> seg h i xs k \<Longrightarrow> j = k"
  by (induction xs arbitrary: i) auto

lemma linked_redirect:
  assumes "linked h i (xs @ p # ys)" and "\<And>x. x \<in> set xs \<Longrightarrow> vn_next (h' x) = vn_next (h x)"
    and "linked h' (vn_next (h' p)) zs"
  shows "linked h' i (xs @ p # zs)"
  using assms by (induction xs arbitrary: i) auto

lemma linked_less: "linked h i xs \<Longrightarrow> x \<in> set xs \<Longrightarrow> x < 2 ^ 32"
  by (induction xs arbitrary: i) (use unat_less_pow [where 'a = 32] in auto)

section \<open>The pool of free nodes\<close>

definition va_pool :: "va_node_allocator \<Rightarrow> nat list \<Rightarrow> bool" where
  "va_pool a fs \<longleftrightarrow> va_shape a \<and> linked (va_at a) (free_list a) fs \<and> distinct fs \<and> set fs \<subseteq> {..<va_size a}"

definition va_wf :: "va_node_allocator \<Rightarrow> bool" where
  "va_wf a \<longleftrightarrow> (\<exists>fs. va_pool a fs)"

definition va_used :: "va_node_allocator \<Rightarrow> nat set" where
  "va_used a = {i. i < va_size a \<and> (\<forall>fs. va_pool a fs \<longrightarrow> i \<notin> set fs)}"

definition va_room :: "va_node_allocator \<Rightarrow> bool" where
  "va_room a \<longleftrightarrow> unat (num_slabs a) + 1 < 2 ^ 25"

lemma va_used_pool: "va_pool a fs \<Longrightarrow> va_used a = {..<va_size a} - set fs"
proof -
  assume p: "va_pool a fs"
  then have "gs = fs" if "va_pool a gs" for gs
    using that linked_unique [of "va_at a" "free_list a" gs fs] by (simp add: va_pool_def)
  then show ?thesis unfolding va_used_def using p by blast
qed

lemma va_size_bound: "va_shape a \<Longrightarrow> va_size a < 2 ^ 32"
  by (simp add: va_shape_def va_size_def)

lemma va_wf_init: "va_wf (va_node_init a)" "va_used (va_node_init a) = {}"
proof -
  have "va_pool (va_node_init a) []"
    by (simp add: va_pool_def va_shape_def va_node_init_def Let_def)
  then show "va_wf (va_node_init a)" "va_used (va_node_init a) = {}"
    by (auto simp: va_wf_def va_used_pool) (simp add: va_size_def va_node_init_def Let_def)
qed

lemma va_pool_grow:
  assumes p: "va_pool a []" and room: "va_room a" and g: "va_node_grow kz a = Inr b"
  shows "va_pool b [va_size a..<va_size a + 128]" and "\<forall>j < va_size a. va_at b j = va_at a j"
    and "va_size b = va_size a + 128"
proof -
  have sh: "va_shape a" and fl: "free_list a = invalid_va_node_index" using p by (auto simp: va_pool_def)
  from va_node_grow_spec [OF sh, of kz] room g
  have b: "va_shape b" "va_size b = va_size a + 128" "unat (free_list b) = va_size a"
    "\<forall>j < va_size a. va_at b j = va_at a j"
    "\<forall>j < 127. unat (vn_next (va_at b (va_size a + j))) = va_size a + j + 1"
    "vn_next (va_at b (va_size a + 127)) = free_list a"
    by (auto simp: va_room_def)
  have "linked (va_at b) (free_list b) ([va_size a..<va_size a + 128] @ [])"
  proof (rule linked_upt)
    fix j assume "va_size a \<le> j" "j + 1 < va_size a + 128"
    then show "unat (vn_next (va_at b j)) = j + 1" using b(5) [rule_format, of "j - va_size a"] by simp
  qed (use b fl va_size_bound [OF b(1)] in \<open>auto simp: add.commute\<close>)
  then show "va_pool b [va_size a..<va_size a + 128]" using b by (auto simp: va_pool_def)
qed (use va_node_grow_spec [of a kz] assms in \<open>auto simp: va_room_def va_pool_def\<close>)

lemma va_node_alloc_pool:
  assumes p: "va_pool a (f # fs)"
  shows "va_node_alloc kz a = Some (Inr (free_list a, a\<lparr>free_list := vn_next (va_at a f)\<rparr>))"
    and "va_pool (a\<lparr>free_list := vn_next (va_at a f)\<rparr>) fs" and "unat (free_list a) = f" and "f < va_size a"
proof -
  show f: "unat (free_list a) = f" and fs: "f < va_size a" using p by (auto simp: va_pool_def)
  have "va_node_get a (free_list a) = Some (va_at a f)" using va_node_get_at [of a "free_list a"] p f fs
    by (simp add: va_pool_def)
  then show "va_node_alloc kz a = Some (Inr (free_list a, a\<lparr>free_list := vn_next (va_at a f)\<rparr>))"
    using p by (auto simp: va_node_alloc_def va_node_is_valid_def va_pool_def)
  have "va_at (a\<lparr>free_list := x\<rparr>) = va_at a" for x by (rule ext) (simp add: va_at_def)
  then show "va_pool (a\<lparr>free_list := vn_next (va_at a f)\<rparr>) fs"
    using p by (auto simp: va_pool_def va_shape_def va_size_def)
qed


section \<open>The interface the address generator uses\<close>

text \<open>
  A store of nodes: reading and writing a node in use, taking an unused node, giving one back.
  None of these disturbs any other node in use.
\<close>

locale node_store =
  fixes wf :: "'a \<Rightarrow> bool"
    and used :: "'a \<Rightarrow> nat set"
    and cell :: "'a \<Rightarrow> nat \<Rightarrow> va_node"
    and room :: "'a \<Rightarrow> bool"
    and get :: "'a \<Rightarrow> u32 \<Rightarrow> va_node option"
    and upd :: "'a \<Rightarrow> u32 \<Rightarrow> va_node \<Rightarrow> 'a"
    and alloc :: "kzalloc_result \<Rightarrow> 'a \<Rightarrow> (errno + u32 \<times> 'a) option"
    and dealloc :: "'a \<Rightarrow> u32 \<Rightarrow> 'a option"
  assumes used_valid: "wf a \<Longrightarrow> unat i \<in> used a \<Longrightarrow> i \<noteq> invalid_va_node_index"
    and get_used: "wf a \<Longrightarrow> unat i \<in> used a \<Longrightarrow> get a i = Some (cell a (unat i))"
    and upd_used: "wf a \<Longrightarrow> unat i \<in> used a \<Longrightarrow>
      wf (upd a i nd) \<and> used (upd a i nd) = used a \<and>
      (\<forall>j \<in> used a. cell (upd a i nd) j = (if j = unat i then nd else cell a j)) \<and> (room a \<longrightarrow> room (upd a i nd))"
    and alloc_unused: "wf a \<Longrightarrow> room a \<Longrightarrow>
      alloc kz a = Some (Inl ENOMEM) \<and> \<not> (fst kz \<and> snd kz) \<or>
      (\<exists>i b. alloc kz a = Some (Inr (i, b)) \<and> unat i \<notin> used a \<and> wf b \<and>
        used b = insert (unat i) (used a) \<and> (\<forall>j \<in> used a. cell b j = cell a j))"
    and dealloc_used: "wf a \<Longrightarrow> unat i \<in> used a \<Longrightarrow>
      \<exists>b. dealloc a i = Some b \<and> wf b \<and> used b = used a - {unat i} \<and>
        (\<forall>j \<in> used b. cell b j = cell a j) \<and> (room a \<longrightarrow> room b)"

context node_store
begin

lemma linked_upd_other:
  assumes "wf a" and "unat i \<in> used a" and "set xs \<subseteq> used a" and "unat i \<notin> set xs"
  shows "linked (cell (upd a i nd)) k xs \<longleftrightarrow> linked (cell a) k xs"
  by (rule linked_cong) (use upd_used [OF assms(1,2), of nd] assms(3,4) in auto)

lemma linked_dealloc_other:
  assumes "wf a" and "unat i \<in> used a" and "dealloc a i = Some b" and "set xs \<subseteq> used a" and "unat i \<notin> set xs"
  shows "linked (cell b) k xs \<longleftrightarrow> linked (cell a) k xs"
proof (rule linked_cong)
  fix x assume "x \<in> set xs"
  then have "x \<in> used a - {unat i}" using assms(4,5) by auto
  then show "vn_next (cell b x) = vn_next (cell a x)" using dealloc_used [OF assms(1,2)] assms(3) by auto
qed

end

lemma va_at_free_list [simp]: "va_at (a\<lparr>free_list := x\<rparr>) = va_at a"
  by (rule ext) (simp add: va_at_def)

lemma va_shape_free_list [simp]: "va_shape (a\<lparr>free_list := x\<rparr>) \<longleftrightarrow> va_shape a"
  "va_size (a\<lparr>free_list := x\<rparr>) = va_size a"
  by (simp_all add: va_shape_def va_size_def)

interpretation va_store: node_store va_wf va_used va_at va_room va_node_get va_node_set va_node_alloc va_node_free
proof unfold_locales
  fix a and i :: u32 assume wf: "va_wf a" and i: "unat i \<in> va_used a"
  then obtain fs where p: "va_pool a fs" by (auto simp: va_wf_def)
  note us = va_used_pool [OF p]
  have sh: "va_shape a" and isz: "unat i < va_size a" "unat i \<notin> set fs" using p i us by (auto simp: va_pool_def)
  show "i \<noteq> invalid_va_node_index" using isz va_size_bound [OF sh] by (auto simp: unat_invalid)
  show get: "va_node_get a i = Some (va_at a (unat i))" by (rule va_node_get_at [OF sh isz(1)])
  {
    fix nd
    note st = va_node_set_at [OF sh isz(1), where nd = nd]
    have "linked (va_at (va_node_set a i nd)) (free_list a) fs \<longleftrightarrow> linked (va_at a) (free_list a) fs"
      by (rule linked_cong) (use st(5) isz(2) p in \<open>auto simp: va_pool_def\<close>)
    then have p': "va_pool (va_node_set a i nd) fs" using p st by (simp add: va_pool_def)
    then show "va_wf (va_node_set a i nd) \<and> va_used (va_node_set a i nd) = va_used a \<and>
        (\<forall>j \<in> va_used a. va_at (va_node_set a i nd) j = (if j = unat i then nd else va_at a j)) \<and>
        (va_room a \<longrightarrow> va_room (va_node_set a i nd))"
      using st us va_used_pool [OF p'] by (auto simp: va_wf_def va_room_def)
  }
  define b where "b = (va_node_set a i ((va_at a (unat i))\<lparr>vn_next := free_list a\<rparr>))\<lparr>free_list := i\<rparr>"
  note st = va_node_set_at [OF sh isz(1), where nd = "(va_at a (unat i))\<lparr>vn_next := free_list a\<rparr>"]
  have "linked (va_at b) (free_list a) fs \<longleftrightarrow> linked (va_at a) (free_list a) fs"
    unfolding b_def va_at_free_list by (rule linked_cong) (use st(5) isz(2) p in \<open>auto simp: va_pool_def\<close>)
  then have p': "va_pool b (unat i # fs)"
    using p st isz \<open>i \<noteq> _\<close> by (auto simp: va_pool_def b_def)
  moreover have "va_node_free a i = Some b" by (simp add: va_node_free_def get b_def)
  ultimately show "\<exists>b. va_node_free a i = Some b \<and> va_wf b \<and> va_used b = va_used a - {unat i} \<and>
      (\<forall>j \<in> va_used b. va_at b j = va_at a j) \<and> (va_room a \<longrightarrow> va_room b)"
    using st us va_used_pool [OF p'] by (auto simp: va_wf_def b_def va_room_def)
next
  fix a and kz :: kzalloc_result assume wf: "va_wf a" and room: "va_room a"
  then obtain fs where p: "va_pool a fs" by (auto simp: va_wf_def)
  show "va_node_alloc kz a = Some (Inl ENOMEM) \<and> \<not> (fst kz \<and> snd kz) \<or>
      (\<exists>i b. va_node_alloc kz a = Some (Inr (i, b)) \<and> unat i \<notin> va_used a \<and> va_wf b \<and>
        va_used b = insert (unat i) (va_used a) \<and> (\<forall>j \<in> va_used a. va_at b j = va_at a j))"
  proof (cases fs)
    case (Cons f gs)
    note al = va_node_alloc_pool [OF p [unfolded Cons]]
    have "va_used (a\<lparr>free_list := vn_next (va_at a f)\<rparr>) = insert f (va_used a)"
      using va_used_pool [OF p] va_used_pool [OF al(2)] al(4) p Cons by (auto simp: va_pool_def)
    then show ?thesis using al va_used_pool [OF p] Cons by (auto simp: va_wf_def)
  next
    case Nil
    have fl: "\<not> va_node_is_valid (free_list a)" using p Nil by (simp add: va_pool_def va_node_is_valid_def)
    have sh: "va_shape a" using p by (simp add: va_pool_def)
    show ?thesis
    proof (cases "va_node_grow kz a")
      case (Inl e)
      then have "e = ENOMEM \<and> \<not> (fst kz \<and> snd kz)" using va_node_grow_spec [OF sh, of kz] room by (auto simp: va_room_def)
      then show ?thesis using fl Inl by (simp add: va_node_alloc_def)
    next
      case (Inr b)
      note g = va_pool_grow [OF p [unfolded Nil] room Inr]
      have fs: "[va_size a..<va_size a + 128] = va_size a # [va_size a + 1..<va_size a + 128]"
        by (simp add: upt_conv_Cons)
      note al = va_node_alloc_pool [OF g(1) [unfolded fs]]
      have "va_node_is_valid (free_list b)" using g(1) fs by (simp add: va_pool_def va_node_is_valid_def) metis
      then have eq: "va_node_alloc kz a = va_node_alloc kz b" using fl Inr by (simp add: va_node_alloc_def)
      have u: "va_used a = {..<va_size a}" using va_used_pool [OF p] Nil by simp
      have "va_used (b\<lparr>free_list := vn_next (va_at b (va_size a))\<rparr>) = insert (va_size a) (va_used a)"
        unfolding va_used_pool [OF al(2)] va_shape_free_list g(3) u set_upt by auto
      then show ?thesis using al g u unfolding eq by (auto simp: va_wf_def)
    qed
  qed
qed

section \<open>Properties\<close>

text \<open>
  As long as memory can be had, allocating a node returns one that is not in use and leaves all
  nodes in use as they are; giving it back restores the set of nodes in use.
\<close>

theorem va_node_alloc_fresh:
  assumes wf: "va_wf a" and room: "va_room a" and kz: "fst kz \<and> snd kz"
  shows "\<exists>i b c. va_node_alloc kz a = Some (Inr (i, b)) \<and> unat i \<notin> va_used a \<and>
    va_used b = insert (unat i) (va_used a) \<and> (\<forall>j \<in> va_used a. va_at b j = va_at a j) \<and>
    va_node_free b i = Some c \<and> va_wf c \<and> va_used c = va_used a \<and> (\<forall>j \<in> va_used a. va_at c j = va_at a j)"
proof -
  from va_store.alloc_unused [OF wf room, of kz] kz obtain i b where b: "va_node_alloc kz a = Some (Inr (i, b))"
    "unat i \<notin> va_used a" "va_wf b" "va_used b = insert (unat i) (va_used a)" "\<forall>j \<in> va_used a. va_at b j = va_at a j" by auto
  from va_store.dealloc_used [OF b(3), of i] b obtain c where
    "va_node_free b i = Some c" "va_wf c" "va_used c = va_used b - {unat i}" "\<forall>j \<in> va_used c. va_at c j = va_at b j" by auto
  then show ?thesis using b by auto
qed

theorem va_node_alloc_fresh_witness:
  "\<forall>a. \<exists>i b c. va_node_alloc (True, True) (va_node_init a) = Some (Inr (i, b)) \<and> unat i \<notin> va_used (va_node_init a) \<and>
    va_used b = insert (unat i) (va_used (va_node_init a)) \<and> va_node_free b i = Some c \<and>
    va_used c = va_used (va_node_init a)"
proof -
  have "va_room (va_node_init a)" for a by (simp add: va_room_def va_node_init_def Let_def)
  from va_node_alloc_fresh [OF va_wf_init(1) this, of "(True, True)"] show ?thesis unfolding fst_conv snd_conv by blast
qed

end
