(* ===== verification/Va_Ranges.thy ===== *)
theory Va_Ranges
  imports Scif_Prelude
begin

text \<open>
  Lists of page ranges \<open>(base, length)\<close>: the specification the node lists of the address generator
  are refined to. A list is separated when its ranges are non-empty, sorted by base and
  neither overlap nor touch, so that it is determined by the set of pages it covers. First-fit
  allocation takes pages away from such a list, insertion with coalescing adds pages to it.
\<close>

section \<open>Separated lists of ranges\<close>

type_synonym pages = "nat \<times> nat"

definition pset :: "pages \<Rightarrow> nat set" where
  "pset p = {fst p..<fst p + snd p}"

definition page_set :: "pages list \<Rightarrow> nat set" where
  "page_set ps = (\<Union>p \<in> set ps. pset p)"

fun separated :: "nat \<Rightarrow> nat \<Rightarrow> pages list \<Rightarrow> bool" where
  "separated lim lo [] \<longleftrightarrow> True"
| "separated lim lo (p # ps) \<longleftrightarrow> lo \<le> fst p \<and> 0 < snd p \<and> fst p + snd p \<le> lim \<and>
     separated lim (fst p + snd p + 1) ps"

lemma page_set_simps [simp]: "page_set [] = {}" "page_set (p # ps) = pset p \<union> page_set ps"
  by (auto simp: page_set_def)

lemma pset_iff [simp]: "x \<in> pset (b, n) \<longleftrightarrow> b \<le> x \<and> x < b + n"
  by (auto simp: pset_def)

lemma separated_weaken: "separated lim lo ps \<Longrightarrow> lo' \<le> lo \<Longrightarrow> separated lim lo' ps"
  by (cases ps) auto

lemma separated_bounds: "separated lim lo ps \<Longrightarrow> x \<in> page_set ps \<Longrightarrow> lo \<le> x \<and> x < lim"
proof (induction ps arbitrary: lo)
  case (Cons p ps)
  then show ?case by (cases p) fastforce
qed simp

lemma separated_elem: "separated lim lo ps \<Longrightarrow> p \<in> set ps \<Longrightarrow> 0 < snd p \<and> fst p + snd p \<le> lim"
  by (induction ps arbitrary: lo) auto

lemma pset_subset: "p \<in> set ps \<Longrightarrow> pset p \<subseteq> page_set ps"
  by (auto simp: page_set_def)

text \<open>A separated list is determined by its pages.\<close>

lemma separated_canonical:
  "separated l lo ps \<Longrightarrow> separated l' lo' qs \<Longrightarrow> page_set ps = page_set qs \<Longrightarrow> ps = qs"
proof (induction ps arbitrary: lo lo' qs)
  case Nil
  then show ?case by (cases qs) (auto simp: pset_def)
next
  case (Cons p ps)
  obtain b n where p: "p = (b, n)" by (cases p)
  from Cons.prems obtain q qs' where qs: "qs = q # qs'" by (cases qs) (auto simp: p pset_def)
  obtain c m where q: "q = (c, m)" by (cases q)
  note sep = Cons.prems(1,2) [unfolded qs p q]
  have rest: "x \<in> page_set ps \<Longrightarrow> b + n < x" "x \<in> page_set qs' \<Longrightarrow> c + m < x" for x
    using separated_bounds [of l "b + n + 1" ps x] separated_bounds [of l' "c + m + 1" qs' x] sep by auto
  have eq: "x \<in> pset (b, n) \<or> x \<in> page_set ps \<longleftrightarrow> x \<in> pset (c, m) \<or> x \<in> page_set qs'" for x
    using Cons.prems(3) by (auto simp: p q qs)
  have "b = c" using eq [of b] eq [of c] rest [of b] rest [of c] sep by auto
  moreover have "b + n = c + m"
    using eq [of "b + n"] eq [of "c + m"] rest [of "b + n"] rest [of "c + m"] sep \<open>b = c\<close> by auto
  ultimately have pq: "p = q" by (simp add: p q)
  moreover have "page_set ps = page_set qs'"
  proof (intro set_eqI iffI)
    fix x
    show "x \<in> page_set ps \<Longrightarrow> x \<in> page_set qs'" using eq [of x] rest(1) [of x] pq by (auto simp: p q)
    show "x \<in> page_set qs' \<Longrightarrow> x \<in> page_set ps" using eq [of x] rest(2) [of x] pq by (auto simp: p q)
  qed
  ultimately show ?case using Cons.IH [of "b + n + 1" "c + m + 1" qs'] sep by (auto simp: qs)
qed

section \<open>First-fit allocation\<close>

fun first_fit :: "nat \<Rightarrow> pages list \<Rightarrow> (nat \<times> pages list) option" where
  "first_fit r [] = None"
| "first_fit r ((b, n) # ps) =
     (if r \<le> n then Some (b, if n = r then ps else (b + r, n - r) # ps)
      else map_option (\<lambda>(c, qs). (c, (b, n) # qs)) (first_fit r ps))"

lemma first_fit_None: "first_fit r ps = None \<longleftrightarrow> (\<forall>p \<in> set ps. snd p < r)"
  by (induction r ps rule: first_fit.induct) auto

lemma first_fit_skip:
  "(\<forall>p \<in> set ps. snd p < r) \<Longrightarrow>
    first_fit r (ps @ qs) = map_option (\<lambda>(c, rs). (c, ps @ rs)) (first_fit r qs)"
  by (induction ps) (auto simp: option.map_comp comp_def case_prod_unfold map_option.id [unfolded id_def])

text \<open>The range taken lies in the covered pages, exactly its pages are removed, and the list stays separated.\<close>

lemma first_fit_sound:
  assumes "separated lim lo ps" and "first_fit r ps = Some (c, qs)" and "0 < r"
  shows "separated lim lo qs \<and> pset (c, r) \<subseteq> page_set ps \<and> page_set qs = page_set ps - pset (c, r) \<and> lo \<le> c"
  using assms
proof (induction ps arbitrary: lo qs)
  case (Cons p ps)
  obtain b n where p: "p = (b, n)" by (cases p)
  have sep: "lo \<le> b" "0 < n" "b + n \<le> lim" "separated lim (b + n + 1) ps" using Cons.prems(1) by (auto simp: p)
  have rest: "x \<in> page_set ps \<Longrightarrow> b + n < x" for x using separated_bounds [OF sep(4), of x] by auto
  show ?case
  proof (cases "r \<le> n")
    case True
    then have c: "c = b" and qs: "qs = (if n = r then ps else (b + r, n - r) # ps)" using Cons.prems(2) by (auto simp: p)
    have "separated lim lo qs" using sep True separated_weaken [OF sep(4), of lo] by (auto simp: qs)
    moreover have "pset (c, r) \<subseteq> page_set (p # ps)" using True by (auto simp: p c)
    moreover have "page_set qs = page_set (p # ps) - pset (c, r)"
    proof (rule set_eqI)
      fix x
      have "b + n < x" if "x \<in> page_set ps" using rest that .
      then show "x \<in> page_set qs \<longleftrightarrow> x \<in> page_set (p # ps) - pset (c, r)" using True by (auto simp: p c qs)
    qed
    ultimately show ?thesis using sep c by simp
  next
    case False
    then obtain rs where rs: "first_fit r ps = Some (c, rs)" "qs = (b, n) # rs"
      using Cons.prems(2) by (auto simp: p)
    from Cons.IH [OF sep(4) rs(1) \<open>0 < r\<close>]
    have ih: "separated lim (b + n + 1) rs" "pset (c, r) \<subseteq> page_set ps" "page_set rs = page_set ps - pset (c, r)"
      "b + n + 1 \<le> c" by auto
    have "x \<notin> pset (c, r)" if "x \<in> pset (b, n)" for x using that ih(4) by auto
    then show ?thesis using ih sep by (auto simp: p rs(2))
  qed
qed simp

section \<open>Insertion with coalescing\<close>

definition overlaps_at :: "nat \<Rightarrow> nat \<Rightarrow> nat \<Rightarrow> nat \<Rightarrow> bool" where
  "overlaps_at b r c n \<longleftrightarrow> (if c < b then c + n > b else b + r > c)"

fun absorb_next :: "nat \<Rightarrow> nat \<Rightarrow> pages list \<Rightarrow> pages list" where
  "absorb_next c n [] = [(c, n)]"
| "absorb_next c n ((d, m) # ps) = (if d = c + n then (c, n + m) # ps else (c, n) # (d, m) # ps)"

fun insert_coalesce :: "nat \<Rightarrow> nat \<Rightarrow> pages list \<Rightarrow> pages list option" where
  "insert_coalesce b r [] = Some [(b, r)]"
| "insert_coalesce b r ((c, n) # ps) =
     (if overlaps_at b r c n then None
      else if b + r = c then Some ((b, n + r) # ps)
      else if c + n = b then Some (absorb_next c (n + r) ps)
      else if b + r < c then Some ((b, r) # (c, n) # ps)
      else map_option (Cons (c, n)) (insert_coalesce b r ps))"

text \<open>Inserting pages that are not covered yet succeeds and covers exactly them in addition.\<close>

lemma absorb_next_sound:
  assumes "separated lim lo ps" and "c + n \<le> lo" and "0 < n" and "c + n \<le> lim"
  shows "separated lim c (absorb_next c n ps) \<and> page_set (absorb_next c n ps) = pset (c, n) \<union> page_set ps"
proof (cases ps)
  case (Cons p qs)
  obtain d m where p: "p = (d, m)" by (cases p)
  show ?thesis using assms by (auto simp: Cons p add.assoc)
qed (use assms in auto)

lemma insert_coalesce_sound:
  assumes "separated lim lo ps" and "lo \<le> b" and "0 < r" and "b + r \<le> lim" and "pset (b, r) \<inter> page_set ps = {}"
  shows "\<exists>qs. insert_coalesce b r ps = Some qs \<and> separated lim lo qs \<and> page_set qs = pset (b, r) \<union> page_set ps"
  using assms
proof (induction ps arbitrary: lo)
  case (Cons p ps)
  obtain c n where p: "p = (c, n)" by (cases p)
  have sep: "lo \<le> c" "0 < n" "c + n \<le> lim" "separated lim (c + n + 1) ps" using Cons.prems(1) by (auto simp: p)
  have dis: "pset (b, r) \<inter> pset (c, n) = {}" "pset (b, r) \<inter> page_set ps = {}" using Cons.prems(5) by (auto simp: p)
  have "b + r \<le> c \<or> c + n \<le> b"
  proof (rule ccontr)
    assume "\<not> ?thesis"
    then have "max b c \<in> pset (b, r) \<inter> pset (c, n)" using sep(2) \<open>0 < r\<close> by auto
    then show False using dis(1) by simp
  qed
  then have no: "\<not> overlaps_at b r c n" using sep(2) \<open>0 < r\<close> by (auto simp: overlaps_at_def)
  consider (before) "b + r \<le> c" | (touch) "c + n = b" | (after) "c + n < b"
    using \<open>b + r \<le> c \<or> c + n \<le> b\<close> by linarith
  then show ?case
  proof cases
    case before
    have join: "pset (b, n + r) = pset (b, r) \<union> pset (c, n)" if "b + r = c" using that by auto
    show ?thesis
    proof (cases "b + r = c")
      case True
      have "insert_coalesce b r (p # ps) = Some ((b, n + r) # ps)" using no True by (simp add: p)
      moreover have "b + (n + r) = c + n" using True by simp
      then have "separated lim lo ((b, n + r) # ps)" using sep Cons.prems(2) \<open>0 < r\<close>
        by (simp only: separated.simps fst_conv snd_conv) simp
      ultimately show ?thesis using join [OF True] by (auto simp: p)
    next
      case False
      then have "insert_coalesce b r (p # ps) = Some ((b, r) # p # ps)" using no before sep(2) by (auto simp: p)
      then show ?thesis using sep Cons.prems(2,4) \<open>0 < r\<close> before False by (auto simp: p)
    qed
  next
    case touch
    have ins: "insert_coalesce b r (p # ps) = Some (absorb_next c (n + r) ps)" using no touch sep(2) \<open>0 < r\<close> by (auto simp: p)
    have join: "pset (c, n + r) = pset (c, n) \<union> pset (b, r)" using touch by auto
    show ?thesis
    proof (cases "ps")
      case Nil
      then show ?thesis using ins sep touch Cons.prems by (auto simp: p join)
    next
      case (Cons q qs)
      obtain d m where q: "q = (d, m)" by (cases q)
      have d: "c + n < d" "0 < m" using sep(4) by (auto simp: Cons q)
      have "c + (n + r) \<le> d"
      proof (rule ccontr)
        assume "\<not> ?thesis"
        then have "d \<in> pset (b, r) \<inter> page_set ps" using touch d by (auto simp: Cons q)
        then show False using dis(2) by simp
      qed
      then have "separated lim d ps" using sep(4) by (auto simp: Cons q)
      from absorb_next_sound [OF this \<open>c + (n + r) \<le> d\<close>] sep(2) touch Cons.prems(4)
      have "separated lim c (absorb_next c (n + r) ps)"
        "page_set (absorb_next c (n + r) ps) = pset (c, n + r) \<union> page_set ps" by auto
      then show ?thesis using ins sep(1) separated_weaken by (auto simp: p join)
    qed
  next
    case after
    have "insert_coalesce b r (p # ps) = map_option (Cons p) (insert_coalesce b r ps)" using no after by (auto simp: p)
    moreover from Cons.IH [OF sep(4)] after Cons.prems(3,4) dis(2)
    obtain qs where "insert_coalesce b r ps = Some qs" "separated lim (c + n + 1) qs" "page_set qs = pset (b, r) \<union> page_set ps"
      by auto
    ultimately show ?thesis using sep by (auto simp: p)
  qed
qed auto

text \<open>A run of consecutive covered pages lies within one range, so first fit finds a place whenever there is one.\<close>

lemma separated_run:
  assumes "separated lim lo ps" and "pset (b, r) \<subseteq> page_set ps" and "0 < r"
  shows "\<exists>p \<in> set ps. r \<le> snd p"
  using assms
proof (induction ps arbitrary: lo)
  case (Cons p ps)
  obtain c n where p: "p = (c, n)" by (cases p)
  have rest: "x \<in> page_set ps \<Longrightarrow> c + n < x" for x
    using separated_bounds [of lim "c + n + 1" ps x] Cons.prems(1) by (auto simp: p)
  show ?case
  proof (cases "b \<in> pset (c, n)")
    case True
    have "b + r \<le> c + n"
    proof (rule ccontr)
      assume "\<not> ?thesis"
      then have "c + n \<in> pset (b, r)" using True by auto
      then show False using Cons.prems(2) rest [of "c + n"] by (auto simp: p)
    qed
    then show ?thesis using True by (auto simp: p)
  next
    case False
    have "b \<in> pset (b, r)" using Cons.prems(3) by simp
    then have "b \<in> page_set ps" using subsetD [OF Cons.prems(2), of b] False by (auto simp: p)
    then have b: "c + n < b" using rest by blast
    have "pset (b, r) \<subseteq> page_set ps"
    proof
      fix x assume "x \<in> pset (b, r)"
      then show "x \<in> page_set ps" using subsetD [OF Cons.prems(2), of x] b by (auto simp: p)
    qed
    then show ?thesis using Cons.IH [of "c + n + 1"] Cons.prems by (auto simp: p)
  qed
qed (auto simp: pset_def)

lemma first_fit_complete:
  assumes "separated lim lo ps" and "0 < r"
  shows "(\<exists>b. pset (b, r) \<subseteq> page_set ps) \<longleftrightarrow> first_fit r ps \<noteq> None"
proof
  assume "\<exists>b. pset (b, r) \<subseteq> page_set ps"
  then have "\<exists>p \<in> set ps. r \<le> snd p" using separated_run assms by blast
  then show "first_fit r ps \<noteq> None" by (auto simp: first_fit_None not_less)
next
  assume "first_fit r ps \<noteq> None"
  then show "\<exists>b. pset (b, r) \<subseteq> page_set ps" using first_fit_sound assms by fast
qed

text \<open>Insertion keeps the ranges non-empty and below the bound, whatever is inserted.\<close>

definition bounded :: "nat \<Rightarrow> pages list \<Rightarrow> bool" where
  "bounded lim ps \<longleftrightarrow> (\<forall>p \<in> set ps. 0 < snd p \<and> fst p + snd p < lim)"

lemma bounded_simps [simp]:
  "bounded lim []" "bounded lim ((b, n) # ps) \<longleftrightarrow> 0 < n \<and> b + n < lim \<and> bounded lim ps"
  by (auto simp: bounded_def)

lemma absorb_next_bounded:
  "bounded lim ps \<Longrightarrow> 0 < n \<Longrightarrow> c + n < lim \<Longrightarrow> bounded lim (absorb_next c n ps)"
  by (induction c n ps rule: absorb_next.induct) auto

lemma insert_coalesce_bounded:
  "bounded lim ps \<Longrightarrow> 0 < r \<Longrightarrow> b + r < lim \<Longrightarrow> insert_coalesce b r ps = Some qs \<Longrightarrow> bounded lim qs"
proof (induction ps arbitrary: qs)
  case (Cons p ps)
  obtain c n where p: "p = (c, n)" by (cases p)
  show ?case using Cons.prems Cons.IH absorb_next_bounded [of lim ps "n + r" c]
    by (auto simp: p split: if_splits)
qed auto

text \<open>Ranges that are pairwise disjoint.\<close>

fun disjoint_ranges :: "pages list \<Rightarrow> bool" where
  "disjoint_ranges [] \<longleftrightarrow> True"
| "disjoint_ranges (p # ps) \<longleftrightarrow> pset p \<inter> page_set ps = {} \<and> disjoint_ranges ps"

lemma page_set_remove1_subset: "page_set (map f (remove1 x xs)) \<subseteq> page_set (map f xs)"
  using set_remove1_subset [of x xs] by (fastforce simp: page_set_def)

lemma disjoint_ranges_remove1:
  "disjoint_ranges (map f xs) \<Longrightarrow> x \<in> set xs \<Longrightarrow>
    disjoint_ranges (map f (remove1 x xs)) \<and> page_set (map f (remove1 x xs)) = page_set (map f xs) - pset (f x)"
proof (induction xs)
  case (Cons y xs)
  show ?case
  proof (cases "x = y")
    case False
    then have "pset (f x) \<subseteq> page_set (map f xs)" using Cons.prems(2) by (auto intro!: pset_subset)
    then show ?thesis using Cons False page_set_remove1_subset [of f x xs] by auto
  qed (use Cons in auto)
qed simp

lemma disjoint_ranges_pairwise:
  "disjoint_ranges ps \<Longrightarrow> i < j \<Longrightarrow> j < length ps \<Longrightarrow> pset (ps ! i) \<inter> pset (ps ! j) = {}"
proof (induction ps arbitrary: i j)
  case (Cons p ps)
  then obtain j' where j: "j = Suc j'" by (cases j) auto
  show ?case
  proof (cases i)
    case 0
    then show ?thesis using Cons.prems j pset_subset [of "ps ! j'" ps] by auto
  next
    case (Suc i')
    then show ?thesis using Cons j by auto
  qed
qed simp

end
