(* ===== verification/Va_Gen.thy ===== *)
theory Va_Gen
  imports Va_Node Va_Ranges
begin

text \<open>
  The address generator (\<open>micscif_va_gen.c\<close>): allocation of page ranges from a list of holes and
  claims of fixed page ranges in a list of claims, both kept sorted by base and threaded
  through the nodes of one node allocator. A function returns \<open>None\<close> where the code runs into a
  \<open>BUG_ON\<close>, follows a bad index or does not return. \<open>kz\<close> says whether the memory allocations of
  the node allocator succeed.
\<close>

section \<open>State\<close>

abbreviation (input) PAGE_SIZE :: nat where "PAGE_SIZE \<equiv> 4096"
abbreviation (input) PAGE_SHIFT :: nat where "PAGE_SHIFT \<equiv> 12"
abbreviation INVALID_VA_GEN_ADDRESS :: u64 where "INVALID_VA_GEN_ADDRESS \<equiv> 0xff00000000000000"
abbreviation INVALID_VA_PAGE_INDEX :: u64 where "INVALID_VA_PAGE_INDEX \<equiv> 0xff00000000000"

record va_gen_addr =
  allocator :: va_node_allocator
  hole_list :: u32
  claims_list :: u32
  va_base :: u64

section \<open>Operations on pages\<close>

definition va_gen_init_internal :: "kzalloc_result \<Rightarrow> va_gen_addr \<Rightarrow> u64 \<Rightarrow> (errno + va_gen_addr) option" where
  "va_gen_init_internal kz addr rng =
     do { r \<leftarrow> va_node_alloc kz (va_node_init (allocator addr));
          case r of
            Inl e \<Rightarrow> Some (Inl e)
          | Inr (i, al) \<Rightarrow>
              do { al' \<leftarrow> (if va_node_is_valid i
                           then do { node \<leftarrow> va_node_get al i;
                                     Some (va_node_set al i (node\<lparr>vn_next := invalid_va_node_index,
                                             vn_base := 0, vn_range := rng\<rparr>)) }
                           else Some al);
                   Some (Inr (addr\<lparr>allocator := al', hole_list := i, claims_list := invalid_va_node_index\<rparr>)) } }"

text \<open>
  The first-fit search: \<open>Some None\<close> when no hole is large enough, otherwise the index found
  and the index before it.
\<close>

partial_function (option) find_hole ::
  "va_node_allocator \<Rightarrow> u64 \<Rightarrow> u32 \<Rightarrow> u32 option \<Rightarrow> (u32 \<times> u32 option) option option" where
  "find_hole al rng index pPrev =
     (case va_node_get al index of
        None \<Rightarrow> None
      | Some pFind \<Rightarrow>
          if vn_range pFind \<ge> rng then Some (Some (index, pPrev))
          else if \<not> va_node_is_valid (vn_next pFind) then Some None
          else find_hole al rng (vn_next pFind) (Some index))"

declare find_hole.simps [code]

definition va_gen_alloc_internal :: "va_gen_addr \<Rightarrow> u64 \<Rightarrow> (u64 \<times> va_gen_addr) option" where
  "va_gen_alloc_internal addr rng =
     (if rng = 0 \<or> \<not> va_node_is_valid (hole_list addr) then Some (INVALID_VA_PAGE_INDEX, addr)
      else do {
        found \<leftarrow> find_hole (allocator addr) rng (hole_list addr) None;
        case found of
          None \<Rightarrow> Some (INVALID_VA_PAGE_INDEX, addr)
        | Some (index, pPrev) \<Rightarrow>
            do { pFind \<leftarrow> va_node_get (allocator addr) index;
                 if vn_range pFind = rng then
                   do { addr' \<leftarrow>
                          (if hole_list addr = index then Some (addr\<lparr>hole_list := vn_next pFind\<rparr>)
                           else do { p \<leftarrow> pPrev;
                                     prev \<leftarrow> va_node_get (allocator addr) p;
                                     Some (addr\<lparr>allocator := va_node_set (allocator addr) p
                                                  (prev\<lparr>vn_next := vn_next pFind\<rparr>)\<rparr>) });
                        al \<leftarrow> va_node_free (allocator addr') index;
                        Some (vn_base pFind, addr'\<lparr>allocator := al\<rparr>) }
                 else
                   Some (vn_base pFind,
                         addr\<lparr>allocator := va_node_set (allocator addr) index
                           (pFind\<lparr>vn_base := vn_base pFind + rng, vn_range := vn_range pFind - rng\<rparr>)\<rparr>) } })"

text \<open>The loop over the claims that removes a range from them.\<close>

definition free_claim_at ::
  "kzalloc_result \<Rightarrow> va_gen_addr \<Rightarrow> u64 \<Rightarrow> u64 \<Rightarrow> u32 \<Rightarrow> u32 option \<Rightarrow> va_node \<Rightarrow> va_gen_addr option" where
  "free_claim_at kz addr base rng index pPrev pNode =
     (if vn_base pNode = base then
        (let pNode = pNode\<lparr>vn_base := vn_base pNode + rng, vn_range := vn_range pNode - rng\<rparr>;
             addr = addr\<lparr>allocator := va_node_set (allocator addr) index pNode\<rparr>
         in if vn_range pNode = 0 then
              do { addr \<leftarrow> (case pPrev of
                     Some p \<Rightarrow> do { prev \<leftarrow> va_node_get (allocator addr) p;
                                    Some (addr\<lparr>allocator := va_node_set (allocator addr) p
                                                (prev\<lparr>vn_next := vn_next pNode\<rparr>)\<rparr>) }
                   | None \<Rightarrow> Some (addr\<lparr>claims_list := vn_next pNode\<rparr>));
                   al \<leftarrow> va_node_free (allocator addr) index;
                   Some (addr\<lparr>allocator := al\<rparr>) }
            else Some addr)
      else if vn_base pNode + vn_range pNode = base + rng then
        Some (addr\<lparr>allocator := va_node_set (allocator addr) index
                     (pNode\<lparr>vn_range := vn_range pNode - rng\<rparr>)\<rparr>)
      else
        do { r \<leftarrow> va_node_alloc kz (allocator addr);
             case r of
               Inl e \<Rightarrow> None
             | Inr (new_index, al) \<Rightarrow>
                 do { pNewNode \<leftarrow> va_node_get al new_index;
                      let pNewNode = pNewNode\<lparr>vn_base := base + rng\<rparr>;
                          pNewNode = pNewNode\<lparr>vn_range := vn_range pNode - vn_base pNewNode,
                                              vn_next := vn_next pNode\<rparr>;
                          al = va_node_set al new_index pNewNode;
                          al = va_node_set al index
                                 (pNode\<lparr>vn_range := base - vn_base pNode, vn_next := new_index\<rparr>)
                      in Some (addr\<lparr>allocator := al\<rparr>) } })"

partial_function (option) free_claim_loop ::
  "kzalloc_result \<Rightarrow> va_gen_addr \<Rightarrow> u64 \<Rightarrow> u64 \<Rightarrow> u32 \<Rightarrow> u32 option \<Rightarrow> va_gen_addr option" where
  "free_claim_loop kz addr base rng index pPrev =
     (if \<not> va_node_is_valid index then Some addr
      else case va_node_get (allocator addr) index of
        None \<Rightarrow> None
      | Some pNode \<Rightarrow>
        if vn_base pNode \<le> base \<and> vn_base pNode + vn_range pNode \<ge> base + rng
        then free_claim_at kz addr base rng index pPrev pNode
        else if vn_base pNode > base + rng then Some addr
        else if (if vn_base pNode < base then vn_base pNode + vn_range pNode > base
                 else base + rng > vn_base pNode) then Some addr
        else free_claim_loop kz addr base rng (vn_next pNode) (Some index))"

declare free_claim_loop.simps [code]

definition va_gen_free_claim :: "kzalloc_result \<Rightarrow> va_gen_addr \<Rightarrow> u64 \<Rightarrow> u64 \<Rightarrow> va_gen_addr option" where
  "va_gen_free_claim kz addr base rng =
     (if rng = 0 then Some addr else free_claim_loop kz addr base rng (claims_list addr) None)"

text \<open>The search of the insertion: an overlap, a coalesced list, or the place to insert at.\<close>

datatype ins_result = Overlap | Coalesced va_node_allocator | InsertAt u32 u32

partial_function (option) insert_search ::
  "va_node_allocator \<Rightarrow> u64 \<Rightarrow> u64 \<Rightarrow> u32 \<Rightarrow> u32 \<Rightarrow> ins_result option" where
  "insert_search al base rng findPtr prev =
     (if \<not> va_node_is_valid findPtr then Some (InsertAt findPtr prev)
      else case va_node_get al findPtr of
        None \<Rightarrow> None
      | Some fnd \<Rightarrow>
        let end_range = base + rng in
        if (if vn_base fnd < base then vn_base fnd + vn_range fnd > base
            else end_range > vn_base fnd)
        then Some Overlap
        else if end_range = vn_base fnd
        then Some (Coalesced (va_node_set al findPtr
                     (fnd\<lparr>vn_base := base, vn_range := vn_range fnd + rng\<rparr>)))
        else if vn_base fnd + vn_range fnd = base
        then (let fnd = fnd\<lparr>vn_range := vn_range fnd + rng\<rparr>;
                  al = va_node_set al findPtr fnd;
                  nextPtr = vn_next fnd
              in if va_node_is_valid nextPtr
                 then do { nextNode \<leftarrow> va_node_get al nextPtr;
                           if vn_base nextNode = end_range
                           then do { al \<leftarrow> va_node_free
                                       (va_node_set al findPtr
                                          (fnd\<lparr>vn_range := vn_range fnd + vn_range nextNode,
                                                vn_next := vn_next nextNode\<rparr>)) nextPtr;
                                     Some (Coalesced al) }
                           else Some (Coalesced al) }
                 else Some (Coalesced al))
        else if vn_base fnd > end_range then Some (InsertAt findPtr prev)
        else insert_search al base rng (vn_next fnd) findPtr)"

declare insert_search.simps [code]

text \<open>\<open>Inl ()\<close> is the failure \<open>-1\<close>, \<open>Inr\<close> the new allocator and list head.\<close>

definition va_gen_insert_and_coalesce ::
  "kzalloc_result \<Rightarrow> va_node_allocator \<Rightarrow> u32 \<Rightarrow> u64 \<Rightarrow> u64 \<Rightarrow> (unit + va_node_allocator \<times> u32) option" where
  "va_gen_insert_and_coalesce kz al lst base rng =
     do { r \<leftarrow> insert_search al base rng lst lst;
          case r of
            Overlap \<Rightarrow> Some (Inl ())
          | Coalesced al' \<Rightarrow> Some (Inr (al', lst))
          | InsertAt findPtr prev \<Rightarrow>
              do { na \<leftarrow> va_node_alloc kz al;
                   case na of
                     Inl e \<Rightarrow> None
                   | Inr (ptr, al) \<Rightarrow>
                       if \<not> va_node_is_valid ptr then Some (Inr (al, lst))
                       else do {
                         node \<leftarrow> va_node_get al ptr;
                         let al = va_node_set al ptr
                                    (node\<lparr>vn_base := base, vn_range := rng, vn_next := findPtr\<rparr>) in
                         if findPtr = lst then Some (Inr (al, ptr))
                         else if \<not> va_node_is_valid prev then None
                         else do { pn \<leftarrow> va_node_get al prev;
                                   Some (Inr (va_node_set al prev (pn\<lparr>vn_next := ptr\<rparr>), lst)) } } } }"

definition va_gen_free_internal :: "kzalloc_result \<Rightarrow> va_gen_addr \<Rightarrow> u64 \<Rightarrow> u64 \<Rightarrow> va_gen_addr option" where
  "va_gen_free_internal kz addr base rng =
     do { r \<leftarrow> va_gen_insert_and_coalesce kz (allocator addr) (hole_list addr) base rng;
          case r of Inl _ \<Rightarrow> None | Inr (al, l) \<Rightarrow> Some (addr\<lparr>allocator := al, hole_list := l\<rparr>) }"

definition va_gen_alloc_aligned ::
  "(nat \<Rightarrow> kzalloc_result) \<Rightarrow> va_gen_addr \<Rightarrow> u64 \<Rightarrow> u32 \<Rightarrow> (u64 \<times> va_gen_addr) option" where
  "va_gen_alloc_aligned kz addr rng unit_align =
     do { (base_address, addr) \<leftarrow> va_gen_alloc_internal addr (rng + ucast unit_align - 1);
          let aligned_base = base_address in
          if rng = 0 \<or> unit_align = 0 then Some (INVALID_VA_PAGE_INDEX, addr)
          else if unit_align = 1 \<or> base_address = INVALID_VA_PAGE_INDEX then Some (base_address, addr)
          else do {
            addr \<leftarrow> (if aligned_base > base_address
                     then va_gen_free_internal (kz 0) addr base_address (aligned_base - base_address)
                     else Some addr);
            addr \<leftarrow> (if aligned_base + rng < base_address + ucast unit_align - 1
                     then va_gen_free_internal (kz 1) addr (aligned_base + rng)
                            (base_address + ucast unit_align - 1 - aligned_base - rng)
                     else Some addr);
            Some (aligned_base, addr) } }"

text \<open>\<open>Inl ()\<close> when the range was not claimed.\<close>

definition va_gen_claim_internal ::
  "kzalloc_result \<Rightarrow> va_gen_addr \<Rightarrow> u64 \<Rightarrow> u64 \<Rightarrow> (unit + va_gen_addr) option" where
  "va_gen_claim_internal kz addr base rng =
     do { r \<leftarrow> va_gen_insert_and_coalesce kz (allocator addr) (claims_list addr) base rng;
          Some (case r of Inl u \<Rightarrow> Inl u | Inr (al, l) \<Rightarrow> Inr (addr\<lparr>allocator := al, claims_list := l\<rparr>)) }"

section \<open>Operations on byte addresses\<close>

definition bytes_to_pages :: "u64 \<Rightarrow> u64" where
  "bytes_to_pages num_bytes = ((of_nat PAGE_SIZE - 1) + num_bytes) div of_nat PAGE_SIZE"

definition va_gen_alloc ::
  "(nat \<Rightarrow> kzalloc_result) \<Rightarrow> va_gen_addr \<Rightarrow> u64 \<Rightarrow> u32 \<Rightarrow> (u64 \<times> va_gen_addr) option" where
  "va_gen_alloc kz addr num_bytes align_bytes =
     (let num_pages = bytes_to_pages num_bytes;
          align_pages = (ucast align_bytes :: u64) div of_nat PAGE_SIZE
      in if align_bytes < of_nat PAGE_SIZE then Some (INVALID_VA_GEN_ADDRESS, addr)
         else if num_bytes > 0xffffffff * of_nat PAGE_SIZE then Some (INVALID_VA_GEN_ADDRESS, addr)
         else do {
           (va_page_index, addr) \<leftarrow>
              va_gen_alloc_aligned kz addr num_pages (ucast (align_pages mod 0xffffffff));
           if va_page_index = INVALID_VA_PAGE_INDEX then Some (INVALID_VA_GEN_ADDRESS, addr)
           else Some (push_bit PAGE_SHIFT va_page_index + va_base addr, addr) })"

definition va_gen_claim ::
  "kzalloc_result \<Rightarrow> va_gen_addr \<Rightarrow> u64 \<Rightarrow> u64 \<Rightarrow> (u64 \<times> va_gen_addr) option" where
  "va_gen_claim kz addr address num_bytes =
     (if address + num_bytes > va_base addr then Some (INVALID_VA_GEN_ADDRESS, addr)
      else if address AND (of_nat PAGE_SIZE - 1) \<noteq> 0 then Some (INVALID_VA_GEN_ADDRESS, addr)
      else do {
        r \<leftarrow> va_gen_claim_internal kz addr (drop_bit PAGE_SHIFT address) (bytes_to_pages num_bytes);
        Some (case r of Inl _ \<Rightarrow> (INVALID_VA_GEN_ADDRESS, addr) | Inr addr \<Rightarrow> (address, addr)) })"

definition va_gen_free ::
  "kzalloc_result \<Rightarrow> va_gen_addr \<Rightarrow> u64 \<Rightarrow> u64 \<Rightarrow> va_gen_addr option" where
  "va_gen_free kz addr address num_bytes =
     (if address \<ge> va_base addr
      then va_gen_free_internal kz addr (drop_bit PAGE_SHIFT (address - va_base addr)) (bytes_to_pages num_bytes)
      else va_gen_free_claim kz addr (drop_bit PAGE_SHIFT address) (bytes_to_pages num_bytes))"

definition va_gen_init :: "kzalloc_result \<Rightarrow> va_gen_addr \<Rightarrow> u64 \<Rightarrow> u64 \<Rightarrow> (errno + va_gen_addr) option" where
  "va_gen_init kz addr base rng =
     do { r \<leftarrow> va_gen_init_internal kz addr (drop_bit PAGE_SHIFT rng);
          Some (case r of Inl e \<Rightarrow> Inl e | Inr addr \<Rightarrow> Inr (addr\<lparr>va_base := base\<rparr>)) }"

definition va_gen_destroy :: "va_gen_addr \<Rightarrow> va_gen_addr" where
  "va_gen_destroy addr = addr\<lparr>allocator := va_node_destroy (allocator addr)\<rparr>"

section \<open>The lists of ranges in the node store\<close>

definition extent :: "va_node_allocator \<Rightarrow> nat \<Rightarrow> pages" where
  "extent al x = (unat (vn_base (va_at al x)), unat (vn_range (va_at al x)))"

text \<open>\<open>ranges al i xs ps\<close>: the list at index \<open>i\<close> consists of the nodes \<open>xs\<close>, all in use, and holds \<open>ps\<close>.\<close>

definition ranges :: "va_node_allocator \<Rightarrow> u32 \<Rightarrow> nat list \<Rightarrow> pages list \<Rightarrow> bool" where
  "ranges al i xs ps \<longleftrightarrow> linked (va_at al) i xs \<and> distinct xs \<and> set xs \<subseteq> va_used al \<and> map (extent al) xs = ps"

text \<open>An operation turns the list \<open>xs\<close> into \<open>ys\<close> and leaves all other nodes in use as they are.\<close>

definition reshaped :: "va_node_allocator \<Rightarrow> nat list \<Rightarrow> va_node_allocator \<Rightarrow> nat list \<Rightarrow> bool" where
  "reshaped al xs al' ys \<longleftrightarrow> va_wf al' \<and> va_used al' = (va_used al - set xs) \<union> set ys \<and>
     set ys \<inter> (va_used al - set xs) = {} \<and> (\<forall>j \<in> va_used al - set xs. va_at al' j = va_at al j)"

lemma ranges_frame:
  assumes "ranges al i zs ps" and "reshaped al xs al' ys" and "set zs \<inter> set xs = {}"
  shows "ranges al' i zs ps"
proof -
  have "va_at al' j = va_at al j" if "j \<in> set zs" for j
    using assms that by (auto simp: ranges_def reshaped_def)
  then have "linked (va_at al') i zs \<longleftrightarrow> linked (va_at al) i zs" "map (extent al') zs = map (extent al) zs"
    by (auto intro!: linked_cong simp: extent_def)
  then show ?thesis using assms by (auto simp: ranges_def reshaped_def)
qed

lemma index_of_nat: "unat (i :: u32) = x \<Longrightarrow> i = of_nat x"
  by auto

lemma va_store_set:
  assumes "va_wf al" and "unat i \<in> va_used al"
  shows "va_wf (va_node_set al i nd)" and "va_used (va_node_set al i nd) = va_used al"
    and "j \<in> va_used al \<Longrightarrow> va_at (va_node_set al i nd) j = (if j = unat i then nd else va_at al j)"
    and "va_room al \<Longrightarrow> va_room (va_node_set al i nd)"
  using va_store.upd_used [OF assms, of nd] by auto

text \<open>Changing the extent of one node.\<close>

lemma ranges_resize:
  assumes wf: "va_wf al" and r: "ranges al i (xs @ x # ys) (ps @ p # qs)" and len: "length ps = length xs"
    and k: "unat k = x" and nx: "vn_next nd = vn_next (va_at al x)"
  shows "ranges (va_node_set al k nd) i (xs @ x # ys) (ps @ (unat (vn_base nd), unat (vn_range nd)) # qs)"
    and "reshaped al (xs @ x # ys) (va_node_set al k nd) (xs @ x # ys)"
proof -
  have x: "unat k \<in> va_used al" using r k by (auto simp: ranges_def)
  note st = va_store_set [OF wf x, where nd = nd]
  have us: "set (xs @ x # ys) \<subseteq> va_used al" "x \<notin> set xs" "x \<notin> set ys" using r by (auto simp: ranges_def)
  have "linked (va_at (va_node_set al k nd)) i (xs @ x # ys) \<longleftrightarrow> linked (va_at al) i (xs @ x # ys)"
    by (rule linked_cong) (use st(3) us k nx in auto)
  moreover have "map (extent (va_node_set al k nd)) xs = map (extent al) xs"
    "map (extent (va_node_set al k nd)) ys = map (extent al) ys"
    using st(3) us k by (auto simp: extent_def)
  ultimately show "ranges (va_node_set al k nd) i (xs @ x # ys) (ps @ (unat (vn_base nd), unat (vn_range nd)) # qs)"
    using r st us k len by (auto simp: ranges_def extent_def append_eq_append_conv)
  show "reshaped al (xs @ x # ys) (va_node_set al k nd) (xs @ x # ys)"
    using st us k by (auto simp: reshaped_def)
qed

text \<open>Taking a node out of a list and giving it back to the store.\<close>

lemma ranges_unlink_head:
  assumes wf: "va_wf al" and r: "ranges al i (x # ys) (p # qs)" and k: "unat k = x"
  shows "\<exists>al'. va_node_free al k = Some al' \<and> ranges al' (vn_next (va_at al x)) ys qs \<and> reshaped al (x # ys) al' ys"
proof -
  have x: "unat k \<in> va_used al" using r k by (auto simp: ranges_def)
  from va_store.dealloc_used [OF wf x] obtain al' where al': "va_node_free al k = Some al'" "va_wf al'"
    "va_used al' = va_used al - {x}" "\<forall>j \<in> va_used al'. va_at al' j = va_at al j" by (auto simp: k)
  have us: "set ys \<subseteq> va_used al'" using r al' by (auto simp: ranges_def)
  then have same: "va_at al' j = va_at al j" if "j \<in> set ys" for j using that al' by auto
  have "linked (va_at al') (vn_next (va_at al x)) ys"
    using linked_cong [of ys "va_at al'" "va_at al"] same r by (auto simp: ranges_def)
  then have "ranges al' (vn_next (va_at al x)) ys qs"
    using r same us by (auto simp: ranges_def extent_def)
  moreover have "reshaped al (x # ys) al' ys" using r al' us by (auto simp: reshaped_def ranges_def)
  ultimately show ?thesis using al' by blast
qed

lemma ranges_unlink_after:
  assumes wf: "va_wf al" and r: "ranges al i (xs @ w # x # ys) (ps @ q # p # qs)" and len: "length ps = length xs"
    and k: "unat k = x" and v: "unat v = w" and nx: "vn_next nd = vn_next (va_at al x)"
  shows "\<exists>al'. va_node_free (va_node_set al v nd) k = Some al' \<and>
    ranges al' i (xs @ w # ys) (ps @ (unat (vn_base nd), unat (vn_range nd)) # qs) \<and>
    reshaped al (xs @ w # x # ys) al' (xs @ w # ys)"
proof -
  have w: "unat v \<in> va_used al" and us: "set (xs @ w # x # ys) \<subseteq> va_used al" "distinct (xs @ w # x # ys)"
    using r v by (auto simp: ranges_def)
  note st = va_store_set [OF wf w, where nd = nd]
  let ?b = "va_node_set al v nd"
  have x: "unat k \<in> va_used ?b" using us st k by auto
  from va_store.dealloc_used [OF st(1) x] obtain al' where al': "va_node_free ?b k = Some al'" "va_wf al'"
    "va_used al' = va_used al - {x}" "\<forall>j \<in> va_used al'. va_at al' j = va_at ?b j" by (auto simp: k st)
  have same: "va_at al' j = (if j = w then nd else va_at al j)" if "j \<in> va_used al" "j \<noteq> x" for j
    using that al' st(3) v by auto
  have oth: "va_at al' j = va_at al j" if "j \<in> set xs \<union> set ys" for j
  proof -
    have "j \<in> va_used al" "j \<noteq> x" "j \<noteq> w" using that us by auto
    then show ?thesis using same by simp
  qed
  have aw: "va_at al' w = nd" using same [of w] us by auto
  have "linked (va_at al) (vn_next (va_at al x)) ys" using r by (auto simp: ranges_def linked_append)
  then have "linked (va_at al') (vn_next (va_at al' w)) ys"
    unfolding aw nx by (subst linked_cong [where h' = "va_at al"]) (simp_all add: oth)
  moreover have "linked (va_at al) i (xs @ w # x # ys)" using r by (simp add: ranges_def)
  ultimately have "linked (va_at al') i (xs @ w # ys)"
    using linked_redirect [of "va_at al" i xs w "x # ys" "va_at al'" ys] oth by simp
  moreover have "map (extent al') xs = map (extent al) xs" "map (extent al') ys = map (extent al) ys"
    using oth by (auto simp: extent_def)
  ultimately have "ranges al' i (xs @ w # ys) (ps @ (unat (vn_base nd), unat (vn_range nd)) # qs)"
    using r us al' len aw by (auto simp: ranges_def extent_def)
  moreover have "reshaped al (xs @ w # x # ys) al' (xs @ w # ys)" using us al'(2,3) same by (auto simp: reshaped_def)
  ultimately show ?thesis using al' by blast
qed

text \<open>Putting a fresh node in front of a list, and after a node of it.\<close>

lemma ranges_link_head:
  assumes wf: "va_wf al" and room: "va_room al" and ok: "fst kz \<and> snd kz" and r: "ranges al i (xs @ ys) (ps @ qs)"
    and len: "length ps = length xs" and sg: "seg (va_at al) i xs j"
  shows "\<exists>k b nd. va_node_alloc kz al = Some (Inr (k, b)) \<and> va_node_is_valid k \<and> va_node_get b k = Some nd \<and>
    unat k \<notin> set (xs @ ys) \<and>
    (\<forall>nd'. vn_next nd' = j \<longrightarrow> (let c = va_node_set b k nd' in
       va_wf c \<and> va_used c = insert (unat k) (va_used al) \<and> unat k \<notin> va_used al \<and>
       (\<forall>j \<in> va_used al. va_at c j = va_at al j) \<and>
       ranges c k (unat k # ys) ((unat (vn_base nd'), unat (vn_range nd')) # qs) \<and> seg (va_at c) i xs j))"
proof -
  from va_store.alloc_unused [OF wf room, of kz] ok obtain k b where
    b: "va_node_alloc kz al = Some (Inr (k, b))" "unat k \<notin> va_used al" "va_wf b"
      "va_used b = insert (unat k) (va_used al)" "\<forall>j \<in> va_used al. va_at b j = va_at al j" by auto
  have kb: "unat k \<in> va_used b" using b by simp
  have us: "set (xs @ ys) \<subseteq> va_used al" "distinct (xs @ ys)" using r by (auto simp: ranges_def)
  have kn: "unat k \<notin> set (xs @ ys)" using us b by auto
  have jys: "linked (va_at al) j ys"
  proof -
    from r obtain j' where "seg (va_at al) i xs j'" "linked (va_at al) j' ys" by (auto simp: ranges_def linked_append)
    then show ?thesis using sg seg_end_unique by blast
  qed
  have "let c = va_node_set b k nd' in
       va_wf c \<and> va_used c = insert (unat k) (va_used al) \<and> unat k \<notin> va_used al \<and>
       (\<forall>j \<in> va_used al. va_at c j = va_at al j) \<and>
       ranges c k (unat k # ys) ((unat (vn_base nd'), unat (vn_range nd')) # qs) \<and> seg (va_at c) i xs j"
    if nx: "vn_next nd' = j" for nd'
  proof -
    define c where "c = va_node_set b k nd'"
    note st = va_store_set [OF b(3) kb, where nd = nd', folded c_def]
    have same: "va_at c j = va_at al j" if "j \<in> va_used al" for j using that st(3) b by auto
    have ck: "va_at c (unat k) = nd'" using st(3) [of "unat k"] kb by simp
    have valid: "k \<noteq> invalid_va_node_index" using va_store.used_valid [OF b(3) kb] .
    have "linked (va_at c) j ys" using jys us(1) same
      by (subst linked_cong [where h' = "va_at al"]) (auto simp: subset_iff)
    then have "linked (va_at c) k (unat k # ys)" using ck nx valid by simp
    moreover have "map (extent c) ys = map (extent al) ys" using same us by (auto simp: extent_def)
    ultimately have "ranges c k (unat k # ys) ((unat (vn_base nd'), unat (vn_range nd')) # qs)"
      using r us kn st b ck len by (auto simp: ranges_def extent_def)
    moreover have "seg (va_at c) i xs j"
      using sg us(1) same by (subst seg_cong [where h' = "va_at al"]) (auto simp: subset_iff)
    ultimately show ?thesis using st b same by (simp add: c_def [symmetric] Let_def)
  qed
  then show ?thesis using b kn va_store.get_used [OF b(3) kb] va_store.used_valid [OF b(3) kb]
    by (auto simp: va_node_is_valid_def)
qed

section \<open>Refinement of the operations on pages\<close>

lemma ranges_cons:
  assumes wf: "va_wf al" and r: "ranges al i (xs @ ys) (ps @ qs)" and len: "length ps = length xs"
    and sg: "seg (va_at al) i xs j"
  shows "ys = [] \<Longrightarrow> j = invalid_va_node_index"
    and "ys = x # zs \<Longrightarrow> va_node_is_valid j \<and> unat j = x \<and> va_node_get al j = Some (va_at al x) \<and>
      qs = extent al x # map (extent al) zs"
proof -
  have "linked (va_at al) j ys"
    using r sg seg_end_unique unfolding ranges_def linked_append by blast
  moreover have qs: "qs = map (extent al) ys" "set ys \<subseteq> va_used al" using r len by (auto simp: ranges_def append_eq_append_conv)
  ultimately show "ys = [] \<Longrightarrow> j = invalid_va_node_index"
    "ys = x # zs \<Longrightarrow> va_node_is_valid j \<and> unat j = x \<and> va_node_get al j = Some (va_at al x) \<and>
      qs = extent al x # map (extent al) zs"
    using va_store.get_used [OF wf, of j] by (auto simp: va_node_is_valid_def)
qed

lemma unat_le_word: "unat (r :: u64) \<le> unat n \<longleftrightarrow> r \<le> n"
  by (simp add: word_le_nat_alt)

text \<open>The search for a hole stops at the first that is large enough.\<close>

lemma find_hole_first:
  assumes wf: "va_wf al"
  shows "linked (va_at al) i (xs @ x # ys) \<Longrightarrow> set (xs @ x # ys) \<subseteq> va_used al \<Longrightarrow>
    (\<forall>y \<in> set xs. snd (extent al y) < unat r) \<Longrightarrow> unat r \<le> snd (extent al x) \<Longrightarrow>
    find_hole al r i p = Some (Some (of_nat x, if xs = [] then p else Some (of_nat (last xs))))"
proof (induction xs arbitrary: i p)
  case Nil
  then have "va_node_get al i = Some (va_at al x)" using va_store.get_used [OF wf, of i] by auto
  then show ?case using Nil by (subst find_hole.simps) (auto simp: extent_def unat_le_word index_of_nat)
next
  case (Cons w xs)
  have g: "va_node_get al i = Some (va_at al w)" and i: "i = of_nat w"
    using va_store.get_used [OF wf, of i] Cons.prems index_of_nat [of i w] by auto
  have lt: "\<not> r \<le> vn_range (va_at al w)" using Cons.prems(3) by (auto simp: extent_def word_le_nat_alt)
  have lk: "linked (va_at al) (vn_next (va_at al w)) (xs @ x # ys)" using Cons.prems by simp
  then have "va_node_is_valid (vn_next (va_at al w))"
    by (cases xs) (auto simp: va_node_is_valid_def)
  then have "find_hole al r i p = find_hole al r (vn_next (va_at al w)) (Some i)"
    using g lt by (subst find_hole.simps) simp
  also have "\<dots> = Some (Some (of_nat x, if xs = [] then Some i else Some (of_nat (last xs))))"
    by (rule Cons.IH [OF lk]) (use Cons.prems in auto)
  finally show ?case by (simp add: i)
qed

lemma find_hole_none:
  assumes wf: "va_wf al"
  shows "linked (va_at al) i xs \<Longrightarrow> xs \<noteq> [] \<Longrightarrow> set xs \<subseteq> va_used al \<Longrightarrow>
    (\<forall>y \<in> set xs. snd (extent al y) < unat r) \<Longrightarrow> find_hole al r i p = Some None"
proof (induction xs arbitrary: i p)
  case (Cons w xs)
  have g: "va_node_get al i = Some (va_at al w)" using va_store.get_used [OF wf, of i] Cons.prems by auto
  have lt: "\<not> r \<le> vn_range (va_at al w)" using Cons.prems(4) by (auto simp: extent_def word_le_nat_alt)
  have lk: "linked (va_at al) (vn_next (va_at al w)) xs" using Cons.prems by simp
  then have "xs = [] \<longleftrightarrow> \<not> va_node_is_valid (vn_next (va_at al w))" by (cases xs) (auto simp: va_node_is_valid_def)
  then show ?case using g lt Cons.IH [OF lk] Cons.prems by (subst find_hole.simps) auto
qed simp

text \<open>\<open>va_gen_alloc_internal\<close> is first-fit allocation from the holes.\<close>

definition op_result :: "va_gen_addr \<Rightarrow> nat list \<Rightarrow> va_gen_addr \<Rightarrow> pages list \<Rightarrow> bool" where
  "op_result addr xs addr' qs \<longleftrightarrow> (\<exists>ys. ranges (allocator addr') (hole_list addr') ys qs \<and>
     reshaped (allocator addr) xs (allocator addr') ys \<and>
     claims_list addr' = claims_list addr \<and> va_base addr' = va_base addr)"

lemma first_fit_split:
  assumes "first_fit r ps = Some (c, qs)"
  shows "\<exists>us b n vs. ps = us @ (b, n) # vs \<and> (\<forall>p \<in> set us. snd p < r) \<and> r \<le> n \<and> c = b \<and>
    qs = us @ (if n = r then vs else (b + r, n - r) # vs)"
  using assms
proof (induction r ps arbitrary: qs rule: first_fit.induct)
  case (2 r b n ps)
  show ?case
  proof (cases "r \<le> n")
    case True
    then have "c = b" "qs = (if n = r then ps else (b + r, n - r) # ps)" using 2 by auto
    then show ?thesis using True by (intro exI [of _ "[]"]) auto
  next
    case False
    then obtain rs where rs: "first_fit r ps = Some (c, rs)" "qs = (b, n) # rs" using 2 by auto
    from "2.IH" [OF False rs(1)] obtain us b' n' vs where "ps = us @ (b', n') # vs" "\<forall>p \<in> set us. snd p < r"
      "r \<le> n'" "c = b'" "rs = us @ (if n' = r then vs else (b' + r, n' - r) # vs)" by auto
    then show ?thesis using False rs by (intro exI [of _ "(b, n) # us"] exI [of _ b'] exI [of _ n'] exI [of _ vs]) simp
  qed
qed simp

lemma va_gen_alloc_internal_none:
  assumes wf: "va_wf (allocator addr)" and r: "ranges (allocator addr) (hole_list addr) xs ps"
    and none: "first_fit (unat rng) ps = None"
  shows "va_gen_alloc_internal addr rng = Some (INVALID_VA_PAGE_INDEX, addr)"
proof (cases "xs = []")
  case True
  then show ?thesis using r by (simp add: va_gen_alloc_internal_def ranges_def va_node_is_valid_def)
next
  case False
  have "\<forall>y \<in> set xs. snd (extent (allocator addr) y) < unat rng"
    using none r by (auto simp: first_fit_None ranges_def)
  then have "find_hole (allocator addr) rng (hole_list addr) None = Some None"
    using find_hole_none [OF wf _ False] r by (simp add: ranges_def)
  then show ?thesis by (simp add: va_gen_alloc_internal_def)
qed

lemma split_map_extent:
  assumes "ranges al i xs (us @ p # vs)"
  shows "\<exists>as x bs. xs = as @ x # bs \<and> map (extent al) as = us \<and> extent al x = p \<and> map (extent al) bs = vs"
  using assms by (auto simp: ranges_def map_eq_append_conv map_eq_Cons_conv)

lemma va_gen_alloc_internal_some:
  assumes wf: "va_wf (allocator addr)" and r: "ranges (allocator addr) (hole_list addr) xs ps"
    and some: "first_fit (unat rng) ps = Some (c, qs)" and pos: "rng \<noteq> 0"
    and lim: "\<forall>p \<in> set ps. fst p + snd p < 2 ^ 64"
  shows "\<exists>addr'. va_gen_alloc_internal addr rng = Some (of_nat c, addr') \<and> op_result addr xs addr' qs"
proof -
  let ?al = "allocator addr"
  obtain us b n vs where ps: "ps = us @ (b, n) # vs" and sm: "\<forall>p \<in> set us. snd p < unat rng" and le: "unat rng \<le> n"
    and c: "c = b" and qs: "qs = us @ (if n = unat rng then vs else (b + unat rng, n - unat rng) # vs)"
    using first_fit_split [OF some] by blast
  obtain as x bs where xs: "xs = as @ x # bs" and us: "map (extent ?al) as = us" and x: "extent ?al x = (b, n)"
    and vs: "map (extent ?al) bs = vs" using split_map_extent [OF r [unfolded ps]] by blast
  have lk: "linked (va_at ?al) (hole_list addr) (as @ x # bs)" "set (as @ x # bs) \<subseteq> va_used ?al" "distinct (as @ x # bs)"
    using r by (simp_all add: ranges_def xs)
  have ux: "unat (of_nat x :: u32) = x" using linked_less [OF lk(1), of x] by (simp add: unat_of_nat)
  have get: "va_node_get ?al (of_nat x) = Some (va_at ?al x)" using va_store.get_used [OF wf, of "of_nat x"] lk(2) ux by auto
  have bn: "b = unat (vn_base (va_at ?al x))" "n = unat (vn_range (va_at ?al x))" using x by (auto simp: extent_def)
  have hv: "va_node_is_valid (hole_list addr)" using lk(1) by (cases as) (auto simp: va_node_is_valid_def)
  have fh: "find_hole ?al rng (hole_list addr) None = Some (Some (of_nat x, if as = [] then None else Some (of_nat (last as))))"
    by (rule find_hole_first [OF wf lk(1,2)]) (use sm us x le in auto)
  show ?thesis
  proof (cases "n = unat rng")
    case False
    let ?nd = "(va_at ?al x)\<lparr>vn_base := vn_base (va_at ?al x) + rng, vn_range := vn_range (va_at ?al x) - rng\<rparr>"
    have "b + n < 2 ^ 64" using lim by (auto simp: ps)
    then have e: "unat (vn_base ?nd) = b + unat rng" "unat (vn_range ?nd) = n - unat rng" using le bn
      by (auto simp: unat_word_ariths unat_sub word_le_nat_alt)
    have "va_gen_alloc_internal addr rng = Some (of_nat c, addr\<lparr>allocator := va_node_set ?al (of_nat x) ?nd\<rparr>)"
      using pos hv fh get False bn c by (auto simp: va_gen_alloc_internal_def)
    moreover have "op_result addr xs (addr\<lparr>allocator := va_node_set ?al (of_nat x) ?nd\<rparr>) qs"
      using ranges_resize [OF wf r [unfolded xs ps] _ ux, of ?nd] us False e xs qs
      by (auto simp: op_result_def)
    ultimately show ?thesis by blast
  next
    case True
    have rr: "vn_range (va_at ?al x) = rng" using True bn by (simp add: word_unat_eq_iff)
    show ?thesis
    proof (cases as rule: rev_cases)
      case Nil
      then have hl: "hole_list addr = of_nat x" using lk(1) by (auto simp: index_of_nat)
      from ranges_unlink_head [OF wf _ ux, of "hole_list addr" bs "(b, n)" vs] r Nil us obtain al' where
        "va_node_free ?al (of_nat x) = Some al'" "ranges al' (vn_next (va_at ?al x)) bs vs" "reshaped ?al (x # bs) al' bs"
        by (auto simp: xs ps)
      then show ?thesis using pos hv fh get True bn c hl qs us Nil xs rr
        by (auto simp: va_gen_alloc_internal_def op_result_def)
    next
      case (snoc as' w)
      obtain us' q where u: "us = us' @ [q]" "length us' = length as'" using us snoc by (cases us rule: rev_cases) auto
      have q: "q = extent ?al w" using us snoc u by auto
      have uw: "unat (of_nat w :: u32) = w" using linked_less [OF lk(1), of w] snoc by (simp add: unat_of_nat)
      let ?nd = "(va_at ?al w)\<lparr>vn_next := vn_next (va_at ?al x)\<rparr>"
      have getw: "va_node_get ?al (of_nat w) = Some (va_at ?al w)"
        using va_store.get_used [OF wf, of "of_nat w"] lk(2) uw snoc by auto
      have hl: "hole_list addr \<noteq> of_nat x"
      proof -
        have "unat (hole_list addr) \<in> set as" using lk(1) unfolding snoc by (cases as') auto
        then show ?thesis using ux lk(3) by auto
      qed
      have nd: "(unat (vn_base ?nd), unat (vn_range ?nd)) = q" by (simp add: q extent_def)
      from ranges_unlink_after [OF wf _ u(2) ux uw, of "hole_list addr" bs q "(b, n)" vs ?nd] r snoc u obtain al' where
        "va_node_free (va_node_set ?al (of_nat w) ?nd) (of_nat x) = Some al'"
        "ranges al' (hole_list addr) (as' @ w # bs) (us' @ q # vs)"
        "reshaped ?al (as' @ w # x # bs) al' (as' @ w # bs)"
        unfolding nd by (auto simp: xs ps)
      then show ?thesis using pos hv fh get getw True bn c hl qs u snoc xs rr
        by (auto simp: va_gen_alloc_internal_def op_result_def)
    qed
  qed
qed

text \<open>\<open>va_gen_insert_and_coalesce\<close> refines the insertion into a list of ranges.\<close>

lemma insert_coalesce_skip:
  assumes "\<forall>p \<in> set us. fst p + snd p < b"
  shows "insert_coalesce b r (us @ vs) = map_option ((@) us) (insert_coalesce b r vs)"
  using assms
  by (cases "insert_coalesce b r vs"; induction us) (auto simp: overlaps_at_def)

lemma unat_add_bounded: "unat (x :: u64) + unat y < 2 ^ 64 \<Longrightarrow> unat (x + y) = unat x + unat y"
  by (simp add: unat_word_ariths)

lemma insert_search_skip:
  assumes wf: "va_wf al" and br: "unat base + unat rng < 2 ^ 64"
  shows "seg (va_at al) i as j \<Longrightarrow> set as \<subseteq> va_used al \<Longrightarrow>
    (\<forall>y \<in> set as. fst (extent al y) + snd (extent al y) < unat base) \<Longrightarrow>
    insert_search al base rng i prev = insert_search al base rng j (if as = [] then prev else of_nat (last as))"
proof (induction as arbitrary: i prev)
  case (Cons w as)
  have i: "va_node_is_valid i" "i = of_nat w" and g: "va_node_get al i = Some (va_at al w)"
    using Cons.prems va_store.get_used [OF wf, of i] by (auto simp: va_node_is_valid_def index_of_nat)
  have lt: "unat (vn_base (va_at al w)) + unat (vn_range (va_at al w)) < unat base"
    using Cons.prems(3) by (simp add: extent_def)
  then have e: "unat (vn_base (va_at al w) + vn_range (va_at al w)) = unat (vn_base (va_at al w)) + unat (vn_range (va_at al w))"
    using unat_less_pow [of base] by (intro unat_add_bounded) simp
  have "insert_search al base rng i prev = insert_search al base rng (vn_next (va_at al w)) i"
    using i(1) g e lt unat_add_bounded [OF br]
    by (subst insert_search.simps) (auto simp: word_less_nat_alt word_le_nat_alt word_unat_eq_iff Let_def)
  then show ?case using Cons.IH [of "vn_next (va_at al w)" i] Cons.prems i by auto
qed simp

text \<open>What the search does at the first node it does not skip.\<close>

lemma insert_search_at:
  assumes wf: "va_wf al" and br: "unat base + unat rng < 2 ^ 64" and g: "va_node_get al j = Some nd"
    and v: "va_node_is_valid j" and e: "unat (vn_base nd) = c" "unat (vn_range nd) = n" and cn: "c + n < 2 ^ 64"
    and ns: "unat base \<le> c + n"
  shows "overlaps_at (unat base) (unat rng) c n \<Longrightarrow> insert_search al base rng j prev = Some Overlap"
    and "\<not> overlaps_at (unat base) (unat rng) c n \<Longrightarrow> unat base + unat rng = c \<Longrightarrow>
      insert_search al base rng j prev =
        Some (Coalesced (va_node_set al j (nd\<lparr>vn_base := base, vn_range := vn_range nd + rng\<rparr>)))"
    and "\<not> overlaps_at (unat base) (unat rng) c n \<Longrightarrow> unat base + unat rng < c \<Longrightarrow>
      insert_search al base rng j prev = Some (InsertAt j prev)"
    and "\<not> overlaps_at (unat base) (unat rng) c n \<Longrightarrow> unat base + unat rng > c \<Longrightarrow> c + n = unat base"
    and "\<not> overlaps_at (unat base) (unat rng) c n \<Longrightarrow> unat base + unat rng > c \<Longrightarrow>
      insert_search al base rng j prev =
       (let fnd = nd\<lparr>vn_range := vn_range nd + rng\<rparr>; al = va_node_set al j fnd; nextPtr = vn_next fnd
        in if va_node_is_valid nextPtr
           then do { nextNode \<leftarrow> va_node_get al nextPtr;
                     if vn_base nextNode = base + rng
                     then do { al \<leftarrow> va_node_free
                                 (va_node_set al j
                                    (fnd\<lparr>vn_range := vn_range fnd + vn_range nextNode,
                                          vn_next := vn_next nextNode\<rparr>)) nextPtr;
                               Some (Coalesced al) }
                     else Some (Coalesced al) }
           else Some (Coalesced al))"
proof -
  have e1: "unat (base + rng) = unat base + unat rng" using unat_add_bounded [OF br] .
  have e2: "unat (vn_base nd + vn_range nd) = c + n" using e cn by (simp add: unat_add_bounded)
  have ov: "(if vn_base nd < base then vn_base nd + vn_range nd > base else base + rng > vn_base nd)
      \<longleftrightarrow> overlaps_at (unat base) (unat rng) c n"
    using e e1 e2 by (simp add: overlaps_at_def word_less_nat_alt)
  have q1: "base + rng = vn_base nd \<longleftrightarrow> unat base + unat rng = c"
    and q2: "vn_base nd + vn_range nd = base \<longleftrightarrow> c + n = unat base"
    and q3: "vn_base nd > base + rng \<longleftrightarrow> unat base + unat rng < c"
    using e e1 e2 by (simp_all add: word_unat_eq_iff word_less_nat_alt)
  note u = insert_search.simps [of al base rng j prev] g v ov q1 q2 q3
  show "overlaps_at (unat base) (unat rng) c n \<Longrightarrow> insert_search al base rng j prev = Some Overlap"
    by (simp add: u Let_def)
  show "\<not> overlaps_at (unat base) (unat rng) c n \<Longrightarrow> unat base + unat rng = c \<Longrightarrow>
      insert_search al base rng j prev =
        Some (Coalesced (va_node_set al j (nd\<lparr>vn_base := base, vn_range := vn_range nd + rng\<rparr>)))"
    by (simp add: u Let_def)
  show "\<not> overlaps_at (unat base) (unat rng) c n \<Longrightarrow> unat base + unat rng < c \<Longrightarrow>
      insert_search al base rng j prev = Some (InsertAt j prev)"
    by (simp add: u Let_def)
  show t: "\<not> overlaps_at (unat base) (unat rng) c n \<Longrightarrow> unat base + unat rng > c \<Longrightarrow> c + n = unat base"
    using ns by (auto simp: overlaps_at_def split: if_splits)
  show "\<not> overlaps_at (unat base) (unat rng) c n \<Longrightarrow> unat base + unat rng > c \<Longrightarrow>
      insert_search al base rng j prev =
       (let fnd = nd\<lparr>vn_range := vn_range nd + rng\<rparr>; al = va_node_set al j fnd; nextPtr = vn_next fnd
        in if va_node_is_valid nextPtr
           then do { nextNode \<leftarrow> va_node_get al nextPtr;
                     if vn_base nextNode = base + rng
                     then do { al \<leftarrow> va_node_free
                                 (va_node_set al j
                                    (fnd\<lparr>vn_range := vn_range fnd + vn_range nextNode,
                                          vn_next := vn_next nextNode\<rparr>)) nextPtr;
                               Some (Coalesced al) }
                     else Some (Coalesced al) }
           else Some (Coalesced al))"
    using t by (simp add: u Let_def)
qed

lemma reshaped_trans: "reshaped al xs al' ys \<Longrightarrow> reshaped al' ys al'' zs \<Longrightarrow> reshaped al xs al'' zs"
proof -
  assume r: "reshaped al xs al' ys" "reshaped al' ys al'' zs"
  then have "va_used al' - set ys = va_used al - set xs" by (auto simp: reshaped_def)
  with r show ?thesis by (simp add: reshaped_def)
qed

lemma ranges_get:
  assumes "va_wf al" and "ranges al i (xs @ x # ys) (ps @ p # qs)" and "length ps = length xs"
  shows "\<exists>j. seg (va_at al) i xs j \<and> va_node_is_valid j \<and> unat j = x \<and> j = of_nat x \<and>
    va_node_get al j = Some (va_at al x) \<and> p = (unat (vn_base (va_at al x)), unat (vn_range (va_at al x)))"
proof -
  obtain j where "seg (va_at al) i xs j" using assms(2) by (auto simp: ranges_def linked_append)
  with ranges_cons(2) [OF assms this refl] show ?thesis by (auto simp: extent_def index_of_nat)
qed

text \<open>Extending a node by a range behind it, taking in the next node when it becomes adjacent.\<close>

lemma insert_touch_refines:
  assumes wf: "va_wf al" and r: "ranges al i (xs @ x # ys) (ps @ (c, n) # qs)" and len: "length ps = length xs"
    and j: "unat j = x" and br: "unat base + unat rng < 2 ^ 64" and t: "c + n = unat base"
    and lim: "\<forall>p \<in> set qs. fst p + snd p < 2 ^ 64" and v: "va_node_is_valid j"
    and e: "c = unat (vn_base (va_at al x))" "n = unat (vn_range (va_at al x))" and pos: "0 < n"
  shows "\<exists>al' zs. insert_search al base rng j prev = Some (Coalesced al') \<and>
     ranges al' i zs (ps @ absorb_next c (n + unat rng) qs) \<and> reshaped al (xs @ x # ys) al' zs"
proof -
  let ?fnd = "(va_at al x)\<lparr>vn_range := vn_range (va_at al x) + rng\<rparr>"
  let ?al = "va_node_set al j ?fnd"
  have u: "unat j \<in> va_used al" using r j by (auto simp: ranges_def)
  have g: "va_node_get al j = Some (va_at al x)" using va_store.get_used [OF wf u] j by simp
  have cn: "c + n < 2 ^ 64" "\<not> overlaps_at (unat base) (unat rng) c n" "unat base + unat rng > c"
    using t br pos by (auto simp: overlaps_at_def)
  note at = insert_search_at(5) [OF wf br g v e(1) [symmetric] e(2) [symmetric] cn(1) _ cn(2,3), of prev]
  have fe: "unat (vn_base ?fnd) = c" "unat (vn_range ?fnd) = n + unat rng"
    using e t br by (auto simp: unat_word_ariths)
  have r1: "ranges ?al i (xs @ x # ys) (ps @ (c, n + unat rng) # qs)" and s1: "reshaped al (xs @ x # ys) ?al (xs @ x # ys)"
    using ranges_resize [OF wf r len j, of ?fnd] fe by auto
  have wf1: "va_wf ?al" using s1 by (simp add: reshaped_def)
  have ax: "va_at ?al x = ?fnd" using va_store_set(3) [OF wf u, of x] u j by simp
  have nx: "linked (va_at ?al) (vn_next ?fnd) ys" using r1 ax unfolding ranges_def linked_append by auto
  show ?thesis
  proof (cases ys)
    case Nil
    then have "\<not> va_node_is_valid (vn_next ?fnd)" "qs = []" using nx r len by (auto simp: va_node_is_valid_def ranges_def)
    then show ?thesis using at r1 s1 t by (auto simp: Let_def)
  next
    case (Cons y zs)
    obtain d m qs' where qs: "qs = (d, m) # qs'" using r len Cons
      by (cases "extent al y") (auto simp: ranges_def)
    from ranges_get [OF wf1, of i "xs @ [x]" y zs "ps @ [(c, n + unat rng)]" "(d, m)" qs'] r1 len Cons qs
    obtain k where k: "va_node_is_valid k" "unat k = y" "va_node_get ?al k = Some (va_at ?al y)"
      "(d, m) = (unat (vn_base (va_at ?al y)), unat (vn_range (va_at ?al y)))"
      "seg (va_at ?al) i (xs @ [x]) k" by auto
    have kn: "k = vn_next ?fnd" using k(5) ax by (auto simp: seg_append)
    have ends: "vn_base (va_at ?al y) = base + rng \<longleftrightarrow> d = c + (n + unat rng)"
      using k(4) t unat_add_bounded [OF br] by (auto simp: word_unat_eq_iff)
    show ?thesis
    proof (cases "d = c + (n + unat rng)")
      case False
      then show ?thesis using at r1 s1 t k kn qs ends by (auto simp: Let_def)
    next
      case True
      let ?nd = "?fnd\<lparr>vn_range := vn_range ?fnd + vn_range (va_at ?al y), vn_next := vn_next (va_at ?al y)\<rparr>"
      have "d + m < 2 ^ 64" using lim qs by auto
      then have ne: "unat (vn_base ?nd) = c" "unat (vn_range ?nd) = n + unat rng + m"
        using fe k(4) True by (auto simp: unat_word_ariths)
      from ranges_unlink_after [OF wf1 _ len k(2) j, of i zs "(c, n + unat rng)" "(d, m)" qs' ?nd] r1 ne Cons qs
      obtain al' where al': "va_node_free (va_node_set ?al j ?nd) k = Some al'"
        "ranges al' i (xs @ x # zs) (ps @ (c, n + unat rng + m) # qs')"
        "reshaped ?al (xs @ x # y # zs) al' (xs @ x # zs)" by auto
      have "reshaped al (xs @ x # ys) al' (xs @ x # zs)" using reshaped_trans [OF s1] al'(3) Cons by simp
      then show ?thesis using at al' t k kn qs ends True Cons by (auto simp: Let_def)
    qed
  qed
qed

lemma insert_at_refines:
  assumes wf: "va_wf al" and room: "va_room al" and ok: "fst kz \<and> snd kz"
    and r: "ranges al l (xs @ ys) (ps @ qs)" and len: "length ps = length xs" and sg: "seg (va_at al) l xs j"
    and s: "insert_search al base rng l l = Some (InsertAt j (if xs = [] then l else of_nat (last xs)))"
  shows "\<exists>al' l' zs. va_gen_insert_and_coalesce kz al l base rng = Some (Inr (al', l')) \<and>
     ranges al' l' zs (ps @ (unat base, unat rng) # qs) \<and> reshaped al (xs @ ys) al' zs"
proof -
  from ranges_link_head [OF wf room ok r len sg] obtain k b nd where
    k: "va_node_alloc kz al = Some (Inr (k, b))" "va_node_is_valid k" "va_node_get b k = Some nd" "unat k \<notin> set (xs @ ys)"
    and b: "\<And>nd'. vn_next nd' = j \<Longrightarrow> (let c = va_node_set b k nd' in
       va_wf c \<and> va_used c = insert (unat k) (va_used al) \<and> unat k \<notin> va_used al \<and>
       (\<forall>j \<in> va_used al. va_at c j = va_at al j) \<and>
       ranges c k (unat k # ys) ((unat (vn_base nd'), unat (vn_range nd')) # qs) \<and> seg (va_at c) l xs j)" by blast
  define c where "c = va_node_set b k (nd\<lparr>vn_base := base, vn_range := rng, vn_next := j\<rparr>)"
  have c: "va_wf c" "va_used c = insert (unat k) (va_used al)" "unat k \<notin> va_used al"
    "\<forall>j \<in> va_used al. va_at c j = va_at al j"
    "ranges c k (unat k # ys) ((unat base, unat rng) # qs)" "seg (va_at c) l xs j"
    using b [of "nd\<lparr>vn_base := base, vn_range := rng, vn_next := j\<rparr>"] by (auto simp: c_def Let_def)
  have us: "set (xs @ ys) \<subseteq> va_used al" "distinct (xs @ ys)" and ps: "ps = map (extent al) xs"
    using r len by (auto simp: ranges_def)
  show ?thesis
  proof (cases xs rule: rev_cases)
    case Nil
    then have "j = l" using sg by simp
    then have "va_gen_insert_and_coalesce kz al l base rng = Some (Inr (c, k))"
      using s k by (simp add: va_gen_insert_and_coalesce_def c_def Let_def)
    moreover have "reshaped al ys c (unat k # ys)" using c us by (auto simp: reshaped_def)
    ultimately show ?thesis using c Nil len by auto
  next
    case (snoc as w)
    have lw: "linked (va_at al) l (as @ w # ys)" using r snoc by (simp add: ranges_def)
    have uw: "unat (of_nat w :: u32) = w" using linked_less [OF lw, of w] by (simp add: unat_of_nat)
    have wu: "unat (of_nat w :: u32) \<in> va_used c" using us snoc c uw by auto
    have wv: "va_node_is_valid (of_nat w)" using va_store.used_valid [OF c(1) wu] by (simp add: va_node_is_valid_def)
    have getw: "va_node_get c (of_nat w) = Some (va_at c w)" using va_store.get_used [OF c(1) wu] uw by simp
    define d where "d = va_node_set c (of_nat w) ((va_at c w)\<lparr>vn_next := k\<rparr>)"
    note st = va_store_set [OF c(1) wu, where nd = "(va_at c w)\<lparr>vn_next := k\<rparr>", folded d_def, unfolded uw]
    have jl: "j \<noteq> l"
    proof -
      have "unat l \<in> set xs" "linked (va_at al) j ys"
        using lw sg snoc by (cases as; auto simp: linked_append seg_append)+
      then show ?thesis using us(2) lw by (cases ys) (auto; cases as; auto)+
    qed
    have res: "va_gen_insert_and_coalesce kz al l base rng = Some (Inr (d, l))"
      using s k getw wv jl snoc by (simp add: va_gen_insert_and_coalesce_def c_def [symmetric] d_def Let_def)
    have wn: "w \<notin> set as" "w \<notin> set ys" "w \<noteq> unat k" "w \<in> va_used al" using us snoc k(4) by auto
    have same: "va_at d x = va_at al x" if "x \<in> va_used al" "x \<noteq> w" for x using that st(3) c by auto
    have dw: "va_at d w = (va_at al w)\<lparr>vn_next := k\<rparr>" and dk: "va_at d (unat k) = va_at c (unat k)"
      using st(3) c wn by auto
    have "linked (va_at d) k (unat k # ys)"
      using c(5) st(3) wn c us by (subst linked_cong [where h' = "va_at c"]) (auto simp: ranges_def)
    then have "linked (va_at d) (vn_next (va_at d w)) (unat k # ys)" by (simp add: dw)
    moreover have oth: "va_at d x = va_at al x" if "x \<in> set as \<union> set ys" for x
      by (rule same) (use that us wn snoc in auto)
    ultimately have "linked (va_at d) l (xs @ unat k # ys)" using linked_redirect [OF lw] snoc by simp
    moreover have "map (extent d) xs = map (extent al) xs" "map (extent d) ys = map (extent al) ys"
      using oth snoc dw by (auto simp: extent_def)
    then have "map (extent d) xs = ps" "map (extent d) ys = qs" using r len by (auto simp: ranges_def)
    moreover have "extent d (unat k) = (unat base, unat rng)" using dk c(5) by (auto simp: extent_def ranges_def)
    ultimately have "ranges d l (xs @ unat k # ys) (ps @ (unat base, unat rng) # qs)"
      using us k(4) st(2) c(2) by (auto simp: ranges_def)
    moreover have "reshaped al (xs @ ys) d (xs @ unat k # ys)" using us st c same wn snoc by (auto simp: reshaped_def)
    ultimately show ?thesis using res by blast
  qed
qed

lemma va_gen_insert_refines:
  assumes wf: "va_wf al" and r: "ranges al l xs ps" and br: "unat base + unat rng < 2 ^ 64"
    and lim: "\<forall>p \<in> set ps. 0 < snd p \<and> fst p + snd p < 2 ^ 64"
  shows "insert_coalesce (unat base) (unat rng) ps = None \<Longrightarrow> va_gen_insert_and_coalesce kz al l base rng = Some (Inl ())"
    and "insert_coalesce (unat base) (unat rng) ps = Some qs \<Longrightarrow> va_room al \<Longrightarrow> fst kz \<and> snd kz \<Longrightarrow>
      \<exists>al' l' ys. va_gen_insert_and_coalesce kz al l base rng = Some (Inr (al', l')) \<and>
        ranges al' l' ys qs \<and> reshaped al xs al' ys"
proof -
  let ?b = "unat base" and ?r = "unat rng"
  define us where "us = takeWhile (\<lambda>p. fst p + snd p < ?b) ps"
  define vs where "vs = dropWhile (\<lambda>p. fst p + snd p < ?b) ps"
  have ps: "ps = us @ vs" and sk: "\<forall>p \<in> set us. fst p + snd p < ?b"
    by (auto simp: us_def vs_def dest: set_takeWhileD)
  define as where "as = take (length us) xs"
  define bs where "bs = drop (length us) xs"
  have lx: "length xs = length us + length vs" using r ps by (auto simp: ranges_def dest: arg_cong [where f = length])
  have xs: "xs = as @ bs" and len: "length us = length as" "length vs = length bs" using lx by (auto simp: as_def bs_def)
  have ms: "map (extent al) as = us" "map (extent al) bs = vs" "set as \<subseteq> va_used al"
    using r len by (auto simp: ranges_def xs ps)
  obtain j where sg: "seg (va_at al) l as j" using r by (auto simp: ranges_def xs linked_append)
  note r' = r [unfolded xs ps]
  have ic: "insert_coalesce ?b ?r ps = map_option ((@) us) (insert_coalesce ?b ?r vs)"
    unfolding ps by (rule insert_coalesce_skip [OF sk])
  let ?prev = "if as = [] then l else of_nat (last as)"
  have srch: "insert_search al base rng l l = insert_search al base rng j ?prev"
    by (rule insert_search_skip [OF wf br sg ms(3)]) (use sk ms in auto)
  have "(insert_coalesce ?b ?r vs = None \<longrightarrow> insert_search al base rng l l = Some Overlap) \<and>
    (\<forall>ws. insert_coalesce ?b ?r vs = Some ws \<longrightarrow> va_room al \<longrightarrow> fst kz \<and> snd kz \<longrightarrow>
      (\<exists>al' l' ys. va_gen_insert_and_coalesce kz al l base rng = Some (Inr (al', l')) \<and>
        ranges al' l' ys (us @ ws) \<and> reshaped al xs al' ys))"
  proof (cases bs)
    case Nil
    then have vs: "vs = []" and j: "\<not> va_node_is_valid j"
      using len ranges_cons(1) [OF wf r' len(1) sg] by (auto simp: va_node_is_valid_def)
    then have "insert_search al base rng l l = Some (InsertAt j ?prev)"
      unfolding srch by (subst insert_search.simps) simp
    then show ?thesis using insert_at_refines [OF wf _ _ r' len(1) sg] vs xs by simp
  next
    case (Cons x bs')
    obtain c n vs' where vs: "vs = (c, n) # vs'" using ms(2) Cons by (cases "extent al x") auto
    from ranges_get [OF wf r' [unfolded Cons vs] len(1)] seg_end_unique [OF sg] have
      j: "va_node_is_valid j" "unat j = x" "va_node_get al j = Some (va_at al x)"
        "unat (vn_base (va_at al x)) = c" "unat (vn_range (va_at al x)) = n" by auto
    have cn: "c + n < 2 ^ 64" "0 < n" "\<forall>p \<in> set vs'. fst p + snd p < 2 ^ 64" using lim by (auto simp: ps vs)
    have ns: "?b \<le> c + n" using hd_dropWhile [of "\<lambda>p. fst p + snd p < ?b" ps] by (auto simp: vs_def [symmetric] vs)
    note at = insert_search_at [OF wf br j(3,1,4,5) cn(1) ns]
    note at = at(1-3) [where prev = ?prev, folded srch] at(4)
    consider (ov) "overlaps_at ?b ?r c n" | (bf) "\<not> overlaps_at ?b ?r c n" "?b + ?r = c"
      | (ins) "\<not> overlaps_at ?b ?r c n" "?b + ?r < c" | (tch) "\<not> overlaps_at ?b ?r c n" "?b + ?r > c" by linarith
    then show ?thesis
    proof cases
      case ov
      then show ?thesis using at(1) by (simp add: vs)
    next
      case bf
      let ?nd = "(va_at al x)\<lparr>vn_base := base, vn_range := vn_range (va_at al x) + rng\<rparr>"
      have e: "unat (vn_base ?nd) = ?b" "unat (vn_range ?nd) = n + ?r" using bf cn j by (auto simp: unat_word_ariths)
      have "va_gen_insert_and_coalesce kz al l base rng = Some (Inr (va_node_set al j ?nd, l))"
        using at(2) [OF bf] by (simp add: va_gen_insert_and_coalesce_def)
      then show ?thesis using ranges_resize [OF wf r' [unfolded Cons vs] len(1) j(2), of ?nd] bf e
        by (auto simp: vs xs Cons)
    next
      case ins
      then have "insert_coalesce ?b ?r vs = Some ((?b, ?r) # vs)" using ns cn by (auto simp: vs overlaps_at_def)
      then show ?thesis using insert_at_refines [OF wf _ _ r' len(1) sg at(3) [OF ins]] xs by auto
    next
      case tch
      note t = at(4) [OF tch]
      have "insert_coalesce ?b ?r vs = Some (absorb_next c (n + ?r) vs')" using tch t cn by (auto simp: vs)
      then show ?thesis
        using insert_touch_refines [OF wf r' [unfolded Cons vs] len(1) j(2) br t cn(3) j(1) j(4) [symmetric] j(5) [symmetric] cn(2), of ?prev]
        by (auto simp: srch va_gen_insert_and_coalesce_def xs Cons)
    qed
  qed
  then show "insert_coalesce ?b ?r ps = None \<Longrightarrow> va_gen_insert_and_coalesce kz al l base rng = Some (Inl ())"
    and "insert_coalesce ?b ?r ps = Some qs \<Longrightarrow> va_room al \<Longrightarrow> fst kz \<and> snd kz \<Longrightarrow>
      \<exists>al' l' ys. va_gen_insert_and_coalesce kz al l base rng = Some (Inr (al', l')) \<and>
        ranges al' l' ys qs \<and> reshaped al xs al' ys"
    by (auto simp: ic va_gen_insert_and_coalesce_def)
qed

section \<open>The generator in use\<close>

text \<open>
  \<open>gen_rel addr hs cs\<close>: the generator represents the holes \<open>hs\<close> and the claims \<open>cs\<close>, in two disjoint
  lists that together are all nodes in use.
\<close>

definition gen_rel :: "va_gen_addr \<Rightarrow> pages list \<Rightarrow> pages list \<Rightarrow> bool" where
  "gen_rel addr hs cs \<longleftrightarrow> va_wf (allocator addr) \<and>
     (\<exists>xs ys. ranges (allocator addr) (hole_list addr) xs hs \<and> ranges (allocator addr) (claims_list addr) ys cs \<and>
       set xs \<inter> set ys = {} \<and> va_used (allocator addr) = set xs \<union> set ys)"

lemma gen_rel_holes:
  assumes "gen_rel addr hs cs"
  obtains xs where "va_wf (allocator addr)" "ranges (allocator addr) (hole_list addr) xs hs"
    "\<And>al' l' xs' hs'. ranges al' l' xs' hs' \<Longrightarrow> reshaped (allocator addr) xs al' xs' \<Longrightarrow>
      gen_rel (addr\<lparr>allocator := al', hole_list := l'\<rparr>) hs' cs"
proof -
  from assms obtain xs ys where g: "va_wf (allocator addr)" "ranges (allocator addr) (hole_list addr) xs hs"
    "ranges (allocator addr) (claims_list addr) ys cs" "set xs \<inter> set ys = {}" "va_used (allocator addr) = set xs \<union> set ys"
    by (auto simp: gen_rel_def)
  have "gen_rel (addr\<lparr>allocator := al', hole_list := l'\<rparr>) hs' cs"
    if "ranges al' l' xs' hs'" and re: "reshaped (allocator addr) xs al' xs'" for al' l' xs' hs'
  proof -
    have "ranges al' (claims_list addr) ys cs" using ranges_frame [OF g(3) re] g(4) by auto
    moreover have "va_used (allocator addr) - set xs = set ys" using g(4,5) by auto
    ultimately show ?thesis using that by (auto simp: gen_rel_def reshaped_def)
  qed
  with g(1,2) show ?thesis by (rule that)
qed

lemma gen_rel_claims:
  assumes "gen_rel addr hs cs"
  obtains ys where "va_wf (allocator addr)" "ranges (allocator addr) (claims_list addr) ys cs"
    "\<And>al' l' ys' cs'. ranges al' l' ys' cs' \<Longrightarrow> reshaped (allocator addr) ys al' ys' \<Longrightarrow>
      gen_rel (addr\<lparr>allocator := al', claims_list := l'\<rparr>) hs cs'"
proof -
  from assms obtain xs ys where g: "va_wf (allocator addr)" "ranges (allocator addr) (hole_list addr) xs hs"
    "ranges (allocator addr) (claims_list addr) ys cs" "set xs \<inter> set ys = {}" "va_used (allocator addr) = set xs \<union> set ys"
    by (auto simp: gen_rel_def)
  have "gen_rel (addr\<lparr>allocator := al', claims_list := l'\<rparr>) hs cs'"
    if "ranges al' l' ys' cs'" and re: "reshaped (allocator addr) ys al' ys'" for al' l' ys' cs'
  proof -
    have "ranges al' (hole_list addr) xs hs" using ranges_frame [OF g(2) re] g(4) by auto
    moreover have "va_used (allocator addr) - set ys = set xs" using g(4,5) by auto
    ultimately show ?thesis using that unfolding gen_rel_def reshaped_def
      by (intro conjI exI [of _ xs] exI [of _ ys']) auto
  qed
  with g(1,3) show ?thesis by (rule that)
qed

lemma gen_rel_base [simp]: "gen_rel (addr\<lparr>va_base := b\<rparr>) hs cs \<longleftrightarrow> gen_rel addr hs cs"
  by (simp add: gen_rel_def)

lemma va_gen_init_rel:
  assumes i: "va_gen_init kz addr0 base rng = Some (Inr addr)" and pos: "4096 \<le> unat rng"
  shows "gen_rel addr [(0, unat rng div 4096)] []" and "va_base addr = base"
proof -
  let ?al = "va_node_init (allocator addr0)"
  have room: "va_room ?al" by (simp add: va_room_def va_node_init_def Let_def)
  obtain k b where b: "va_node_alloc kz ?al = Some (Inr (k, b))" "va_wf b" "va_used b = {unat k}"
    using va_store.alloc_unused [OF va_wf_init(1) room, of kz] i va_wf_init(2)
    by (auto simp: va_gen_init_def va_gen_init_internal_def)
  have k: "unat k \<in> va_used b" "k \<noteq> invalid_va_node_index" using b va_store.used_valid [OF b(2), of k] by auto
  define nd where "nd = (va_at b (unat k))\<lparr>vn_next := invalid_va_node_index, vn_base := 0, vn_range := drop_bit PAGE_SHIFT rng\<rparr>"
  have a: "addr = addr0\<lparr>allocator := va_node_set b k nd, hole_list := k, claims_list := invalid_va_node_index, va_base := base\<rparr>"
    using i b k va_store.get_used [OF b(2) k(1)]
    by (auto simp: va_gen_init_def va_gen_init_internal_def va_node_is_valid_def nd_def)
  note st = va_store_set [OF b(2) k(1), where nd = nd]
  have at: "va_at (va_node_set b k nd) (unat k) = nd" using st(3) [OF k(1)] by simp
  have "unat (drop_bit PAGE_SHIFT rng) = unat rng div 4096" by (simp add: drop_bit_eq_div unat_div)
  then have "ranges (va_node_set b k nd) k [unat k] [(0, unat rng div 4096)]"
    using st b k at by (simp add: ranges_def extent_def nd_def)
  then show "gen_rel addr [(0, unat rng div 4096)] []"
    unfolding gen_rel_def using st b by (intro conjI exI [of _ "[unat k]"] exI [of _ "[]"]) (auto simp: a ranges_def)
  show "va_base addr = base" by (simp add: a)
qed

lemma bytes_to_pages_nat: "unat n + 4095 < 2 ^ 64 \<Longrightarrow> unat (bytes_to_pages n) = (unat n + 4095) div 4096"
proof -
  assume "unat n + 4095 < 2 ^ 64"
  then have "unat (4095 + n) = unat n + 4095" using unat_add_bounded [of 4095 n] by simp
  then show ?thesis by (simp add: bytes_to_pages_def unat_div)
qed

text \<open>Allocation with page alignment, on pages.\<close>

lemma va_gen_alloc_page_aligned:
  "va_gen_alloc kz addr n (of_nat PAGE_SIZE) =
     (if n > 0xffffffff * of_nat PAGE_SIZE then Some (INVALID_VA_GEN_ADDRESS, addr)
      else do { (p, addr) \<leftarrow> va_gen_alloc_internal addr (bytes_to_pages n);
                Some (if bytes_to_pages n = 0 \<or> p = INVALID_VA_PAGE_INDEX then INVALID_VA_GEN_ADDRESS
                      else push_bit PAGE_SHIFT p + va_base addr, addr) })"
proof -
  have one: "ucast ((ucast (of_nat PAGE_SIZE :: u32) :: u64) div of_nat PAGE_SIZE mod 0xffffffff) = (1 :: u32)" by simp
  have nlt: "\<not> (of_nat PAGE_SIZE :: u32) < of_nat PAGE_SIZE" by simp
  have "va_gen_alloc_aligned kz addr r 1 =
      do { (p, addr) \<leftarrow> va_gen_alloc_internal addr r; Some (if r = 0 then INVALID_VA_PAGE_INDEX else p, addr) }" for r
    by (cases "va_gen_alloc_internal addr r") (simp_all add: va_gen_alloc_aligned_def Let_def case_prod_unfold)
  note al = this [of "bytes_to_pages n"]
  show ?thesis unfolding va_gen_alloc_def Let_def one nlt al
    by (cases "va_gen_alloc_internal addr (bytes_to_pages n)") (simp_all add: case_prod_unfold)
qed

text \<open>
  The uses of a generator: page-aligned allocations, claims of addresses, and frees of what was
  allocated. \<open>live\<close> holds the byte ranges handed out and not freed.
\<close>

inductive va_reach :: "u64 \<Rightarrow> u64 \<Rightarrow> va_gen_addr \<Rightarrow> (u64 \<times> u64) list \<Rightarrow> bool" for base rng where
  start: "va_gen_init kz addr0 base rng = Some (Inr addr) \<Longrightarrow> va_reach base rng addr []"
| alloc: "va_reach base rng addr live \<Longrightarrow> va_gen_alloc kzs addr n (of_nat PAGE_SIZE) = Some (a, addr') \<Longrightarrow>
    va_reach base rng addr' (if a = INVALID_VA_GEN_ADDRESS then live else (a, n) # live)"
| free: "va_reach base rng addr live \<Longrightarrow> (a, n) \<in> set live \<Longrightarrow> va_room (allocator addr) \<Longrightarrow> fst kz \<and> snd kz \<Longrightarrow>
    va_gen_free kz addr a n = Some addr' \<Longrightarrow> va_reach base rng addr' (remove1 (a, n) live)"
| claim: "va_reach base rng addr live \<Longrightarrow> 0 < n \<Longrightarrow> n \<le> 0x8000000000000000 \<Longrightarrow>
    va_room (allocator addr) \<Longrightarrow> fst kz \<and> snd kz \<Longrightarrow>
    va_gen_claim kz addr a n = Some (a', addr') \<Longrightarrow> va_reach base rng addr' live"

definition live_pages :: "u64 \<Rightarrow> u64 \<times> u64 \<Rightarrow> pages" where
  "live_pages base l = ((unat (fst l) - unat base) div 4096, (unat (snd l) + 4095) div 4096)"

definition live_ok :: "u64 \<Rightarrow> u64 \<times> u64 \<Rightarrow> bool" where
  "live_ok base l \<longleftrightarrow> base \<le> fst l \<and> 4096 dvd unat (fst l) - unat base \<and> 0 < unat (snd l) \<and>
     unat (snd l) \<le> 0xffffffff * 4096"

definition va_conf :: "u64 \<Rightarrow> u64 \<Rightarrow> bool" where
  "va_conf base rng \<longleftrightarrow> 4096 \<le> unat rng \<and> unat base + unat rng \<le> unat INVALID_VA_GEN_ADDRESS"

definition va_inv :: "u64 \<Rightarrow> u64 \<Rightarrow> va_gen_addr \<Rightarrow> (u64 \<times> u64) list \<Rightarrow> pages list \<Rightarrow> pages list \<Rightarrow> bool" where
  "va_inv base rng addr live hs cs \<longleftrightarrow> gen_rel addr hs cs \<and> va_base addr = base \<and>
     separated (unat rng div 4096) 0 hs \<and> bounded (2 ^ 64) cs \<and> (\<forall>l \<in> set live. live_ok base l) \<and>
     disjoint_ranges (map (live_pages base) live) \<and>
     page_set (map (live_pages base) live) = {..<unat rng div 4096} - page_set hs"

lemma va_page_address:
  assumes c: "va_conf base rng" and p: "p < unat rng div 4096"
  shows "unat (push_bit PAGE_SHIFT (of_nat p) + base) = 4096 * p + unat base"
    and "(of_nat p :: u64) \<noteq> INVALID_VA_PAGE_INDEX"
    and "push_bit PAGE_SHIFT (of_nat p) + base \<noteq> INVALID_VA_GEN_ADDRESS"
proof -
  let ?a = "push_bit PAGE_SHIFT (of_nat p) + base"
  have "4096 * (unat rng div 4096) \<le> unat rng" by simp
  then have e: "4096 * p + unat base < unat INVALID_VA_GEN_ADDRESS" using c p unfolding va_conf_def by linarith
  have pp: "p < 0xff00000000000" using e by simp
  have "push_bit PAGE_SHIFT (of_nat p :: u64) = of_nat (4096 * p)" by (simp add: push_bit_eq_mult)
  moreover have "unat (of_nat (4096 * p) :: u64) = 4096 * p" using e by (subst unat_of_nat) simp
  ultimately show a: "unat ?a = 4096 * p + unat base" using e by (simp add: unat_word_ariths)
  have "unat (of_nat p :: u64) = p" using pp by (simp add: unat_of_nat)
  then show "(of_nat p :: u64) \<noteq> INVALID_VA_PAGE_INDEX" using pp by auto
  show "?a \<noteq> INVALID_VA_GEN_ADDRESS" using a e by (metis less_irrefl)
qed

lemma va_inv_alloc:
  assumes inv: "va_inv base rng addr live hs cs" and c: "va_conf base rng" and n: "0 < n" "n \<le> 0xffffffff * of_nat PAGE_SIZE"
  defines "r \<equiv> (unat n + 4095) div 4096"
  shows "first_fit r hs = None \<Longrightarrow> va_gen_alloc kz addr n (of_nat PAGE_SIZE) = Some (INVALID_VA_GEN_ADDRESS, addr)"
    and "first_fit r hs = Some (p, hs') \<Longrightarrow> \<exists>a addr'. va_gen_alloc kz addr n (of_nat PAGE_SIZE) = Some (a, addr') \<and>
      a \<noteq> INVALID_VA_GEN_ADDRESS \<and> live_pages base (a, n) = (p, r) \<and> va_inv base rng addr' ((a, n) # live) hs' cs"
proof -
  have g: "gen_rel addr hs cs" and sep: "separated (unat rng div 4096) 0 hs" and b: "va_base addr = base"
    using inv by (auto simp: va_inv_def)
  have un: "0 < unat n" "unat n \<le> 0xffffffff * 4096" using n by (auto simp: unat_gt_0 word_le_nat_alt)
  have r: "unat (bytes_to_pages n) = r" "0 < r" using un bytes_to_pages_nat [of n] by (auto simp: r_def)
  then have nz: "bytes_to_pages n \<noteq> 0" by auto
  have lim: "\<forall>p \<in> set hs. fst p + snd p < 2 ^ 64"
  proof
    fix p assume "p \<in> set hs"
    then have "fst p + snd p \<le> unat rng div 4096" using separated_elem [OF sep] by blast
    also have "\<dots> < 2 ^ 64" by (rule le_less_trans [OF div_le_dividend]) (use unat_less_pow [of rng] in simp)
    finally show "fst p + snd p < 2 ^ 64" .
  qed
  obtain xs where wf: "va_wf (allocator addr)" and xs: "ranges (allocator addr) (hole_list addr) xs hs"
    and upd: "\<And>al' l' xs' hs'. ranges al' l' xs' hs' \<Longrightarrow> reshaped (allocator addr) xs al' xs' \<Longrightarrow>
      gen_rel (addr\<lparr>allocator := al', hole_list := l'\<rparr>) hs' cs"
    using gen_rel_holes [OF g] by blast
  note al = va_gen_alloc_page_aligned [of kz addr n]
  show "first_fit r hs = None \<Longrightarrow> va_gen_alloc kz addr n (of_nat PAGE_SIZE) = Some (INVALID_VA_GEN_ADDRESS, addr)"
    unfolding al using va_gen_alloc_internal_none [OF wf xs, of "bytes_to_pages n"] r by simp
  assume ff: "first_fit r hs = Some (p, hs')"
  from va_gen_alloc_internal_some [OF wf xs ff [folded r(1)] nz lim] obtain addr' where
    ai: "va_gen_alloc_internal addr (bytes_to_pages n) = Some (of_nat p, addr')" and op: "op_result addr xs addr' hs'" by blast
  have addr': "addr' = addr\<lparr>allocator := allocator addr', hole_list := hole_list addr'\<rparr>"
    using op by (auto simp: op_result_def)
  have g': "gen_rel addr' hs' cs" using op upd by (subst addr') (auto simp: op_result_def)
  note s = first_fit_sound [OF sep ff r(2)]
  have "p \<in> page_set hs" using s r(2) by auto
  then have p: "p < unat rng div 4096" using separated_bounds [OF sep] by blast
  note pa = va_page_address [OF c p]
  let ?a = "push_bit PAGE_SHIFT (of_nat p) + base"
  have lp: "live_pages base (?a, n) = (p, r)" by (simp add: live_pages_def pa(1) r_def)
  have lo: "live_ok base (?a, n)" using un pa(1) by (simp add: live_ok_def word_le_nat_alt)
  have sub: "page_set hs \<subseteq> {..<unat rng div 4096}" using separated_bounds [OF sep] by blast
  have "va_inv base rng addr' ((?a, n) # live) hs' cs"
    using inv g' s lo op b sub unfolding va_inv_def list.map lp disjoint_ranges.simps page_set_simps
    by (auto simp: op_result_def)
  moreover have "va_gen_alloc kz addr n (of_nat PAGE_SIZE) = Some (?a, addr')"
    unfolding al using n(2) ai nz pa(2) op b by (auto simp: op_result_def)
  ultimately show "\<exists>a addr'. va_gen_alloc kz addr n (of_nat PAGE_SIZE) = Some (a, addr') \<and>
      a \<noteq> INVALID_VA_GEN_ADDRESS \<and> live_pages base (a, n) = (p, r) \<and> va_inv base rng addr' ((a, n) # live) hs' cs"
    using lp pa(3) by blast
qed

lemma separated_bounded: "separated lim lo ps \<Longrightarrow> lim < m \<Longrightarrow> bounded m ps"
  by (induction ps arbitrary: lo) auto

lemma va_conf_pages: "va_conf base rng \<Longrightarrow> unat rng div 4096 < 2 ^ 64"
  by (rule le_less_trans [OF div_le_dividend]) (use unat_less_pow [of rng] in simp)

text \<open>Freeing a live range succeeds and makes exactly its pages available again.\<close>

lemma va_inv_free:
  assumes inv: "va_inv base rng addr live hs cs" and c: "va_conf base rng" and l: "(a, n) \<in> set live"
    and room: "va_room (allocator addr)" and kz: "fst kz \<and> snd kz"
  shows "\<exists>addr' hs'. va_gen_free kz addr a n = Some addr' \<and> va_inv base rng addr' (remove1 (a, n) live) hs' cs"
proof -
  have g: "gen_rel addr hs cs" and sep: "separated (unat rng div 4096) 0 hs" and b: "va_base addr = base"
    and dis: "disjoint_ranges (map (live_pages base) live)"
    and eq: "page_set (map (live_pages base) live) = {..<unat rng div 4096} - page_set hs"
    using inv by (auto simp: va_inv_def)
  obtain p r where pr: "live_pages base (a, n) = (p, r)" by (cases "live_pages base (a, n)")
  have ok: "live_ok base (a, n)" using inv l by (auto simp: va_inv_def)
  then have un: "unat base \<le> unat a" "0 < unat n" "unat n \<le> 0xffffffff * 4096" by (auto simp: live_ok_def word_le_nat_alt)
  have pg: "unat (drop_bit PAGE_SHIFT (a - base)) = p"
    using pr un(1) by (simp add: live_pages_def drop_bit_eq_div unat_div unat_sub word_le_nat_alt)
  have r: "unat (bytes_to_pages n) = r" "0 < r" using un bytes_to_pages_nat [of n] pr by (auto simp: live_pages_def)
  have "pset (p, r) \<subseteq> page_set (map (live_pages base) live)"
    using pset_subset [of "live_pages base (a, n)" "map (live_pages base) live"] l unfolding pr [symmetric] by simp
  then have sub: "pset (p, r) \<subseteq> {..<unat rng div 4096} - page_set hs" by (simp add: eq)
  have "p + r - 1 \<in> pset (p, r)" using r(2) by simp
  then have "p + r - 1 < unat rng div 4096" using sub by blast
  then have le: "p + r \<le> unat rng div 4096" using r(2) by simp
  have "pset (p, r) \<inter> page_set hs = {}" using sub by blast
  from insert_coalesce_sound [OF sep _ r(2) le this] obtain hs' where ic: "insert_coalesce p r hs = Some hs'"
    and sep': "separated (unat rng div 4096) 0 hs'" and ps': "page_set hs' = pset (p, r) \<union> page_set hs" by auto
  obtain xs where wf: "va_wf (allocator addr)" and xs: "ranges (allocator addr) (hole_list addr) xs hs"
    and upd: "\<And>al' l' xs' hs'. ranges al' l' xs' hs' \<Longrightarrow> reshaped (allocator addr) xs al' xs' \<Longrightarrow>
      gen_rel (addr\<lparr>allocator := al', hole_list := l'\<rparr>) hs' cs"
    using gen_rel_holes [OF g] by blast
  have lim: "\<forall>p \<in> set hs. 0 < snd p \<and> fst p + snd p < 2 ^ 64"
    using separated_bounded [OF sep va_conf_pages [OF c]] by (simp add: bounded_def)
  have "unat (drop_bit PAGE_SHIFT (a - base)) + unat (bytes_to_pages n) < 2 ^ 64"
    unfolding pg r(1) using le va_conf_pages [OF c] by (rule le_less_trans)
  from va_gen_insert_refines(2) [OF wf xs this lim, unfolded pg r(1), OF ic room kz] obtain al' l' ys where
    ins: "va_gen_insert_and_coalesce kz (allocator addr) (hole_list addr) (drop_bit PAGE_SHIFT (a - base)) (bytes_to_pages n) =
        Some (Inr (al', l'))" "ranges al' l' ys hs'" "reshaped (allocator addr) xs al' ys" by blast
  have "va_gen_free kz addr a n = Some (addr\<lparr>allocator := al', hole_list := l'\<rparr>)"
    using ins(1) un(1) b by (simp add: va_gen_free_def va_gen_free_internal_def word_le_nat_alt)
  moreover have "va_inv base rng (addr\<lparr>allocator := al', hole_list := l'\<rparr>) (remove1 (a, n) live) hs' cs"
    using inv upd [OF ins(2,3)] sep' ps' sub disjoint_ranges_remove1 [OF dis l] set_remove1_subset [of "(a, n)" live]
    unfolding va_inv_def pr by (auto simp: eq)
  ultimately show ?thesis by blast
qed

lemma va_inv_claim:
  assumes inv: "va_inv base rng addr live hs cs" and n: "0 < n" "n \<le> 0x8000000000000000"
    and room: "va_room (allocator addr)" and kz: "fst kz \<and> snd kz"
  shows "\<exists>a' addr' cs'. va_gen_claim kz addr a n = Some (a', addr') \<and> va_inv base rng addr' live hs cs'"
proof -
  have g: "gen_rel addr hs cs" and bd: "bounded (2 ^ 64) cs" using inv by (auto simp: va_inv_def)
  let ?p = "drop_bit PAGE_SHIFT a" and ?r = "bytes_to_pages n"
  have un: "0 < unat n" "unat n \<le> 0x8000000000000000" using n by (auto simp: unat_gt_0 word_le_nat_alt)
  have "unat ?r = (unat n + 4095) div 4096" using bytes_to_pages_nat [of n] un by simp
  then have r: "0 < unat ?r" "unat ?r < 2 ^ 63" using un by (auto simp: div_less_iff_less_mult)
  have "unat ?p = unat a div 4096" by (simp add: drop_bit_eq_div unat_div)
  then have "unat ?p < 2 ^ 63" using unat_less_pow [of a] by (simp add: div_less_iff_less_mult)
  then have br: "unat ?p + unat ?r < 2 ^ 64" using r by simp
  obtain ys where wf: "va_wf (allocator addr)" and ys: "ranges (allocator addr) (claims_list addr) ys cs"
    and upd: "\<And>al' l' ys' cs'. ranges al' l' ys' cs' \<Longrightarrow> reshaped (allocator addr) ys al' ys' \<Longrightarrow>
      gen_rel (addr\<lparr>allocator := al', claims_list := l'\<rparr>) hs cs'"
    using gen_rel_claims [OF g] by blast
  note ref = va_gen_insert_refines [OF wf ys br bd [unfolded bounded_def]]
  have "\<exists>res. va_gen_claim_internal kz addr ?p ?r = Some res \<and>
      (\<forall>addr'. res = Inr addr' \<longrightarrow> (\<exists>cs'. va_inv base rng addr' live hs cs'))"
  proof (cases "insert_coalesce (unat ?p) (unat ?r) cs")
    case None
    then show ?thesis using ref(1) [OF None, of kz] by (simp add: va_gen_claim_internal_def)
  next
    case (Some cs')
    from ref(2) [OF Some room kz] obtain al' l' zs where
      ins: "va_gen_insert_and_coalesce kz (allocator addr) (claims_list addr) ?p ?r = Some (Inr (al', l'))"
        "ranges al' l' zs cs'" "reshaped (allocator addr) ys al' zs" by blast
    have "bounded (2 ^ 64) cs'" by (rule insert_coalesce_bounded [OF bd r(1) br Some])
    then have "va_inv base rng (addr\<lparr>allocator := al', claims_list := l'\<rparr>) live hs cs'"
      using inv upd [OF ins(2,3)] by (simp add: va_inv_def)
    then show ?thesis using ins(1) by (auto simp: va_gen_claim_internal_def)
  qed
  then show ?thesis using inv by (auto simp: va_gen_claim_def split: sum.splits)
qed

lemma va_reach_inv:
  assumes c: "va_conf base rng"
  shows "va_reach base rng addr live \<Longrightarrow> \<exists>hs cs. va_inv base rng addr live hs cs"
proof (induction rule: va_reach.induct)
  case (start kz addr0 addr)
  have 4: "4096 \<le> unat rng" using c by (simp add: va_conf_def)
  note i = va_gen_init_rel [OF start 4]
  have "0 < unat rng div 4096" using 4 by (simp add: div_greater_zero_iff)
  then have "va_inv base rng addr [] [(0, unat rng div 4096)] []" using i by (auto simp: va_inv_def)
  then show ?case by blast
next
  case (alloc addr live kzs n a addr')
  then obtain hs cs where inv: "va_inv base rng addr live hs cs" by blast
  show ?case
  proof (cases "0 < n \<and> n \<le> 0xffffffff * of_nat PAGE_SIZE")
    case True
    note al = va_inv_alloc [OF inv c, where n = n and kz = kzs]
    show ?thesis
    proof (cases "first_fit ((unat n + 4095) div 4096) hs")
      case None
      then show ?thesis using al(1) True alloc.hyps(2) inv by auto
    next
      case (Some q)
      then show ?thesis using al(2) [where p = "fst q" and hs' = "snd q"] True alloc.hyps(2) by fastforce
    qed
  next
    case False
    have "bytes_to_pages 0 = 0" by (simp add: bytes_to_pages_def)
    then have "a = INVALID_VA_GEN_ADDRESS \<and> addr' = addr"
      using False alloc.hyps(2) unfolding va_gen_alloc_page_aligned
      by (auto simp: va_gen_alloc_internal_def not_less split: if_splits)
    then show ?thesis using inv by auto
  qed
next
  case (free addr live a n kz addr')
  from free.IH obtain hs cs where "va_inv base rng addr live hs cs" by blast
  from va_inv_free [OF this c free.hyps(2,3,4)] free.hyps(5) show ?case by auto
next
  case (claim addr live n kz a a' addr')
  from claim.IH obtain hs cs where "va_inv base rng addr live hs cs" by blast
  from va_inv_claim [OF this claim.hyps(2-5), of a] claim.hyps(6) show ?case by auto
qed

section \<open>Properties\<close>

lemma va_live_ranges:
  assumes "va_reach base rng addr live" and "va_conf base rng"
  shows "(\<forall>l \<in> set live. base \<le> fst l \<and> 4096 dvd unat (fst l) - unat base \<and>
            unat (fst l) + unat (snd l) \<le> unat base + unat rng) \<and>
         (\<forall>i j. i < j \<longrightarrow> j < length live \<longrightarrow>
            pset (live_pages base (live ! i)) \<inter> pset (live_pages base (live ! j)) = {})"
proof -
  obtain hs cs where inv: "va_inv base rng addr live hs cs" using va_reach_inv assms by blast
  have "base \<le> fst l \<and> 4096 dvd unat (fst l) - unat base \<and> unat (fst l) + unat (snd l) \<le> unat base + unat rng"
    if l: "l \<in> set live" for l
  proof -
    obtain p r where pr: "live_pages base l = (p, r)" by (cases "live_pages base l")
    have ok: "live_ok base l" using inv l by (auto simp: va_inv_def)
    then have a: "unat base \<le> unat (fst l)" "unat (fst l) - unat base = 4096 * p" "unat (snd l) \<le> 4096 * r" "0 < r"
      using pr by (auto simp: live_ok_def word_le_nat_alt live_pages_def)
    have "pset (p, r) \<subseteq> page_set (map (live_pages base) live)"
      using pset_subset [of "live_pages base l" "map (live_pages base) live"] l by (simp add: pr [symmetric])
    then have "pset (p, r) \<subseteq> {..<unat rng div 4096}" using inv by (auto simp: va_inv_def)
    then have "p + r \<le> unat rng div 4096" using a(4) subsetD [of "pset (p, r)" _ "p + r - 1"] by force
    then have "4096 * (p + r) \<le> unat rng" by (metis mult.commute div_times_less_eq_dividend le_trans mult_le_mono1)
    then show ?thesis using ok a by (auto simp: live_ok_def)
  qed
  moreover have "pset (live_pages base (live ! i)) \<inter> pset (live_pages base (live ! j)) = {}"
    if "i < j" "j < length live" for i j
    using disjoint_ranges_pairwise [of "map (live_pages base) live" i j] that inv by (auto simp: va_inv_def)
  ultimately show ?thesis by blast
qed

text \<open>
  C5. Allocations are exclusive: in every state a generator reaches by allocating pages, giving
  allocations back and claiming ranges, the ranges it has allocated and not yet got back lie within the range
  it was set up with, start on page boundaries relative to its base, and no two of them share a page.
  (The range of a claim is not an allocation. When a range is given back or claimed there is memory for the
  node of its list; an allocation may find none.)
\<close>

theorem va_gen_exclusive:
  assumes "va_reach base rng addr live" and "va_conf base rng"
  shows "(\<forall>l \<in> set live. base \<le> fst l \<and> 4096 dvd unat (fst l) - unat base \<and>
            unat (fst l) + unat (snd l) \<le> unat base + unat rng) \<and>
         (\<forall>i j. i < j \<longrightarrow> j < length live \<longrightarrow>
            pset (live_pages base (live ! i)) \<inter> pset (live_pages base (live ! j)) = {})"
  using assms by (rule va_live_ranges)

text \<open>A generator in use, for the examples.\<close>

definition va_blank :: va_gen_addr where
  "va_blank = \<lparr>allocator = \<lparr>slab_shift = 0, nodes_in_slab = 0, slab_mask = 0, pp_slab_directory = [],
     num_slabs = 0, num_free_slabs = 0, free_list = 0\<rparr>, hole_list = 0, claims_list = 0, va_base = 0\<rparr>"

definition va_started :: va_gen_addr where
  "va_started = projr (the (va_gen_init (True, True) va_blank 0x4000000000000000 0x3f00000000000000))"

definition va_one_live :: va_gen_addr where
  "va_one_live = snd (the (va_gen_alloc (\<lambda>_. (True, True)) va_started 5000 (of_nat PAGE_SIZE)))"

lemma va_started_eq:
  "va_gen_init (True, True) va_blank 0x4000000000000000 0x3f00000000000000 = Some (Inr va_started)"
  by code_simp

lemma va_one_live_eq:
  "va_gen_alloc (\<lambda>_. (True, True)) va_started 5000 (of_nat PAGE_SIZE) = Some (0x4000000000000000, va_one_live)"
  by code_simp

lemma va_one_live_reach: "va_reach 0x4000000000000000 0x3f00000000000000 va_one_live [(0x4000000000000000, 5000)]"
  using va_reach.alloc [OF va_reach.start [OF va_started_eq] va_one_live_eq] by simp

lemma va_gen_conf: "va_conf 0x4000000000000000 0x3f00000000000000"
  by (simp add: va_conf_def)

definition va_two_live :: va_gen_addr where
  "va_two_live = snd (the (va_gen_alloc (\<lambda>_. (True, True)) va_one_live 100 (of_nat PAGE_SIZE)))"

lemma va_two_live_eq:
  "va_gen_alloc (\<lambda>_. (True, True)) va_one_live 100 (of_nat PAGE_SIZE) = Some (0x4000000000002000, va_two_live)"
  by code_simp

lemma va_two_live_reach:
  "va_reach 0x4000000000000000 0x3f00000000000000 va_two_live [(0x4000000000002000, 100), (0x4000000000000000, 5000)]"
  using va_reach.alloc [OF va_one_live_reach va_two_live_eq] by simp

theorem va_gen_exclusive_witness:
  "\<exists>live. va_reach 0x4000000000000000 0x3f00000000000000 va_two_live live \<and> va_conf 0x4000000000000000 0x3f00000000000000 \<and>
     live = [(0x4000000000002000, 100), (0x4000000000000000, 5000)] \<and>
     unat (fst (live ! 0)) + unat (snd (live ! 0)) \<le> unat (0x4000000000000000 :: u64) + unat (0x3f00000000000000 :: u64) \<and>
     pset (live_pages 0x4000000000000000 (live ! 0)) \<inter> pset (live_pages 0x4000000000000000 (live ! 1)) = {}"
proof -
  note ex = va_gen_exclusive [OF va_two_live_reach va_gen_conf]
  have "unat (0x4000000000002000 :: u64) + unat (100 :: u64) \<le> unat (0x4000000000000000 :: u64) + unat (0x3f00000000000000 :: u64)"
    using conjunct1 [OF ex] by simp
  moreover have "pset (live_pages 0x4000000000000000 (0x4000000000002000, 100)) \<inter> pset (live_pages 0x4000000000000000 (0x4000000000000000, 5000)) = {}"
    using conjunct2 [OF ex, rule_format, of 0 1] by simp
  ultimately show ?thesis using va_two_live_reach va_gen_conf
    by (intro exI [of _ "[(0x4000000000002000, 100), (0x4000000000000000, 5000)]"] conjI) (simp_all del: unat_numeral)
qed

lemma va_alloc_complete_aux:
  assumes r: "va_reach base rng addr live" and c: "va_conf base rng"
    and n: "0 < n" "n \<le> 0xffffffff * of_nat PAGE_SIZE"
  shows "\<exists>a addr'. va_gen_alloc kz addr n (of_nat PAGE_SIZE) = Some (a, addr') \<and>
    (a \<noteq> INVALID_VA_GEN_ADDRESS \<longleftrightarrow>
      (\<exists>p. pset (p, (unat n + 4095) div 4096) \<subseteq> {..<unat rng div 4096} - page_set (map (live_pages base) live)))"
proof -
  obtain hs cs where inv: "va_inv base rng addr live hs cs" using va_reach_inv r c by blast
  let ?r = "(unat n + 4095) div 4096"
  have sep: "separated (unat rng div 4096) 0 hs" using inv by (simp add: va_inv_def)
  have "page_set hs \<subseteq> {..<unat rng div 4096}" using separated_bounds [OF sep] by blast
  then have free: "{..<unat rng div 4096} - page_set (map (live_pages base) live) = page_set hs"
    using inv by (auto simp: va_inv_def)
  have "0 < unat n" using n(1) by (simp add: unat_gt_0)
  then have pos: "0 < ?r" by (simp add: div_greater_zero_iff)
  note cmp = first_fit_complete [OF sep pos]
  show ?thesis unfolding free cmp
    using va_inv_alloc [OF inv c n, where kz = kz] by (cases "first_fit ?r hs") auto
qed

text \<open>
  C28. Page-aligned allocation always returns, and it fails exactly when the request does not fit: it
  yields an address if and only if some run of consecutive pages long enough for the
  request is outside of all live ranges.
\<close>

theorem va_gen_alloc_complete:
  assumes "va_reach base rng addr live" and "va_conf base rng" and "0 < n" and "n \<le> 0xffffffff * of_nat PAGE_SIZE"
  shows "\<exists>a addr'. va_gen_alloc kz addr n (of_nat PAGE_SIZE) = Some (a, addr') \<and>
    (a \<noteq> INVALID_VA_GEN_ADDRESS \<longleftrightarrow>
      (\<exists>p. pset (p, (unat n + 4095) div 4096) \<subseteq> {..<unat rng div 4096} - page_set (map (live_pages base) live)))"
  by (rule va_alloc_complete_aux [OF assms])

theorem va_gen_alloc_complete_witness:
  "\<exists>a addr'. va_gen_alloc (\<lambda>_. (True, True)) va_one_live 4096 (of_nat PAGE_SIZE) = Some (a, addr') \<and>
    (a \<noteq> INVALID_VA_GEN_ADDRESS \<longleftrightarrow>
      (\<exists>p. pset (p, (unat (4096 :: u64) + 4095) div 4096) \<subseteq>
         {..<unat (0x3f00000000000000 :: u64) div 4096} -
         page_set (map (live_pages 0x4000000000000000) [(0x4000000000000000, 5000)])))"
  by (rule va_gen_alloc_complete [OF va_one_live_reach va_gen_conf]) simp_all

text \<open>
  Freeing a live range always succeeds, without running into the \<open>BUG_ON\<close> of the free path, as long as
  memory for a list node can be had; and the range can be allocated again right after.
\<close>

theorem va_gen_free_total:
  assumes r: "va_reach base rng addr live" and c: "va_conf base rng" and l: "(a, n) \<in> set live"
    and room: "va_room (allocator addr)" and kz: "fst kz \<and> snd kz"
  shows "\<exists>addr'. va_gen_free kz addr a n = Some addr' \<and>
    (\<exists>a' addr''. va_gen_alloc kzs addr' n (of_nat PAGE_SIZE) = Some (a', addr'') \<and> a' \<noteq> INVALID_VA_GEN_ADDRESS)"
proof -
  obtain hs cs where inv: "va_inv base rng addr live hs cs" using va_reach_inv r c by blast
  obtain addr' where f: "va_gen_free kz addr a n = Some addr'" using va_inv_free [OF inv c l room kz] by blast
  have r': "va_reach base rng addr' (remove1 (a, n) live)" by (rule va_reach.free [OF r l room kz f])
  have ok: "live_ok base (a, n)" using inv l by (auto simp: va_inv_def)
  then have n: "0 < n" "n \<le> 0xffffffff * of_nat PAGE_SIZE" 
    by (auto simp: live_ok_def word_le_nat_alt word_less_nat_alt)
  have dis: "disjoint_ranges (map (live_pages base) live)" using inv by (simp add: va_inv_def)
  have "pset (live_pages base (a, n)) \<subseteq> page_set (map (live_pages base) live)" using l by (auto intro!: pset_subset)
  also have "\<dots> \<subseteq> {..<unat rng div 4096}" using inv by (auto simp: va_inv_def)
  finally have "pset (live_pages base (a, n)) \<subseteq>
      {..<unat rng div 4096} - page_set (map (live_pages base) (remove1 (a, n) live))"
    using disjoint_ranges_remove1 [OF dis l] by auto
  moreover have "live_pages base (a, n) = (fst (live_pages base (a, n)), (unat n + 4095) div 4096)"
    by (simp add: live_pages_def)
  ultimately have "\<exists>p. pset (p, (unat n + 4095) div 4096) \<subseteq>
      {..<unat rng div 4096} - page_set (map (live_pages base) (remove1 (a, n) live))" by metis
  then show ?thesis using va_alloc_complete_aux [OF r' c n, of kzs] f by auto
qed

theorem va_gen_free_total_witness:
  "\<exists>addr'. va_gen_free (True, True) va_one_live 0x4000000000000000 5000 = Some addr' \<and>
    (\<exists>a' addr''. va_gen_alloc (\<lambda>_. (True, True)) addr' 5000 (of_nat PAGE_SIZE) = Some (a', addr'') \<and>
      a' \<noteq> INVALID_VA_GEN_ADDRESS)"
proof (rule va_gen_free_total [OF va_one_live_reach va_gen_conf])
  have "num_slabs (allocator va_one_live) = 1" by code_simp
  then show "va_room (allocator va_one_live)" by (simp add: va_room_def)
qed simp_all

text \<open>
  Claims are not exclusive: a claim that touches the end of an earlier claim is accepted even
  when it runs into the next one. With the pages 0 to 9 and 20 to 24 claimed, claiming 10 to 29 succeeds.
\<close>

theorem va_gen_claim_overlap:
  "\<exists>s1 s2 s3. va_gen_claim (True, True) va_started 0 0xa000 = Some (0, s1) \<and>
     va_gen_claim (True, True) s1 0x14000 0x5000 = Some (0x14000, s2) \<and>
     va_gen_claim (True, True) s2 0xa000 0x14000 = Some (0xa000, s3)"
proof -
  define s1 where "s1 = snd (the (va_gen_claim (True, True) va_started 0 0xa000))"
  define s2 where "s2 = snd (the (va_gen_claim (True, True) s1 0x14000 0x5000))"
  have "map_option fst (va_gen_claim (True, True) va_started 0 0xa000) = Some 0" by code_simp
  moreover have "map_option fst (va_gen_claim (True, True) s1 0x14000 0x5000) = Some 0x14000"
    unfolding s1_def by code_simp
  moreover have "map_option fst (va_gen_claim (True, True) s2 0xa000 0x14000) = Some 0xa000"
    unfolding s2_def s1_def by code_simp
  ultimately show ?thesis by (auto simp: s1_def s2_def)
qed

text \<open>
  Freeing the middle one of three adjacent claims corrupts the list of claims: the node split off
  gets the wrong length. With the pages 100 to 129 claimed in three parts and the middle part freed, the pages
  125 to 129 can be claimed a second time although the claim of 120 to 129 still stands.
\<close>

theorem va_gen_free_claim_split:
  "\<exists>s1 s2 s3 s4 s5. va_gen_claim (True, True) va_started 0x64000 0xa000 = Some (0x64000, s1) \<and>
     va_gen_claim (True, True) s1 0x6e000 0xa000 = Some (0x6e000, s2) \<and>
     va_gen_claim (True, True) s2 0x78000 0xa000 = Some (0x78000, s3) \<and>
     va_gen_free (True, True) s3 0x6e000 0xa000 = Some s4 \<and>
     va_gen_claim (True, True) s4 0x7d000 0x5000 = Some (0x7d000, s5)"
proof -
  define s1 where "s1 = snd (the (va_gen_claim (True, True) va_started 0x64000 0xa000))"
  define s2 where "s2 = snd (the (va_gen_claim (True, True) s1 0x6e000 0xa000))"
  define s3 where "s3 = snd (the (va_gen_claim (True, True) s2 0x78000 0xa000))"
  define s4 where "s4 = the (va_gen_free (True, True) s3 0x6e000 0xa000)"
  have "map_option fst (va_gen_claim (True, True) va_started 0x64000 0xa000) = Some 0x64000" by code_simp
  moreover have "map_option fst (va_gen_claim (True, True) s1 0x6e000 0xa000) = Some 0x6e000"
    unfolding s1_def by code_simp
  moreover have "map_option fst (va_gen_claim (True, True) s2 0x78000 0xa000) = Some 0x78000"
    unfolding s2_def s1_def by code_simp
  moreover have "va_gen_free (True, True) s3 0x6e000 0xa000 \<noteq> None"
    unfolding s3_def s2_def s1_def by code_simp
  moreover have "map_option fst (va_gen_claim (True, True) s4 0x7d000 0x5000) = Some 0x7d000"
    unfolding s4_def s3_def s2_def s1_def by code_simp
  ultimately show ?thesis by (auto simp: s1_def s2_def s3_def s4_def)
qed

text \<open>
  An alignment above the page size is not honoured: with two pages in use, one page asked for at an
  alignment of sixteen pages comes back right behind them.
\<close>

theorem va_gen_alloc_unaligned:
  "map_option fst (va_gen_alloc (\<lambda>_. (True, True)) va_one_live 4096 0x10000) = Some 0x4000000000002000 \<and>
   \<not> 0x10000 dvd unat (0x4000000000002000 :: u64)"
proof
  show "map_option fst (va_gen_alloc (\<lambda>_. (True, True)) va_one_live 4096 0x10000) = Some 0x4000000000002000"
    by code_simp
qed simp

end
