(* ===== verification/Scif_Ports.thy ===== *)
theory Scif_Ports
  imports Scif_Prelude
begin

text \<open>
  The port reservation mechanism (\<open>micscif_ports.c\<close>): a bit array with one bit for each of the
  65536 ports, a set bit meaning that the port is available. The static variables of the file are
  the fields of a record. The spin lock makes each operation atomic, so each operation is one
  function on the record.
\<close>

section \<open>State\<close>

abbreviation (input) SCIF_PORT_BASE :: nat where "SCIF_PORT_BASE \<equiv> 0"
abbreviation (input) SCIF_PORT_RSVD :: nat where "SCIF_PORT_RSVD \<equiv> 1088"
abbreviation (input) BITS_PR_PORT :: nat where "BITS_PR_PORT \<equiv> 64"
abbreviation (input) PORTS_ARRAY_SIZE :: nat where "PORTS_ARRAY_SIZE \<equiv> 1024"

record scif_ports =
  init_array :: bool
  first_free :: u16
  port_bits :: "u64 list"
  port_rsvd :: u64
  port_free :: u64
  port_err :: u64

text \<open>The static initialisers.\<close>

definition scif_ports_static :: scif_ports where
  "scif_ports_static = \<lparr>init_array = True, first_free = 0, port_bits = replicate PORTS_ARRAY_SIZE 0,
     port_rsvd = 0, port_free = 0, port_err = 0\<rparr>"

section \<open>Bit handlers\<close>

text \<open>
  The variant compiled by default is inline assembly over the instructions \<open>bsf\<close> (index of
  the lowest set bit), \<open>btr\<close> and \<open>bts\<close> (copy a bit to the carry flag, then reset or set it; the
  bit offset is taken modulo 64). Bits are numbered from 1 in the arguments and results.
\<close>

definition bsfq :: "u64 \<Rightarrow> nat" where
  "bsfq w = (case find (bit w) [0..<64] of Some i \<Rightarrow> i | None \<Rightarrow> 64)"

definition btrq :: "nat \<Rightarrow> u64 \<Rightarrow> bool \<times> u64" where
  "btrq i w = (bit w (i mod 64), unset_bit (i mod 64) w)"

definition btsq :: "nat \<Rightarrow> u64 \<Rightarrow> u64" where
  "btsq i w = set_bit (i mod 64) w"

definition scif_ffsclr :: "u64 \<Rightarrow> nat \<times> u64" where
  "scif_ffsclr w =
     (if w = 0 then (0, w)
      else (let big_bit = bsfq w; field = snd (btrq big_bit w) in (big_bit + 1, field)))"

definition scif_clrbit :: "u64 \<Rightarrow> u16 \<Rightarrow> u16 \<times> u64" where
  "scif_clrbit w b =
     (let big_bit = unat (ucast b - 1 :: u64); (avl, field) = btrq big_bit w
      in (if avl then b else 0, field))"

definition scif_setbit :: "u64 \<Rightarrow> u16 \<Rightarrow> u64" where
  "scif_setbit w b = btsq (unat (ucast b - 1 :: u64)) w"

text \<open>The alternative variant of the same file, in C.\<close>

definition scif_ffsclr_c :: "u64 \<Rightarrow> nat \<times> u64" where
  "scif_ffsclr_c w =
     (let b = (if w = 0 then 0 else bsfq w + 1)
      in (b, if b \<noteq> 0 then w AND NOT (push_bit (b - 1) 1) else w))"

definition scif_clrbit_c :: "u64 \<Rightarrow> u16 \<Rightarrow> u16 \<times> u64" where
  "scif_clrbit_c w b =
     (let msk = push_bit (unat b - 1) 1 in if w AND msk \<noteq> 0 then (b, w AND NOT msk) else (0, w))"

definition scif_setbit_c :: "u64 \<Rightarrow> u16 \<Rightarrow> u64" where
  "scif_setbit_c w b = w OR push_bit (unat b - 1) 1"

section \<open>Operations\<close>

definition init_scif_array :: "scif_ports \<Rightarrow> scif_ports" where
  "init_scif_array s =
     (if init_array s then
        s\<lparr>port_bits := (let bs = replicate PORTS_ARRAY_SIZE (NOT 0)
                        in if SCIF_PORT_BASE = 0 then bs[0 := bs ! 0 XOR 1] else bs),
          first_free := of_nat (SCIF_PORT_RSVD div BITS_PR_PORT),
          port_rsvd := 0, port_free := 0, port_err := 0, init_array := False\<rparr>
      else s)"

definition rsrv_scif_port :: "u16 \<Rightarrow> scif_ports \<Rightarrow> u16 \<times> scif_ports" where
  "rsrv_scif_port port s =
     (if port = 0 then (0, s\<lparr>port_err := port_err s + 1\<rparr>)
      else
        (let s = (if init_array s then init_scif_array s else s);
             port = port - of_nat SCIF_PORT_BASE;
             port_ix = unat port div BITS_PR_PORT;
             (b, w) = scif_clrbit (port_bits s ! port_ix) (1 + of_nat (unat port mod BITS_PR_PORT));
             s = s\<lparr>port_bits := (port_bits s)[port_ix := w]\<rparr>
         in if b \<noteq> 0
            then (of_nat (unat b - 1 + BITS_PR_PORT * port_ix + SCIF_PORT_BASE),
                  s\<lparr>port_rsvd := port_rsvd s + 1\<rparr>)
            else (0, s\<lparr>port_err := port_err s + 1\<rparr>)))"

text \<open>The loop that moves \<open>first_free\<close> past exhausted words.\<close>

function skip_full :: "u64 list \<Rightarrow> u16 \<Rightarrow> u16" where
  "skip_full bs ff =
     (if unat ff < PORTS_ARRAY_SIZE \<and> bs ! unat ff = 0 then skip_full bs (ff + 1) else ff)"
  by pat_completeness auto

lemma unat_u16_Suc: "unat (ff :: u16) < 1024 \<Longrightarrow> unat (ff + 1) = Suc (unat ff)"
  by (simp add: unat_word_ariths)

termination skip_full
  by (relation "measure (\<lambda>(bs, ff). PORTS_ARRAY_SIZE - unat ff)") (auto simp: unat_u16_Suc)

declare skip_full.simps [simp del]

definition get_scif_port :: "scif_ports \<Rightarrow> u16 \<times> scif_ports" where
  "get_scif_port s =
     (let s = (if init_array s then init_scif_array s else s) in
      if unat (first_free s) = PORTS_ARRAY_SIZE then (0, s\<lparr>port_err := port_err s + 1\<rparr>)
      else
        (let ix = unat (first_free s);
             (b, w) = scif_ffsclr (port_bits s ! ix);
             s = s\<lparr>port_bits := (port_bits s)[ix := w]\<rparr>
         in if b \<noteq> 0
            then (of_nat (b - 1 + BITS_PR_PORT * ix + SCIF_PORT_BASE),
                  s\<lparr>first_free := skip_full (port_bits s) (first_free s), port_rsvd := port_rsvd s + 1\<rparr>)
            else (0, s\<lparr>port_err := port_err s + 1\<rparr>)))"

definition put_scif_port :: "u16 \<Rightarrow> scif_ports \<Rightarrow> scif_ports" where
  "put_scif_port port s =
     (if port = 0 then s\<lparr>port_err := port_err s + 1\<rparr>
      else
        (let port = port - of_nat SCIF_PORT_BASE;
             port_ix = unat port div BITS_PR_PORT;
             s = s\<lparr>port_bits := (port_bits s)[port_ix :=
                     scif_setbit (port_bits s ! port_ix) (1 + of_nat (unat port mod BITS_PR_PORT))]\<rparr>;
             s = (if unat port \<ge> SCIF_PORT_RSVD \<and> port_ix < unat (first_free s)
                  then s\<lparr>first_free := of_nat port_ix\<rparr> else s)
         in s\<lparr>port_free := port_free s + 1\<rparr>))"

section \<open>The bit handlers\<close>

lemma bsfq_props:
  assumes "w \<noteq> 0" shows "bsfq w < 64" and "bit w (bsfq w)" and "\<And>i. i < bsfq w \<Longrightarrow> \<not> bit w i"
proof -
  obtain n where "bit w n" using assms by (auto simp: bit_eq_iff)
  then have "n < 64" "bit w n" using bit_imp_le_length [of w n] by auto
  then have "find (bit w) [0..<64] \<noteq> None" by (auto simp: find_None_iff)
  then obtain i where i: "find (bit w) [0..<64] = Some i" by blast
  then have "bsfq w = i" by (simp add: bsfq_def)
  with i show "bsfq w < 64" "bit w (bsfq w)" "\<And>i. i < bsfq w \<Longrightarrow> \<not> bit w i"
    by (auto simp: find_Some_iff)
qed

lemma scif_ffsclr_eq:
  "w \<noteq> 0 \<Longrightarrow> scif_ffsclr w = (bsfq w + 1, unset_bit (bsfq w) w)"
  using bsfq_props(1) [of w] by (simp add: scif_ffsclr_def btrq_def Let_def)

lemma unat_bit_arg: "i < 64 \<Longrightarrow> unat (ucast (1 + of_nat i :: u16) - 1 :: u64) = i"
proof -
  assume i: "i < 64"
  then have "unat (1 + of_nat i :: u16) = i + 1" by (simp add: unat_word_ariths unat_of_nat)
  then have "unat (ucast (1 + of_nat i :: u16) :: u64) = i + 1" by (simp add: unat_ucast_up)
  then show ?thesis by (simp add: unat_minus_one unat_gt_0 [symmetric])
qed

lemma scif_clrbit_eq:
  "i < 64 \<Longrightarrow> scif_clrbit w (1 + of_nat i) = (if bit w i then 1 + of_nat i else 0, unset_bit i w)"
  by (simp add: scif_clrbit_def btrq_def unat_bit_arg)

lemma scif_setbit_eq: "i < 64 \<Longrightarrow> scif_setbit w (1 + of_nat i) = set_bit i w"
  by (simp add: scif_setbit_def btsq_def unat_bit_arg)


section \<open>The set of available ports\<close>

definition port_avail :: "u64 list \<Rightarrow> u16 set" where
  "port_avail bs = {p. bit (bs ! (unat p div 64)) (unat p mod 64)}"

text \<open>What the array stands for: before the first use all ports but port 0 are available.\<close>

definition ports_free :: "scif_ports \<Rightarrow> u16 set" where
  "ports_free s = (if init_array s then UNIV - {0} else port_avail (port_bits s))"

definition ports_inv :: "scif_ports \<Rightarrow> bool" where
  "ports_inv s \<longleftrightarrow> length (port_bits s) = 1024 \<and>
     (\<not> init_array s \<longrightarrow> 0 \<notin> port_avail (port_bits s) \<and>
        17 \<le> unat (first_free s) \<and> unat (first_free s) \<le> 1024 \<and>
        (\<forall>p \<in> port_avail (port_bits s). 1088 \<le> unat p \<longrightarrow> unat (first_free s) \<le> unat p div 64))"

lemma u16_div_64: "unat (p :: u16) div 64 < 1024"
  using unat_less_pow [of p] by (simp add: less_mult_imp_div_less)

lemma u16_eqI: "unat (p :: u16) div 64 = unat (q :: u16) div 64 \<Longrightarrow> unat p mod 64 = unat q mod 64 \<Longrightarrow> p = q"
  by (metis div_mult_mod_eq word_unat_eq_iff)

lemma port_avail_clear:
  assumes "length bs = 1024"
  shows "port_avail (bs[unat p div 64 := unset_bit (unat p mod 64) (bs ! (unat p div 64))]) = port_avail bs - {p}"
  using assms u16_div_64
  by (auto simp: port_avail_def nth_list_update bit_unset_bit_iff dest: u16_eqI)

lemma port_avail_set:
  assumes "length bs = 1024"
  shows "port_avail (bs[unat p div 64 := set_bit (unat p mod 64) (bs ! (unat p div 64))]) = port_avail bs \<union> {p}"
  using assms u16_div_64
  by (auto simp: port_avail_def nth_list_update bit_set_bit_iff dest: u16_eqI)

lemma init_scif_array_avail:
  "init_array s \<Longrightarrow> port_avail (port_bits (init_scif_array s)) = UNIV - {0}"
  using u16_div_64
  by (auto simp: port_avail_def init_scif_array_def nth_list_update bit_not_iff bit_xor_iff bit_1_iff
      word_unat_eq_iff)

lemma init_scif_array_inv [intro]: "ports_inv s \<Longrightarrow> ports_inv (init_scif_array s)"
proof (cases "init_array s")
  case True
  assume "ports_inv s"
  have "17 \<le> unat p div 64" if "1088 \<le> unat p" for p :: u16 using div_le_mono [OF that, of 64] by simp
  then show ?thesis using init_scif_array_avail [OF True] True
    by (auto simp: ports_inv_def) (simp_all add: init_scif_array_def)
qed (simp add: init_scif_array_def)

lemma init_scif_array_free: "ports_free (init_scif_array s) = ports_free s"
proof (cases "init_array s")
  case True
  then have "\<not> init_array (init_scif_array s)" by (simp add: init_scif_array_def)
  then show ?thesis using True init_scif_array_avail by (simp add: ports_free_def)
qed (simp add: init_scif_array_def)

lemma init_array_done: "\<not> init_array (if init_array s then init_scif_array s else s)"
  by (simp add: init_scif_array_def)

definition ports_ready :: "scif_ports \<Rightarrow> scif_ports" where
  "ports_ready s = (if init_array s then init_scif_array s else s)"

lemma ports_ready:
  "ports_inv s \<Longrightarrow> ports_inv (ports_ready s)" "ports_free (ports_ready s) = ports_free s"
  "\<not> init_array (ports_ready s)" "init_array s \<Longrightarrow> first_free (ports_ready s) = 17"
  "\<not> init_array s \<Longrightarrow> ports_ready s = s"
  by (auto simp: ports_ready_def init_scif_array_free) (simp_all add: init_scif_array_def)

lemma ports_ready_avail: "port_avail (port_bits (ports_ready s)) = ports_free s"
  using ports_ready(2,3) [of s] by (simp add: ports_free_def [of "ports_ready s"])


lemma ports_free_0: "ports_inv s \<Longrightarrow> 0 \<notin> ports_free s"
  by (auto simp: ports_inv_def ports_free_def)

section \<open>What each operation does to the set of available ports\<close>

lemma port_number: "of_nat (unat (1 + of_nat (unat (p :: u16) mod 64) :: u16) - 1 + 64 * (unat p div 64)) = p"
proof -
  have "unat (1 + of_nat (unat p mod 64) :: u16) = unat p mod 64 + 1"
    by (simp add: unat_word_ariths unat_of_nat)
  then show ?thesis by (simp add: mod_mult_div_eq)
qed

lemma rsrv_scif_port_eq:
  assumes "p \<noteq> 0"
  shows "rsrv_scif_port p s =
    (let t = ports_ready s;
         t' = t\<lparr>port_bits := (port_bits t)[unat p div 64 := unset_bit (unat p mod 64) (port_bits t ! (unat p div 64))]\<rparr>
     in if p \<in> port_avail (port_bits t) then (p, t'\<lparr>port_rsvd := port_rsvd t' + 1\<rparr>)
        else (0, t'\<lparr>port_err := port_err t' + 1\<rparr>))"
proof -
  have nz: "(1 + of_nat (unat p mod 64) :: u16) \<noteq> 0"
    by (simp add: word_unat_eq_iff unat_word_ariths unat_of_nat)
  show ?thesis
    unfolding rsrv_scif_port_def ports_ready_def [symmetric]
    using assms(1) nz port_number [of p]
    by (simp add: Let_def scif_clrbit_eq port_avail_def split: prod.split)
qed

lemma ports_inv_shrink:
  assumes "ports_inv t" and "\<not> init_array t" and "length (port_bits t') = 1024"
    and "first_free t' = first_free t" and "port_avail (port_bits t') \<subseteq> port_avail (port_bits t)"
  shows "ports_inv t'"
  using assms by (auto simp: ports_inv_def)

lemma rsrv_scif_port_spec:
  assumes inv: "ports_inv s" and r: "rsrv_scif_port p s = (q, s')"
  shows "ports_inv s'"
    and "p \<in> ports_free s \<Longrightarrow> q = p \<and> ports_free s' = ports_free s - {p}"
    and "p \<notin> ports_free s \<Longrightarrow> q = 0 \<and> ports_free s' = ports_free s"
proof -
  let ?t = "ports_ready s"
  have t: "ports_inv ?t" "\<not> init_array ?t" "port_avail (port_bits ?t) = ports_free s"
    using ports_ready [of s] ports_ready_avail inv by auto
  have len: "length (port_bits ?t) = 1024" using t(1) by (simp add: ports_inv_def)
  have "ports_inv s' \<and> (if p \<in> ports_free s then q = p \<and> ports_free s' = ports_free s - {p}
      else q = 0 \<and> ports_free s' = ports_free s)"
  proof (cases "p = 0")
    case True
    then show ?thesis using r inv ports_free_0 [OF inv]
      by (auto simp: rsrv_scif_port_def ports_inv_def ports_free_def)
  next
    case False
    have qs: "q = fst (rsrv_scif_port p s)" "s' = snd (rsrv_scif_port p s)" using r by simp_all
    have bits: "port_bits s' = (port_bits ?t)[unat p div 64 := unset_bit (unat p mod 64) (port_bits ?t ! (unat p div 64))]"
      and s': "\<not> init_array s'" "first_free s' = first_free ?t" and q: "q = (if p \<in> ports_free s then p else 0)"
      unfolding qs using t(2,3) by (simp_all add: rsrv_scif_port_eq [OF False] Let_def)
    have av: "port_avail (port_bits s') = ports_free s - {p}"
      unfolding bits using port_avail_clear [OF len] t(3) by simp
    have "ports_inv s'"
      by (rule ports_inv_shrink [OF t(1,2)]) (use bits len s' av t(3) in auto)
    then show ?thesis using av q s'(1) by (simp add: ports_free_def [of s'])
  qed
  then show "ports_inv s'"
    and "p \<in> ports_free s \<Longrightarrow> q = p \<and> ports_free s' = ports_free s - {p}"
    and "p \<notin> ports_free s \<Longrightarrow> q = 0 \<and> ports_free s' = ports_free s" by auto
qed

lemma put_scif_port_eq:
  assumes "p \<noteq> 0"
  shows "put_scif_port p s =
    s\<lparr>port_bits := (port_bits s)[unat p div 64 := set_bit (unat p mod 64) (port_bits s ! (unat p div 64))],
      first_free := (if 1088 \<le> unat p \<and> unat p div 64 < unat (first_free s) then of_nat (unat p div 64) else first_free s),
      port_free := port_free s + 1\<rparr>"
  using assms by (simp add: put_scif_port_def Let_def scif_setbit_eq)

lemma put_scif_port_spec:
  assumes inv: "ports_inv s"
  shows "ports_inv (put_scif_port p s)"
    and "ports_free (put_scif_port p s) = (if p = 0 then ports_free s else ports_free s \<union> {p})"
proof -
  have len: "length (port_bits s) = 1024" using inv by (simp add: ports_inv_def)
  have ix: "unat (of_nat (unat p div 64) :: u16) = unat p div 64"
    using u16_div_64 [of p] by (simp add: unat_of_nat)
  have ge: "17 \<le> unat p div 64" if "1088 \<le> unat p" using div_le_mono [OF that, of 64] by simp
  show "ports_inv (put_scif_port p s)"
  proof (cases "p = 0")
    case False
    then show ?thesis using inv u16_div_64 [of p] ge port_avail_set [OF len, of p] ix
      by (auto simp: put_scif_port_eq [OF False] ports_inv_def)
  qed (use inv in \<open>simp add: put_scif_port_def ports_inv_def\<close>)
  show "ports_free (put_scif_port p s) = (if p = 0 then ports_free s else ports_free s \<union> {p})"
  proof (cases "p = 0")
    case False
    then show ?thesis using port_avail_set [OF len, of p]
      by (auto simp: put_scif_port_eq [OF False] ports_free_def)
  qed (simp add: put_scif_port_def ports_free_def)
qed


lemma skip_full_props:
  assumes "unat ff \<le> 1024"
  shows "unat ff \<le> unat (skip_full bs ff)" and "unat (skip_full bs ff) \<le> 1024"
    and "\<And>i. unat ff \<le> i \<Longrightarrow> i < unat (skip_full bs ff) \<Longrightarrow> bs ! i = 0"
    and "unat (skip_full bs ff) < 1024 \<Longrightarrow> bs ! unat (skip_full bs ff) \<noteq> 0"
proof -
  have "unat ff \<le> unat (skip_full bs ff) \<and> unat (skip_full bs ff) \<le> 1024 \<and>
      (\<forall>i. unat ff \<le> i \<longrightarrow> i < unat (skip_full bs ff) \<longrightarrow> bs ! i = 0) \<and>
      (unat (skip_full bs ff) < 1024 \<longrightarrow> bs ! unat (skip_full bs ff) \<noteq> 0)"
    using assms
  proof (induction bs ff rule: skip_full.induct)
    case (1 bs ff)
    show ?case
    proof (cases "unat ff < 1024 \<and> bs ! unat ff = 0")
      case True
      let ?r = "unat (skip_full bs ff)"
      have "skip_full bs ff = skip_full bs (ff + 1)" using True by (subst skip_full.simps) simp
      moreover have "unat (ff + 1) = Suc (unat ff)" using True by (simp add: unat_u16_Suc)
      ultimately have IH: "Suc (unat ff) \<le> ?r \<and> ?r \<le> 1024 \<and>
          (\<forall>i. Suc (unat ff) \<le> i \<longrightarrow> i < ?r \<longrightarrow> bs ! i = 0) \<and> (?r < 1024 \<longrightarrow> bs ! ?r \<noteq> 0)"
        using "1.IH" [OF True] True by simp
      have "bs ! i = 0" if "unat ff \<le> i" "i < ?r" for i
        using IH that True by (cases "i = unat ff") auto
      with IH show ?thesis by simp
    next
      case False
      then have "skip_full bs ff = ff" by (subst skip_full.simps) auto
      then show ?thesis using False "1.prems" by auto
    qed
  qed
  then show "unat ff \<le> unat (skip_full bs ff)" "unat (skip_full bs ff) \<le> 1024"
    "\<And>i. unat ff \<le> i \<Longrightarrow> i < unat (skip_full bs ff) \<Longrightarrow> bs ! i = 0"
    "unat (skip_full bs ff) < 1024 \<Longrightarrow> bs ! unat (skip_full bs ff) \<noteq> 0" by blast+
qed

definition word_exhausted :: "scif_ports \<Rightarrow> bool" where
  "word_exhausted t \<longleftrightarrow> unat (first_free t) = 1024 \<or> port_bits t ! unat (first_free t) = 0"

definition lowest_port :: "scif_ports \<Rightarrow> u16" where
  "lowest_port t = of_nat (bsfq (port_bits t ! unat (first_free t)) + 64 * unat (first_free t))"

lemma lowest_port_nat:
  assumes "unat (first_free t) < 1024" and "port_bits t ! unat (first_free t) \<noteq> 0"
  shows "unat (lowest_port t) = bsfq (port_bits t ! unat (first_free t)) + 64 * unat (first_free t)"
    and "unat (lowest_port t) div 64 = unat (first_free t)"
    and "unat (lowest_port t) mod 64 = bsfq (port_bits t ! unat (first_free t))"
proof -
  let ?b = "bsfq (port_bits t ! unat (first_free t))"
  have b: "?b < 64" by (rule bsfq_props(1) [OF assms(2)])
  then have "?b + 64 * unat (first_free t) < 2 ^ 16" using assms(1) by simp
  then show eq: "unat (lowest_port t) = ?b + 64 * unat (first_free t)"
    unfolding lowest_port_def unat_of_nat by simp
  show "unat (lowest_port t) div 64 = unat (first_free t)" "unat (lowest_port t) mod 64 = ?b"
    unfolding eq using b by simp_all
qed

lemma get_scif_port_fail:
  assumes "word_exhausted (ports_ready s)" and "ports_inv s"
  shows "fst (get_scif_port s) = 0" and "ports_inv (snd (get_scif_port s))"
    and "ports_free (snd (get_scif_port s)) = ports_free s"
proof -
  let ?t = "ports_ready s"
  have same: "port_bits ?t ! unat (first_free ?t) = 0 \<Longrightarrow> (port_bits ?t)[unat (first_free ?t) := 0] = port_bits ?t"
    by (metis list_update_id)
  have "fst (get_scif_port s) = 0 \<and> port_bits (snd (get_scif_port s)) = port_bits ?t \<and>
      first_free (snd (get_scif_port s)) = first_free ?t \<and> init_array (snd (get_scif_port s)) = init_array ?t"
    using assms(1) same unfolding get_scif_port_def ports_ready_def [symmetric] word_exhausted_def
    by (auto simp: Let_def scif_ffsclr_def)
  then show "fst (get_scif_port s) = 0" "ports_inv (snd (get_scif_port s))"
    "ports_free (snd (get_scif_port s)) = ports_free s"
    using ports_ready [of s] assms(2) by (auto simp: ports_inv_def ports_free_def)
qed

lemma get_scif_port_ok:
  assumes ex: "\<not> word_exhausted (ports_ready s)" and inv: "ports_inv s"
  defines "p \<equiv> lowest_port (ports_ready s)"
  shows "fst (get_scif_port s) = p" and "p \<in> ports_free s" and "1088 \<le> unat p"
    and "ports_inv (snd (get_scif_port s))"
    and "ports_free (snd (get_scif_port s)) = ports_free s - {p}"
    and "\<And>q. q \<in> ports_free s \<Longrightarrow> 1088 \<le> unat q \<Longrightarrow> unat p \<le> unat q"
    and "\<not> init_array (snd (get_scif_port s))"
    and "unat (first_free (snd (get_scif_port s))) < 1024 \<Longrightarrow>
           port_bits (snd (get_scif_port s)) ! unat (first_free (snd (get_scif_port s))) \<noteq> 0"
proof -
  let ?t = "ports_ready s" and ?s' = "snd (get_scif_port s)"
  let ?ff = "unat (first_free ?t)"
  have t: "ports_inv ?t" "\<not> init_array ?t" "port_avail (port_bits ?t) = ports_free s"
    using ports_ready [of s] ports_ready_avail inv by auto
  have len: "length (port_bits ?t) = 1024" and ff: "17 \<le> ?ff" "?ff < 1024" and nz: "port_bits ?t ! ?ff \<noteq> 0"
    using t ex by (auto simp: ports_inv_def word_exhausted_def)
  note p = lowest_port_nat [OF ff(2) nz, folded p_def]
  let ?bits = "(port_bits ?t)[unat p div 64 := unset_bit (unat p mod 64) (port_bits ?t ! (unat p div 64))]"
  have eq: "get_scif_port s = (p, ?t\<lparr>port_bits := ?bits, first_free := skip_full ?bits (first_free ?t),
      port_rsvd := port_rsvd ?t + 1\<rparr>)"
    using nz ff(2) unfolding get_scif_port_def ports_ready_def [symmetric] p(2,3)
    by (simp add: Let_def scif_ffsclr_eq p_def lowest_port_def)
  then show "fst (get_scif_port s) = p" by simp
  show "1088 \<le> unat p" using ff(1) by (simp add: p(1))
  show mem: "p \<in> ports_free s"
    using bsfq_props(2) [OF nz] unfolding t(3) [symmetric] port_avail_def mem_Collect_eq p(2,3) .
  have av: "port_avail ?bits = ports_free s - {p}"
    using port_avail_clear [OF len, of p] t(3) by simp
  show ni: "\<not> init_array ?s'" using t(2) by (simp add: eq)
  have "port_bits ?s' = ?bits" by (simp add: eq)
  with av ni show "ports_free ?s' = ports_free s - {p}" by (simp add: ports_free_def [of ?s'])
  have sk: "?ff \<le> 1024" using ff by simp
  note skip = skip_full_props [OF sk, where bs = ?bits]
  then show "unat (first_free ?s') < 1024 \<Longrightarrow> port_bits ?s' ! unat (first_free ?s') \<noteq> 0" by (simp add: eq)
  have ge: "?ff \<le> unat q div 64" if "q \<in> ports_free s" "1088 \<le> unat q" for q
    using t that by (auto simp: ports_inv_def)
  have "unat (skip_full ?bits (first_free ?t)) \<le> unat q div 64"
    if "q \<in> port_avail ?bits" "1088 \<le> unat q" for q
  proof (rule ccontr)
    assume "\<not> ?thesis"
    then have "?bits ! (unat q div 64) = 0" using skip(3) ge av that by simp
    then show False using that(1) by (simp add: port_avail_def)
  qed
  then show "ports_inv ?s'" using t len skip(1,2) ff(1) av ports_free_0 [OF inv]
    by (simp add: eq ports_inv_def)
  show "unat p \<le> unat q" if q: "q \<in> ports_free s" "1088 \<le> unat q" for q
  proof (cases "unat q div 64 = ?ff")
    case True
    then have "bit (port_bits ?t ! ?ff) (unat q mod 64)" using q(1) unfolding t(3) [symmetric] port_avail_def by simp
    then have "bsfq (port_bits ?t ! ?ff) \<le> unat q mod 64" using bsfq_props(3) [OF nz] by (meson not_le)
    then show ?thesis unfolding p(1) True [symmetric] using mult_div_mod_eq [of 64 "unat q"] by linarith
  next
    case False
    then have "unat p div 64 < unat q div 64" using ge [OF q] p(2) by simp
    then show ?thesis by (metis div_le_mono leD nat_le_linear)
  qed
qed


section \<open>The interface the endpoint code uses\<close>

locale port_allocator =
  fixes invar :: "'s \<Rightarrow> bool"
    and avail :: "'s \<Rightarrow> u16 set"
    and reserve :: "u16 \<Rightarrow> 's \<Rightarrow> u16 \<times> 's"
    and acquire :: "'s \<Rightarrow> u16 \<times> 's"
    and release :: "u16 \<Rightarrow> 's \<Rightarrow> 's"
  assumes reserve_ok: "invar s \<Longrightarrow> p \<in> avail s \<Longrightarrow>
      \<exists>t. reserve p s = (p, t) \<and> invar t \<and> avail t = avail s - {p}"
    and reserve_fail: "invar s \<Longrightarrow> p \<notin> avail s \<Longrightarrow>
      \<exists>t. reserve p s = (0, t) \<and> invar t \<and> avail t = avail s"
    and acquire_cases: "invar s \<Longrightarrow> acquire s = (p, t) \<Longrightarrow>
      invar t \<and> (p = 0 \<and> avail t = avail s \<or> p \<in> avail s \<and> avail t = avail s - {p})"
    and release_adds: "invar s \<Longrightarrow> p \<noteq> 0 \<Longrightarrow> invar (release p s) \<and> avail (release p s) = avail s \<union> {p}"
    and zero_not_avail: "invar s \<Longrightarrow> 0 \<notin> avail s"

text \<open>
  A history of the allocator's clients: each successful call adds the port it returned to the
  ports held, and a client releases only ports that are held.
\<close>

datatype port_op = Reserve u16 | Acquire | Release u16

fun port_run ::
  "(u16 \<Rightarrow> 's \<Rightarrow> u16 \<times> 's) \<Rightarrow> ('s \<Rightarrow> u16 \<times> 's) \<Rightarrow> (u16 \<Rightarrow> 's \<Rightarrow> 's) \<Rightarrow> port_op list \<Rightarrow>
   's \<times> u16 list \<Rightarrow> 's \<times> u16 list" where
  "port_run rsv acq rel [] sh = sh"
| "port_run rsv acq rel (Reserve p # ops) (s, held) =
     (case rsv p s of (q, t) \<Rightarrow> port_run rsv acq rel ops (t, if q = 0 then held else q # held))"
| "port_run rsv acq rel (Acquire # ops) (s, held) =
     (case acq s of (q, t) \<Rightarrow> port_run rsv acq rel ops (t, if q = 0 then held else q # held))"
| "port_run rsv acq rel (Release p # ops) (s, held) =
     (if p \<in> set held then port_run rsv acq rel ops (rel p s, remove1 p held)
      else port_run rsv acq rel ops (s, held))"

context port_allocator
begin

definition exclusive :: "'s \<times> u16 list \<Rightarrow> bool" where
  "exclusive sh \<longleftrightarrow> invar (fst sh) \<and> distinct (snd sh) \<and> set (snd sh) \<inter> avail (fst sh) = {} \<and> 0 \<notin> set (snd sh)"

lemma exclusive_reserve:
  assumes "exclusive (s, held)" and "reserve p s = (q, t)"
  shows "exclusive (t, if q = 0 then held else q # held)"
proof (cases "p \<in> avail s")
  case True
  then show ?thesis using reserve_ok [of s p] assms by (auto simp: exclusive_def)
next
  case False
  then show ?thesis using reserve_fail [of s p] assms by (auto simp: exclusive_def)
qed

lemma exclusive_acquire:
  assumes "exclusive (s, held)" and "acquire s = (q, t)"
  shows "exclusive (t, if q = 0 then held else q # held)"
  using acquire_cases [of s q t] assms by (auto simp: exclusive_def)

lemma exclusive_release:
  assumes "exclusive (s, held)" and "p \<in> set held"
  shows "exclusive (release p s, remove1 p held)"
proof -
  have "p \<noteq> 0" using assms by (auto simp: exclusive_def)
  then show ?thesis using release_adds [of s p] assms by (auto simp: exclusive_def)
qed

lemma exclusive_run: "exclusive sh \<Longrightarrow> exclusive (port_run reserve acquire release ops sh)"
proof (induction ops arbitrary: sh)
  case (Cons a ops)
  obtain s held where "sh = (s, held)" by fastforce
  with Cons show ?case
    by (cases a) (auto split: prod.split dest: exclusive_reserve exclusive_acquire intro: exclusive_release)
qed simp

end

interpretation scif_port: port_allocator ports_inv ports_free rsrv_scif_port get_scif_port put_scif_port
proof unfold_locales
  fix s p assume "ports_inv s" and "p \<in> ports_free s"
  then show "\<exists>t. rsrv_scif_port p s = (p, t) \<and> ports_inv t \<and> ports_free t = ports_free s - {p}"
    using rsrv_scif_port_spec [of s p] by (cases "rsrv_scif_port p s") auto
next
  fix s p assume "ports_inv s" and "p \<notin> ports_free s"
  then show "\<exists>t. rsrv_scif_port p s = (0, t) \<and> ports_inv t \<and> ports_free t = ports_free s"
    using rsrv_scif_port_spec [of s p] by (cases "rsrv_scif_port p s") auto
next
  fix s p t assume inv: "ports_inv s" and g: "get_scif_port s = (p, t)"
  show "ports_inv t \<and> (p = 0 \<and> ports_free t = ports_free s \<or> p \<in> ports_free s \<and> ports_free t = ports_free s - {p})"
  proof (cases "word_exhausted (ports_ready s)")
    case True
    from get_scif_port_fail [OF True inv] g show ?thesis by simp
  next
    case False
    from get_scif_port_ok [OF False inv] g show ?thesis by simp
  qed
next
  fix s and p :: u16 assume "ports_inv s" and "p \<noteq> 0"
  then show "ports_inv (put_scif_port p s) \<and> ports_free (put_scif_port p s) = ports_free s \<union> {p}"
    using put_scif_port_spec [of s p] by simp
qed (rule ports_free_0)

lemma ports_inv_static: "ports_inv scif_ports_static"
  by (simp add: ports_inv_def scif_ports_static_def)


section \<open>When allocation finds a port\<close>

text \<open>
  The word at \<open>first_free\<close> has an available port, or there is no word left. Allocation and
  release keep this, and so does the reservation of a port below the dynamic range; the
  reservation of a port inside the dynamic range may not.
\<close>

definition ports_tight :: "scif_ports \<Rightarrow> bool" where
  "ports_tight s \<longleftrightarrow> (let t = ports_ready s in
     unat (first_free t) < 1024 \<longrightarrow> port_bits t ! unat (first_free t) \<noteq> 0)"

definition dynamic_free :: "scif_ports \<Rightarrow> u16 set" where
  "dynamic_free s = {p \<in> ports_free s. 1088 \<le> unat p}"

lemma tight_exhausted:
  assumes "ports_inv s" and "ports_tight s"
  shows "word_exhausted (ports_ready s) \<longleftrightarrow> dynamic_free s = {}"
proof
  let ?t = "ports_ready s"
  have t: "ports_inv ?t" "\<not> init_array ?t" "port_avail (port_bits ?t) = ports_free s"
    using ports_ready [of s] ports_ready_avail assms(1) by auto
  {
    assume "word_exhausted ?t"
    then have "unat (first_free ?t) = 1024" using assms(2) t(1,2)
      by (auto simp: word_exhausted_def ports_tight_def Let_def ports_inv_def)
    then have "\<not> unat (first_free ?t) \<le> unat p div 64" for p :: u16 using u16_div_64 [of p] by simp
    then show "dynamic_free s = {}" using t by (auto simp: dynamic_free_def ports_inv_def)
  next
    assume "dynamic_free s = {}"
    then show "word_exhausted ?t" using get_scif_port_ok(2,3) [OF _ assms(1)] by (auto simp: dynamic_free_def)
  }
qed

lemma tight_static: "ports_tight scif_ports_static"
  by (simp add: ports_tight_def ports_ready_def scif_ports_static_def init_scif_array_def Let_def)

lemma tight_get:
  assumes "ports_inv s" and "ports_tight s" shows "ports_tight (snd (get_scif_port s))"
proof (cases "word_exhausted (ports_ready s)")
  case False
  from get_scif_port_ok(7,8) [OF this assms(1)] show ?thesis
    by (simp add: ports_tight_def ports_ready(5) Let_def)
next
  case True
  let ?t = "ports_ready s"
  have ff: "unat (first_free ?t) = 1024" using True assms ports_ready [of s]
    by (auto simp: word_exhausted_def ports_tight_def Let_def ports_inv_def)
  then have "get_scif_port s = (0, ?t\<lparr>port_err := port_err ?t + 1\<rparr>)"
    unfolding get_scif_port_def ports_ready_def [symmetric] by (simp add: Let_def)
  then show ?thesis using ff ports_ready(3) [of s] by (simp add: ports_tight_def ports_ready(5) Let_def)
qed

lemma tight_put:
  assumes "ports_inv s" and "ports_tight s" and "\<not> init_array s" shows "ports_tight (put_scif_port p s)"
proof (cases "p = 0")
  case True
  then show ?thesis using assms by (simp add: ports_tight_def put_scif_port_def ports_ready_def Let_def)
next
  case False
  have len: "length (port_bits s) = 1024" using assms(1) by (simp add: ports_inv_def)
  have ix: "unat (of_nat (unat p div 64) :: u16) = unat p div 64"
    using u16_div_64 [of p] by (simp add: unat_of_nat)
  have nz: "set_bit n w \<noteq> 0" if "n < 64" for n and w :: u64
  proof
    assume "set_bit n w = 0"
    then have "\<not> bit (set_bit n w) n" by simp
    then show False using that by (simp add: bit_set_bit_iff)
  qed
  show ?thesis using assms len ix u16_div_64 [of p] nz [of "unat p mod 64"]
    by (auto simp: ports_tight_def put_scif_port_eq [OF False] ports_ready(5) nth_list_update Let_def)
qed

lemma tight_rsrv_low:
  assumes "ports_inv s" and "ports_tight s" and "unat p < 1088" shows "ports_tight (snd (rsrv_scif_port p s))"
proof (cases "p = 0")
  case True
  then show ?thesis using assms(2)
    by (auto simp: ports_tight_def rsrv_scif_port_def ports_ready_def init_scif_array_def Let_def)
next
  case False
  let ?t = "ports_ready s"
  have t: "17 \<le> unat (first_free ?t)" "\<not> init_array ?t" using ports_ready [of s] assms(1) by (auto simp: ports_inv_def)
  have "unat p div 64 < 17" using assms(3) by (simp add: less_mult_imp_div_less)
  then have ne: "unat p div 64 \<noteq> unat (first_free ?t)" using t(1) by simp
  let ?s' = "snd (rsrv_scif_port p s)"
  have "\<not> init_array ?s'" "first_free ?s' = first_free ?t"
    "port_bits ?s' ! unat (first_free ?t) = port_bits ?t ! unat (first_free ?t)"
    using t(2) ne by (simp_all add: rsrv_scif_port_eq [OF False] Let_def)
  then show ?thesis using assms(2) by (simp add: ports_tight_def ports_ready(5) Let_def)
qed


lemma reserve_run:
  assumes "ports_inv s"
  shows "ports_inv (fst (port_run rsrv_scif_port get_scif_port put_scif_port (map Reserve ps) (s, h)))"
    and "ports_free (fst (port_run rsrv_scif_port get_scif_port put_scif_port (map Reserve ps) (s, h))) =
           ports_free s - set ps"
    and "first_free (ports_ready (fst (port_run rsrv_scif_port get_scif_port put_scif_port (map Reserve ps) (s, h)))) =
           first_free (ports_ready s)"
proof -
  have "ports_inv (fst (port_run rsrv_scif_port get_scif_port put_scif_port (map Reserve ps) (s, h))) \<and>
    ports_free (fst (port_run rsrv_scif_port get_scif_port put_scif_port (map Reserve ps) (s, h))) = ports_free s - set ps \<and>
    first_free (ports_ready (fst (port_run rsrv_scif_port get_scif_port put_scif_port (map Reserve ps) (s, h)))) =
      first_free (ports_ready s)"
    using assms
  proof (induction ps arbitrary: s h)
    case (Cons p ps)
    obtain q t where r: "rsrv_scif_port p s = (q, t)" by fastforce
    note spec = rsrv_scif_port_spec [OF Cons.prems r]
    have "ports_free t = ports_free s - {p}" using spec(2,3) by (cases "p \<in> ports_free s") auto
    moreover have "first_free (ports_ready t) = first_free (ports_ready s)"
    proof (cases "p = 0")
      case True
      then have "t = s\<lparr>port_err := port_err s + 1\<rparr>" using r by (simp add: rsrv_scif_port_def)
      then show ?thesis by (simp add: ports_ready_def init_scif_array_def)
    next
      case False
      have t: "t = snd (rsrv_scif_port p s)" using r by simp
      have "\<not> init_array t" "first_free t = first_free (ports_ready s)"
        unfolding t using ports_ready(3) [of s] by (simp_all add: rsrv_scif_port_eq [OF False] Let_def)
      then show ?thesis by (simp add: ports_ready(5))
    qed
    ultimately show ?case using Cons.IH [OF spec(1)] r by auto
  qed simp
  then show "ports_inv (fst (port_run rsrv_scif_port get_scif_port put_scif_port (map Reserve ps) (s, h)))"
    "ports_free (fst (port_run rsrv_scif_port get_scif_port put_scif_port (map Reserve ps) (s, h))) = ports_free s - set ps"
    "first_free (ports_ready (fst (port_run rsrv_scif_port get_scif_port put_scif_port (map Reserve ps) (s, h)))) =
      first_free (ports_ready s)" by blast+
qed

lemma rsrv_scif_port_0: "rsrv_scif_port 0 s = (0, s\<lparr>port_err := port_err s + 1\<rparr>)"
  by (simp add: rsrv_scif_port_def)

lemma rsrv_scif_port_ready: "p \<noteq> 0 \<Longrightarrow> \<not> init_array (snd (rsrv_scif_port p s))"
  using ports_ready(3) [of s] by (simp add: rsrv_scif_port_eq Let_def)

lemma tight_run:
  assumes "\<forall>p. Reserve p \<in> set ops \<longrightarrow> unat p < 1088"
    and "ports_inv s" and "ports_tight s" and "init_array s \<Longrightarrow> held = []"
  shows "ports_inv (fst (port_run rsrv_scif_port get_scif_port put_scif_port ops (s, held))) \<and>
    ports_tight (fst (port_run rsrv_scif_port get_scif_port put_scif_port ops (s, held)))"
  using assms
proof (induction ops arbitrary: s held)
  case (Cons a ops)
  show ?case
  proof (cases a)
    case (Reserve p)
    obtain q t where r: "rsrv_scif_port p s = (q, t)" by fastforce
    have "ports_inv t" using rsrv_scif_port_spec(1) [OF Cons.prems(2) r] .
    moreover have "ports_tight t" using tight_rsrv_low [of s p] Cons.prems r Reserve by simp
    moreover have "init_array t \<Longrightarrow> q = 0 \<and> held = []"
      using r Cons.prems(4) rsrv_scif_port_ready [of p s] by (cases "p = 0") (auto simp: rsrv_scif_port_0)
    ultimately show ?thesis using Cons.IH [of t "if q = 0 then held else q # held"] Cons.prems(1) r Reserve by auto
  next
    case Acquire
    obtain q t where g: "get_scif_port s = (q, t)" by fastforce
    have "ports_inv t" using scif_port.acquire_cases [OF Cons.prems(2) g] by blast
    moreover have "ports_tight t" using tight_get [of s] Cons.prems g by simp
    moreover have "\<not> init_array t"
      using g ports_ready(3) [of s] unfolding get_scif_port_def ports_ready_def [symmetric]
      by (auto simp: Let_def split: if_splits prod.splits)
    ultimately show ?thesis using Cons.IH [of t "if q = 0 then held else q # held"] Cons.prems(1) g Acquire by auto
  next
    case (Release p)
    have "ports_inv (put_scif_port p s) \<and> ports_tight (put_scif_port p s) \<and> \<not> init_array (put_scif_port p s)"
      if "p \<in> set held"
    proof -
      have ni: "\<not> init_array s" using that Cons.prems(4) by auto
      then have "\<not> init_array (put_scif_port p s)" by (simp add: put_scif_port_def Let_def)
      then show ?thesis using tight_put [OF Cons.prems(2,3) ni] put_scif_port_spec(1) [OF Cons.prems(2)] by simp
    qed
    then show ?thesis using Cons.IH Cons.prems Release by (cases "p \<in> set held") auto
  qed
qed simp

section \<open>Properties\<close>

text \<open>
  C14. Over any history of reservations, allocations and releases of held ports, starting from the
  static state, no port is handed out twice: the ports held are distinct, port 0 is never
  among them, and none of them is available.
\<close>

theorem ports_exclusive:
  "let (s, held) = port_run rsrv_scif_port get_scif_port put_scif_port ops (scif_ports_static, [])
   in distinct held \<and> 0 \<notin> set held \<and> set held \<inter> ports_free s = {}"
  using scif_port.exclusive_run [of "(scif_ports_static, [])" ops] ports_inv_static
  by (simp add: scif_port.exclusive_def case_prod_unfold)

text \<open>
  A port returned by \<open>get_scif_port\<close> was available, lies in the dynamic range, is the
  lowest available port of that range, and is no longer available afterwards.
\<close>

theorem get_scif_port_lowest:
  assumes "ports_inv s" and "get_scif_port s = (q, s')" and "q \<noteq> 0"
  shows "q \<in> ports_free s \<and> 1088 \<le> unat q \<and> ports_free s' = ports_free s - {q} \<and>
    (\<forall>p. p \<in> dynamic_free s \<longrightarrow> unat q \<le> unat p)"
proof -
  have "\<not> word_exhausted (ports_ready s)" using get_scif_port_fail(1) [of s] assms by auto
  from get_scif_port_ok [OF this assms(1)] assms(2) show ?thesis by (auto simp: dynamic_free_def)
qed

lemma get_static: "fst (get_scif_port scif_ports_static) = 1088"
proof -
  have t: "first_free (ports_ready scif_ports_static) = 17"
    "port_bits (ports_ready scif_ports_static) ! 17 = NOT 0"
    by (simp_all add: ports_ready_def scif_ports_static_def init_scif_array_def Let_def)
  have b: "bsfq (- 1) = 0" by (simp add: bsfq_def upt_conv_Cons)
  have "\<not> word_exhausted (ports_ready scif_ports_static)" by (simp add: word_exhausted_def t)
  from get_scif_port_ok(1) [OF this ports_inv_static] show ?thesis by (simp add: lowest_port_def t b)
qed

theorem get_scif_port_lowest_witness:
  "1088 \<in> ports_free scif_ports_static \<and>
   ports_free (snd (get_scif_port scif_ports_static)) = ports_free scif_ports_static - {1088}"
  using get_scif_port_lowest [OF ports_inv_static, of 1088 "snd (get_scif_port scif_ports_static)"] get_static
  by (simp add: prod_eq_iff)

text \<open>
  C16. In any history whose explicit reservations are below the dynamic range, \<open>get_scif_port\<close>
  returns 0 exactly when no port of the dynamic range is available.
\<close>

theorem get_scif_port_complete:
  assumes "\<forall>p. Reserve p \<in> set ops \<longrightarrow> unat p < 1088"
    and "s = fst (port_run rsrv_scif_port get_scif_port put_scif_port ops (scif_ports_static, []))"
  shows "fst (get_scif_port s) = 0 \<longleftrightarrow> dynamic_free s = {}"
proof -
  have s: "ports_inv s" "ports_tight s"
    using tight_run [OF assms(1) ports_inv_static tight_static] assms(2) by auto
  show ?thesis
  proof (cases "word_exhausted (ports_ready s)")
    case True
    then show ?thesis using get_scif_port_fail(1) [OF True s(1)] tight_exhausted [OF s] by simp
  next
    case False
    have "fst (get_scif_port s) \<noteq> 0" using get_scif_port_ok(1,3) [OF False s(1)] by auto
    then show ?thesis using tight_exhausted [OF s] False by simp
  qed
qed

theorem get_scif_port_complete_witness:
  "fst (get_scif_port (fst (port_run rsrv_scif_port get_scif_port put_scif_port [Reserve 80, Acquire]
      (scif_ports_static, [])))) = 0 \<longleftrightarrow>
   dynamic_free (fst (port_run rsrv_scif_port get_scif_port put_scif_port [Reserve 80, Acquire]
      (scif_ports_static, []))) = {}"
  by (rule get_scif_port_complete [of "[Reserve 80, Acquire]"]) auto

text \<open>
  Explicit reservations inside the dynamic range can block allocation: after the 64 ports
  1088 to 1151 have been reserved one by one, \<open>get_scif_port\<close> returns 0 although port 1152 is
  still available.
\<close>

theorem get_scif_port_blocked:
  "let s = fst (port_run rsrv_scif_port get_scif_port put_scif_port
                  (map Reserve (map of_nat [1088..<1152])) (scif_ports_static, []))
   in fst (get_scif_port s) = 0 \<and> 1152 \<in> dynamic_free s"
proof -
  define ps :: "u16 list" where "ps = map of_nat [1088..<1152]"
  define s where "s = fst (port_run rsrv_scif_port get_scif_port put_scif_port (map Reserve ps) (scif_ports_static, []))"
  note run = reserve_run [OF ports_inv_static, of ps "[]", folded s_def]
  have free: "ports_free s = UNIV - {0} - set ps" using run(2) by (simp add: ports_free_def scif_ports_static_def)
  let ?t = "ports_ready s"
  have ff: "first_free ?t = 17" using run(3) by (simp add: ports_ready(4) scif_ports_static_def)
  have "port_bits ?t ! 17 = 0"
  proof (rule bit_word_eqI)
    fix i assume "i < LENGTH(64)"
    then have i: "i < 64" by simp
    then have "unat (of_nat (1088 + i) :: u16) = 1088 + i" by (simp only: unat_of_nat) simp
    moreover have "(of_nat (1088 + i) :: u16) \<in> set ps"
      unfolding ps_def set_map set_upt by (rule imageI) (use i in auto)
    then have "(of_nat (1088 + i) :: u16) \<notin> port_avail (port_bits ?t)"
      unfolding ports_ready_avail free by blast
    moreover have "(1088 + i) div 64 = 17" "(1088 + i) mod 64 = i"
      using i div_mult_self3 [of 64 17 i] mod_mult_self3 [of 17 64 i] by simp_all
    ultimately show "bit (port_bits ?t ! 17) i = bit 0 i" by (simp add: port_avail_def del: of_nat_add)
  qed
  then have "fst (get_scif_port s) = 0"
    using get_scif_port_fail(1) [OF _ run(1)] ff by (simp add: word_exhausted_def)
  moreover have "1152 \<in> dynamic_free s"
    by (auto simp: dynamic_free_def free ps_def word_unat_eq_iff unat_of_nat)
  ultimately have "fst (get_scif_port s) = 0 \<and> 1152 \<in> dynamic_free s" by blast
  then show ?thesis unfolding s_def ps_def Let_def .
qed

text \<open>
  The assembly and the C variant of the three bit handlers agree: for every word, and for
  every bit number from 1 to 64.
\<close>

theorem bit_handlers_agree:
  assumes "1 \<le> unat b" and "unat b \<le> 64"
  shows "scif_ffsclr w = scif_ffsclr_c w \<and> scif_clrbit w b = scif_clrbit_c w b \<and>
    scif_setbit w b = scif_setbit_c w b"
proof -
  have unset: "unset_bit i w = w AND NOT (push_bit i 1)" for i and w :: u64
    by (rule bit_word_eqI) (auto simp: bit_unset_bit_iff bit_and_iff bit_not_iff bit_push_bit_iff bit_1_iff bit_exp_iff)
  have setb: "set_bit i w = w OR push_bit i 1" for i and w :: u64
    by (rule bit_word_eqI) (auto simp: bit_set_bit_iff bit_or_iff bit_push_bit_iff bit_1_iff bit_exp_iff)
  have test: "w AND 2 ^ i = 0 \<longleftrightarrow> \<not> bit w i" for i and w :: u64
    by (rule and_exp_eq_0_iff_not_bit)
  obtain i where i: "i < 64" "unat b = Suc i" using assms by (cases "unat b") auto
  then have b: "b = 1 + of_nat i" by (simp add: word_unat_eq_iff unat_word_ariths unat_of_nat)
  have "\<not> bit w i \<Longrightarrow> unset_bit i w = w"
    by (rule bit_word_eqI) (auto simp: bit_unset_bit_iff)
  then have "scif_clrbit w b = scif_clrbit_c w b"
    using i by (auto simp: b scif_clrbit_c_def scif_clrbit_eq Let_def test unset)
  moreover have "scif_setbit w b = scif_setbit_c w b"
    using i by (simp add: b scif_setbit_c_def scif_setbit_eq setb)
  moreover have "scif_ffsclr w = scif_ffsclr_c w"
  proof (cases "w = 0")
    case True
    then show ?thesis by (simp add: scif_ffsclr_def scif_ffsclr_c_def)
  next
    case False
    then show ?thesis by (simp add: scif_ffsclr_c_def scif_ffsclr_eq unset Let_def)
  qed
  ultimately show ?thesis by blast
qed

theorem bit_handlers_agree_witness:
  "scif_ffsclr 12 = scif_ffsclr_c 12 \<and> scif_clrbit 12 3 = scif_clrbit_c 12 3 \<and> scif_setbit 12 3 = scif_setbit_c 12 3"
  by (rule bit_handlers_agree) simp_all

end
