(* ===== verification/Rma_List.thy ===== *)
theory Rma_List
  imports Rma_Window
begin

text \<open>
  Mappings of remote windows (\<open>micscif_rma_list.c\<close>, host build for KNC): \<open>scif_mmap\<close> enters the pages of a range of windows of the peer in the page
  table of the caller and counts them in the windows; \<open>scif_munmap\<close> takes the counts back and removes windows that nobody refers to.
  A walk starts at a window of the list and ends when all pages are done; running past the end of the list is \<open>None\<close>.
  \<open>remap j pfn\<close> is the answer of \<open>remap_pfn_range\<close> for page \<open>j\<close> of the caller. Numbers of pages are natural numbers.
\<close>

section \<open>Operations\<close>

definition get_phys_addr :: "bool \<Rightarrow> u64 \<Rightarrow> u64 \<Rightarrow> u64" where
  "get_phys_addr self aper_pa phys = (if self then phys else phys + aper_pa)"

definition loop_nr_pages :: "reg_range \<Rightarrow> u64 \<Rightarrow> nat \<Rightarrow> nat" where
  "loop_nr_pages w loop_offset nr_pages_left = min (unat (drop_bit WPAGE_SHIFT (end_offset w - loop_offset))) nr_pages_left"

text \<open>The pages of one window: the error, if any, the new offset and page of the caller, and the entries made.\<close>

fun mmap_pages :: "(nat \<Rightarrow> u64 \<Rightarrow> int) \<Rightarrow> (u64 \<Rightarrow> u64) \<Rightarrow> reg_range \<Rightarrow> nat \<Rightarrow> u64 \<Rightarrow> nat \<Rightarrow> (nat \<times> u64) list \<Rightarrow>
    (int \<times> u64 \<times> nat \<times> (nat \<times> u64) list) option" where
  "mmap_pages remap g w 0 off j entries = Some (0, off, j, entries)"
| "mmap_pages remap g w (Suc n) off j entries =
     (case micscif_get_dma_addr w off (no_index w) of
        None \<Rightarrow> None
      | Some (a, _) \<Rightarrow>
          let pfn = drop_bit WPAGE_SHIFT (g a)
          in if remap j pfn \<noteq> 0 then Some (remap j pfn, off, j, entries)
             else mmap_pages remap g w n (off + WPAGE) (j + 1) (entries @ [(j, pfn)]))"

fun mmap_walk :: "(nat \<Rightarrow> u64 \<Rightarrow> int) \<Rightarrow> (u64 \<Rightarrow> u64) \<Rightarrow> reg_range list \<Rightarrow> u64 \<Rightarrow> nat \<Rightarrow> nat \<Rightarrow> (nat \<times> u64) list \<Rightarrow>
    (int \<times> (nat \<times> u64) list) option" where
  "mmap_walk remap g [] off left j entries = None"
| "mmap_walk remap g (w # ws) off left j entries =
     (let n = loop_nr_pages w off left
      in case mmap_pages remap g w n off j entries of
           None \<Rightarrow> None
         | Some (e, off, j, entries) \<Rightarrow>
             if e \<noteq> 0 then Some (e, entries)
             else if left - n = 0 then Some (0, entries)
             else mmap_walk remap g ws off (left - n) j entries)"

fun ref_walk :: "reg_range list \<Rightarrow> u64 \<Rightarrow> nat \<Rightarrow> reg_range list option" where
  "ref_walk [] off left = None"
| "ref_walk (w # ws) off left =
     (let n = loop_nr_pages w off left; w = get_window_ref_count w (of_nat n)
      in if left - n = 0 then Some (w # ws)
         else map_option ((#) w) (ref_walk ws (off + push_bit WPAGE_SHIFT (of_nat n)) (left - n)))"

text \<open>The list is split at the window from which the walk starts.\<close>

definition before_win :: "u64 \<Rightarrow> reg_range list \<Rightarrow> reg_range list" where
  "before_win a ws = takeWhile (\<lambda>w. waddr w \<noteq> a) ws"

definition from_win :: "u64 \<Rightarrow> reg_range list \<Rightarrow> reg_range list" where
  "from_win a ws = dropWhile (\<lambda>w. waddr w \<noteq> a) ws"

definition micscif_rma_list_mmap :: "(nat \<Rightarrow> u64 \<Rightarrow> int) \<Rightarrow> bool \<Rightarrow> u64 \<Rightarrow> reg_range list \<Rightarrow> u64 \<Rightarrow> u64 \<Rightarrow> nat \<Rightarrow>
    (int \<times> (nat \<times> u64) list \<times> reg_range list) option" where
  "micscif_rma_list_mmap remap self aper_pa ws start_window off n =
     (case mmap_walk remap (get_phys_addr self aper_pa) (from_win start_window ws) off n 0 [] of
        None \<Rightarrow> None
      | Some (err, entries) \<Rightarrow>
          if err \<noteq> 0 then Some (err, entries, ws)
          else map_option (\<lambda>ws'. (0, entries, before_win start_window ws @ ws')) (ref_walk (from_win start_window ws) off n))"

text \<open>The walk of \<open>micscif_rma_list_munmap\<close>: the list and the windows destroyed, whose peers are told.\<close>

fun munmap_walk :: "reg_range list \<Rightarrow> u64 \<Rightarrow> nat \<Rightarrow> (reg_range list \<times> reg_range list) option" where
  "munmap_walk [] off left = None"
| "munmap_walk (w # ws) off left =
     (if magic w \<noteq> SCIFEP_MAGIC then None
      else
        let n = loop_nr_pages w off left
        in case put_window_ref_count w (of_nat n) of
             None \<Rightarrow> None
           | Some w \<Rightarrow>
               case (if left - n = 0 then Some (ws, []) else munmap_walk ws (off + push_bit WPAGE_SHIFT (of_nat n)) (left - n)) of
                 None \<Rightarrow> None
               | Some (ws, gone) \<Rightarrow> if wref_count w = 0 then Some (ws, w # gone) else Some (w # ws, gone))"

definition micscif_rma_list_munmap :: "reg_range list \<Rightarrow> u64 \<Rightarrow> u64 \<Rightarrow> nat \<Rightarrow> (reg_range list \<times> u64 list) option" where
  "micscif_rma_list_munmap ws start_window off n =
     map_option (\<lambda>(ws', gone). (before_win start_window ws @ ws', map peer_window gone)) (munmap_walk (from_win start_window ws) off n)"

fun micscif_rma_list_get_pages_check :: "reg_range list \<Rightarrow> int" where
  "micscif_rma_list_get_pages_check [] = 0"
| "micscif_rma_list_get_pages_check (w # ws) =
     (if get_put_ref_count w \<noteq> 0 then - 1 else micscif_rma_list_get_pages_check ws)"

section \<open>Ranges of pages\<close>

text \<open>The number of pages of the range of \<open>n\<close> pages from \<open>x\<close> on that are in a window.\<close>

definition range_pages :: "reg_range \<Rightarrow> nat \<Rightarrow> nat \<Rightarrow> nat" where
  "range_pages w x n = (min (whi w) (x + n * 4096) - max (wlo w) x) div 4096"

definition add_refs :: "nat \<Rightarrow> nat \<Rightarrow> reg_range \<Rightarrow> reg_range" where
  "add_refs x n w = get_window_ref_count w (of_nat (range_pages w x n))"

lemma ucast_pages: "ucast (of_nat n :: u64) = (of_nat n :: u32)"
  by (simp add: word_unat_eq_iff unsigned_ucast_eq unsigned_of_nat)

lemma add_refs_same [simp]:
  "wlo (add_refs x n w) = wlo w" "whi (add_refs x n w) = whi w" "win_ok (add_refs x n w) = win_ok w" "waddr (add_refs x n w) = waddr w"
  "magic (add_refs x n w) = magic w" "nr_pages (add_refs x n w) = nr_pages w" "end_offset (add_refs x n w) = end_offset w" "prot (add_refs x n w) = prot w"
  "offset (add_refs x n w) = offset w" "wref_count (add_refs x n w) = wref_count w + of_nat (range_pages w x n)"
  by (simp_all add: add_refs_def get_window_ref_count_def wlo_def whi_def win_ok_def end_offset_def ucast_pages)

lemma loop_pages_nat:
  assumes "win_ok w" and "wlo w \<le> unat off" and "unat off < whi w" and "unat off mod 4096 = 0"
  shows "loop_nr_pages w off n = min ((whi w - unat off) div 4096) n" and "range_pages w (unat off) n = loop_nr_pages w off n"
    and "unat off + (whi w - unat off) div 4096 * 4096 = whi w"
proof -
  have "unat (end_offset w - off) = whi w - unat off" using win_ok_end(1) [OF assms(1)] assms(3) by (simp add: unat_sub word_le_nat_alt)
  then show l: "loop_nr_pages w off n = min ((whi w - unat off) div 4096) n" by (simp add: loop_nr_pages_def drop_bit_eq_div unat_div)
  have "whi w mod 4096 = 0" using assms(1) by (simp add: win_ok_def whi_def)
  then have "4096 dvd whi w - unat off" using assms(4) by (simp add: mod_eq_0_iff_dvd dvd_diff_nat)
  then show e: "unat off + (whi w - unat off) div 4096 * 4096 = whi w" using assms(3) by simp
  have "min (whi w) (unat off + n * 4096) - max (wlo w) (unat off) = min (whi w - unat off) (n * 4096)" using assms(2) by linarith
  also have "\<dots> div 4096 = min ((whi w - unat off) div 4096) n" by (cases "whi w - unat off \<le> n * 4096") (auto simp: min_def div_le_mono dest: div_le_mono [of _ _ 4096])
  finally show "range_pages w (unat off) n = loop_nr_pages w off n" unfolding range_pages_def l by simp
qed

lemma range_pages_rest:
  assumes "x + m * 4096 \<le> wlo v" and "m \<le> n"
  shows "range_pages v (x + m * 4096) (n - m) = range_pages v x n"
proof -
  have "x + m * 4096 + (n - m) * 4096 = x + n * 4096" using assms(2) by (metis add.assoc add_mult_distrib le_add_diff_inverse)
  moreover have "max (wlo v) (x + m * 4096) = wlo v" "max (wlo v) x = wlo v" using assms(1) by linarith+
  ultimately show ?thesis unfolding range_pages_def by (simp only:)
qed

lemma range_pages_beyond: "x + n * 4096 \<le> wlo v \<Longrightarrow> range_pages v x n = 0"
  by (simp add: range_pages_def)

section \<open>The walks\<close>

lemma map_upt_shift: "map (\<lambda>i. f (n + i)) [0..<m - n] = map f [n..<m]" for f :: "nat \<Rightarrow> 'a"
  by (rule nth_equalityI) auto

definition frame :: "(u64 \<Rightarrow> u64) \<Rightarrow> reg_range \<Rightarrow> nat \<Rightarrow> u64" where
  "frame g w y = drop_bit WPAGE_SHIFT (g (of_nat (byte_addr w y)))"

lemma mmap_pages_spec:
  assumes w: "dma_ok w" and remap: "\<forall>j pfn. remap j pfn = 0" and "wlo w \<le> unat off" and "unat off + n * 4096 \<le> whi w"
  shows "\<exists>off'. mmap_pages remap g w n off j es = Some (0, off', j + n, es @ map (\<lambda>i. (j + i, frame g w (unat off + i * 4096))) [0..<n]) \<and>
    unat off' = unat off + n * 4096"
  using assms(3,4)
proof (induction n arbitrary: off j es)
  case (Suc n)
  have b: "whi w < 2 ^ 63" using w by (simp add: dma_ok_def win_ok_def)
  have o: "unat (off + WPAGE) = unat off + 4096" using Suc.prems b by (simp add: unat_word_ariths)
  obtain nr idx where l: "micscif_get_dma_addr w off (no_index w) = Some (of_nat (byte_addr w (unat off)), nr, idx)"
    using dma_addr_start [OF w, of off] Suc.prems by auto
  obtain off' where i: "mmap_pages remap g w n (off + WPAGE) (j + 1) (es @ [(j, frame g w (unat off))]) =
      Some (0, off', j + 1 + n, (es @ [(j, frame g w (unat off))]) @ map (\<lambda>i. (j + 1 + i, frame g w (unat (off + WPAGE) + i * 4096))) [0..<n])"
    "unat off' = unat (off + WPAGE) + n * 4096" using Suc.IH [of "off + WPAGE" "j + 1" "es @ [(j, frame g w (unat off))]"] Suc.prems o by auto
  have "map (\<lambda>i. (j + i, frame g w (unat off + i * 4096))) [0..<Suc n] =
      (j, frame g w (unat off)) # map (\<lambda>i. (j + 1 + i, frame g w (unat (off + WPAGE) + i * 4096))) [0..<n]"
    by (simp add: upt_conv_Cons map_Suc_upt [symmetric] o add.assoc del: upt_Suc)
  moreover have "mmap_pages remap g w (Suc n) off j es = mmap_pages remap g w n (off + WPAGE) (j + 1) (es @ [(j, frame g w (unat off))])"
    unfolding mmap_pages.simps l option.case prod.case Let_def frame_def by (simp only: remap if_False simp_thms)
  ultimately show ?case using i o by simp
qed simp

text \<open>The pages of a range, first those in the first window, then those after it.\<close>

lemma walk_step:
  assumes ok: "wins_ok (w # ws)" and x: "wlo w \<le> unat off" "unat off < whi w" "unat off mod 4096 = 0"
    and cb: "check_bytes (w # ws) p (unat off) (left * 4096) = None"
  defines "n \<equiv> loop_nr_pages w off left"
  shows "unat off + n * 4096 \<le> whi w" and "n \<le> left" and "left \<noteq> 0 \<Longrightarrow> n \<noteq> 0" and "n = range_pages w (unat off) left"
    and "left - n \<noteq> 0 \<Longrightarrow> unat off + n * 4096 = whi w" and "left - n \<noteq> 0 \<Longrightarrow> check_bytes ws p (whi w) ((left - n) * 4096) = None"
    and "left - n \<noteq> 0 \<Longrightarrow> \<exists>v vs. ws = v # vs \<and> wlo v = whi w"
    and "left - n = 0 \<Longrightarrow> v \<in> set ws \<Longrightarrow> range_pages v (unat off) left = 0"
proof -
  have w: "win_ok w" using ok by simp
  note lp = loop_pages_nat [OF w x]
  have n: "n = min ((whi w - unat off) div 4096) left" using lp(1) by (simp add: n_def)
  show le: "unat off + n * 4096 \<le> whi w"
  proof -
    have "n * 4096 \<le> (whi w - unat off) div 4096 * 4096" using n by simp
    then show ?thesis using lp(3) by linarith
  qed
  show nl: "n \<le> left" using n by simp
  have "(whi w - unat off) div 4096 \<noteq> 0" using lp(3) x(2) by auto
  then show "left \<noteq> 0 \<Longrightarrow> n \<noteq> 0" using n by simp
  show "n = range_pages w (unat off) left" using lp(2) by (simp add: n_def)
  show e: "unat off + n * 4096 = whi w" if "left - n \<noteq> 0" using lp(3) n that by (simp add: min_def split: if_splits)
  show cb': "check_bytes ws p (whi w) ((left - n) * 4096) = None" if l: "left - n \<noteq> 0"
  proof -
    have "left * 4096 = n * 4096 + (left - n) * 4096" using nl by (simp add: add_mult_distrib [symmetric])
    then have "check_bytes (w # ws) p (unat off + n * 4096) ((left - n) * 4096) = None" using cb check_bytes_drop by metis
    then show ?thesis unfolding e [OF l] by (simp add: check_bytes_after)
  qed
  show "\<exists>v vs. ws = v # vs \<and> wlo v = whi w" if l: "left - n \<noteq> 0"
    using next_win [OF ok cb' [OF l]] l by simp
  assume "left - n = 0" and v: "v \<in> set ws"
  then have "left = n" using nl by simp
  moreover have "whi w \<le> wlo v" using ok v by simp
  ultimately have "unat off + left * 4096 \<le> wlo v" using le by simp
  then show "range_pages v (unat off) left = 0" by (rule range_pages_beyond)
qed

lemma mmap_walk_spec:
  assumes remap: "\<forall>j pfn. remap j pfn = 0" and "wins_ok (w # ws)" and "\<forall>v \<in> set (w # ws). dma_ok v"
    and "wlo w \<le> unat off" and "unat off < whi w" and "unat off mod 4096 = 0"
    and "check_bytes (w # ws) p (unat off) (left * 4096) = None"
  shows "mmap_walk remap g (w # ws) off left j es =
    Some (0, es @ map (\<lambda>i. (j + i, frame g (the (win_at (w # ws) (unat off + i * 4096))) (unat off + i * 4096))) [0..<left])"
  using assms(2-7)
proof (induction ws arbitrary: w off left j es)
  case Nil
  note st = walk_step [OF Nil.prems(1,3-6)]
  have n: "loop_nr_pages w off left = left" using st(2,7) by (cases "left - loop_nr_pages w off left = 0") auto
  have "dma_ok w" using Nil.prems(2) by simp
  from mmap_pages_spec [OF this remap Nil.prems(3) st(1)] obtain off' where
    p: "mmap_pages remap g w left off j es = Some (0, off', j + left, es @ map (\<lambda>i. (j + i, frame g w (unat off + i * 4096))) [0..<left])"
    unfolding n by blast
  have "win_at [w] (unat off + i * 4096) = Some w" if "i < left" for i
    using that Nil.prems(3) st(1) unfolding n by (intro win_at_in) linarith+
  then show ?case using p by (simp add: n Let_def)
next
  case (Cons v vs)
  note st = walk_step [OF Cons.prems(1,3-6)]
  define n where "n = loop_nr_pages w off left"
  let ?F = "\<lambda>ws x i. frame g (the (win_at ws (x + i * 4096))) (x + i * 4096)"
  have "dma_ok w" using Cons.prems(2) by simp
  from mmap_pages_spec [OF this remap Cons.prems(3) st(1)] obtain off' where
    p: "mmap_pages remap g w n off j es = Some (0, off', j + n, es @ map (\<lambda>i. (j + i, frame g w (unat off + i * 4096))) [0..<n])"
      "unat off' = unat off + n * 4096" unfolding n_def by blast
  have h: "map (\<lambda>i. (j + i, frame g w (unat off + i * 4096))) [0..<n] = map (\<lambda>i. (j + i, ?F (w # v # vs) (unat off) i)) [0..<n]"
    using Cons.prems(3) st(1) by (auto simp: n_def win_at_in)
  show ?case
  proof (cases "left - n = 0")
    case True
    then have "n = left" using st(2) by (simp add: n_def)
    then show ?thesis using p(1) h by (simp add: n_def [symmetric] Let_def)
  next
    case False
    note f = False [unfolded n_def]
    have v: "wlo v = whi w" using st(7) [OF f] by simp
    have o: "unat off' = whi w" using p(2) st(5) [OF f] by (simp add: n_def)
    have e: "unat off + n * 4096 = whi w" using st(5) [OF f] by (simp add: n_def)
    have vok: "win_ok v" using Cons.prems(1) by simp
    have "whi w mod 4096 = 0" using vok v by (simp add: win_ok_def wlo_def)
    then have i: "mmap_walk remap g (v # vs) off' (left - n) (j + n) es' =
        Some (0, es' @ map (\<lambda>i. (j + n + i, ?F (v # vs) (whi w) i)) [0..<left - n])" for es'
      using Cons.IH [of v off' "left - n" "j + n" es'] Cons.prems(1,2) st(6) [OF f] v o win_ok_end(2) [OF vok] by (simp add: n_def)
    have "?F (v # vs) (whi w) i = ?F (w # v # vs) (unat off) (n + i)" for i
      using e by (simp add: win_at_after add_mult_distrib add.assoc [symmetric])
    then have "map (\<lambda>i. (j + n + i, ?F (v # vs) (whi w) i)) [0..<left - n] = map (\<lambda>i. (j + i, ?F (w # v # vs) (unat off) i)) [n..<left]"
      using map_upt_shift [where f = "\<lambda>i. (j + i, ?F (w # v # vs) (unat off) i)" and n = n and m = left] by (simp add: add.assoc)
    moreover have "[0..<left] = [0..<n] @ [n..<left]" using st(2) upt_add_eq_append [of 0 n "left - n"] by (simp add: n_def)
    ultimately show ?thesis using p(1) h i False by (simp add: n_def [symmetric] Let_def)
  qed
qed

text \<open>The offset after the pages of a window.\<close>

lemma off_after:
  fixes off :: u64
  assumes "unat off + n * 4096 < 2 ^ 63"
  shows "unat (off + push_bit WPAGE_SHIFT (of_nat n)) = unat off + n * 4096"
proof -
  have "unat (of_nat n :: u64) = n" using assms by (intro unat_of_nat64) simp
  then have "unat (push_bit WPAGE_SHIFT (of_nat n :: u64)) = n * 4096" using push_page [of "of_nat n"] assms by simp
  then show ?thesis using assms by (simp add: unat_word_ariths)
qed

lemma add_refs_none: "range_pages v x n = 0 \<Longrightarrow> add_refs x n v = v"
  by (simp add: add_refs_def get_window_ref_count_def)

lemma ref_walk_spec:
  assumes "wins_ok (w # ws)" and "wlo w \<le> unat off" and "unat off < whi w" and "unat off mod 4096 = 0"
    and "check_bytes (w # ws) p (unat off) (left * 4096) = None"
  shows "ref_walk (w # ws) off left = Some (map (add_refs (unat off) left) (w # ws))"
  using assms
proof (induction ws arbitrary: w off left)
  case Nil
  note st = walk_step [OF Nil.prems]
  have "left - loop_nr_pages w off left = 0" using st(7) by auto
  then show ?case using st(4) by (simp add: Let_def add_refs_def)
next
  case (Cons v vs)
  note st = walk_step [OF Cons.prems]
  define n where "n = loop_nr_pages w off left"
  have r: "get_window_ref_count w (of_nat n) = add_refs (unat off) left w" using st(4) by (simp add: n_def add_refs_def)
  show ?case
  proof (cases "left - n = 0")
    case True
    then have "map (add_refs (unat off) left) (v # vs) = v # vs" using st(8) by (intro map_idI add_refs_none) (simp add: n_def)
    then show ?thesis using r True by (simp add: n_def [symmetric] Let_def)
  next
    case False
    note f = False [unfolded n_def]
    let ?o = "off + push_bit WPAGE_SHIFT (of_nat n)"
    have v: "wlo v = whi w" using st(7) [OF f] by simp
    have ok: "win_ok w" "win_ok v" using Cons.prems(1) by simp_all
    have e: "unat off + n * 4096 = whi w" using st(5) [OF f] by (simp add: n_def)
    then have o: "unat ?o = whi w" using off_after [of off n] ok(1) by (simp add: win_ok_def)
    have "unat ?o mod 4096 = 0" using ok(2) v o by (simp add: win_ok_def wlo_def)
    then have "ref_walk (v # vs) ?o (left - n) = Some (map (add_refs (whi w) (left - n)) (v # vs))"
      using Cons.IH [of v ?o "left - n"] Cons.prems(1) st(6) [OF f] v o win_ok_end(2) [OF ok(2)] by (simp add: n_def)
    moreover have "add_refs (whi w) (left - n) u = add_refs (unat off) left u" if "u \<in> set (v # vs)" for u
      using range_pages_rest [of "unat off" n u left] st(2) e that Cons.prems(1) by (auto simp: add_refs_def n_def)
    ultimately show ?thesis using r False by (simp add: n_def [symmetric] Let_def)
  qed
qed

section \<open>Taking mappings back\<close>

text \<open>A window that is neither registered nor mapped any more after \<open>munmap\<close> is gone.\<close>

definition last_use :: "nat \<Rightarrow> nat \<Rightarrow> reg_range \<Rightarrow> bool" where
  "last_use x n w \<longleftrightarrow> range_pages w x n \<noteq> 0 \<and> wref_count w = 0"

lemma put_refs: "win_ok w \<Longrightarrow> put_window_ref_count (add_refs x n w) (of_nat (range_pages w x n)) = Some w"
proof -
  assume "win_ok w"
  then have "unat (nr_pages w) * 4096 < 2 ^ 63" by (simp add: win_ok_def whi_def)
  then have "unat (nr_pages w) < 2 ^ 63" by linarith
  then have "int (unat (nr_pages w)) < 2 ^ 63" by (simp only: of_nat_less_numeral_power_cancel_iff)
  moreover have "- (2 ^ 63) \<le> uint (nr_pages w)" by (rule order_trans [of _ 0]) simp_all
  ultimately have "sint (nr_pages w) = uint (nr_pages w)" unfolding sint_uint by (subst signed_take_bit_int_eq_self) simp_all
  then show ?thesis by (simp add: put_window_ref_count_def add_refs_def get_window_ref_count_def ucast_pages)
qed

lemma loop_pages_refs [simp]: "loop_nr_pages (add_refs x n w) off left = loop_nr_pages w off left"
  by (simp add: loop_nr_pages_def)

lemma munmap_walk_spec:
  assumes "wins_ok (w # ws)" and "wlo w \<le> unat off" and "unat off < whi w" and "unat off mod 4096 = 0"
    and "check_bytes (w # ws) p (unat off) (left * 4096) = None" and "left \<noteq> 0" and "\<forall>v \<in> set (w # ws). magic v = SCIFEP_MAGIC"
  shows "munmap_walk (map (add_refs (unat off) left) (w # ws)) off left =
    Some (filter (\<lambda>v. \<not> last_use (unat off) left v) (w # ws), filter (last_use (unat off) left) (w # ws))"
  using assms
proof (induction ws arbitrary: w off left)
  case Nil
  note st = walk_step [OF Nil.prems(1-5)]
  have "left - loop_nr_pages w off left = 0" using st(7) by auto
  then show ?case using st(3,4) put_refs [of w "unat off" left] Nil.prems by (simp add: Let_def last_use_def)
next
  case (Cons v vs)
  note st = walk_step [OF Cons.prems(1-5)]
  define n where "n = loop_nr_pages w off left"
  have ok: "win_ok w" "win_ok v" using Cons.prems(1) by simp_all
  have r: "put_window_ref_count (add_refs (unat off) left w) (of_nat n) = Some w" using st(4) put_refs [OF ok(1)] by (simp add: n_def)
  have z: "last_use (unat off) left w \<longleftrightarrow> wref_count w = 0" using st(3,4) Cons.prems(6) by (simp add: last_use_def)
  show ?case
  proof (cases "left - n = 0")
    case True
    then have l: "range_pages u (unat off) left = 0" if "u \<in> set (v # vs)" for u using st(8) that by (simp add: n_def)
    then have "map (add_refs (unat off) left) (v # vs) = v # vs" by (intro map_idI add_refs_none) simp
    moreover have "filter (\<lambda>v. \<not> last_use (unat off) left v) (v # vs) = v # vs" using l by (simp add: last_use_def filter_id_conv)
    moreover have "filter (last_use (unat off) left) (v # vs) = []" using l by (simp add: last_use_def filter_empty_conv)
    ultimately show ?thesis using r z True Cons.prems(7) 
      unfolding list.map(2) [of _ w] munmap_walk.simps(2) [of "add_refs _ _ w"] loop_pages_refs n_def [symmetric] Let_def
      by (simp add: filter.simps(2) [of _ w] del: list.map filter.simps munmap_walk.simps)
  next
    case False
    note f = False [unfolded n_def]
    let ?o = "off + push_bit WPAGE_SHIFT (of_nat n)"
    have v: "wlo v = whi w" using st(7) [OF f] by simp
    have e: "unat off + n * 4096 = whi w" using st(5) [OF f] by (simp add: n_def)
    then have o: "unat ?o = whi w" using off_after [of off n] ok(1) by (simp add: win_ok_def)
    have "unat ?o mod 4096 = 0" using ok(2) v o by (simp add: win_ok_def wlo_def)
    then have "munmap_walk (map (add_refs (whi w) (left - n)) (v # vs)) ?o (left - n) =
        Some (filter (\<lambda>v. \<not> last_use (whi w) (left - n) v) (v # vs), filter (last_use (whi w) (left - n)) (v # vs))"
      using Cons.prems(1,7) False st(6) [OF f] v win_ok_end(2) [OF ok(2)] o by (intro Cons.IH [of v ?o "left - n", unfolded o]) (simp_all add: n_def)
    moreover have p: "range_pages u (whi w) (left - n) = range_pages u (unat off) left" if "u \<in> set (v # vs)" for u
      using range_pages_rest [of "unat off" n u left] st(2) e that Cons.prems(1) by (auto simp: n_def)
    moreover have "map (add_refs (whi w) (left - n)) (v # vs) = map (add_refs (unat off) left) (v # vs)"
      using p by (intro map_cong) (simp_all add: add_refs_def)
    moreover have "filter (last_use (whi w) (left - n)) (v # vs) = filter (last_use (unat off) left) (v # vs)"
      "filter (\<lambda>v. \<not> last_use (whi w) (left - n) v) (v # vs) = filter (\<lambda>v. \<not> last_use (unat off) left v) (v # vs)"
      using p by (intro filter_cong refl; simp add: last_use_def)+
    ultimately have m: "munmap_walk (map (add_refs (unat off) left) (v # vs)) ?o (left - n) =
        Some (filter (\<lambda>v. \<not> last_use (unat off) left v) (v # vs), filter (last_use (unat off) left) (v # vs))" by (simp only:)
    have "magic w = SCIFEP_MAGIC" using Cons.prems(7) by simp
    then show ?thesis using r z False m
      unfolding list.map(2) [of _ w] munmap_walk.simps(2) [of "add_refs _ _ w"] loop_pages_refs n_def [symmetric] Let_def
      by (simp add: filter.simps(2) [of _ w] del: list.map filter.simps munmap_walk.simps)
  qed
qed

section \<open>Properties\<close>

lemma win_split_start:
  assumes "distinct (map waddr (us @ w # vs))"
  shows "before_win (waddr w) (us @ w # vs) = us" and "from_win (waddr w) (us @ w # vs) = w # vs"
proof -
  have "\<forall>u \<in> set us. waddr u \<noteq> waddr w" using assms by (auto simp: image_iff)
  then show "before_win (waddr w) (us @ w # vs) = us" "from_win (waddr w) (us @ w # vs) = w # vs"
    by (simp_all add: before_win_def from_win_def takeWhile_append2 dropWhile_append2)
qed

definition part_req :: "u64 \<Rightarrow> nat \<Rightarrow> u32 \<Rightarrow> micscif_rma_req" where
  "part_req off n p = \<lparr>req_offset = off, req_nr_bytes = of_nat (n * 4096), req_prot = p, req_type = WINDOW_PARTIAL, req_va_for_temp = 0\<rparr>"

text \<open>What a successful query of a range of pages tells about the list.\<close>

lemma part_query:
  assumes "wins_ok ws" and "0 < n" and "unat off + n * 4096 < 2 ^ 64" and "micscif_query_window (part_req off n p) ws = Inr (Some w)"
  shows "\<exists>us vs. ws = us @ w # vs \<and> wlo w \<le> unat off \<and> unat off < whi w \<and> (\<forall>u \<in> set us. whi u \<le> unat off) \<and>
    check_bytes (w # vs) p (unat off) (n * 4096) = None"
proof -
  have n: "unat (of_nat (n * 4096) :: u64) = n * 4096" using assms(3) by (intro unat_of_nat64) linarith
  then have "0 < (of_nat (n * 4096) :: u64)" using assms(2) by (simp add: word_less_nat_alt)
  then have "query_answer WINDOW_PARTIAL ws p (unat off) (n * 4096) = Inr (Some w)"
    using query_window_spec [OF assms(1), of "part_req off n p"] assms(3,4) n by (simp add: part_req_def)
  then have w: "win_at ws (unat off) = Some w" and c: "check_bytes ws p (unat off) (n * 4096) = None" by (simp_all split: option.splits)
  obtain us vs where s: "ws = us @ w # vs" "wlo w \<le> unat off" "unat off < whi w" "\<forall>u \<in> set us. whi u \<le> unat off"
    using win_at_split [OF assms(1) w] by blast
  have "check_bytes (w # vs) p (unat off) (n * 4096) = None" using c check_bytes_skip [OF s(4), of "w # vs"] unfolding s(1) by simp
  then show ?thesis using s by (intro exI conjI)
qed

lemma range_pages_before: "whi w \<le> x \<Longrightarrow> range_pages w x n = 0"
  by (simp add: range_pages_def min_def max_def)

lemma refs_before: "\<forall>u \<in> set us. whi u \<le> x \<Longrightarrow> map (add_refs x n) us = us"
  by (intro map_idI add_refs_none) (simp add: range_pages_before)

lemma last_use_before: "\<forall>u \<in> set us. whi u \<le> x \<Longrightarrow> filter (\<lambda>w. \<not> last_use x n w) us = us \<and> filter (last_use x n) us = []"
  by (simp add: last_use_def range_pages_before filter_id_conv filter_empty_conv)

text \<open>C32. Mapping a range of windows of the peer that a query has found gives every page of the caller the frame of the byte at its
  offset, across all windows of the range, never runs past the end of the list, and counts in every window just the pages of the range that lie in it.\<close>

theorem mmap_exact:
  assumes "wins_ok ws" and "\<forall>w \<in> set ws. dma_ok w" and "distinct (map waddr ws)" and "\<forall>j pfn. remap j pfn = 0"
    and "0 < n" and "unat off mod 4096 = 0" and "unat off + n * 4096 < 2 ^ 64" and "micscif_query_window (part_req off n p) ws = Inr (Some w)"
  shows "micscif_rma_list_mmap remap self aper_pa ws (waddr w) off n =
    Some (0, map (\<lambda>j. (j, frame (get_phys_addr self aper_pa) (the (win_at ws (unat off + j * 4096))) (unat off + j * 4096))) [0..<n],
      map (add_refs (unat off) n) ws)"
proof -
  obtain us vs where s: "ws = us @ w # vs" "wlo w \<le> unat off" "unat off < whi w" "\<forall>u \<in> set us. whi u \<le> unat off"
    and c: "check_bytes (w # vs) p (unat off) (n * 4096) = None" using part_query [OF assms(1,5,7,8)] by blast
  have ok: "wins_ok (w # vs)" "\<forall>v \<in> set (w # vs). dma_ok v" using assms(1,2) s(1) by (auto simp: wins_ok_append)
  have "win_at ws (unat off + j * 4096) = win_at (w # vs) (unat off + j * 4096)" for j
    using s(4) unfolding s(1) by (intro win_at_skip) (auto intro: order_trans)
  then show ?thesis
    using mmap_walk_spec [OF assms(4) ok s(2,3) assms(6) c] ref_walk_spec [OF ok(1) s(2,3) assms(6) c] refs_before [OF s(4)]
      win_split_start [OF assms(3) [unfolded s(1)]]
    by (simp add: micscif_rma_list_mmap_def s(1))
qed

definition demo_wins :: "reg_range list" where
  "demo_wins = [demo_win 0x1000 1 3, demo_win 0x2000 2 3]"

lemma demo_wins_facts:
  "wins_ok demo_wins" "\<forall>w \<in> set demo_wins. magic w = SCIFEP_MAGIC" "distinct (map waddr demo_wins)"
  "micscif_query_window (part_req 0x1000 2 3) demo_wins = Inr (Some (demo_win 0x1000 1 3))"
  by (simp_all add: demo_wins_def win_ok_def whi_def wlo_def demo_win_def part_req_def micscif_query_window_def end_offset_def Let_def)

lemma demo_wins_dma: "\<forall>w \<in> set demo_wins. dma_ok w"
proof -
  have "{..<2 :: nat} = {0, 1}" "{..<1 :: nat} = {0}" "\<And>i :: nat. i < 2 \<longleftrightarrow> i = 0 \<or> i = 1" by auto
  moreover have "[0..<2] = [0, 1 :: nat]" "replicate 2 1 = [1, 1 :: u32]" by (simp_all add: numeral_2_eq_2)
  ultimately show ?thesis by (simp add: demo_wins_def dma_ok_def win_ok_def whi_def nchunks_def pages_before_def demo_win_def)
qed

theorem mmap_exact_witness:
  "\<exists>entries. micscif_rma_list_mmap (\<lambda>_ _. 0) False 0x80000000 demo_wins 0x1000 0x1000 2 = Some (0, entries, map (add_refs 0x1000 2) demo_wins)"
  using mmap_exact [OF demo_wins_facts(1) demo_wins_dma demo_wins_facts(3) _ _ _ _ demo_wins_facts(4), of "\<lambda>_ _. 0" False "0x80000000"]
  by (simp add: demo_win_def)

text \<open>C33. Unmapping a range that was mapped restores all counts; the windows of the range that have no other user left, and only those, are removed from the
  list and reported to the peer.\<close>

theorem mmap_munmap_roundtrip:
  assumes "wins_ok ws" and "\<forall>w \<in> set ws. magic w = SCIFEP_MAGIC" and "distinct (map waddr ws)"
    and "0 < n" and "unat off mod 4096 = 0" and "unat off + n * 4096 < 2 ^ 64" and "micscif_query_window (part_req off n p) ws = Inr (Some w)"
  shows "micscif_rma_list_munmap (map (add_refs (unat off) n) ws) (waddr w) off n =
    Some (filter (\<lambda>w. \<not> last_use (unat off) n w) ws, map peer_window (filter (last_use (unat off) n) ws))"
proof -
  obtain us vs where s: "ws = us @ w # vs" "wlo w \<le> unat off" "unat off < whi w" "\<forall>u \<in> set us. whi u \<le> unat off"
    and c: "check_bytes (w # vs) p (unat off) (n * 4096) = None" using part_query [OF assms(1,4,6,7)] by blast
  have ok: "wins_ok (w # vs)" "\<forall>v \<in> set (w # vs). magic v = SCIFEP_MAGIC" using assms(1,2) s(1) by (auto simp: wins_ok_append)
  have "map (add_refs (unat off) n) ws = us @ add_refs (unat off) n w # map (add_refs (unat off) n) vs"
    using refs_before [OF s(4)] by (simp add: s(1))
  moreover have "distinct (map waddr (us @ add_refs (unat off) n w # map (add_refs (unat off) n) vs))"
    using assms(3) by (simp add: s(1) comp_def)
  note win_split_start [OF this]
  ultimately show ?thesis
    using munmap_walk_spec [OF ok(1) s(2,3) assms(5) c _ ok(2)] assms(4) last_use_before [OF s(4), of n]
    by (simp add: micscif_rma_list_munmap_def s(1) del: munmap_walk.simps)
qed

theorem mmap_munmap_roundtrip_witness:
  "micscif_rma_list_munmap (map (add_refs 0x1000 2) demo_wins) 0x1000 0x1000 2 =
     Some (filter (\<lambda>w. \<not> last_use 0x1000 2 w) demo_wins, map peer_window (filter (last_use 0x1000 2) demo_wins))"
  using mmap_munmap_roundtrip [OF demo_wins_facts(1-3) _ _ _ demo_wins_facts(4)] by (simp add: demo_win_def)

end
