(* ===== verification/Node_Deps.thy ===== *)
theory Node_Deps
  imports Scif_Prelude
begin

text \<open>
  Node management on the host (\<open>micscif_nm.c\<close>): masks of nodes, the matrix of dependencies between nodes, and the searches over it that
  find the nodes to wake up or to put to sleep together with a node. Nodes are natural numbers, node 0 is the host. The matrix is reached through
  pointers that may be null or dangle. \<open>None\<close> is an access outside of an array or through a null or dangling pointer.
  \<open>al k\<close> says whether the \<open>k\<close>-th allocation of a run succeeds.
\<close>

section \<open>Data\<close>

datatype dependency_state = DEP_STATE_NOT_DEPENDENT | DEP_STATE_DEPENDENT | DEP_STATE_DISCONNECT_READY | DEP_STATE_DISCONNECTED

datatype PM_IDLE_STATE = PM_IDLE_STATE_PC0 | PM_IDLE_STATE_PC3_READY | PM_IDLE_STATE_PC3 | PM_IDLE_STATE_PC6 | PM_IDLE_STATE_LOST | PM_IDLE_STATE_MAX

datatype 'a pointer = NULL | Freed | Live 'a

type_synonym depmtrx = "dependency_state list pointer list pointer"

record dep_info =
  mi_maxid :: nat
  mi_depmtrx :: depmtrx
  idle_state :: "nat \<Rightarrow> PM_IDLE_STATE"

definition nth_opt :: "'a list \<Rightarrow> nat \<Rightarrow> 'a option" where
  "nth_opt xs i = (if i < length xs then Some (xs ! i) else None)"

fun deref :: "'a pointer \<Rightarrow> 'a option" where
  "deref (Live x) = Some x"
| "deref p = None"

definition dep_at :: "depmtrx \<Rightarrow> nat \<Rightarrow> nat \<Rightarrow> dependency_state option" where
  "dep_at p u v = do { rows \<leftarrow> deref p; r \<leftarrow> nth_opt rows u; row \<leftarrow> deref r; nth_opt row v }"

section \<open>Masks of nodes\<close>

definition set_nodemask_bit :: "u8 list \<Rightarrow> nat \<Rightarrow> bool \<Rightarrow> u8 list option" where
  "set_nodemask_bit nodemask node_id val =
     (let index = node_id div 8; b = ucast (push_bit (node_id - index * 8) (1 :: u64)) :: u8
      in do { m \<leftarrow> nth_opt nodemask index; Some (nodemask[index := (if val then m OR b else m AND NOT b)]) })"

definition get_nodemask_bit :: "u8 list \<Rightarrow> nat \<Rightarrow> bool option" where
  "get_nodemask_bit nodemask node_id =
     (let index = node_id div 8
      in do { m \<leftarrow> nth_opt nodemask index; Some ((ucast m :: u64) AND push_bit (node_id - index * 8) 1 \<noteq> 0) })"

fun mask_scan :: "u8 list \<Rightarrow> nat list \<Rightarrow> bool option" where
  "mask_scan nodemask [] = Some False"
| "mask_scan nodemask (i # is) = do { b \<leftarrow> get_nodemask_bit nodemask i; if b then Some True else mask_scan nodemask is }"

definition nodemask_isvalid :: "nat \<Rightarrow> u8 list \<Rightarrow> bool option" where
  "nodemask_isvalid maxid nodemask = mask_scan nodemask [0..<maxid + 1]"

section \<open>The matrix of dependencies\<close>

definition micscif_set_nodedep :: "nat \<Rightarrow> nat \<Rightarrow> dependency_state \<Rightarrow> dep_info \<Rightarrow> dep_info option" where
  "micscif_set_nodedep src_node dst_node st s =
     (if mi_depmtrx s = NULL then Some s
      else do {
        rows \<leftarrow> deref (mi_depmtrx s); r \<leftarrow> nth_opt rows src_node; row \<leftarrow> deref r; _ \<leftarrow> nth_opt row dst_node;
        Some (s\<lparr>mi_depmtrx := Live (rows[src_node := Live (row[dst_node := st])])\<rparr>) })"

definition micscif_get_nodedep :: "nat \<Rightarrow> nat \<Rightarrow> dep_info \<Rightarrow> dependency_state option" where
  "micscif_get_nodedep src_node dst_node s =
     (if mi_depmtrx s = NULL then Some DEP_STATE_NOT_DEPENDENT else dep_at (mi_depmtrx s) src_node dst_node)"

text \<open>The handlers of the messages by which nodes report that they map memory of another node, or do not any more.\<close>

definition scif_node_create_dep :: "nat \<Rightarrow> nat \<Rightarrow> dep_info \<Rightarrow> dep_info option" where
  "scif_node_create_dep src payload s = micscif_set_nodedep src payload DEP_STATE_DEPENDENT s"

definition scif_node_destroy_dep :: "nat \<Rightarrow> nat \<Rightarrow> dep_info \<Rightarrow> dep_info option" where
  "scif_node_destroy_dep src payload s = micscif_set_nodedep src payload DEP_STATE_NOT_DEPENDENT s"

text \<open>Freeing the matrix leaves the pointer to it as it is. Freeing a row twice is \<open>None\<close>.\<close>

fun free_rows :: "nat \<Rightarrow> dependency_state list pointer list \<Rightarrow> dependency_state list pointer list option" where
  "free_rows 0 rows = Some rows"
| "free_rows (Suc n) rows = do {
     rows \<leftarrow> free_rows n rows; r \<leftarrow> nth_opt rows n;
     case r of NULL \<Rightarrow> Some rows | Freed \<Rightarrow> None | Live _ \<Rightarrow> Some (rows[n := Freed]) }"

definition micpm_disconn_uninit :: "nat \<Rightarrow> dep_info \<Rightarrow> dep_info option" where
  "micpm_disconn_uninit num_devs s =
     (case mi_depmtrx s of
        NULL \<Rightarrow> Some s
      | Freed \<Rightarrow> None
      | Live rows \<Rightarrow> do { _ \<leftarrow> free_rows num_devs rows; Some (s\<lparr>mi_depmtrx := Freed\<rparr>) })"

text \<open>The loop that allocates rows \<open>i\<close>, \<open>i + 1\<close>, ...; the allocation of row \<open>i\<close> is the allocation \<open>i + 1\<close> of the run.\<close>

fun alloc_rows :: "(nat \<Rightarrow> bool) \<Rightarrow> nat \<Rightarrow> nat \<Rightarrow> nat \<Rightarrow> dep_info \<Rightarrow> (errno option \<times> dep_info) option" where
  "alloc_rows al num_devs 0 i s = Some (None, s)"
| "alloc_rows al num_devs (Suc n) i s =
     (if al (i + 1) then do {
        rows \<leftarrow> deref (mi_depmtrx s); _ \<leftarrow> nth_opt rows i;
        alloc_rows al num_devs n (i + 1) (s\<lparr>mi_depmtrx := Live (rows[i := Live (replicate num_devs DEP_STATE_NOT_DEPENDENT)])\<rparr>) }
      else do { s \<leftarrow> micpm_disconn_uninit num_devs s; Some (Some ENOMEM, s) })"

definition micpm_disconn_init :: "(nat \<Rightarrow> bool) \<Rightarrow> nat \<Rightarrow> dep_info \<Rightarrow> (errno option \<times> dep_info) option" where
  "micpm_disconn_init al num_devs s =
     (if mi_depmtrx s \<noteq> NULL then Some (None, s)
      else if \<not> al 0 then Some (Some ENOMEM, s)
      else alloc_rows al num_devs num_devs 0 (s\<lparr>mi_depmtrx := Live (replicate num_devs NULL)\<rparr>))"

section \<open>The stack\<close>

text \<open>A list with the top first, and the number of allocations so far.\<close>

record depgraph_stack =
  nodes :: "nat list"
  allocs :: nat

definition stack_push_node :: "(nat \<Rightarrow> bool) \<Rightarrow> depgraph_stack \<Rightarrow> nat \<Rightarrow> errno option \<times> depgraph_stack" where
  "stack_push_node al st node_id =
     (if al (allocs st) then (None, st\<lparr>nodes := node_id # nodes st, allocs := allocs st + 1\<rparr>)
      else (Some ENOMEM, st\<lparr>allocs := allocs st + 1\<rparr>))"

definition is_stack_empty :: "depgraph_stack \<Rightarrow> bool" where
  "is_stack_empty st \<longleftrightarrow> nodes st = []"

fun stack_pop_node :: "depgraph_stack \<Rightarrow> (errno + nat) \<times> depgraph_stack" where
  "stack_pop_node st = (case nodes st of [] \<Rightarrow> (Inl EFAULT, st) | n # ns \<Rightarrow> (Inr n, st\<lparr>nodes := ns\<rparr>))"

section \<open>The set of nodes to wake up\<close>

text \<open>The inner loop over the nodes \<open>i\<close>: the status, the nodes visited and the stack.\<close>

fun act_scan :: "(nat \<Rightarrow> bool) \<Rightarrow> dep_info \<Rightarrow> nat \<Rightarrow> nat list \<Rightarrow> bool list \<Rightarrow> depgraph_stack \<Rightarrow>
    (errno option \<times> bool list \<times> depgraph_stack) option" where
  "act_scan al s node_id [] visited st = Some (None, visited, st)"
| "act_scan al s node_id (i # is) visited st = do {
     v \<leftarrow> nth_opt visited i;
     if v then act_scan al s node_id is visited st
     else do {
       d \<leftarrow> dep_at (mi_depmtrx s) node_id i;
       if d \<noteq> DEP_STATE_DISCONNECTED then act_scan al s node_id is visited st
       else
         let visited = visited[i := True]
         in if i = 0 then act_scan al s node_id is visited st
            else if idle_state s i = PM_IDLE_STATE_PC3 \<or> idle_state s i = PM_IDLE_STATE_PC6 then
              case stack_push_node al st i of
                (Some e, st) \<Rightarrow> Some (Some e, visited, st)
              | (None, st) \<Rightarrow> act_scan al s node_id is visited st
            else act_scan al s node_id is visited st } }"

definition unvisited :: "bool list \<Rightarrow> nat" where
  "unvisited visited = length (filter Not visited)"

lemma unvisited_set: "i < length visited \<Longrightarrow> \<not> visited ! i \<Longrightarrow> unvisited visited = Suc (unvisited (visited[i := True]))"
proof (induction visited arbitrary: i)
  case (Cons v vs)
  then show ?case by (cases i) (auto simp: unvisited_def)
qed simp

lemma act_scan_measure:
  "act_scan al s node_id is visited st = Some (e, visited', st') \<Longrightarrow>
     unvisited visited' + length (nodes st') \<le> unvisited visited + length (nodes st)"
proof (induction "is" arbitrary: visited st)
  case (Cons i "is")
  obtain v where v: "nth_opt visited i = Some v" using Cons.prems by (auto split: Option.bind_splits)
  show ?case
  proof (cases v)
    case True
    then show ?thesis using Cons v by simp
  next
    case False
    then have u: "unvisited visited = Suc (unvisited (visited[i := True]))"
      using v unvisited_set by (auto simp: nth_opt_def split: if_splits)
    obtain d where d: "dep_at (mi_depmtrx s) node_id i = Some d" using Cons.prems v False by (auto split: Option.bind_splits)
    show ?thesis
      using Cons.prems v d False u Cons.IH [of visited st] Cons.IH [of "visited[i := True]" st]
        Cons.IH [of "visited[i := True]" "st\<lparr>nodes := i # nodes st, allocs := allocs st + 1\<rparr>"]
      by (auto simp: Let_def stack_push_node_def split: if_splits)
  qed
qed simp

text \<open>The outer loop; the mask is the one built so far.\<close>

function act_loop :: "(nat \<Rightarrow> bool) \<Rightarrow> dep_info \<Rightarrow> u8 list \<Rightarrow> bool list \<Rightarrow> depgraph_stack \<Rightarrow> (errno option \<times> u8 list) option" where
  "act_loop al s nodemask visited st =
     (if is_stack_empty st then Some (None, nodemask)
      else case stack_pop_node st of
        (Inl e, st) \<Rightarrow> Some (Some e, nodemask)
      | (Inr node_id, st) \<Rightarrow> do {
          nodemask \<leftarrow> set_nodemask_bit nodemask node_id True;
          case act_scan al s node_id [0..<mi_maxid s + 1] visited st of
            None \<Rightarrow> None
          | Some (Some e, _, _) \<Rightarrow> Some (Some e, nodemask)
          | Some (None, visited, st) \<Rightarrow> act_loop al s nodemask visited st })"
  by pat_completeness auto

termination act_loop
proof (relation "measure (\<lambda>(al, s, nodemask, visited, st). unvisited visited + length (nodes st))", goal_cases)
  case (2 al s nodemask visited st r st' node_id mask' e)
  then show ?case by (auto split: list.splits dest: act_scan_measure)
qed simp

declare act_loop.simps [simp del]

definition micscif_get_activeset :: "(nat \<Rightarrow> bool) \<Rightarrow> dep_info \<Rightarrow> nat \<Rightarrow> u8 list \<Rightarrow> (errno option \<times> u8 list) option" where
  "micscif_get_activeset al s node_id nodemask =
     (if mi_depmtrx s = NULL then Some (Some EINVAL, nodemask)
      else
        let num_nodes = mi_maxid s + 1
        in if \<not> al 0 then Some (Some ENOMEM, nodemask)
           else case stack_push_node al \<lparr>nodes = [], allocs = 1\<rparr> node_id of
             (Some e, st) \<Rightarrow> Some (Some e, nodemask)
           | (None, st) \<Rightarrow>
               if node_id < num_nodes then act_loop al s nodemask ((replicate num_nodes False)[node_id := True]) st else None)"

section \<open>The set of nodes to put to sleep\<close>

text \<open>The inner loop of \<open>micscif_get_minimal_deactiveset\<close> over the nodes \<open>i\<close> that may depend on \<open>node_id\<close>.\<close>

fun min_scan :: "(nat \<Rightarrow> bool) \<Rightarrow> dep_info \<Rightarrow> nat \<Rightarrow> nat list \<Rightarrow> bool list \<Rightarrow> depgraph_stack \<Rightarrow>
    (errno option \<times> bool list \<times> depgraph_stack) option" where
  "min_scan al s node_id [] visited st = Some (None, visited, st)"
| "min_scan al s node_id (i # is) visited st = do {
     v \<leftarrow> nth_opt visited i;
     if v then min_scan al s node_id is visited st
     else do {
       d \<leftarrow> dep_at (mi_depmtrx s) i node_id;
       if d = DEP_STATE_DEPENDENT then Some (Some EOPNOTSUPP, visited, st)
       else if d = DEP_STATE_DISCONNECT_READY then
         case stack_push_node al st i of
           (Some e, st) \<Rightarrow> Some (Some e, visited[i := True], st)
         | (None, st) \<Rightarrow> min_scan al s node_id is (visited[i := True]) st
       else min_scan al s node_id is visited st } }"

lemma min_scan_measure:
  "min_scan al s node_id is visited st = Some (e, visited', st') \<Longrightarrow>
     unvisited visited' + length (nodes st') \<le> unvisited visited + length (nodes st)"
proof (induction "is" arbitrary: visited st)
  case (Cons i "is")
  obtain v where v: "nth_opt visited i = Some v" using Cons.prems by (auto split: Option.bind_splits)
  show ?case
  proof (cases v)
    case True
    then show ?thesis using Cons v by simp
  next
    case False
    then have u: "unvisited visited = Suc (unvisited (visited[i := True]))"
      using v unvisited_set by (auto simp: nth_opt_def split: if_splits)
    obtain d where d: "dep_at (mi_depmtrx s) i node_id = Some d" using Cons.prems v False by (auto split: Option.bind_splits)
    show ?thesis
      using Cons.prems v d False u Cons.IH [of visited st]
        Cons.IH [of "visited[i := True]" "st\<lparr>nodes := i # nodes st, allocs := allocs st + 1\<rparr>"]
      by (auto simp: stack_push_node_def split: if_splits)
  qed
qed simp

function min_loop :: "(nat \<Rightarrow> bool) \<Rightarrow> dep_info \<Rightarrow> u8 list \<Rightarrow> bool list \<Rightarrow> depgraph_stack \<Rightarrow>
    (errno option \<times> u8 list \<times> bool list \<times> depgraph_stack) option" where
  "min_loop al s nodemask visited st =
     (if is_stack_empty st then Some (None, nodemask, visited, st)
      else case stack_pop_node st of
        (Inl e, st) \<Rightarrow> Some (Some e, nodemask, visited, st)
      | (Inr node_id, st) \<Rightarrow> do {
          nodemask \<leftarrow> set_nodemask_bit nodemask node_id True;
          case min_scan al s node_id [0..<mi_maxid s + 1] visited st of
            None \<Rightarrow> None
          | Some (Some e, visited, st) \<Rightarrow> Some (Some e, nodemask, visited, st)
          | Some (None, visited, st) \<Rightarrow> min_loop al s nodemask visited st })"
  by pat_completeness auto

termination min_loop
proof (relation "measure (\<lambda>(al, s, nodemask, visited, st). unvisited visited + length (nodes st))", goal_cases)
  case (2 al s nodemask visited st r st' node_id mask' e)
  then show ?case by (auto split: list.splits dest: min_scan_measure)
qed simp

declare min_loop.simps [simp del]

text \<open>The nodes left on the stack are popped at \<open>exit_pop\<close>. Every pop overwrites the status.\<close>

fun exit_pop :: "errno option \<Rightarrow> bool list \<Rightarrow> nat list \<Rightarrow> (errno option \<times> bool list) option" where
  "exit_pop status visited [] = Some (status, visited)"
| "exit_pop status visited (node_id # ns) = do { _ \<leftarrow> nth_opt visited node_id; exit_pop None (visited[node_id := False]) ns }"

text \<open>The result has the number of allocations too; \<open>k\<close> is their number before the call.\<close>

definition micscif_get_minimal_deactiveset :: "(nat \<Rightarrow> bool) \<Rightarrow> nat \<Rightarrow> dep_info \<Rightarrow> nat \<Rightarrow> u8 list \<Rightarrow> bool list \<Rightarrow>
    (errno option \<times> u8 list \<times> bool list \<times> nat) option" where
  "micscif_get_minimal_deactiveset al k s node_id nodemask visited =
     (if mi_depmtrx s = NULL then Some (Some EINVAL, nodemask, visited, k)
      else case stack_push_node al \<lparr>nodes = [], allocs = k\<rparr> node_id of
        (Some e, st) \<Rightarrow> Some (Some e, nodemask, visited, allocs st)
      | (None, st) \<Rightarrow> do {
          _ \<leftarrow> nth_opt visited node_id;
          (status, nodemask, visited, st) \<leftarrow> min_loop al s nodemask (visited[node_id := True]) st;
          (status, visited) \<leftarrow> exit_pop status visited (nodes st);
          Some (status, nodemask, visited, allocs st) })"

text \<open>The loop of \<open>micscif_get_deactiveset\<close> that looks for further nodes.\<close>

fun deact_scan :: "(nat \<Rightarrow> bool) \<Rightarrow> dep_info \<Rightarrow> nat \<Rightarrow> nat list \<Rightarrow> bool list \<Rightarrow> depgraph_stack \<Rightarrow> (errno option \<times> depgraph_stack) option" where
  "deact_scan al s node_id [] visited st = Some (None, st)"
| "deact_scan al s node_id (i # is) visited st = do {
     v \<leftarrow> nth_opt visited i;
     if v then deact_scan al s node_id is visited st
     else do {
       d \<leftarrow> dep_at (mi_depmtrx s) node_id i;
       if d = DEP_STATE_DISCONNECT_READY \<and> i \<noteq> 0 \<and> idle_state s i = PM_IDLE_STATE_PC3_READY then
         case stack_push_node al st i of
           (Some e, st) \<Rightarrow> Some (Some e, st)
         | (None, st) \<Rightarrow> deact_scan al s node_id is visited st
       else deact_scan al s node_id is visited st } }"

text \<open>The searches mark nodes as visited, and take back the mark only from nodes that were not visited before.\<close>

definition grows :: "bool list \<Rightarrow> bool list \<Rightarrow> bool" where
  "grows v v' \<longleftrightarrow> length v' = length v \<and> (\<forall>j < length v. v ! j \<longrightarrow> v' ! j)"

lemma grows_refl [simp]: "grows v v" and grows_trans: "grows u v \<Longrightarrow> grows v w \<Longrightarrow> grows u w"
  by (auto simp: grows_def)

lemma grows_set [simp]: "grows v (v[i := True])"
  by (cases "i < length v") (auto simp: grows_def nth_list_update)

lemma grows_unvisited: "grows v v' \<Longrightarrow> unvisited v' \<le> unvisited v"
proof (induction v arbitrary: v')
  case (Cons a v)
  then obtain b w where v': "v' = b # w" by (auto simp: grows_def length_Suc_conv)
  then have "grows v w" "a \<longrightarrow> b" using Cons.prems by (auto simp: grows_def)
  then show ?case using Cons.IH [of w] v' by (auto simp: unvisited_def)
qed (simp add: grows_def)

lemma grows_strict:
  assumes "grows (v[i := True]) v'" and "i < length v" and "\<not> v ! i"
  shows "unvisited v' < unvisited v"
  using grows_unvisited [OF assms(1)] unvisited_set [OF assms(2,3)] by simp

lemma min_scan_grows:
  "min_scan al s node_id is visited st = Some (e, visited', st') \<Longrightarrow>
     grows visited visited' \<and> (\<forall>j \<in> set (nodes st'). j \<in> set (nodes st) \<or> j < length visited \<and> \<not> visited ! j)"
proof (induction "is" arbitrary: visited st)
  case (Cons i "is")
  obtain v where v: "nth_opt visited i = Some v" using Cons.prems by (auto split: Option.bind_splits)
  then have i: "i < length visited" "visited ! i = v" by (auto simp: nth_opt_def split: if_splits)
  show ?case
  proof (cases v)
    case True
    then show ?thesis using Cons v by simp
  next
    case False
    obtain d where d: "dep_at (mi_depmtrx s) i node_id = Some d" using Cons.prems v False by (auto split: Option.bind_splits)
    let ?st = "st\<lparr>nodes := i # nodes st, allocs := allocs st + 1\<rparr>"
    have "grows visited visited' \<and> (\<forall>j \<in> set (nodes st'). j \<in> set (nodes st) \<or> j < length visited \<and> \<not> visited ! j)"
      if "min_scan al s node_id is (visited[i := True]) ?st = Some (e, visited', st')"
    proof -
      have "j \<in> set (nodes st) \<or> j < length visited \<and> \<not> visited ! j"
        if "j \<in> set (nodes ?st) \<or> j < length (visited[i := True]) \<and> \<not> visited[i := True] ! j" for j
        using that i False by (cases "j = i") auto
      then show ?thesis using Cons.IH [OF that] grows_trans [OF grows_set [of visited i], of visited'] by blast
    qed
    then show ?thesis using Cons.prems v d False Cons.IH [of visited st] by (auto simp: stack_push_node_def split: if_splits)
  qed
qed auto

lemma min_loop_grows:
  "min_loop al s nodemask visited st = Some (e, nodemask', visited', st') \<Longrightarrow>
     grows visited visited' \<and> (\<forall>j \<in> set (nodes st'). j \<in> set (nodes st) \<or> j < length visited \<and> \<not> visited ! j)"
proof (induction al s nodemask visited st rule: min_loop.induct)
  case (1 al s nodemask visited st)
  show ?case
  proof (cases "nodes st")
    case Nil
    then show ?thesis using "1.prems" by (auto simp: min_loop.simps [of al s nodemask visited st] is_stack_empty_def)
  next
    case (Cons n ns)
    let ?st = "st\<lparr>nodes := ns\<rparr>"
    have pop: "stack_pop_node st = (Inr n, ?st)" using Cons by simp
    obtain m where m: "set_nodemask_bit nodemask n True = Some m"
      using "1.prems" Cons by (auto simp: min_loop.simps [of al s nodemask visited st] is_stack_empty_def split: Option.bind_splits)
    obtain e1 v1 st1 where sc: "min_scan al s n [0..<mi_maxid s + 1] visited ?st = Some (e1, v1, st1)"
      using "1.prems" Cons m by (auto simp: min_loop.simps [of al s nodemask visited st] is_stack_empty_def split: option.splits)
    note g = min_scan_grows [OF sc]
    show ?thesis
    proof (cases e1)
      case None
      then have "min_loop al s m v1 st1 = Some (e, nodemask', visited', st')"
        using "1.prems" Cons m sc by (simp add: min_loop.simps [of al s nodemask visited st] is_stack_empty_def)
      then have "grows v1 visited' \<and> (\<forall>j \<in> set (nodes st'). j \<in> set (nodes st1) \<or> j < length v1 \<and> \<not> v1 ! j)"
        using "1.IH" [OF _ pop [symmetric] refl m sc] Cons None by (simp add: is_stack_empty_def)
      moreover have "j < length visited \<and> \<not> visited ! j" if "\<not> v1 ! j" "j < length v1" for j using g that by (auto simp: grows_def)
      ultimately show ?thesis using g Cons grows_trans by fastforce
    next
      case (Some e2)
      then show ?thesis using "1.prems" Cons m sc g by (auto simp: min_loop.simps [of al s nodemask visited st] is_stack_empty_def)
    qed
  qed
qed

lemma exit_pop_grows:
  "exit_pop status visited ns = Some (status', visited') \<Longrightarrow> grows v visited \<Longrightarrow> \<forall>j \<in> set ns. j < length v \<and> \<not> v ! j \<Longrightarrow> grows v visited'"
proof (induction ns arbitrary: status visited)
  case (Cons n ns)
  then have "grows v (visited[n := False])" by (auto simp: grows_def nth_list_update)
  then show ?case using Cons by (auto split: Option.bind_splits)
qed simp

lemma minimal_visits:
  assumes m: "micscif_get_minimal_deactiveset al k s node_id nodemask visited = Some (status, nodemask', visited', k')"
    and e: "status = None \<or> status = Some EOPNOTSUPP" and v: "node_id < length visited" "\<not> visited ! node_id"
  shows "unvisited visited' < unvisited visited"
proof -
  let ?v = "visited[node_id := True]" and ?st = "\<lparr>nodes = [node_id], allocs = Suc k\<rparr>"
  obtain st1 mask1 v1 e1 where l: "min_loop al s nodemask ?v ?st = Some (e1, mask1, v1, st1)"
    and x: "exit_pop e1 v1 (nodes st1) = Some (status, visited')"
    using m e v by (auto simp: micscif_get_minimal_deactiveset_def stack_push_node_def nth_opt_def split: if_splits Option.bind_splits)
  have "grows ?v v1 \<and> (\<forall>j \<in> set (nodes st1). j < length ?v \<and> \<not> ?v ! j)"
  proof -
    obtain m where m: "set_nodemask_bit nodemask node_id True = Some m"
      using l by (auto simp: min_loop.simps [of al s nodemask ?v ?st] is_stack_empty_def split: Option.bind_splits)
    obtain e2 v2 st2 where sc: "min_scan al s node_id [0..<mi_maxid s + 1] ?v (?st\<lparr>nodes := []\<rparr>) = Some (e2, v2, st2)"
      using l m by (auto simp: min_loop.simps [of al s nodemask ?v ?st] is_stack_empty_def split: option.splits)
    have g: "grows ?v v2 \<and> (\<forall>j \<in> set (nodes st2). j < length ?v \<and> \<not> ?v ! j)" using min_scan_grows [OF sc] by simp
    show ?thesis
    proof (cases e2)
      case None
      then have "min_loop al s m v2 st2 = Some (e1, mask1, v1, st1)"
        using l m sc by (simp add: min_loop.simps [of al s nodemask ?v ?st] is_stack_empty_def)
      from min_loop_grows [OF this] show ?thesis using g grows_trans [of ?v v2 v1] by (fastforce simp: grows_def)
    next
      case (Some _)
      then show ?thesis using l m sc g by (simp add: min_loop.simps [of al s nodemask ?v ?st] is_stack_empty_def)
    qed
  qed
  then show ?thesis using exit_pop_grows [OF x] grows_strict [OF _ v] by blast
qed

lemma deact_scan_pushes:
  "deact_scan al s node_id is visited st = Some (e, st') \<Longrightarrow>
     \<exists>new. nodes st' = new @ nodes st \<and> (\<forall>j \<in> set new. j < length visited \<and> \<not> visited ! j)"
proof (induction "is" arbitrary: st)
  case (Cons i "is")
  obtain v where v: "nth_opt visited i = Some v" using Cons.prems by (auto split: Option.bind_splits)
  then have i: "i < length visited" "visited ! i = v" by (auto simp: nth_opt_def split: if_splits)
  show ?case
  proof (cases v)
    case True
    then show ?thesis using Cons v by simp
  next
    case False
    obtain d where d: "dep_at (mi_depmtrx s) node_id i = Some d" using Cons.prems v False by (auto split: Option.bind_splits)
    let ?st = "st\<lparr>nodes := i # nodes st, allocs := allocs st + 1\<rparr>"
    have "\<exists>new. nodes st' = new @ nodes st \<and> (\<forall>j \<in> set new. j < length visited \<and> \<not> visited ! j)"
      if r: "deact_scan al s node_id is visited ?st = Some (e, st')"
    proof -
      obtain new where "nodes st' = new @ i # nodes st" "\<forall>j \<in> set new. j < length visited \<and> \<not> visited ! j" using Cons.IH [OF r] by auto
      then show ?thesis using i False by (intro exI [of _ "new @ [i]"]) auto
    qed
    then show ?thesis using Cons.prems v d False Cons.IH [of st] by (auto simp: stack_push_node_def split: if_splits)
  qed
qed auto

text \<open>
  The outer loop. A step either visits a node, or puts an unvisited node on top of the stack, or takes a node from the stack.
  \<open>cont_next_step\<close> is \<open>max_disconn\<close> unless the node just popped has no de-activation set.
\<close>

definition top_visited :: "bool list \<Rightarrow> depgraph_stack \<Rightarrow> nat" where
  "top_visited visited st = (case nodes st of [] \<Rightarrow> 1 | n # ns \<Rightarrow> if n < length visited \<and> \<not> visited ! n then 0 else 1)"

function deact_loop :: "(nat \<Rightarrow> bool) \<Rightarrow> dep_info \<Rightarrow> bool \<Rightarrow> errno option \<Rightarrow> u8 list \<Rightarrow> bool list \<Rightarrow> depgraph_stack \<Rightarrow>
    (errno option \<times> u8 list) option" where
  "deact_loop al s max_disconn status nodemask visited st =
     (if is_stack_empty st then Some (status, nodemask)
      else case stack_pop_node st of
        (Inl e, st) \<Rightarrow> Some (Some e, nodemask)
      | (Inr node_id, st) \<Rightarrow>
          case nth_opt visited node_id of
            None \<Rightarrow> None
          | Some v \<Rightarrow>
              case (if v then Some (None, nodemask, visited, allocs st)
                    else micscif_get_minimal_deactiveset al (allocs st) s node_id nodemask visited) of
                None \<Rightarrow> None
              | Some (status, nodemask, visited, k) \<Rightarrow>
                  if status \<noteq> None \<and> status \<noteq> Some EOPNOTSUPP then Some (status, nodemask)
                  else if max_disconn \<and> status = None then
                    case deact_scan al s node_id [0..<mi_maxid s + 1] visited (st\<lparr>allocs := k\<rparr>) of
                      None \<Rightarrow> None
                    | Some (Some e, st) \<Rightarrow> Some (Some e, nodemask)
                    | Some (None, st) \<Rightarrow> deact_loop al s max_disconn None nodemask visited st
                  else deact_loop al s max_disconn status nodemask visited (st\<lparr>allocs := k\<rparr>))"
  by pat_completeness auto

lemma deact_step:
  assumes "stack_pop_node st = (Inr node_id, st')" and "nth_opt visited node_id = Some v"
    and "(if v then Some (None, nodemask, visited, allocs st') else micscif_get_minimal_deactiveset al (allocs st') s node_id nodemask visited) =
      Some (status, nodemask', visited', k)" and "status = None \<or> status = Some EOPNOTSUPP"
  shows "unvisited visited' < unvisited visited \<or> visited' = visited \<and> top_visited visited st = 1 \<and> length (nodes st') < length (nodes st)"
proof (cases v)
  case True
  then show ?thesis using assms by (auto simp: top_visited_def nth_opt_def split: list.splits if_splits)
next
  case False
  then show ?thesis using assms minimal_visits by (fastforce simp: nth_opt_def split: if_splits)
qed

lemma top_visited_le [simp]: "top_visited visited st \<le> 1" "top_visited visited (st\<lparr>allocs := k\<rparr>) = top_visited visited st"
  by (simp_all add: top_visited_def split: list.splits)

termination deact_loop
proof (relation "measures [\<lambda>(al, s, m, status, nodemask, visited, st). unvisited visited,
    \<lambda>(al, s, m, status, nodemask, visited, st). top_visited visited st, \<lambda>(al, s, m, status, nodemask, visited, st). length (nodes st)]", goal_cases)
  case (2 al s m status nodemask visited st r st' node_id v q status' q' nodemask' q'' visited' k e' e st'')
  have "unvisited visited' < unvisited visited \<or> visited' = visited \<and> top_visited visited st = 1 \<and> length (nodes st') < length (nodes st)"
    using deact_step [of st node_id st' visited v nodemask al s status' nodemask' visited' k] 2 by auto
  moreover obtain new where n: "nodes st'' = new @ nodes st'" "\<forall>j \<in> set new. j < length visited' \<and> \<not> visited' ! j"
    using deact_scan_pushes [of al s node_id _ visited' "st'\<lparr>allocs := k\<rparr>"] 2 by fastforce
  moreover have "new = [] \<or> top_visited visited' st'' = 0" using n by (cases new) (auto simp: top_visited_def)
  ultimately show ?case using top_visited_le(1) [of visited st''] by (auto simp: less_le)
next
  case (3 al s m status nodemask visited st r st' node_id v q status' q' nodemask' q'' visited' k)
  have "unvisited visited' < unvisited visited \<or> visited' = visited \<and> top_visited visited st = 1 \<and> length (nodes st') < length (nodes st)"
    using deact_step [of st node_id st' visited v nodemask al s status' nodemask' visited' k] 3 by auto
  then show ?case using top_visited_le(1) [of visited st'] by (auto simp: less_le)
qed simp

declare deact_loop.simps [simp del]

definition micscif_get_deactiveset :: "(nat \<Rightarrow> bool) \<Rightarrow> dep_info \<Rightarrow> nat \<Rightarrow> u8 list \<Rightarrow> bool \<Rightarrow> (errno option \<times> u8 list) option" where
  "micscif_get_deactiveset al s node_id nodemask max_disconn =
     (if mi_depmtrx s = NULL then Some (Some EINVAL, nodemask)
      else if \<not> al 0 then Some (Some ENOMEM, nodemask)
      else case stack_push_node al \<lparr>nodes = [], allocs = 1\<rparr> node_id of
        (Some e, st) \<Rightarrow> Some (Some e, nodemask)
      | (None, st) \<Rightarrow> do {
          (status, nodemask) \<leftarrow> deact_loop al s max_disconn None nodemask (replicate (mi_maxid s + 1) False) st;
          if status \<noteq> None \<and> status \<noteq> Some EOPNOTSUPP then Some (status, nodemask)
          else do {
            valid \<leftarrow> nodemask_isvalid (mi_maxid s) nodemask;
            Some (if valid then status else Some EOPNOTSUPP, nodemask) } })"

section \<open>Masks as sets\<close>

definition mask_set :: "u8 list \<Rightarrow> nat set" where
  "mask_set m = {j. j div 8 < length m \<and> bit (m ! (j div 8)) (j mod 8)}"

lemma mask_pos: "j - j div 8 * 8 = j mod 8" for j :: nat
  by (simp add: minus_div_mult_eq_mod)

lemma mask_in: "n \<le> maxid \<Longrightarrow> maxid < 8 * l \<Longrightarrow> n div 8 < l" for n :: nat
  by (simp add: div_less_iff_less_mult mult.commute)

lemma bit_mask_byte: "bit (ucast ((2 :: u64) ^ k) :: u8) i \<longleftrightarrow> i = k" if "k < 8"
  using that by (auto simp: bit_simps)

lemma set_mask:
  assumes "j div 8 < length m"
  shows "\<exists>m'. set_nodemask_bit m j True = Some m' \<and> length m' = length m \<and> mask_set m' = insert j (mask_set m)"
proof -
  let ?m = "m[j div 8 := m ! (j div 8) OR ucast (push_bit (j mod 8) (1 :: u64))]"
  have "set_nodemask_bit m j True = Some ?m" using assms by (simp add: set_nodemask_bit_def nth_opt_def mask_pos Let_def)
  moreover have "i \<in> mask_set ?m \<longleftrightarrow> i = j \<or> i \<in> mask_set m" for i
  proof (cases "i div 8 = j div 8")
    case True
    have "i mod 8 = j mod 8 \<longleftrightarrow> i = j" using True by (metis div_mult_mod_eq)
    then show ?thesis using True assms by (auto simp: mask_set_def bit_or_iff bit_mask_byte)
  next
    case False
    then show ?thesis using assms by (auto simp: mask_set_def)
  qed
  ultimately show ?thesis by (intro exI [of _ ?m]) auto
qed

lemma get_mask:
  assumes "j div 8 < length m"
  shows "get_nodemask_bit m j = Some (j \<in> mask_set m)"
proof -
  have "(ucast (m ! (j div 8)) :: u64) AND push_bit (j mod 8) 1 \<noteq> 0 \<longleftrightarrow> bit (m ! (j div 8)) (j mod 8)"
  proof -
    have "j mod 8 < 64" by (rule less_trans [of _ 8]) simp_all
    then show ?thesis by (simp add: bit_eq_iff [of _ "0 :: u64"] bit_simps)
  qed
  then show ?thesis using assms by (simp add: get_nodemask_bit_def nth_opt_def mask_pos mask_set_def Let_def)
qed

lemma mask_scan_spec: "\<forall>i \<in> set is. i div 8 < length m \<Longrightarrow> mask_scan m is = Some (\<exists>i \<in> set is. i \<in> mask_set m)"
  by (induction "is") (auto simp: get_mask)

section \<open>Searches\<close>

text \<open>
  The state of a search from \<open>start\<close> along \<open>edge\<close>: the nodes visited, those processed and those on the stack. A node that is visited but neither
  processed nor on the stack is not the end of an edge.
\<close>

definition search_inv :: "(nat \<Rightarrow> nat \<Rightarrow> bool) \<Rightarrow> nat \<Rightarrow> nat set \<Rightarrow> nat set \<Rightarrow> nat set \<Rightarrow> bool" where
  "search_inv edge start V P S \<longleftrightarrow> start \<in> P \<union> S \<and> P \<union> S \<subseteq> {v. edge\<^sup>*\<^sup>* start v} \<and> (\<forall>u \<in> P. \<forall>v. edge u v \<longrightarrow> v \<in> P \<union> S) \<and>
     (\<forall>u v. edge u v \<longrightarrow> v \<in> V \<longrightarrow> v \<in> P \<union> S)"

lemma search_start: "(\<And>u v. edge u v \<Longrightarrow> v \<in> V \<Longrightarrow> v = start) \<Longrightarrow> search_inv edge start V {} {start}"
  by (auto simp: search_inv_def)

lemma search_step:
  assumes "search_inv edge start V P (insert n S)" and "\<And>v. edge n v \<Longrightarrow> v \<in> V'" and "\<And>v. v \<in> new \<Longrightarrow> edge n v"
    and "\<And>u v. edge u v \<Longrightarrow> v \<in> V' \<Longrightarrow> v \<in> V \<or> v \<in> new"
  shows "search_inv edge start V' (insert n P) (S \<union> new)"
proof -
  have "edge\<^sup>*\<^sup>* start n" using assms(1) by (auto simp: search_inv_def)
  then have "edge\<^sup>*\<^sup>* start v" if "v \<in> new" for v using assms(3) [OF that] by (rule rtranclp.rtrancl_into_rtrancl)
  then show ?thesis using assms unfolding search_inv_def by blast
qed

lemma search_end:
  assumes "search_inv edge start V P {}"
  shows "P = {v. edge\<^sup>*\<^sup>* start v}"
proof -
  have "v \<in> P" if "edge\<^sup>*\<^sup>* start v" for v
    using that by (induction rule: rtranclp_induct) (use assms in \<open>auto simp: search_inv_def\<close>)
  then show ?thesis using assms by (auto simp: search_inv_def)
qed

text \<open>A matrix with an entry for every pair of nodes.\<close>

definition dep :: "dep_info \<Rightarrow> nat \<Rightarrow> nat \<Rightarrow> dependency_state" where
  "dep s u v = the (dep_at (mi_depmtrx s) u v)"

definition deps_ok :: "dep_info \<Rightarrow> bool" where
  "deps_ok s \<longleftrightarrow> (\<forall>u \<le> mi_maxid s. \<forall>v \<le> mi_maxid s. dep_at (mi_depmtrx s) u v \<noteq> None)"

lemma dep_at_ok: "deps_ok s \<Longrightarrow> u \<le> mi_maxid s \<Longrightarrow> v \<le> mi_maxid s \<Longrightarrow> dep_at (mi_depmtrx s) u v = Some (dep s u v)"
  by (auto simp: deps_ok_def dep_def)

lemma deps_ok_ptr: "deps_ok s \<Longrightarrow> mi_depmtrx s \<noteq> NULL"
  by (auto simp: deps_ok_def dep_at_def)

definition visited_set :: "bool list \<Rightarrow> nat set" where
  "visited_set visited = {j. j < length visited \<and> visited ! j}"

lemma visited_set_update [simp]: "i < length visited \<Longrightarrow> visited_set (visited[i := True]) = insert i (visited_set visited)"
  by (auto simp: visited_set_def nth_list_update)

lemma visited_nth: "i < length visited \<Longrightarrow> nth_opt visited i = Some (i \<in> visited_set visited)"
  by (simp add: nth_opt_def visited_set_def)

definition asleep :: "dep_info \<Rightarrow> nat \<Rightarrow> bool" where
  "asleep s i \<longleftrightarrow> idle_state s i = PM_IDLE_STATE_PC3 \<or> idle_state s i = PM_IDLE_STATE_PC6"

definition act_edge :: "dep_info \<Rightarrow> nat \<Rightarrow> nat \<Rightarrow> bool" where
  "act_edge s u v \<longleftrightarrow> v \<le> mi_maxid s \<and> v \<noteq> 0 \<and> dep s u v = DEP_STATE_DISCONNECTED \<and> asleep s v"

lemma act_scan_spec:
  assumes "deps_ok s" and "node_id \<le> mi_maxid s" and al: "\<forall>k. al k" and "\<forall>i \<in> set is. i \<le> mi_maxid s" and "length visited = mi_maxid s + 1"
  shows "\<exists>visited' st'. act_scan al s node_id is visited st = Some (None, visited', st') \<and> length visited' = mi_maxid s + 1 \<and>
    visited_set visited' = visited_set visited \<union> {i \<in> set is. dep s node_id i = DEP_STATE_DISCONNECTED} \<and>
    set (nodes st') = set (nodes st) \<union> {i \<in> set is. i \<notin> visited_set visited \<and> act_edge s node_id i}"
  using assms(4,5)
proof (induction "is" arbitrary: visited st)
  case (Cons i "is")
  have i: "i \<le> mi_maxid s" "i < length visited" using Cons.prems by simp_all
  note step = act_scan.simps(2) [of al s node_id i "is" visited st, unfolded visited_nth [OF i(2)] dep_at_ok [OF assms(1,2) i(1)] Option.bind_lunit]
  show ?case
  proof (cases "i \<in> visited_set visited \<or> dep s node_id i \<noteq> DEP_STATE_DISCONNECTED")
    case True
    then have "act_scan al s node_id (i # is) visited st = act_scan al s node_id is visited st" using step by auto
    moreover have "\<not> act_edge s node_id i \<or> i \<in> visited_set visited" using True by (auto simp: act_edge_def)
    ultimately show ?thesis using Cons.IH [of visited st] Cons.prems True by fastforce
  next
    case False
    define st1 where "st1 = (if i \<noteq> 0 \<and> asleep s i then st\<lparr>nodes := i # nodes st, allocs := allocs st + 1\<rparr> else st)"
    have "act_scan al s node_id (i # is) visited st = act_scan al s node_id is (visited[i := True]) st1"
      using step False al by (simp add: Let_def st1_def asleep_def stack_push_node_def)
    moreover have "set (nodes st1) = set (nodes st) \<union> {j. j = i \<and> act_edge s node_id i}"
      using False i by (auto simp: st1_def act_edge_def)
    moreover obtain visited' st' where "act_scan al s node_id is (visited[i := True]) st1 = Some (None, visited', st')" "length visited' = mi_maxid s + 1"
      "visited_set visited' = visited_set (visited[i := True]) \<union> {i \<in> set is. dep s node_id i = DEP_STATE_DISCONNECTED}"
      "set (nodes st') = set (nodes st1) \<union> {j \<in> set is. j \<notin> visited_set (visited[i := True]) \<and> act_edge s node_id j}"
      using Cons.IH [of "visited[i := True]" st1] Cons.prems by auto
    ultimately show ?thesis using False i by auto
  qed
qed simp

lemma act_loop_spec:
  assumes "deps_ok s" and "\<forall>k. al k" and "length visited = mi_maxid s + 1" and "mi_maxid s < 8 * length nodemask"
    and "\<forall>j \<in> set (nodes st). j \<le> mi_maxid s" and "search_inv (act_edge s) start (visited_set visited) P (set (nodes st))"
    and "mask_set nodemask = M \<union> P"
  shows "\<exists>nodemask'. act_loop al s nodemask visited st = Some (None, nodemask') \<and> length nodemask' = length nodemask \<and>
    mask_set nodemask' = M \<union> {v. (act_edge s)\<^sup>*\<^sup>* start v}"
  using assms
proof (induction al s nodemask visited st arbitrary: P rule: act_loop.induct)
  case (1 al s nodemask visited st)
  note prems = "1.prems"
  show ?case
  proof (cases "nodes st")
    case Nil
    then have "P = {v. (act_edge s)\<^sup>*\<^sup>* start v}" using prems(6) search_end by simp
    then show ?thesis using Nil prems(7) by (auto simp: act_loop.simps [of al s nodemask visited st] is_stack_empty_def)
  next
    case (Cons n ns)
    let ?st = "st\<lparr>nodes := ns\<rparr>"
    have pop: "stack_pop_node st = (Inr n, ?st)" and n: "n \<le> mi_maxid s" using Cons prems(5) by simp_all
    obtain m where m: "set_nodemask_bit nodemask n True = Some m" "length m = length nodemask" "mask_set m = insert n (mask_set nodemask)"
      using set_mask [OF mask_in [OF n prems(4)]] by blast
    obtain v st1 where sc: "act_scan al s n [0..<mi_maxid s + 1] visited ?st = Some (None, v, st1)" "length v = mi_maxid s + 1"
      "visited_set v = visited_set visited \<union> {i \<in> set [0..<mi_maxid s + 1]. dep s n i = DEP_STATE_DISCONNECTED}"
      "set (nodes st1) = set (nodes ?st) \<union> {i \<in> set [0..<mi_maxid s + 1]. i \<notin> visited_set visited \<and> act_edge s n i}"
      using act_scan_spec [OF prems(1) n prems(2) _ prems(3), of "[0..<mi_maxid s + 1]" ?st] by auto
    have i: "search_inv (act_edge s) start (visited_set visited) P (insert n (set (nodes ?st)))" using prems(6) Cons by simp
    have inv: "search_inv (act_edge s) start (visited_set v) (insert n P) (set (nodes st1))"
      unfolding sc(4) by (intro search_step [OF i]) (auto simp: sc(3) act_edge_def)
    have l: "act_loop al s nodemask visited st = act_loop al s m v st1"
      using Cons m(1) sc(1) by (simp add: act_loop.simps [of al s nodemask visited st] is_stack_empty_def)
    have stk: "\<forall>j \<in> set (nodes st1). j \<le> mi_maxid s" using sc(4) prems(5) Cons by auto
    have ne: "\<not> is_stack_empty st" using Cons by (simp add: is_stack_empty_def)
    have mm: "mi_maxid s < 8 * length m" "mask_set m = M \<union> insert n P" using prems(4,7) m(2,3) by simp_all
    show ?thesis unfolding l m(2) [symmetric]
      by (rule "1.IH" [OF ne pop [symmetric] refl m(1) sc(1) refl refl refl prems(1,2) sc(2) mm(1) stk inv mm(2)])
  qed
qed






section \<open>Searches return\<close>

text \<open>Whatever allocations succeed, the searches stay inside of their arrays.\<close>

definition in_range :: "dep_info \<Rightarrow> depgraph_stack \<Rightarrow> bool" where
  "in_range s st \<longleftrightarrow> (\<forall>j \<in> set (nodes st). j \<le> mi_maxid s)"

lemma in_range_simps [simp]: "in_range s \<lparr>nodes = ns, allocs = k\<rparr> \<longleftrightarrow> (\<forall>j \<in> set ns. j \<le> mi_maxid s)"
  "in_range s (st\<lparr>allocs := k\<rparr>) = in_range s st" "in_range s (st\<lparr>nodes := ns\<rparr>) \<longleftrightarrow> (\<forall>j \<in> set ns. j \<le> mi_maxid s)"
  by (simp_all add: in_range_def)

lemma push_range: "in_range s st \<Longrightarrow> i \<le> mi_maxid s \<Longrightarrow> in_range s (snd (stack_push_node al st i))"
  by (simp add: stack_push_node_def in_range_def)

lemma min_scan_total:
  assumes "deps_ok s" and "node_id \<le> mi_maxid s" and "\<forall>i \<in> set is. i \<le> mi_maxid s" and "length visited = mi_maxid s + 1" and "in_range s st"
  shows "\<exists>e visited' st'. min_scan al s node_id is visited st = Some (e, visited', st') \<and> length visited' = mi_maxid s + 1 \<and> in_range s st'"
  using assms(3-5)
proof (induction "is" arbitrary: visited st)
  case (Cons i "is")
  have i: "i \<le> mi_maxid s" "i < length visited" using Cons.prems by simp_all
  note step = min_scan.simps(2) [of al s node_id i "is" visited st, unfolded visited_nth [OF i(2)] dep_at_ok [OF assms(1) i(1) assms(2)] Option.bind_lunit]
  obtain e st1 where p: "stack_push_node al st i = (e, st1)" by fastforce
  have "in_range s st1" using push_range [OF Cons.prems(3) i(1), of al] p by simp
  then show ?case
    using step p Cons.prems Cons.IH [of visited st] Cons.IH [of "visited[i := True]" st1] by (auto split: option.splits)
qed simp

lemma min_loop_total:
  assumes "deps_ok s" and "length visited = mi_maxid s + 1" and "mi_maxid s < 8 * length nodemask" and "in_range s st"
  shows "\<exists>e nodemask' visited' st'. min_loop al s nodemask visited st = Some (e, nodemask', visited', st') \<and> length nodemask' = length nodemask \<and>
    length visited' = mi_maxid s + 1 \<and> in_range s st'"
  using assms
proof (induction al s nodemask visited st rule: min_loop.induct)
  case (1 al s nodemask visited st)
  note prems = "1.prems"
  show ?case
  proof (cases "nodes st")
    case Nil
    then show ?thesis using prems by (simp add: min_loop.simps [of al s nodemask visited st] is_stack_empty_def)
  next
    case (Cons n ns)
    let ?st = "st\<lparr>nodes := ns\<rparr>" and ?N = "[0..<mi_maxid s + 1]"
    have pop: "stack_pop_node st = (Inr n, ?st)" and n: "n \<le> mi_maxid s" and r: "in_range s ?st" using Cons prems(4) by (simp_all add: in_range_def)
    have ne: "\<not> is_stack_empty st" using Cons by (simp add: is_stack_empty_def)
    obtain m where m: "set_nodemask_bit nodemask n True = Some m" "length m = length nodemask" using set_mask [OF mask_in [OF n prems(3)]] by blast
    have N: "\<forall>i \<in> set ?N. i \<le> mi_maxid s" by auto
    obtain e v st1 where sc: "min_scan al s n ?N visited ?st = Some (e, v, st1)" "length v = mi_maxid s + 1" "in_range s st1"
      using min_scan_total [OF prems(1) n N prems(2) r] by blast
    have mm: "mi_maxid s < 8 * length m" using prems(3) m(2) by simp
    show ?thesis
    proof (cases e)
      case None
      then have "min_loop al s nodemask visited st = min_loop al s m v st1"
        using ne Cons m(1) sc(1) by (simp add: min_loop.simps [of al s nodemask visited st])
      then show ?thesis unfolding m(2) [symmetric]
        using "1.IH" [OF ne pop [symmetric] refl m(1) sc(1) refl None refl prems(1) sc(2) mm sc(3)] by simp
    next
      case (Some e')
      then show ?thesis using ne Cons m sc by (simp add: min_loop.simps [of al s nodemask visited st])
    qed
  qed
qed

lemma exit_pop_total:
  "\<forall>j \<in> set ns. j < length visited \<Longrightarrow> \<exists>e v. exit_pop status visited ns = Some (e, v) \<and> length v = length visited"
proof (induction ns arbitrary: status visited)
  case (Cons n ns)
  then show ?case using Cons.IH [of "visited[n := False]" None] by (simp add: nth_opt_def)
qed simp

lemma minimal_total:
  assumes "deps_ok s" and "length visited = mi_maxid s + 1" and "mi_maxid s < 8 * length nodemask" and "node_id \<le> mi_maxid s"
  shows "\<exists>e nodemask' visited' k'. micscif_get_minimal_deactiveset al k s node_id nodemask visited = Some (e, nodemask', visited', k') \<and>
    length nodemask' = length nodemask \<and> length visited' = mi_maxid s + 1"
proof (cases "al k")
  case True
  let ?st = "\<lparr>nodes = [node_id], allocs = Suc k\<rparr>"
  have v: "length (visited[node_id := True]) = mi_maxid s + 1" using assms(2) by simp
  obtain e m v1 st' where l: "min_loop al s nodemask (visited[node_id := True]) ?st = Some (e, m, v1, st')" "length m = length nodemask"
    "length v1 = mi_maxid s + 1" "in_range s st'" using min_loop_total [OF assms(1) v assms(3), of ?st al] assms(4) by auto
  moreover obtain e' v2 where "exit_pop e v1 (nodes st') = Some (e', v2)" "length v2 = length v1"
    using exit_pop_total [of "nodes st'" v1 e] l(3,4) by (auto simp: in_range_def less_Suc_eq_le)
  ultimately show ?thesis using True assms(2,4) deps_ok_ptr [OF assms(1)]
    by (simp add: micscif_get_minimal_deactiveset_def stack_push_node_def visited_nth)
next
  case False
  then show ?thesis using assms(2) deps_ok_ptr [OF assms(1)] by (simp add: micscif_get_minimal_deactiveset_def stack_push_node_def)
qed

lemma deact_scan_total:
  assumes "deps_ok s" and "node_id \<le> mi_maxid s" and "\<forall>i \<in> set is. i \<le> mi_maxid s" and "length visited = mi_maxid s + 1" and "in_range s st"
  shows "\<exists>e st'. deact_scan al s node_id is visited st = Some (e, st') \<and> in_range s st'"
  using assms(3,5)
proof (induction "is" arbitrary: st)
  case (Cons i "is")
  have i: "i \<le> mi_maxid s" "i < length visited" using Cons.prems assms(4) by simp_all
  note step = deact_scan.simps(2) [of al s node_id i "is" visited st, unfolded visited_nth [OF i(2)] dep_at_ok [OF assms(1,2) i(1)] Option.bind_lunit]
  obtain e st1 where p: "stack_push_node al st i = (e, st1)" by fastforce
  have "in_range s st1" using push_range [OF Cons.prems(2) i(1), of al] p by simp
  then show ?case using step p Cons.prems Cons.IH [of st] Cons.IH [of st1] by (auto split: option.splits)
qed simp

lemma deact_loop_total:
  assumes "deps_ok s" and "length visited = mi_maxid s + 1" and "mi_maxid s < 8 * length nodemask" and "in_range s st"
  shows "\<exists>e nodemask'. deact_loop al s max_disconn status nodemask visited st = Some (e, nodemask') \<and> length nodemask' = length nodemask"
  using assms
proof (induction al s max_disconn status nodemask visited st rule: deact_loop.induct)
  case (1 al s max_disconn status nodemask visited st)
  note prems = "1.prems"
  note unfold = deact_loop.simps [of al s max_disconn status nodemask visited st]
  show ?case
  proof (cases "nodes st")
    case Nil
    then show ?thesis by (simp add: unfold is_stack_empty_def)
  next
    case (Cons n ns)
    let ?st = "st\<lparr>nodes := ns\<rparr>" and ?N = "[0..<mi_maxid s + 1]"
    have pop: "stack_pop_node st = (Inr n, ?st)" and n: "n \<le> mi_maxid s" and r: "in_range s ?st" using Cons prems(4) by (simp_all add: in_range_def)
    have ne: "\<not> is_stack_empty st" using Cons by (simp add: is_stack_empty_def)
    obtain v where v: "nth_opt visited n = Some v" using n prems(2) by (simp add: nth_opt_def)
    obtain e m v1 k where m: "(if v then Some (None, nodemask, visited, allocs ?st)
        else micscif_get_minimal_deactiveset al (allocs ?st) s n nodemask visited) = Some (e, m, v1, k)"
      "length m = length nodemask" "length v1 = mi_maxid s + 1"
      using minimal_total [OF prems(1,2,3) n, of al "allocs ?st"] prems(2) by (cases v) auto
    have mm: "mi_maxid s < 8 * length m" using prems(3) m(2) by simp
    have N: "\<forall>i \<in> set ?N. i \<le> mi_maxid s" by auto
    have r': "in_range s (?st\<lparr>allocs := k\<rparr>)" using r by simp
    consider "e \<noteq> None \<and> e \<noteq> Some EOPNOTSUPP" | "e = None" "max_disconn" | "\<not> (e \<noteq> None \<and> e \<noteq> Some EOPNOTSUPP)" "\<not> (max_disconn \<and> e = None)" by blast
    then show ?thesis
    proof cases
      case 1
      then show ?thesis using ne pop v m by (simp add: unfold del: stack_pop_node.simps)
    next
      case 2
      obtain e1 st1 where sc: "deact_scan al s n ?N v1 (?st\<lparr>allocs := k\<rparr>) = Some (e1, st1)" "in_range s st1"
        using deact_scan_total [OF prems(1) n N m(3) r'] by blast
      show ?thesis
      proof (cases e1)
        case None
        have "deact_loop al s max_disconn status nodemask visited st = deact_loop al s max_disconn None m v1 st1"
          unfolding unfold using ne pop v m(1) 2 sc(1) None by (simp del: stack_pop_node.simps)
        then show ?thesis unfolding m(2) [symmetric]
          using "1.IH"(1) [OF ne pop [symmetric] refl v m(1) refl refl refl _ _ sc(1) refl None prems(1) m(3) mm sc(2)] 2 by simp
      next
        case (Some _)
        then show ?thesis unfolding unfold using ne pop v m 2 sc(1) by (simp del: stack_pop_node.simps)
      qed
    next
      case 3
      then have "deact_loop al s max_disconn status nodemask visited st = deact_loop al s max_disconn e m v1 (?st\<lparr>allocs := k\<rparr>)"
        unfolding unfold using ne pop v m(1) by (auto simp del: stack_pop_node.simps)
      then show ?thesis unfolding m(2) [symmetric]
        using "1.IH"(2) [OF ne pop [symmetric] refl v m(1) refl refl refl 3 prems(1) m(3) mm r'] by simp
    qed
  qed
qed

section \<open>Properties\<close>

definition demo_deps :: "dependency_state list list \<Rightarrow> (nat \<Rightarrow> PM_IDLE_STATE) \<Rightarrow> dep_info" where
  "demo_deps m idle = \<lparr>mi_maxid = length m - 1, mi_depmtrx = Live (map Live m), idle_state = idle\<rparr>"

lemma demo_deps_ok: "\<forall>r \<in> set m. length r = length m \<Longrightarrow> m \<noteq> [] \<Longrightarrow> deps_ok (demo_deps m idle)"
proof -
  assume a: "\<forall>r \<in> set m. length r = length m" "m \<noteq> []"
  then have "u < length m" if "u \<le> length m - 1" for u using that by (cases m) auto
  then show ?thesis using a by (auto simp: deps_ok_def demo_deps_def dep_at_def nth_opt_def)
qed

lemma fresh_visited:
  fixes n :: nat
  defines "z \<equiv> replicate (Suc n) False"
  shows "length z = n + 1" and "visited_set z = {}" and "i \<le> n \<Longrightarrow> nth_opt z i = Some False"
    and "i \<le> n \<Longrightarrow> visited_set (z[i := True]) = {i}"
proof -
  show l: "length z = n + 1" and e: "visited_set z = {}" by (auto simp: z_def visited_set_def simp del: replicate.simps)
  show "i \<le> n \<Longrightarrow> nth_opt z i = Some False" and "i \<le> n \<Longrightarrow> visited_set (z[i := True]) = {i}" using l e by (simp_all add: visited_nth)
qed

lemma mask_fits: "maxid < 8 * length m \<Longrightarrow> \<forall>i \<in> set [0..<maxid + 1]. i div 8 < length m"
  by (auto intro: mask_in)

text \<open>C20. Waking up a node: the search returns without error and adds to the mask just the nodes that are reached from the node through dependencies marked
  as disconnected on sleeping cards, the node itself included.\<close>

theorem activeset_exact:
  assumes "deps_ok s" and "\<forall>k. al k" and "node_id \<le> mi_maxid s" and "mi_maxid s < 8 * length nodemask"
  shows "\<exists>nodemask'. micscif_get_activeset al s node_id nodemask = Some (None, nodemask') \<and>
    mask_set nodemask' = mask_set nodemask \<union> {v. (act_edge s)\<^sup>*\<^sup>* node_id v}"
proof -
  let ?v = "(replicate (Suc (mi_maxid s)) False)[node_id := True]" and ?st = "\<lparr>nodes = [node_id], allocs = 2\<rparr>"
  have v: "length ?v = mi_maxid s + 1" "visited_set ?v = {node_id}" using fresh_visited [where n = "mi_maxid s"] assms(3) by (simp_all del: replicate.simps)
  have "search_inv (act_edge s) node_id (visited_set ?v) {} (set (nodes ?st))"
    unfolding v(2) by (simp, rule search_start) simp
  then obtain m where "act_loop al s nodemask ?v ?st = Some (None, m)" "mask_set m = mask_set nodemask \<union> {v. (act_edge s)\<^sup>*\<^sup>* node_id v}"
    using act_loop_spec [OF assms(1,2) v(1) assms(4), of ?st node_id "{}" "mask_set nodemask"] assms(3) by auto
  moreover have "al 0" "al 1" using assms(2) by simp_all
  ultimately show ?thesis using assms(3) deps_ok_ptr [OF assms(1)]
    by (auto simp: micscif_get_activeset_def stack_push_node_def Let_def numeral_2_eq_2 simp del: replicate.simps)
qed

theorem activeset_exact_witness:
  "\<exists>nodemask'. micscif_get_activeset (\<lambda>_. True) (demo_deps (replicate 3 (replicate 3 DEP_STATE_DISCONNECTED)) (\<lambda>_. PM_IDLE_STATE_PC3)) 1 [0] =
     Some (None, nodemask') \<and>
     mask_set nodemask' = mask_set [0] \<union> {v. (act_edge (demo_deps (replicate 3 (replicate 3 DEP_STATE_DISCONNECTED)) (\<lambda>_. PM_IDLE_STATE_PC3)))\<^sup>*\<^sup>* 1 v}"
  by (rule activeset_exact [OF demo_deps_ok]) (simp_all add: demo_deps_def)



text \<open>The search for the nodes to put to sleep terminates without an access outside of its arrays, for every matrix, with or without further
  nodes, and whatever allocations fail.\<close>

theorem deactiveset_returns:
  assumes "deps_ok s" and "node_id \<le> mi_maxid s" and "mi_maxid s < 8 * length nodemask"
  shows "\<exists>status nodemask'. micscif_get_deactiveset al s node_id nodemask max_disconn = Some (status, nodemask') \<and> length nodemask' = length nodemask"
proof -
  note v = fresh_visited(1) [where n = "mi_maxid s"]
  obtain e m where l: "deact_loop al s max_disconn None nodemask (replicate (Suc (mi_maxid s)) False) \<lparr>nodes = [node_id], allocs = 2\<rparr> = Some (e, m)"
    "length m = length nodemask" using deact_loop_total [OF assms(1) v assms(3), of "\<lparr>nodes = [node_id], allocs = 2\<rparr>" al max_disconn None] assms(2) by (auto simp del: replicate.simps)
  have "\<forall>i \<in> set [0..<mi_maxid s + 1]. i div 8 < length m" using mask_fits assms(3) l(2) by simp
  from mask_scan_spec [OF this] obtain b where "nodemask_isvalid (mi_maxid s) m = Some b" by (simp add: nodemask_isvalid_def)
  then show ?thesis using l deps_ok_ptr [OF assms(1)]
    by (simp add: micscif_get_deactiveset_def stack_push_node_def numeral_2_eq_2 del: replicate.simps)
qed

theorem deactiveset_returns_witness:
  "\<exists>status nodemask'. micscif_get_deactiveset (\<lambda>k. k < 4) (demo_deps (replicate 3 (replicate 3 DEP_STATE_DISCONNECT_READY)) (\<lambda>_. PM_IDLE_STATE_PC3_READY)) 1 [0] True =
     Some (status, nodemask') \<and> length nodemask' = length [0 :: u8]"
  by (rule deactiveset_returns [OF demo_deps_ok]) (simp_all add: demo_deps_def)

text \<open>The search loses its error when it meets an active dependent while other nodes are still on the stack: here nodes 2 and 3 depend on node 1 and are ready, and
  the host actively uses node 3, yet putting node 1 to sleep succeeds, with a set that contains node 3 and not node 2.\<close>

theorem deactiveset_lost_error:
  "micscif_get_deactiveset (\<lambda>_. True) (demo_deps
     [[DEP_STATE_NOT_DEPENDENT, DEP_STATE_NOT_DEPENDENT, DEP_STATE_NOT_DEPENDENT, DEP_STATE_DEPENDENT],
      [DEP_STATE_NOT_DEPENDENT, DEP_STATE_NOT_DEPENDENT, DEP_STATE_NOT_DEPENDENT, DEP_STATE_NOT_DEPENDENT],
      [DEP_STATE_NOT_DEPENDENT, DEP_STATE_DISCONNECT_READY, DEP_STATE_NOT_DEPENDENT, DEP_STATE_NOT_DEPENDENT],
      [DEP_STATE_NOT_DEPENDENT, DEP_STATE_DISCONNECT_READY, DEP_STATE_NOT_DEPENDENT, DEP_STATE_NOT_DEPENDENT]] idle) 1 [0] False =
   Some (None, [2 ^ 1 + 2 ^ 3])"
  by code_simp

lemma free_rows_total:
  "\<forall>r \<in> set rows. r \<noteq> Freed \<Longrightarrow> n \<le> length rows \<Longrightarrow>
     \<exists>rows'. free_rows n rows = Some rows' \<and> length rows' = length rows \<and> (\<forall>j. n \<le> j \<longrightarrow> j < length rows \<longrightarrow> rows' ! j = rows ! j)"
proof (induction n)
  case (Suc n)
  then obtain rows' where r: "free_rows n rows = Some rows'" "length rows' = length rows" "\<forall>j. n \<le> j \<longrightarrow> j < length rows \<longrightarrow> rows' ! j = rows ! j" by auto
  then have "rows' ! n \<noteq> Freed" using Suc.prems by auto
  then show ?case using r Suc.prems by (cases "rows' ! n") (auto simp: nth_opt_def)
qed simp

lemma alloc_rows_fails:
  assumes "mi_depmtrx s = Live rows" and "length rows = num_devs" and "i + n = num_devs" and "\<forall>r \<in> set rows. r \<noteq> Freed"
    and "i \<le> f" and "f < num_devs" and "\<forall>j. i \<le> j \<longrightarrow> j < f \<longrightarrow> al (j + 1)" and "\<not> al (f + 1)"
  shows "\<exists>s'. alloc_rows al num_devs n i s = Some (Some ENOMEM, s') \<and> mi_depmtrx s' = Freed"
  using assms
proof (induction n arbitrary: i s rows)
  case (Suc n)
  show ?case
  proof (cases "i = f")
    case True
    then show ?thesis using Suc.prems free_rows_total [of rows num_devs] by (auto simp: micpm_disconn_uninit_def)
  next
    case False
    let ?rows = "rows[i := Live (replicate num_devs DEP_STATE_NOT_DEPENDENT)]"
    have "\<forall>r \<in> set ?rows. r \<noteq> Freed" using Suc.prems(4) set_update_subset_insert [of rows i] by auto
    then have "\<exists>s'. alloc_rows al num_devs n (i + 1) (s\<lparr>mi_depmtrx := Live ?rows\<rparr>) = Some (Some ENOMEM, s') \<and> mi_depmtrx s' = Freed"
      using Suc.prems False by (intro Suc.IH [where rows = ?rows]) auto
    moreover have "al (i + 1)" using Suc.prems(5,7) False by simp
    ultimately show ?thesis using Suc.prems by (simp add: nth_opt_def)
  qed
qed simp

text \<open>When the memory for a row of the matrix cannot be had, the initialisation fails and leaves a pointer to freed memory; the next
  initialisation takes it for a matrix, reports success, and the first access to a dependency uses freed memory.\<close>

theorem disconn_init_dangling:
  assumes "mi_depmtrx s = NULL" and "i < num_devs" and "\<forall>j \<le> i. al j" and "\<not> al (i + 1)"
  shows "\<exists>s'. micpm_disconn_init al num_devs s = Some (Some ENOMEM, s') \<and> micpm_disconn_init al' num_devs s' = Some (None, s') \<and>
    micscif_get_nodedep u v s' = None"
proof -
  obtain s' where "alloc_rows al num_devs num_devs 0 (s\<lparr>mi_depmtrx := Live (replicate num_devs NULL)\<rparr>) = Some (Some ENOMEM, s')" "mi_depmtrx s' = Freed"
    using alloc_rows_fails [of "s\<lparr>mi_depmtrx := Live (replicate num_devs NULL)\<rparr>" "replicate num_devs NULL" num_devs 0 num_devs i al] assms(2-4) by auto
  then show ?thesis using assms by (auto simp: micpm_disconn_init_def micscif_get_nodedep_def dep_at_def)
qed

theorem disconn_init_dangling_witness:
  "\<exists>s'. micpm_disconn_init (\<lambda>k. k < 2) 3 \<lparr>mi_maxid = 2, mi_depmtrx = NULL, idle_state = (\<lambda>_. PM_IDLE_STATE_PC0)\<rparr> = Some (Some ENOMEM, s') \<and>
     micpm_disconn_init (\<lambda>_. True) 3 s' = Some (None, s') \<and> micscif_get_nodedep 1 2 s' = None"
  by (rule disconn_init_dangling [where i = 1]) simp_all

end
