(* ===== verification/Node_Power.thy ===== *)
theory Node_Power
  imports Node_Deps Rma_Window
begin

text \<open>
  Disconnection of nodes for power management and after the loss of a node (\<open>micscif_nm.c\<close> and the handlers of the messages in \<open>micscif_nodeqp.c\<close>, host build). A set of nodes is put
  to sleep by a message to every peer outside of the set; the peer stops using the nodes of the set and answers.
  \<open>room n\<close> says whether the queue to node \<open>n\<close> takes a message within the time limit.
\<close>

section \<open>State\<close>

datatype scif_state = SCIFDEV_NOTPRESENT | SCIFDEV_INIT | SCIFDEV_RUNNING | SCIFDEV_SLEEPING | SCIFDEV_STOPPING | SCIFDEV_STOPPED

datatype disconn_type = DISCONN_TYPE_POWER_MGMT | DISCONN_TYPE_LOST_NODE | DISCONN_TYPE_MAINTENANCE_MODE

text \<open>A message \<open>SCIF_NODE_REMOVE\<close>: the destination, and what the payload says.\<close>

record rmnode_msg =
  rm_dst :: nat
  rm_payload0 :: u64
  rm_type :: disconn_type
  rm_size :: u64
  rm_msgid :: u64
  rm_orig :: nat

record scif_p2p_info =
  ppi_peer_id :: nat
  ppi_disc_state :: scif_state

record nm_state =
  sd_state :: "nat \<Rightarrow> scif_state"
  scif_ref_cnt :: "nat \<Rightarrow> u64"
  sd_p2p :: "nat \<Rightarrow> scif_p2p_info list"
  nodemask_pa :: "nat \<Rightarrow> u64 option"
  nodemask_len :: u64
  disconn_rescnt :: "nat \<Rightarrow> nat"
  mi_disconnect_status :: micscif_msg_state
  mi_unique_msgid :: u64
  rm_sent :: "rmnode_msg list"

definition SCIF_NODE_IDLE :: u64 where "SCIF_NODE_IDLE = push_bit 63 1"

section \<open>Activity counts\<close>

text \<open>
  Taking a reference: \<open>woken\<close> is the answer of the host to the request to wake up an idle node. Giving it back restores a count that would become negative.
\<close>

definition micscif_inc_node_refcnt :: "micscif_msg_state \<Rightarrow> nat \<Rightarrow> u64 \<Rightarrow> nm_state \<Rightarrow> nm_state" where
  "micscif_inc_node_refcnt woken dev cnt s =
     (if scif_ref_cnt s dev \<noteq> SCIF_NODE_IDLE then s\<lparr>scif_ref_cnt := (scif_ref_cnt s)(dev := scif_ref_cnt s dev + cnt)\<rparr>
      else if sd_state s dev = SCIFDEV_STOPPED \<or> sd_state s dev = SCIFDEV_STOPPING \<or> sd_state s dev = SCIFDEV_INIT then s
      else
        let s = (if bit (scif_ref_cnt s dev) 63 \<and> woken = OP_COMPLETED
                 then s\<lparr>sd_state := (sd_state s)(dev := SCIFDEV_RUNNING), scif_ref_cnt := (scif_ref_cnt s)(dev := unset_bit 63 (scif_ref_cnt s dev))\<rparr> else s)
        in s\<lparr>scif_ref_cnt := (scif_ref_cnt s)(dev := scif_ref_cnt s dev + cnt)\<rparr>)"

definition micscif_dec_node_refcnt :: "nat \<Rightarrow> u64 \<Rightarrow> nm_state \<Rightarrow> nm_state" where
  "micscif_dec_node_refcnt dev cnt s =
     (let r = scif_ref_cnt s dev - cnt
      in if sint r < 0 \<and> r \<noteq> SCIF_NODE_IDLE then s else s\<lparr>scif_ref_cnt := (scif_ref_cnt s)(dev := r)\<rparr>)"

section \<open>Putting nodes to sleep on request\<close>

text \<open>The loop of \<open>micscif_handle_remove_node\<close> for power management; \<open>free i\<close> says whether the lock of device \<open>i\<close> is free.\<close>

fun remove_scan :: "(nat \<Rightarrow> bool) \<Rightarrow> u8 list \<Rightarrow> nat list \<Rightarrow> nm_state \<Rightarrow> (errno option \<times> nm_state) option" where
  "remove_scan free nodemask [] s = Some (None, s)"
| "remove_scan free nodemask (i # is) s = do {
     b \<leftarrow> get_nodemask_bit nodemask i;
     if \<not> b then remove_scan free nodemask is s
     else if \<not> free i then Some (Some EAGAIN, s)
     else if sd_state s i \<noteq> SCIFDEV_RUNNING then remove_scan free nodemask is s
     else if scif_ref_cnt s i = 0 \<or> scif_ref_cnt s i = SCIF_NODE_IDLE then
       remove_scan free nodemask is (s\<lparr>scif_ref_cnt := (scif_ref_cnt s)(i := SCIF_NODE_IDLE), sd_state := (sd_state s)(i := SCIFDEV_SLEEPING)\<rparr>)
     else Some (Some EAGAIN, s) }"

definition micscif_handle_remove_node_pm :: "(nat \<Rightarrow> bool) \<Rightarrow> nat \<Rightarrow> u8 list option \<Rightarrow> nm_state \<Rightarrow> (errno option \<times> nm_state) option" where
  "micscif_handle_remove_node_pm free maxid nodemask_buf s =
     (case nodemask_buf of None \<Rightarrow> Some (Some EAGAIN, s) | Some m \<Rightarrow> remove_scan free m [0..<maxid + 1] s)"

section \<open>Messages to the peers\<close>

definition micscif_send_pm_rmnode_msg :: "(nat \<Rightarrow> bool) \<Rightarrow> nat \<Rightarrow> u64 \<Rightarrow> u64 \<Rightarrow> nat \<Rightarrow> nm_state \<Rightarrow> errno option \<times> nm_state" where
  "micscif_send_pm_rmnode_msg room node nodemask_addr nodemask_size orig_node s =
     (if sd_state s node \<noteq> SCIFDEV_RUNNING then (Some ENODEV, s)
      else if room node then
        (None, s\<lparr>rm_sent := rm_sent s @ [\<lparr>rm_dst = node, rm_payload0 = nodemask_addr, rm_type = DISCONN_TYPE_POWER_MGMT, rm_size = nodemask_size,
           rm_msgid = mi_unique_msgid s, rm_orig = orig_node\<rparr>]\<rparr>)
      else (Some ENODEV, s))"

definition micscif_send_lost_node_rmnode_msg :: "(nat \<Rightarrow> bool) \<Rightarrow> nat \<Rightarrow> nat \<Rightarrow> nm_state \<Rightarrow> errno option \<times> nm_state" where
  "micscif_send_lost_node_rmnode_msg room node orig_node s =
     (if sd_state s node \<noteq> SCIFDEV_RUNNING then (Some ENODEV, s)
      else if room node then
        (None, s\<lparr>rm_sent := rm_sent s @ [\<lparr>rm_dst = node, rm_payload0 = of_nat orig_node, rm_type = DISCONN_TYPE_LOST_NODE, rm_size = 0,
           rm_msgid = 0, rm_orig = orig_node\<rparr>]\<rparr>)
      else (Some ENODEV, s))"

fun update_first :: "nat \<Rightarrow> scif_state \<Rightarrow> scif_p2p_info list \<Rightarrow> scif_p2p_info list" where
  "update_first peer st [] = []"
| "update_first peer st (p # ps) = (if ppi_peer_id p = peer then p\<lparr>ppi_disc_state := st\<rparr> # ps else p # update_first peer st ps)"

definition micscif_update_p2p_state :: "nat \<Rightarrow> nat \<Rightarrow> scif_state \<Rightarrow> nm_state \<Rightarrow> nm_state" where
  "micscif_update_p2p_state node_id peer_id st s = s\<lparr>sd_p2p := (sd_p2p s)(node_id := update_first peer_id st (sd_p2p s node_id))\<rparr>"

definition micscif_rmnode_msg_sent :: "depgraph_stack \<Rightarrow> nat \<Rightarrow> bool" where
  "micscif_rmnode_msg_sent node_list node_id \<longleftrightarrow> node_id \<in> set (nodes node_list)"

text \<open>The walk over the peers of a node: whether it went to the end, the number of messages, the nodes that got one, and the state.\<close>

fun peers_scan :: "(nat \<Rightarrow> bool) \<Rightarrow> (nat \<Rightarrow> bool) \<Rightarrow> nat \<Rightarrow> u8 list \<Rightarrow> scif_p2p_info list \<Rightarrow> nat \<Rightarrow> depgraph_stack \<Rightarrow> nm_state \<Rightarrow>
    (errno option \<times> nat \<times> depgraph_stack \<times> nm_state) option" where
  "peers_scan al room node_id nodemask [] cnt node_list s = Some (None, cnt, node_list, s)"
| "peers_scan al room node_id nodemask (p # ps) cnt node_list s = do {
     b \<leftarrow> get_nodemask_bit nodemask (ppi_peer_id p);
     if b then peers_scan al room node_id nodemask ps cnt node_list s
     else if ppi_disc_state p = SCIFDEV_SLEEPING then peers_scan al room node_id nodemask ps cnt node_list s
     else if micscif_rmnode_msg_sent node_list (ppi_peer_id p) then peers_scan al room node_id nodemask ps cnt node_list s
     else case nodemask_pa s (ppi_peer_id p) of
       None \<Rightarrow> Some (Some EINVAL, cnt, node_list, s)
     | Some pa \<Rightarrow>
         case micscif_send_pm_rmnode_msg room (ppi_peer_id p) pa (nodemask_len s) node_id s of
           (None, s) \<Rightarrow> peers_scan al room node_id nodemask ps (cnt + 1) (snd (stack_push_node al node_list (ppi_peer_id p))) s
         | (Some e, s) \<Rightarrow> peers_scan al room node_id nodemask ps cnt node_list s }"

fun members_scan :: "(nat \<Rightarrow> bool) \<Rightarrow> (nat \<Rightarrow> bool) \<Rightarrow> nat \<Rightarrow> u8 list \<Rightarrow> nat list \<Rightarrow> nat \<Rightarrow> depgraph_stack \<Rightarrow> nm_state \<Rightarrow>
    (errno option \<times> nat \<times> depgraph_stack \<times> nm_state) option" where
  "members_scan al room node_id nodemask [] cnt node_list s = Some (None, cnt, node_list, s)"
| "members_scan al room node_id nodemask (i # is) cnt node_list s = do {
     b \<leftarrow> get_nodemask_bit nodemask i;
     if \<not> b then members_scan al room node_id nodemask is cnt node_list s
     else do {
       (e, cnt, node_list, s) \<leftarrow> peers_scan al room node_id nodemask (sd_p2p s i) cnt node_list s;
       if e \<noteq> None then Some (e, cnt, node_list, s) else members_scan al room node_id nodemask is cnt node_list s } }"

text \<open>
  \<open>answers s\<close> is the state after the wait for the answers, and whether the wait ended before the time limit. A failure of the first message, to the host, does not count.
\<close>

definition micscif_execute_disconnect :: "(nat \<Rightarrow> bool) \<Rightarrow> (nat \<Rightarrow> bool) \<Rightarrow> (nm_state \<Rightarrow> bool \<times> nm_state) \<Rightarrow> nat \<Rightarrow> nat \<Rightarrow> u8 list \<Rightarrow> depgraph_stack \<Rightarrow> nm_state \<Rightarrow>
    (errno option \<times> depgraph_stack \<times> nm_state) option" where
  "micscif_execute_disconnect al room answers maxid node_id nodemask node_list s =
     (let (e, s) = micscif_send_pm_rmnode_msg room 0 0 (nodemask_len s) node_id s;
          cnt = (if e = None then 1 else 0);
          node_list = (if e = None then snd (stack_push_node al node_list 0) else node_list)
      in do {
        (e, cnt, node_list, s) \<leftarrow> members_scan al room node_id nodemask [0..<maxid + 1] cnt node_list s;
        if e \<noteq> None then Some (e, node_list\<lparr>nodes := []\<rparr>, s)
        else
          let (in_time, s) = answers s
          in if \<not> in_time \<or> disconn_rescnt s node_id \<noteq> cnt \<or> mi_disconnect_status s = OP_FAILED
             then Some (Some EAGAIN, node_list\<lparr>nodes := []\<rparr>, s) else Some (None, node_list, s) })"

fun sleep_members :: "u8 list \<Rightarrow> nat \<Rightarrow> nat list \<Rightarrow> nm_state \<Rightarrow> nm_state option" where
  "sleep_members nodemask node [] s = Some s"
| "sleep_members nodemask node (i # is) s = do {
     b \<leftarrow> get_nodemask_bit nodemask i;
     sleep_members nodemask node is (if b then micscif_update_p2p_state i node SCIFDEV_SLEEPING s else s) }"

fun sleep_peers :: "nat \<Rightarrow> u8 list \<Rightarrow> nat list \<Rightarrow> nm_state \<Rightarrow> nm_state option" where
  "sleep_peers maxid nodemask [] s = Some s"
| "sleep_peers maxid nodemask (node # ns) s = do { s \<leftarrow> sleep_members nodemask node [0..<maxid + 1] s; sleep_peers maxid nodemask ns s }"

text \<open>The loop for a lost node; its condition \<open>(i <= mi_maxid) && (i != node_id)\<close> ends it at the lost node.\<close>

fun lost_scan :: "(nat \<Rightarrow> bool) \<Rightarrow> nat \<Rightarrow> nat list \<Rightarrow> nm_state \<Rightarrow> nm_state" where
  "lost_scan room node_id [] s = s"
| "lost_scan room node_id (i # is) s =
     (if i = node_id then s else lost_scan room node_id is (snd (micscif_send_lost_node_rmnode_msg room i node_id s)))"

definition micscif_disconnect_node :: "(nat \<Rightarrow> bool) \<Rightarrow> (nat \<Rightarrow> bool) \<Rightarrow> (nat \<Rightarrow> bool) \<Rightarrow> (nm_state \<Rightarrow> bool \<times> nm_state) \<Rightarrow> nat \<Rightarrow> nat \<Rightarrow> u8 list option \<Rightarrow> disconn_type \<Rightarrow> nm_state \<Rightarrow>
    (errno option \<times> nm_state) option" where
  "micscif_disconnect_node has_ctx al room answers maxid node_id nodemask ty s =
     (if node_id = 0 \<or> \<not> has_ctx node_id then Some (Some EINVAL, s)
      else case ty of
        DISCONN_TYPE_POWER_MGMT \<Rightarrow>
          (case nodemask of
             None \<Rightarrow> Some (Some EINVAL, s)
           | Some m \<Rightarrow>
               let s = s\<lparr>mi_unique_msgid := mi_unique_msgid s + 1, disconn_rescnt := (disconn_rescnt s)(node_id := 0), mi_disconnect_status := OP_IN_PROGRESS\<rparr>
               in do {
                 (e, node_list, s) \<leftarrow> micscif_execute_disconnect al room answers maxid node_id m \<lparr>nodes = [], allocs = 0\<rparr> s;
                 if e \<noteq> None then Some (e, s)
                 else do { s \<leftarrow> sleep_peers maxid m (nodes node_list) (s\<lparr>mi_unique_msgid := 0\<rparr>); Some (None, s) } })
      | DISCONN_TYPE_LOST_NODE \<Rightarrow>
          let s = s\<lparr>mi_unique_msgid := mi_unique_msgid s + 1, disconn_rescnt := (disconn_rescnt s)(node_id := 0)\<rparr>
          in Some (None, snd (answers (lost_scan room node_id [0..<maxid + 1] s)))
      | DISCONN_TYPE_MAINTENANCE_MODE \<Rightarrow> Some (Some EINVAL, s))"

text \<open>The answer to a message: \<open>err\<close> is what the peer returned. An answer to an earlier request for power management is dropped.\<close>

definition scif_node_remove_ack :: "(nat \<Rightarrow> bool) \<Rightarrow> u64 \<Rightarrow> u64 \<Rightarrow> u64 \<Rightarrow> nat \<Rightarrow> nm_state \<Rightarrow> nm_state" where
  "scif_node_remove_ack has_ctx err payload1 msgid orig_node s =
     (if push_bit 32 payload1 = 0 \<and> msgid \<noteq> mi_unique_msgid s then s
      else if \<not> has_ctx orig_node then s
      else
        let s = (if err \<noteq> 0 then s\<lparr>mi_disconnect_status := OP_FAILED\<rparr> else s)
        in s\<lparr>disconn_rescnt := (disconn_rescnt s)(orig_node := disconn_rescnt s orig_node + 1)\<rparr>)"

section \<open>Lemmas\<close>

text \<open>A node can be put to sleep, or needs not to be.\<close>

definition may_sleep :: "(nat \<Rightarrow> bool) \<Rightarrow> nm_state \<Rightarrow> nat \<Rightarrow> bool" where
  "may_sleep free s i \<longleftrightarrow> free i \<and> (sd_state s i = SCIFDEV_RUNNING \<longrightarrow> scif_ref_cnt s i = 0 \<or> scif_ref_cnt s i = SCIF_NODE_IDLE)"

definition put_to_sleep :: "nm_state \<Rightarrow> nm_state \<Rightarrow> nat \<Rightarrow> bool" where
  "put_to_sleep s s' i \<longleftrightarrow> sd_state s i = SCIFDEV_RUNNING \<and> (scif_ref_cnt s i = 0 \<or> scif_ref_cnt s i = SCIF_NODE_IDLE) \<and>
     sd_state s' i = SCIFDEV_SLEEPING \<and> scif_ref_cnt s' i = SCIF_NODE_IDLE"

lemma remove_scan_spec:
  assumes "distinct is" and "\<forall>i \<in> set is. i div 8 < length m"
  shows "\<exists>e s'. remove_scan free m is s = Some (e, s') \<and>
    (\<forall>i. (sd_state s' i = sd_state s i \<and> scif_ref_cnt s' i = scif_ref_cnt s i) \<or> i \<in> set is \<and> i \<in> mask_set m \<and> put_to_sleep s s' i) \<and>
    (e = None \<longleftrightarrow> (\<forall>i \<in> set is. i \<in> mask_set m \<longrightarrow> may_sleep free s i)) \<and>
    (e = None \<longrightarrow> (\<forall>i \<in> set is. i \<in> mask_set m \<longrightarrow> sd_state s' i \<noteq> SCIFDEV_RUNNING))"
  using assms
proof (induction "is" arbitrary: s)
  case (Cons i "is")
  have g: "get_nodemask_bit m i = Some (i \<in> mask_set m)" using Cons.prems by (simp add: get_mask)
  define s1 where "s1 = s\<lparr>scif_ref_cnt := (scif_ref_cnt s)(i := SCIF_NODE_IDLE), sd_state := (sd_state s)(i := SCIFDEV_SLEEPING)\<rparr>"
  have m1: "may_sleep free s1 j = may_sleep free s j" if "j \<noteq> i" for j using that by (simp add: may_sleep_def s1_def)
  have ih: "\<exists>e s'. remove_scan free m is t = Some (e, s') \<and>
    (\<forall>j. (sd_state s' j = sd_state t j \<and> scif_ref_cnt s' j = scif_ref_cnt t j) \<or> j \<in> set is \<and> j \<in> mask_set m \<and> put_to_sleep t s' j) \<and>
    (e = None \<longleftrightarrow> (\<forall>j \<in> set is. j \<in> mask_set m \<longrightarrow> may_sleep free t j)) \<and>
    (e = None \<longrightarrow> (\<forall>j \<in> set is. j \<in> mask_set m \<longrightarrow> sd_state s' j \<noteq> SCIFDEV_RUNNING))" for t using Cons.IH [of t] Cons.prems by simp
  consider "i \<notin> mask_set m" | "i \<in> mask_set m" "\<not> may_sleep free s i" | "i \<in> mask_set m" "may_sleep free s i" "sd_state s i \<noteq> SCIFDEV_RUNNING"
    | "i \<in> mask_set m" "may_sleep free s i" "sd_state s i = SCIFDEV_RUNNING" by blast
  then show ?case
  proof cases
    case 1
    then show ?thesis using g ih [of s] by fastforce
  next
    case 2
    then show ?thesis using g by (auto simp: may_sleep_def)
  next
    case 3
    then have "remove_scan free m (i # is) s = remove_scan free m is s" using g by (simp add: may_sleep_def)
    moreover obtain e s' where r: "remove_scan free m is s = Some (e, s')"
      "\<forall>j. (sd_state s' j = sd_state s j \<and> scif_ref_cnt s' j = scif_ref_cnt s j) \<or> j \<in> set is \<and> j \<in> mask_set m \<and> put_to_sleep s s' j"
      "e = None \<longleftrightarrow> (\<forall>j \<in> set is. j \<in> mask_set m \<longrightarrow> may_sleep free s j)"
      "e = None \<longrightarrow> (\<forall>j \<in> set is. j \<in> mask_set m \<longrightarrow> sd_state s' j \<noteq> SCIFDEV_RUNNING)" using ih [of s] by blast
    moreover have "sd_state s' i \<noteq> SCIFDEV_RUNNING" using r(2) 3(3) by (metis put_to_sleep_def)
    ultimately show ?thesis using 3 by fastforce
  next
    case 4
    then have "remove_scan free m (i # is) s = remove_scan free m is s1" using g by (simp add: may_sleep_def s1_def)
    moreover obtain e s' where r: "remove_scan free m is s1 = Some (e, s')"
      "\<forall>j. (sd_state s' j = sd_state s1 j \<and> scif_ref_cnt s' j = scif_ref_cnt s1 j) \<or> j \<in> set is \<and> j \<in> mask_set m \<and> put_to_sleep s1 s' j"
      "e = None \<longleftrightarrow> (\<forall>j \<in> set is. j \<in> mask_set m \<longrightarrow> may_sleep free s1 j)"
      "e = None \<longrightarrow> (\<forall>j \<in> set is. j \<in> mask_set m \<longrightarrow> sd_state s' j \<noteq> SCIFDEV_RUNNING)" using ih [of s1] by blast
    moreover have i: "i \<notin> set is" using Cons.prems by simp
    have i': "sd_state s' i = SCIFDEV_SLEEPING" "scif_ref_cnt s' i = SCIF_NODE_IDLE" using spec [OF r(2), of i] i by (simp_all add: s1_def)
    moreover have "(sd_state s' j = sd_state s j \<and> scif_ref_cnt s' j = scif_ref_cnt s j) \<or> j \<in> set (i # is) \<and> j \<in> mask_set m \<and> put_to_sleep s s' j" for j
    proof (cases "j = i")
      case True
      then show ?thesis using 4 i' by (simp add: put_to_sleep_def may_sleep_def)
    next
      case False
      then show ?thesis using spec [OF r(2), of j] by (simp add: put_to_sleep_def s1_def)
    qed
    moreover have "(\<forall>j \<in> set is. j \<in> mask_set m \<longrightarrow> may_sleep free s1 j) \<longleftrightarrow> (\<forall>j \<in> set is. j \<in> mask_set m \<longrightarrow> may_sleep free s j)"
      using m1 i by metis
    ultimately show ?thesis using 4 by (intro exI [of _ e] exI [of _ s']) auto
  qed
qed simp

text \<open>The peers of a list that get a message.\<close>

definition targets :: "nm_state \<Rightarrow> u8 list \<Rightarrow> scif_p2p_info list \<Rightarrow> nat set" where
  "targets s m ps = {ppi_peer_id p |p. p \<in> set ps \<and> ppi_peer_id p \<notin> mask_set m \<and> ppi_disc_state p \<noteq> SCIFDEV_SLEEPING \<and> sd_state s (ppi_peer_id p) = SCIFDEV_RUNNING}"

definition peers_ok :: "nm_state \<Rightarrow> u8 list \<Rightarrow> scif_p2p_info list \<Rightarrow> bool" where
  "peers_ok s m ps \<longleftrightarrow> (\<forall>p \<in> set ps. ppi_peer_id p div 8 < length m \<and> nodemask_pa s (ppi_peer_id p) \<noteq> None)"

text \<open>The messages sent so far, one for each node of the list, and what has been changed of a state.\<close>

definition told :: "nm_state \<Rightarrow> nat \<Rightarrow> depgraph_stack \<Rightarrow> nm_state \<Rightarrow> bool" where
  "told s cnt nl s' \<longleftrightarrow> distinct (nodes nl) \<and> cnt = length (nodes nl) \<and> (\<exists>ms. s' = s\<lparr>rm_sent := rm_sent s @ ms\<rparr> \<and> map rm_dst ms = rev (nodes nl))"

lemma told_send:
  assumes "told s cnt nl s1" and "n \<notin> set (nodes nl)" and "al (allocs nl)" and "micscif_send_pm_rmnode_msg room n pa sz orig s1 = (None, s2)"
  shows "told s (cnt + 1) (snd (stack_push_node al nl n)) s2"
  using assms by (auto simp: told_def micscif_send_pm_rmnode_msg_def stack_push_node_def split: if_splits)

lemma told_same: "told s cnt nl s' \<Longrightarrow> sd_state s' = sd_state s \<and> nodemask_pa s' = nodemask_pa s \<and> sd_p2p s' = sd_p2p s"
  by (auto simp: told_def)

lemma peers_scan_spec:
  assumes al: "\<forall>k. al k" and room: "\<forall>n. room n" and "peers_ok s m ps" and "told s cnt nl s1"
  shows "\<exists>cnt' nl' s2. peers_scan al room node_id m ps cnt nl s1 = Some (None, cnt', nl', s2) \<and> told s cnt' nl' s2 \<and>
    set (nodes nl') = set (nodes nl) \<union> targets s m ps"
  using assms(3,4)
proof (induction ps arbitrary: cnt nl s1)
  case Nil
  then show ?case by (simp add: targets_def)
next
  case (Cons p ps)
  let ?n = "ppi_peer_id p"
  have g: "get_nodemask_bit m ?n = Some (?n \<in> mask_set m)" using Cons.prems by (simp add: get_mask peers_ok_def)
  obtain pa where pa: "nodemask_pa s1 ?n = Some pa" using Cons.prems told_same [OF Cons.prems(2)] by (auto simp: peers_ok_def)
  have ih: "told s c l t \<Longrightarrow> \<exists>cnt' nl' s2. peers_scan al room node_id m ps c l t = Some (None, cnt', nl', s2) \<and> told s cnt' nl' s2 \<and>
    set (nodes nl') = set (nodes l) \<union> targets s m ps" for c l t using Cons.IH Cons.prems(1) by (auto simp: peers_ok_def)
  have t: "targets s m (p # ps) = targets s m ps \<union> (if ?n \<notin> mask_set m \<and> ppi_disc_state p \<noteq> SCIFDEV_SLEEPING \<and> sd_state s ?n = SCIFDEV_RUNNING then {?n} else {})"
    by (auto simp: targets_def)
  obtain e s2 where send: "micscif_send_pm_rmnode_msg room ?n pa (nodemask_len s1) node_id s1 = (e, s2)" by fastforce
  consider "?n \<in> mask_set m \<or> ppi_disc_state p = SCIFDEV_SLEEPING \<or> ?n \<in> set (nodes nl)"
    | "?n \<notin> mask_set m" "ppi_disc_state p \<noteq> SCIFDEV_SLEEPING" "?n \<notin> set (nodes nl)" "sd_state s ?n \<noteq> SCIFDEV_RUNNING"
    | "?n \<notin> mask_set m" "ppi_disc_state p \<noteq> SCIFDEV_SLEEPING" "?n \<notin> set (nodes nl)" "sd_state s ?n = SCIFDEV_RUNNING" by blast
  then show ?case
  proof cases
    case 1
    then have "peers_scan al room node_id m (p # ps) cnt nl s1 = peers_scan al room node_id m ps cnt nl s1"
      using g by (auto simp: micscif_rmnode_msg_sent_def)
    then show ?thesis using ih [OF Cons.prems(2)] t 1 by (auto split: if_splits)
  next
    case 2
    then have "e = Some ENODEV" "s2 = s1" using send told_same [OF Cons.prems(2)] by (auto simp: micscif_send_pm_rmnode_msg_def)
    then have "peers_scan al room node_id m (p # ps) cnt nl s1 = peers_scan al room node_id m ps cnt nl s1"
      using g pa 2 send by (simp add: micscif_rmnode_msg_sent_def)
    then show ?thesis using ih [OF Cons.prems(2)] t 2 by auto
  next
    case 3
    then have e: "e = None" using send room told_same [OF Cons.prems(2)] by (auto simp: micscif_send_pm_rmnode_msg_def)
    let ?nl = "snd (stack_push_node al nl ?n)"
    have "peers_scan al room node_id m (p # ps) cnt nl s1 = peers_scan al room node_id m ps (cnt + 1) ?nl s2"
      using g pa 3 send e by (simp add: micscif_rmnode_msg_sent_def)
    moreover have "set (nodes ?nl) = insert ?n (set (nodes nl))" using al by (simp add: stack_push_node_def)
    moreover have "al (allocs nl)" using al by simp
    from told_send [OF Cons.prems(2) 3(3), where al = al, OF this send [unfolded e]] have "told s (cnt + 1) ?nl s2" .
    ultimately show ?thesis using ih [of "cnt + 1" ?nl s2] t 3 by auto
  qed
qed

lemma members_scan_spec:
  assumes "\<forall>k. al k" and "\<forall>n. room n" and "\<forall>i \<in> set is. i div 8 < length m \<and> peers_ok s m (sd_p2p s i)" and "told s cnt nl s1"
  shows "\<exists>cnt' nl' s2. members_scan al room node_id m is cnt nl s1 = Some (None, cnt', nl', s2) \<and> told s cnt' nl' s2 \<and>
    set (nodes nl') = set (nodes nl) \<union> (\<Union>i \<in> set is \<inter> mask_set m. targets s m (sd_p2p s i))"
  using assms(3,4)
proof (induction "is" arbitrary: cnt nl s1)
  case (Cons i "is")
  have g: "get_nodemask_bit m i = Some (i \<in> mask_set m)" using Cons.prems by (simp add: get_mask)
  show ?case
  proof (cases "i \<in> mask_set m")
    case False
    then show ?thesis using g Cons.IH [of cnt nl s1] Cons.prems by simp
  next
    case True
    obtain c l t where p: "peers_scan al room node_id m (sd_p2p s i) cnt nl s1 = Some (None, c, l, t)" "told s c l t"
      "set (nodes l) = set (nodes nl) \<union> targets s m (sd_p2p s i)" using peers_scan_spec [OF assms(1,2) _ Cons.prems(2), of m "sd_p2p s i" node_id] Cons.prems(1) by auto
    have "members_scan al room node_id m (i # is) cnt nl s1 = members_scan al room node_id m is c l t"
      using g True p(1) told_same [OF Cons.prems(2)] by simp
    then show ?thesis using Cons.IH [of c l t] Cons.prems(1) p(2,3) True by (auto simp: Un_assoc)
  qed
qed simp

section \<open>Properties\<close>

lemma all_nodes: "set [0..<n + 1] = {..n}" by auto

text \<open>C22. A request to put nodes to sleep changes only running nodes of the mask whose activity count is zero; it reports success just when every
  node of the mask could be locked and every running one was idle, and then none of them is running any more. A node that is in use makes the request
  fail; the comment of the function says instead that the bit of such a node is reset in a mask that is returned.\<close>

theorem remove_node_safe:
  assumes "maxid < 8 * length m"
  shows "\<exists>e s'. micscif_handle_remove_node_pm free maxid (Some m) s = Some (e, s') \<and>
    (\<forall>i. (sd_state s' i = sd_state s i \<and> scif_ref_cnt s' i = scif_ref_cnt s i) \<or> i \<le> maxid \<and> i \<in> mask_set m \<and> put_to_sleep s s' i) \<and>
    (e = None \<longleftrightarrow> (\<forall>i \<le> maxid. i \<in> mask_set m \<longrightarrow> may_sleep free s i)) \<and>
    (e = None \<longrightarrow> (\<forall>i \<le> maxid. i \<in> mask_set m \<longrightarrow> sd_state s' i \<noteq> SCIFDEV_RUNNING))"
  using remove_scan_spec [OF _ mask_fits [OF assms], of free s, unfolded all_nodes]
  by (simp add: micscif_handle_remove_node_pm_def Ball_def del: upt_Suc)

definition demo_nm :: nm_state where
  "demo_nm = \<lparr>sd_state = (\<lambda>_. SCIFDEV_RUNNING), scif_ref_cnt = (\<lambda>_. 0),
     sd_p2p = (\<lambda>i. map (\<lambda>j. \<lparr>ppi_peer_id = j, ppi_disc_state = SCIFDEV_RUNNING\<rparr>) [1..<4]), nodemask_pa = (\<lambda>_. Some 0x1000), nodemask_len = 1,
     disconn_rescnt = (\<lambda>_. 0), mi_disconnect_status = OP_IDLE, mi_unique_msgid = 0, rm_sent = []\<rparr>"

theorem remove_node_safe_witness:
  "\<exists>s'. micscif_handle_remove_node_pm (\<lambda>_. True) 3 (Some [6]) demo_nm = Some (None, s')"
  using remove_node_safe [of 3 "[6]" "\<lambda>_. True" demo_nm] by (auto simp: may_sleep_def demo_nm_def)

text \<open>To put a set of nodes to sleep, the host and every running peer of a node of the set that is outside of the set and not disconnected yet get one message each, and no
  other node gets one; the answers waited for are as many as the messages.\<close>

theorem rmnode_targets:
  assumes "\<forall>k. al k" and "\<forall>n. room n" and "maxid < 8 * length m" and "\<forall>i \<le> maxid. peers_ok s m (sd_p2p s i)" and "sd_state s 0 = SCIFDEV_RUNNING"
  shows "\<exists>e nl ms. micscif_execute_disconnect al room (Pair True) maxid node_id m \<lparr>nodes = [], allocs = 0\<rparr> s = Some (e, nl, s\<lparr>rm_sent := rm_sent s @ ms\<rparr>) \<and>
    distinct (map rm_dst ms) \<and> rm_dst ` set ms = {0} \<union> (\<Union>i \<in> {..maxid} \<inter> mask_set m. targets s m (sd_p2p s i)) \<and>
    (e = None \<longleftrightarrow> disconn_rescnt s node_id = length ms \<and> mi_disconnect_status s \<noteq> OP_FAILED)"
proof -
  obtain s1 where h: "micscif_send_pm_rmnode_msg room 0 0 (nodemask_len s) node_id s = (None, s1)" using assms(2,5) by (simp add: micscif_send_pm_rmnode_msg_def)
  let ?nl = "snd (stack_push_node al \<lparr>nodes = [], allocs = 0\<rparr> 0)"
  have al: "al (allocs \<lparr>nodes = [], allocs = 0\<rparr>)" using assms(1) by simp
  have "told s (0 + 1) ?nl s1" by (rule told_send [where al = al, OF _ _ al h]) (auto simp: told_def intro: exI [of _ "[]"])
  then have t: "told s 1 ?nl s1" by simp
  have "\<forall>i \<in> set [0..<maxid + 1]. i div 8 < length m \<and> peers_ok s m (sd_p2p s i)" using mask_fits [OF assms(3)] assms(4) by auto
  from members_scan_spec [OF assms(1,2) this t, of node_id] obtain c l s2 where
    p: "members_scan al room node_id m [0..<maxid + 1] 1 ?nl s1 = Some (None, c, l, s2)" "told s c l s2"
      "set (nodes l) = set (nodes ?nl) \<union> (\<Union>i \<in> set [0..<maxid + 1] \<inter> mask_set m. targets s m (sd_p2p s i))" by blast
  then obtain ms where ms: "s2 = s\<lparr>rm_sent := rm_sent s @ ms\<rparr>" "map rm_dst ms = rev (nodes l)" "distinct (nodes l)" "c = length (nodes l)" by (auto simp: told_def)
  have d: "rm_dst ` set ms = set (nodes l)" "length ms = length (nodes l)" using arg_cong [OF ms(2), of set] arg_cong [OF ms(2), of length] by simp_all
  have n: "set (nodes l) = {0} \<union> (\<Union>i \<in> {..maxid} \<inter> mask_set m. targets s m (sd_p2p s i))"
    using p(3) al unfolding all_nodes by (simp add: stack_push_node_def)
  have "\<exists>e nl. micscif_execute_disconnect al room (Pair True) maxid node_id m \<lparr>nodes = [], allocs = 0\<rparr> s = Some (e, nl, s2) \<and>
    (e = None \<longleftrightarrow> disconn_rescnt s2 node_id = c \<and> mi_disconnect_status s2 \<noteq> OP_FAILED)"
    unfolding micscif_execute_disconnect_def h prod.case Let_def using p(1) by simp
  then obtain e nl where "micscif_execute_disconnect al room (Pair True) maxid node_id m \<lparr>nodes = [], allocs = 0\<rparr> s = Some (e, nl, s\<lparr>rm_sent := rm_sent s @ ms\<rparr>)"
    "e = None \<longleftrightarrow> disconn_rescnt s node_id = length ms \<and> mi_disconnect_status s \<noteq> OP_FAILED" using ms d by auto
  then show ?thesis using ms(2,3) d n by (intro exI [of _ e] exI [of _ nl] exI [of _ ms]) simp
qed

theorem rmnode_targets_witness:
  "\<exists>e nl ms. micscif_execute_disconnect (\<lambda>_. True) (\<lambda>_. True) (Pair True) 3 1 [6] \<lparr>nodes = [], allocs = 0\<rparr> demo_nm =
     Some (e, nl, demo_nm\<lparr>rm_sent := rm_sent demo_nm @ ms\<rparr>) \<and> distinct (map rm_dst ms)"
proof -
  have "\<forall>i \<le> 3. peers_ok demo_nm [6] (sd_p2p demo_nm i)" by (auto simp: peers_ok_def demo_nm_def)
  then show ?thesis using rmnode_targets [of "\<lambda>_. True" "\<lambda>_. True" 3 "[6]" demo_nm 1] by (auto simp: demo_nm_def)
qed

text \<open>When a node is lost only the nodes with a smaller number are told: the loop over all nodes ends at the lost one.\<close>

theorem lost_node_half_told:
  assumes "node_id \<noteq> 0" and "node_id \<le> maxid" and "\<forall>n. room n" and "has_ctx node_id"
  shows "\<exists>s' ms. micscif_disconnect_node has_ctx al room (Pair True) maxid node_id m DISCONN_TYPE_LOST_NODE s = Some (None, s') \<and>
    rm_sent s' = rm_sent s @ ms \<and> map rm_dst ms = filter (\<lambda>i. sd_state s i = SCIFDEV_RUNNING) [0..<node_id]"
proof -
  have l: "\<exists>ms. rm_sent (lost_scan room node_id (is @ node_id # js) t) = rm_sent t @ ms \<and> map rm_dst ms = filter (\<lambda>i. sd_state t i = SCIFDEV_RUNNING) is"
    if "node_id \<notin> set is" for "is" js t
    using that
  proof (induction "is" arbitrary: t)
    case (Cons i "is")
    let ?t = "snd (micscif_send_lost_node_rmnode_msg room i node_id t)"
    obtain ms where "rm_sent (lost_scan room node_id (is @ node_id # js) ?t) = rm_sent ?t @ ms" "map rm_dst ms = filter (\<lambda>i. sd_state ?t i = SCIFDEV_RUNNING) is"
      using Cons by auto
    moreover have "sd_state ?t = sd_state t" by (simp add: micscif_send_lost_node_rmnode_msg_def)
    moreover have "room i" using assms(3) by simp
    ultimately show ?case using Cons.prems by (auto simp: micscif_send_lost_node_rmnode_msg_def)
  qed simp
  have "[0..<maxid + 1] = [0..<node_id] @ node_id # [Suc node_id..<maxid + 1]" using assms(2) upt_add_eq_append [of 0 node_id "maxid + 1 - node_id"] by (simp add: upt_conv_Cons)
  then show ?thesis using l [of "[0..<node_id]" "[Suc node_id..<maxid + 1]"
      "s\<lparr>mi_unique_msgid := mi_unique_msgid s + 1, disconn_rescnt := (disconn_rescnt s)(node_id := 0)\<rparr>"] assms(1,4)
    by (auto simp: micscif_disconnect_node_def Let_def)
qed

theorem lost_node_half_told_witness:
  "\<exists>s' ms. micscif_disconnect_node (\<lambda>_. True) (\<lambda>_. True) (\<lambda>_. True) (Pair True) 3 1 None DISCONN_TYPE_LOST_NODE demo_nm = Some (None, s') \<and>
     rm_sent s' = rm_sent demo_nm @ ms \<and> map rm_dst ms = filter (\<lambda>i. sd_state demo_nm i = SCIFDEV_RUNNING) [0..<1]"
  by (rule lost_node_half_told) simp_all

end
