(* ===== verification/Scif_Endpoint.thy ===== *)
theory Scif_Endpoint
  imports Scif_Ports Rma_List Node_Power
begin

text \<open>
  Endpoints of a node (\<open>micscif_api.c\<close>, \<open>micscif.h\<close>) and the handlers of the messages by which connections are made and ended (\<open>micscif_nodeqp.c\<close>),
  host build. An endpoint is reached by its address. A call that sleeps is split at its waits: the function for the part after a wait is
  applied when the condition of the wait holds. Under a lock, and between waits, a function runs without interruption.
  \<open>None\<close> is a \<open>BUG_ON\<close>, a use of an invalid pointer, or a damaged list: an endpoint has one pair of links, so that putting it on a list while it is
  on another one, or freeing it then, damages both lists. Messages are appended to \<open>outbox\<close>; \<open>room d\<close> says whether the queue to
  node \<open>d\<close> takes a message within its time limit. What memory allocation, the mapping of queue pairs and the DMA driver answer are arguments.
\<close>

section \<open>Data\<close>

datatype endptstate = SCIFEP_CLOSED | SCIFEP_UNBOUND | SCIFEP_BOUND | SCIFEP_LISTENING | SCIFEP_CONNECTED | SCIFEP_CONNECTING
  | SCIFEP_MAPPING | SCIFEP_CLOSING | SCIFEP_CLLISTEN | SCIFEP_DISCONNECTED | SCIFEP_ZOMBIE

record scif_portID =
  pnode :: nat
  pport :: u16

datatype msg_uop = SCIF_CNCT_REQ | SCIF_CNCT_GNT | SCIF_CNCT_GNTACK | SCIF_CNCT_GNTNACK | SCIF_CNCT_REJ | SCIF_CNCT_TERM | SCIF_TERM_ACK
  | SCIF_DISCNCT | SCIF_DISCNT_ACK | SCIF_CLIENT_SENT | SCIF_CLIENT_RCVD

record nodemsg =
  msg_src :: scif_portID
  msg_dst :: scif_portID
  uop :: msg_uop
  payload0 :: u64
  payload1 :: u64

record endpt_rma_info =
  reg_list :: "reg_range list"
  remote_reg_list :: "reg_range list"
  tw_refcount :: nat
  tcw_refcount :: nat

record endpt =
  state :: endptstate
  port :: scif_portID
  peer :: scif_portID
  backlog :: u8
  qp :: bool
  qp_offset :: u64
  cnct_gnt_payload :: u64
  rma_info :: endpt_rma_info
  remote_dev :: "nat option"
  remote_ep :: u64
  conreqcnt :: int
  ep_sd_state :: scif_state
  accepted_ep :: bool
  conlist :: "nodemsg list"
  li_accept :: "u64 list"
  acceptcnt :: int
  listenep :: "u64 option"

record scif_node =
  mi_nodeid :: nat
  max_board :: nat
  eps :: "u64 \<Rightarrow> endpt option"
  mi_listen :: "u64 list"
  mi_uaccept :: "u64 list"
  mi_connected :: "u64 list"
  mi_disconnected :: "u64 list"
  mi_zombie :: "u64 list"
  mi_nr_zombies :: u32
  dev_state :: "nat \<Rightarrow> scif_state"
  num_active_conn :: "nat \<Rightarrow> int"
  ports :: scif_ports
  outbox :: "(nat \<times> nodemsg) list"

text \<open>The memory of a new endpoint is zeroed.\<close>

definition zero_port :: scif_portID where "zero_port = \<lparr>pnode = 0, pport = 0\<rparr>"

definition rma_init :: endpt_rma_info where
  "rma_init = \<lparr>reg_list = [], remote_reg_list = [], tw_refcount = 0, tcw_refcount = 0\<rparr>"

definition new_endpt :: endpt where
  "new_endpt = \<lparr>state = SCIFEP_CLOSED, port = zero_port, peer = zero_port, backlog = 0, qp = False, qp_offset = 0, cnct_gnt_payload = 0, rma_info = rma_init,
     remote_dev = None, remote_ep = 0, conreqcnt = 0, ep_sd_state = SCIFDEV_NOTPRESENT, accepted_ep = False, conlist = [], li_accept = [],
     acceptcnt = 0, listenep = None\<rparr>"

definition set_ep :: "u64 \<Rightarrow> endpt \<Rightarrow> scif_node \<Rightarrow> scif_node" where
  "set_ep e p s = s\<lparr>eps := (eps s)(e := Some p)\<rparr>"

section \<open>Helpers\<close>

definition dev_up :: "scif_node \<Rightarrow> nat \<Rightarrow> bool" where
  "dev_up s d \<longleftrightarrow> dev_state s d = SCIFDEV_RUNNING \<or> dev_state s d = SCIFDEV_SLEEPING"

definition scifdev_alive :: "scif_node \<Rightarrow> endpt \<Rightarrow> bool option" where
  "scifdev_alive s p = map_option (\<lambda>d. dev_up s d \<and> ep_sd_state p = SCIFDEV_RUNNING) (remote_dev p)"

definition verify_epd :: "scif_node \<Rightarrow> endpt \<Rightarrow> errno option option" where
  "verify_epd s p =
     (if state p = SCIFEP_DISCONNECTED then Some (Some ECONNRESET)
      else if state p \<noteq> SCIFEP_CONNECTED then Some (Some ENOTCONN)
      else map_option (\<lambda>a. if a then None else Some ENODEV) (scifdev_alive s p))"

definition micscif_nodeqp_send :: "(nat \<Rightarrow> bool) \<Rightarrow> nat \<Rightarrow> nodemsg \<Rightarrow> endpt option \<Rightarrow> scif_node \<Rightarrow> errno option \<times> scif_node" where
  "micscif_nodeqp_send room d msg ep s =
     (if \<not> dev_up s d \<or> (case ep of Some p \<Rightarrow> ep_sd_state p = SCIFDEV_STOPPED | None \<Rightarrow> False) then (Some ENODEV, s)
      else if room d then (None, s\<lparr>outbox := outbox s @ [(d, msg)]\<rparr>) else (Some ENODEV, s))"

definition get_conn_count :: "nat \<Rightarrow> scif_node \<Rightarrow> scif_node" where
  "get_conn_count d s = s\<lparr>num_active_conn := (num_active_conn s)(d := num_active_conn s d + 1)\<rparr>"

definition put_conn_count :: "nat \<Rightarrow> scif_node \<Rightarrow> scif_node option" where
  "put_conn_count d s =
     (if num_active_conn s d - 1 < 0 then None else Some (s\<lparr>num_active_conn := (num_active_conn s)(d := num_active_conn s d - 1)\<rparr>))"

definition micscif_find_listen_ep :: "u16 \<Rightarrow> scif_node \<Rightarrow> u64 option" where
  "micscif_find_listen_ep pn s = find (\<lambda>e. case eps s e of Some p \<Rightarrow> pport (port p) = pn | None \<Rightarrow> False) (mi_listen s)"

text \<open>The request that is taken out is the first with the payload, from whatever node it came.\<close>

fun take_request :: "u64 \<Rightarrow> nodemsg list \<Rightarrow> nodemsg list option" where
  "take_request payload [] = None"
| "take_request payload (m # ms) = (if payload0 m = payload then Some ms else map_option ((#) m) (take_request payload ms))"

definition miscscif_get_connection_request :: "endpt \<Rightarrow> u64 \<Rightarrow> endpt option" where
  "miscscif_get_connection_request p payload = map_option (\<lambda>ms. p\<lparr>conlist := ms, conreqcnt := conreqcnt p - 1\<rparr>) (take_request payload (conlist p))"

definition micscif_teardown_ep :: "endpt \<Rightarrow> endpt" where
  "micscif_teardown_ep p = p\<lparr>qp := False\<rparr>"

definition on_list :: "scif_node \<Rightarrow> u64 \<Rightarrow> bool" where
  "on_list s e \<longleftrightarrow> e \<in> set (mi_listen s) \<or> e \<in> set (mi_connected s) \<or> e \<in> set (mi_disconnected s) \<or> e \<in> set (mi_zombie s)"

definition micscif_add_epd_to_zombie_list :: "u64 \<Rightarrow> scif_node \<Rightarrow> scif_node option" where
  "micscif_add_epd_to_zombie_list e s = do {
     p \<leftarrow> eps s e;
     if (state p = SCIFEP_CLOSING \<or> state p = SCIFEP_CLOSED \<or> state p = SCIFEP_DISCONNECTED) \<and>
        micscif_rma_list_get_pages_check (remote_reg_list (rma_info p)) \<noteq> 0 then None
     else if on_list s e then None
     else Some ((set_ep e (p\<lparr>state := SCIFEP_ZOMBIE\<rparr>) s)\<lparr>mi_zombie := mi_zombie s @ [e], mi_nr_zombies := mi_nr_zombies s + 1\<rparr>) }"

definition micscif_rma_ep_can_uninit :: "endpt \<Rightarrow> bool" where
  "micscif_rma_ep_can_uninit p \<longleftrightarrow> reg_list (rma_info p) = [] \<and> remote_reg_list (rma_info p) = [] \<and> tw_refcount (rma_info p) = 0 \<and> tcw_refcount (rma_info p) = 0"

fun cleanup_scan :: "u64 list \<Rightarrow> scif_node \<Rightarrow> scif_node option" where
  "cleanup_scan [] s = Some s"
| "cleanup_scan (e # es) s = do {
     p \<leftarrow> eps s e;
     cleanup_scan es (if micscif_rma_ep_can_uninit p
       then s\<lparr>mi_zombie := remove1 e (mi_zombie s), mi_nr_zombies := mi_nr_zombies s - 1, eps := (eps s)(e := None)\<rparr> else s) }"

definition micscif_cleanup_zombie_epd :: "scif_node \<Rightarrow> scif_node option" where
  "micscif_cleanup_zombie_epd s = cleanup_scan (mi_zombie s) s"

section \<open>Opening, binding, listening\<close>

definition scif_open :: "u64 option \<Rightarrow> bool \<Rightarrow> bool \<Rightarrow> scif_node \<Rightarrow> u64 option \<times> scif_node" where
  "scif_open addr qp_ok rma_ok s =
     (case addr of
        None \<Rightarrow> (None, s)
      | Some e \<Rightarrow> if qp_ok \<and> rma_ok then (Some e, set_ep e (new_endpt\<lparr>qp := True, state := SCIFEP_UNBOUND\<rparr>) s) else (None, s))"

definition scif_bind :: "bool \<Rightarrow> u64 \<Rightarrow> u16 \<Rightarrow> scif_node \<Rightarrow> ((errno + u16) \<times> scif_node) option" where
  "scif_bind capable e pn s = do {
     p \<leftarrow> eps s e;
     if pn \<noteq> 0 \<and> unat pn < 1024 \<and> \<not> capable then Some (Inl EACCES, s)
     else if state p = SCIFEP_BOUND then Some (Inl EINVAL, s)
     else if state p \<noteq> SCIFEP_UNBOUND then Some (Inl EISCONN, s)
     else
       let (q, ps) = (if pn \<noteq> 0 then rsrv_scif_port pn (ports s) else get_scif_port (ports s)); s = s\<lparr>ports := ps\<rparr>
       in if pn \<noteq> 0 \<and> q \<noteq> pn then Some (Inl EINVAL, s)
          else if q = 0 then Some (Inl ENOSPC, s)
          else Some (Inr q, set_ep e (p\<lparr>state := SCIFEP_BOUND, port := \<lparr>pnode = mi_nodeid s, pport = q\<rparr>\<rparr>) s) }"

text \<open>The argument is an \<open>int\<close>; the field it is stored in has eight bits.\<close>

definition scif_listen :: "u64 \<Rightarrow> u32 \<Rightarrow> scif_node \<Rightarrow> (errno option \<times> scif_node) option" where
  "scif_listen e backlg s = do {
     p \<leftarrow> eps s e;
     case state p of
       SCIFEP_ZOMBIE \<Rightarrow> None
     | SCIFEP_CLOSED \<Rightarrow> Some (Some EINVAL, s)
     | SCIFEP_CLOSING \<Rightarrow> Some (Some EINVAL, s)
     | SCIFEP_CLLISTEN \<Rightarrow> Some (Some EINVAL, s)
     | SCIFEP_UNBOUND \<Rightarrow> Some (Some EINVAL, s)
     | SCIFEP_DISCONNECTED \<Rightarrow> Some (Some EINVAL, s)
     | SCIFEP_LISTENING \<Rightarrow> Some (Some EISCONN, s)
     | SCIFEP_CONNECTED \<Rightarrow> Some (Some EISCONN, s)
     | SCIFEP_CONNECTING \<Rightarrow> Some (Some EISCONN, s)
     | SCIFEP_MAPPING \<Rightarrow> Some (Some EISCONN, s)
     | SCIFEP_BOUND \<Rightarrow>
         let p = micscif_teardown_ep (p\<lparr>state := SCIFEP_LISTENING, backlog := ucast backlg, conreqcnt := 0, acceptcnt := 0, conlist := [], li_accept := []\<rparr>)
         in Some (None, (set_ep e p s)\<lparr>mi_listen := mi_listen s @ [e]\<rparr>) }"

section \<open>Connecting\<close>

definition conn_msg :: "msg_uop \<Rightarrow> endpt \<Rightarrow> scif_portID \<Rightarrow> u64 \<Rightarrow> u64 \<Rightarrow> nodemsg" where
  "conn_msg u p d a b = \<lparr>msg_src = port p, msg_dst = d, uop = u, payload0 = a, payload1 = b\<rparr>"

text \<open>Up to the wait for the peer; \<open>None\<close> as first component is the wait. \<open>dma\<close> and \<open>setup\<close> are the results of reserving a DMA channel and of mapping the queue pair.\<close>

definition scif_connect_begin :: "(nat \<Rightarrow> bool) \<Rightarrow> errno option \<Rightarrow> errno + u64 \<Rightarrow> u64 \<Rightarrow> scif_portID \<Rightarrow> scif_node \<Rightarrow> (errno option \<times> scif_node) option" where
  "scif_connect_begin room dma setup e dst s = do {
     p \<leftarrow> eps s e;
     if pnode dst > max_board s then Some (Some ENODEV, s)
     else if \<not> dev_up s (pnode dst) then Some (Some ENODEV, s)
     else if state p = SCIFEP_ZOMBIE then None
     else if state p \<in> {SCIFEP_CLOSED, SCIFEP_CLOSING, SCIFEP_DISCONNECTED} then Some (Some EINVAL, s)
     else if state p \<in> {SCIFEP_LISTENING, SCIFEP_CLLISTEN} then Some (Some EOPNOTSUPP, s)
     else if state p \<in> {SCIFEP_CONNECTED, SCIFEP_CONNECTING, SCIFEP_MAPPING} then Some (Some EISCONN, s)
     else
       let (pn, ps) = (if state p = SCIFEP_UNBOUND then get_scif_port (ports s) else (pport (port p), ports s)); s = s\<lparr>ports := ps\<rparr>;
           p = (if state p = SCIFEP_UNBOUND then p\<lparr>port := (port p)\<lparr>pport := pn\<rparr>\<rparr> else p)
       in if state p = SCIFEP_UNBOUND \<and> pn = 0 then Some (Some ENOSPC, set_ep e p s)
          else
            let p = (if state p = SCIFEP_UNBOUND then p\<lparr>port := (port p)\<lparr>pnode := mi_nodeid s\<rparr>\<rparr> else p);
                p = p\<lparr>state := SCIFEP_CONNECTING, remote_dev := Some (pnode dst), ep_sd_state := SCIFDEV_RUNNING\<rparr>
            in if \<not> qp p then None
               else case dma of
                 Some err \<Rightarrow> Some (Some err, set_ep e (p\<lparr>state := SCIFEP_BOUND\<rparr>) s)
               | None \<Rightarrow>
                   (case setup of
                      Inl err \<Rightarrow> Some (Some err, set_ep e (p\<lparr>state := SCIFEP_BOUND\<rparr>) s)
                    | Inr off \<Rightarrow>
                        let p = p\<lparr>qp_offset := off\<rparr>
                        in Some (micscif_nodeqp_send room (pnode dst) (conn_msg SCIF_CNCT_REQ p dst e off) (Some p) (set_ep e p s))) }"

text \<open>
  After the wait. \<open>resp\<close> is the result of mapping the queue pair of the peer and \<open>peer_ep\<close> the endpoint stored there, \<open>None\<close> when the mapping gave a null pointer.
  The acknowledgement is sent first, then the endpoint becomes connected.
\<close>

definition connect_grant :: "(nat \<Rightarrow> bool) \<Rightarrow> errno option \<Rightarrow> u64 option \<Rightarrow> u64 \<Rightarrow> scif_portID \<Rightarrow> scif_node \<Rightarrow> (errno option \<times> scif_node) option" where
  "connect_grant room resp peer_ep e dst s = do {
     p \<leftarrow> eps s e;
     d \<leftarrow> remote_dev p;
     r \<leftarrow> peer_ep;
     let p = p\<lparr>remote_ep := r\<rparr>
     in case resp of
       Some err \<Rightarrow>
         let s = snd (micscif_nodeqp_send room d (conn_msg SCIF_CNCT_GNTNACK p dst r (qp_offset p)) (Some p) s)
         in Some (Some err, set_ep e (p\<lparr>state := SCIFEP_BOUND\<rparr>) s)
     | None \<Rightarrow>
         case micscif_nodeqp_send room d (conn_msg SCIF_CNCT_GNTACK p dst r (qp_offset p)) (Some p) s of
           (None, s) \<Rightarrow> Some (None, set_ep e p s)
         | (Some err, s) \<Rightarrow> Some (Some err, set_ep e (p\<lparr>state := SCIFEP_BOUND\<rparr>) s) }"

definition connect_commit :: "u64 \<Rightarrow> scif_node \<Rightarrow> scif_node option" where
  "connect_commit e s = do {
     p \<leftarrow> eps s e;
     d \<leftarrow> remote_dev p;
     Some (get_conn_count d ((set_ep e (p\<lparr>state := SCIFEP_CONNECTED\<rparr>) s)\<lparr>mi_connected := mi_connected s @ [e]\<rparr>)) }"

definition scif_connect_end :: "(nat \<Rightarrow> bool) \<Rightarrow> errno option \<Rightarrow> u64 option \<Rightarrow> u64 \<Rightarrow> scif_portID \<Rightarrow> scif_node \<Rightarrow> (errno option \<times> scif_node) option" where
  "scif_connect_end room resp peer_ep e dst s = do {
     p \<leftarrow> eps s e;
     if state p = SCIFEP_MAPPING then do {
       (err, s) \<leftarrow> connect_grant room resp peer_ep e dst s;
       if err \<noteq> None then Some (err, s) else do { s \<leftarrow> connect_commit e s; Some (None, s) } }
     else if state p = SCIFEP_BOUND then Some (Some ECONNREFUSED, s)
     else Some (Some EINTR, s) }"

text \<open>An interrupted wait: the request is withdrawn; without an error the caller waits again, for the end of the attempt. \<open>err\<close> is what the first wait gave.\<close>

definition scif_connect_term :: "(nat \<Rightarrow> bool) \<Rightarrow> u64 \<Rightarrow> scif_portID \<Rightarrow> scif_node \<Rightarrow> (errno option \<times> scif_node) option" where
  "scif_connect_term room e dst s = do {
     p \<leftarrow> eps s e; d \<leftarrow> remote_dev p;
     Some (micscif_nodeqp_send room d (conn_msg SCIF_CNCT_TERM p dst e (qp_offset p)) (Some p) s) }"

definition scif_connect_term_end :: "(nat \<Rightarrow> bool) \<Rightarrow> u64 option \<Rightarrow> errno \<Rightarrow> u64 \<Rightarrow> scif_portID \<Rightarrow> scif_node \<Rightarrow> (errno option \<times> scif_node) option" where
  "scif_connect_term_end room peer_ep err e dst s = do {
     p \<leftarrow> eps s e; d \<leftarrow> remote_dev p;
     if state p = SCIFEP_MAPPING then do {
       r \<leftarrow> peer_ep;
       let p = p\<lparr>remote_ep := r\<rparr>; s = snd (micscif_nodeqp_send room d (conn_msg SCIF_CNCT_GNTNACK p dst r (qp_offset p)) (Some p) s)
       in Some (Some err, set_ep e (p\<lparr>state := SCIFEP_BOUND\<rparr>) s) }
     else Some (Some err, set_ep e (p\<lparr>state := SCIFEP_BOUND\<rparr>) s) }"

section \<open>Accepting\<close>

text \<open>Before the wait for a request; \<open>sync\<close> is the flag \<open>SCIF_ACCEPT_SYNC\<close>. \<open>None\<close> is the wait.\<close>

definition scif_accept_begin :: "bool \<Rightarrow> u64 \<Rightarrow> scif_node \<Rightarrow> errno option option" where
  "scif_accept_begin sync e s = do {
     p \<leftarrow> eps s e;
     if state p \<noteq> SCIFEP_LISTENING then Some (Some EINVAL)
     else if conreqcnt p = 0 \<and> \<not> sync then Some (Some EAGAIN)
     else Some None }"

datatype accept_outcome = Accept_Error errno | Accept_Wait_Request | Accept_Wait_Peer u64 nodemsg | Accepted u64

record accept_env =
  acc_addr :: "u64 option"
  acc_rma_ok :: bool
  acc_dma :: "errno option"
  acc_qp_ok :: bool
  acc_setup :: "errno + u64"

text \<open>The source of the reject message is not set; the receiver does not read it.\<close>

definition reject_msg :: "nodemsg \<Rightarrow> nodemsg" where
  "reject_msg m = \<lparr>msg_src = zero_port, msg_dst = msg_src m, uop = SCIF_CNCT_REJ, payload0 = payload0 m, payload1 = payload1 m\<rparr>"

definition accept_error :: "(nat \<Rightarrow> bool) \<Rightarrow> nodemsg \<Rightarrow> errno \<Rightarrow> scif_node \<Rightarrow> accept_outcome \<times> scif_node" where
  "accept_error room conreq err s = (Accept_Error err, snd (micscif_nodeqp_send room (pnode (msg_src conreq)) (reject_msg conreq) None s))"

text \<open>After the wait for a request, up to the wait for the answer of the peer to the grant. The request is part of the result.\<close>

definition scif_accept_take :: "(nat \<Rightarrow> bool) \<Rightarrow> accept_env \<Rightarrow> u64 \<Rightarrow> scif_node \<Rightarrow> (accept_outcome \<times> scif_node) option" where
  "scif_accept_take room env e s = do {
     lep \<leftarrow> eps s e;
     if state lep \<noteq> SCIFEP_LISTENING then Some (Accept_Error EINTR, s)
     else if conreqcnt lep = 0 then Some (Accept_Wait_Request, s)
     else case conlist lep of
       [] \<Rightarrow> None
     | conreq # ms \<Rightarrow>
         let s = set_ep e (lep\<lparr>conlist := ms, conreqcnt := conreqcnt lep - 1\<rparr>) s; peer_id = msg_src conreq;
             cep = new_endpt\<lparr>state := SCIFEP_CONNECTING, remote_dev := Some (pnode peer_id), remote_ep := payload0 conreq, ep_sd_state := SCIFDEV_RUNNING\<rparr>
         in case acc_addr env of
              None \<Rightarrow> Some (accept_error room conreq ENOMEM s)
            | Some c \<Rightarrow>
                if \<not> dev_up s (pnode peer_id) then Some (accept_error room conreq ENODEV s)
                else if \<not> acc_rma_ok env then Some (accept_error room conreq ENOMEM s)
                else case acc_dma env of
                  Some err \<Rightarrow> Some (accept_error room conreq err s)
                | None \<Rightarrow>
                    if \<not> acc_qp_ok env then Some (accept_error room conreq ENOMEM s)
                    else case acc_setup env of
                      Inl err \<Rightarrow> Some (accept_error room conreq err s)
                    | Inr off \<Rightarrow>
                        let cep = cep\<lparr>qp := True, qp_offset := off, port := port lep, peer := peer_id, accepted_ep := True\<rparr>
                        in case micscif_nodeqp_send room (pnode peer_id) (conn_msg SCIF_CNCT_GNT cep zero_port (remote_ep cep) off) (Some cep) s of
                             (None, s) \<Rightarrow> Some (Accept_Wait_Peer c conreq, set_ep c cep s)
                           | (Some err, s) \<Rightarrow> Some (accept_error room conreq err s) }"

text \<open>After the wait for the peer: the new endpoint, a further wait for a request, or the error for a caller that does not wait.\<close>

definition scif_accept_end :: "bool \<Rightarrow> u64 \<Rightarrow> scif_node \<Rightarrow> (accept_outcome \<times> scif_node) option" where
  "scif_accept_end sync c s = do {
     cep \<leftarrow> eps s c;
     if state cep = SCIFEP_CONNECTED then Some (Accepted c, s)
     else if state cep = SCIFEP_CLOSING then
       if on_list s c then None else Some (if sync then Accept_Wait_Request else Accept_Error EAGAIN, s\<lparr>eps := (eps s)(c := None)\<rparr>)
     else Some (Accepted c, s) }"

text \<open>The wait for the peer ends without an answer when the device of the peer is gone.\<close>

definition scif_accept_lost :: "(nat \<Rightarrow> bool) \<Rightarrow> nodemsg \<Rightarrow> u64 \<Rightarrow> scif_node \<Rightarrow> accept_outcome \<times> scif_node" where
  "scif_accept_lost room conreq c s = accept_error room conreq ENODEV (s\<lparr>eps := (eps s)(c := None)\<rparr>)"

text \<open>The second half of an accept by a user process: the new endpoint is remembered until the process attaches it to a file of its own.\<close>

definition scif_acceptreq_done :: "u64 \<Rightarrow> u64 \<Rightarrow> scif_node \<Rightarrow> scif_node option" where
  "scif_acceptreq_done l c s = do {
     lep \<leftarrow> eps s l; cep \<leftarrow> eps s c;
     Some ((set_ep l (lep\<lparr>li_accept := li_accept lep @ [c], acceptcnt := acceptcnt lep + 1\<rparr>) (set_ep c (cep\<lparr>listenep := Some l\<rparr>) s))
       \<lparr>mi_uaccept := mi_uaccept s @ [c]\<rparr>) }"

definition scif_acceptreg :: "u64 \<Rightarrow> u64 \<Rightarrow> scif_node \<Rightarrow> (errno option \<times> scif_node) option" where
  "scif_acceptreg e newep s =
     (if newep \<notin> set (mi_uaccept s) then Some (Some ENOENT, s)
      else do {
        p \<leftarrow> eps s newep; l \<leftarrow> listenep p; lep \<leftarrow> eps s l;
        let s = s\<lparr>mi_uaccept := remove1 newep (mi_uaccept s)\<rparr>;
            s = (if newep \<in> set (li_accept lep)
                 then set_ep l (lep\<lparr>li_accept := remove1 newep (li_accept lep), acceptcnt := acceptcnt lep - 1\<rparr>) s else s)
        in do {
          q \<leftarrow> eps s e;
          s \<leftarrow> micscif_add_epd_to_zombie_list e (set_ep e (micscif_teardown_ep q) s);
          Some (None, s) } })"

section \<open>Closing\<close>

text \<open>
  \<open>unreg\<close> is what the unregistration of all windows leaves of the memory information of an endpoint. The end of \<open>__scif_close\<close> releases the port and makes the endpoint a zombie.
\<close>

definition scif_close_end :: "u64 \<Rightarrow> scif_node \<Rightarrow> scif_node option" where
  "scif_close_end e s = do {
     p \<leftarrow> eps s e;
     let s = (if pport (port p) \<noteq> 0 \<and> \<not> accepted_ep p then s\<lparr>ports := put_scif_port (pport (port p)) (ports s)\<rparr> else s)
     in micscif_add_epd_to_zombie_list e (set_ep e (micscif_teardown_ep p) s) }"

text \<open>The loop over accepted endpoints that no process has attached.\<close>

fun drop_accepts :: "u64 list \<Rightarrow> scif_node \<Rightarrow> scif_node option" where
  "drop_accepts [] s = Some s"
| "drop_accepts (a # as) s = do {
     aep \<leftarrow> eps s a;
     let s = (if pport (port aep) \<noteq> 0 \<and> \<not> accepted_ep aep then s\<lparr>ports := put_scif_port (pport (port aep)) (ports s)\<rparr> else s);
         s = s\<lparr>mi_uaccept := remove1 a (mi_uaccept s)\<rparr>
     in do {
       s \<leftarrow> (if a \<in> set (mi_connected s) then do { d \<leftarrow> remote_dev aep; put_conn_count d (s\<lparr>mi_connected := remove1 a (mi_connected s)\<rparr>) } else Some s);
       s \<leftarrow> micscif_add_epd_to_zombie_list a (set_ep a (micscif_teardown_ep aep) (s\<lparr>mi_disconnected := remove1 a (mi_disconnected s)\<rparr>));
       drop_accepts as s } }"

fun reject_all :: "(nat \<Rightarrow> bool) \<Rightarrow> nodemsg list \<Rightarrow> endpt \<Rightarrow> scif_node \<Rightarrow> scif_node" where
  "reject_all room [] p s = s"
| "reject_all room (m # ms) p s = reject_all room ms p (snd (micscif_nodeqp_send room (pnode (msg_src m)) (reject_msg m) (Some p) s))"

text \<open>
  \<open>__scif_close\<close> up to its first wait. The unregistration of all windows waits: for an endpoint that was connected the call goes on with \<open>scif_close_connected\<close>,
  for one that was disconnected with \<open>scif_close_disconnected\<close>; until then the endpoint is on the list it was on. \<open>Close_Ack\<close> is the wait for the answer to \<open>SCIF_DISCNCT\<close>,
  or for a timeout, after which \<open>scif_close_end\<close> follows. The loop that waits while the state is \<open>SCIFEP_MAPPING\<close> does nothing, because the state has been set
  to \<open>SCIFEP_CLOSING\<close> before.
\<close>

datatype close_outcome = Close_Done | Close_Unreg_Disconnected | Close_Unreg_Connected | Close_Ack

definition scif_close :: "(nat \<Rightarrow> bool) \<Rightarrow> u64 \<Rightarrow> scif_node \<Rightarrow> (close_outcome \<times> scif_node) option" where
  "scif_close room e s = do {
     p \<leftarrow> eps s e;
     let oldstate = state p; p = p\<lparr>state := SCIFEP_CLOSING\<rparr>
     in if oldstate = SCIFEP_ZOMBIE then None
        else if oldstate \<in> {SCIFEP_CLOSED, SCIFEP_DISCONNECTED} then Some (Close_Unreg_Disconnected, set_ep e p s)
        else if oldstate \<in> {SCIFEP_UNBOUND, SCIFEP_BOUND, SCIFEP_CONNECTING} then map_option (Pair Close_Done) (scif_close_end e (set_ep e p s))
        else if oldstate \<in> {SCIFEP_MAPPING, SCIFEP_CONNECTED, SCIFEP_CLOSING} then Some (Close_Unreg_Connected, set_ep e p s)
        else if acceptcnt p < 0 \<or> int (length (li_accept p)) < acceptcnt p \<or> conreqcnt p < 0 \<or> int (length (conlist p)) < conreqcnt p then None
        else
          let a = nat (acceptcnt p); c = nat (conreqcnt p)
          in do {
            s \<leftarrow> drop_accepts (take a (li_accept p)) ((set_ep e p s)\<lparr>mi_listen := removeAll e (mi_listen s)\<rparr>);
            let s = reject_all room (take c (conlist p)) p s;
                s = set_ep e (p\<lparr>conlist := drop c (conlist p), conreqcnt := 0, li_accept := drop a (li_accept p), acceptcnt := 0\<rparr>) s
            in map_option (Pair Close_Done) (scif_close_end e s) } }"

definition scif_close_disconnected :: "(endpt_rma_info \<Rightarrow> endpt_rma_info) \<Rightarrow> u64 \<Rightarrow> scif_node \<Rightarrow> scif_node option" where
  "scif_close_disconnected unreg e s = do {
     p \<leftarrow> eps s e;
     scif_close_end e ((set_ep e (p\<lparr>rma_info := unreg (rma_info p)\<rparr>) s)\<lparr>mi_disconnected := remove1 e (mi_disconnected s)\<rparr>) }"

definition scif_close_connected :: "(nat \<Rightarrow> bool) \<Rightarrow> (endpt_rma_info \<Rightarrow> endpt_rma_info) \<Rightarrow> u64 \<Rightarrow> scif_node \<Rightarrow> (close_outcome \<times> scif_node) option" where
  "scif_close_connected room unreg e s = do {
     p \<leftarrow> eps s e;
     if e \<in> set (mi_connected s) then
       let p = p\<lparr>rma_info := unreg (rma_info p)\<rparr>
       in do {
         d \<leftarrow> remote_dev p;
         s \<leftarrow> put_conn_count d ((set_ep e p s)\<lparr>mi_connected := remove1 e (mi_connected s)\<rparr>);
         case micscif_nodeqp_send room d (conn_msg SCIF_DISCNCT p (peer p) e (remote_ep p)) (Some p) s of
           (None, s) \<Rightarrow> Some (Close_Ack, s)
         | (Some _, s) \<Rightarrow> map_option (Pair Close_Done) (scif_close_end e s) }
     else map_option (Pair Close_Done) (scif_close_disconnected unreg e s) }"

text \<open>\<open>__scif_flush\<close>: \<open>False\<close> is the wait for the answer to \<open>SCIF_DISCNCT\<close>, or for a timeout, after which \<open>scif_flush_end\<close> follows.\<close>

definition scif_flush_end :: "u64 \<Rightarrow> scif_node \<Rightarrow> scif_node option" where
  "scif_flush_end e s = do {
     p \<leftarrow> eps s e;
     if on_list s e then None else Some ((set_ep e (p\<lparr>state := SCIFEP_DISCONNECTED\<rparr>) s)\<lparr>mi_disconnected := mi_disconnected s @ [e]\<rparr>) }"

definition scif_flush :: "(nat \<Rightarrow> bool) \<Rightarrow> u64 \<Rightarrow> scif_node \<Rightarrow> (bool \<times> scif_node) option" where
  "scif_flush room e s = do {
     p \<leftarrow> eps s e;
     if state p = SCIFEP_CONNECTED then
       if e \<in> set (mi_connected s) then do {
         d \<leftarrow> remote_dev p;
         s \<leftarrow> put_conn_count d (s\<lparr>mi_connected := remove1 e (mi_connected s)\<rparr>);
         case micscif_nodeqp_send room d (conn_msg SCIF_DISCNCT p (peer p) e (remote_ep p)) (Some p) s of
           (None, s) \<Rightarrow> Some (False, s)
         | (Some _, s) \<Rightarrow> map_option (Pair True) (scif_flush_end e s) }
       else Some (True, s\<lparr>mi_disconnected := remove1 e (mi_disconnected s)\<rparr>)
     else if state p = SCIFEP_LISTENING then Some (True, set_ep e (p\<lparr>state := SCIFEP_CLLISTEN\<rparr>) s)
     else Some (True, s) }"

section \<open>Handlers of messages\<close>

text \<open>\<open>d\<close> is the node the message came from, \<open>mem\<close> says whether the memory for a request can be had.\<close>

definition scif_cnctreq_resp :: "(nat \<Rightarrow> bool) \<Rightarrow> bool \<Rightarrow> nodemsg \<Rightarrow> scif_node \<Rightarrow> scif_node option" where
  "scif_cnctreq_resp room mem msg s =
     (let rej = snd (micscif_nodeqp_send room (pnode (msg_src msg)) (msg\<lparr>uop := SCIF_CNCT_REJ\<rparr>) None s)
      in if \<not> mem then Some rej
         else case micscif_find_listen_ep (pport (msg_dst msg)) s of
           None \<Rightarrow> Some rej
         | Some e \<Rightarrow> do {
             p \<leftarrow> eps s e;
             if int (unat (backlog p)) \<le> conreqcnt p then Some rej
             else Some (set_ep e (p\<lparr>conlist := conlist p @ [msg], conreqcnt := conreqcnt p + 1\<rparr>) s) })"

definition scif_cnctgnt_resp :: "nodemsg \<Rightarrow> scif_node \<Rightarrow> scif_node option" where
  "scif_cnctgnt_resp msg s = do {
     p \<leftarrow> eps s (payload0 msg);
     Some (if state p = SCIFEP_CONNECTING
       then set_ep (payload0 msg) (p\<lparr>peer := msg_src msg, cnct_gnt_payload := payload1 msg, state := SCIFEP_MAPPING\<rparr>) s else s) }"

definition scif_cnctgntack_resp :: "nat \<Rightarrow> nodemsg \<Rightarrow> scif_node \<Rightarrow> scif_node option" where
  "scif_cnctgntack_resp d msg s = do {
     p \<leftarrow> eps s (payload0 msg);
     Some (get_conn_count d ((set_ep (payload0 msg) (p\<lparr>state := SCIFEP_CONNECTED\<rparr>) s)\<lparr>mi_connected := mi_connected s @ [payload0 msg]\<rparr>)) }"

definition scif_cnctgntnack_resp :: "nodemsg \<Rightarrow> scif_node \<Rightarrow> scif_node option" where
  "scif_cnctgntnack_resp msg s = do { p \<leftarrow> eps s (payload0 msg); Some (set_ep (payload0 msg) (p\<lparr>state := SCIFEP_CLOSING\<rparr>) s) }"

definition scif_cnctrej_resp :: "nodemsg \<Rightarrow> scif_node \<Rightarrow> scif_node option" where
  "scif_cnctrej_resp msg s = do {
     p \<leftarrow> eps s (payload0 msg);
     Some (if state p = SCIFEP_CONNECTING then set_ep (payload0 msg) (p\<lparr>state := SCIFEP_BOUND\<rparr>) s else s) }"

definition scif_cnctterm_resp :: "(nat \<Rightarrow> bool) \<Rightarrow> nodemsg \<Rightarrow> scif_node \<Rightarrow> scif_node option" where
  "scif_cnctterm_resp room msg s =
     (case micscif_find_listen_ep (pport (msg_dst msg)) s of
        None \<Rightarrow> Some s
      | Some e \<Rightarrow> do {
          p \<leftarrow> eps s e;
          case miscscif_get_connection_request p (payload0 msg) of
            None \<Rightarrow> Some s
          | Some p \<Rightarrow> Some (snd (micscif_nodeqp_send room (pnode (msg_src msg)) (msg\<lparr>uop := SCIF_TERM_ACK\<rparr>) None (set_ep e p s))) })"

definition scif_termack_resp :: "nodemsg \<Rightarrow> scif_node \<Rightarrow> scif_node option" where
  "scif_termack_resp msg s = do {
     p \<leftarrow> eps s (payload0 msg);
     Some (if state p \<noteq> SCIFEP_BOUND then set_ep (payload0 msg) (p\<lparr>state := SCIFEP_BOUND\<rparr>) s else s) }"

definition scif_discnct_resp :: "(nat \<Rightarrow> bool) \<Rightarrow> nat \<Rightarrow> nodemsg \<Rightarrow> scif_node \<Rightarrow> scif_node option" where
  "scif_discnct_resp room d msg s = do {
     s \<leftarrow> (if payload1 msg \<in> set (mi_connected s) then do {
             s \<leftarrow> put_conn_count d (s\<lparr>mi_connected := remove1 (payload1 msg) (mi_connected s)\<rparr>);
             p \<leftarrow> eps s (payload1 msg);
             Some ((set_ep (payload1 msg) (p\<lparr>state := SCIFEP_DISCONNECTED\<rparr>) s)\<lparr>mi_disconnected := mi_disconnected s @ [payload1 msg]\<rparr>) }
           else Some s);
     Some (snd (micscif_nodeqp_send room (pnode (msg_src msg)) (msg\<lparr>uop := SCIF_DISCNT_ACK\<rparr>) None s)) }"

definition scif_discntack_resp :: "nodemsg \<Rightarrow> scif_node \<Rightarrow> scif_node option" where
  "scif_discntack_resp msg s = do { p \<leftarrow> eps s (payload0 msg); Some (set_ep (payload0 msg) (p\<lparr>state := SCIFEP_DISCONNECTED\<rparr>) s) }"

text \<open>The notifications about data wake up sleepers only.\<close>

definition scif_clientsend_resp :: "nodemsg \<Rightarrow> scif_node \<Rightarrow> (bool \<times> scif_node) option" where
  "scif_clientsend_resp msg s = do { p \<leftarrow> eps s (payload0 msg); Some (state p = SCIFEP_CONNECTED, s) }"

definition scif_clientrcvd_resp :: "nodemsg \<Rightarrow> scif_node \<Rightarrow> (bool \<times> scif_node) option" where
  "scif_clientrcvd_resp msg s = do { p \<leftarrow> eps s (payload0 msg); Some (state p = SCIFEP_CONNECTED, s) }"

definition micscif_nodeqp_msg_handler :: "(nat \<Rightarrow> bool) \<Rightarrow> bool \<Rightarrow> nat \<Rightarrow> nodemsg \<Rightarrow> scif_node \<Rightarrow> scif_node option" where
  "micscif_nodeqp_msg_handler room mem d msg s =
     (case uop msg of
        SCIF_CNCT_REQ \<Rightarrow> scif_cnctreq_resp room mem msg s
      | SCIF_CNCT_GNT \<Rightarrow> scif_cnctgnt_resp msg s
      | SCIF_CNCT_GNTACK \<Rightarrow> scif_cnctgntack_resp d msg s
      | SCIF_CNCT_GNTNACK \<Rightarrow> scif_cnctgntnack_resp msg s
      | SCIF_CNCT_REJ \<Rightarrow> scif_cnctrej_resp msg s
      | SCIF_CNCT_TERM \<Rightarrow> scif_cnctterm_resp room msg s
      | SCIF_TERM_ACK \<Rightarrow> scif_termack_resp msg s
      | SCIF_DISCNCT \<Rightarrow> scif_discnct_resp room d msg s
      | SCIF_DISCNT_ACK \<Rightarrow> scif_discntack_resp msg s
      | SCIF_CLIENT_SENT \<Rightarrow> map_option snd (scif_clientsend_resp msg s)
      | SCIF_CLIENT_RCVD \<Rightarrow> map_option snd (scif_clientrcvd_resp msg s))"

text \<open>All endpoints connected to a node that is gone.\<close>

fun invalidate_disconnected :: "nat \<Rightarrow> u64 list \<Rightarrow> scif_node \<Rightarrow> scif_node option" where
  "invalidate_disconnected d [] s = Some s"
| "invalidate_disconnected d (e # es) s = do {
     p \<leftarrow> eps s e; r \<leftarrow> remote_dev p;
     invalidate_disconnected d es (if r = d then set_ep e (p\<lparr>ep_sd_state := SCIFDEV_STOPPED\<rparr>) s else s) }"

fun invalidate_connected :: "nat \<Rightarrow> u64 list \<Rightarrow> scif_node \<Rightarrow> scif_node option" where
  "invalidate_connected d [] s = Some s"
| "invalidate_connected d (e # es) s = do {
     p \<leftarrow> eps s e; r \<leftarrow> remote_dev p;
     s \<leftarrow> (if r = d then do {
             s \<leftarrow> put_conn_count d (s\<lparr>mi_connected := remove1 e (mi_connected s)\<rparr>);
             Some ((set_ep e (p\<lparr>state := SCIFEP_DISCONNECTED, ep_sd_state := SCIFDEV_STOPPED\<rparr>) s)\<lparr>mi_disconnected := mi_disconnected s @ [e]\<rparr>) }
           else Some s);
     invalidate_connected d es s }"

definition scif_invalidate_ep :: "nat \<Rightarrow> scif_node \<Rightarrow> scif_node option" where
  "scif_invalidate_ep d s = do { s \<leftarrow> invalidate_disconnected d (mi_disconnected s) s; invalidate_connected d (mi_connected s) s }"

end
