(* ===== verification/Rma_Register.thy ===== *)
theory Rma_Register
  imports Rma_Remote Va_Gen Scif_Endpoint
begin

text \<open>
  Registration of windows (\<open>micscif_api.c\<close>, \<open>micscif_rma.c\<close>, \<open>micscif_rma_list.c\<close>, host build for KNC), and the handlers of its messages at
  both nodes (\<open>micscif_nodeqp.c\<close>), for one endpoint. The offset of a window comes from the address generator, its pages are pinned, the other node
  allocates a window of its own, receives the addresses and enters the window in its list; then the owner enters it in its own list.
  A call that sleeps is split at its waits, and its window is then in the list \<open>aborting\<close> or \<open>registering\<close>; the function for the part after a wait is applied
  when the condition of the wait holds. \<open>sent\<close> says whether the queue takes a message; a message that it does not take is \<open>ENODEV\<close>.
  \<open>kz\<close> are the answers to the allocations of the address generator. \<open>None\<close> is a \<open>BUG_ON\<close> or a use of an invalid pointer. The counts that keep a
  node awake during a call, and the count of pinned pages of the process when a window is destroyed, are left out.
\<close>

section \<open>Data\<close>

abbreviation VA_GEN_MIN :: u64 where "VA_GEN_MIN \<equiv> 0x4000000000000000"
abbreviation VA_GEN_RANGE :: u64 where "VA_GEN_RANGE \<equiv> 0x3f00000000000000"

text \<open>The messages, with those of their payloads that are used; a window is named by its address, an allocation by the window it is for.\<close>

datatype rma_msg =
    SCIF_ALLOC_REQ u64 u64
  | SCIF_ALLOC_GNT u64 u64 u64
  | SCIF_ALLOC_REJ u64 u64 u64
  | SCIF_FREE_VIRT u64 u64
  | SCIF_REGISTER u64 u64
  | SCIF_REGISTER_ACK u64 u64
  | SCIF_REGISTER_NACK u64 u64
  | SCIF_UNREGISTER u64 u64
  | SCIF_UNREGISTER_ACK u64
  | SCIF_UNREGISTER_NACK u64
  | SCIF_MUNMAP u64

record rma_ep = endpt_rma_info +
  rm_state :: endptstate
  rm_alive :: bool
  rm_va :: va_gen_addr
  tw_total_pages :: int
  async_list_del :: bool
  aborting :: "reg_range list"
  registering :: "reg_range list"
  mi_rma :: "reg_range list"
  remote_pending :: "reg_range list"
  pin_sets :: "u64 \<Rightarrow> scif_pinned_pages option"
  rm_mm :: mm_struct
  rm_sent :: "rma_msg list"
  rm_unmapped :: "(u64 \<times> u64) list"

definition find_win :: "u64 \<Rightarrow> reg_range list \<Rightarrow> reg_range option" where
  "find_win a ws = find (\<lambda>w. waddr w = a) ws"

definition upd_win :: "u64 \<Rightarrow> (reg_range \<Rightarrow> reg_range) \<Rightarrow> reg_range list \<Rightarrow> reg_range list" where
  "upd_win a f ws = map (\<lambda>w. if waddr w = a then f w else w) ws"

definition del_win :: "u64 \<Rightarrow> reg_range list \<Rightarrow> reg_range list" where
  "del_win a ws = filter (\<lambda>w. waddr w \<noteq> a) ws"

definition rma_verify :: "rma_ep \<Rightarrow> errno option" where
  "rma_verify r =
     (if rm_state r = SCIFEP_DISCONNECTED then Some ECONNRESET
      else if rm_state r \<noteq> SCIFEP_CONNECTED then Some ENOTCONN
      else if \<not> rm_alive r then Some ENODEV else None)"

definition rma_send :: "bool \<Rightarrow> rma_msg \<Rightarrow> rma_ep \<Rightarrow> errno option \<times> rma_ep" where
  "rma_send sent m r = (if sent then (None, r\<lparr>rm_sent := rm_sent r @ [m]\<rparr>) else (Some ENODEV, r))"

section \<open>Offsets\<close>

definition micscif_rma_ep_init :: "kzalloc_result \<Rightarrow> rma_ep \<Rightarrow> (errno option \<times> rma_ep) option" where
  "micscif_rma_ep_init kz r =
     (case va_gen_init kz (rm_va r) VA_GEN_MIN VA_GEN_RANGE of
        None \<Rightarrow> None
      | Some (Inl e) \<Rightarrow> Some (Some e, r)
      | Some (Inr va) \<Rightarrow> Some (None, r\<lparr>rm_va := va, reg_list := [], remote_reg_list := [], tw_refcount := 0, tcw_refcount := 0,
          tw_total_pages := 0, async_list_del := False\<rparr>))"

definition micscif_get_window_offset :: "(nat \<Rightarrow> kzalloc_result) \<Rightarrow> u32 \<Rightarrow> u64 \<Rightarrow> u64 \<Rightarrow> rma_ep \<Rightarrow> ((errno + u64) \<times> rma_ep) option" where
  "micscif_get_window_offset kz flags off len r =
     (if flags AND SCIF_MAP_FIXED \<noteq> 0 then do {
        (x, va) \<leftarrow> va_gen_claim (kz 0) (rm_va r) off len;
        Some (if x = INVALID_VA_GEN_ADDRESS then Inl EADDRINUSE else Inr x, r\<lparr>rm_va := va\<rparr>) }
      else do {
        (x, va) \<leftarrow> va_gen_alloc kz (rm_va r) len (of_nat PAGE_SIZE);
        Some (if x = INVALID_VA_GEN_ADDRESS then Inl ENOMEM else Inr x, r\<lparr>rm_va := va\<rparr>) })"

definition micscif_free_window_offset :: "kzalloc_result \<Rightarrow> u64 \<Rightarrow> u64 \<Rightarrow> rma_ep \<Rightarrow> rma_ep option" where
  "micscif_free_window_offset kz off len r = map_option (\<lambda>va. r\<lparr>rm_va := va\<rparr>) (va_gen_free kz (rm_va r) off len)"

definition win_len :: "reg_range \<Rightarrow> u64" where
  "win_len w = push_bit WPAGE_SHIFT (nr_pages w)"

section \<open>Destruction\<close>

text \<open>The mappings of the chunks of a window, which are taken down with it; \<open>unmap_from_aperture\<close> does not fail in this build.\<close>

definition unmap_chunks :: "reg_range \<Rightarrow> ((u64 \<times> u64) list) option" where
  "unmap_chunks w =
     (if unat (nr_contig_chunks w) \<le> length (dma_addrs w) \<and> unat (nr_contig_chunks w) \<le> length (num_pages w)
      then Some (map (\<lambda>j. (dma_addrs w ! j, chunk_bytes (num_pages w ! j))) (filter (\<lambda>j. dma_addrs w ! j \<noteq> 0) [0..<unat (nr_contig_chunks w)]))
      else None)"

definition micscif_destroy_window :: "kzalloc_result \<Rightarrow> reg_range \<Rightarrow> rma_ep \<Rightarrow> rma_ep option" where
  "micscif_destroy_window kz w r =
     (if magic w \<noteq> SCIFEP_MAGIC then None
      else do {
        r \<leftarrow> (if offset_freed w then Some r else micscif_free_window_offset kz (offset w) (win_len w) r);
        us \<leftarrow> unmap_chunks w;
        pp \<leftarrow> pin_sets r (pinned_pages w);
        let j = pp_ref_count pp - pp_nr_pages pp; r = r\<lparr>rm_unmapped := rm_unmapped r @ us\<rparr>
        in if j < 0 then None
           else if j = 0 then
             map_option (\<lambda>mm. r\<lparr>pin_sets := (pin_sets r)(pinned_pages w := None), rm_mm := mm\<rparr>) (micscif_destroy_pinned_pages pp (rm_mm r))
           else Some (r\<lparr>pin_sets := (pin_sets r)(pinned_pages w \<mapsto> pp\<lparr>pp_ref_count := j\<rparr>)\<rparr>) })"

text \<open>\<open>micscif_destroy_incomplete_window\<close> after its wait.\<close>

definition micscif_destroy_incomplete_window :: "kzalloc_result \<Rightarrow> bool \<Rightarrow> reg_range \<Rightarrow> rma_ep \<Rightarrow> rma_ep option" where
  "micscif_destroy_incomplete_window kz sent w r =
     (if magic w \<noteq> SCIFEP_MAGIC then None
      else
        let r = (if al_state (alloc_handle w) = OP_COMPLETED then snd (rma_send sent (SCIF_FREE_VIRT (al_vaddr (alloc_handle w)) (waddr w)) r) else r)
        in micscif_free_window_offset kz (offset w) (win_len w) r)"

definition micscif_queue_for_cleanup :: "reg_range \<Rightarrow> rma_ep \<Rightarrow> rma_ep" where
  "micscif_queue_for_cleanup w r = r\<lparr>mi_rma := mi_rma r @ [w]\<rparr>"

section \<open>Registration\<close>

datatype reg_outcome = Reg_Error errno | Reg_Abort errno | Reg_Wait | Registered u64

definition reg_offset_ok :: "u32 \<Rightarrow> u64 \<Rightarrow> u64 \<Rightarrow> bool" where
  "reg_offset_ok flags off len \<longleftrightarrow>
     \<not> (flags AND SCIF_MAP_FIXED \<noteq> 0 \<and> (\<not> page_aligned off \<or> sint off < 0 \<or> sint (off + len) < sint off))"

record reg_env =
  kz_get :: "nat \<Rightarrow> kzalloc_result"
  kz_free :: kzalloc_result
  win_zalloc :: "nat \<Rightarrow> bool"
  win_addr :: u64
  alloc_sent :: bool

text \<open>What \<open>__scif_register\<close> and \<open>__scif_register_pinned_pages\<close> do first: the endpoint, the offset and the window.\<close>

definition reg_open :: "reg_env \<Rightarrow> u32 \<Rightarrow> u64 \<Rightarrow> u64 \<Rightarrow> rma_ep \<Rightarrow> ((errno + reg_range) \<times> rma_ep) option" where
  "reg_open env flags off len r =
     (case rma_verify r of
        Some e \<Rightarrow> Some (Inl e, r)
      | None \<Rightarrow> do {
          (res, r) \<leftarrow> micscif_get_window_offset (kz_get env) flags off len r;
          case res of
            Inl e \<Rightarrow> Some (Inl e, r)
          | Inr x \<Rightarrow>
              case micscif_create_window (win_zalloc env) (win_addr env) (drop_bit WPAGE_SHIFT len) x False of
                None \<Rightarrow> map_option (Pair (Inl ENOMEM)) (micscif_free_window_offset (kz_free env) x len r)
              | Some w \<Rightarrow> Some (Inr (w\<lparr>nr_pages := drop_bit WPAGE_SHIFT len\<rparr>), r) })"

definition micscif_send_alloc_request :: "bool \<Rightarrow> reg_range \<Rightarrow> rma_ep \<Rightarrow> errno option \<times> reg_range \<times> rma_ep" where
  "micscif_send_alloc_request sent w r =
     (let w = w\<lparr>alloc_handle := (alloc_handle w)\<lparr>al_state := OP_IN_PROGRESS\<rparr>\<rparr>; (e, r) = rma_send sent (SCIF_ALLOC_REQ (nr_pages w) (waddr w)) r
      in (e, w, r))"

definition back_window :: "u64 \<Rightarrow> scif_pinned_pages \<Rightarrow> reg_range \<Rightarrow> reg_range" where
  "back_window h pp w = w\<lparr>pinned_pages := h, nr_contig_chunks := of_nat (pp_nr_contig_chunks pp), prot := pp_prot pp\<rparr>"

text \<open>\<open>__scif_register\<close> up to its first wait; the new set of pinned pages is at \<open>h\<close>.\<close>

definition scif_register_start :: "reg_env \<Rightarrow> pin_env \<Rightarrow> u64 \<Rightarrow> u64 \<Rightarrow> u64 \<Rightarrow> u64 \<Rightarrow> u32 \<Rightarrow> u32 \<Rightarrow> rma_ep \<Rightarrow> (reg_outcome \<times> rma_ep) option" where
  "scif_register_start env penv h addr len off p flags r =
     (if flags AND NOT (SCIF_MAP_FIXED OR SCIF_MAP_KERNEL) \<noteq> 0 \<or> p AND NOT (SCIF_PROT_READ OR SCIF_PROT_WRITE) \<noteq> 0 \<or>
         len = 0 \<or> \<not> page_aligned addr \<or> \<not> page_aligned len \<or> \<not> reg_offset_ok flags off len then Some (Reg_Error EINVAL, r)
      else do {
        (res, r) \<leftarrow> reg_open env flags off len r;
        case res of
          Inl e \<Rightarrow> Some (Reg_Error e, r)
        | Inr w \<Rightarrow>
            let (e, w, r) = micscif_send_alloc_request (alloc_sent env) w r
            in case e of
                 Some e \<Rightarrow> Some (Reg_Abort e, r\<lparr>aborting := w # aborting r\<rparr>)
               | None \<Rightarrow> do {
                   (res, mm) \<leftarrow> scif_pin_pages penv addr len p
                      ((if flags AND SCIF_MAP_KERNEL = 0 then flags OR SCIF_MAP_ULIMIT else flags) AND (SCIF_MAP_KERNEL OR SCIF_MAP_ULIMIT)) (rm_mm r);
                   Some (case res of
                     Inl e \<Rightarrow> (Reg_Abort e, r\<lparr>aborting := w # aborting r, rm_mm := mm\<rparr>)
                   | Inr (_, pp) \<Rightarrow> (Reg_Wait, r\<lparr>registering := back_window h pp w # registering r, pin_sets := (pin_sets r)(h \<mapsto> pp), rm_mm := mm\<rparr>)) } })"

text \<open>\<open>__scif_register_pinned_pages\<close> up to its first wait; \<open>atomic_add_unless\<close> fails for a count of zero.\<close>

definition scif_register_pinned_start :: "reg_env \<Rightarrow> u64 \<Rightarrow> u64 \<Rightarrow> u32 \<Rightarrow> rma_ep \<Rightarrow> (reg_outcome \<times> rma_ep) option" where
  "scif_register_pinned_start env h off flags r =
     (if flags AND NOT SCIF_MAP_FIXED \<noteq> 0 then Some (Reg_Error EINVAL, r)
      else do {
        pp \<leftarrow> pin_sets r h;
        let len = push_bit WPAGE_SHIFT (of_int (pp_nr_pages pp))
        in if \<not> reg_offset_ok flags off len then Some (Reg_Error EINVAL, r)
           else do {
             (res, r) \<leftarrow> reg_open env flags off len r;
             case res of
               Inl e \<Rightarrow> Some (Reg_Error e, r)
             | Inr w \<Rightarrow>
                 if pp_ref_count pp = 0 then None
                 else
                   let w = back_window h pp w; r = r\<lparr>pin_sets := (pin_sets r)(h \<mapsto> pp\<lparr>pp_ref_count := pp_ref_count pp + pp_nr_pages pp\<rparr>)\<rparr>;
                       (e, w, r) = micscif_send_alloc_request (alloc_sent env) w r
                   in case e of
                        Some e \<Rightarrow> map_option (Pair (Reg_Error e)) (micscif_destroy_window (kz_free env) w r)
                      | None \<Rightarrow> Some (Reg_Wait, r\<lparr>registering := w # registering r\<rparr>) } })"

text \<open>The condition of the waits: the answer has come, or the node is gone.\<close>

definition answered :: "micscif_msg_state \<Rightarrow> rma_ep \<Rightarrow> bool" where
  "answered s r \<longleftrightarrow> s \<noteq> OP_IN_PROGRESS \<or> \<not> rm_alive r"

text \<open>The end of a registration whose pages could not be pinned or whose request could not be sent.\<close>

definition scif_register_abort :: "kzalloc_result \<Rightarrow> bool \<Rightarrow> u64 \<Rightarrow> rma_ep \<Rightarrow> rma_ep option" where
  "scif_register_abort kz sent a r = do {
     w \<leftarrow> find_win a (aborting r);
     micscif_destroy_incomplete_window kz sent w (r\<lparr>aborting := del_win a (aborting r)\<rparr>) }"

definition reg_error_unmap :: "kzalloc_result \<Rightarrow> errno \<Rightarrow> reg_range \<Rightarrow> rma_ep \<Rightarrow> (reg_outcome \<times> rma_ep) option" where
  "reg_error_unmap kz e w r = map_option (Pair (Reg_Error e)) (micscif_destroy_window kz w (r\<lparr>registering := del_win (waddr w) (registering r)\<rparr>))"

text \<open>\<open>micscif_send_scif_register\<close> up to its wait, with the error path of its callers.\<close>

definition micscif_send_scif_register :: "kzalloc_result \<Rightarrow> bool \<Rightarrow> reg_range \<Rightarrow> rma_ep \<Rightarrow> (reg_outcome \<times> rma_ep) option" where
  "micscif_send_scif_register kz sent w r =
     (let v = al_vaddr (alloc_handle w)
      in if rm_state r = SCIFEP_CONNECTED then
           let (e, r) = rma_send sent (SCIF_REGISTER v (waddr w)) r
           in do {
             w \<leftarrow> micscif_set_nr_pages (w\<lparr>reg_state := OP_IN_PROGRESS\<rparr>);
             case e of
               None \<Rightarrow> Some (Reg_Wait, r\<lparr>registering := upd_win (waddr w) (\<lambda>_. w) (registering r)\<rparr>)
             | Some e \<Rightarrow> reg_error_unmap kz e w r }
         else
           let (e, r) = rma_send sent (SCIF_FREE_VIRT v (waddr w)) r
           in do {
             w \<leftarrow> micscif_set_nr_pages w;
             reg_error_unmap kz (case e of None \<Rightarrow> ENOTCONN | Some e \<Rightarrow> e) w r })"

text \<open>
  \<open>micscif_prep_remote_window\<close> after its wait and what follows it, up to the second wait. \<open>rw\<close> is the window of the other node, which the owner reaches
  at the address of the answer; it is returned when it has been written. \<open>mp\<close> are the answers to the mapping of the pages, which comes before the wait.
\<close>

definition scif_register_prep :: "kzalloc_result \<Rightarrow> bool \<Rightarrow> (u64 \<Rightarrow> u64 \<Rightarrow> errno + u64) \<Rightarrow> reg_range \<Rightarrow> u64 \<Rightarrow> rma_ep \<Rightarrow>
    ((reg_outcome \<times> rma_ep) \<times> reg_range option) option" where
  "scif_register_prep kz sent mp rw a r = do {
     w \<leftarrow> find_win a (registering r);
     pp \<leftarrow> pin_sets r (pinned_pages w);
     (map_err, w) \<leftarrow> micscif_map_window_pages mp pp False w;
     let fail = (\<lambda>e r. do { w \<leftarrow> micscif_set_nr_pages w; res \<leftarrow> reg_error_unmap kz e w r; Some (res, None) })
     in case al_state (alloc_handle w) of
          OP_FAILED \<Rightarrow> fail ENOMEM r
        | OP_COMPLETED \<Rightarrow>
            (case map_err of
               Some me \<Rightarrow> let (e, r) = rma_send sent (SCIF_FREE_VIRT (al_vaddr (alloc_handle w)) (waddr w)) r in fail (if e = None then ENOTCONN else me) r
             | None \<Rightarrow> do {
                 (w, rw) \<leftarrow> prep_transfer w rw;
                 res \<leftarrow> micscif_send_scif_register kz sent w r;
                 Some (res, Some rw) })
        | _ \<Rightarrow> fail ENODEV r }"

text \<open>The end of a registration, after the answer of the other node.\<close>

definition scif_register_finish :: "kzalloc_result \<Rightarrow> u64 \<Rightarrow> rma_ep \<Rightarrow> (reg_outcome \<times> rma_ep) option" where
  "scif_register_finish kz a r = do {
     w \<leftarrow> find_win a (registering r);
     case reg_state w of
       OP_COMPLETED \<Rightarrow> Some (Registered (offset w), r\<lparr>registering := del_win a (registering r),
           reg_list := micscif_insert_window (w\<lparr>wref_count := ucast (nr_pages w)\<rparr>) (reg_list r)\<rparr>)
     | OP_FAILED \<Rightarrow> reg_error_unmap kz ENOTCONN w r
     | _ \<Rightarrow> reg_error_unmap kz ENODEV w r }"

section \<open>Unregistration\<close>

text \<open>The window is destroyed when nobody refers to it any more.\<close>

definition drop_window :: "kzalloc_result \<Rightarrow> reg_range \<Rightarrow> rma_ep \<Rightarrow> rma_ep option" where
  "drop_window kz w r = do {
     r \<leftarrow> micscif_free_window_offset kz (offset w) (win_len w)
       (r\<lparr>tw_refcount := tw_refcount r + 1, tw_total_pages := tw_total_pages r + sint (nr_pages w), reg_list := del_win (waddr w) (reg_list r)\<rparr>);
     Some (micscif_queue_for_cleanup (w\<lparr>offset_freed := True\<rparr>) r) }"

definition unreg_tail :: "kzalloc_result \<Rightarrow> errno option \<Rightarrow> reg_range \<Rightarrow> rma_ep \<Rightarrow> (errno option \<times> rma_ep) option" where
  "unreg_tail kz err w r = do {
     w \<leftarrow> (if unreg_state w = OP_COMPLETED \<and> wref_count w \<noteq> 0 then put_window_ref_count w (nr_pages w) else Some w);
     r \<leftarrow> (if wref_count w = 0 then drop_window kz w r else Some (r\<lparr>reg_list := upd_win (waddr w) (\<lambda>_. w) (reg_list r)\<rparr>));
     Some (err, r) }"

text \<open>\<open>micscif_unregister_window\<close> up to its wait: \<open>Inl\<close> the window waits, \<open>Inr\<close> the call is over.\<close>

definition micscif_unregister_start :: "kzalloc_result \<Rightarrow> bool \<Rightarrow> u64 \<Rightarrow> rma_ep \<Rightarrow> (rma_ep + errno option \<times> rma_ep) option" where
  "micscif_unregister_start kz sent a r = do {
     w \<leftarrow> find_win a (reg_list r);
     case unreg_state w of
       OP_IDLE \<Rightarrow>
         let w = get_window_ref_count (w\<lparr>unreg_state := OP_IN_PROGRESS\<rparr>) 1; (e, r) = rma_send sent (SCIF_UNREGISTER (al_vaddr (alloc_handle w)) (waddr w)) r
         in (case e of
               None \<Rightarrow> Some (Inl (r\<lparr>reg_list := upd_win a (\<lambda>_. w) (reg_list r)\<rparr>))
             | Some e \<Rightarrow> do { w \<leftarrow> put_window_ref_count (w\<lparr>unreg_state := OP_COMPLETED\<rparr>) 1; map_option Inr (unreg_tail kz (Some e) w r) })
     | OP_IN_PROGRESS \<Rightarrow> Some (Inl (r\<lparr>reg_list := upd_win a (\<lambda>w. get_window_ref_count w 1) (reg_list r)\<rparr>))
     | OP_FAILED \<Rightarrow> map_option Inr (if \<not> rm_alive r then unreg_tail kz (Some ENODEV) (w\<lparr>unreg_state := OP_COMPLETED\<rparr>) r else unreg_tail kz None w r)
     | OP_COMPLETED \<Rightarrow> map_option Inr (unreg_tail kz None w r) }"

definition micscif_unregister_finish :: "kzalloc_result \<Rightarrow> u64 \<Rightarrow> rma_ep \<Rightarrow> (errno option \<times> rma_ep) option" where
  "micscif_unregister_finish kz a r = do {
     w \<leftarrow> find_win a (reg_list r);
     let (err, w) = (if unreg_state w = OP_IN_PROGRESS then (Some ENODEV, w\<lparr>unreg_state := OP_COMPLETED\<rparr>) else (None, w))
     in do { w \<leftarrow> put_window_ref_count w 1; unreg_tail kz err w r } }"

text \<open>
  The walk of \<open>micscif_rma_list_unregister\<close> over the windows from \<open>ws\<close> on, and the calls that use it. \<open>ans a\<close> is what the state of window \<open>a\<close>
  has become when its wait is over.
\<close>

definition unregister_now :: "kzalloc_result \<Rightarrow> bool \<Rightarrow> (u64 \<Rightarrow> micscif_msg_state) \<Rightarrow> u64 \<Rightarrow> rma_ep \<Rightarrow> (errno option \<times> rma_ep) option" where
  "unregister_now kz sent ans a r = do {
     x \<leftarrow> micscif_unregister_start kz sent a r;
     case x of
       Inr res \<Rightarrow> Some res
     | Inl r \<Rightarrow> micscif_unregister_finish kz a (r\<lparr>reg_list := upd_win a (\<lambda>w. w\<lparr>unreg_state := ans a\<rparr>) (reg_list r)\<rparr>) }"

fun unregister_walk :: "kzalloc_result \<Rightarrow> bool \<Rightarrow> (u64 \<Rightarrow> micscif_msg_state) \<Rightarrow> reg_range list \<Rightarrow> u64 \<Rightarrow> nat \<Rightarrow> rma_ep \<Rightarrow> (errno option \<times> rma_ep) option" where
  "unregister_walk kz sent ans [] off left r = None"
| "unregister_walk kz sent ans (w # ws) off left r =
     (if magic w \<noteq> SCIFEP_MAGIC then None
      else
        let n = loop_nr_pages w off left
        in do {
          (err, r) \<leftarrow> unregister_now kz sent ans (waddr w) r;
          if err \<noteq> None then Some (err, r)
          else if left - n = 0 then Some (None, r)
          else unregister_walk kz sent ans ws (off + push_bit WPAGE_SHIFT (of_nat n)) (left - n) r })"

definition scif_unregister :: "kzalloc_result \<Rightarrow> bool \<Rightarrow> (u64 \<Rightarrow> micscif_msg_state) \<Rightarrow> u64 \<Rightarrow> u64 \<Rightarrow> rma_ep \<Rightarrow> (errno option \<times> rma_ep) option" where
  "scif_unregister kz sent ans off len r =
     (if len = 0 \<or> \<not> page_aligned len \<or> \<not> page_aligned off \<or> sint (off + len) < sint off then Some (Some EINVAL, r)
      else case rma_verify r of
        Some e \<Rightarrow> Some (Some e, r)
      | None \<Rightarrow>
          case micscif_query_window \<lparr>req_offset = off, req_nr_bytes = len, req_prot = 0, req_type = WINDOW_FULL, req_va_for_temp = 0\<rparr> (reg_list r) of
            Inl e \<Rightarrow> Some (Some e, r)
          | Inr None \<Rightarrow> None
          | Inr (Some w) \<Rightarrow> unregister_walk kz sent ans (from_win (waddr w) (reg_list r)) off (unat (drop_bit WPAGE_SHIFT len)) r)"

section \<open>Handlers of the owner\<close>

fun scif_alloc_gnt_rej :: "rma_msg \<Rightarrow> rma_ep \<Rightarrow> rma_ep" where
  "scif_alloc_gnt_rej (SCIF_ALLOC_GNT v phys a) r =
     (let f = (\<lambda>w. w\<lparr>alloc_handle := \<lparr>al_phys_addr = phys, al_vaddr = v, al_state = OP_COMPLETED\<rparr>\<rparr>)
      in r\<lparr>registering := upd_win a f (registering r), aborting := upd_win a f (aborting r)\<rparr>)"
| "scif_alloc_gnt_rej (SCIF_ALLOC_REJ e n a) r =
     (let f = (\<lambda>w. w\<lparr>alloc_handle := \<lparr>al_phys_addr = n, al_vaddr = e, al_state = OP_FAILED\<rparr>\<rparr>)
      in r\<lparr>registering := upd_win a f (registering r), aborting := upd_win a f (aborting r)\<rparr>)"
| "scif_alloc_gnt_rej m r = r"

definition scif_recv_register_ack :: "u64 \<Rightarrow> rma_ep \<Rightarrow> rma_ep" where
  "scif_recv_register_ack a r = r\<lparr>registering := upd_win a (\<lambda>w. w\<lparr>reg_state := OP_COMPLETED\<rparr>) (registering r)\<rparr>"

definition scif_recv_register_nack :: "u64 \<Rightarrow> rma_ep \<Rightarrow> rma_ep" where
  "scif_recv_register_nack a r = r\<lparr>registering := upd_win a (\<lambda>w. w\<lparr>reg_state := OP_FAILED\<rparr>) (registering r)\<rparr>"

definition scif_recv_unregister_ack :: "u64 \<Rightarrow> rma_ep \<Rightarrow> rma_ep" where
  "scif_recv_unregister_ack a r = r\<lparr>reg_list := upd_win a (\<lambda>w. w\<lparr>unreg_state := OP_COMPLETED\<rparr>) (reg_list r)\<rparr>"

definition scif_recv_unregister_nack :: "u64 \<Rightarrow> rma_ep \<Rightarrow> rma_ep" where
  "scif_recv_unregister_nack a r = r\<lparr>reg_list := upd_win a (\<lambda>w. w\<lparr>unreg_state := OP_FAILED\<rparr>) (reg_list r)\<rparr>"

definition full_request :: "reg_range \<Rightarrow> u32 \<Rightarrow> micscif_rma_req" where
  "full_request w p = \<lparr>req_offset = offset w, req_nr_bytes = win_len w, req_prot = p, req_type = WINDOW_FULL, req_va_for_temp = 0\<rparr>"

text \<open>The window named in the message is registered, or on its way to be destroyed.\<close>

definition scif_recv_munmap :: "kzalloc_result \<Rightarrow> u64 \<Rightarrow> rma_ep \<Rightarrow> rma_ep option" where
  "scif_recv_munmap kz a r = do {
     rv \<leftarrow> find_win a (reg_list r @ mi_rma r);
     if magic rv \<noteq> SCIFEP_MAGIC then None
     else case micscif_query_window (full_request rv (prot rv)) (reg_list r) of
       Inl e \<Rightarrow> Some r
     | Inr None \<Rightarrow> None
     | Inr (Some w) \<Rightarrow> do {
         w \<leftarrow> (if wref_count w \<noteq> 0 then put_window_ref_count w (nr_pages w) else Some w);
         if wref_count w = 0 then drop_window kz w (r\<lparr>async_list_del := True\<rparr>)
         else Some (r\<lparr>reg_list := upd_win (waddr w) (\<lambda>_. w) (reg_list r)\<rparr>) } }"

text \<open>One window of the loop of \<open>micscif_rma_destroy_temp_windows\<close>; \<open>hung\<close> says that the DMA engine does not finish.\<close>

definition micscif_rma_destroy_temp_window :: "bool \<Rightarrow> kzalloc_result \<Rightarrow> rma_ep \<Rightarrow> rma_ep option" where
  "micscif_rma_destroy_temp_window hung kz r =
     (case mi_rma r of
        [] \<Rightarrow> Some r
      | w # ws \<Rightarrow>
          let r = r\<lparr>mi_rma := ws\<rparr>
          in if hung then Some (micscif_queue_for_cleanup w r)
             else if tw_total_pages r - sint (nr_pages w) < 0 then None
             else do {
               r \<leftarrow> (let r = r\<lparr>tw_total_pages := tw_total_pages r - sint (nr_pages w)\<rparr>; w = w\<lparr>unreg_state := OP_COMPLETED\<rparr>
                     in if wtype w = RMA_WINDOW_SELF then micscif_destroy_window kz w r else map_option (\<lambda>_. r) (micscif_destroy_remote_window w));
               if tw_refcount r = 0 then None else Some (r\<lparr>tw_refcount := tw_refcount r - 1\<rparr>) })"

text \<open>Pinning and unpinning by a client of the kernel interface.\<close>

definition rma_pin :: "pin_env \<Rightarrow> u64 \<Rightarrow> u64 \<Rightarrow> u64 \<Rightarrow> u32 \<Rightarrow> u32 \<Rightarrow> rma_ep \<Rightarrow> (errno option \<times> rma_ep) option" where
  "rma_pin penv h addr len p flags r = do {
     (res, mm) \<leftarrow> scif_pin_pages penv addr len p flags (rm_mm r);
     Some (case res of Inl e \<Rightarrow> (Some e, r\<lparr>rm_mm := mm\<rparr>) | Inr (_, pp) \<Rightarrow> (None, r\<lparr>rm_mm := mm, pin_sets := (pin_sets r)(h \<mapsto> pp)\<rparr>)) }"

definition rma_unpin :: "u64 \<Rightarrow> rma_ep \<Rightarrow> rma_ep option" where
  "rma_unpin h r = do {
     pp \<leftarrow> pin_sets r h;
     (pp', mm) \<leftarrow> scif_unpin_pages pp (rm_mm r);
     Some (r\<lparr>rm_mm := mm, pin_sets := (pin_sets r)(h := pp')\<rparr>) }"

section \<open>Handlers of the other node\<close>

text \<open>\<open>e\<close> is the address of the endpoint, \<open>a\<close> that of the new window.\<close>

definition scif_alloc_req :: "remote_env \<Rightarrow> bool \<Rightarrow> u64 \<Rightarrow> u64 \<Rightarrow> u64 \<Rightarrow> u64 \<Rightarrow> rma_ep \<Rightarrow> rma_ep option" where
  "scif_alloc_req env sent e a n h r =
     (let reject = snd (rma_send sent (SCIF_ALLOC_REJ e n h) r)
      in if rm_state r \<noteq> SCIFEP_CONNECTED then Some reject
         else do {
           x \<leftarrow> micscif_create_remote_window env a (ucast n);
           case x of
             None \<Rightarrow> Some reject
           | Some w \<Rightarrow>
               let (er, r) = rma_send sent (SCIF_ALLOC_GNT a (mapped_offset w) h) r
               in if er = None then Some (r\<lparr>remote_pending := w # remote_pending r\<rparr>) else map_option (\<lambda>_. r) (micscif_destroy_remote_window w) })"

definition scif_free_virt :: "u64 \<Rightarrow> rma_ep \<Rightarrow> rma_ep option" where
  "scif_free_virt a r = do {
     w \<leftarrow> find_win a (remote_pending r);
     _ \<leftarrow> micscif_destroy_remote_window w;
     Some (r\<lparr>remote_pending := del_win a (remote_pending r)\<rparr>) }"

definition scif_recv_register :: "bool \<Rightarrow> u64 \<Rightarrow> u64 \<Rightarrow> rma_ep \<Rightarrow> rma_ep option" where
  "scif_recv_register sent a h r = do {
     w \<leftarrow> find_win a (remote_pending r);
     if magic w \<noteq> SCIFEP_MAGIC then None
     else
       let r = r\<lparr>remote_pending := del_win a (remote_pending r)\<rparr>
       in if rm_state r = SCIFEP_CONNECTED then do {
            w \<leftarrow> micscif_set_nr_pages w;
            let r = snd (rma_send sent (SCIF_REGISTER_ACK a h) r)
            in Some (r\<lparr>remote_reg_list := micscif_insert_window w (remote_reg_list r)\<rparr>) }
          else map_option (\<lambda>_. snd (rma_send sent (SCIF_REGISTER_NACK a h) r)) (micscif_destroy_remote_window w) }"

text \<open>The window named in the message is in the list, or was never entered.\<close>

definition scif_recv_unregister :: "bool \<Rightarrow> u64 \<Rightarrow> u64 \<Rightarrow> rma_ep \<Rightarrow> rma_ep option" where
  "scif_recv_unregister sent a h r = do {
     rv \<leftarrow> find_win a (remote_reg_list r @ remote_pending r @ mi_rma r);
     if magic rv \<noteq> SCIFEP_MAGIC then None
     else
       let answer = (\<lambda>m r. snd (rma_send sent m r))
       in case micscif_query_window (full_request rv 0) (remote_reg_list r) of
            Inl _ \<Rightarrow> Some (answer (SCIF_UNREGISTER_ACK h) r)
          | Inr None \<Rightarrow> map_option (\<lambda>_. answer (SCIF_UNREGISTER_ACK h) r) (micscif_destroy_remote_window rv)
          | Inr (Some w) \<Rightarrow>
              if magic w \<noteq> SCIFEP_MAGIC then None
              else do {
                w \<leftarrow> (if wref_count w \<noteq> 0 then put_window_ref_count w (nr_pages w) else Some w);
                let w = w\<lparr>unreg_state := OP_COMPLETED\<rparr>
                in if wref_count w = 0 then
                     Some (micscif_queue_for_cleanup (w\<lparr>offset := INVALID_VA_GEN_ADDRESS\<rparr>)
                       (answer (SCIF_UNREGISTER_ACK h) (r\<lparr>tw_refcount := tw_refcount r + 1, tw_total_pages := tw_total_pages r + sint (nr_pages w),
                          async_list_del := True, remote_reg_list := del_win (waddr w) (remote_reg_list r)\<rparr>)))
                   else Some (answer (SCIF_UNREGISTER_NACK h) (r\<lparr>remote_reg_list := upd_win (waddr w) (\<lambda>_. w) (remote_reg_list r)\<rparr>)) } }"

end
