(* ===== verification/Rma_Register_Inv.thy ===== *)
theory Rma_Register_Inv
  imports Rma_Register
begin

text \<open>
  The windows of an endpoint in all runs of registration and unregistration: the offsets of the windows that are registered or on their way are exactly what
  the address generator has handed out, the list of registered windows is in order, and a set of pinned pages has one reference for each window that
  uses it and one for the client that pinned it. The proofs look at windows only through what none of the messages changes, their identity.
\<close>

section \<open>Offsets as a resource\<close>

text \<open>
  What registration relies on: the ranges a generator has handed out are not empty, aligned, below \<open>2\<^sup>6\<^sup>3\<close> and have no byte in common.
\<close>

locale offset_space =
  fixes holds :: "'g \<Rightarrow> (u64 \<times> u64) multiset \<Rightarrow> bool"
  assumes held_range: "holds g L \<Longrightarrow> l \<in># L \<Longrightarrow> 0 < unat (snd l) \<and> unat (fst l) mod 4096 = 0 \<and> unat (fst l) + unat (snd l) < 2 ^ 63"
    and held_apart: "holds g (add_mset l (add_mset l' L)) \<Longrightarrow> unat (fst l) + unat (snd l) \<le> unat (fst l') \<or> unat (fst l') + unat (snd l') \<le> unat (fst l)"
begin

lemma held_win_ok:
  assumes "holds g L" and "(offset w, push_bit WPAGE_SHIFT (nr_pages w)) \<in># L" and "unat (nr_pages w) < 2 ^ 31"
  shows "win_ok w"
proof -
  have "unat (push_bit WPAGE_SHIFT (nr_pages w)) = unat (nr_pages w) * 4096" using assms(3) by (intro push_page) simp
  then show ?thesis using held_range [OF assms(1,2)] by (simp add: win_ok_def whi_def)
qed

text \<open>Windows with ranges that are held do not overlap, and when they are in the order of their offsets they form a valid list.\<close>

lemma held_wins_ok:
  assumes "holds g (mset (map (\<lambda>w. (offset w, push_bit WPAGE_SHIFT (nr_pages w))) ws) + L)" and "\<forall>w \<in> set ws. unat (nr_pages w) < 2 ^ 31"
    and "sorted (map offset ws)"
  shows "wins_ok ws"
  using assms
proof (induction ws arbitrary: L)
  case (Cons w ws)
  let ?s = "\<lambda>w. (offset w, push_bit WPAGE_SHIFT (nr_pages w))"
  have IH: "wins_ok ws" using Cons.IH [of "add_mset (?s w) L"] Cons.prems by simp
  have len: "unat (push_bit WPAGE_SHIFT (nr_pages x)) = unat (nr_pages x) * 4096" if "x \<in> set (w # ws)" for x
    using Cons.prems(2) that by (intro push_page) auto
  have "win_ok w" using held_win_ok [OF Cons.prems(1)] Cons.prems(2) by simp
  moreover have "whi w \<le> wlo v" if v: "v \<in> set ws" for v
  proof -
    obtain us vs where ws: "ws = us @ v # vs" using v by (auto dest: split_list)
    then have "holds g (add_mset (?s w) (add_mset (?s v) (mset (map ?s (us @ vs)) + L)))" using Cons.prems(1) by (simp add: ac_simps)
    from held_apart [OF this] have "whi w \<le> wlo v \<or> whi v \<le> wlo w" using len v by (simp add: whi_def wlo_def)
    moreover have "wlo w \<le> wlo v" using Cons.prems(3) v by (auto simp: wlo_def word_le_nat_alt)
    moreover have "wlo v < whi v" using IH v win_ok_end(2) by (auto simp: wins_ok_def)
    ultimately show ?thesis by linarith
  qed
  ultimately show ?case using IH by simp
qed simp

end

definition va_holds :: "va_gen_addr \<Rightarrow> (u64 \<times> u64) multiset \<Rightarrow> bool" where
  "va_holds va L \<longleftrightarrow> (\<exists>live. va_reach VA_GEN_MIN VA_GEN_RANGE va live \<and> mset live = L)"

lemma va_holds_range:
  assumes r: "va_reach VA_GEN_MIN VA_GEN_RANGE va live" and l: "l \<in> set live"
  shows "unat VA_GEN_MIN \<le> unat (fst l) \<and> 0 < unat (snd l) \<and> unat (fst l) mod 4096 = 0 \<and> unat (fst l) + unat (snd l) < 2 ^ 63"
proof -
  have a: "VA_GEN_MIN \<le> fst l" "4096 dvd unat (fst l) - unat VA_GEN_MIN" "unat (fst l) + unat (snd l) \<le> unat VA_GEN_MIN + unat VA_GEN_RANGE"
    using va_live_ranges [OF r va_gen_conf] l by blast+
  then have b: "unat VA_GEN_MIN \<le> unat (fst l)" by (simp add: word_le_nat_alt)
  have "4096 dvd unat VA_GEN_MIN" by simp
  then have "4096 dvd (unat (fst l) - unat VA_GEN_MIN) + unat VA_GEN_MIN" using a(2) by (rule dvd_add [rotated])
  then have "unat (fst l) mod 4096 = 0" using b by simp
  moreover have "0 < unat (snd l)" using va_reach_inv [OF va_gen_conf r] l by (auto simp: va_inv_def live_ok_def)
  ultimately show ?thesis using a(3) b by simp
qed

lemma va_holds_apart:
  assumes r: "va_reach VA_GEN_MIN VA_GEN_RANGE va live" and l: "l \<in> set live" and l': "l' \<in> set (remove1 l live)"
  shows "unat (fst l) + unat (snd l) \<le> unat (fst l') \<or> unat (fst l') + unat (snd l') \<le> unat (fst l)"
proof -
  let ?b = "unat VA_GEN_MIN"
  have live: "l' \<in> set live" using l' set_remove1_subset [of l live] by blast
  obtain hs cs where "va_inv VA_GEN_MIN VA_GEN_RANGE va live hs cs" using va_reach_inv [OF va_gen_conf r] by blast
  then have dis: "disjoint_ranges (map (live_pages VA_GEN_MIN) live)" and ok: "live_ok VA_GEN_MIN l" "live_ok VA_GEN_MIN l'"
    using l live by (auto simp: va_inv_def)
  have "pset (live_pages VA_GEN_MIN l') \<subseteq> page_set (map (live_pages VA_GEN_MIN) (remove1 l live))" using l' by (auto intro!: pset_subset)
  then have d: "pset (live_pages VA_GEN_MIN l) \<inter> pset (live_pages VA_GEN_MIN l') = {}" using disjoint_ranges_remove1 [OF dis l] by blast
  define p q n m where "p = (unat (fst l) - ?b) div 4096" and "q = (unat (fst l') - ?b) div 4096"
    and "n = (unat (snd l) + 4095) div 4096" and "m = (unat (snd l') + 4095) div 4096"
  have e: "unat (fst l) = ?b + p * 4096" "unat (fst l') = ?b + q * 4096" "unat (snd l) \<le> n * 4096" "unat (snd l') \<le> m * 4096" "0 < n" "0 < m"
    using ok by (auto simp: live_ok_def p_def q_def n_def m_def word_le_nat_alt)
  have "p + n \<le> q \<or> q + m \<le> p"
  proof (rule ccontr)
    assume "\<not> (p + n \<le> q \<or> q + m \<le> p)"
    then have "max p q \<in> pset (live_pages VA_GEN_MIN l) \<inter> pset (live_pages VA_GEN_MIN l')" using e(5,6) by (auto simp: live_pages_def p_def q_def n_def m_def)
    then show False using d by blast
  qed
  then show ?thesis using e(1-4) by auto
qed

interpretation va_space: offset_space va_holds
proof
  show "0 < unat (snd l) \<and> unat (fst l) mod 4096 = 0 \<and> unat (fst l) + unat (snd l) < 2 ^ 63" if v: "va_holds g L" and i: "l \<in># L" for g L l
  proof -
    obtain live where r: "va_reach VA_GEN_MIN VA_GEN_RANGE g live" and "mset live = L" using v by (auto simp: va_holds_def)
    then have "l \<in> set live" using i by auto
    then show ?thesis using va_holds_range [OF r] by blast
  qed
  show "unat (fst l) + unat (snd l) \<le> unat (fst l') \<or> unat (fst l') + unat (snd l') \<le> unat (fst l)" if v: "va_holds g (add_mset l (add_mset l' L))" for g L l l'
  proof -
    obtain live where r: "va_reach VA_GEN_MIN VA_GEN_RANGE g live" and m: "mset live = add_mset l (add_mset l' L)" using v by (auto simp: va_holds_def)
    have "l \<in># mset live" "mset (remove1 l live) = add_mset l' L" using m by simp_all
    then have "l \<in> set live" "l' \<in> set (remove1 l live)" by (metis set_mset_mset, metis set_mset_mset union_single_eq_member)
    then show ?thesis by (rule va_holds_apart [OF r])
  qed
qed

lemma va_holds_init: "va_gen_init kz va0 VA_GEN_MIN VA_GEN_RANGE = Some (Inr va) \<Longrightarrow> va_holds va {#}"
  by (auto simp: va_holds_def intro: va_reach.start)

lemma va_holds_alloc:
  assumes "va_holds va L" and "va_gen_alloc kzs va n (of_nat PAGE_SIZE) = Some (x, va')"
  shows "va_holds va' (if x = INVALID_VA_GEN_ADDRESS then L else add_mset (x, n) L)"
  using assms va_reach.alloc [of VA_GEN_MIN VA_GEN_RANGE va _ kzs n x va'] by (fastforce simp: va_holds_def)

text \<open>Memory for the nodes of the address generator.\<close>

definition mem_ok :: "kzalloc_result \<Rightarrow> va_gen_addr \<Rightarrow> bool" where
  "mem_ok kz va \<longleftrightarrow> fst kz \<and> snd kz \<and> va_room (allocator va)"

lemma va_holds_free:
  assumes "va_holds va (add_mset (x, n) L)" and m: "mem_ok kz va"
  shows "\<exists>va'. va_gen_free kz va x n = Some va' \<and> va_holds va' L"
proof -
  obtain live where r: "va_reach VA_GEN_MIN VA_GEN_RANGE va live" and l: "mset live = add_mset (x, n) L" using assms(1) by (auto simp: va_holds_def)
  have "(x, n) \<in># mset live" using l by simp
  then have i: "(x, n) \<in> set live" by (metis set_mset_mset)
  obtain hs cs where "va_inv VA_GEN_MIN VA_GEN_RANGE va live hs cs" using va_reach_inv [OF va_gen_conf r] by blast
  moreover have "va_room (allocator va)" "fst kz \<and> snd kz" using m by (simp_all add: mem_ok_def)
  ultimately obtain va' where f: "va_gen_free kz va x n = Some va'" using va_inv_free [OF _ va_gen_conf i] by blast
  have "va_reach VA_GEN_MIN VA_GEN_RANGE va' (remove1 (x, n) live)"
    using va_reach.free [OF r i _ _ f] m by (simp add: mem_ok_def)
  then show ?thesis using f l by (auto simp: va_holds_def)
qed

section \<open>The registry\<close>

text \<open>What the calls and messages leave of a window, and the view of an endpoint through it.\<close>

record win_id =
  id_addr :: u64
  id_off :: u64
  id_n :: u64
  id_magic :: u64
  id_freed :: bool
  id_type :: rma_window_type
  id_pin :: u64
  id_arr :: bool

definition win_id :: "reg_range \<Rightarrow> win_id" where
  "win_id w = \<lparr>id_addr = waddr w, id_off = offset w, id_n = nr_pages w, id_magic = magic w, id_freed = offset_freed w, id_type = wtype w, id_pin = pinned_pages w,
     id_arr = (unat (nr_contig_chunks w) \<le> length (dma_addrs w) \<and> unat (nr_contig_chunks w) \<le> length (num_pages w))\<rparr>"

lemma win_id_sel [simp]:
  "id_addr (win_id w) = waddr w" "id_off (win_id w) = offset w" "id_n (win_id w) = nr_pages w" "id_magic (win_id w) = magic w"
  "id_freed (win_id w) = offset_freed w" "id_type (win_id w) = wtype w" "id_pin (win_id w) = pinned_pages w"
  "id_arr (win_id w) \<longleftrightarrow> unat (nr_contig_chunks w) \<le> length (dma_addrs w) \<and> unat (nr_contig_chunks w) \<le> length (num_pages w)"
  by (simp_all add: win_id_def)

record registry =
  k_va :: va_gen_addr
  k_reg :: "win_id list"
  k_going :: "win_id list"
  k_abort :: "win_id list"
  k_dead :: "win_id list"
  k_remote :: "win_id list"
  k_pins :: "u64 \<Rightarrow> scif_pinned_pages option"
  k_tw :: nat
  k_tot :: int

definition view :: "rma_ep \<Rightarrow> registry" where
  "view r = \<lparr>k_va = rm_va r, k_reg = map win_id (reg_list r), k_going = map win_id (registering r), k_abort = map win_id (aborting r),
     k_dead = map win_id (mi_rma r), k_remote = map win_id (remote_pending r @ remote_reg_list r), k_pins = pin_sets r, k_tw = tw_refcount r, k_tot = tw_total_pages r\<rparr>"

definition span :: "win_id \<Rightarrow> u64 \<times> u64" where
  "span k = (id_off k, push_bit WPAGE_SHIFT (id_n k))"

definition owned :: "registry \<Rightarrow> win_id list" where
  "owned v = k_reg v @ k_going v @ k_abort v"

definition users :: "registry \<Rightarrow> win_id list" where
  "users v = k_reg v @ k_going v @ filter (\<lambda>k. id_type k = RMA_WINDOW_SELF) (k_dead v)"

definition own_ok :: "win_id \<Rightarrow> bool" where
  "own_ok k \<longleftrightarrow> id_magic k = SCIFEP_MAGIC \<and> \<not> id_freed k \<and> id_type k = RMA_WINDOW_SELF \<and> unat (id_n k) < 2 ^ 31 \<and> id_arr k"

definition dead_ok :: "win_id \<Rightarrow> bool" where
  "dead_ok k \<longleftrightarrow> id_magic k = SCIFEP_MAGIC \<and> (id_type k = RMA_WINDOW_SELF \<longrightarrow> id_freed k \<and> id_arr k) \<and> unat (id_n k) < 2 ^ 31"

definition remote_ok :: "win_id \<Rightarrow> bool" where
  "remote_ok k \<longleftrightarrow> id_magic k = SCIFEP_MAGIC \<and> id_type k = RMA_WINDOW_PEER \<and> unat (id_n k) < 2 ^ 31"

text \<open>A set of pages with \<open>c\<close> users.\<close>

fun pins_ok :: "scif_pinned_pages option \<Rightarrow> nat \<Rightarrow> bool" where
  "pins_ok None c \<longleftrightarrow> c = 0"
| "pins_ok (Some pp) c \<longleftrightarrow> 0 < c \<and> pp_wf pp \<and> pp_ref_count pp = pp_nr_pages pp * int c"

definition addrs :: "registry \<Rightarrow> u64 list" where
  "addrs v = map id_addr (owned v @ k_dead v @ k_remote v)"

definition uses :: "registry \<Rightarrow> u64 set \<Rightarrow> u64 \<Rightarrow> nat" where
  "uses v held h = count_list (map id_pin (users v)) h + (if h \<in> held then 1 else 0)"

definition dead_sum :: "win_id list \<Rightarrow> int" where
  "dead_sum ks = (\<Sum>k \<leftarrow> ks. int (unat (id_n k)))"

definition reg_inv :: "registry \<Rightarrow> u64 set \<Rightarrow> bool" where
  "reg_inv v held \<longleftrightarrow> va_holds (k_va v) (mset (map span (owned v))) \<and> list_all own_ok (owned v) \<and> sorted (map id_off (k_reg v)) \<and>
     distinct (addrs v) \<and> list_all dead_ok (k_dead v) \<and> list_all remote_ok (k_remote v) \<and>
     k_tw v = length (k_dead v) \<and> k_tot v = dead_sum (k_dead v) \<and> (\<forall>h. pins_ok (k_pins v h) (uses v held h))"

lemma reg_invD:
  assumes "reg_inv v held"
  shows "va_holds (k_va v) (mset (map span (owned v)))" "list_all own_ok (owned v)" "sorted (map id_off (k_reg v))" "distinct (addrs v)"
    "list_all dead_ok (k_dead v)" "list_all remote_ok (k_remote v)" "k_tw v = length (k_dead v)" "k_tot v = dead_sum (k_dead v)"
    "pins_ok (k_pins v h) (uses v held h)"
  using assms by (simp_all add: reg_inv_def)

lemma find_win_Some: "find_win a ws = Some w \<Longrightarrow> w \<in> set ws \<and> waddr w = a"
  by (auto simp: find_win_def find_Some_iff)

lemma upd_win_view: "(\<And>w. waddr w = a \<Longrightarrow> w \<in> set ws \<Longrightarrow> win_id (f w) = win_id w) \<Longrightarrow> map win_id (upd_win a f ws) = map win_id ws"
  by (induction ws) (auto simp: upd_win_def)

text \<open>With distinct addresses, deleting by address takes out one window.\<close>

lemma del_win_split:
  assumes "w \<in> set ws" and "distinct (map waddr ws)"
  obtains us vs where "ws = us @ w # vs" and "del_win (waddr w) ws = us @ vs"
proof -
  obtain us vs where ws: "ws = us @ w # vs" using assms(1) by (auto dest: split_list)
  then have "waddr w \<notin> waddr ` set us" "waddr w \<notin> waddr ` set vs" using assms(2) by auto
  then have "del_win (waddr w) us = us" "del_win (waddr w) vs = vs" by (auto simp: del_win_def filter_id_conv image_iff)
  then show thesis using that ws by (simp add: del_win_def)
qed

lemma pins_release:
  assumes "pins_ok (Some pp) (Suc c)"
  shows "\<exists>x mm'. (let j = pp_ref_count pp - pp_nr_pages pp
      in if j < 0 then None
         else if j = 0 then map_option (Pair None) (micscif_destroy_pinned_pages pp mm)
         else Some (Some (pp\<lparr>pp_ref_count := j\<rparr>), mm)) = Some (x, mm') \<and> pins_ok x c"
proof -
  have wf: "pp_wf pp" and j: "pp_ref_count pp - pp_nr_pages pp = pp_nr_pages pp * int c" using assms by (auto simp: algebra_simps)
  have n: "0 < pp_nr_pages pp" "length (pp_pages pp) = nat (pp_nr_pages pp)" using wf by (simp_all add: pp_wf_def)
  have "pp_wf (pp\<lparr>pp_ref_count := m\<rparr>)" for m using wf by (simp add: pp_wf_def chunk_prefix_def)
  then show ?thesis using n unfolding j Let_def
    by (cases "c = 0") (auto simp: micscif_destroy_pinned_pages_def mult_less_0_iff zero_less_mult_iff)
qed

lemma destroy_window_spec:
  assumes m: "magic w = SCIFEP_MAGIC" and arr: "id_arr (win_id w)" and h: "pins_ok (pin_sets r (pinned_pages w)) (Suc c)"
    and f: "\<not> offset_freed w \<Longrightarrow> va_holds (rm_va r) (add_mset (span (win_id w)) L) \<and> mem_ok kz (rm_va r)"
  shows "\<exists>va x mm us. micscif_destroy_window kz w r = Some (r\<lparr>rm_va := va, rm_unmapped := us, pin_sets := (pin_sets r)(pinned_pages w := x), rm_mm := mm\<rparr>) \<and>
    (if offset_freed w then va = rm_va r else va_holds va L) \<and> pins_ok x c"
proof -
  obtain pp where pp: "pin_sets r (pinned_pages w) = Some pp" using h by (cases "pin_sets r (pinned_pages w)") auto
  obtain va where va: "(if offset_freed w then Some r else micscif_free_window_offset kz (offset w) (win_len w) r) = Some (r\<lparr>rm_va := va\<rparr>)"
    "if offset_freed w then va = rm_va r else va_holds va L"
  proof (cases "offset_freed w")
    case True
    then show thesis using that [of "rm_va r"] by simp
  next
    case False
    then obtain va where "va_gen_free kz (rm_va r) (offset w) (win_len w) = Some va" "va_holds va L"
      using va_holds_free f by (fastforce simp: span_def win_len_def)
    then show thesis using that [of va] False by (simp add: micscif_free_window_offset_def)
  qed
  obtain x mm where x: "(let j = pp_ref_count pp - pp_nr_pages pp
      in if j < 0 then None
         else if j = 0 then map_option (Pair None) (micscif_destroy_pinned_pages pp (rm_mm r))
         else Some (Some (pp\<lparr>pp_ref_count := j\<rparr>), rm_mm r)) = Some (x, mm)" "pins_ok x c"
    using pins_release [of pp c "rm_mm r"] h pp by auto
  obtain us where us: "unmap_chunks w = Some us" using arr by (simp add: unmap_chunks_def)
  have "micscif_destroy_window kz w r = Some (r\<lparr>rm_va := va, rm_unmapped := rm_unmapped r @ us, pin_sets := (pin_sets r)(pinned_pages w := x), rm_mm := mm\<rparr>)"
  proof -
    let ?r = "r\<lparr>rm_va := va, rm_unmapped := rm_unmapped r @ us\<rparr>" and ?j = "pp_ref_count pp - pp_nr_pages pp"
    have "micscif_destroy_window kz w r = (if ?j < 0 then None
        else if ?j = 0 then map_option (\<lambda>mm. ?r\<lparr>pin_sets := (pin_sets r)(pinned_pages w := None), rm_mm := mm\<rparr>) (micscif_destroy_pinned_pages pp (rm_mm r))
        else Some (?r\<lparr>pin_sets := (pin_sets r)(pinned_pages w \<mapsto> pp\<lparr>pp_ref_count := ?j\<rparr>)\<rparr>))"
      unfolding micscif_destroy_window_def va(1) using m pp us by (simp add: Let_def)
    moreover have "\<not> ?j < 0" using x(1) by (auto simp: Let_def split: if_splits)
    ultimately have eq: "micscif_destroy_window kz w r =
        (if ?j = 0 then map_option (\<lambda>mm. ?r\<lparr>pin_sets := (pin_sets r)(pinned_pages w := None), rm_mm := mm\<rparr>) (micscif_destroy_pinned_pages pp (rm_mm r))
         else Some (?r\<lparr>pin_sets := (pin_sets r)(pinned_pages w \<mapsto> pp\<lparr>pp_ref_count := ?j\<rparr>)\<rparr>))" by (simp only: if_False)
    show ?thesis
    proof (cases "?j = 0")
      case True
      then have "micscif_destroy_pinned_pages pp (rm_mm r) = Some mm" "x = None" using x(1) by (auto simp: Let_def)
      then show ?thesis unfolding eq using True by simp
    next
      case False
      then have "mm = rm_mm r" "x = Some (pp\<lparr>pp_ref_count := ?j\<rparr>)" using x(1) by (auto simp: Let_def split: if_splits)
      then show ?thesis unfolding eq using False by simp
    qed
  qed
  then show ?thesis using va(2) x(2) by blast
qed

section \<open>Elementary changes\<close>

lemma distinct_sub:
  assumes "mset xs \<subseteq># mset ys" and "distinct ys" shows "distinct xs"
proof -
  obtain zs where "mset zs = mset ys - mset xs" by (rule ex_mset [THEN exE])
  then have "mset (xs @ zs) = mset ys" using assms(1) by simp
  then have "distinct (xs @ zs)" using assms(2) by (metis mset_eq_imp_distinct_iff)
  then show ?thesis by simp
qed

lemma count_list_mset: "mset xs = mset ys \<Longrightarrow> count_list xs h = count_list ys h"
  by (metis count_mset)

lemma inv_abort_del:
  assumes inv: "reg_inv v held" and g: "k_abort v = us @ k # vs" and va: "va_holds va (mset (map span (owned (v\<lparr>k_abort := us @ vs\<rparr>))))"
  shows "reg_inv (v\<lparr>k_va := va, k_abort := us @ vs\<rparr>) held"
proof -
  let ?v = "v\<lparr>k_va := va, k_abort := us @ vs\<rparr>"
  note D = reg_invD [OF inv]
  have "distinct (addrs ?v)" by (rule distinct_sub [OF _ D(4)]) (simp add: addrs_def owned_def g)
  moreover have "list_all own_ok (owned ?v)" using D(2) by (simp add: owned_def g)
  moreover have "uses ?v held = uses v held" by (simp add: uses_def users_def fun_eq_iff)
  ultimately show ?thesis using va D by (simp add: reg_inv_def owned_def)
qed

lemma inv_going_del:
  assumes inv: "reg_inv v held" and g: "k_going v = us @ k # vs" and va: "va_holds va (mset (map span (owned (v\<lparr>k_going := us @ vs\<rparr>))))"
    and x: "pins_ok x (uses (v\<lparr>k_going := us @ vs\<rparr>) held (id_pin k))"
  shows "reg_inv (v\<lparr>k_va := va, k_going := us @ vs, k_pins := (k_pins v)(id_pin k := x)\<rparr>) held"
proof -
  let ?v = "v\<lparr>k_va := va, k_going := us @ vs, k_pins := (k_pins v)(id_pin k := x)\<rparr>"
  note D = reg_invD [OF inv]
  have "distinct (addrs ?v)" by (rule distinct_sub [OF _ D(4)]) (simp add: addrs_def owned_def g)
  moreover have "list_all own_ok (owned ?v)" using D(2) by (simp add: owned_def g)
  moreover have "pins_ok (k_pins ?v h) (uses ?v held h)" for h
    using x D(9) [of h] by (cases "h = id_pin k") (simp_all add: uses_def users_def g)
  ultimately show ?thesis using va D by (simp add: reg_inv_def owned_def)
qed

lemma inv_registered:
  assumes inv: "reg_inv v held" and g: "k_going v = us @ k # vs" and R: "mset R = add_mset k (mset (k_reg v))" "sorted (map id_off R)"
  shows "reg_inv (v\<lparr>k_going := us @ vs, k_reg := R\<rparr>) held"
proof -
  let ?v = "v\<lparr>k_going := us @ vs, k_reg := R\<rparr>"
  note D = reg_invD [OF inv]
  have o: "mset (owned ?v) = mset (owned v)" using R(1) g by (simp add: owned_def)
  then have "mset (addrs ?v) = mset (addrs v)" by (simp add: addrs_def mset_map)
  then have "distinct (addrs ?v)" using D(4) by (metis mset_eq_imp_distinct_iff)
  moreover have "list_all own_ok (owned ?v)" using D(2) mset_eq_setD [OF o] by (simp add: list_all_iff)
  moreover have "mset (map span (owned ?v)) = mset (map span (owned v))" using o by (simp add: mset_map)
  moreover have pm: "mset (map id_pin (users ?v)) = mset (map id_pin (users v))" using R(1) g by (simp add: users_def mset_map)
  then have "uses ?v held = uses v held" unfolding uses_def count_list_mset [OF pm] by simp
  ultimately show ?thesis using R(2) D by (simp add: reg_inv_def)
qed

lemma inv_dropped:
  assumes inv: "reg_inv v held" and g: "k_reg v = us @ k # vs" and va: "va_holds va (mset (map span (owned (v\<lparr>k_reg := us @ vs\<rparr>))))"
  shows "reg_inv (v\<lparr>k_va := va, k_reg := us @ vs, k_dead := k_dead v @ [k\<lparr>id_freed := True\<rparr>], k_tw := k_tw v + 1, k_tot := k_tot v + int (unat (id_n k))\<rparr>) held"
proof -
  let ?v = "v\<lparr>k_va := va, k_reg := us @ vs, k_dead := k_dead v @ [k\<lparr>id_freed := True\<rparr>], k_tw := k_tw v + 1, k_tot := k_tot v + int (unat (id_n k))\<rparr>"
  note D = reg_invD [OF inv]
  have k: "own_ok k" using D(2) g by (simp add: owned_def)
  have "mset (addrs ?v) = mset (addrs v)" by (simp add: addrs_def owned_def g)
  then have "distinct (addrs ?v)" using D(4) by (metis mset_eq_imp_distinct_iff)
  moreover have "list_all own_ok (owned ?v)" using D(2) by (simp add: owned_def g)
  moreover have "list_all dead_ok (k_dead ?v)" using D(5) k by (simp add: own_ok_def dead_ok_def)
  moreover have "sorted (map id_off (us @ vs))" using D(3) by (simp add: g sorted_append)
  moreover have "uses ?v held = uses v held" using k by (simp add: uses_def users_def g fun_eq_iff own_ok_def)
  ultimately show ?thesis using va D by (simp add: reg_inv_def owned_def dead_sum_def)
qed

lemma inv_dead_del:
  assumes inv: "reg_inv v held" and g: "k_dead v = k # ks" and t: "id_type k = RMA_WINDOW_SELF" and x: "pins_ok x (uses (v\<lparr>k_dead := ks\<rparr>) held (id_pin k))"
  shows "reg_inv (v\<lparr>k_dead := ks, k_tw := length ks, k_tot := k_tot v - int (unat (id_n k)), k_pins := (k_pins v)(id_pin k := x)\<rparr>) held"
proof -
  let ?v = "v\<lparr>k_dead := ks, k_tw := length ks, k_tot := k_tot v - int (unat (id_n k)), k_pins := (k_pins v)(id_pin k := x)\<rparr>"
  note D = reg_invD [OF inv]
  have "distinct (addrs ?v)" by (rule distinct_sub [OF _ D(4)]) (simp add: addrs_def owned_def g)
  moreover have "pins_ok (k_pins ?v h) (uses ?v held h)" for h
    using x D(9) [of h] t by (cases "h = id_pin k") (simp_all add: uses_def users_def g)
  ultimately show ?thesis using D g by (simp add: reg_inv_def owned_def dead_sum_def)
qed

lemma inv_dead_del_peer:
  assumes inv: "reg_inv v held" and g: "k_dead v = k # ks" and t: "id_type k = RMA_WINDOW_PEER"
  shows "reg_inv (v\<lparr>k_dead := ks, k_tw := length ks, k_tot := k_tot v - int (unat (id_n k))\<rparr>) held"
proof -
  let ?v = "v\<lparr>k_dead := ks, k_tw := length ks, k_tot := k_tot v - int (unat (id_n k))\<rparr>"
  note D = reg_invD [OF inv]
  have "distinct (addrs ?v)" by (rule distinct_sub [OF _ D(4)]) (simp add: addrs_def owned_def g)
  moreover have "uses ?v held = uses v held" using t by (simp add: uses_def users_def g fun_eq_iff)
  ultimately show ?thesis using D g by (simp add: reg_inv_def owned_def dead_sum_def)
qed

lemma inv_dead_rotate:
  assumes inv: "reg_inv v held" and g: "k_dead v = k # ks" shows "reg_inv (v\<lparr>k_dead := ks @ [k]\<rparr>) held"
proof -
  let ?v = "v\<lparr>k_dead := ks @ [k]\<rparr>"
  note D = reg_invD [OF inv]
  have "mset (addrs ?v) = mset (addrs v)" by (simp add: addrs_def owned_def g)
  then have "distinct (addrs ?v)" using D(4) by (metis mset_eq_imp_distinct_iff)
  moreover have "uses ?v held = uses v held" by (simp add: uses_def users_def g fun_eq_iff)
  ultimately show ?thesis using D g by (simp add: reg_inv_def owned_def dead_sum_def)
qed

lemma inv_remote:
  assumes inv: "reg_inv v held" and g: "mset (map id_addr ks) \<subseteq># mset (map id_addr (k_remote v))" and ok: "list_all remote_ok ks"
  shows "reg_inv (v\<lparr>k_remote := ks\<rparr>) held"
proof -
  let ?v = "v\<lparr>k_remote := ks\<rparr>"
  note D = reg_invD [OF inv]
  have "distinct (addrs ?v)" by (rule distinct_sub [OF _ D(4)]) (use g in \<open>simp add: addrs_def owned_def\<close>)
  moreover have "uses ?v held = uses v held" by (simp add: uses_def users_def fun_eq_iff)
  ultimately show ?thesis using D ok by (simp add: reg_inv_def owned_def)
qed

lemma inv_remote_add:
  assumes inv: "reg_inv v held" and ok: "remote_ok k" and new: "id_addr k \<notin> set (addrs v)"
  shows "reg_inv (v\<lparr>k_remote := k # k_remote v\<rparr>) held"
proof -
  let ?v = "v\<lparr>k_remote := k # k_remote v\<rparr>"
  note D = reg_invD [OF inv]
  have "mset (addrs ?v) = mset (id_addr k # addrs v)" by (simp add: addrs_def owned_def)
  moreover have "distinct (id_addr k # addrs v)" using D(4) new by simp
  ultimately have "distinct (addrs ?v)" by (metis mset_eq_imp_distinct_iff)
  moreover have "uses ?v held = uses v held" by (simp add: uses_def users_def fun_eq_iff)
  ultimately show ?thesis using D ok by (simp add: reg_inv_def owned_def)
qed

lemma inv_remote_dead:
  assumes inv: "reg_inv v held" and g: "k_remote v = us @ k # vs" and k: "id_addr k' = id_addr k" "id_n k' = id_n k" "id_magic k' = id_magic k" "id_type k' = id_type k"
  shows "reg_inv (v\<lparr>k_remote := us @ vs, k_dead := k_dead v @ [k'], k_tw := k_tw v + 1, k_tot := k_tot v + int (unat (id_n k))\<rparr>) held"
proof -
  let ?v = "v\<lparr>k_remote := us @ vs, k_dead := k_dead v @ [k'], k_tw := k_tw v + 1, k_tot := k_tot v + int (unat (id_n k))\<rparr>"
  note D = reg_invD [OF inv]
  have rk: "remote_ok k" using D(6) g by simp
  have "mset (addrs ?v) = mset (addrs v)" by (simp add: addrs_def owned_def g k)
  then have "distinct (addrs ?v)" using D(4) by (metis mset_eq_imp_distinct_iff)
  moreover have "list_all dead_ok (k_dead ?v)" using D(5) rk k by (simp add: remote_ok_def dead_ok_def)
  moreover have "uses ?v held = uses v held" using rk k by (simp add: uses_def users_def fun_eq_iff remote_ok_def)
  ultimately show ?thesis using D g k by (simp add: reg_inv_def owned_def dead_sum_def)
qed

lemma inv_abort_add:
  assumes inv: "reg_inv v held" and ok: "own_ok k" and new: "id_addr k \<notin> set (addrs v)" and va: "va_holds va (add_mset (span k) (mset (map span (owned v))))"
  shows "reg_inv (v\<lparr>k_va := va, k_abort := k # k_abort v\<rparr>) held"
proof -
  let ?v = "v\<lparr>k_va := va, k_abort := k # k_abort v\<rparr>"
  note D = reg_invD [OF inv]
  have "mset (addrs ?v) = mset (id_addr k # addrs v)" by (simp add: addrs_def owned_def)
  moreover have "distinct (id_addr k # addrs v)" using D(4) new by simp
  ultimately have "distinct (addrs ?v)" by (metis mset_eq_imp_distinct_iff)
  moreover have "uses ?v held = uses v held" by (simp add: uses_def users_def fun_eq_iff)
  ultimately show ?thesis using D ok va by (simp add: reg_inv_def owned_def)
qed

lemma inv_going_add:
  assumes inv: "reg_inv v held" and ok: "own_ok k" and new: "id_addr k \<notin> set (addrs v)" and va: "va_holds va (add_mset (span k) (mset (map span (owned v))))"
    and x: "pins_ok x (Suc (uses v held (id_pin k)))"
  shows "reg_inv (v\<lparr>k_va := va, k_going := k # k_going v, k_pins := (k_pins v)(id_pin k := x)\<rparr>) held"
proof -
  let ?v = "v\<lparr>k_va := va, k_going := k # k_going v, k_pins := (k_pins v)(id_pin k := x)\<rparr>"
  note D = reg_invD [OF inv]
  have "mset (addrs ?v) = mset (id_addr k # addrs v)" by (simp add: addrs_def owned_def)
  moreover have "distinct (id_addr k # addrs v)" using D(4) new by simp
  ultimately have "distinct (addrs ?v)" by (metis mset_eq_imp_distinct_iff)
  moreover have "pins_ok (k_pins ?v h) (uses ?v held h)" for h
    using x D(9) [of h] by (cases "h = id_pin k") (simp_all add: uses_def users_def)
  ultimately show ?thesis using D ok va by (simp add: reg_inv_def owned_def)
qed

lemma inv_pin:
  assumes inv: "reg_inv v held" and h: "h \<notin> held" "k_pins v h = None" and pp: "pins_ok (Some pp) 1"
  shows "reg_inv (v\<lparr>k_pins := (k_pins v)(h \<mapsto> pp)\<rparr>) (insert h held)"
proof -
  let ?v = "v\<lparr>k_pins := (k_pins v)(h \<mapsto> pp)\<rparr>"
  note D = reg_invD [OF inv]
  have "uses v held h = 0" using D(9) [of h] h(2) by simp
  then have "pins_ok (k_pins ?v i) (uses ?v (insert h held) i)" for i
    using pp D(9) [of i] h(1) by (cases "i = h") (simp_all add: uses_def users_def)
  then show ?thesis using D by (simp add: reg_inv_def owned_def addrs_def)
qed

lemma inv_unpin:
  assumes inv: "reg_inv v held" and h: "h \<in> held" and x: "pins_ok x (uses v (held - {h}) h)"
  shows "reg_inv (v\<lparr>k_pins := (k_pins v)(h := x)\<rparr>) (held - {h})"
proof -
  let ?v = "v\<lparr>k_pins := (k_pins v)(h := x)\<rparr>"
  note D = reg_invD [OF inv]
  have "pins_ok (k_pins ?v i) (uses ?v (held - {h}) i)" for i
    using x D(9) [of i] by (cases "i = h") (simp_all add: uses_def users_def)
  then show ?thesis using D by (simp add: reg_inv_def owned_def addrs_def)
qed

end
