(* ===== verification/Rma_Register_Ops.thy ===== *)
theory Rma_Register_Ops
  imports Rma_Register_Inv
begin

text \<open>
  Every call, wait and message of the registration of windows keeps the invariant of \<open>Rma_Register_Inv\<close>; \<open>rma_reach\<close> puts them together as the runs of an endpoint.
\<close>

section \<open>Operations\<close>

lemma view_simps [simp]:
  "view (r\<lparr>rm_va := va\<rparr>) = view r\<lparr>k_va := va\<rparr>" "view (r\<lparr>aborting := ws\<rparr>) = view r\<lparr>k_abort := map win_id ws\<rparr>"
  "view (r\<lparr>registering := ws\<rparr>) = view r\<lparr>k_going := map win_id ws\<rparr>" "view (r\<lparr>reg_list := ws\<rparr>) = view r\<lparr>k_reg := map win_id ws\<rparr>"
  "view (r\<lparr>mi_rma := ws\<rparr>) = view r\<lparr>k_dead := map win_id ws\<rparr>" "view (r\<lparr>pin_sets := ps\<rparr>) = view r\<lparr>k_pins := ps\<rparr>"
  "view (r\<lparr>tw_refcount := n\<rparr>) = view r\<lparr>k_tw := n\<rparr>" "view (r\<lparr>tw_total_pages := i\<rparr>) = view r\<lparr>k_tot := i\<rparr>"
  "view (r\<lparr>rm_mm := mm\<rparr>) = view r" "view (r\<lparr>rm_sent := ms\<rparr>) = view r" "view (r\<lparr>rm_state := st\<rparr>) = view r" "view (r\<lparr>rm_alive := b\<rparr>) = view r"
  "view (r\<lparr>async_list_del := b\<rparr>) = view r" "view (r\<lparr>rm_unmapped := us\<rparr>) = view r"
  "view (r\<lparr>remote_pending := ws\<rparr>) = view r\<lparr>k_remote := map win_id (ws @ remote_reg_list r)\<rparr>"
  "view (r\<lparr>remote_reg_list := ws\<rparr>) = view r\<lparr>k_remote := map win_id (remote_pending r @ ws)\<rparr>"
  by (simp_all add: view_def)

lemma view_sel [simp]:
  "k_va (view r) = rm_va r" "k_reg (view r) = map win_id (reg_list r)" "k_going (view r) = map win_id (registering r)" "k_abort (view r) = map win_id (aborting r)"
  "k_dead (view r) = map win_id (mi_rma r)" "k_remote (view r) = map win_id (remote_pending r @ remote_reg_list r)" "k_pins (view r) = pin_sets r"
  "k_tw (view r) = tw_refcount r" "k_tot (view r) = tw_total_pages r"
  by (simp_all add: view_def)

lemma rma_send_cases:
  obtains ms where "rma_send sent m r = (if sent then None else Some ENODEV, r\<lparr>rm_sent := ms\<rparr>)"
proof (cases sent)
  case True
  show ?thesis by (rule that [of "rm_sent r @ [m]"]) (simp add: rma_send_def True)
next
  case False
  show ?thesis by (rule that [of "rm_sent r"]) (simp add: rma_send_def False)
qed

lemma inv_va:
  "reg_inv v held \<Longrightarrow> va_holds va (mset (map span (owned v))) \<Longrightarrow> reg_inv (v\<lparr>k_va := va\<rparr>) held"
  by (simp add: reg_inv_def owned_def addrs_def uses_def users_def)

lemma len_pages:
  assumes "page_aligned len" and "0 < len" and "len < 0x80000000000"
  shows "push_bit WPAGE_SHIFT (drop_bit WPAGE_SHIFT len) = len" and "0 < unat (drop_bit WPAGE_SHIFT len)" and "unat (drop_bit WPAGE_SHIFT len) < 2 ^ 31"
proof -
  have d: "unat (drop_bit WPAGE_SHIFT len) = unat len div 4096" by (simp add: drop_bit_eq_div unat_div)
  have l: "unat len < 2 ^ 31 * 4096" "0 < unat len" "4096 dvd unat len" using assms by (simp_all add: word_less_nat_alt unat_gt_0 page_aligned_iff)
  show lt: "unat (drop_bit WPAGE_SHIFT len) < 2 ^ 31" unfolding d using l(1) by (simp add: div_less_iff_less_mult)
  show "0 < unat (drop_bit WPAGE_SHIFT len)" unfolding d using l(2,3) by (auto simp: dvd_def)
  have "unat (push_bit WPAGE_SHIFT (drop_bit WPAGE_SHIFT len)) = unat len div 4096 * 4096" unfolding d [symmetric] using lt by (intro push_page) simp
  then show "push_bit WPAGE_SHIFT (drop_bit WPAGE_SHIFT len) = len" using l(3) by (simp add: word_unat_eq_iff)
qed

text \<open>The window of a new registration and its range.\<close>

lemma reg_open_spec:
  assumes inv: "reg_inv (view r) held" and fl: "flags AND SCIF_MAP_FIXED = 0" and len: "page_aligned len" "0 < len" "len < 0x80000000000"
    and mem: "\<And>x va. va_gen_alloc (kz_get env) (rm_va r) len (of_nat PAGE_SIZE) = Some (x, va) \<Longrightarrow> mem_ok (kz_free env) va"
    and res: "reg_open env flags off len r = Some (res, r')"
  shows "\<exists>va. r' = r\<lparr>rm_va := va\<rparr> \<and>
    (case res of Inl e \<Rightarrow> va_holds va (mset (map span (owned (view r))))
     | Inr w \<Rightarrow> va_holds va (add_mset (span (win_id w)) (mset (map span (owned (view r))))) \<and> own_ok (win_id w) \<and> waddr w = win_addr env \<and>
         nr_pages w = drop_bit WPAGE_SHIFT len \<and> length (dma_addrs w) = unat (nr_pages w) \<and> length (num_pages w) = unat (nr_pages w) \<and>
         alloc_handle w = no_alloc \<and> wtemp w = False)"
proof (cases "rma_verify r")
  case (Some e)
  then show ?thesis using res reg_invD(1) [OF inv] by (intro exI [of _ "rm_va r"]) (auto simp: reg_open_def)
next
  case None
  let ?L = "mset (map span (owned (view r)))"
  obtain x va where al: "va_gen_alloc (kz_get env) (rm_va r) len (of_nat PAGE_SIZE) = Some (x, va)"
    using res None fl by (auto simp: reg_open_def micscif_get_window_offset_def split: bind_splits)
  note h = va_holds_alloc [OF reg_invD(1) [OF inv, simplified view_sel] al]
  show ?thesis
  proof (cases "x = INVALID_VA_GEN_ADDRESS")
    case True
    then show ?thesis using res None fl al h by (intro exI [of _ va]) (auto simp: reg_open_def micscif_get_window_offset_def)
  next
    case False
    then have h: "va_holds va (add_mset (x, len) ?L)" using h by simp
    show ?thesis
    proof (cases "micscif_create_window (win_zalloc env) (win_addr env) (drop_bit WPAGE_SHIFT len) x False")
      case c: None
      obtain va' where "va_gen_free (kz_free env) va x len = Some va'" "va_holds va' ?L" using va_holds_free [OF h mem [OF al]] by blast
      then show ?thesis using res None fl al False c
        by (intro exI [of _ va']) (auto simp: reg_open_def micscif_get_window_offset_def micscif_free_window_offset_def)
    next
      case (Some w)
      then have w: "w = (zero_window (win_addr env) (unat (drop_bit WPAGE_SHIFT len)))\<lparr>offset := x, wtemp := False\<rparr>"
        by (auto simp: micscif_create_window_def split: if_splits)
      have "r' = r\<lparr>rm_va := va\<rparr>" "res = Inr (w\<lparr>nr_pages := drop_bit WPAGE_SHIFT len\<rparr>)"
        using res None fl al False Some by (auto simp: reg_open_def micscif_get_window_offset_def)
      then show ?thesis using h len_pages [OF len] by (intro exI [of _ va]) (simp add: w span_def own_ok_def zero_window_def)
    qed
  qed
qed

text \<open>A window has room for the chunks of its pages.\<close>

lemma back_window_id:
  assumes "pp_wf pp" and "nat (pp_nr_pages pp) = unat (nr_pages w)" and "length (dma_addrs w) = unat (nr_pages w)" and "length (num_pages w) = unat (nr_pages w)" and "id_arr (win_id w)"
  shows "win_id (back_window h pp w) = (win_id w)\<lparr>id_pin := h\<rparr>"
proof -
  obtain cs where cs: "chunk_prefix pp cs" "sum_list cs = nat (pp_nr_pages pp)" "pp_nr_pages pp < 2 ^ 31" using assms(1) by (auto simp: pp_wf_def)
  then have c: "pp_nr_contig_chunks pp \<le> nat (pp_nr_pages pp)" using length_le_sum [of cs] by (auto simp: chunk_prefix_def)
  then have "unat (of_nat (pp_nr_contig_chunks pp) :: u64) = pp_nr_contig_chunks pp" using cs(3) by (intro unat_of_nat64) simp
  then show ?thesis using c assms(2-5) by (simp add: back_window_def win_id_def)
qed

definition reg_mem :: "reg_env \<Rightarrow> u64 \<Rightarrow> rma_ep \<Rightarrow> bool" where
  "reg_mem env len r \<longleftrightarrow> (\<forall>x va. va_gen_alloc (kz_get env) (rm_va r) len (of_nat PAGE_SIZE) = Some (x, va) \<longrightarrow> mem_ok (kz_free env) va)"

lemma register_start_inv:
  assumes inv: "reg_inv (view r) held" and fl: "flags AND SCIF_MAP_FIXED = 0" and len: "len < 0x80000000000" and g: "gup_ok penv (int (unat len div 4096))"
    and new: "win_addr env \<notin> set (addrs (view r))" and h: "pin_sets r h = None" and mem: "reg_mem env len r"
    and res: "scif_register_start env penv h addr len off p flags r = Some (out, r')"
  shows "reg_inv (view r') held"
proof (cases "r' = r")
  case False
  have al: "page_aligned len" "0 < len" using res False by (auto simp: scif_register_start_def word_gt_0 split: if_splits)
  obtain ro r1 where ro: "reg_open env flags off len r = Some (ro, r1)" using res False by (auto simp: scif_register_start_def split: if_splits bind_splits)
  from reg_open_spec [OF inv fl al len _ ro] mem obtain va where r1: "r1 = r\<lparr>rm_va := va\<rparr>"
    and va: "case ro of Inl e \<Rightarrow> va_holds va (mset (map span (owned (view r))))
     | Inr w \<Rightarrow> va_holds va (add_mset (span (win_id w)) (mset (map span (owned (view r))))) \<and> own_ok (win_id w) \<and> waddr w = win_addr env \<and>
         nr_pages w = drop_bit WPAGE_SHIFT len \<and> length (dma_addrs w) = unat (nr_pages w) \<and> length (num_pages w) = unat (nr_pages w) \<and>
         alloc_handle w = no_alloc \<and> wtemp w = False" unfolding reg_mem_def by blast
  show ?thesis
  proof (cases ro)
    case (Inl e)
    then have "r' = r1" using res False ro by (auto simp: scif_register_start_def split: if_splits)
    then show ?thesis using Inl va inv_va [OF inv] by (simp add: r1)
  next
    case (Inr w)
    define w1 where "w1 = w\<lparr>alloc_handle := (alloc_handle w)\<lparr>al_state := OP_IN_PROGRESS\<rparr>\<rparr>"
    have w1: "win_id w1 = win_id w" by (simp add: w1_def win_id_def)
    have va': "va_holds va (add_mset (span (win_id w)) (mset (map span (owned (view r)))))" "own_ok (win_id w)" "id_addr (win_id w) \<notin> set (addrs (view r))"
      using va Inr new by simp_all
    obtain ms where sn: "rma_send (alloc_sent env) (SCIF_ALLOC_REQ (nr_pages w1) (waddr w1)) r1 = (if alloc_sent env then None else Some ENODEV, r1\<lparr>rm_sent := ms\<rparr>)"
      by (rule rma_send_cases)
    have abort: "reg_inv (view (r1\<lparr>rm_sent := ms, aborting := w1 # aborting r, rm_mm := mm\<rparr>)) held" for mm
      using inv_abort_add [OF inv va'(2,3,1)] by (simp add: r1 w1)
    show ?thesis
    proof (cases "alloc_sent env")
      case no: False
      then have "r' = r1\<lparr>rm_sent := ms, aborting := w1 # aborting r\<rparr>"
        using res False ro Inr sn by (auto simp: scif_register_start_def micscif_send_alloc_request_def w1_def [symmetric] r1 Let_def split: if_splits)
      then show ?thesis using abort [of "rm_mm r1"] by simp
    next
      case True
      let ?fl = "(if flags AND SCIF_MAP_KERNEL = 0 then flags OR SCIF_MAP_ULIMIT else flags) AND (SCIF_MAP_KERNEL OR SCIF_MAP_ULIMIT)"
      from pin_pages_wf_aux [OF al(2) len g, of addr p ?fl "rm_mm r"] obtain pr mm where
        pr: "scif_pin_pages penv addr len p ?fl (rm_mm r) = Some (pr, mm)" "\<And>p' pp. pr = Inr (p', pp) \<Longrightarrow> pp_wf pp \<and> pp_ref_count pp = pp_nr_pages pp \<and> pp_nr_pages pp = int (unat len div 4096)" by blast
      have eq: "r' = (case pr of Inl e \<Rightarrow> r1\<lparr>rm_sent := ms, aborting := w1 # aborting r, rm_mm := mm\<rparr>
          | Inr (_, pp) \<Rightarrow> r1\<lparr>rm_sent := ms, registering := back_window h pp w1 # registering r, pin_sets := (pin_sets r)(h \<mapsto> pp), rm_mm := mm\<rparr>)"
        using res False ro Inr sn True pr(1)
        by (auto simp: scif_register_start_def micscif_send_alloc_request_def w1_def [symmetric] r1 Let_def split: if_splits sum.splits)
      show ?thesis
      proof (cases pr)
        case (Inl e)
        then show ?thesis using abort eq by simp
      next
        case (Inr q)
        then obtain p' pp where pp: "pr = Inr (p', pp)" by (cases q) simp
        have u: "unat (drop_bit WPAGE_SHIFT len) = unat len div 4096" by (simp add: drop_bit_eq_div unat_div)
        have "nr_pages w = drop_bit WPAGE_SHIFT len" "length (dma_addrs w) = unat (nr_pages w)" "length (num_pages w) = unat (nr_pages w)" using va \<open>ro = Inr w\<close> by (simp_all only: sum.case)
        then have id: "win_id (back_window h pp w1) = (win_id w)\<lparr>id_pin := h\<rparr>"
          using back_window_id [of pp w1 h] pr(2) [OF pp] va'(2) u w1 by (simp add: w1_def own_ok_def)
        have "uses (view r) held h = 0" using reg_invD(9) [OF inv, of h] h by simp
        then have "pins_ok (Some pp) (Suc (uses (view r) held (id_pin ((win_id w)\<lparr>id_pin := h\<rparr>))))" using pr(2) [OF pp] by simp
        from inv_going_add [OF inv _ _ _ this, of va] va' show ?thesis using eq pp by (simp add: r1 id span_def own_ok_def)
      qed
    qed
  qed
qed (simp add: inv)

text \<open>Where a window is, and that its address is found nowhere else.\<close>

lemma reg_distinct:
  assumes "reg_inv (view r) held"
  shows "distinct (map waddr (reg_list r))" "distinct (map waddr (registering r))" "distinct (map waddr (aborting r))" "distinct (map waddr (mi_rma r))"
    "distinct (map waddr (remote_pending r))" "distinct (map waddr (remote_reg_list r))"
  using reg_invD(4) [OF assms] by (simp_all add: addrs_def owned_def comp_def)

lemma reg_own:
  assumes "reg_inv (view r) held" and "w \<in> set (reg_list r) \<union> set (registering r) \<union> set (aborting r)" shows "own_ok (win_id w)"
  using reg_invD(2) [OF assms(1)] assms(2) by (auto simp: owned_def list_all_iff)

lemma sint_pages: "unat n < 2 ^ 31 \<Longrightarrow> sint n = int (unat n)" for n :: u64
proof -
  assume "unat n < 2 ^ 31"
  then have "int (unat n) < int (2 ^ 31)" by (simp only: of_nat_less_iff)
  moreover have "- (2 ^ 63) \<le> uint n" by (rule order_trans [of _ 0]) simp_all
  ultimately have "signed_take_bit 63 (uint n) = int (unat n)" by (subst signed_take_bit_int_eq_self) simp_all
  then show ?thesis by (simp add: sint_uint)
qed

lemma put_ref: "own_ok (win_id w) \<or> remote_ok (win_id w) \<Longrightarrow> put_window_ref_count w n = Some (w\<lparr>wref_count := wref_count w - ucast n\<rparr>)"
proof -
  assume "own_ok (win_id w) \<or> remote_ok (win_id w)"
  then have "unat (nr_pages w) < 2 ^ 31" by (auto simp: own_ok_def remote_ok_def)
  then have "0 \<le> sint (nr_pages w)" by (simp add: sint_pages)
  then show ?thesis by (simp add: put_window_ref_count_def)
qed

lemma win_id_upd [simp]:
  "win_id (w\<lparr>wref_count := c\<rparr>) = win_id w" "win_id (w\<lparr>unreg_state := s\<rparr>) = win_id w" "win_id (w\<lparr>reg_state := s\<rparr>) = win_id w"
  "win_id (w\<lparr>alloc_handle := h\<rparr>) = win_id w" "win_id (w\<lparr>peer_window := p\<rparr>) = win_id w" "length as = length (dma_addrs w) \<Longrightarrow> win_id (w\<lparr>dma_addrs := as\<rparr>) = win_id w"
  "length ns = length (num_pages w) \<Longrightarrow> win_id (w\<lparr>num_pages := ns\<rparr>) = win_id w"
  "win_id (w\<lparr>offset_freed := b\<rparr>) = win_id w\<lparr>id_freed := b\<rparr>" "win_id (get_window_ref_count w n) = win_id w"
  by (simp_all add: win_id_def get_window_ref_count_def)

lemma win_id_eq: "win_id w = win_id w' \<Longrightarrow> waddr w = waddr w' \<and> offset w = offset w' \<and> nr_pages w = nr_pages w' \<and> magic w = magic w' \<and> pinned_pages w = pinned_pages w'"
  by (simp add: win_id_def)

lemma upd_id: "win_id w = win_id w0 \<Longrightarrow> w0 \<in> set ws \<Longrightarrow> distinct (map waddr ws) \<Longrightarrow> map win_id (upd_win (waddr w) (\<lambda>_. w) ws) = map win_id ws"
  by (intro upd_win_view) (metis win_id_eq distinct_map inj_onD)

section \<open>Unregistration\<close>

lemma drop_window_inv:
  assumes inv: "reg_inv (view r) held" and mem: "mem_ok kz (rm_va r)" and w0: "w0 \<in> set (reg_list r)" and w: "win_id w = win_id w0"
  shows "\<exists>r'. drop_window kz w r = Some r' \<and> reg_inv (view r') held"
proof -
  obtain us vs where s: "reg_list r = us @ w0 # vs" and d: "del_win (waddr w0) (reg_list r) = us @ vs" using del_win_split [OF w0 reg_distinct(1) [OF inv]] .
  have a: "waddr w = waddr w0" "offset w = offset w0" "nr_pages w = nr_pages w0" using win_id_eq [OF w] by simp_all
  have k: "k_reg (view r) = map win_id us @ win_id w # map win_id vs" by (simp add: s w)
  define v where "v = (view r)\<lparr>k_reg := map win_id us @ map win_id vs\<rparr>"
  have "mset (map span (owned (view r))) = add_mset (span (win_id w)) (mset (map span (owned v)))" by (simp add: owned_def v_def s w)
  then obtain va where va: "va_gen_free kz (rm_va r) (offset w) (win_len w) = Some va" "va_holds va (mset (map span (owned v)))"
    using va_holds_free [OF _ mem, of "offset w" "win_len w"] reg_invD(1) [OF inv] by (auto simp: span_def win_len_def)
  have n: "sint (nr_pages w) = int (unat (nr_pages w))"
    using reg_own [OF inv, of w0] w0 w by (intro sint_pages) (simp add: own_ok_def a)
  have "reg_inv (view r\<lparr>k_va := va, k_reg := map win_id us @ map win_id vs, k_dead := k_dead (view r) @ [(win_id w)\<lparr>id_freed := True\<rparr>], k_tw := k_tw (view r) + 1,
      k_tot := k_tot (view r) + int (unat (id_n (win_id w)))\<rparr>) held"
    using va(2) by (intro inv_dropped [OF inv k]) (simp add: v_def)
  then show ?thesis using va(1) d a(1) n
    by (simp add: drop_window_def micscif_free_window_offset_def micscif_queue_for_cleanup_def view_def)
qed

lemma unreg_tail_inv:
  assumes inv: "reg_inv (view r) held" and mem: "mem_ok kz (rm_va r)" and w0: "w0 \<in> set (reg_list r)" and w: "win_id w = win_id w0"
  shows "\<exists>r'. unreg_tail kz err w r = Some (err, r') \<and> reg_inv (view r') held"
proof -
  have ok: "own_ok (win_id w)" using reg_own [OF inv, of w0] w0 w by simp
  define w' where "w' = (if unreg_state w = OP_COMPLETED \<and> wref_count w \<noteq> 0 then w\<lparr>wref_count := wref_count w - ucast (nr_pages w)\<rparr> else w)"
  have w': "win_id w' = win_id w0" "(if unreg_state w = OP_COMPLETED \<and> wref_count w \<noteq> 0 then put_window_ref_count w (nr_pages w) else Some w) = Some w'"
    using put_ref [of w] ok w by (auto simp: w'_def)
  obtain r1 where "drop_window kz w' r = Some r1" "reg_inv (view r1) held" using drop_window_inv [OF inv mem w0 w'(1)] by blast
  moreover have "reg_inv (view (r\<lparr>reg_list := upd_win (waddr w') (\<lambda>_. w') (reg_list r)\<rparr>)) held"
    using inv upd_id [OF w'(1) w0 reg_distinct(1) [OF inv]] by (simp add: view_def)
  ultimately show ?thesis unfolding unreg_tail_def w'(2) by (cases "wref_count w' = 0") auto
qed

lemma unregister_start_inv:
  assumes inv: "reg_inv (view r) held" and mem: "mem_ok kz (rm_va r)" and a: "a \<in> waddr ` set (reg_list r)"
  shows "\<exists>x. micscif_unregister_start kz sent a r = Some x \<and> (case x of Inl r' \<Rightarrow> reg_inv (view r') held | Inr (_, r') \<Rightarrow> reg_inv (view r') held)"
proof -
  obtain w where f: "find_win a (reg_list r) = Some w" using a by (cases "find_win a (reg_list r)") (auto simp: find_win_def find_None_iff)
  then have w: "w \<in> set (reg_list r)" "waddr w = a" using find_win_Some by blast+
  have keep: "reg_inv (view (r\<lparr>reg_list := upd_win a g (reg_list r)\<rparr>)) held" if "\<And>w'. win_id (g w') = win_id w'" for g
    using inv upd_win_view [of a "reg_list r" g] that by (simp add: view_def)
  have tail: "\<exists>r'. unreg_tail kz e w' r = Some (e, r') \<and> reg_inv (view r') held" if "win_id w' = win_id w" for e w'
    using unreg_tail_inv [OF inv mem w(1) that] .
  define w1 where "w1 = get_window_ref_count (w\<lparr>unreg_state := OP_IN_PROGRESS\<rparr>) 1"
  have ok: "own_ok (win_id w1)" using reg_own [OF inv, of w] w(1) by (simp add: w1_def)
  obtain ms where sn: "rma_send sent (SCIF_UNREGISTER (al_vaddr (alloc_handle w1)) (waddr w1)) r = (if sent then None else Some ENODEV, r\<lparr>rm_sent := ms\<rparr>)" by (rule rma_send_cases)
  have inv': "reg_inv (view (r\<lparr>rm_sent := ms\<rparr>)) held" using inv by simp
  have up: "map win_id (upd_win a (\<lambda>_. w1) (reg_list r)) = map win_id (reg_list r)"
    using upd_id [of w1 w "reg_list r"] w reg_distinct(1) [OF inv] by (simp add: w1_def get_window_ref_count_def)
  have put: "put_window_ref_count (w1\<lparr>unreg_state := OP_COMPLETED\<rparr>) 1 = Some (w1\<lparr>unreg_state := OP_COMPLETED, wref_count := wref_count w1 - 1\<rparr>)"
    using put_ref [of "w1\<lparr>unreg_state := OP_COMPLETED\<rparr>" 1] ok by simp
  obtain r2 where r2: "unreg_tail kz (Some ENODEV) (w1\<lparr>unreg_state := OP_COMPLETED, wref_count := wref_count w1 - 1\<rparr>) (r\<lparr>rm_sent := ms\<rparr>) = Some (Some ENODEV, r2)"
    "reg_inv (view r2) held"
    using unreg_tail_inv [OF inv' _ _, of kz w "w1\<lparr>unreg_state := OP_COMPLETED, wref_count := wref_count w1 - 1\<rparr>" "Some ENODEV"] mem w(1)
    by (auto simp: w1_def)
  show ?thesis
  proof (cases "unreg_state w")
    case OP_IDLE
    then show ?thesis unfolding micscif_unregister_start_def f using inv up put r2 sn
      by (cases sent) (simp_all add: w1_def [symmetric] Let_def view_def)
  next
    case OP_IN_PROGRESS
    then show ?thesis unfolding micscif_unregister_start_def f using keep [of "\<lambda>w. get_window_ref_count w 1"] by simp
  next
    case OP_COMPLETED
    then show ?thesis unfolding micscif_unregister_start_def f using tail [of w None] by auto
  next
    case OP_FAILED
    then show ?thesis unfolding micscif_unregister_start_def f using tail [of w None] tail [of "w\<lparr>unreg_state := OP_COMPLETED\<rparr>" "Some ENODEV"] by auto
  qed
qed

lemma unregister_finish_inv:
  assumes inv: "reg_inv (view r) held" and mem: "mem_ok kz (rm_va r)" and a: "a \<in> waddr ` set (reg_list r)"
  shows "\<exists>e r'. micscif_unregister_finish kz a r = Some (e, r') \<and> reg_inv (view r') held"
proof -
  obtain w where f: "find_win a (reg_list r) = Some w" using a by (cases "find_win a (reg_list r)") (auto simp: find_win_def find_None_iff)
  then have w: "w \<in> set (reg_list r)" using find_win_Some by blast
  define w1 where "w1 = (if unreg_state w = OP_IN_PROGRESS then w\<lparr>unreg_state := OP_COMPLETED\<rparr> else w)"
  have ok: "own_ok (win_id w1)" using reg_own [OF inv, of w] w by (simp add: w1_def)
  have tail: "\<exists>r'. unreg_tail kz e (w1\<lparr>wref_count := wref_count w1 - 1\<rparr>) r = Some (e, r') \<and> reg_inv (view r') held" for e
    by (rule unreg_tail_inv [OF inv mem w]) (simp add: w1_def)
  show ?thesis unfolding micscif_unregister_finish_def f using put_ref [of w1 1] ok tail [of None] tail [of "Some ENODEV"]
    by (cases "unreg_state w = OP_IN_PROGRESS") (auto simp: w1_def Let_def)
qed

lemma query_window_mem: "micscif_query_window req ws = Inr (Some w) \<Longrightarrow> w \<in> set ws"
proof -
  have "w \<in> set ws \<or> out = Some w" if "query_loop req ws off left out = Inr (Some w)" for off left out
    using that by (induction req ws off left out rule: query_loop.induct) (auto simp: Let_def split: if_splits)
  then show "micscif_query_window req ws = Inr (Some w) \<Longrightarrow> w \<in> set ws" by (fastforce simp: micscif_query_window_def)
qed

lemma recv_munmap_inv:
  assumes inv: "reg_inv (view r) held" and mem: "mem_ok kz (rm_va r)" and res: "scif_recv_munmap kz a r = Some r'"
  shows "reg_inv (view r') held"
proof -
  obtain rv where rv: "find_win a (reg_list r @ mi_rma r) = Some rv" using res by (auto simp: scif_recv_munmap_def split: bind_splits)
  have m: "magic rv = SCIFEP_MAGIC" using res rv by (auto simp: scif_recv_munmap_def split: if_splits)
  show ?thesis
  proof (cases "micscif_query_window (full_request rv (prot rv)) (reg_list r)")
    case (Inl e)
    then show ?thesis using res rv m inv by (simp add: scif_recv_munmap_def)
  next
    case (Inr o')
    then obtain w where q: "micscif_query_window (full_request rv (prot rv)) (reg_list r) = Inr (Some w)" using res rv m
      by (cases o') (simp_all add: scif_recv_munmap_def)
    have w: "w \<in> set (reg_list r)" by (rule query_window_mem [OF q])
    define w' where "w' = (if wref_count w \<noteq> 0 then w\<lparr>wref_count := wref_count w - ucast (nr_pages w)\<rparr> else w)"
    have w': "(if wref_count w \<noteq> 0 then put_window_ref_count w (nr_pages w) else Some w) = Some w'" "win_id w' = win_id w"
      using put_ref [of w] reg_own [OF inv, of w] w by (auto simp: w'_def)
    have r': "(if wref_count w' = 0 then drop_window kz w' (r\<lparr>async_list_del := True\<rparr>) else Some (r\<lparr>reg_list := upd_win (waddr w') (\<lambda>_. w') (reg_list r)\<rparr>)) = Some r'"
      using res rv m q w'(1) by (simp add: scif_recv_munmap_def del: if_cancel)
    have "reg_inv (view (r\<lparr>async_list_del := True\<rparr>)) held" using inv by simp
    then obtain r1 where "drop_window kz w' (r\<lparr>async_list_del := True\<rparr>) = Some r1" "reg_inv (view r1) held"
      using drop_window_inv [of "r\<lparr>async_list_del := True\<rparr>" held kz w w'] mem w w'(2) by auto
    moreover have "reg_inv (view (r\<lparr>reg_list := upd_win (waddr w') (\<lambda>_. w') (reg_list r)\<rparr>)) held"
      using inv upd_id [OF w'(2) w reg_distinct(1) [OF inv]] by (simp add: view_def)
    ultimately show ?thesis using r' by (auto split: if_splits)
  qed
qed

section \<open>Registration\<close>

lemma register_abort_inv:
  assumes inv: "reg_inv (view r) held" and mem: "mem_ok kz (rm_va r)" and a: "a \<in> waddr ` set (aborting r)"
  shows "\<exists>r'. scif_register_abort kz sent a r = Some r' \<and> reg_inv (view r') held"
proof -
  obtain w where f: "find_win a (aborting r) = Some w" using a by (cases "find_win a (aborting r)") (auto simp: find_win_def find_None_iff)
  then have w: "w \<in> set (aborting r)" "waddr w = a" using find_win_Some by blast+
  obtain us vs where s: "aborting r = us @ w # vs" and d: "del_win a (aborting r) = us @ vs" using del_win_split [OF w(1) reg_distinct(3) [OF inv]] w(2) by metis
  have k: "k_abort (view r) = map win_id us @ win_id w # map win_id vs" by (simp add: s)
  define v where "v = (view r)\<lparr>k_abort := map win_id us @ map win_id vs\<rparr>"
  have "mset (map span (owned (view r))) = add_mset (span (win_id w)) (mset (map span (owned v)))" by (simp add: owned_def v_def s)
  then obtain va where va: "va_gen_free kz (rm_va r) (offset w) (win_len w) = Some va" "va_holds va (mset (map span (owned v)))"
    using va_holds_free [OF _ mem, of "offset w" "win_len w"] reg_invD(1) [OF inv] by (auto simp: span_def win_len_def)
  have m: "magic w = SCIFEP_MAGIC" using reg_own [OF inv, of w] w(1) by (simp add: own_ok_def)
  obtain ms where sn: "rma_send sent (SCIF_FREE_VIRT (al_vaddr (alloc_handle w)) (waddr w)) (r\<lparr>aborting := us @ vs\<rparr>) =
      (if sent then None else Some ENODEV, r\<lparr>aborting := us @ vs, rm_sent := ms\<rparr>)" by (rule rma_send_cases)
  have "reg_inv (view r\<lparr>k_va := va, k_abort := map win_id us @ map win_id vs\<rparr>) held" using va(2) by (intro inv_abort_del [OF inv k]) (simp add: v_def)
  then show ?thesis using f d m va(1) sn
    by (cases "al_state (alloc_handle w) = OP_COMPLETED")
      (simp_all add: scif_register_abort_def micscif_destroy_incomplete_window_def micscif_free_window_offset_def view_def)
qed

lemma error_unmap_inv:
  assumes inv: "reg_inv (view r) held" and mem: "mem_ok kz (rm_va r)" and w0: "w0 \<in> set (registering r)" and w: "win_id w = win_id w0"
  shows "\<exists>r'. reg_error_unmap kz e w r = Some (Reg_Error e, r') \<and> reg_inv (view r') held"
proof -
  obtain us vs where s: "registering r = us @ w0 # vs" and d: "del_win (waddr w0) (registering r) = us @ vs" using del_win_split [OF w0 reg_distinct(2) [OF inv]] .
  have a: "waddr w = waddr w0" "pinned_pages w = pinned_pages w0" "magic w = magic w0" using win_id_eq [OF w] by simp_all
  have k: "k_going (view r) = map win_id us @ win_id w # map win_id vs" by (simp add: s w)
  define v where "v = (view r)\<lparr>k_going := map win_id us @ map win_id vs\<rparr>"
  have ok: "own_ok (win_id w)" using reg_own [OF inv, of w0] w0 w by simp
  then have fr: "magic w = SCIFEP_MAGIC" "\<not> offset_freed w" "id_arr (win_id w)" by (simp_all add: own_ok_def)
  have "uses (view r) held (pinned_pages w) = Suc (uses v held (pinned_pages w))" by (simp add: uses_def users_def v_def s w [symmetric])
  then have p: "pins_ok (pin_sets (r\<lparr>registering := us @ vs\<rparr>) (pinned_pages w)) (Suc (uses v held (pinned_pages w)))"
    using reg_invD(9) [OF inv, of "pinned_pages w"] by simp
  have "mset (map span (owned (view r))) = add_mset (span (win_id w)) (mset (map span (owned v)))" by (simp add: owned_def v_def s w)
  then have "va_holds (rm_va (r\<lparr>registering := us @ vs\<rparr>)) (add_mset (span (win_id w)) (mset (map span (owned v))))" using reg_invD(1) [OF inv] by simp
  then obtain va x mm ums where r': "micscif_destroy_window kz w (r\<lparr>registering := us @ vs\<rparr>) =
      Some (r\<lparr>registering := us @ vs, rm_va := va, rm_unmapped := ums, pin_sets := (pin_sets r)(pinned_pages w := x), rm_mm := mm\<rparr>)"
    "va_holds va (mset (map span (owned v)))" "pins_ok x (uses v held (pinned_pages w))"
    using destroy_window_spec [OF fr(1,3) p, of "mset (map span (owned v))" kz] mem fr(2) by auto
  have "reg_inv (view r\<lparr>k_va := va, k_going := map win_id us @ map win_id vs, k_pins := (k_pins (view r))(id_pin (win_id w) := x)\<rparr>) held"
    using r'(2,3) by (intro inv_going_del [OF inv k]) (simp_all add: v_def)
  then show ?thesis using r'(1) d a(1) by (simp add: reg_error_unmap_def view_def)
qed

lemma set_nr_pages_id: "micscif_set_nr_pages w = Some w' \<Longrightarrow> win_id w' = win_id w"
proof -
  have "set_pages m j w = Some w' \<Longrightarrow> win_id w' = win_id w" for m j w
    by (induction m j w rule: set_pages.induct) (auto simp: Let_def split: if_splits)
  then show "micscif_set_nr_pages w = Some w' \<Longrightarrow> win_id w' = win_id w" by (simp add: micscif_set_nr_pages_def)
qed

lemma map_window_pages_id: "micscif_map_window_pages mp pp temp w = Some (e, w') \<Longrightarrow> win_id w' = win_id w"
proof -
  have "map_pages mp temp pp m j i w = Some (e, w') \<Longrightarrow> win_id w' = win_id w" for m j i w
    by (induction mp temp pp m j i w rule: map_pages.induct) (auto simp: Let_def split: if_splits sum.splits)
  then show "micscif_map_window_pages mp pp temp w = Some (e, w') \<Longrightarrow> win_id w' = win_id w" by (auto simp: micscif_map_window_pages_def split: if_splits)
qed

lemma send_register_inv:
  assumes inv: "reg_inv (view r) held" and mem: "mem_ok kz (rm_va r)" and w0: "w0 \<in> set (registering r)" and w: "win_id w = win_id w0"
    and res: "micscif_send_scif_register kz sent w r = Some (out, r')"
  shows "reg_inv (view r') held"
proof -
  have unmap: "reg_inv (view r2) held" if "reg_error_unmap kz e w' (r\<lparr>rm_sent := ms\<rparr>) = Some (out', r2)" "win_id w' = win_id w0" for e w' ms r2 out'
  proof -
    have i: "reg_inv (view (r\<lparr>rm_sent := ms\<rparr>)) held" using inv by simp
    from error_unmap_inv [OF i, of kz w0 w' e] mem w0 that show ?thesis by auto
  qed
  show ?thesis
  proof (cases "rm_state r = SCIFEP_CONNECTED")
    case True
    obtain ms where sn: "rma_send sent (SCIF_REGISTER (al_vaddr (alloc_handle w)) (waddr w)) r = (if sent then None else Some ENODEV, r\<lparr>rm_sent := ms\<rparr>)" by (rule rma_send_cases)
    obtain w' where w': "micscif_set_nr_pages (w\<lparr>reg_state := OP_IN_PROGRESS\<rparr>) = Some w'"
      using res True sn by (auto simp: micscif_send_scif_register_def Let_def split: bind_splits)
    then have id: "win_id w' = win_id w0" using set_nr_pages_id [OF w'] w by simp
    show ?thesis
    proof (cases sent)
      case s: True
      have "map win_id (upd_win (waddr w') (\<lambda>_. w') (registering r)) = map win_id (registering r)" using upd_id [OF id w0 reg_distinct(2) [OF inv]] .
      then show ?thesis using res True sn w' s inv by (auto simp: micscif_send_scif_register_def Let_def view_def)
    next
      case False
      then have "reg_error_unmap kz ENODEV w' (r\<lparr>rm_sent := ms\<rparr>) = Some (out, r')" using res True sn w' by (simp add: micscif_send_scif_register_def)
      then show ?thesis using unmap id by blast
    qed
  next
    case False
    obtain ms where sn: "rma_send sent (SCIF_FREE_VIRT (al_vaddr (alloc_handle w)) (waddr w)) r = (if sent then None else Some ENODEV, r\<lparr>rm_sent := ms\<rparr>)" by (rule rma_send_cases)
    obtain w' where w': "micscif_set_nr_pages w = Some w'"
      using res False sn by (auto simp: micscif_send_scif_register_def Let_def split: bind_splits)
    then have "win_id w' = win_id w0" using set_nr_pages_id [OF w'] w by simp
    moreover obtain e where "reg_error_unmap kz e w' (r\<lparr>rm_sent := ms\<rparr>) = Some (out, r')" using res False sn w' by (simp add: micscif_send_scif_register_def)
    ultimately show ?thesis using unmap by blast
  qed
qed

lemma register_prep_inv:
  assumes inv: "reg_inv (view r) held" and mem: "mem_ok kz (rm_va r)" and res: "scif_register_prep kz sent mp rw a r = Some ((out, r'), rw')"
  shows "reg_inv (view r') held"
proof -
  obtain w0 where f: "find_win a (registering r) = Some w0" using res by (auto simp: scif_register_prep_def split: bind_splits)
  then have w0: "w0 \<in> set (registering r)" using find_win_Some by blast
  obtain pp where pp: "pin_sets r (pinned_pages w0) = Some pp" using res f by (auto simp: scif_register_prep_def split: bind_splits)
  obtain me w where mw: "micscif_map_window_pages mp pp False w0 = Some (me, w)" using res f pp by (auto simp: scif_register_prep_def split: bind_splits)
  have id: "win_id w = win_id w0" by (rule map_window_pages_id [OF mw])
  define fail where "fail = (\<lambda>e r. do { w \<leftarrow> micscif_set_nr_pages w; res \<leftarrow> reg_error_unmap kz e w r; Some (res, None :: reg_range option) })"
  have fail: "reg_inv (view r2) held" if r2: "fail e (r\<lparr>rm_sent := ms\<rparr>) = Some ((out', r2), x)" for e ms r2 out' x
  proof -
    obtain w' where w': "micscif_set_nr_pages w = Some w'" "reg_error_unmap kz e w' (r\<lparr>rm_sent := ms\<rparr>) = Some (out', r2)"
      using r2 by (auto simp: fail_def split: bind_splits)
    have i: "reg_inv (view (r\<lparr>rm_sent := ms\<rparr>)) held" using inv by simp
    from error_unmap_inv [OF i, of kz w0 w' e] mem w0 w' set_nr_pages_id [OF w'(1)] id show ?thesis by auto
  qed
  have fail0: "reg_inv (view r') held" if "fail e r = Some ((out, r'), rw')" for e using fail [of e "rm_sent r" out r' rw'] that by simp
  obtain ms where sn: "rma_send sent (SCIF_FREE_VIRT (al_vaddr (alloc_handle w)) (waddr w)) r = (if sent then None else Some ENODEV, r\<lparr>rm_sent := ms\<rparr>)" by (rule rma_send_cases)
  have cont: "reg_inv (view r') held" if pt: "prep_transfer w rw = Some (w1, rw1)" and s: "micscif_send_scif_register kz sent w1 r = Some (out, r')" for w1 rw1
  proof -
    have "win_id w1 = win_id w" using pt by (auto simp: prep_transfer_def split: if_splits bind_splits)
    then show ?thesis using send_register_inv [OF inv mem w0 _ s] id by simp
  qed
  have res': "(case al_state (alloc_handle w) of
        OP_FAILED \<Rightarrow> fail ENOMEM r
      | OP_COMPLETED \<Rightarrow>
          (case me of
             Some me \<Rightarrow> fail (if sent then ENOTCONN else me) (r\<lparr>rm_sent := ms\<rparr>)
           | None \<Rightarrow> do { (w, rw) \<leftarrow> prep_transfer w rw; res \<leftarrow> micscif_send_scif_register kz sent w r; Some (res, Some rw) })
      | _ \<Rightarrow> fail ENODEV r) = Some ((out, r'), rw')"
    using res f pp mw sn by (auto simp: scif_register_prep_def fail_def Let_def split: option.splits micscif_msg_state.splits)
  show ?thesis
  proof (cases "al_state (alloc_handle w)")
    case OP_COMPLETED
    show ?thesis
    proof (cases me)
      case None
      then show ?thesis using res' OP_COMPLETED cont by (auto split: bind_splits)
    next
      case (Some e)
      then show ?thesis using res' OP_COMPLETED fail by simp
    qed
  qed (use res' fail0 in auto)
qed

lemma register_finish_inv:
  assumes inv: "reg_inv (view r) held" and mem: "mem_ok kz (rm_va r)" and a: "a \<in> waddr ` set (registering r)"
  shows "\<exists>out r'. scif_register_finish kz a r = Some (out, r') \<and> reg_inv (view r') held"
proof -
  obtain w where f: "find_win a (registering r) = Some w" using a by (cases "find_win a (registering r)") (auto simp: find_win_def find_None_iff)
  then have w: "w \<in> set (registering r)" "waddr w = a" using find_win_Some by blast+
  obtain us vs where s: "registering r = us @ w # vs" and d: "del_win a (registering r) = us @ vs" using del_win_split [OF w(1) reg_distinct(2) [OF inv]] w(2) by metis
  have k: "k_going (view r) = map win_id us @ win_id w # map win_id vs" by (simp add: s)
  let ?R = "micscif_insert_window (w\<lparr>wref_count := ucast (nr_pages w)\<rparr>) (reg_list r)"
  have "mset (map win_id ?R) = add_mset (win_id w) (mset (k_reg (view r)))" by (simp add: micscif_insert_window_def)
  moreover have "sorted (map offset ?R)" using insert_scan_sorted [of offset "reg_list r"] reg_invD(3) [OF inv] by (simp add: micscif_insert_window_def comp_def)
  ultimately have "reg_inv (view r\<lparr>k_going := map win_id us @ map win_id vs, k_reg := map win_id ?R\<rparr>) held"
    by (intro inv_registered [OF inv k]) (simp_all add: comp_def)
  then have fin: "reg_inv (view (r\<lparr>registering := us @ vs, reg_list := ?R\<rparr>)) held" by (simp add: view_def)
  show ?thesis
  proof (cases "reg_state w")
    case OP_COMPLETED
    then show ?thesis using f d fin by (simp add: scif_register_finish_def)
  qed (use f error_unmap_inv [OF inv mem w(1) refl] in \<open>force simp: scif_register_finish_def\<close>)+
qed

lemma pinned_bytes:
  assumes "pp_wf pp" and "len = push_bit WPAGE_SHIFT (of_int (pp_nr_pages pp) :: u64)"
  shows "unat len = nat (pp_nr_pages pp) * 4096" "0 < pp_nr_pages pp" "pp_nr_pages pp < 2 ^ 31"
proof -
  show n: "0 < pp_nr_pages pp" "pp_nr_pages pp < 2 ^ 31" using assms(1) by (simp_all add: pp_wf_def)
  then have "of_int (pp_nr_pages pp) = (of_nat (nat (pp_nr_pages pp)) :: u64)" by simp
  then have u: "unat (of_int (pp_nr_pages pp) :: u64) = nat (pp_nr_pages pp)" using n unat_of_nat64 [of "nat (pp_nr_pages pp)"] by simp
  show "unat len = nat (pp_nr_pages pp) * 4096" unfolding assms(2) using n by (subst push_page) (simp_all add: u)
qed

lemma pinned_len:
  assumes "pp_wf pp" and len: "len = push_bit WPAGE_SHIFT (of_int (pp_nr_pages pp))"
  shows "page_aligned len" "0 < len" "len < 0x80000000000"
  using pinned_bytes [OF assms] by (simp_all add: page_aligned_iff word_less_nat_alt)

lemma pinned_pages_len:
  assumes "pp_wf pp" and "len = push_bit WPAGE_SHIFT (of_int (pp_nr_pages pp) :: u64)"
  shows "nat (pp_nr_pages pp) = unat (drop_bit WPAGE_SHIFT len)"
  using pinned_bytes [OF assms] by (simp add: drop_bit_eq_div unat_div)

lemma register_pinned_inv:
  assumes inv: "reg_inv (view r) held" and fl: "flags AND SCIF_MAP_FIXED = 0" and new: "win_addr env \<notin> set (addrs (view r))"
    and mem: "\<And>len. reg_mem env len r"
    and res: "scif_register_pinned_start env h off flags r = Some (out, r')"
  shows "reg_inv (view r') held"
proof (cases "r' = r")
  case False
  obtain pp where pp: "pin_sets r h = Some pp" using res False by (auto simp: scif_register_pinned_start_def split: if_splits bind_splits)
  define len where "len = (push_bit WPAGE_SHIFT (of_int (pp_nr_pages pp)) :: u64)"
  have pk: "pins_ok (Some pp) (uses (view r) held h)" using reg_invD(9) [OF inv, of h] pp by simp
  then have wf: "pp_wf pp" by simp
  obtain ro r1 where ro: "reg_open env flags off len r = Some (ro, r1)"
    using res False pp by (auto simp: scif_register_pinned_start_def len_def Let_def split: if_splits bind_splits)
  from reg_open_spec [OF inv fl pinned_len [OF wf len_def] _ ro] mem obtain va where r1: "r1 = r\<lparr>rm_va := va\<rparr>"
    and va: "case ro of Inl e \<Rightarrow> va_holds va (mset (map span (owned (view r))))
     | Inr w \<Rightarrow> va_holds va (add_mset (span (win_id w)) (mset (map span (owned (view r))))) \<and> own_ok (win_id w) \<and> waddr w = win_addr env \<and>
         nr_pages w = drop_bit WPAGE_SHIFT len \<and> length (dma_addrs w) = unat (nr_pages w) \<and> length (num_pages w) = unat (nr_pages w) \<and>
         alloc_handle w = no_alloc \<and> wtemp w = False" unfolding reg_mem_def by blast
  show ?thesis
  proof (cases ro)
    case (Inl e)
    then have "r' = r1" using res False ro pp by (auto simp: scif_register_pinned_start_def len_def Let_def split: if_splits)
    then show ?thesis using Inl va inv_va [OF inv] by (simp add: r1)
  next
    case (Inr w)
    define w1 where "w1 = (back_window h pp w)\<lparr>alloc_handle := (alloc_handle w)\<lparr>al_state := OP_IN_PROGRESS\<rparr>\<rparr>"
    define pp' where "pp' = pp\<lparr>pp_ref_count := pp_ref_count pp + pp_nr_pages pp\<rparr>"
    define r2 where "r2 = r1\<lparr>pin_sets := (pin_sets r1)(h \<mapsto> pp')\<rparr>"
    have wl: "nr_pages w = drop_bit WPAGE_SHIFT len" "length (dma_addrs w) = unat (nr_pages w)" "length (num_pages w) = unat (nr_pages w)" "own_ok (win_id w)"
      using va Inr by (simp_all only: sum.case)
    have w1: "win_id w1 = (win_id w)\<lparr>id_pin := h\<rparr>"
      using back_window_id [OF wf _ wl(2,3), of h] wl(1,4) pinned_pages_len [OF wf len_def] by (simp add: w1_def own_ok_def)
    have "pp_wf pp'" using wf by (simp add: pp_wf_def chunk_prefix_def pp'_def)
    then have pk': "pins_ok (Some pp') (Suc (uses (view r) held (id_pin (win_id w1))))" using pk by (simp add: w1 pp'_def algebra_simps)
    have "0 < uses (view r) held h" using pk by simp
    then have nz: "pp_ref_count pp \<noteq> 0" using pk wf by (simp add: pp_wf_def)
    have va': "va_holds va (add_mset (span (win_id w1)) (mset (map span (owned (view r)))))" "own_ok (win_id w1)" "id_addr (win_id w1) \<notin> set (addrs (view r))"
    proof -
      have "va_holds va (add_mset (span (win_id w)) (mset (map span (owned (view r)))))" "own_ok (win_id w)" "waddr w = win_addr env"
        using va Inr by (simp_all only: sum.case)
      then show "va_holds va (add_mset (span (win_id w1)) (mset (map span (owned (view r)))))" "own_ok (win_id w1)" "id_addr (win_id w1) \<notin> set (addrs (view r))"
        using new by (simp_all add: w1 span_def own_ok_def)
    qed
    obtain ms where sn: "rma_send (alloc_sent env) (SCIF_ALLOC_REQ (nr_pages w1) (waddr w1)) r2 = (if alloc_sent env then None else Some ENODEV, r2\<lparr>rm_sent := ms\<rparr>)"
      by (rule rma_send_cases)
    define r3 where "r3 = r2\<lparr>rm_sent := ms, registering := w1 # registering r\<rparr>"
    have inv3: "reg_inv (view r3) held" using inv_going_add [OF inv va'(2,3,1) pk'] by (simp add: r3_def r2_def r1 w1 view_def)
    have res': "(case (if alloc_sent env then None else Some ENODEV) of Some e \<Rightarrow> map_option (Pair (Reg_Error e)) (micscif_destroy_window (kz_free env) w1 (r2\<lparr>rm_sent := ms\<rparr>))
        | None \<Rightarrow> Some (Reg_Wait, r3)) = Some (out, r')"
      using res False ro Inr pp nz sn
      by (simp add: scif_register_pinned_start_def len_def [symmetric] pp'_def [symmetric] micscif_send_alloc_request_def w1_def r3_def r2_def r1 back_window_def
          split: if_splits)
    show ?thesis
    proof (cases "alloc_sent env")
      case True
      then show ?thesis using res' inv3 by simp
    next
      case s: False
      have "mem_ok (kz_free env) (rm_va r1)"
        using ro Inr mem [of len] by (auto simp: reg_open_def reg_mem_def fl micscif_get_window_offset_def split: option.splits bind_splits if_splits sum.splits)
      then have m: "mem_ok (kz_free env) (rm_va r3)" by (simp add: r3_def r2_def)
      have "w1 \<in> set (registering r3)" by (simp add: r3_def)
      then obtain r4 where r4: "reg_error_unmap (kz_free env) ENODEV w1 r3 = Some (Reg_Error ENODEV, r4)" "reg_inv (view r4) held"
        using error_unmap_inv [OF inv3 m _ refl] by blast
      have "del_win (waddr w1) (registering r) = registering r"
        using va'(3) by (auto simp: del_win_def filter_id_conv addrs_def owned_def comp_def image_iff)
      then have "r3\<lparr>registering := del_win (waddr w1) (registering r3)\<rparr> = r2\<lparr>rm_sent := ms\<rparr>" by (simp add: r3_def r2_def r1 del_win_def)
      then show ?thesis using res' s r4 by (simp add: reg_error_unmap_def)
    qed
  qed
qed (simp add: inv)

section \<open>Cleanup and pinning\<close>

lemma dead_sum_nonneg: "0 \<le> dead_sum ks"
  by (induction ks) (simp_all add: dead_sum_def)

text \<open>None of the assertions of the cleanup fires.\<close>

lemma destroy_temp_inv:
  assumes inv: "reg_inv (view r) held"
  shows "\<exists>r'. micscif_rma_destroy_temp_window hung kz r = Some r' \<and> reg_inv (view r') held"
proof (cases "mi_rma r")
  case Nil
  then show ?thesis using inv by (simp add: micscif_rma_destroy_temp_window_def)
next
  case (Cons w ws)
  note D = reg_invD [OF inv]
  have k: "k_dead (view r) = win_id w # map win_id ws" by (simp add: Cons)
  have ok: "dead_ok (win_id w)" using D(5) by (simp add: Cons)
  then have n: "sint (nr_pages w) = int (unat (nr_pages w))" by (intro sint_pages) (simp add: dead_ok_def)
  have tot: "tw_total_pages r - int (unat (nr_pages w)) = dead_sum (map win_id ws)" using D(8) by (simp add: Cons dead_sum_def)
  then have nn: "\<not> tw_total_pages r - sint (nr_pages w) < 0" using dead_sum_nonneg [of "map win_id ws"] n by simp
  have tw: "tw_refcount r = Suc (length ws)" using D(7) by (simp add: Cons)
  define r0 where "r0 = r\<lparr>mi_rma := ws, tw_total_pages := tw_total_pages r - sint (nr_pages w)\<rparr>"
  define w' where "w' = w\<lparr>unreg_state := OP_COMPLETED\<rparr>"
  have e: "micscif_rma_destroy_temp_window False kz r = (do { r1 \<leftarrow> (if wtype w = RMA_WINDOW_SELF then micscif_destroy_window kz w' r0 else map_option (\<lambda>_. r0) (micscif_destroy_remote_window w'));
      if tw_refcount r1 = 0 then None else Some (r1\<lparr>tw_refcount := tw_refcount r1 - 1\<rparr>) })"
    using nn by (simp add: micscif_rma_destroy_temp_window_def Cons Let_def r0_def w'_def)
  show ?thesis
  proof (cases hung)
    case True
    have "reg_inv (view r\<lparr>k_dead := map win_id ws @ [win_id w]\<rparr>) held" by (rule inv_dead_rotate [OF inv k])
    then show ?thesis using True Cons by (simp add: micscif_rma_destroy_temp_window_def micscif_queue_for_cleanup_def)
  next
    case False
    show ?thesis
    proof (cases "wtype w = RMA_WINDOW_SELF")
      case self: True
      define v where "v = (view r)\<lparr>k_dead := map win_id ws\<rparr>"
      have "uses (view r) held (pinned_pages w) = Suc (uses v held (pinned_pages w))" using self by (simp add: uses_def users_def v_def Cons)
      then have p: "pins_ok (pin_sets r0 (pinned_pages w')) (Suc (uses v held (pinned_pages w)))" using D(9) [of "pinned_pages w"] by (simp add: r0_def w'_def)
      have m: "magic w' = SCIFEP_MAGIC" and arr: "id_arr (win_id w')" and fr: "offset_freed w'" using ok self by (simp_all add: dead_ok_def w'_def)
      from destroy_window_spec [OF m arr p, of "{#}" kz] fr obtain x mm ums where x: "micscif_destroy_window kz w' r0 = Some (r0\<lparr>rm_unmapped := ums, pin_sets := (pin_sets r0)(pinned_pages w' := x), rm_mm := mm\<rparr>)"
        "pins_ok x (uses v held (pinned_pages w))" by auto
      have "reg_inv (view r\<lparr>k_dead := map win_id ws, k_tw := length (map win_id ws), k_tot := k_tot (view r) - int (unat (id_n (win_id w))),
          k_pins := (k_pins (view r))(id_pin (win_id w) := x)\<rparr>) held"
        using x(2) self by (intro inv_dead_del [OF inv k]) (simp_all add: v_def)
      then show ?thesis using False e self x(1) tw n by (simp add: r0_def w'_def view_def)
    next
      case peer: False
      then have t: "id_type (win_id w) = RMA_WINDOW_PEER" by (cases "wtype w") simp_all
      have "\<exists>m. micscif_destroy_remote_window w' = Some m" using ok by (simp add: micscif_destroy_remote_window_def micscif_destroy_remote_lookup_def w'_def dead_ok_def)
      moreover have "reg_inv (view r\<lparr>k_dead := map win_id ws, k_tw := length (map win_id ws), k_tot := k_tot (view r) - int (unat (id_n (win_id w)))\<rparr>) held"
        by (rule inv_dead_del_peer [OF inv k t])
      ultimately show ?thesis using False e peer tw n by (auto simp: r0_def view_def)
    qed
  qed
qed

lemma pin_inv:
  assumes inv: "reg_inv (view r) held" and h: "h \<notin> held" "pin_sets r h = None" and len: "0 < len" "len < 0x80000000000" and g: "gup_ok penv (int (unat len div 4096))"
    and res: "rma_pin penv h addr len p flags r = Some (e, r')"
  shows "reg_inv (view r') (if e = None then insert h held else held)"
proof -
  from pin_pages_wf_aux [OF len g, of addr p flags "rm_mm r"] obtain pr mm where
    pr: "scif_pin_pages penv addr len p flags (rm_mm r) = Some (pr, mm)" "\<And>p' pp. pr = Inr (p', pp) \<Longrightarrow> pp_wf pp \<and> pp_ref_count pp = pp_nr_pages pp" by blast
  show ?thesis
  proof (cases pr)
    case (Inl er)
    then show ?thesis using res pr(1) inv by (auto simp: rma_pin_def)
  next
    case (Inr q)
    then obtain p' pp where pp: "pr = Inr (p', pp)" by (cases q) simp
    have "pins_ok (Some pp) 1" using pr(2) [OF pp] by simp
    from inv_pin [OF inv h(1) _ this] h(2) show ?thesis using res pr(1) pp by (auto simp: rma_pin_def)
  qed
qed

lemma unpin_inv:
  assumes inv: "reg_inv (view r) held" and h: "h \<in> held"
  shows "\<exists>r'. rma_unpin h r = Some r' \<and> reg_inv (view r') (held - {h})"
proof -
  have p: "pins_ok (pin_sets r h) (Suc (uses (view r) (held - {h}) h))" using reg_invD(9) [OF inv, of h] h by (simp add: uses_def)
  then obtain pp where pp: "pin_sets r h = Some pp" by (cases "pin_sets r h") auto
  then have "pins_ok (Some pp) (Suc (uses (view r) (held - {h}) h))" using p by (simp only:)
  from pins_release [OF this, of "rm_mm r"] obtain x mm where x: "scif_unpin_pages pp (rm_mm r) = Some (x, mm)" "pins_ok x (uses (view r) (held - {h}) h)"
    unfolding scif_unpin_pages_def by blast
  from inv_unpin [OF inv h x(2)] show ?thesis using pp x(1) by (simp add: rma_unpin_def)
qed

section \<open>The other node\<close>

lemma remote_addr: "reg_inv (view r) held \<Longrightarrow> w \<in> set (remote_pending r) \<union> set (remote_reg_list r) \<Longrightarrow> remote_ok (win_id w)"
  using reg_invD(6) [of "view r" held] by (auto simp: list_all_iff)

lemma remote_magic: "remote_ok (win_id w) \<Longrightarrow> \<exists>n. micscif_destroy_remote_window w = Some n"
  by (simp add: micscif_destroy_remote_window_def micscif_destroy_remote_lookup_def remote_ok_def)

lemma lookup_loop_id: "lookup_loop mp n i j w = Some (e, w') \<Longrightarrow> win_id w' = win_id w"
proof (induction mp n i j w rule: lookup_loop.induct)
  case (1 mp n i j w)
  then show ?case unfolding lookup_loop.simps [of mp n i j w] by (auto simp: win_id_def split: if_splits option.splits)
qed

lemma create_remote_id:
  assumes c: "micscif_create_remote_window env a n = Some (Some w)" and n: "unat n < 2 ^ 31"
  shows "remote_ok (win_id w) \<and> waddr w = a"
proof -
  have "sint n = int (unat n)" by (rule sint_small [OF n])
  then have "scast n = (of_nat (unat n) :: u64)" unfolding scast_eq by simp
  then have sn: "unat (scast n :: u64) = unat n" using unat_of_nat64 [of "unat n"] n by simp
  define w0 where "w0 = (zero_window a (unat n))\<lparr>nr_pages := scast n\<rparr>"
  obtain w' where l: "micscif_create_remote_lookup env w0 = Some (None, w')"
    and w: "w = w'\<lparr>wtype := RMA_WINDOW_PEER, wref_count := n, get_put_ref_count := 0, unreg_state := OP_IDLE\<rparr>"
    using c by (auto simp: micscif_create_remote_window_def w0_def Let_def split: if_splits bind_splits option.splits)
  have "win_id w' = win_id w0"
    using l lookup_loop_id by (fastforce simp: micscif_create_remote_lookup_def Let_def win_id_def split: sum.splits if_splits)
  then show ?thesis using n sn by (simp add: w w0_def win_id_def zero_window_def remote_ok_def)
qed

lemma alloc_req_inv:
  assumes inv: "reg_inv (view r) held" and a: "a \<notin> set (addrs (view r))" and n: "unat n < 2 ^ 31" and res: "scif_alloc_req env sent e a n h r = Some r'"
  shows "reg_inv (view r') held"
proof -
  have n': "unat (ucast n :: u32) < 2 ^ 31" using n by (simp add: unsigned_ucast_eq take_bit_nat_eq_self)
  obtain ms where rej: "rma_send sent (SCIF_ALLOC_REJ e n h) r = (if sent then None else Some ENODEV, r\<lparr>rm_sent := ms\<rparr>)" by (rule rma_send_cases)
  show ?thesis
  proof (cases "r' = r\<lparr>rm_sent := ms\<rparr>")
    case True
    then show ?thesis using inv by simp
  next
    case False
    then obtain w where w: "micscif_create_remote_window env a (ucast n) = Some (Some w)"
      using res rej by (auto simp: scif_alloc_req_def Let_def split: if_splits bind_splits option.splits)
    have ok: "remote_ok (win_id w)" "waddr w = a" using create_remote_id [OF w n'] by blast+
    obtain ms' where gnt: "rma_send sent (SCIF_ALLOC_GNT a (mapped_offset w) h) r = (if sent then None else Some ENODEV, r\<lparr>rm_sent := ms'\<rparr>)" by (rule rma_send_cases)
    have "reg_inv (view r\<lparr>k_remote := win_id w # k_remote (view r)\<rparr>) held" using a ok by (intro inv_remote_add [OF inv]) simp_all
    then have "reg_inv (view (r\<lparr>rm_sent := ms', remote_pending := w # remote_pending r\<rparr>)) held" by (simp add: view_def)
    then show ?thesis using res False rej w gnt inv by (auto simp: scif_alloc_req_def Let_def split: if_splits)
  qed
qed

lemma free_virt_inv:
  assumes inv: "reg_inv (view r) held" and res: "scif_free_virt a r = Some r'"
  shows "reg_inv (view r') held"
proof -
  have r': "r' = r\<lparr>remote_pending := del_win a (remote_pending r)\<rparr>" using res by (auto simp: scif_free_virt_def split: bind_splits)
  have "mset (map waddr (del_win a (remote_pending r))) \<subseteq># mset (map waddr (remote_pending r))"
    by (simp add: del_win_def mset_filter image_mset_subseteq_mono)
  then have "reg_inv (view r\<lparr>k_remote := map win_id (del_win a (remote_pending r) @ remote_reg_list r)\<rparr>) held"
    using reg_invD(6) [OF inv] by (intro inv_remote [OF inv]) (auto simp: comp_def del_win_def list_all_iff)
  then show ?thesis by (simp add: r')
qed

lemma recv_register_inv:
  assumes inv: "reg_inv (view r) held" and res: "scif_recv_register sent a h r = Some r'"
  shows "reg_inv (view r') held"
proof -
  obtain w where f: "find_win a (remote_pending r) = Some w" using res by (auto simp: scif_recv_register_def split: bind_splits)
  then have w: "w \<in> set (remote_pending r)" "waddr w = a" using find_win_Some by blast+
  obtain us vs where s: "remote_pending r = us @ w # vs" and d: "del_win a (remote_pending r) = us @ vs" using del_win_split [OF w(1) reg_distinct(5) [OF inv]] w(2) by metis
  note ok = reg_invD(6) [OF inv, simplified view_sel s]
  have m: "magic w = SCIFEP_MAGIC" using ok by (simp add: remote_ok_def)
  define r1 where "r1 = r\<lparr>remote_pending := us @ vs\<rparr>"
  obtain ms where ack: "rma_send sent (SCIF_REGISTER_ACK a h) r1 = (if sent then None else Some ENODEV, r1\<lparr>rm_sent := ms\<rparr>)" by (rule rma_send_cases)
  obtain ms' where nack: "rma_send sent (SCIF_REGISTER_NACK a h) r1 = (if sent then None else Some ENODEV, r1\<lparr>rm_sent := ms'\<rparr>)" by (rule rma_send_cases)
  show ?thesis
  proof (cases "rm_state r = SCIFEP_CONNECTED")
    case True
    then obtain w' where w': "micscif_set_nr_pages w = Some w'" and r': "r' = r1\<lparr>rm_sent := ms, remote_reg_list := micscif_insert_window w' (remote_reg_list r)\<rparr>"
      using res f m ack by (auto simp: scif_recv_register_def d r1_def Let_def split: bind_splits)
    have id: "win_id w' = win_id w" by (rule set_nr_pages_id [OF w'])
    have "reg_inv (view r\<lparr>k_remote := map win_id (us @ vs) @ map win_id (micscif_insert_window w' (remote_reg_list r))\<rparr>) held"
    proof (rule inv_remote [OF inv])
      show "mset (map id_addr (map win_id (us @ vs) @ map win_id (micscif_insert_window w' (remote_reg_list r)))) \<subseteq># mset (map id_addr (k_remote (view r)))"
        using win_id_eq [OF id] by (simp add: s micscif_insert_window_def comp_def)
      show "list_all remote_ok (map win_id (us @ vs) @ map win_id (micscif_insert_window w' (remote_reg_list r)))"
        using ok by (auto simp: micscif_insert_window_def list_all_iff id)
    qed
    then show ?thesis by (simp add: r' r1_def view_def)
  next
    case False
    then have r': "r' = r1\<lparr>rm_sent := ms'\<rparr>" using res f m nack remote_magic [of w] ok by (auto simp: scif_recv_register_def d r1_def Let_def)
    have "reg_inv (view r\<lparr>k_remote := map win_id (us @ vs) @ map win_id (remote_reg_list r)\<rparr>) held"
      using ok by (intro inv_remote [OF inv]) (simp_all add: s comp_def)
    then show ?thesis by (simp add: r' r1_def view_def)
  qed
qed

lemma recv_unregister_inv:
  assumes inv: "reg_inv (view r) held" and res: "scif_recv_unregister sent a h r = Some r'"
  shows "reg_inv (view r') held"
proof -
  obtain rv where f: "find_win a (remote_reg_list r @ remote_pending r @ mi_rma r) = Some rv" using res by (auto simp: scif_recv_unregister_def split: bind_splits)
  have m: "magic rv = SCIFEP_MAGIC" using res f by (auto simp: scif_recv_unregister_def split: if_splits)
  obtain ms where ack: "rma_send sent (SCIF_UNREGISTER_ACK h) r = (if sent then None else Some ENODEV, r\<lparr>rm_sent := ms\<rparr>)" by (rule rma_send_cases)
  show ?thesis
  proof (cases "r' = r\<lparr>rm_sent := ms\<rparr>")
    case True
    then show ?thesis using inv by simp
  next
    case False
    then obtain w where q: "micscif_query_window (full_request rv 0) (remote_reg_list r) = Inr (Some w)"
      using res f m ack by (auto simp: scif_recv_unregister_def Let_def split: sum.splits option.splits)
    have w: "w \<in> set (remote_reg_list r)" by (rule query_window_mem [OF q])
    have ok: "remote_ok (win_id w)" using remote_addr [OF inv] w by blast
    obtain us vs where s: "remote_reg_list r = us @ w # vs" and d: "del_win (waddr w) (remote_reg_list r) = us @ vs" using del_win_split [OF w reg_distinct(6) [OF inv]] .
    have n: "sint (nr_pages w) = int (unat (nr_pages w))" using ok by (intro sint_pages) (simp add: remote_ok_def)
    define w1 where "w1 = (if wref_count w \<noteq> 0 then w\<lparr>wref_count := wref_count w - ucast (nr_pages w)\<rparr> else w)"
    have w1: "(if wref_count w \<noteq> 0 then put_window_ref_count w (nr_pages w) else Some w) = Some w1" "win_id w1 = win_id w" using put_ref [of w] ok by (auto simp: w1_def)
    note e1 = win_id_eq [OF w1(2)]
    have mw: "magic w = SCIFEP_MAGIC" using ok by (simp add: remote_ok_def)
    define w2 where "w2 = w1\<lparr>unreg_state := OP_COMPLETED\<rparr>"
    have e2: "win_id w2 = win_id w" using w1(2) by (simp add: w2_def)
    define r1 where "r1 = r\<lparr>tw_refcount := tw_refcount r + 1, tw_total_pages := tw_total_pages r + sint (nr_pages w2), async_list_del := True,
      remote_reg_list := del_win (waddr w2) (remote_reg_list r)\<rparr>"
    define r2 where "r2 = r\<lparr>remote_reg_list := upd_win (waddr w2) (\<lambda>_. w2) (remote_reg_list r)\<rparr>"
    have res': "(if wref_count w2 = 0 then micscif_queue_for_cleanup (w2\<lparr>offset := INVALID_VA_GEN_ADDRESS\<rparr>) (snd (rma_send sent (SCIF_UNREGISTER_ACK h) r1))
        else snd (rma_send sent (SCIF_UNREGISTER_NACK h) r2)) = r'"
      using res f m q mw w1(1) by (auto simp: scif_recv_unregister_def Let_def w2_def r1_def r2_def split: if_splits)
    obtain ms1 where s1: "snd (rma_send sent (SCIF_UNREGISTER_ACK h) r1) = r1\<lparr>rm_sent := ms1\<rparr>" using rma_send_cases [of sent "SCIF_UNREGISTER_ACK h" r1] by (metis snd_conv)
    obtain ms2 where s2: "snd (rma_send sent (SCIF_UNREGISTER_NACK h) r2) = r2\<lparr>rm_sent := ms2\<rparr>" using rma_send_cases [of sent "SCIF_UNREGISTER_NACK h" r2] by (metis snd_conv)
    have "map win_id (upd_win (waddr w2) (\<lambda>_. w2) (remote_reg_list r)) = map win_id (remote_reg_list r)" by (rule upd_id [OF e2 w reg_distinct(6) [OF inv]])
    then have A: "reg_inv (view (r2\<lparr>rm_sent := ms2\<rparr>)) held" using inv by (simp add: r2_def view_def)
    have k: "k_remote (view r) = (map win_id (remote_pending r) @ map win_id us) @ win_id w # map win_id vs" by (simp add: s)
    have "reg_inv (view r\<lparr>k_remote := (map win_id (remote_pending r) @ map win_id us) @ map win_id vs, k_dead := k_dead (view r) @ [win_id (w2\<lparr>offset := INVALID_VA_GEN_ADDRESS\<rparr>)],
        k_tw := k_tw (view r) + 1, k_tot := k_tot (view r) + int (unat (id_n (win_id w)))\<rparr>) held"
      using e2 by (intro inv_remote_dead [OF inv k]) (simp_all add: win_id_def)
    moreover have "waddr w2 = waddr w" "nr_pages w2 = nr_pages w" using win_id_eq [OF e2] by simp_all
    ultimately have B: "reg_inv (view (micscif_queue_for_cleanup (w2\<lparr>offset := INVALID_VA_GEN_ADDRESS\<rparr>) (r1\<lparr>rm_sent := ms1\<rparr>))) held"
      using d n by (simp add: micscif_queue_for_cleanup_def r1_def view_def)
    show ?thesis using res' s1 s2 A B by (auto split: if_splits)
  qed
qed

lemma answer_inv:
  assumes inv: "reg_inv (view r) held"
  shows "reg_inv (view (scif_alloc_gnt_rej m r)) held" "reg_inv (view (scif_recv_register_ack a r)) held" "reg_inv (view (scif_recv_register_nack a r)) held"
    "reg_inv (view (scif_recv_unregister_ack a r)) held" "reg_inv (view (scif_recv_unregister_nack a r)) held"
proof -
  have up: "map win_id (upd_win a f ws) = map win_id ws" if "\<And>w. win_id (f w) = win_id w" for a f ws using that by (intro upd_win_view)
  show "reg_inv (view (scif_alloc_gnt_rej m r)) held" using inv by (cases m) (simp_all add: Let_def view_def up)
  show "reg_inv (view (scif_recv_register_ack a r)) held" "reg_inv (view (scif_recv_register_nack a r)) held"
    "reg_inv (view (scif_recv_unregister_ack a r)) held" "reg_inv (view (scif_recv_unregister_nack a r)) held"
    using inv by (simp_all add: scif_recv_register_ack_def scif_recv_register_nack_def scif_recv_unregister_ack_def scif_recv_unregister_nack_def view_def up)
qed

section \<open>Runs\<close>

text \<open>
  The runs of an endpoint from its initialisation. \<open>held\<close> are the sets of pages the client has pinned and not unpinned. The addresses of new windows and sets are
  fresh, ranges have less than \<open>2 ^ 31\<close> pages, and \<open>get_user_pages\<close> reports as many pages as it stores. A message about a window comes at any time; a call of the client also.
  Two flags say what a run has met: \<open>fixed\<close> that a client has chosen the offset of a window itself, with \<open>SCIF_MAP_FIXED\<close>, \<open>starved\<close> that there was no memory for a node of
  the address generator in a step that may have to give an offset back.
\<close>

definition rma_start :: "rma_ep \<Rightarrow> bool" where
  "rma_start r \<longleftrightarrow> registering r = [] \<and> aborting r = [] \<and> mi_rma r = [] \<and> remote_pending r = [] \<and> pin_sets r = Map.empty"

inductive rma_run :: "bool \<Rightarrow> bool \<Rightarrow> rma_ep \<Rightarrow> u64 set \<Rightarrow> bool" where
  init: "rma_start r \<Longrightarrow> micscif_rma_ep_init kz r = Some (None, r') \<Longrightarrow> rma_run False False r' {}"
| pin: "rma_run fixed starved r held \<Longrightarrow> h \<notin> held \<Longrightarrow> pin_sets r h = None \<Longrightarrow> 0 < len \<Longrightarrow> len < 0x80000000000 \<Longrightarrow> gup_ok penv (int (unat len div 4096)) \<Longrightarrow>
    rma_pin penv h addr len p flags r = Some (e, r') \<Longrightarrow> rma_run fixed starved r' (if e = None then insert h held else held)"
| unpin: "rma_run fixed starved r held \<Longrightarrow> h \<in> held \<Longrightarrow> rma_unpin h r = Some r' \<Longrightarrow> rma_run fixed starved r' (held - {h})"
| register: "rma_run fixed starved r held \<Longrightarrow> len < 0x80000000000 \<Longrightarrow> gup_ok penv (int (unat len div 4096)) \<Longrightarrow>
    win_addr env \<notin> set (addrs (view r)) \<Longrightarrow> pin_sets r h = None \<Longrightarrow> scif_register_start env penv h addr len off p flags r = Some (out, r') \<Longrightarrow>
    rma_run (fixed \<or> flags AND SCIF_MAP_FIXED \<noteq> 0) (starved \<or> \<not> reg_mem env len r) r' held"
| register_pinned: "rma_run fixed starved r held \<Longrightarrow> win_addr env \<notin> set (addrs (view r)) \<Longrightarrow>
    scif_register_pinned_start env h off flags r = Some (out, r') \<Longrightarrow>
    rma_run (fixed \<or> flags AND SCIF_MAP_FIXED \<noteq> 0) (starved \<or> \<not> (\<forall>len. reg_mem env len r)) r' held"
| abort: "rma_run fixed starved r held \<Longrightarrow> scif_register_abort kz sent a r = Some r' \<Longrightarrow> rma_run fixed (starved \<or> \<not> mem_ok kz (rm_va r)) r' held"
| prep: "rma_run fixed starved r held \<Longrightarrow> scif_register_prep kz sent mp rw a r = Some ((out, r'), rw') \<Longrightarrow> rma_run fixed (starved \<or> \<not> mem_ok kz (rm_va r)) r' held"
| finish: "rma_run fixed starved r held \<Longrightarrow> scif_register_finish kz a r = Some (out, r') \<Longrightarrow> rma_run fixed (starved \<or> \<not> mem_ok kz (rm_va r)) r' held"
| unregister: "rma_run fixed starved r held \<Longrightarrow> micscif_unregister_start kz sent a r = Some (Inr (e, r')) \<Longrightarrow> rma_run fixed (starved \<or> \<not> mem_ok kz (rm_va r)) r' held"
| unregister_wait: "rma_run fixed starved r held \<Longrightarrow> micscif_unregister_start kz sent a r = Some (Inl r') \<Longrightarrow> rma_run fixed (starved \<or> \<not> mem_ok kz (rm_va r)) r' held"
| unregister_finish: "rma_run fixed starved r held \<Longrightarrow> micscif_unregister_finish kz a r = Some (e, r') \<Longrightarrow> rma_run fixed (starved \<or> \<not> mem_ok kz (rm_va r)) r' held"
| gnt_rej: "rma_run fixed starved r held \<Longrightarrow> rma_run fixed starved (scif_alloc_gnt_rej m r) held"
| register_ack: "rma_run fixed starved r held \<Longrightarrow> rma_run fixed starved (scif_recv_register_ack a r) held"
| register_nack: "rma_run fixed starved r held \<Longrightarrow> rma_run fixed starved (scif_recv_register_nack a r) held"
| unregister_ack: "rma_run fixed starved r held \<Longrightarrow> rma_run fixed starved (scif_recv_unregister_ack a r) held"
| unregister_nack: "rma_run fixed starved r held \<Longrightarrow> rma_run fixed starved (scif_recv_unregister_nack a r) held"
| munmap: "rma_run fixed starved r held \<Longrightarrow> scif_recv_munmap kz a r = Some r' \<Longrightarrow> rma_run fixed (starved \<or> \<not> mem_ok kz (rm_va r)) r' held"
| cleanup: "rma_run fixed starved r held \<Longrightarrow> micscif_rma_destroy_temp_window hung kz r = Some r' \<Longrightarrow> rma_run fixed starved r' held"
| alloc_req: "rma_run fixed starved r held \<Longrightarrow> a \<notin> set (addrs (view r)) \<Longrightarrow> unat n < 2 ^ 31 \<Longrightarrow> scif_alloc_req renv sent e a n h r = Some r' \<Longrightarrow> rma_run fixed starved r' held"
| free_virt: "rma_run fixed starved r held \<Longrightarrow> scif_free_virt a r = Some r' \<Longrightarrow> rma_run fixed starved r' held"
| recv_register: "rma_run fixed starved r held \<Longrightarrow> scif_recv_register sent a h r = Some r' \<Longrightarrow> rma_run fixed starved r' held"
| recv_unregister: "rma_run fixed starved r held \<Longrightarrow> scif_recv_unregister sent a h r = Some r' \<Longrightarrow> rma_run fixed starved r' held"
| conn: "rma_run fixed starved r held \<Longrightarrow> rma_run fixed starved (r\<lparr>rm_state := st, rm_alive := b\<rparr>) held"

text \<open>
  The runs in which no client chooses an offset, whose claims the address generator does not check (\<open>va_gen_claim_overlap\<close> in \<open>Va_Gen\<close>), and in which
  there is always memory to give an offset back.
\<close>

abbreviation rma_reach :: "rma_ep \<Rightarrow> u64 set \<Rightarrow> bool" where
  "rma_reach \<equiv> rma_run False False"

lemma rma_reach_register:
  assumes "rma_reach r held" "flags AND SCIF_MAP_FIXED = 0" "len < 0x80000000000" "gup_ok penv (int (unat len div 4096))"
    "win_addr env \<notin> set (addrs (view r))" "pin_sets r h = None" "reg_mem env len r" "scif_register_start env penv h addr len off p flags r = Some (out, r')"
  shows "rma_reach r' held"
  using rma_run.register [OF assms(1,3-6,8)] assms(2,7) by simp

lemma rma_reach_prep:
  "rma_reach r held \<Longrightarrow> mem_ok kz (rm_va r) \<Longrightarrow> scif_register_prep kz sent mp rw a r = Some ((out, r'), rw') \<Longrightarrow> rma_reach r' held"
  using rma_run.prep [of False False r held kz sent mp rw a out r' rw'] by simp

lemma rma_reach_finish: "rma_reach r held \<Longrightarrow> mem_ok kz (rm_va r) \<Longrightarrow> scif_register_finish kz a r = Some (out, r') \<Longrightarrow> rma_reach r' held"
  using rma_run.finish [of False False r held kz a out r'] by simp

lemma init_inv:
  assumes s: "rma_start r" and i: "micscif_rma_ep_init kz r = Some (None, r')"
  shows "reg_inv (view r') {}"
proof -
  obtain va where va: "va_gen_init kz (rm_va r) VA_GEN_MIN VA_GEN_RANGE = Some (Inr va)"
    "r' = r\<lparr>rm_va := va, reg_list := [], remote_reg_list := [], tw_refcount := 0, tcw_refcount := 0, tw_total_pages := 0, async_list_del := False\<rparr>"
    using i by (auto simp: micscif_rma_ep_init_def split: option.splits sum.splits)
  have "pin_sets r h = None" for h using s by (simp add: rma_start_def)
  then show ?thesis using s va_holds_init [OF va(1)] unfolding va(2)
    by (simp add: reg_inv_def view_def owned_def addrs_def uses_def users_def dead_sum_def rma_start_def)
qed

lemma find_addr: "find_win a ws = Some w \<Longrightarrow> a \<in> waddr ` set ws"
  using find_win_Some [of a ws w] by blast

lemma rma_run_inv: "rma_run fixed starved r held \<Longrightarrow> \<not> fixed \<Longrightarrow> \<not> starved \<Longrightarrow> reg_inv (view r) held"
proof (induction rule: rma_run.induct)
  case init
  show ?case by (rule init_inv [OF init.hyps])
next
  case pin
  show ?case by (rule pin_inv [OF pin.IH pin.hyps(2-)]) (use pin.prems in simp_all)
next
  case (unpin fixed starved r held h r')
  then show ?case using unpin_inv [of r held h] by simp
next
  case register
  show ?case by (rule register_start_inv [OF register.IH]) (use register.hyps register.prems in simp_all)
next
  case register_pinned
  show ?case by (rule register_pinned_inv [OF register_pinned.IH]) (use register_pinned.hyps register_pinned.prems in simp_all)
next
  case (abort fixed starved r held kz sent a r')
  then have "a \<in> waddr ` set (aborting r)" by (auto simp: scif_register_abort_def split: bind_splits intro: find_addr)
  then show ?case using abort register_abort_inv [of r held kz a sent] by simp
next
  case prep
  show ?case by (rule register_prep_inv [OF prep.IH]) (use prep.hyps prep.prems in simp_all)
next
  case (finish fixed starved r held kz a out r')
  then have "a \<in> waddr ` set (registering r)" by (auto simp: scif_register_finish_def split: bind_splits intro: find_addr)
  then show ?case using finish register_finish_inv [of r held kz a] by simp
next
  case (unregister fixed starved r held kz sent a e r')
  then have "a \<in> waddr ` set (reg_list r)" by (auto simp: micscif_unregister_start_def split: bind_splits intro: find_addr)
  then show ?case using unregister unregister_start_inv [of r held kz a sent] by simp
next
  case (unregister_wait fixed starved r held kz sent a r')
  then have "a \<in> waddr ` set (reg_list r)" by (auto simp: micscif_unregister_start_def split: bind_splits intro: find_addr)
  then show ?case using unregister_wait unregister_start_inv [of r held kz a sent] by simp
next
  case (unregister_finish fixed starved r held kz a e r')
  then have "a \<in> waddr ` set (reg_list r)" by (auto simp: micscif_unregister_finish_def split: bind_splits intro: find_addr)
  then show ?case using unregister_finish unregister_finish_inv [of r held kz a] by simp
next
  case (cleanup fixed starved r held hung kz r')
  then show ?case using destroy_temp_inv [of r held hung kz] by simp
next
  case munmap
  show ?case by (rule recv_munmap_inv [OF munmap.IH]) (use munmap.hyps munmap.prems in simp_all)
next
  case alloc_req
  show ?case by (rule alloc_req_inv [OF alloc_req.IH alloc_req.hyps(2-)]) (use alloc_req.prems in simp_all)
next
  case free_virt
  show ?case by (rule free_virt_inv [OF free_virt.IH free_virt.hyps(2-)]) (use free_virt.prems in simp_all)
next
  case recv_register
  show ?case by (rule recv_register_inv [OF recv_register.IH recv_register.hyps(2-)]) (use recv_register.prems in simp_all)
next
  case recv_unregister
  show ?case by (rule recv_unregister_inv [OF recv_unregister.IH recv_unregister.hyps(2-)]) (use recv_unregister.prems in simp_all)
next
  case conn
  then show ?case by simp
qed (rule answer_inv, blast)+

lemma rma_reach_inv: "rma_reach r held \<Longrightarrow> reg_inv (view r) held"
  using rma_run_inv by blast

end
