(* ===== verification/Rma_Registration.thy ===== *)
theory Rma_Registration
  imports Rma_Register_Ops
begin

text \<open>
  What registration promises: properties of the runs of an endpoint (\<open>rma_run\<close>) without offsets chosen by a client, and of the messages by which two nodes register a window
  together. It rests on the contract \<open>offset_space\<close> of the address generator and on the transfer of addresses of \<open>Rma_Remote\<close>.
\<close>

section \<open>One registration\<close>

text \<open>The state after a registration has sent its request and pinned its pages.\<close>

lemma register_start_wait:
  assumes res: "scif_register_start env penv h addr len off p flags r = Some (Reg_Wait, r1)"
    and fl: "flags AND SCIF_MAP_FIXED = 0" and len: "len < 0x80000000000" and g: "gup_ok penv (int (unat len div 4096))"
  shows "\<exists>va x pp mm w. r1 = r\<lparr>rm_va := va, rm_sent := rm_sent r @ [SCIF_ALLOC_REQ (drop_bit WPAGE_SHIFT len) (win_addr env)], registering := w # registering r,
      pin_sets := (pin_sets r)(h \<mapsto> pp), rm_mm := mm\<rparr> \<and> va_gen_alloc (kz_get env) (rm_va r) len (of_nat PAGE_SIZE) = Some (x, va) \<and> pp_wf pp \<and> pp_nr_pages pp = int (unat len div 4096) \<and> rm_state r = SCIFEP_CONNECTED \<and>
    w = back_window h pp ((zero_window (win_addr env) (unat (drop_bit WPAGE_SHIFT len)))\<lparr>offset := x, wtemp := False, nr_pages := drop_bit WPAGE_SHIFT len,
      alloc_handle := no_alloc\<lparr>al_state := OP_IN_PROGRESS\<rparr>\<rparr>)"
proof -
  have v: "rma_verify r = None" and z: "0 < len"
    using res by (auto simp: scif_register_start_def reg_open_def word_gt_0 split: if_splits option.splits)
  then have st: "rm_state r = SCIFEP_CONNECTED" by (auto simp: rma_verify_def split: if_splits)
  let ?fl = "(if flags AND SCIF_MAP_KERNEL = 0 then flags OR SCIF_MAP_ULIMIT else flags) AND (SCIF_MAP_KERNEL OR SCIF_MAP_ULIMIT)"
  from pin_pages_wf_aux [OF z len g, of addr p ?fl "rm_mm r"] obtain pr mm where
    pr: "scif_pin_pages penv addr len p ?fl (rm_mm r) = Some (pr, mm)" "\<And>p' pp. pr = Inr (p', pp) \<Longrightarrow> pp_wf pp \<and> pp_nr_pages pp = int (unat len div 4096)" by blast
  obtain ro r0 where ro: "reg_open env flags off len r = Some (ro, r0)" using res by (auto simp: scif_register_start_def split: if_splits bind_splits)
  obtain w0 where w0: "ro = Inr w0" using res ro by (cases ro) (auto simp: scif_register_start_def split: if_splits)
  obtain x va where al: "va_gen_alloc (kz_get env) (rm_va r) len (of_nat PAGE_SIZE) = Some (x, va)"
    using ro v fl by (auto simp: reg_open_def micscif_get_window_offset_def split: bind_splits)
  have w: "w0 = (zero_window (win_addr env) (unat (drop_bit WPAGE_SHIFT len)))\<lparr>offset := x, wtemp := False, nr_pages := drop_bit WPAGE_SHIFT len\<rparr>" "r0 = r\<lparr>rm_va := va\<rparr>"
    using ro w0 v fl al by (auto simp: reg_open_def micscif_get_window_offset_def micscif_create_window_def split: if_splits option.splits)
  have sent: "alloc_sent env" using res ro w0 by (auto simp: scif_register_start_def micscif_send_alloc_request_def rma_send_def Let_def split: if_splits)
  obtain p' pp where pp: "pr = Inr (p', pp)"
    using res ro w0 sent pr(1) w(2) by (auto simp: scif_register_start_def micscif_send_alloc_request_def rma_send_def Let_def split: if_splits sum.splits)
  define w1 where "w1 = back_window h pp ((zero_window (win_addr env) (unat (drop_bit WPAGE_SHIFT len)))\<lparr>offset := x, wtemp := False, nr_pages := drop_bit WPAGE_SHIFT len,
      alloc_handle := no_alloc\<lparr>al_state := OP_IN_PROGRESS\<rparr>\<rparr>)"
  have "r1 = r\<lparr>rm_va := va, rm_sent := rm_sent r @ [SCIF_ALLOC_REQ (drop_bit WPAGE_SHIFT len) (win_addr env)], registering := w1 # registering r,
      pin_sets := (pin_sets r)(h \<mapsto> pp), rm_mm := mm\<rparr>"
    using res ro w0 sent pr(1) w pp
    by (auto simp: scif_register_start_def micscif_send_alloc_request_def rma_send_def Let_def w1_def back_window_def zero_window_def split: if_splits)
  then show ?thesis using pr(2) [OF pp] st w1_def al by blast
qed

lemma upd_fresh: "a \<notin> waddr ` set ws \<Longrightarrow> upd_win a f ws = ws"
  by (induction ws) (auto simp: upd_win_def)

lemma del_fresh: "a \<notin> waddr ` set ws \<Longrightarrow> del_win a ws = ws"
  by (auto simp: del_win_def filter_id_conv)

lemma win_head:
  assumes "a \<notin> waddr ` set ws" and "waddr w = a"
  shows "find_win a (w # ws) = Some w" "upd_win a f (w # ws) = f w # ws" "del_win a (w # ws) = ws"
  using upd_fresh [OF assms(1), of f] del_fresh [OF assms(1)] assms(2) by (simp_all add: find_win_def upd_win_def del_win_def)

text \<open>The arrays are all that the loops change of a window.\<close>

lemma map_window_pages_rest:
  "micscif_map_window_pages mp pp temp w = Some (e, w') \<Longrightarrow> w' = w\<lparr>dma_addrs := dma_addrs w', num_pages := num_pages w'\<rparr>"
proof -
  have "map_pages mp temp pp m j i w = Some (e, w') \<Longrightarrow> w' = w\<lparr>dma_addrs := dma_addrs w', num_pages := num_pages w'\<rparr>" for m j i w
  proof (induction mp temp pp m j i w rule: map_pages.induct)
    case (2 mp temp pp m j i w)
    show ?case
    proof (cases "mp (pp_pages pp ! i) (chunk_bytes (pp_num_pages pp ! i))")
      case (Inl err)
      then show ?thesis using "2.prems" by (auto simp: Let_def split: if_splits)
    next
      case (Inr x)
      then show ?thesis using "2.prems" "2.IH" by (simp add: Let_def split: if_splits)
    qed
  qed simp
  then show "micscif_map_window_pages mp pp temp w = Some (e, w') \<Longrightarrow> w' = w\<lparr>dma_addrs := dma_addrs w', num_pages := num_pages w'\<rparr>"
    by (auto simp: micscif_map_window_pages_def split: if_splits)
qed

lemma set_nr_pages_reg_state: "micscif_set_nr_pages (w\<lparr>reg_state := s\<rparr>) = map_option (\<lambda>w. w\<lparr>reg_state := s\<rparr>) (micscif_set_nr_pages w)"
proof -
  have "set_pages m j (w\<lparr>reg_state := s\<rparr>) = map_option (\<lambda>w. w\<lparr>reg_state := s\<rparr>) (set_pages m j w)" for m j w
  proof (induction m arbitrary: j w)
    case (Suc m)
    have c: "w\<lparr>num_pages := n, reg_state := s, dma_addrs := d\<rparr> = w\<lparr>num_pages := n, dma_addrs := d, reg_state := s\<rparr>"
      "w\<lparr>reg_state := s, num_pages := n\<rparr> = w\<lparr>num_pages := n, reg_state := s\<rparr>" for n d by simp_all
    show ?case by (simp add: Let_def c Suc.IH)
  qed simp
  then show ?thesis by (simp add: micscif_set_nr_pages_def)
qed

lemma set_nr_pages_prot: "micscif_set_nr_pages w = Some w' \<Longrightarrow> prot w' = prot w"
proof -
  have "set_pages m j w = Some w' \<Longrightarrow> prot w' = prot w" for m j w
    by (induction m j w rule: set_pages.induct) (auto simp: Let_def split: if_splits)
  then show "micscif_set_nr_pages w = Some w' \<Longrightarrow> prot w' = prot w" by (simp add: micscif_set_nr_pages_def)
qed

lemma copy_addrs_id: "copy_addrs w i j left rw = Some rw' \<Longrightarrow> waddr rw' = waddr rw \<and> magic rw' = magic rw"
proof (induction w i j left rw rule: copy_addrs.induct)
  case (1 w i j left rw)
  then show ?case unfolding copy_addrs.simps [of w i j left rw] by (auto simp: Let_def split: if_splits bind_splits)
qed

lemma prep_transfer_id:
  "prep_transfer w rw = Some (w', rw') \<Longrightarrow> w' = w\<lparr>peer_window := al_vaddr (alloc_handle w)\<rparr> \<and> waddr rw' = waddr rw \<and> magic rw' = magic rw"
  by (auto simp: prep_transfer_def dest!: copy_addrs_id split: if_splits bind_splits)

section \<open>Two nodes\<close>

text \<open>
  The exchange of messages when nothing fails: \<open>r\<close> registers, \<open>q\<close> is the other end, \<open>e\<close> its address and \<open>a\<close> that of its new window. Every message is taken from
  what the sender has sent, and the owner writes the window of the other end in place.
\<close>

definition register_handshake :: "reg_env \<Rightarrow> pin_env \<Rightarrow> remote_env \<Rightarrow> (u64 \<Rightarrow> u64 \<Rightarrow> errno + u64) \<Rightarrow> u64 \<Rightarrow> u64 \<Rightarrow> u64 \<Rightarrow>
    u64 \<Rightarrow> u64 \<Rightarrow> u64 \<Rightarrow> u32 \<Rightarrow> u32 \<Rightarrow> rma_ep \<Rightarrow> rma_ep \<Rightarrow> (u64 \<times> rma_ep \<times> rma_ep) option" where
  "register_handshake env penv renv mp e a h addr len off p flags r q = do {
     (_, r) \<leftarrow> scif_register_start env penv h addr len off p flags r;
     q \<leftarrow> (case last (rm_sent r) of SCIF_ALLOC_REQ n wa \<Rightarrow> scif_alloc_req renv True e a n wa q | _ \<Rightarrow> None);
     rw \<leftarrow> find_win a (remote_pending q);
     let r = scif_alloc_gnt_rej (last (rm_sent q)) r
     in do {
       ((_, r), rw') \<leftarrow> scif_register_prep (kz_free env) True mp rw (win_addr env) r;
       rw' \<leftarrow> rw';
       q \<leftarrow> (case last (rm_sent r) of
           SCIF_REGISTER v wa \<Rightarrow> scif_recv_register True v wa (q\<lparr>remote_pending := upd_win a (\<lambda>_. rw') (remote_pending q)\<rparr>) | _ \<Rightarrow> None);
       r \<leftarrow> (case last (rm_sent q) of SCIF_REGISTER_ACK _ wa \<Rightarrow> Some (scif_recv_register_ack wa r) | _ \<Rightarrow> None);
       (out, r) \<leftarrow> scif_register_finish (kz_free env) (win_addr env) r;
       case out of Registered x \<Rightarrow> Some (x, r, q) | _ \<Rightarrow> None } }"

text \<open>What the other end does with the request.\<close>

lemma alloc_req_grants:
  assumes "rm_state q = SCIFEP_CONNECTED" and n: "unat n < 2 ^ 31" "0 < n" and env: "\<And>i. re_zalloc renv i" "re_map_window renv = Inr mo" "re_map_lookup renv = Inr lo" "re_map_page renv = (\<lambda>_. None)"
  shows "\<exists>rw. micscif_create_remote_window renv a (ucast n) = Some (Some rw) \<and>
    scif_alloc_req renv True e a n h q = Some (q\<lparr>rm_sent := rm_sent q @ [SCIF_ALLOC_GNT a (mapped_offset rw) h], remote_pending := rw # remote_pending q\<rparr>)"
proof -
  have u: "unat (ucast n :: u32) = unat n" using n(1) by (simp add: unsigned_ucast_eq take_bit_nat_eq_self)
  then have u31: "unat (ucast n :: u32) < 2 ^ 31" using n(1) by simp
  define w1 where "w1 = (zero_window a (unat n))\<lparr>nr_pages := scast (ucast n :: u32), mapped_offset := mo, nr_lookup := (unat n + 511) div 512, dma_lookup_offset := lo\<rparr>"
  have "sint (ucast n :: u32) = int (unat n)" using sint_small [OF u31] u by simp
  then have "scast (ucast n :: u32) = (of_nat (unat n) :: u64)" unfolding scast_eq by simp
  then have sn: "unat (scast (ucast n :: u32) :: u64) = unat n" using unat_of_nat64 [of "unat n"] n(1) by simp
  obtain e ls where l: "lookup_loop (re_map_page renv) (unat n) 0 0 w1 = Some (e, w1\<lparr>dma_lookup := ls\<rparr>)"
    using lookup_loop_total [of 0 0 w1 "unat n" "re_map_page renv"] by (auto simp: w1_def zero_window_def)
  have "lookup_loop (\<lambda>_. None) m i j w = Some (x, w') \<Longrightarrow> x = None" for m i j w x w'
  proof (induction "\<lambda>_ :: nat. None :: errno option" m i j w rule: lookup_loop.induct)
    case (1 m i j w)
    then show ?case unfolding lookup_loop.simps [of _ m i j w] by (auto split: if_splits)
  qed
  then have "e = None" using l env(4) by simp
  then have "micscif_create_remote_lookup renv ((zero_window a (unat n))\<lparr>nr_pages := scast (ucast n :: u32)\<rparr>) = Some (None, w1\<lparr>dma_lookup := ls\<rparr>)"
    using l env nr_lookup_pages [of "unat n"] sn by (simp add: micscif_create_remote_lookup_def w1_def)
  then have "\<exists>rw. micscif_create_remote_window renv a (ucast n) = Some (Some rw)" using env(1) u by (simp add: micscif_create_remote_window_def)
  then show ?thesis using assms(1) by (auto simp: scif_alloc_req_def rma_send_def)
qed

text \<open>What the owner does once the window is granted: both windows are filled, decoded and entered.\<close>

lemma owner_steps:
  assumes w: "registering r = w # ws" "waddr w = wa" "wa \<notin> waddr ` set ws" "wa \<notin> waddr ` set (aborting r)" and pp: "pin_sets r (pinned_pages w) = Some pp" and st: "rm_state r = SCIFEP_CONNECTED"
    and w': "w' = w\<lparr>alloc_handle := \<lparr>al_phys_addr = ph, al_vaddr = a, al_state = OP_COMPLETED\<rparr>\<rparr>"
    and t: "micscif_map_window_pages mp pp False w' = Some (None, w1)" "prep_transfer w1 rw = Some (w2, rw1)" "micscif_set_nr_pages w2 = Some w3"
  shows "\<exists>r3. scif_register_prep kz True mp rw wa (scif_alloc_gnt_rej (SCIF_ALLOC_GNT a ph wa) r) = Some ((Reg_Wait, r3), Some rw1) \<and>
    rm_sent r3 = rm_sent r @ [SCIF_REGISTER a wa] \<and> rm_va r3 = rm_va r \<and> pin_sets r3 = pin_sets r \<and>
    scif_register_finish kz wa (scif_recv_register_ack wa r3) =
      Some (Registered (offset w), r3\<lparr>registering := ws, reg_list := micscif_insert_window (w3\<lparr>reg_state := OP_COMPLETED, wref_count := ucast (nr_pages w3)\<rparr>) (reg_list r)\<rparr>)"
proof -
  define r2 where "r2 = scif_alloc_gnt_rej (SCIF_ALLOC_GNT a ph wa) r"
  have "upd_win wa f (aborting r) = aborting r" for f by (rule upd_fresh [OF w(4)])
  then have r2: "r2 = r\<lparr>registering := w' # ws, aborting := aborting r\<rparr>" using win_head(2) [OF w(3,2)] w(1) by (simp add: r2_def w')
  have w'a: "waddr w' = wa" using w(2) by (simp add: w')
  have m1: "w1 = w'\<lparr>dma_addrs := dma_addrs w1, num_pages := num_pages w1\<rparr>" by (rule map_window_pages_rest [OF t(1)])
  have al: "alloc_handle w1 = alloc_handle w'" "waddr w1 = wa" by (subst m1, simp add: w'a)+
  have w2: "w2 = w1\<lparr>peer_window := a\<rparr>" using prep_transfer_id [OF t(2)] al(1) by (simp add: w')
  have id: "win_id w3 = win_id w" using set_nr_pages_id [OF t(3)] map_window_pages_id [OF t(1)] by (simp add: w2 w')
  note e = win_id_eq [OF id]
  define w4 where "w4 = w3\<lparr>reg_state := OP_IN_PROGRESS\<rparr>"
  have sp: "micscif_set_nr_pages (w2\<lparr>reg_state := OP_IN_PROGRESS\<rparr>) = Some w4" using t(3) by (simp add: set_nr_pages_reg_state w4_def)
  have w4a: "waddr w4 = wa" using e w(2) by (simp add: w4_def)
  define r3 where "r3 = r2\<lparr>rm_sent := rm_sent r @ [SCIF_REGISTER a wa], registering := w4 # ws\<rparr>"
  have "micscif_send_scif_register kz True w2 r2 = Some (Reg_Wait, r3)"
    using st sp win_head(2) [OF w(3) w'a] w4a al by (simp add: micscif_send_scif_register_def rma_send_def r3_def r2 w2 w')
  then have A: "scif_register_prep kz True mp rw wa r2 = Some ((Reg_Wait, r3), Some rw1)"
    using win_head(1) [OF w(3) w'a] pp t al(1) by (simp add: scif_register_prep_def r2 w')
  have "scif_recv_register_ack wa r3 = r3\<lparr>registering := w4\<lparr>reg_state := OP_COMPLETED\<rparr> # ws\<rparr>"
    using win_head(2) [OF w(3) w4a] by (simp add: scif_recv_register_ack_def r3_def)
  then have B: "scif_register_finish kz wa (scif_recv_register_ack wa r3) =
      Some (Registered (offset w), r3\<lparr>registering := ws, reg_list := micscif_insert_window (w3\<lparr>reg_state := OP_COMPLETED, wref_count := ucast (nr_pages w3)\<rparr>) (reg_list r)\<rparr>)"
    using win_head(1,3) [of wa ws "w4\<lparr>reg_state := OP_COMPLETED\<rparr>"] w(3) w4a e by (simp add: scif_register_finish_def w4_def r3_def r2)
  have "rm_sent r3 = rm_sent r @ [SCIF_REGISTER a wa]" "rm_va r3 = rm_va r" "pin_sets r3 = pin_sets r" by (simp_all add: r3_def r2)
  then show ?thesis using A B unfolding r2_def by blast
qed

lemma peer_enters:
  assumes "rm_state q = SCIFEP_CONNECTED" and "remote_pending q = rw # qs" and "a \<notin> waddr ` set qs" and "waddr rw = a"
    and "waddr rw1 = a" "magic rw1 = SCIFEP_MAGIC" "micscif_set_nr_pages rw1 = Some rw2"
  shows "scif_recv_register True a wa (q\<lparr>remote_pending := upd_win a (\<lambda>_. rw1) (remote_pending q)\<rparr>) =
    Some (q\<lparr>remote_pending := qs, rm_sent := rm_sent q @ [SCIF_REGISTER_ACK a wa], remote_reg_list := micscif_insert_window rw2 (remote_reg_list q)\<rparr>)"
  using win_head(2) [OF assms(3,4)] win_head(1,3) [OF assms(3,5)] assms(1,2,6,7) by (simp add: scif_recv_register_def rma_send_def)

lemma dma_ok_upd [simp]: "dma_ok (w\<lparr>reg_state := s, wref_count := c\<rparr>) = dma_ok w" "page_addrs (w\<lparr>reg_state := s, wref_count := c\<rparr>) = page_addrs w"
  by (simp_all add: dma_ok_def page_addrs_def win_ok_def whi_def nchunks_def pages_before_def)

lemma handshake_run_va:
  assumes reach: "rma_reach r held" and start: "scif_register_start env penv h addr len off p flags r = Some (Reg_Wait, r1)"
    and fl: "flags AND SCIF_MAP_FIXED = 0" and len: "len < 0x80000000000" and g: "gup_ok penv (int (unat len div 4096))"
    and new: "win_addr env \<notin> set (addrs (view r))" "pin_sets r h = None" and mem: "reg_mem env len r"
    and q: "rm_state q = SCIFEP_CONNECTED" "a \<notin> waddr ` set (remote_pending q)"
    and renv: "\<And>i. re_zalloc renv i" "re_map_window renv = Inr mo" "re_map_lookup renv = Inr lo" "re_map_page renv = (\<lambda>_. None)"
    and bus: "\<And>pg l. mp pg l = Inr (bus pg)" "\<And>pg. unat (bus pg) + 0x200000 \<le> 2 ^ 52 \<and> unat (bus pg) mod 4096 = 0"
  shows "\<exists>x r' q' w rw pp cs. register_handshake env penv renv mp e a h addr len off p flags r q = Some (x, r', q') \<and> rma_reach r' held \<and>
    w \<in> set (reg_list r') \<and> rw \<in> set (remote_reg_list q') \<and> waddr w = win_addr env \<and> waddr rw = a \<and> peer_window w = a \<and> peer_window rw = win_addr env \<and>
    wlo w = unat x \<and> wlo rw = unat x \<and> whi w = unat x + unat len \<and> whi rw = unat x + unat len \<and> prot rw = prot w \<and> dma_ok w \<and> dma_ok rw \<and>
    pin_sets r' h = Some pp \<and> chunk_prefix pp cs \<and> page_addrs w = chunk_addrs bus pp cs \<and> page_addrs rw = chunk_addrs bus pp cs \<and> rm_va r' = rm_va r1"
proof -
  let ?wa = "win_addr env" and ?n = "drop_bit WPAGE_SHIFT len"
  from register_start_wait [OF start fl len g] obtain va x pp mm w where
    r1: "r1 = r\<lparr>rm_va := va, rm_sent := rm_sent r @ [SCIF_ALLOC_REQ ?n ?wa], registering := w # registering r, pin_sets := (pin_sets r)(h \<mapsto> pp), rm_mm := mm\<rparr>"
    and al: "va_gen_alloc (kz_get env) (rm_va r) len (of_nat PAGE_SIZE) = Some (x, va)" and pp: "pp_wf pp" "pp_nr_pages pp = int (unat len div 4096)"
    and st: "rm_state r = SCIFEP_CONNECTED"
    and w: "w = back_window h pp ((zero_window ?wa (unat ?n))\<lparr>offset := x, wtemp := False, nr_pages := ?n, alloc_handle := no_alloc\<lparr>al_state := OP_IN_PROGRESS\<rparr>\<rparr>)" by blast
  have reach1: "rma_reach r1 held" by (rule rma_reach_register [OF reach fl len g new mem start])
  have z: "page_aligned len" "0 < len" using start by (auto simp: scif_register_start_def word_gt_0 split: if_splits)
  note lp = len_pages [OF z len]
  have u: "unat ?n = unat len div 4096" by (simp add: drop_bit_eq_div unat_div)
  have np: "?n = of_int (pp_nr_pages pp)" unfolding pp(2) u [symmetric] by simp
  have mok: "mem_ok (kz_free env) va" using mem al by (auto simp: reg_mem_def)
  have fresh: "?wa \<notin> waddr ` set (registering r)" "?wa \<notin> waddr ` set (aborting r)" using new(1) by (auto simp: addrs_def owned_def)
  obtain rw0 where rw0: "micscif_create_remote_window renv a (ucast ?n) = Some (Some rw0)"
    and q1: "scif_alloc_req renv True e a ?n ?wa q = Some (q\<lparr>rm_sent := rm_sent q @ [SCIF_ALLOC_GNT a (mapped_offset rw0) ?wa], remote_pending := rw0 # remote_pending q\<rparr>)"
    using alloc_req_grants [OF q(1) lp(3) _ renv, of a e ?wa] lp(2) by (auto simp: word_gt_0 unat_gt_0)
  define w' where "w' = w\<lparr>alloc_handle := \<lparr>al_phys_addr = mapped_offset rw0, al_vaddr = a, al_state = OP_COMPLETED\<rparr>\<rparr>"
  have w's: "magic w' = SCIFEP_MAGIC" "nr_pages w' = ?n" "nr_contig_chunks w' = of_nat (pp_nr_contig_chunks pp)" "length (dma_addrs w') = unat ?n" "length (num_pages w') = unat ?n"
      "offset w' = x" "waddr w' = ?wa" "waddr w = ?wa" "offset w = x" "nr_pages w = ?n" "pinned_pages w = h" "alloc_handle w' = \<lparr>al_phys_addr = mapped_offset rw0, al_vaddr = a, al_state = OP_COMPLETED\<rparr>"
    by (simp_all add: w'_def w back_window_def zero_window_def)
  have vh: "va_holds va (mset (map span (owned (view r1))))" using reg_invD(1) [OF rma_reach_inv [OF reach1]] by (simp add: r1)
  have sp: "(offset w', push_bit WPAGE_SHIFT (nr_pages w')) \<in># mset (map span (owned (view r1)))" using w's by (simp add: r1 owned_def span_def)
  have ok: "win_ok w'" using lp(3) w's(2) by (intro va_space.held_win_ok [OF vh sp]) simp
  have bk: "bus_ok mp bus pp" using bus by (simp add: bus_ok_def)
  have len': "length (dma_addrs w') = nat (pp_nr_pages pp)" "length (num_pages w') = nat (pp_nr_pages pp)" using w's(4,5) u pp(2) by simp_all
  from window_transfer [OF pp(1) bk ok w's(1) _ w's(3) len', of renv a rw0] w's(2) np rw0 renv(1) obtain w1 w2 w3 rw1 rw2 cs where
    t: "micscif_map_window_pages mp pp False w' = Some (None, w1)" "prep_transfer w1 rw0 = Some (w2, rw1)" "micscif_set_nr_pages w2 = Some w3" "micscif_set_nr_pages rw1 = Some rw2"
    and d: "dma_ok w3" "dma_ok rw2" "chunk_prefix pp cs" "page_addrs w3 = chunk_addrs bus pp cs" "page_addrs rw2 = chunk_addrs bus pp cs"
    and b: "wlo rw2 = wlo w'" "whi rw2 = whi w'" "wlo w3 = wlo w'" "whi w3 = whi w'" "prot rw2 = prot w'" "peer_window rw2 = ?wa" "peer_window w3 = a"
    unfolding w's(7,12) by auto
  have id3: "win_id w3 = win_id w'" using set_nr_pages_id [OF t(3)] map_window_pages_id [OF t(1)] prep_transfer_id [OF t(2)] by simp
  have p3: "prot w3 = prot w'" using set_nr_pages_prot [OF t(3)] prep_transfer_id [OF t(2)] arg_cong [OF map_window_pages_rest [OF t(1)], of prot] by simp
  have un: "unat (ucast ?n :: u32) < 2 ^ 31" using lp(3) by (simp add: unsigned_ucast_eq take_bit_nat_eq_self)
  have rk: "waddr rw0 = a" "magic rw0 = SCIFEP_MAGIC" using create_remote_id [OF rw0 un] by (simp_all add: remote_ok_def)
  have rk1: "waddr rw1 = a" "magic rw1 = SCIFEP_MAGIC" using prep_transfer_id [OF t(2)] rk by simp_all
  have reg1: "registering r1 = w # registering r" "?wa \<notin> waddr ` set (aborting r1)" "pin_sets r1 (pinned_pages w) = Some pp" "rm_state r1 = SCIFEP_CONNECTED"
    using w's(11) st fresh(2) by (simp_all add: r1)
  from owner_steps [OF reg1(1) w's(8) fresh(1) reg1(2-4) w'_def t(1-3), of "kz_free env"] obtain r3 where
    A: "scif_register_prep (kz_free env) True mp rw0 ?wa (scif_alloc_gnt_rej (SCIF_ALLOC_GNT a (mapped_offset rw0) ?wa) r1) = Some ((Reg_Wait, r3), Some rw1)"
    and s3: "rm_sent r3 = rm_sent r1 @ [SCIF_REGISTER a ?wa]" "rm_va r3 = rm_va r1" "pin_sets r3 = pin_sets r1"
    and B: "scif_register_finish (kz_free env) ?wa (scif_recv_register_ack ?wa r3) =
      Some (Registered (offset w), r3\<lparr>registering := registering r, reg_list := micscif_insert_window (w3\<lparr>reg_state := OP_COMPLETED, wref_count := ucast (nr_pages w3)\<rparr>) (reg_list r1)\<rparr>)"
    by blast
  define r' where "r' = r3\<lparr>registering := registering r, reg_list := micscif_insert_window (w3\<lparr>reg_state := OP_COMPLETED, wref_count := ucast (nr_pages w3)\<rparr>) (reg_list r1)\<rparr>"
  define q1 where "q1 = q\<lparr>rm_sent := rm_sent q @ [SCIF_ALLOC_GNT a (mapped_offset rw0) ?wa], remote_pending := rw0 # remote_pending q\<rparr>"
  define q' where "q' = q1\<lparr>remote_pending := remote_pending q, rm_sent := rm_sent q1 @ [SCIF_REGISTER_ACK a ?wa], remote_reg_list := micscif_insert_window rw2 (remote_reg_list q1)\<rparr>"
  have "rm_state q1 = SCIFEP_CONNECTED" "remote_pending q1 = rw0 # remote_pending q" using q(1) by (simp_all add: q1_def)
  note C = peer_enters [OF this q(2) rk(1) rk1 t(4), of ?wa, folded q'_def]
  have ls: "last (rm_sent r1) = SCIF_ALLOC_REQ ?n ?wa" "last (rm_sent q1) = SCIF_ALLOC_GNT a (mapped_offset rw0) ?wa" "last (rm_sent r3) = SCIF_REGISTER a ?wa"
      "last (rm_sent q') = SCIF_REGISTER_ACK a ?wa" "find_win a (remote_pending q1) = Some rw0"
    using s3(1) win_head(1) [OF q(2) rk(1)] by (simp_all add: r1 q1_def q'_def)
  have "register_handshake env penv renv mp e a h addr len off p flags r q = Some (x, r', q')"
    using w's(9) by (simp add: register_handshake_def start ls q1 [folded q1_def] A C B [folded r'_def] del: scif_alloc_gnt_rej.simps)
  moreover have "rma_reach r' held"
  proof -
    have m1: "mem_ok (kz_free env) (rm_va (scif_alloc_gnt_rej (SCIF_ALLOC_GNT a (mapped_offset rw0) ?wa) r1))" using mok by (simp add: r1 Let_def)
    have m3: "mem_ok (kz_free env) (rm_va (scif_recv_register_ack ?wa r3))" using mok s3(2) by (simp add: r1 scif_recv_register_ack_def)
    show ?thesis using rma_reach_finish [OF rma_run.register_ack [OF rma_reach_prep [OF rma_run.gnt_rej [OF reach1] m1 A]] m3 B] by (simp add: r'_def)
  qed
  moreover have "whi w' = unat x + unat len" using w's(2,6) u z(1) by (simp add: whi_def page_aligned_iff)
  moreover have "wlo w' = unat x" using w's(6) by (simp add: wlo_def)
  moreover define v where "v = w3\<lparr>reg_state := OP_COMPLETED, wref_count := ucast (nr_pages w3)\<rparr>"
  moreover have "v \<in> set (reg_list r')" "rw2 \<in> set (remote_reg_list q')" by (simp_all add: v_def r'_def q'_def micscif_insert_window_def)
  moreover have "waddr v = ?wa" "prot v = prot w'" "peer_window v = a" "wlo v = wlo w3" "whi v = whi w3" "dma_ok v = dma_ok w3" "page_addrs v = page_addrs w3"
    using win_id_eq [OF id3] w's(7) p3 b(7) by (simp_all add: v_def wlo_def whi_def)
  moreover have "waddr rw2 = a" using win_id_eq [OF set_nr_pages_id [OF t(4)]] rk1 by simp
  moreover have "pin_sets r' h = Some pp" using s3(3) by (simp add: r'_def r1)
  moreover have "rm_va r' = rm_va r1" using s3(2) by (simp add: r'_def)
  ultimately show ?thesis using d b by (intro exI [of _ x] exI [of _ r'] exI [of _ q'] exI [of _ v] exI [of _ rw2] exI [of _ pp] exI [of _ cs]) simp
qed

lemma handshake_run:
  assumes reach: "rma_reach r held" and start: "scif_register_start env penv h addr len off p flags r = Some (Reg_Wait, r1)"
    and fl: "flags AND SCIF_MAP_FIXED = 0" and len: "len < 0x80000000000" and g: "gup_ok penv (int (unat len div 4096))"
    and new: "win_addr env \<notin> set (addrs (view r))" "pin_sets r h = None" and mem: "reg_mem env len r"
    and q: "rm_state q = SCIFEP_CONNECTED" "a \<notin> waddr ` set (remote_pending q)"
    and renv: "\<And>i. re_zalloc renv i" "re_map_window renv = Inr mo" "re_map_lookup renv = Inr lo" "re_map_page renv = (\<lambda>_. None)"
    and bus: "\<And>pg l. mp pg l = Inr (bus pg)" "\<And>pg. unat (bus pg) + 0x200000 \<le> 2 ^ 52 \<and> unat (bus pg) mod 4096 = 0"
  shows "\<exists>x r' q' w rw pp cs. register_handshake env penv renv mp e a h addr len off p flags r q = Some (x, r', q') \<and> rma_reach r' held \<and>
    w \<in> set (reg_list r') \<and> rw \<in> set (remote_reg_list q') \<and> waddr w = win_addr env \<and> waddr rw = a \<and> peer_window w = a \<and> peer_window rw = win_addr env \<and>
    wlo w = unat x \<and> wlo rw = unat x \<and> whi w = unat x + unat len \<and> whi rw = unat x + unat len \<and> prot rw = prot w \<and> dma_ok w \<and> dma_ok rw \<and>
    pin_sets r' h = Some pp \<and> chunk_prefix pp cs \<and> page_addrs w = chunk_addrs bus pp cs \<and> page_addrs rw = chunk_addrs bus pp cs"
  using handshake_run_va [where bus = bus and mp = mp and e = e, OF assms] by (elim exE conjE) (intro exI conjI; assumption)

section \<open>Examples\<close>

text \<open>An endpoint on a connection, and the registration of two pages of a process.\<close>

definition demo_rma :: rma_ep where
  "demo_rma = \<lparr>reg_list = [], remote_reg_list = [], tw_refcount = 0, tcw_refcount = 0, rm_state = SCIFEP_CONNECTED, rm_alive = True, rm_va = va_started,
     tw_total_pages = 0, async_list_del = False, aborting = [], registering = [], mi_rma = [], remote_pending = [], pin_sets = Map.empty, rm_mm = demo_mm, rm_sent = [], rm_unmapped = []\<rparr>"

lemma demo_rma_reach: "rma_reach demo_rma {}"
proof -
  have "micscif_rma_ep_init (True, True) (demo_rma\<lparr>rm_va := va_blank\<rparr>) = Some (None, demo_rma)"
    using va_started_eq by (simp add: micscif_rma_ep_init_def demo_rma_def)
  moreover have "rma_start (demo_rma\<lparr>rm_va := va_blank\<rparr>)" by (simp add: rma_start_def demo_rma_def)
  ultimately show ?thesis using rma_run.init by blast
qed

definition demo_reg :: reg_env where
  "demo_reg = \<lparr>kz_get = (\<lambda>_. (True, True)), kz_free = (True, True), win_zalloc = (\<lambda>_. True), win_addr = 0x6000, alloc_sent = True\<rparr>"

definition demo_wait :: rma_ep where
  "demo_wait = snd (the (scif_register_start demo_reg (demo_pin demo_gup) 0x100 0 0x2000 0 SCIF_PROT_READ 0 demo_rma))"

lemma demo_wait_eq: "scif_register_start demo_reg (demo_pin demo_gup) 0x100 0 0x2000 0 SCIF_PROT_READ 0 demo_rma = Some (Reg_Wait, demo_wait)"
proof -
  have "map_option fst (scif_register_start demo_reg (demo_pin demo_gup) 0x100 0 0x2000 0 SCIF_PROT_READ 0 demo_rma) = Some Reg_Wait" by code_simp
  then show ?thesis by (auto simp: demo_wait_def)
qed

lemma demo_mem: "reg_mem demo_reg 0x2000 demo_rma"
proof -
  have "map_option (\<lambda>(x, va). num_slabs (allocator va)) (va_gen_alloc (\<lambda>_. (True, True)) va_started 0x2000 (of_nat PAGE_SIZE)) = Some 1" by code_simp
  then show ?thesis by (auto simp: reg_mem_def mem_ok_def va_room_def demo_reg_def demo_rma_def)
qed

lemma demo_steps:
  shows "0 AND SCIF_MAP_FIXED = 0" "(0x2000 :: u64) < 0x80000000000" "gup_ok (demo_pin demo_gup) (int (unat (0x2000 :: u64) div 4096))"
    "win_addr demo_reg \<notin> set (addrs (view demo_rma))" "pin_sets demo_rma 0x100 = None"
    "rm_state demo_rma = SCIFEP_CONNECTED" "0x7000 \<notin> waddr ` set (remote_pending demo_rma)"
    "re_zalloc (demo_env (\<lambda>_. True)) i" "re_map_window (demo_env (\<lambda>_. True)) = Inr 0x8000001000" "re_map_lookup (demo_env (\<lambda>_. True)) = Inr 0x8000002000"
    "re_map_page (demo_env (\<lambda>_. True)) = (\<lambda>_. None)" "unat (0x8000000000 :: u64) + 0x200000 \<le> 2 ^ 52 \<and> unat (0x8000000000 :: u64) mod 4096 = 0"
  using demo_gup_ok by (simp_all add: demo_rma_def demo_reg_def demo_env_def addrs_def owned_def view_def)

text \<open>The state when the window is registered.\<close>

definition demo_done :: rma_ep where
  "demo_done = fst (snd (the (register_handshake demo_reg (demo_pin demo_gup) (demo_env (\<lambda>_. True)) (\<lambda>_ _. Inr 0x8000000000) 0 0x7000 0x100 0 0x2000 0
     SCIF_PROT_READ 0 demo_rma demo_rma)))"

lemma demo_done_run: "rma_reach demo_done {} \<and> (\<exists>w. w \<in> set (reg_list demo_done) \<and> waddr w = 0x6000) \<and> rm_va demo_done = rm_va demo_wait"
proof -
  have "\<exists>x r' q' w rw pp cs. register_handshake demo_reg (demo_pin demo_gup) (demo_env (\<lambda>_. True)) (\<lambda>_ _. Inr 0x8000000000) 0 0x7000 0x100 0 0x2000 0 SCIF_PROT_READ 0 demo_rma demo_rma =
      Some (x, r', q') \<and> rma_reach r' {} \<and> w \<in> set (reg_list r') \<and> rw \<in> set (remote_reg_list q') \<and> waddr w = win_addr demo_reg \<and> waddr rw = 0x7000 \<and> peer_window w = 0x7000 \<and>
      peer_window rw = win_addr demo_reg \<and> wlo w = unat x \<and> wlo rw = unat x \<and> whi w = unat x + unat (0x2000 :: u64) \<and> whi rw = unat x + unat (0x2000 :: u64) \<and> prot rw = prot w \<and> dma_ok w \<and> dma_ok rw \<and>
      pin_sets r' 0x100 = Some pp \<and> chunk_prefix pp cs \<and> page_addrs w = chunk_addrs (\<lambda>_. 0x8000000000) pp cs \<and> page_addrs rw = chunk_addrs (\<lambda>_. 0x8000000000) pp cs \<and>
      rm_va r' = rm_va demo_wait"
    by (rule handshake_run_va [OF demo_rma_reach demo_wait_eq demo_steps(1-5) demo_mem demo_steps(6-11) refl demo_steps(12)])
  then show ?thesis by (auto simp: demo_done_def demo_reg_def)
qed

lemmas demo_done_reach = conjunct1 [OF demo_done_run]
lemmas demo_registered = conjunct1 [OF conjunct2 [OF demo_done_run]]

lemma demo_done_mem: "mem_ok (True, True) (rm_va demo_done)"
proof -
  have "num_slabs (allocator (rm_va demo_wait)) = 1" by code_simp
  then show ?thesis using demo_done_run by (simp add: mem_ok_def va_room_def)
qed

section \<open>Properties\<close>

text \<open>
  C9. In every run in which no client chooses an offset with \<open>SCIF_MAP_FIXED\<close> and there is memory whenever an offset is given back, also when calls are cut off by errors, lost
  messages or a lost node, the windows in the list of an endpoint are in the order of their offsets and have no byte in common, and no window that is still being registered or
  withdrawn overlaps them: what \<open>micscif_query_window\<close> and the copies rely on. (A claim with \<open>SCIF_MAP_FIXED\<close> may overlap a window: \<open>va_gen_claim_overlap\<close>.)
\<close>

theorem registered_windows_ordered:
  assumes "rma_run False False r held"
  shows "wins_ok (reg_list r) \<and> (\<forall>w \<in> set (reg_list r). \<forall>v \<in> set (registering r @ aborting r). whi w \<le> wlo v \<or> whi v \<le> wlo w)"
proof -
  note D = reg_invD [OF rma_reach_inv [OF assms]]
  let ?s = "\<lambda>w. (offset w, push_bit WPAGE_SHIFT (nr_pages w))"
  have n: "unat (nr_pages w) < 2 ^ 31" if "w \<in> set (reg_list r @ registering r @ aborting r)" for w
    using reg_own [OF rma_reach_inv [OF assms], of w] that by (auto simp: own_ok_def)
  have h: "va_holds (rm_va r) (mset (map ?s (reg_list r)) + mset (map ?s (registering r @ aborting r)))"
    using D(1) by (simp add: owned_def comp_def span_def)
  have "wins_ok (reg_list r)" by (rule va_space.held_wins_ok [OF h]) (use n D(3) in \<open>auto simp: comp_def\<close>)
  moreover have "whi w \<le> wlo v \<or> whi v \<le> wlo w" if w: "w \<in> set (reg_list r)" and v: "v \<in> set (registering r @ aborting r)" for w v
  proof -
    have len: "unat (push_bit WPAGE_SHIFT (nr_pages x)) = unat (nr_pages x) * 4096" if "x \<in> {w, v}" for x
      using n [of x] that w v by (intro push_page) auto
    obtain ws where ws: "mset (map ?s (reg_list r)) = add_mset (?s w) ws" using w multi_member_split [of "?s w" "mset (map ?s (reg_list r))"] by auto
    obtain vs where vs: "mset (map ?s (registering r @ aborting r)) = add_mset (?s v) vs" using v multi_member_split [of "?s v" "mset (map ?s (registering r @ aborting r))"] by force
    have "va_holds (rm_va r) (add_mset (?s w) (add_mset (?s v) (ws + vs)))" using h unfolding ws vs by (simp add: ac_simps)
    from va_space.held_apart [OF this] show ?thesis using len by (simp add: whi_def wlo_def)
  qed
  ultimately show ?thesis by blast
qed

theorem registered_windows_ordered_witness: "\<exists>w. rma_run False False demo_done {} \<and> w \<in> set (reg_list demo_done) \<and> wins_ok (reg_list demo_done)"
  using demo_registered demo_done_reach registered_windows_ordered [OF demo_done_reach] by blast

text \<open>
  C10. In every run in which no client chooses an offset with \<open>SCIF_MAP_FIXED\<close> and there is memory whenever an offset is given back, the address generator has handed out exactly
  the ranges of the windows that are registered, being registered or being withdrawn: no error path loses an offset or gives one back twice. (With \<open>SCIF_MAP_FIXED\<close> the list of
  claims can be split wrongly when a range is given back: \<open>va_gen_free_claim_split\<close>.)
\<close>

theorem offsets_exact:
  assumes "rma_run False False r held"
  shows "\<exists>live. va_reach VA_GEN_MIN VA_GEN_RANGE (rm_va r) live \<and>
    mset live = mset (map (\<lambda>w. (offset w, win_len w)) (reg_list r @ registering r @ aborting r))"
  using reg_invD(1) [OF rma_reach_inv [OF assms]] by (simp add: va_holds_def owned_def span_def win_len_def comp_def)

theorem offsets_exact_witness:
  "\<exists>w live. rma_run False False demo_done {} \<and> w \<in> set (reg_list demo_done) \<and> va_reach VA_GEN_MIN VA_GEN_RANGE (rm_va demo_done) live \<and> (offset w, win_len w) \<in># mset live"
proof -
  obtain w where w: "w \<in> set (reg_list demo_done)" using demo_registered by blast
  from offsets_exact [OF demo_done_reach] obtain live where "va_reach VA_GEN_MIN VA_GEN_RANGE (rm_va demo_done) live"
    "mset live = mset (map (\<lambda>w. (offset w, win_len w)) (reg_list demo_done @ registering demo_done @ aborting demo_done))" by blast
  then show ?thesis using w demo_done_reach by (intro exI [of _ w] exI [of _ live]) auto
qed

text \<open>
  C11. In every run in which no client chooses an offset with \<open>SCIF_MAP_FIXED\<close> and there is memory whenever an offset is given back, a set of pinned pages exists exactly as long as a window registered, being registered or waiting for its destruction refers to it or
  the client has not unpinned it, and its reference count is the number of its pages times the number of these.
\<close>

theorem pins_exact:
  assumes "rma_reach r held"
  shows "case pin_sets r h of
      None \<Rightarrow> h \<notin> held \<and> h \<notin> pinned_pages ` set (reg_list r @ registering r @ filter (\<lambda>w. wtype w = RMA_WINDOW_SELF) (mi_rma r))
    | Some pp \<Rightarrow> pp_ref_count pp = pp_nr_pages pp *
        int (count_list (map pinned_pages (reg_list r @ registering r @ filter (\<lambda>w. wtype w = RMA_WINDOW_SELF) (mi_rma r))) h + (if h \<in> held then 1 else 0)) \<and>
        0 < pp_ref_count pp"
proof -
  let ?ws = "reg_list r @ registering r @ filter (\<lambda>w. wtype w = RMA_WINDOW_SELF) (mi_rma r)"
  have u: "uses (view r) held h = count_list (map pinned_pages ?ws) h + (if h \<in> held then 1 else 0)"
    by (simp add: uses_def users_def comp_def filter_map)
  note p = reg_invD(9) [OF rma_reach_inv [OF assms], of h, simplified view_sel u]
  show ?thesis
  proof (cases "pin_sets r h")
    case None
    then have "h \<notin> held" "count_list (map pinned_pages ?ws) h = 0" using p by (auto split: if_splits)
    then show ?thesis using None by (auto simp: count_list_0_iff)
  next
    case (Some pp)
    have "pins_ok (Some pp) (uses (view r) held h)" using reg_invD(9) [OF rma_reach_inv [OF assms], of h] Some by simp
    then have "0 < uses (view r) held h" "0 < pp_nr_pages pp" "pp_ref_count pp = pp_nr_pages pp * int (uses (view r) held h)" by (simp_all add: pp_wf_def)
    then have "0 < pp_ref_count pp \<and> pp_ref_count pp = pp_nr_pages pp * int (uses (view r) held h)" by (simp only: zero_less_mult_iff of_nat_0_less_iff simp_thms)
    then show ?thesis using Some unfolding u by simp
  qed
qed

theorem pins_exact_witness: "\<exists>r w pp. rma_reach r {} \<and> w \<in> set (reg_list r) \<and> pin_sets r (pinned_pages w) = Some pp \<and> 0 < pp_ref_count pp"
proof -
  obtain r w where r: "rma_reach r {}" "w \<in> set (reg_list r)" using demo_registered demo_done_reach by blast
  then show ?thesis using pins_exact [OF r(1), of "pinned_pages w"] by (auto split: option.splits)
qed

text \<open>
  C37. In every run in which no client chooses an offset with \<open>SCIF_MAP_FIXED\<close> and there is memory whenever an offset is given back, the cleanup of a window, the unpinning of pages the client holds, the end of a registration and an unregistration
  run into no \<open>BUG_ON\<close> and no freed memory, as long as memory for a node of the address generator can be had.
\<close>

theorem rma_asserts_hold:
  assumes "rma_run False False r held" and "mem_ok kz (rm_va r)"
  shows "(\<exists>r'. micscif_rma_destroy_temp_window hung kz r = Some r') \<and> (\<forall>h \<in> held. \<exists>r'. rma_unpin h r = Some r') \<and>
    (\<forall>w \<in> set (aborting r). \<exists>r'. scif_register_abort kz sent (waddr w) r = Some r') \<and> (\<forall>w \<in> set (registering r). \<exists>res. scif_register_finish kz (waddr w) r = Some res) \<and>
    (\<forall>w \<in> set (reg_list r). \<exists>res. micscif_unregister_start kz sent (waddr w) r = Some res)"
proof -
  note inv = rma_reach_inv [OF assms(1)]
  show ?thesis using destroy_temp_inv [OF inv, of hung kz] unpin_inv [OF inv] register_abort_inv [OF inv assms(2), of _ sent] register_finish_inv [OF inv assms(2)]
      unregister_start_inv [OF inv assms(2), of _ sent] by blast
qed

theorem rma_asserts_hold_witness:
  "\<exists>w res r'. rma_run False False demo_done {} \<and> w \<in> set (reg_list demo_done) \<and> micscif_unregister_start (True, True) True (waddr w) demo_done = Some res \<and>
     micscif_rma_destroy_temp_window False (True, True) demo_done = Some r'"
  using rma_asserts_hold [OF demo_done_reach demo_done_mem] demo_registered demo_done_reach by blast

text \<open>
  C8. When a registration has pinned its pages and the other end can allocate its window, the exchange of messages ends with the window registered at both ends:
  each refers to the other, both cover the same offsets with the length asked for, have the same protection, and give for each page the address
  at which the pinned page was mapped.
\<close>

theorem registration_handshake:
  assumes "rma_reach r held" and "scif_register_start env penv h addr len off p flags r = Some (Reg_Wait, r1)"
    and "flags AND SCIF_MAP_FIXED = 0" and "len < 0x80000000000" and "gup_ok penv (int (unat len div 4096))"
    and "win_addr env \<notin> set (addrs (view r))" and "pin_sets r h = None" and "reg_mem env len r"
    and "rm_state q = SCIFEP_CONNECTED" and "a \<notin> waddr ` set (remote_pending q)"
    and "\<And>i. re_zalloc renv i" and "re_map_window renv = Inr mo" and "re_map_lookup renv = Inr lo" and "re_map_page renv = (\<lambda>_. None)"
    and "\<And>pg l. mp pg l = Inr (bus pg)" and "\<And>pg. unat (bus pg) + 0x200000 \<le> 2 ^ 52 \<and> unat (bus pg) mod 4096 = 0"
  shows "\<exists>x r' q' w rw pp cs. register_handshake env penv renv mp e a h addr len off p flags r q = Some (x, r', q') \<and> rma_reach r' held \<and>
    w \<in> set (reg_list r') \<and> rw \<in> set (remote_reg_list q') \<and> waddr w = win_addr env \<and> waddr rw = a \<and> peer_window w = a \<and> peer_window rw = win_addr env \<and>
    wlo w = unat x \<and> wlo rw = unat x \<and> whi w = unat x + unat len \<and> whi rw = unat x + unat len \<and> prot rw = prot w \<and> dma_ok w \<and> dma_ok rw \<and>
    pin_sets r' h = Some pp \<and> chunk_prefix pp cs \<and> page_addrs w = chunk_addrs bus pp cs \<and> page_addrs rw = chunk_addrs bus pp cs"
  using assms by (rule handshake_run)

theorem registration_handshake_witness:
  "\<exists>x r' q' w rw. register_handshake demo_reg (demo_pin demo_gup) (demo_env (\<lambda>_. True)) (\<lambda>_ _. Inr 0x8000000000) 0 0x7000 0x100 0 0x2000 0 SCIF_PROT_READ 0 demo_rma demo_rma =
      Some (x, r', q') \<and> w \<in> set (reg_list r') \<and> rw \<in> set (remote_reg_list q') \<and> wlo w = wlo rw \<and> page_addrs w = page_addrs rw"
  using registration_handshake [where e = 0 and bus = "\<lambda>_. 0x8000000000" and mp = "\<lambda>_ _. Inr 0x8000000000", OF demo_rma_reach demo_wait_eq demo_steps(1-5) demo_mem demo_steps(6-11) refl demo_steps(12)]
  by metis




end
