(* ===== verification/Smpt.thy ===== *)
theory Smpt
  imports Scif_Prelude
begin

text \<open>
  The system memory page table (\<open>micscif_smpt.c\<close>): 32 entries of 16 GB each through which a card reaches host
  addresses, with a count of mapped bytes per entry. The model is the host build for
  KNC and KNF boards. The registers of the table are a list of 32 words; the messages sent to a KNF board
  are a list. Whether the power-management reference is granted and what the PCI layer answers are
  arguments. \<open>None\<close> is an access outside of an array.
\<close>

section \<open>State\<close>

datatype family = FAMILY_UNKNOWN | FAMILY_ABR | FAMILY_KNC

record mic_smpt =
  smpt_dma_addr :: u64
  ref_count :: u64

record mic_ctx =
  bi_family :: family
  mic_smpt_tab :: "mic_smpt list"
  smpt_regs :: "u32 list"
  smpt_msgs :: "(u64 \<times> u64) list"

abbreviation (input) NUM_SMPT_ENTRIES_IN_USE :: nat where "NUM_SMPT_ENTRIES_IN_USE \<equiv> 32"
abbreviation MIC_SYSTEM_BASE :: u64 where "MIC_SYSTEM_BASE \<equiv> 0x8000000000"
abbreviation MIC_SYSTEM_PAGE_SIZE :: u64 where "MIC_SYSTEM_PAGE_SIZE \<equiv> 0x400000000"
abbreviation (input) MIC_SYSTEM_PAGE_SHIFT :: nat where "MIC_SYSTEM_PAGE_SHIFT \<equiv> 34"
abbreviation MIC_SYSTEM_PAGE_MASK :: u64 where "MIC_SYSTEM_PAGE_MASK \<equiv> 0x3ffffffff"

definition HOSTMIC_PA_TO_SMPT :: "u64 \<Rightarrow> u64" where
  "HOSTMIC_PA_TO_SMPT hostmic_pa = drop_bit MIC_SYSTEM_PAGE_SHIFT (hostmic_pa - MIC_SYSTEM_BASE)"

definition SMPT_TO_MIC_PA :: "nat \<Rightarrow> u64" where
  "SMPT_TO_MIC_PA smpt_index = MIC_SYSTEM_BASE + of_nat smpt_index * MIC_SYSTEM_PAGE_SIZE"

definition IS_MIC_SYSTEM_ADDR :: "u64 \<Rightarrow> bool" where
  "IS_MIC_SYSTEM_ADDR addr \<longleftrightarrow> addr \<ge> MIC_SYSTEM_BASE \<and>
     addr \<le> MIC_SYSTEM_BASE + of_nat NUM_SMPT_ENTRIES_IN_USE * MIC_SYSTEM_PAGE_SIZE - 1"

definition ALIGN :: "u64 \<Rightarrow> u64 \<Rightarrow> u64" where
  "ALIGN x a = (x + (a - 1)) AND NOT (a - 1)"

definition SMPT_ALIGN_LOW :: "u64 \<Rightarrow> u64" where
  "SMPT_ALIGN_LOW x = ALIGN (x - MIC_SYSTEM_PAGE_MASK) MIC_SYSTEM_PAGE_SIZE"

definition SMPT_ALIGN_HIGH :: "u64 \<Rightarrow> u64" where
  "SMPT_ALIGN_HIGH x = ALIGN x MIC_SYSTEM_PAGE_SIZE"

definition SMPT_OFFSET :: "u64 \<Rightarrow> u64" where
  "SMPT_OFFSET x = x AND MIC_SYSTEM_PAGE_MASK"

text \<open>\<open>BUILD_SMPT\<close> with the snoop bit of \<open>SNOOP_ON\<close>, which is 0.\<close>

definition BUILD_SMPT :: "u64 \<Rightarrow> u32" where
  "BUILD_SMPT host_addr = ucast (push_bit 2 host_addr AND NOT 3)"

section \<open>Operations\<close>

definition mic_smpt_set :: "u32 list \<Rightarrow> u64 \<Rightarrow> nat \<Rightarrow> u32 list" where
  "mic_smpt_set regs dma_addr index = regs[index := BUILD_SMPT (drop_bit MIC_SYSTEM_PAGE_SHIFT dma_addr)]"

definition smpt_restore_step :: "nat \<Rightarrow> mic_ctx \<Rightarrow> mic_ctx" where
  "smpt_restore_step i ctx =
     (let dma_addr = smpt_dma_addr (mic_smpt_tab ctx ! i)
      in if bi_family ctx = FAMILY_KNC
         then ctx\<lparr>smpt_regs := (smpt_regs ctx)[i := BUILD_SMPT (drop_bit MIC_SYSTEM_PAGE_SHIFT dma_addr)]\<rparr>
         else ctx)"

definition mic_smpt_restore :: "mic_ctx \<Rightarrow> mic_ctx" where
  "mic_smpt_restore ctx = fold smpt_restore_step [0..<NUM_SMPT_ENTRIES_IN_USE] ctx"

text \<open>
  The initialisation of the table: \<open>kmalloc\<close> gives an array whose entries are written one by one; the entries not
  yet written are not in the list.
\<close>

definition smpt_init_step :: "nat \<Rightarrow> mic_ctx \<Rightarrow> mic_ctx" where
  "smpt_init_step i ctx =
     (let dma_addr = of_nat i * MIC_SYSTEM_PAGE_SIZE;
          ctx = ctx\<lparr>mic_smpt_tab := mic_smpt_tab ctx @ [\<lparr>smpt_dma_addr = dma_addr, ref_count = 0\<rparr>]\<rparr>
      in if bi_family ctx = FAMILY_KNC
         then ctx\<lparr>smpt_regs := (smpt_regs ctx)[i := BUILD_SMPT (drop_bit MIC_SYSTEM_PAGE_SHIFT dma_addr)]\<rparr>
         else ctx)"

definition mic_smpt_init :: "mic_ctx \<Rightarrow> mic_ctx" where
  "mic_smpt_init ctx = fold smpt_init_step [0..<NUM_SMPT_ENTRIES_IN_USE] (ctx\<lparr>mic_smpt_tab := []\<rparr>)"

definition mic_smpt_uninit :: "mic_ctx \<Rightarrow> mic_ctx" where
  "mic_smpt_uninit ctx = ctx\<lparr>mic_smpt_tab := []\<rparr>"

text \<open>The bytes per entry of a range; \<open>None\<close> when it needs more than the 32 places of the array.\<close>

function ref_loop :: "u64 \<Rightarrow> u64 \<Rightarrow> u64 list \<Rightarrow> u64 list option" where
  "ref_loop start fin ref =
     (if start < fin then
        if length ref < NUM_SMPT_ENTRIES_IN_USE
        then ref_loop (SMPT_ALIGN_HIGH (start + 1)) fin (ref @ [min (SMPT_ALIGN_HIGH (start + 1)) fin - start])
        else None
      else Some ref)"
  by pat_completeness auto
termination
  by (relation "measure (\<lambda>(_, _, ref). NUM_SMPT_ENTRIES_IN_USE - length ref)") auto

declare ref_loop.simps [simp del]

definition get_smpt_ref_count :: "u64 \<Rightarrow> u64 \<Rightarrow> (u64 list \<times> u64) option" where
  "get_smpt_ref_count dma_addr sz =
     map_option (\<lambda>ref. (ref, SMPT_ALIGN_LOW dma_addr)) (ref_loop dma_addr (dma_addr + sz) [])"

definition add_smpt_step :: "nat \<Rightarrow> u64 list \<Rightarrow> u64 \<Rightarrow> nat \<Rightarrow> mic_ctx \<Rightarrow> mic_ctx" where
  "add_smpt_step spt ref dma_addr k ctx =
     (let i = spt + k; addr = dma_addr + of_nat k * MIC_SYSTEM_PAGE_SIZE; e = mic_smpt_tab ctx ! i;
          ctx = (if ref_count e = 0 \<and> smpt_dma_addr e \<noteq> addr
                 then (if bi_family ctx = FAMILY_ABR
                       then ctx\<lparr>smpt_msgs := smpt_msgs ctx @ [(addr, of_nat i)]\<rparr>
                       else ctx\<lparr>smpt_regs := mic_smpt_set (smpt_regs ctx) addr i\<rparr>)
                      \<lparr>mic_smpt_tab := (mic_smpt_tab ctx)[i := e\<lparr>smpt_dma_addr := addr\<rparr>]\<rparr>
                 else ctx);
          e = mic_smpt_tab ctx ! i
      in ctx\<lparr>mic_smpt_tab := (mic_smpt_tab ctx)[i := e\<lparr>ref_count := ref_count e + ref ! k\<rparr>]\<rparr>)"

definition add_smpt_entry :: "nat \<Rightarrow> u64 list \<Rightarrow> u64 \<Rightarrow> nat \<Rightarrow> mic_ctx \<Rightarrow> mic_ctx" where
  "add_smpt_entry spt ref dma_addr entries ctx = fold (add_smpt_step spt ref dma_addr) [0..<entries] ctx"

datatype smpt_search = Found nat | NotFound | Exhausted

fun find_existing :: "mic_smpt list \<Rightarrow> nat \<Rightarrow> u64 \<Rightarrow> nat \<Rightarrow> nat \<Rightarrow> smpt_search" where
  "find_existing [] i addr ee entries = Exhausted"
| "find_existing (e # es) i addr ee entries =
     (if smpt_dma_addr e = addr
      then (if ee + 1 = entries then Found i
            else find_existing es (i + 1) (addr + MIC_SYSTEM_PAGE_SIZE) (ee + 1) entries)
      else if ee \<noteq> 0 then NotFound
      else if ee = entries then Found i
      else find_existing es (i + 1) addr ee entries)"

fun find_free :: "mic_smpt list \<Rightarrow> nat \<Rightarrow> nat \<Rightarrow> nat \<Rightarrow> smpt_search" where
  "find_free [] i fe entries = NotFound"
| "find_free (e # es) i fe entries =
     (let fe = (if ref_count e = 0 then fe + 1 else 0)
      in if fe = entries then Found i else find_free es (i + 1) fe entries)"

definition smpt_op :: "bool \<Rightarrow> u64 \<Rightarrow> nat \<Rightarrow> u64 list \<Rightarrow> mic_ctx \<Rightarrow> u64 \<times> mic_ctx" where
  "smpt_op pm_ok dma_addr entries ref ctx =
     (if \<not> pm_ok then (0, ctx)
      else
        (let tab = mic_smpt_tab ctx
         in case (case find_existing tab 0 dma_addr 0 entries of
                    Exhausted \<Rightarrow> find_free tab 0 0 entries | r \<Rightarrow> r) of
              Found i \<Rightarrow>
                let spt = i + 1 - entries
                in (SMPT_TO_MIC_PA spt, add_smpt_entry spt ref dma_addr entries ctx)
            | _ \<Rightarrow> (0, ctx)))"

definition mic_map :: "bool \<Rightarrow> u64 \<Rightarrow> u64 \<Rightarrow> mic_ctx \<Rightarrow> (u64 \<times> mic_ctx) option" where
  "mic_map pm_ok dma_addr sz ctx =
     (if sz = 0 then Some (0, ctx)
      else
        do { (ref, smpt_start) \<leftarrow> get_smpt_ref_count dma_addr sz;
             let (mic_addr, ctx) = smpt_op pm_ok smpt_start (length ref) ref ctx
             in Some (if mic_addr = 0 then mic_addr else mic_addr + (dma_addr AND MIC_SYSTEM_PAGE_MASK), ctx) })"

text \<open>The loop of \<open>mic_unmap\<close> over the entries.\<close>

definition sub_smpt_entry :: "nat \<Rightarrow> u64 list \<Rightarrow> mic_smpt list \<Rightarrow> mic_smpt list" where
  "sub_smpt_entry spt ref tab =
     fold (\<lambda>k tab. tab[spt + k := (tab ! (spt + k))\<lparr>ref_count := ref_count (tab ! (spt + k)) - ref ! k\<rparr>]) [0..<length ref] tab"

definition mic_unmap :: "u64 \<Rightarrow> u64 \<Rightarrow> mic_ctx \<Rightarrow> mic_ctx option" where
  "mic_unmap mic_addr sz ctx =
     (if sz = 0 then Some ctx
      else if \<not> IS_MIC_SYSTEM_ADDR mic_addr then Some ctx
      else
        do { (ref, _) \<leftarrow> get_smpt_ref_count mic_addr sz;
             let spt = unat (HOSTMIC_PA_TO_SMPT mic_addr)
             in if spt + length ref \<le> length (mic_smpt_tab ctx)
                then Some (ctx\<lparr>mic_smpt_tab := sub_smpt_entry spt ref (mic_smpt_tab ctx)\<rparr>)
                else None })"

definition mic_to_dma_addr :: "mic_ctx \<Rightarrow> u64 \<Rightarrow> u64" where
  "mic_to_dma_addr ctx mic_addr =
     (if \<not> IS_MIC_SYSTEM_ADDR mic_addr then 0
      else smpt_dma_addr (mic_smpt_tab ctx ! unat (HOSTMIC_PA_TO_SMPT mic_addr)) + SMPT_OFFSET mic_addr)"

definition is_syspa :: "u64 \<Rightarrow> bool" where
  "is_syspa pa \<longleftrightarrow> IS_MIC_SYSTEM_ADDR pa"

text \<open>
  Mapping a buffer: \<open>pci\<close> is the DMA address the PCI layer assigns, \<open>None\<close> when it reports an error. The result has
  the address for the card and the PCI mappings undone.
\<close>

definition mic_map_single :: "bool \<Rightarrow> u64 option \<Rightarrow> u64 \<Rightarrow> mic_ctx \<Rightarrow> (u64 \<times> (u64 \<times> u64) list \<times> mic_ctx) option" where
  "mic_map_single pm_ok pci sz ctx =
     (case pci of
        None \<Rightarrow> Some (0, [], ctx)
      | Some dma_addr \<Rightarrow>
          do { (mic_addr, ctx) \<leftarrow> mic_map pm_ok dma_addr sz ctx;
               Some (mic_addr, if mic_addr = 0 then [(dma_addr, sz)] else [], ctx) })"

definition mic_unmap_single :: "u64 \<Rightarrow> u64 \<Rightarrow> mic_ctx \<Rightarrow> ((u64 \<times> u64) list \<times> mic_ctx) option" where
  "mic_unmap_single mic_addr sz ctx =
     (let dma_addr = mic_to_dma_addr ctx mic_addr
      in map_option (\<lambda>ctx. ([(dma_addr, sz)], ctx)) (mic_unmap mic_addr sz ctx))"

definition mic_ctx_map_single :: "bool \<Rightarrow> u64 option \<Rightarrow> u64 \<Rightarrow> mic_ctx \<Rightarrow> (u64 \<times> (u64 \<times> u64) list \<times> mic_ctx) option" where
  "mic_ctx_map_single pm_ok pci sz mic_ctx = mic_map_single pm_ok pci sz mic_ctx"

definition mic_ctx_unmap_single :: "mic_ctx \<Rightarrow> u64 \<Rightarrow> u64 \<Rightarrow> ((u64 \<times> u64) list \<times> mic_ctx) option" where
  "mic_ctx_unmap_single mic_ctx dma_addr sz = mic_unmap_single dma_addr sz mic_ctx"

section \<open>Addresses and 16 GB pages\<close>

abbreviation (input) PG :: nat where "PG \<equiv> 17179869184"

lemma page_and: "unat (x AND MIC_SYSTEM_PAGE_MASK) = unat x mod PG" for x :: u64
proof -
  have "unat (0x400000000 :: u64) = 2 ^ 34" by simp
  from unat_and_pow2_minus_1 [OF this, of x] show ?thesis by simp
qed

lemma unat_and_not: "unat (x AND NOT m) = unat x - unat (x AND m)" for x m :: u64
proof -
  have "(x AND NOT m) AND (x AND m) = 0" "(x AND NOT m) OR (x AND m) = x"
    by (rule bit_word_eqI, auto simp: bit_and_iff bit_or_iff bit_not_iff)+
  then have "(x AND NOT m) + (x AND m) = x" by (simp add: disjunctive_add_eq_or)
  then have "x AND NOT m = x - (x AND m)" by (metis add_diff_cancel_right')
  moreover have "x AND m \<le> x" by (rule word_and_le2)
  ultimately show ?thesis by (simp add: unat_sub word_le_nat_alt)
qed

lemma align_page: "unat (ALIGN x MIC_SYSTEM_PAGE_SIZE) = unat (x + MIC_SYSTEM_PAGE_MASK) - unat (x + MIC_SYSTEM_PAGE_MASK) mod PG"
proof -
  have "MIC_SYSTEM_PAGE_SIZE - 1 = MIC_SYSTEM_PAGE_MASK" by simp
  then show ?thesis unfolding ALIGN_def unat_and_not by (simp only: page_and)
qed

lemma align_low: "unat (SMPT_ALIGN_LOW x) = unat x div PG * PG"
proof -
  have "x - MIC_SYSTEM_PAGE_MASK + MIC_SYSTEM_PAGE_MASK = x" by simp
  then show ?thesis unfolding SMPT_ALIGN_LOW_def align_page by (simp only: minus_mod_eq_div_mult)
qed

lemma unat_page: "unat (drop_bit MIC_SYSTEM_PAGE_SHIFT x) = unat x div PG" for x :: u64
  by (simp add: drop_bit_eq_div unat_div)

text \<open>The next page boundary after an address.\<close>

lemma align_high:
  assumes "unat x div PG * PG + PG < 2 ^ 64"
  shows "unat (SMPT_ALIGN_HIGH (x + 1)) = unat x div PG * PG + PG"
proof -
  have "unat x < unat x div PG * PG + PG" using mod_less_divisor [of PG "unat x"] div_mult_mod_eq [of "unat x" PG] by linarith
  then have "unat x + PG < 2 ^ 64 + PG" using assms by linarith
  have e: "x + 1 + MIC_SYSTEM_PAGE_MASK = x + MIC_SYSTEM_PAGE_SIZE" by simp
  show ?thesis
  proof (cases "unat x + PG < 2 ^ 64")
    case True
    then have w: "unat (x + MIC_SYSTEM_PAGE_SIZE) = unat x + PG" by (simp add: unat_word_ariths)
    have "(unat x + PG) mod PG = unat x mod PG" by simp
    then show ?thesis unfolding SMPT_ALIGN_HIGH_def align_page e w using div_mult_mod_eq [of "unat x" PG] by linarith
  next
    case False
    then have "(unat x + PG) div PG \<ge> 2 ^ 64 div PG" by (intro div_le_mono) linarith
    then have "unat x div PG * PG + PG \<ge> 2 ^ 64" by simp
    then show ?thesis using assms by linarith
  qed
qed

text \<open>The bytes of an address range in a page, and the number of pages it touches.\<close>

definition bytes_in :: "nat \<Rightarrow> nat \<Rightarrow> nat \<Rightarrow> nat" where
  "bytes_in s e p = min e ((p + 1) * PG) - max s (p * PG)"

definition npages :: "nat \<Rightarrow> nat \<Rightarrow> nat" where
  "npages s e = (if s < e then (e - 1) div PG + 1 - s div PG else 0)"

definition page_bytes :: "nat \<Rightarrow> nat \<Rightarrow> nat list" where
  "page_bytes s e = map (\<lambda>k. bytes_in s e (s div PG + k)) [0..<npages s e]"

lemma page_step:
  assumes "s < e"
  defines "s' \<equiv> s div PG * PG + PG"
  shows "s < s'" "s' div PG = s div PG + 1" "npages s e = Suc (npages s' e)"
    "page_bytes s e = (min e s' - s) # page_bytes s' e"
proof -
  have dm: "s div PG * PG + s mod PG = s" by simp
  show ss: "s < s'" using mod_less_divisor [of PG s] dm unfolding s'_def by linarith
  show d: "s' div PG = s div PG + 1" unfolding s'_def by simp
  have le: "s div PG * PG \<le> s" by simp
  show n: "npages s e = Suc (npages s' e)"
  proof (cases "s' < e")
    case True
    then have "s' div PG \<le> (e - 1) div PG" by (intro div_le_mono) simp
    then show ?thesis using True assms(1) by (simp add: npages_def d Suc_diff_le)
  next
    case False
    then have "s div PG \<le> (e - 1) div PG" "(e - 1) div PG < s div PG + 1"
      using assms(1) by (auto intro!: div_le_mono simp: s'_def div_less_iff_less_mult)
    then have "(e - 1) div PG = s div PG" by linarith
    then show ?thesis using False assms(1) by (simp add: npages_def)
  qed
  have "bytes_in s e (s div PG) = min e s' - s" using le by (simp add: bytes_in_def s'_def max_absorb1 add.commute)
  moreover have "bytes_in s e (s div PG + Suc k) = bytes_in s' e (s' div PG + k)" for k
  proof -
    have "s' \<le> (s div PG + Suc k) * PG" by (simp add: s'_def)
    then show ?thesis using ss by (simp add: bytes_in_def d max_def)
  qed
  ultimately show "page_bytes s e = (min e s' - s) # page_bytes s' e"
    unfolding page_bytes_def n by (simp add: upt_conv_Cons map_Suc_upt [symmetric] del: upt_Suc)
qed

lemma ref_loop_spec:
  "unat fin + PG \<le> 2 ^ 64 \<Longrightarrow>
   ref_loop start fin ref =
     (if length ref + npages (unat start) (unat fin) \<le> NUM_SMPT_ENTRIES_IN_USE \<or> \<not> start < fin
      then Some (ref @ map of_nat (page_bytes (unat start) (unat fin))) else None)"
proof (induction start fin ref rule: ref_loop.induct)
  case (1 start fin ref)
  show ?case
  proof (cases "start < fin")
    case False
    then show ?thesis by (simp add: ref_loop.simps [of start] npages_def page_bytes_def word_less_nat_alt)
  next
    case True
    then have lt: "unat start < unat fin" by (simp add: word_less_nat_alt)
    let ?s' = "unat start div PG * PG + PG"
    have "unat start div PG * PG \<le> unat start" by simp
    then have "?s' < 2 ^ 64" using lt "1.prems" by linarith
    note hi = align_high [OF this]
    note st = page_step [OF lt]
    have m: "min (SMPT_ALIGN_HIGH (start + 1)) fin - start = of_nat (min (unat fin) ?s' - unat start)"
    proof -
      have "unat (min (SMPT_ALIGN_HIGH (start + 1)) fin) = min (unat fin) ?s'"
        using hi by (auto simp: min_def word_le_nat_alt)
      moreover have "unat start \<le> min (unat fin) ?s'" using lt st(1) by simp
      ultimately have "unat (min (SMPT_ALIGN_HIGH (start + 1)) fin - start) = min (unat fin) ?s' - unat start"
        by (simp add: unat_sub word_le_nat_alt)
      from arg_cong [OF this, of "of_nat :: nat \<Rightarrow> u64"] show ?thesis by (simp only: of_nat_unat ucast_id)
    qed
    show ?thesis
    proof (cases "length ref < NUM_SMPT_ENTRIES_IN_USE")
      case True
      let ?n = "SMPT_ALIGN_HIGH (start + 1)" and ?x = "min (SMPT_ALIGN_HIGH (start + 1)) fin - start"
      have eq: "ref_loop start fin ref = ref_loop ?n fin (ref @ [?x])"
        using True \<open>start < fin\<close> by (simp add: ref_loop.simps [of start])
      have np: "\<not> ?n < fin \<Longrightarrow> npages (unat ?n) (unat fin) = 0" by (simp add: npages_def word_less_nat_alt)
      have pb: "map of_nat (page_bytes (unat start) (unat fin)) = ?x # map of_nat (page_bytes (unat ?n) (unat fin))"
        unfolding st(4) m hi by simp
      have ih: "ref_loop ?n fin (ref @ [?x]) =
        (if length (ref @ [?x]) + npages (unat ?n) (unat fin) \<le> NUM_SMPT_ENTRIES_IN_USE \<or> \<not> ?n < fin
         then Some ((ref @ [?x]) @ map of_nat (page_bytes (unat ?n) (unat fin))) else None)"
        by (rule "1.IH" [OF \<open>start < fin\<close> True "1.prems"])
      have le: "length (ref @ [?x]) + npages (unat ?n) (unat fin) \<le> NUM_SMPT_ENTRIES_IN_USE \<or> \<not> ?n < fin \<longleftrightarrow>
          length ref + npages (unat start) (unat fin) \<le> NUM_SMPT_ENTRIES_IN_USE"
        using np st(3) hi True by (cases "?n < fin") simp_all
      show ?thesis unfolding eq ih le pb using \<open>start < fin\<close> by simp
    next
      case False
      then show ?thesis using \<open>start < fin\<close> st(3) by (simp add: ref_loop.simps [of start])
    qed
  qed
qed

text \<open>Pages are counted relative to a page boundary.\<close>

lemma bytes_in_shift: "bytes_in (c * PG + x) (c * PG + y) (c + k) = bytes_in x y k"
proof -
  have "min (c * PG + y) ((c + k + 1) * PG) = c * PG + min y ((k + 1) * PG)"
    "max (c * PG + x) ((c + k) * PG) = c * PG + max x (k * PG)"
    by (simp_all add: min_def max_def algebra_simps)
  then show ?thesis unfolding bytes_in_def by simp
qed

lemma bytes_in_before: "p < c \<Longrightarrow> bytes_in (c * PG + x) y p = 0"
proof -
  assume "p < c"
  then have "(p + 1) * PG \<le> c * PG" by (intro mult_le_mono1) simp
  then show ?thesis by (simp add: bytes_in_def)
qed

lemma npages_shift:
  assumes "off < PG" and "0 < s"
  shows "npages (c * PG + off) (c * PG + off + s) = npages off (off + s)"
proof -
  have "c * PG + off + s - 1 = c * PG + (off + s - 1)" using assms by simp
  moreover have "(c * PG + (off + s - 1)) div PG = c + (off + s - 1) div PG" "(c * PG + off) div PG = c + off div PG" by simp_all
  ultimately show ?thesis using assms by (simp add: npages_def)
qed

lemma page_bytes_shift:
  assumes "off < PG" and "0 < s"
  shows "page_bytes (c * PG + off) (c * PG + off + s) = page_bytes off (off + s)"
proof -
  have "(c * PG + off) div PG = c" "off div PG = 0" using assms by simp_all
  then show ?thesis using bytes_in_shift [of c off "off + s"] unfolding page_bytes_def npages_shift [OF assms]
    by (simp add: add.assoc)
qed

lemma page_bytes_nth: "off < PG \<Longrightarrow> k < npages off (off + s) \<Longrightarrow> page_bytes off (off + s) ! k = bytes_in off (off + s) k"
  by (simp add: page_bytes_def)

lemma bytes_in_beyond:
  assumes "off < PG" and "npages off (off + s) \<le> k"
  shows "bytes_in off (off + s) k = 0"
proof (cases "s = 0")
  case False
  then have "(off + s - 1) div PG < k" using assms by (simp add: npages_def)
  then have "off + s - 1 < k * PG" by (simp add: div_less_iff_less_mult)
  then show ?thesis using False by (simp add: bytes_in_def)
qed (simp add: bytes_in_def)

lemma npages_cover:
  assumes "off < PG" and "0 < s"
  shows "off + s \<le> npages off (off + s) * PG"
proof -
  have "off + s - 1 < ((off + s - 1) div PG + 1) * PG"
    using div_mult_mod_eq [of "off + s - 1" PG] mod_less_divisor [of PG "off + s - 1"] unfolding add_mult_distrib by linarith
  then show ?thesis using assms by (simp add: npages_def)
qed

lemma bytes_in_le: "bytes_in a (a + s) p \<le> s"
  by (simp add: bytes_in_def)

lemma bytes_in_pos: "a \<le> x \<Longrightarrow> x < e \<Longrightarrow> 0 < bytes_in a e (x div PG)"
proof -
  assume a: "a \<le> x" "x < e"
  have "x div PG * PG \<le> x" "x < (x div PG + 1) * PG"
    using div_mult_mod_eq [of x PG] mod_less_divisor [of PG x] by (simp_all add: algebra_simps)
  then show ?thesis using a unfolding bytes_in_def by linarith
qed

lemma bytes_in_0: "bytes_in s e p = 0 \<longleftrightarrow> (\<forall>k. s \<le> k \<and> k < e \<longrightarrow> k div PG \<noteq> p)"
proof
  assume "bytes_in s e p = 0"
  then show "\<forall>k. s \<le> k \<and> k < e \<longrightarrow> k div PG \<noteq> p" using bytes_in_pos by fastforce
next
  assume n: "\<forall>k. s \<le> k \<and> k < e \<longrightarrow> k div PG \<noteq> p"
  show "bytes_in s e p = 0"
  proof (rule ccontr)
    assume "bytes_in s e p \<noteq> 0"
    then have m: "max s (p * PG) < min e ((p + 1) * PG)" unfolding bytes_in_def by (simp only: diff_is_0_eq not_le)
    then have "max s (p * PG) div PG = p" by (intro div_nat_eqI) (auto simp: algebra_simps)
    then show False using n m by (metis max.cobounded1 min_less_iff_conj)
  qed
qed

section \<open>Searching the table\<close>

lemma find_existing_found:
  assumes "tab = pre @ es" and "i = length pre" and "ee \<le> i" and "ee < entries"
    and "\<forall>k < ee. smpt_dma_addr (tab ! (i - ee + k)) = base + of_nat k * MIC_SYSTEM_PAGE_SIZE"
    and "addr = base + of_nat ee * MIC_SYSTEM_PAGE_SIZE"
    and "find_existing es i addr ee entries = Found j"
  shows "entries \<le> j + 1 \<and> j < length tab \<and>
    (\<forall>k < entries. smpt_dma_addr (tab ! (j + 1 - entries + k)) = base + of_nat k * MIC_SYSTEM_PAGE_SIZE)"
  using assms
proof (induction es arbitrary: pre i addr ee)
  case (Cons e es)
  have e: "tab ! i = e" using Cons.prems(1,2) by simp
  show ?case
  proof (cases "smpt_dma_addr e = addr")
    case True
    have all: "\<forall>k < ee + 1. smpt_dma_addr (tab ! (i - ee + k)) = base + of_nat k * MIC_SYSTEM_PAGE_SIZE"
    proof (intro allI impI)
      fix k assume "k < ee + 1"
      then consider "k < ee" | "k = ee" by linarith
      then show "smpt_dma_addr (tab ! (i - ee + k)) = base + of_nat k * MIC_SYSTEM_PAGE_SIZE"
        using Cons.prems(3,5,6) True e by cases auto
    qed
    show ?thesis
    proof (cases "ee + 1 = entries")
      case True
      then have "j = i" using Cons.prems(7) \<open>smpt_dma_addr e = addr\<close> by simp
      moreover have "i + 1 - entries = i - ee" using True by simp
      ultimately show ?thesis using all True Cons.prems(1,2,3) by auto
    next
      case False
      show ?thesis
      proof (rule Cons.IH [of "pre @ [e]" "i + 1" "ee + 1" "addr + MIC_SYSTEM_PAGE_SIZE"])
        show "\<forall>k < ee + 1. smpt_dma_addr (tab ! (i + 1 - (ee + 1) + k)) = base + of_nat k * MIC_SYSTEM_PAGE_SIZE"
          using all by simp
      qed (use Cons.prems False \<open>smpt_dma_addr e = addr\<close> in \<open>auto simp: algebra_simps\<close>)
    qed
  next
    case False
    then have "ee = 0" using Cons.prems(4,7) by (auto split: if_splits)
    show ?thesis
      by (rule Cons.IH [of "pre @ [e]" "i + 1" 0 addr]) (use Cons.prems False \<open>ee = 0\<close> in \<open>auto\<close>)
  qed
qed simp

lemma find_free_found:
  assumes "tab = pre @ es" and "i = length pre" and "fe \<le> i" and "fe < entries"
    and "\<forall>k < fe. ref_count (tab ! (i - fe + k)) = 0" and "find_free es i fe entries = Found j"
  shows "entries \<le> j + 1 \<and> j < length tab \<and> (\<forall>k < entries. ref_count (tab ! (j + 1 - entries + k)) = 0)"
  using assms
proof (induction es arbitrary: pre i fe)
  case (Cons e es)
  have e: "tab ! i = e" using Cons.prems(1,2) by simp
  let ?fe = "if ref_count e = 0 then fe + 1 else 0"
  have all: "\<forall>k < ?fe. ref_count (tab ! (i + 1 - ?fe + k)) = 0"
  proof (intro allI impI)
    fix k assume k: "k < ?fe"
    then have z: "ref_count e = 0" by (auto split: if_splits)
    then consider "k < fe" | "k = fe" using k by fastforce
    then show "ref_count (tab ! (i + 1 - ?fe + k)) = 0" using Cons.prems(3,5) z e by cases auto
  qed
  show ?case
  proof (cases "?fe = entries")
    case True
    then have "j = i" using Cons.prems(6) by (simp add: Let_def split: if_splits)
    then show ?thesis using all True Cons.prems(1-4) by (auto split: if_splits)
  next
    case False
    show ?thesis
      by (rule Cons.IH [of "pre @ [e]" "i + 1" ?fe]) (use Cons.prems False all in \<open>auto simp: Let_def split: if_splits\<close>)
  qed
qed simp

section \<open>The state of a board\<close>

text \<open>The registers of a KNC board hold what the table says.\<close>

definition regs_ok :: "mic_ctx \<Rightarrow> bool" where
  "regs_ok ctx \<longleftrightarrow> length (smpt_regs ctx) = NUM_SMPT_ENTRIES_IN_USE \<and> length (mic_smpt_tab ctx) = NUM_SMPT_ENTRIES_IN_USE \<and>
     (bi_family ctx = FAMILY_KNC \<longrightarrow> (\<forall>i < NUM_SMPT_ENTRIES_IN_USE.
        smpt_regs ctx ! i = BUILD_SMPT (drop_bit MIC_SYSTEM_PAGE_SHIFT (smpt_dma_addr (mic_smpt_tab ctx ! i)))))"

definition added :: "u64 \<Rightarrow> u64 \<Rightarrow> mic_smpt \<Rightarrow> mic_smpt" where
  "added addr r e = e\<lparr>smpt_dma_addr := if ref_count e = 0 then addr else smpt_dma_addr e, ref_count := ref_count e + r\<rparr>"

lemma add_smpt_entry_Suc:
  "add_smpt_entry spt ref d (Suc n) ctx = add_smpt_step spt ref d n (add_smpt_entry spt ref d n ctx)"
  by (simp add: add_smpt_entry_def)

lemma add_smpt_entry_spec:
  fixes ref :: "u64 list" and d :: u64
  assumes "spt + n \<le> length (mic_smpt_tab ctx)"
  defines "ctx' \<equiv> add_smpt_entry spt ref d n ctx"
  shows "length (mic_smpt_tab ctx') = length (mic_smpt_tab ctx) \<and> bi_family ctx' = bi_family ctx \<and>
    length (smpt_regs ctx') = length (smpt_regs ctx) \<and>
    (\<forall>i < length (mic_smpt_tab ctx). mic_smpt_tab ctx' ! i =
      (if spt \<le> i \<and> i < spt + n then added (d + of_nat (i - spt) * MIC_SYSTEM_PAGE_SIZE) (ref ! (i - spt)) (mic_smpt_tab ctx ! i)
       else mic_smpt_tab ctx ! i)) \<and> (regs_ok ctx \<longrightarrow> regs_ok ctx')"
  using assms(1) unfolding ctx'_def
proof (induction n)
  case 0
  then show ?case by (auto simp: add_smpt_entry_def)
next
  case (Suc n)
  define c where "c = add_smpt_entry spt ref d n ctx"
  define i where "i = spt + n"
  define addr where "addr = d + of_nat n * MIC_SYSTEM_PAGE_SIZE"
  define e where "e = mic_smpt_tab ctx ! i"
  have ih: "length (mic_smpt_tab c) = length (mic_smpt_tab ctx)" "bi_family c = bi_family ctx"
    "length (smpt_regs c) = length (smpt_regs ctx)" "regs_ok ctx \<Longrightarrow> regs_ok c"
    "\<And>j. j < length (mic_smpt_tab ctx) \<Longrightarrow> mic_smpt_tab c ! j =
      (if spt \<le> j \<and> j < spt + n then added (d + of_nat (j - spt) * MIC_SYSTEM_PAGE_SIZE) (ref ! (j - spt)) (mic_smpt_tab ctx ! j)
       else mic_smpt_tab ctx ! j)"
    using Suc by (auto simp: c_def)
  have i: "i < length (mic_smpt_tab c)" using Suc.prems ih(1) by (simp add: i_def)
  have ce: "mic_smpt_tab c ! i = e" using ih(5) [of i] i ih(1) by (simp add: i_def e_def)
  let ?c' = "add_smpt_entry spt ref d (Suc n) ctx"
  have tab: "mic_smpt_tab ?c' = (mic_smpt_tab c)[i := added addr (ref ! n) e]"
    using i unfolding add_smpt_entry_Suc add_smpt_step_def c_def [symmetric] i_def [symmetric] addr_def [symmetric] Let_def ce
    by (auto simp: added_def ce)
  have oth: "bi_family ?c' = bi_family c" "smpt_regs ?c' = (if ref_count e = 0 \<and> smpt_dma_addr e \<noteq> addr \<and> bi_family c \<noteq> FAMILY_ABR
      then mic_smpt_set (smpt_regs c) addr i else smpt_regs c)"
    unfolding add_smpt_entry_Suc add_smpt_step_def c_def [symmetric] i_def [symmetric] addr_def [symmetric] Let_def ce by simp_all
  have "regs_ok ?c'" if "regs_ok ctx"
    using ih(4) [OF that] i ce unfolding regs_ok_def tab oth
    by (auto simp: mic_smpt_set_def added_def nth_list_update)
  moreover have "\<forall>j < length (mic_smpt_tab ctx). mic_smpt_tab ?c' ! j =
      (if spt \<le> j \<and> j < spt + Suc n then added (d + of_nat (j - spt) * MIC_SYSTEM_PAGE_SIZE) (ref ! (j - spt)) (mic_smpt_tab ctx ! j)
       else mic_smpt_tab ctx ! j)"
    unfolding tab using ih(1,5) i by (auto simp: nth_list_update i_def addr_def e_def)
  ultimately show ?case using tab oth ih by (simp add: mic_smpt_set_def)
qed

text \<open>
  A live mapping is the address handed to the card, the host address and the length. The count of an entry
  is the number of bytes of live mappings in it, and the entries of a live mapping refer to the pages of its host addresses.
\<close>

type_synonym mapping3 = "u64 \<times> u64 \<times> u64"

fun entry_bytes :: "nat \<Rightarrow> mapping3 \<Rightarrow> nat" where
  "entry_bytes i (a, d, s) = bytes_in (unat a) (unat a + unat s) (32 + i)"

fun live_ok :: "mic_smpt list \<Rightarrow> mapping3 \<Rightarrow> bool" where
  "live_ok tab (a, d, s) \<longleftrightarrow> 0 < unat s \<and> 32 * PG \<le> unat a \<and> unat a + unat s \<le> 64 * PG \<and>
     unat a mod PG = unat d mod PG \<and> unat d + unat s + PG \<le> 2 ^ 64 \<and>
     (\<forall>i < NUM_SMPT_ENTRIES_IN_USE. 0 < entry_bytes i (a, d, s) \<longrightarrow> unat a div PG \<le> 32 + i \<and>
        unat (smpt_dma_addr (tab ! i)) = (unat d div PG + (32 + i - unat a div PG)) * PG)"

declare entry_bytes.simps [simp del] live_ok.simps [simp del]

definition live_bytes :: "mapping3 list \<Rightarrow> nat" where
  "live_bytes live = sum_list (map (\<lambda>(a, d, s). unat s) live)"

definition smpt_inv :: "mic_ctx \<Rightarrow> mapping3 list \<Rightarrow> bool" where
  "smpt_inv ctx live \<longleftrightarrow> regs_ok ctx \<and> (\<forall>l \<in> set live. live_ok (mic_smpt_tab ctx) l) \<and> live_bytes live < 2 ^ 64 \<and>
     (\<forall>i < NUM_SMPT_ENTRIES_IN_USE. unat (ref_count (mic_smpt_tab ctx ! i)) = sum_list (map (entry_bytes i) live))"

lemma entry_bytes_le: "entry_bytes i l \<le> unat (snd (snd l))"
  by (cases l) (simp add: entry_bytes.simps bytes_in_le)

lemma sum_entry_bytes_le: "sum_list (map (entry_bytes i) live) \<le> live_bytes live"
  unfolding live_bytes_def by (induction live) (auto intro!: add_mono simp: entry_bytes.simps bytes_in_le)

lemma sum_entry_bytes_mem: "l \<in> set live \<Longrightarrow> entry_bytes i l \<le> sum_list (map (entry_bytes i) live)"
  by (induction live) auto

lemma sum_remove1: "l \<in> set live \<Longrightarrow>
    sum_list (map (entry_bytes i) live) = entry_bytes i l + sum_list (map (entry_bytes i) (remove1 l live))"
  by (rule sum_list_map_remove1)

text \<open>The pieces of a range as \<open>get_smpt_ref_count\<close> computes them.\<close>

lemma get_smpt_ref_count_spec:
  assumes "0 < unat sz" and "unat d + unat sz + PG \<le> 2 ^ 64"
  defines "off \<equiv> unat d mod PG"
  shows "get_smpt_ref_count d sz =
    (if npages off (off + unat sz) \<le> NUM_SMPT_ENTRIES_IN_USE
     then Some (map of_nat (page_bytes off (off + unat sz)), SMPT_ALIGN_LOW d) else None)"
proof -
  have e: "unat (d + sz) = unat d + unat sz" using assms(2) by (simp add: unat_word_ariths)
  have lt: "d < d + sz" using assms(1) e by (simp add: word_less_nat_alt)
  have d: "unat d = unat d div PG * PG + off" by (simp add: off_def)
  have off: "off < PG" by (simp add: off_def)
  have "npages (unat d) (unat d + unat sz) = npages off (off + unat sz)"
    "page_bytes (unat d) (unat d + unat sz) = page_bytes off (off + unat sz)"
    using npages_shift [OF off assms(1), of "unat d div PG"] page_bytes_shift [OF off assms(1), of "unat d div PG"]
    unfolding d [symmetric] by simp_all
  moreover have "unat (d + sz) + PG \<le> 2 ^ 64" using e assms(2) by simp
  ultimately show ?thesis unfolding get_smpt_ref_count_def using ref_loop_spec [of "d + sz" d "[]"] e lt by simp
qed

lemma smpt_op_found:
  assumes len: "length (mic_smpt_tab ctx) = NUM_SMPT_ENTRIES_IN_USE" and n: "0 < n"
    and op: "smpt_op pm d0 n ref ctx = (m, ctx')"
  shows "m = 0 \<and> ctx' = ctx \<or>
    (\<exists>spt. spt + n \<le> NUM_SMPT_ENTRIES_IN_USE \<and> m = SMPT_TO_MIC_PA spt \<and> ctx' = add_smpt_entry spt ref d0 n ctx \<and>
      (\<forall>k < n. ref_count (mic_smpt_tab ctx ! (spt + k)) = 0 \<or>
        smpt_dma_addr (mic_smpt_tab ctx ! (spt + k)) = d0 + of_nat k * MIC_SYSTEM_PAGE_SIZE))"
proof -
  let ?tab = "mic_smpt_tab ctx"
  let ?r = "case find_existing ?tab 0 d0 0 n of Exhausted \<Rightarrow> find_free ?tab 0 0 n | r \<Rightarrow> r"
  have ex: "find_existing ?tab 0 d0 0 n = Found j \<Longrightarrow> n \<le> j + 1 \<and> j < length ?tab \<and>
      (\<forall>k < n. smpt_dma_addr (?tab ! (j + 1 - n + k)) = d0 + of_nat k * MIC_SYSTEM_PAGE_SIZE)" for j
    by (rule find_existing_found [of ?tab "[]" ?tab 0 0 n d0 d0 j]) (use n in auto)
  have fr: "find_free ?tab 0 0 n = Found j \<Longrightarrow> n \<le> j + 1 \<and> j < length ?tab \<and>
      (\<forall>k < n. ref_count (?tab ! (j + 1 - n + k)) = 0)" for j
    by (rule find_free_found [of ?tab "[]" ?tab 0 0 n j]) (use n in auto)
  have found: "n \<le> j + 1 \<and> j < length ?tab \<and> (\<forall>k < n. ref_count (?tab ! (j + 1 - n + k)) = 0 \<or>
        smpt_dma_addr (?tab ! (j + 1 - n + k)) = d0 + of_nat k * MIC_SYSTEM_PAGE_SIZE)" if "?r = Found j" for j
    using that ex [of j] fr [of j] by (auto split: smpt_search.splits)
  have eq: "smpt_op pm d0 n ref ctx = (if pm then (case ?r of
      Found i \<Rightarrow> (SMPT_TO_MIC_PA (i + 1 - n), add_smpt_entry (i + 1 - n) ref d0 n ctx) | _ \<Rightarrow> (0, ctx)) else (0, ctx))"
    unfolding smpt_op_def Let_def by simp
  show ?thesis
  proof (cases "?r")
    case (Found j)
    show ?thesis
    proof (cases pm)
      case True
      then have "m = SMPT_TO_MIC_PA (j + 1 - n)" "ctx' = add_smpt_entry (j + 1 - n) ref d0 n ctx"
        using op unfolding eq Found by auto
      then show ?thesis using found [OF Found] len by (intro disjI2 exI [of _ "j + 1 - n"]) auto
    qed (use op in \<open>simp add: smpt_op_def\<close>)
  qed (use op in \<open>auto simp: eq split: if_splits\<close>)
qed

text \<open>The address of an entry and an offset in it.\<close>

lemma mic_pa:
  assumes "spt < NUM_SMPT_ENTRIES_IN_USE" and "off < PG"
  shows "unat (SMPT_TO_MIC_PA spt + of_nat off) = (32 + spt) * PG + off"
proof -
  have "unat (of_nat spt * MIC_SYSTEM_PAGE_SIZE :: u64) = spt * PG"
    using assms by (simp add: unat_word_ariths unat_of_nat)
  then have "unat (SMPT_TO_MIC_PA spt) = (32 + spt) * PG" using assms
    by (simp add: SMPT_TO_MIC_PA_def unat_word_ariths add_mult_distrib)
  moreover have "unat (of_nat off :: u64) = off" using assms by (simp add: unat_of_nat)
  moreover have "(32 + spt) * PG \<le> 63 * PG" using assms(1) by (intro mult_le_mono1) simp
  ultimately show ?thesis using assms by (subst unat_word_ariths) simp
qed

lemma mic_map_cases:
  assumes len: "length (mic_smpt_tab ctx) = NUM_SMPT_ENTRIES_IN_USE"
    and sz: "0 < unat sz" and no: "unat d + unat sz + PG \<le> 2 ^ 64"
    and op: "mic_map pm d sz ctx = Some (a, ctx')"
  defines "off \<equiv> unat d mod PG"
  defines "n \<equiv> npages off (off + unat sz)"
  shows "a = 0 \<and> ctx' = ctx \<or>
    (\<exists>spt. spt + n \<le> NUM_SMPT_ENTRIES_IN_USE \<and> unat a = (32 + spt) * PG + off \<and>
      ctx' = add_smpt_entry spt (map of_nat (page_bytes off (off + unat sz))) (SMPT_ALIGN_LOW d) n ctx \<and>
      (\<forall>k < n. ref_count (mic_smpt_tab ctx ! (spt + k)) = 0 \<or>
        smpt_dma_addr (mic_smpt_tab ctx ! (spt + k)) = SMPT_ALIGN_LOW d + of_nat k * MIC_SYSTEM_PAGE_SIZE))"
proof -
  let ?ref = "map of_nat (page_bytes off (off + unat sz)) :: u64 list"
  have nz: "sz \<noteq> 0" using sz by auto
  have off: "off < PG" by (simp add: off_def)
  have n: "0 < n" using sz off by (simp add: n_def npages_def)
  have lr: "length ?ref = n" by (simp add: page_bytes_def n_def)
  obtain m c where mc: "smpt_op pm (SMPT_ALIGN_LOW d) n ?ref ctx = (m, c)" by fastforce
  have le: "n \<le> NUM_SMPT_ENTRIES_IN_USE" and res: "a = (if m = 0 then m else m + (d AND MIC_SYSTEM_PAGE_MASK))" "ctx' = c"
    using op nz get_smpt_ref_count_spec [OF sz no, folded off_def, folded n_def] lr mc
    by (auto simp: mic_map_def split: if_splits)
  have dm: "d AND MIC_SYSTEM_PAGE_MASK = of_nat off"
    using arg_cong [OF page_and [of d], of "of_nat :: nat \<Rightarrow> u64"] by (simp only: of_nat_unat ucast_id off_def)
  from smpt_op_found [OF len n mc] show ?thesis
  proof (elim disjE exE)
    assume "m = 0 \<and> c = ctx"
    then show ?thesis using res by simp
  next
    fix spt assume f: "spt + n \<le> NUM_SMPT_ENTRIES_IN_USE \<and> m = SMPT_TO_MIC_PA spt \<and> c = add_smpt_entry spt ?ref (SMPT_ALIGN_LOW d) n ctx \<and>
      (\<forall>k < n. ref_count (mic_smpt_tab ctx ! (spt + k)) = 0 \<or>
        smpt_dma_addr (mic_smpt_tab ctx ! (spt + k)) = SMPT_ALIGN_LOW d + of_nat k * MIC_SYSTEM_PAGE_SIZE)"
    then have spt: "spt < NUM_SMPT_ENTRIES_IN_USE" using n by simp
    have "m \<noteq> 0" using mic_pa [OF spt, of 0] f by auto
    then have "unat a = (32 + spt) * PG + off" using mic_pa [OF spt off] f res dm by simp
    then show ?thesis using f res by blast
  qed
qed

lemma entry_bytes_at:
  assumes "unat a = (32 + spt) * PG + off" and "off < PG"
  shows "entry_bytes i (a, d, s) = (if spt \<le> i then bytes_in off (off + unat s) (i - spt) else 0)"
proof (cases "spt \<le> i")
  case True
  then have "32 + i = (32 + spt) + (i - spt)" by simp
  then show ?thesis using bytes_in_shift [of "32 + spt" off "off + unat s" "i - spt"] True
    by (simp add: entry_bytes.simps assms(1) add.assoc del: add_mult_distrib)
next
  case False
  then show ?thesis using bytes_in_before [of "32 + i" "32 + spt" off] by (simp add: entry_bytes.simps assms(1))
qed

text \<open>
  \<open>mapped_at ctx ctx' a d sz spt\<close>: the range is entered at the entries from \<open>spt\<close> on, each of which was
  unused or referred to the right page already.
\<close>

definition pieces :: "u64 \<Rightarrow> u64 \<Rightarrow> nat list" where
  "pieces d sz = page_bytes (unat d mod PG) (unat d mod PG + unat sz)"

definition mapped_at :: "mic_ctx \<Rightarrow> mic_ctx \<Rightarrow> u64 \<Rightarrow> u64 \<Rightarrow> u64 \<Rightarrow> nat \<Rightarrow> bool" where
  "mapped_at ctx ctx' a d sz spt \<longleftrightarrow>
     spt + length (pieces d sz) \<le> NUM_SMPT_ENTRIES_IN_USE \<and> unat a = (32 + spt) * PG + unat d mod PG \<and>
     (\<forall>i < NUM_SMPT_ENTRIES_IN_USE. mic_smpt_tab ctx' ! i =
        (if spt \<le> i \<and> i < spt + length (pieces d sz)
         then added (SMPT_ALIGN_LOW d + of_nat (i - spt) * MIC_SYSTEM_PAGE_SIZE) (of_nat (pieces d sz ! (i - spt))) (mic_smpt_tab ctx ! i)
         else mic_smpt_tab ctx ! i)) \<and>
     (\<forall>k < length (pieces d sz). ref_count (mic_smpt_tab ctx ! (spt + k)) = 0 \<or>
        smpt_dma_addr (mic_smpt_tab ctx ! (spt + k)) = SMPT_ALIGN_LOW d + of_nat k * MIC_SYSTEM_PAGE_SIZE)"

lemma mic_map_mapped:
  assumes rg: "regs_ok ctx" and sz: "0 < unat sz" and no: "unat d + unat sz + PG \<le> 2 ^ 64"
    and op: "mic_map pm d sz ctx = Some (a, ctx')"
  shows "a = 0 \<and> ctx' = ctx \<or> a \<noteq> 0 \<and> regs_ok ctx' \<and> (\<exists>spt. mapped_at ctx ctx' a d sz spt)"
proof (cases "a = 0 \<and> ctx' = ctx")
  case False
  have len: "length (mic_smpt_tab ctx) = NUM_SMPT_ENTRIES_IN_USE" using rg by (simp add: regs_ok_def)
  have lp: "npages (unat d mod PG) (unat d mod PG + unat sz) = length (pieces d sz)" by (simp add: pieces_def page_bytes_def)
  from False mic_map_cases [OF len sz no op, unfolded lp] obtain spt where
    spt: "spt + length (pieces d sz) \<le> NUM_SMPT_ENTRIES_IN_USE" and ua: "unat a = (32 + spt) * PG + unat d mod PG"
      and ctx': "ctx' = add_smpt_entry spt (map of_nat (pieces d sz)) (SMPT_ALIGN_LOW d) (length (pieces d sz)) ctx"
      and free: "\<forall>k < length (pieces d sz). ref_count (mic_smpt_tab ctx ! (spt + k)) = 0 \<or>
        smpt_dma_addr (mic_smpt_tab ctx ! (spt + k)) = SMPT_ALIGN_LOW d + of_nat k * MIC_SYSTEM_PAGE_SIZE"
    unfolding pieces_def by blast
  have "spt + length (pieces d sz) \<le> length (mic_smpt_tab ctx)" using spt len by simp
  note ad = add_smpt_entry_spec [OF this, of "map of_nat (pieces d sz)" "SMPT_ALIGN_LOW d", folded ctx']
  have "mapped_at ctx ctx' a d sz spt" unfolding mapped_at_def using spt ua free ad len by auto
  moreover have "a \<noteq> 0" using ua by auto
  ultimately show ?thesis using ad rg by blast
qed simp

lemma mapped_entry_bytes:
  assumes m: "mapped_at ctx ctx' a d sz spt"
  shows "entry_bytes i (a, d, sz) = (if spt \<le> i \<and> i < spt + length (pieces d sz) then pieces d sz ! (i - spt) else 0)"
proof -
  let ?off = "unat d mod PG"
  have off: "?off < PG" and ua: "unat a = (32 + spt) * PG + ?off" using m by (simp_all add: mapped_at_def)
  have n: "length (pieces d sz) = npages ?off (?off + unat sz)" by (simp add: pieces_def page_bytes_def)
  then have "i - spt < length (pieces d sz) \<Longrightarrow> pieces d sz ! (i - spt) = bytes_in ?off (?off + unat sz) (i - spt)"
    using page_bytes_nth [OF off, of "i - spt" "unat sz"] by (simp add: pieces_def)
  moreover have "length (pieces d sz) \<le> i - spt \<Longrightarrow> bytes_in ?off (?off + unat sz) (i - spt) = 0"
    using bytes_in_beyond [OF off, of "unat sz" "i - spt"] n by simp
  ultimately show ?thesis using entry_bytes_at [OF ua off, of i d sz] by auto
qed

lemma mapped_counts:
  assumes m: "mapped_at ctx ctx' a d sz spt" and i: "i < NUM_SMPT_ENTRIES_IN_USE"
    and cnt: "unat (ref_count (mic_smpt_tab ctx ! i)) = sum_list (map (entry_bytes i) live)"
    and tot: "live_bytes live + unat sz < 2 ^ 64"
  shows "unat (ref_count (mic_smpt_tab ctx' ! i)) = sum_list (map (entry_bytes i) ((a, d, sz) # live))"
proof -
  let ?l = "(a, d, sz)"
  note eb = mapped_entry_bytes [OF m, of i]
  have at: "mic_smpt_tab ctx' ! i = (if spt \<le> i \<and> i < spt + length (pieces d sz)
         then added (SMPT_ALIGN_LOW d + of_nat (i - spt) * MIC_SYSTEM_PAGE_SIZE) (of_nat (pieces d sz ! (i - spt))) (mic_smpt_tab ctx ! i)
         else mic_smpt_tab ctx ! i)" using m i by (simp add: mapped_at_def)
  have "entry_bytes i ?l \<le> unat sz" using entry_bytes_le [of i ?l] by simp
  then have b: "sum_list (map (entry_bytes i) live) + entry_bytes i ?l < 2 ^ 64"
    using sum_entry_bytes_le [of i live] tot by linarith
  show ?thesis
  proof (cases "spt \<le> i \<and> i < spt + length (pieces d sz)")
    case True
    then have "unat (of_nat (pieces d sz ! (i - spt)) :: u64) = entry_bytes i ?l" using b eb by (simp add: unat_of_nat)
    then show ?thesis using at True cnt b eb by (simp add: added_def unat_word_ariths)
  next
    case False
    then have "entry_bytes i ?l = 0" "mic_smpt_tab ctx' ! i = mic_smpt_tab ctx ! i" using eb at by auto
    then show ?thesis using cnt by simp
  qed
qed

lemma mapped_dma:
  assumes m: "mapped_at ctx ctx' a d sz spt" and sz: "0 < unat sz" and no: "unat d + unat sz + PG \<le> 2 ^ 64"
    and i: "spt \<le> i" "i < spt + length (pieces d sz)"
  shows "unat (smpt_dma_addr (mic_smpt_tab ctx' ! i)) = (unat d div PG + (i - spt)) * PG"
proof -
  let ?k = "i - spt" and ?D = "unat d div PG" and ?off = "unat d mod PG"
  have i32: "i < NUM_SMPT_ENTRIES_IN_USE" and k: "?k < length (pieces d sz)" using i m by (auto simp: mapped_at_def)
  then have "smpt_dma_addr (mic_smpt_tab ctx' ! i) = SMPT_ALIGN_LOW d + of_nat ?k * MIC_SYSTEM_PAGE_SIZE"
    using m i unfolding mapped_at_def by (auto simp: added_def dest!: spec [of _ ?k])
  moreover have "?k * PG \<le> ?off + unat sz - 1"
  proof -
    have "?k \<le> (?off + unat sz - 1) div PG" using k sz by (simp add: pieces_def page_bytes_def npages_def)
    then have "?k * PG \<le> (?off + unat sz - 1) div PG * PG" by (rule mult_le_mono1)
    also have "\<dots> \<le> ?off + unat sz - 1" by simp
    finally show ?thesis .
  qed
  then have b: "?D * PG + ?k * PG < 2 ^ 64" using no sz div_mult_mod_eq [of "unat d" PG] by linarith
  moreover have "unat (of_nat ?k * MIC_SYSTEM_PAGE_SIZE :: u64) = ?k * PG"
    using b i32 by (simp add: unat_word_ariths unat_of_nat)
  ultimately show ?thesis using align_low [of d] by (simp add: unat_word_ariths add_mult_distrib)
qed

lemma mapped_live_ok:
  assumes m: "mapped_at ctx ctx' a d sz spt" and sz: "0 < unat sz" and no: "unat d + unat sz + PG \<le> 2 ^ 64"
  shows "live_ok (mic_smpt_tab ctx') (a, d, sz)"
proof -
  let ?off = "unat d mod PG" and ?n = "length (pieces d sz)"
  have ua: "unat a = (32 + spt) * PG + ?off" and spt: "spt + ?n \<le> NUM_SMPT_ENTRIES_IN_USE" using m by (simp_all add: mapped_at_def)
  have "((32 + spt) * PG + ?off) mod PG = ?off" by (simp only: mod_mult_self3 mod_mod_trivial)
  then have dv: "unat a div PG = 32 + spt" "unat a mod PG = ?off" "32 * PG \<le> unat a" using ua by simp_all
  have "(?off + unat sz - 1) div PG < ?n" using sz by (simp add: pieces_def page_bytes_def npages_def)
  then have "?off + unat sz - 1 < ?n * PG" by (simp add: div_less_iff_less_mult)
  moreover have "(32 + spt + ?n) * PG \<le> 64 * PG" by (rule mult_le_mono1) (use spt in simp)
  then have "(32 + spt) * PG + ?n * PG \<le> 64 * PG" by (simp only: add_mult_distrib)
  ultimately have "unat a + unat sz \<le> 64 * PG" using ua sz by linarith
  then show ?thesis using sz no dv mapped_dma [OF m sz no] mapped_entry_bytes [OF m]
    by (auto simp: live_ok.simps)
qed

text \<open>What is mapped already stays where it is.\<close>

lemma mapped_keeps:
  assumes m: "mapped_at ctx ctx' a d sz spt" and l: "l \<in> set live" "live_ok (mic_smpt_tab ctx) l"
    and cnt: "\<forall>i < NUM_SMPT_ENTRIES_IN_USE. unat (ref_count (mic_smpt_tab ctx ! i)) = sum_list (map (entry_bytes i) live)"
  shows "live_ok (mic_smpt_tab ctx') l"
proof -
  obtain a2 d2 s2 where l2: "l = (a2, d2, s2)" by (cases l)
  have "smpt_dma_addr (mic_smpt_tab ctx' ! i) = smpt_dma_addr (mic_smpt_tab ctx ! i)"
    if "i < NUM_SMPT_ENTRIES_IN_USE" "0 < entry_bytes i l" for i
  proof -
    have "0 < unat (ref_count (mic_smpt_tab ctx ! i))" using cnt that sum_entry_bytes_mem [OF l(1), of i] by auto
    then have "ref_count (mic_smpt_tab ctx ! i) \<noteq> 0" by (simp add: unat_gt_0)
    then show ?thesis using m that(1) by (simp add: mapped_at_def added_def)
  qed
  then show ?thesis using l(2) unfolding l2 live_ok.simps by metis
qed

lemma smpt_inv_map:
  assumes inv: "smpt_inv ctx live" and sz: "0 < unat sz" and no: "unat d + unat sz + PG \<le> 2 ^ 64"
    and tot: "live_bytes live + unat sz < 2 ^ 64" and op: "mic_map pm d sz ctx = Some (a, ctx')"
  shows "smpt_inv ctx' (if a = 0 then live else (a, d, sz) # live)"
proof (cases "a = 0 \<and> ctx' = ctx")
  case True
  then show ?thesis using inv by simp
next
  case False
  have rg: "regs_ok ctx" using inv by (simp add: smpt_inv_def)
  from False mic_map_mapped [OF rg sz no op] obtain spt where
    a: "a \<noteq> 0" "regs_ok ctx'" and m: "mapped_at ctx ctx' a d sz spt" by blast
  have "live_bytes ((a, d, sz) # live) < 2 ^ 64" using tot by (simp add: live_bytes_def)
  moreover have "\<forall>i < NUM_SMPT_ENTRIES_IN_USE. unat (ref_count (mic_smpt_tab ctx' ! i)) = sum_list (map (entry_bytes i) ((a, d, sz) # live))"
    using inv mapped_counts [OF m _ _ tot] unfolding smpt_inv_def by blast
  moreover have "\<forall>l \<in> set ((a, d, sz) # live). live_ok (mic_smpt_tab ctx') l"
    using inv mapped_live_ok [OF m sz no] mapped_keeps [OF m, of _ live] unfolding smpt_inv_def by auto
  ultimately show ?thesis using a unfolding smpt_inv_def by auto
qed

text \<open>Unmapping a live range.\<close>

lemma sub_smpt_entry_spec:
  assumes "spt + n \<le> length tab"
  shows "length (fold (\<lambda>k tab. tab[spt + k := (tab ! (spt + k))\<lparr>ref_count := ref_count (tab ! (spt + k)) - ref ! k\<rparr>]) [0..<n] tab) = length tab \<and>
    (\<forall>i < length tab. fold (\<lambda>k tab. tab[spt + k := (tab ! (spt + k))\<lparr>ref_count := ref_count (tab ! (spt + k)) - ref ! k\<rparr>]) [0..<n] tab ! i =
      (if spt \<le> i \<and> i < spt + n then (tab ! i)\<lparr>ref_count := ref_count (tab ! i) - ref ! (i - spt)\<rparr> else tab ! i))"
  using assms by (induction n) (auto simp: nth_list_update)

lemma system_addr:
  assumes "32 * PG \<le> unat a" and "unat a < 64 * PG"
  shows "IS_MIC_SYSTEM_ADDR a" and "unat (HOSTMIC_PA_TO_SMPT a) = unat a div PG - 32"
proof -
  have b: "unat MIC_SYSTEM_BASE = 32 * PG" by simp
  have le: "MIC_SYSTEM_BASE \<le> a" using assms(1) by (simp add: word_le_nat_alt)
  show "IS_MIC_SYSTEM_ADDR a" using assms by (simp add: IS_MIC_SYSTEM_ADDR_def word_le_nat_alt)
  have "unat (a - MIC_SYSTEM_BASE) = unat a - 32 * PG" using le b by (simp add: unat_sub)
  then show "unat (HOSTMIC_PA_TO_SMPT a) = unat a div PG - 32"
    unfolding HOSTMIC_PA_TO_SMPT_def using assms(1) div_mult_self1_is_m [of PG 32]
    by (simp add: drop_bit_eq_div unat_div)
qed

lemma live_ok_dma:
  assumes "\<And>i. i < NUM_SMPT_ENTRIES_IN_USE \<Longrightarrow> smpt_dma_addr (tab' ! i) = smpt_dma_addr (tab ! i)"
  shows "live_ok tab' m \<longleftrightarrow> live_ok tab m"
  by (cases m) (simp only: live_ok.simps assms cong: imp_cong)

lemma smpt_inv_unmap:
  assumes inv: "smpt_inv ctx live" and l: "(a, d, sz) \<in> set live"
  shows "\<exists>ctx'. mic_unmap a sz ctx = Some ctx' \<and> smpt_inv ctx' (remove1 (a, d, sz) live)"
proof -
  let ?tab = "mic_smpt_tab ctx" and ?l = "(a, d, sz)"
  define off spt n where "off = unat a mod PG" and "spt = unat a div PG - 32" and "n = npages off (off + unat sz)"
  have ok: "0 < unat sz" "32 * PG \<le> unat a" "unat a + unat sz \<le> 64 * PG"
    using inv l by (auto simp: smpt_inv_def live_ok.simps)
  have len: "length ?tab = NUM_SMPT_ENTRIES_IN_USE" using inv by (auto simp: smpt_inv_def regs_ok_def)
  have d32: "32 \<le> unat a div PG" using ok(2) by (simp add: less_eq_div_iff_mult_less_eq)
  have ua: "unat a = (32 + spt) * PG + off" and off: "off < PG" using d32 by (simp_all add: spt_def off_def)
  have "off + unat sz \<le> (32 - spt) * PG" using ua ok(3) by (simp add: diff_mult_distrib)
  then have "(off + unat sz - 1) div PG < 32 - spt" using ok(1) by (simp add: div_less_iff_less_mult)
  then have nspt: "spt + n \<le> NUM_SMPT_ENTRIES_IN_USE" using ok(1) off by (simp add: n_def npages_def)
  let ?B = "page_bytes off (off + unat sz)" let ?ref = "map of_nat ?B :: u64 list"
  let ?tab' = "sub_smpt_entry spt ?ref ?tab"
  have lB: "length ?B = n" by (simp add: page_bytes_def n_def)
  have "unat a + unat sz + PG \<le> 2 ^ 64" using ok(3) by simp
  from get_smpt_ref_count_spec [OF ok(1) this, folded off_def, folded n_def] nspt
  have rf: "get_smpt_ref_count a sz = Some (?ref, SMPT_ALIGN_LOW a)" by simp
  have um: "mic_unmap a sz ctx = Some (ctx\<lparr>mic_smpt_tab := ?tab'\<rparr>)"
    using rf system_addr [of a] ok nspt len lB by (auto simp: mic_unmap_def spt_def Let_def)
  have "spt + n \<le> length ?tab" using nspt len by simp
  note su = sub_smpt_entry_spec [OF this, of ?ref]
  have t: "length ?tab' = length ?tab" "\<And>i. i < NUM_SMPT_ENTRIES_IN_USE \<Longrightarrow> ?tab' ! i =
      (if spt \<le> i \<and> i < spt + n then (?tab ! i)\<lparr>ref_count := ref_count (?tab ! i) - ?ref ! (i - spt)\<rparr> else ?tab ! i)"
    using su len lB by (auto simp: sub_smpt_entry_def)
  have dma: "smpt_dma_addr (?tab' ! i) = smpt_dma_addr (?tab ! i)" if "i < NUM_SMPT_ENTRIES_IN_USE" for i using t(2) [OF that] by simp
  have eb: "entry_bytes i ?l = (if spt \<le> i \<and> i < spt + n then ?B ! (i - spt) else 0)" for i
    using entry_bytes_at [OF ua off, of i d sz] bytes_in_beyond [OF off, of "unat sz" "i - spt"]
      page_bytes_nth [OF off, of "i - spt" "unat sz"] unfolding n_def by (cases "i - spt < npages off (off + unat sz)") auto
  have cnt: "unat (ref_count (?tab' ! i)) = sum_list (map (entry_bytes i) (remove1 ?l live))" if i: "i < NUM_SMPT_ENTRIES_IN_USE" for i
  proof -
    have c: "unat (ref_count (?tab ! i)) = entry_bytes i ?l + sum_list (map (entry_bytes i) (remove1 ?l live))"
      using inv i sum_remove1 [OF l, of i] by (simp add: smpt_inv_def)
    show ?thesis
    proof (cases "spt \<le> i \<and> i < spt + n")
      case True
      have "entry_bytes i ?l < 2 ^ 64" using c unat_less_pow [of "ref_count (?tab ! i)"] by simp
      moreover have "i - spt < length ?B" using True lB by linarith
      ultimately have "unat (?ref ! (i - spt)) = entry_bytes i ?l" using True eb [of i] by (simp add: unat_of_nat)
      then show ?thesis using t(2) [OF i] True c by (simp add: unat_sub word_le_nat_alt)
    next
      case False
      then show ?thesis using t(2) [OF i] eb [of i] c by (simp only: if_not_P if_False add_0)
    qed
  qed
  have "live_bytes (remove1 ?l live) \<le> live_bytes live"
    using sum_list_map_remove1 [OF l, of "\<lambda>(a, d, s). unat s"] by (simp add: live_bytes_def)
  moreover have "live_ok ?tab' m" if "m \<in> set (remove1 ?l live)" for m
  proof -
    have "m \<in> set live" using that by (rule set_remove1_subset [THEN subsetD])
    then have "live_ok ?tab m" using inv by (simp add: smpt_inv_def)
    then show ?thesis using live_ok_dma [of ?tab' ?tab m] dma by blast
  qed
  ultimately have "smpt_inv (ctx\<lparr>mic_smpt_tab := ?tab'\<rparr>) (remove1 ?l live)"
    using inv cnt dma t(1) by (auto simp: smpt_inv_def regs_ok_def)
  then show ?thesis using um by blast
qed

text \<open>Setting the table up, and writing the registers again.\<close>

definition reg_of :: "mic_smpt \<Rightarrow> u32" where
  "reg_of e = BUILD_SMPT (drop_bit MIC_SYSTEM_PAGE_SHIFT (smpt_dma_addr e))"

definition identity_entry :: "nat \<Rightarrow> mic_smpt" where
  "identity_entry i = \<lparr>smpt_dma_addr = of_nat i * MIC_SYSTEM_PAGE_SIZE, ref_count = 0\<rparr>"

lemma restore_steps:
  fixes ctx :: mic_ctx and n :: nat
  defines "ctx' \<equiv> fold smpt_restore_step [0..<n] ctx"
  assumes "n \<le> length (smpt_regs ctx)"
  shows "mic_smpt_tab ctx' = mic_smpt_tab ctx" and "bi_family ctx' = bi_family ctx"
    and "length (smpt_regs ctx') = length (smpt_regs ctx)"
    and "bi_family ctx = FAMILY_KNC \<Longrightarrow> i < n \<Longrightarrow> smpt_regs ctx' ! i = reg_of (mic_smpt_tab ctx ! i)"
proof -
  have "mic_smpt_tab ctx' = mic_smpt_tab ctx \<and> bi_family ctx' = bi_family ctx \<and>
    length (smpt_regs ctx') = length (smpt_regs ctx) \<and>
    (bi_family ctx = FAMILY_KNC \<longrightarrow> (\<forall>i < n. smpt_regs ctx' ! i = reg_of (mic_smpt_tab ctx ! i)))"
    using assms(2) unfolding ctx'_def
    by (induction n) (auto simp: smpt_restore_step_def Let_def reg_of_def nth_list_update less_Suc_eq)
  then show "mic_smpt_tab ctx' = mic_smpt_tab ctx" "bi_family ctx' = bi_family ctx"
    "length (smpt_regs ctx') = length (smpt_regs ctx)"
    "bi_family ctx = FAMILY_KNC \<Longrightarrow> i < n \<Longrightarrow> smpt_regs ctx' ! i = reg_of (mic_smpt_tab ctx ! i)" by auto
qed

lemma init_steps:
  fixes ctx :: mic_ctx and n :: nat
  defines "ctx' \<equiv> fold smpt_init_step [0..<n] (ctx\<lparr>mic_smpt_tab := []\<rparr>)"
  assumes "n \<le> length (smpt_regs ctx)"
  shows "mic_smpt_tab ctx' = map identity_entry [0..<n]" and "bi_family ctx' = bi_family ctx"
    and "length (smpt_regs ctx') = length (smpt_regs ctx)"
    and "bi_family ctx = FAMILY_KNC \<Longrightarrow> i < n \<Longrightarrow> smpt_regs ctx' ! i = reg_of (identity_entry i)"
proof -
  have "mic_smpt_tab ctx' = map identity_entry [0..<n] \<and> bi_family ctx' = bi_family ctx \<and>
    length (smpt_regs ctx') = length (smpt_regs ctx) \<and>
    (bi_family ctx = FAMILY_KNC \<longrightarrow> (\<forall>i < n. smpt_regs ctx' ! i = reg_of (identity_entry i)))"
    using assms(2) unfolding ctx'_def
    by (induction n) (auto simp: smpt_init_step_def Let_def reg_of_def identity_entry_def nth_list_update less_Suc_eq)
  then show "mic_smpt_tab ctx' = map identity_entry [0..<n]" "bi_family ctx' = bi_family ctx"
    "length (smpt_regs ctx') = length (smpt_regs ctx)"
    "bi_family ctx = FAMILY_KNC \<Longrightarrow> i < n \<Longrightarrow> smpt_regs ctx' ! i = reg_of (identity_entry i)" by auto
qed

lemma smpt_inv_init:
  assumes "length (smpt_regs ctx) = NUM_SMPT_ENTRIES_IN_USE"
  shows "smpt_inv (mic_smpt_init ctx) []"
proof -
  note st = init_steps [of NUM_SMPT_ENTRIES_IN_USE ctx, folded mic_smpt_init_def]
  have "regs_ok (mic_smpt_init ctx)" unfolding regs_ok_def using st assms by (simp add: reg_of_def)
  moreover have "ref_count (mic_smpt_tab (mic_smpt_init ctx) ! i) = 0" if "i < NUM_SMPT_ENTRIES_IN_USE" for i
    using st(1) assms that by (simp add: identity_entry_def)
  ultimately show ?thesis by (simp add: smpt_inv_def live_bytes_def)
qed

lemma smpt_inv_restore:
  assumes "smpt_inv ctx live" and "length regs = NUM_SMPT_ENTRIES_IN_USE"
  shows "smpt_inv (mic_smpt_restore (ctx\<lparr>smpt_regs := regs\<rparr>)) live"
proof -
  note st = restore_steps [of NUM_SMPT_ENTRIES_IN_USE "ctx\<lparr>smpt_regs := regs\<rparr>", folded mic_smpt_restore_def]
  show ?thesis using assms st by (simp add: smpt_inv_def regs_ok_def reg_of_def)
qed

section \<open>The mappings of a board\<close>

text \<open>
  The states of a board together with the mappings its clients hold: the table is set up once, ranges are mapped and
  unmapped, and the registers are written again after the card was reset. A client maps a non-empty range that
  ends below the last 16 GB page of the address space, and the mapped bytes of all clients stay below \<open>2 ^ 64\<close>.
\<close>

inductive smpt_reach :: "mic_ctx \<Rightarrow> mapping3 list \<Rightarrow> bool" where
  init: "length (smpt_regs ctx) = NUM_SMPT_ENTRIES_IN_USE \<Longrightarrow> smpt_reach (mic_smpt_init ctx) []"
| mapped: "smpt_reach ctx live \<Longrightarrow> 0 < unat sz \<Longrightarrow> unat d + unat sz + PG \<le> 2 ^ 64 \<Longrightarrow>
    live_bytes live + unat sz < 2 ^ 64 \<Longrightarrow> mic_map pm d sz ctx = Some (a, ctx') \<Longrightarrow> a \<noteq> 0 \<Longrightarrow>
    smpt_reach ctx' ((a, d, sz) # live)"
| unmapped: "smpt_reach ctx live \<Longrightarrow> (a, d, sz) \<in> set live \<Longrightarrow> mic_unmap a sz ctx = Some ctx' \<Longrightarrow>
    smpt_reach ctx' (remove1 (a, d, sz) live)"
| restored: "smpt_reach ctx live \<Longrightarrow> length regs = NUM_SMPT_ENTRIES_IN_USE \<Longrightarrow>
    smpt_reach (mic_smpt_restore (ctx\<lparr>smpt_regs := regs\<rparr>)) live"

lemma smpt_reach_inv: "smpt_reach ctx live \<Longrightarrow> smpt_inv ctx live"
proof (induction rule: smpt_reach.induct)
  case (mapped ctx live sz d pm a ctx')
  then show ?case using smpt_inv_map [of ctx live sz d pm a ctx'] by simp
next
  case (unmapped ctx live a d sz ctx')
  then show ?case using smpt_inv_unmap [of ctx live a d sz] by auto
qed (simp_all add: smpt_inv_init smpt_inv_restore)

lemma same_offset:
  fixes x y k :: nat
  assumes "x mod PG = y mod PG"
  shows "(y + k) div PG = y div PG + ((x + k) div PG - x div PG)" and "(y + k) mod PG = (x + k) mod PG"
proof -
  have d: "(z + k) div PG = z div PG + (z mod PG + k) div PG" for z
  proof -
    have "z + k = (z mod PG + k) + z div PG * PG" by simp
    then show ?thesis by (metis div_mult_self1 zero_neq_numeral)
  qed
  show "(y + k) div PG = y div PG + ((x + k) div PG - x div PG)" using d [of x] d [of y] assms by simp
  show "(y + k) mod PG = (x + k) mod PG" using assms by (metis mod_add_cong)
qed

lemma live_translation:
  assumes inv: "smpt_inv ctx live" and l: "(a, d, sz) \<in> set live" and k: "k < unat sz"
  defines "spt \<equiv> (unat a + k) div PG - 32"
  shows "spt < NUM_SMPT_ENTRIES_IN_USE" and "IS_MIC_SYSTEM_ADDR (a + of_nat k)"
    and "unat (HOSTMIC_PA_TO_SMPT (a + of_nat k)) = spt"
    and "unat (smpt_dma_addr (mic_smpt_tab ctx ! spt)) = (unat d + k) div PG * PG"
    and "mic_to_dma_addr ctx (a + of_nat k) = d + of_nat k"
proof -
  have "live_ok (mic_smpt_tab ctx) (a, d, sz)" using inv l by (simp add: smpt_inv_def)
  then have ok: "32 * PG \<le> unat a" "unat a + unat sz \<le> 64 * PG" "unat a mod PG = unat d mod PG" "unat d + unat sz + PG \<le> 2 ^ 64"
    and ent: "\<And>i. i < NUM_SMPT_ENTRIES_IN_USE \<Longrightarrow> 0 < entry_bytes i (a, d, sz) \<Longrightarrow> unat a div PG \<le> 32 + i \<and>
        unat (smpt_dma_addr (mic_smpt_tab ctx ! i)) = (unat d div PG + (32 + i - unat a div PG)) * PG"
    unfolding live_ok.simps by blast+
  have ua: "unat (a + of_nat k) = unat a + k" and ud: "unat (d + of_nat k) = unat d + k"
    using ok k by (simp_all add: unat_word_ariths unat_of_nat)
  have b: "32 * PG \<le> unat a + k" "unat a + k < 64 * PG" using ok k by linarith+
  then have p: "32 \<le> (unat a + k) div PG" "(unat a + k) div PG < 64"
    by (simp_all add: less_eq_div_iff_mult_less_eq div_less_iff_less_mult)
  then show s: "spt < NUM_SMPT_ENTRIES_IN_USE" by (simp add: spt_def)
  show sys: "IS_MIC_SYSTEM_ADDR (a + of_nat k)" and spt: "unat (HOSTMIC_PA_TO_SMPT (a + of_nat k)) = spt"
    using system_addr [of "a + of_nat k"] b unfolding ua spt_def by auto
  have "0 < entry_bytes spt (a, d, sz)"
    using bytes_in_pos [of "unat a" "unat a + k" "unat a + unat sz"] k p by (simp add: entry_bytes.simps spt_def)
  note e = ent [OF s this]
  have same: "(unat d + k) div PG = unat d div PG + ((unat a + k) div PG - unat a div PG)" "(unat d + k) mod PG = (unat a + k) mod PG"
    using same_offset [OF ok(3)] by blast+
  show d: "unat (smpt_dma_addr (mic_smpt_tab ctx ! spt)) = (unat d + k) div PG * PG"
    using e p same(1) by (simp add: spt_def)
  have "unat (SMPT_OFFSET (a + of_nat k)) = (unat d + k) mod PG" unfolding SMPT_OFFSET_def page_and ua same(2) by (rule refl)
  then have "unat (smpt_dma_addr (mic_smpt_tab ctx ! spt) + SMPT_OFFSET (a + of_nat k)) = unat (d + of_nat k)"
    unfolding ud using d ok(4) k by (simp add: unat_word_ariths)
  then have "smpt_dma_addr (mic_smpt_tab ctx ! spt) + SMPT_OFFSET (a + of_nat k) = d + of_nat k" by (simp only: word_unat_eq_iff)
  then show "mic_to_dma_addr ctx (a + of_nat k) = d + of_nat k" using sys spt by (simp add: mic_to_dma_addr_def)
qed

lemma counts_empty: "smpt_inv ctx [] \<Longrightarrow> i < NUM_SMPT_ENTRIES_IN_USE \<Longrightarrow> ref_count (mic_smpt_tab ctx ! i) = 0"
  by (simp add: smpt_inv_def unat_eq_0)

lemma find_existing_identity:
  assumes "j \<le> p" and "p + n \<le> NUM_SMPT_ENTRIES_IN_USE" and "0 < n"
  shows "find_existing (map identity_entry [j..<NUM_SMPT_ENTRIES_IN_USE]) j (of_nat p * MIC_SYSTEM_PAGE_SIZE) 0 n = Found (p + n - 1)"
  using assms
proof (induction "p - j" arbitrary: j)
  case 0
  have run: "find_existing (map identity_entry [i..<NUM_SMPT_ENTRIES_IN_USE]) i (of_nat i * MIC_SYSTEM_PAGE_SIZE) e (e + m) = Found (i + m - 1)"
    if "0 < m" "i + m \<le> NUM_SMPT_ENTRIES_IN_USE" for i e m using that
  proof (induction m arbitrary: i e)
    case (Suc m)
    have "of_nat i * MIC_SYSTEM_PAGE_SIZE + MIC_SYSTEM_PAGE_SIZE = of_nat (Suc i) * MIC_SYSTEM_PAGE_SIZE" by (simp add: algebra_simps)
    then show ?case using Suc.prems Suc.IH [of "Suc i" "Suc e"]
      by (cases m) (auto simp: upt_conv_Cons identity_entry_def simp del: upt_Suc of_nat_Suc)
  qed simp
  from 0 have "j = p" by simp
  then show ?case using run [of n p 0] 0 by simp
next
  case (Suc x)
  then have j: "j < p" "j < NUM_SMPT_ENTRIES_IN_USE" "x = p - Suc j" by linarith+
  have "of_nat j * MIC_SYSTEM_PAGE_SIZE \<noteq> of_nat p * MIC_SYSTEM_PAGE_SIZE"
  proof
    assume "of_nat j * MIC_SYSTEM_PAGE_SIZE = of_nat p * MIC_SYSTEM_PAGE_SIZE"
    then have "unat (of_nat j * MIC_SYSTEM_PAGE_SIZE) = unat (of_nat p * MIC_SYSTEM_PAGE_SIZE)" by simp
    then show False using j Suc.prems by (simp add: unat_word_ariths unat_of_nat)
  qed
  then show ?case using Suc.hyps(1) [OF j(3)] Suc.prems j by (simp add: upt_conv_Cons identity_entry_def del: upt_Suc)
qed

lemma identity_address:
  assumes "unat d < 32 * PG"
  shows "SMPT_TO_MIC_PA (unat d div PG) + (d AND MIC_SYSTEM_PAGE_MASK) = MIC_SYSTEM_BASE + d"
proof -
  have "of_nat (unat d div PG) * MIC_SYSTEM_PAGE_SIZE + (d AND MIC_SYSTEM_PAGE_MASK) = of_nat (unat d div PG * PG + unat d mod PG)"
    by (subst page_and [symmetric]) (simp only: of_nat_add of_nat_mult of_nat_unat ucast_id of_nat_numeral)
  then show ?thesis unfolding SMPT_TO_MIC_PA_def by (simp only: div_mult_mod_eq of_nat_unat ucast_id add.assoc)
qed

text \<open>After the table was set up, a range below 512 GB is reached through the identity entries.\<close>

lemma mic_map_init:
  assumes "length (smpt_regs ctx) = NUM_SMPT_ENTRIES_IN_USE" and sz: "0 < unat sz" and b: "unat d + unat sz \<le> 32 * PG"
  shows "\<exists>ctx'. mic_map True d sz (mic_smpt_init ctx) = Some (MIC_SYSTEM_BASE + d, ctx')"
proof -
  define off p n where "off = unat d mod PG" and "p = unat d div PG" and "n = npages off (off + unat sz)"
  have d: "unat d = p * PG + off" and off: "off < PG" by (simp_all add: off_def p_def)
  have "off + unat sz \<le> (32 - p) * PG" using b unfolding d by (simp add: diff_mult_distrib)
  then have "(off + unat sz - 1) div PG < 32 - p" using sz by (simp add: div_less_iff_less_mult)
  then have pn: "p + n \<le> NUM_SMPT_ENTRIES_IN_USE" and n: "0 < n" using off sz by (simp_all add: n_def npages_def)
  have "unat d + unat sz + PG \<le> 2 ^ 64" using b by simp
  from get_smpt_ref_count_spec [OF sz this, folded off_def, folded n_def] pn
  have rf: "get_smpt_ref_count d sz = Some (map of_nat (page_bytes off (off + unat sz)), SMPT_ALIGN_LOW d)" by simp
  have low: "SMPT_ALIGN_LOW d = of_nat p * MIC_SYSTEM_PAGE_SIZE"
  proof -
    have "unat (of_nat p * MIC_SYSTEM_PAGE_SIZE :: u64) = p * PG" using pn by (simp add: unat_word_ariths unat_of_nat)
    then show ?thesis using align_low [of d] unfolding p_def by (simp only: word_unat_eq_iff)
  qed
  have tab: "mic_smpt_tab (mic_smpt_init ctx) = map identity_entry [0..<NUM_SMPT_ENTRIES_IN_USE]"
    using init_steps(1) [of NUM_SMPT_ENTRIES_IN_USE ctx, folded mic_smpt_init_def] assms(1) by simp
  have "find_existing (mic_smpt_tab (mic_smpt_init ctx)) 0 (SMPT_ALIGN_LOW d) 0 n = Found (p + n - 1)"
    unfolding tab low by (rule find_existing_identity [OF _ pn n]) simp
  moreover have "p + n - 1 + 1 - n = p" using n by simp
  moreover have "length (map of_nat (page_bytes off (off + unat sz)) :: u64 list) = n" by (simp add: page_bytes_def n_def)
  moreover have "SMPT_TO_MIC_PA p \<noteq> 0" using mic_pa [of p 0] pn n by (auto simp: unat_eq_0 [symmetric])
  moreover have "unat d < 32 * PG" using b sz by linarith
  moreover have "sz \<noteq> 0" using sz by auto
  ultimately show ?thesis using rf identity_address [of d, folded p_def]
    by (simp add: mic_map_def smpt_op_def Let_def)
qed

text \<open>The search ends without a result when the first match of the first page is not followed by the second page.\<close>

lemma find_existing_broken:
  assumes "\<forall>x \<in> set pre. smpt_dma_addr x \<noteq> addr" and "smpt_dma_addr e = addr"
    and "smpt_dma_addr e' \<noteq> addr + MIC_SYSTEM_PAGE_SIZE" and "1 < n"
  shows "find_existing (pre @ e # e' # rest) j addr 0 n = NotFound"
  using assms by (induction pre arbitrary: j) auto

section \<open>Properties\<close>

text \<open>C6. Through the table a card sees exactly the host memory that was mapped: in every reachable state of a board, an
  address at offset \<open>k\<close> of a live mapping is in the system window and is translated to the host address at offset
  \<open>k\<close>, whatever was mapped and unmapped in between; and on a KNC board the register that the hardware consults for that
  address holds the page of this host address.\<close>

theorem smpt_translation:
  assumes reach: "smpt_reach ctx live" and l: "(a, d, sz) \<in> set live" and k: "k < unat sz"
  shows "IS_MIC_SYSTEM_ADDR (a + of_nat k) \<and> mic_to_dma_addr ctx (a + of_nat k) = d + of_nat k \<and>
    (bi_family ctx = FAMILY_KNC \<longrightarrow>
      smpt_regs ctx ! unat (HOSTMIC_PA_TO_SMPT (a + of_nat k)) = BUILD_SMPT (drop_bit MIC_SYSTEM_PAGE_SHIFT (d + of_nat k)))"
proof -
  note inv = smpt_reach_inv [OF reach]
  note tr = live_translation [OF inv l k]
  have "unat d + k < 2 ^ 64" using inv l k by (fastforce simp: smpt_inv_def live_ok.simps)
  then have ud: "unat (d + of_nat k) = unat d + k" by (simp add: unat_word_ariths unat_of_nat)
  have "drop_bit MIC_SYSTEM_PAGE_SHIFT (smpt_dma_addr (mic_smpt_tab ctx ! ((unat a + k) div PG - 32))) = drop_bit MIC_SYSTEM_PAGE_SHIFT (d + of_nat k)"
    by (simp only: word_unat_eq_iff unat_page tr(4) ud div_mult_self_is_m zero_less_numeral)
  then show ?thesis using inv tr by (simp add: smpt_inv_def regs_ok_def)
qed

definition board :: mic_ctx where
  "board = \<lparr>bi_family = FAMILY_KNC, mic_smpt_tab = [], smpt_regs = replicate 32 0, smpt_msgs = []\<rparr>"

lemma board_mapped:
  obtains ctx where "mic_map True 0x3fffff000 0x2000 (mic_smpt_init board) = Some (0x83fffff000, ctx)"
    and "smpt_reach ctx [(0x83fffff000, 0x3fffff000, 0x2000)]"
proof -
  have len: "length (smpt_regs board) = NUM_SMPT_ENTRIES_IN_USE" by (simp add: board_def)
  obtain ctx where m: "mic_map True 0x3fffff000 0x2000 (mic_smpt_init board) = Some (0x83fffff000, ctx)"
    using mic_map_init [OF len, of "0x2000" "0x3fffff000"] by auto
  have "smpt_reach ctx [(0x83fffff000, 0x3fffff000, 0x2000)]"
    by (rule smpt_reach.mapped [OF smpt_reach.init [OF len] _ _ _ m]) (simp_all add: live_bytes_def)
  then show ?thesis using m that by blast
qed

theorem smpt_translation_witness:
  "\<exists>ctx. smpt_reach ctx [(0x83fffff000, 0x3fffff000, 0x2000)] \<and> mic_to_dma_addr ctx 0x8400000fff = 0x400000fff"
proof -
  obtain ctx where r: "smpt_reach ctx [(0x83fffff000, 0x3fffff000, 0x2000)]" by (rule board_mapped)
  show ?thesis using r smpt_translation [OF r, of "0x83fffff000" "0x3fffff000" "0x2000" "0x1fff"] by auto
qed

text \<open>C15. The counts of the table are exact: in every reachable state the count of an entry is the number of bytes of live mappings
  in the 16 GB page of the entry, with no wrap-around, so an entry is considered free only when no mapping uses it; and when every
  mapping was undone all counts are zero.\<close>

theorem smpt_counts_exact:
  assumes reach: "smpt_reach ctx live" and i: "i < NUM_SMPT_ENTRIES_IN_USE"
  shows "unat (ref_count (mic_smpt_tab ctx ! i)) = sum_list (map (entry_bytes i) live) \<and>
    (ref_count (mic_smpt_tab ctx ! i) = 0 \<longleftrightarrow>
       (\<forall>(a, d, sz) \<in> set live. \<forall>k. unat a \<le> k \<and> k < unat a + unat sz \<longrightarrow> k div PG \<noteq> 32 + i))"
proof -
  have c: "unat (ref_count (mic_smpt_tab ctx ! i)) = sum_list (map (entry_bytes i) live)"
    using smpt_reach_inv [OF reach] i by (simp add: smpt_inv_def)
  moreover have "ref_count (mic_smpt_tab ctx ! i) = 0 \<longleftrightarrow> (\<forall>l \<in> set live. entry_bytes i l = 0)"
    using c by (simp add: unat_eq_0 [symmetric])
  ultimately show ?thesis by (auto simp: entry_bytes.simps bytes_in_0)
qed

theorem smpt_counts_exact_witness:
  "\<exists>ctx. smpt_reach ctx [(0x83fffff000, 0x3fffff000, 0x2000)] \<and> unat (ref_count (mic_smpt_tab ctx ! 1)) = 0x1000"
proof -
  obtain ctx where r: "smpt_reach ctx [(0x83fffff000, 0x3fffff000, 0x2000)]" by (rule board_mapped)
  show ?thesis using r smpt_counts_exact [OF r, of 1] by (auto simp: entry_bytes.simps bytes_in_def)
qed

text \<open>Undoing a live mapping always succeeds: no entry outside of the table is touched, the state stays reachable with exactly this mapping
  removed, so every other mapping is still translated, and the mapping undone is given back to the PCI layer under its host address.\<close>

theorem smpt_unmap_total:
  assumes reach: "smpt_reach ctx live" and l: "(a, d, sz) \<in> set live"
  shows "\<exists>ctx'. mic_ctx_unmap_single ctx a sz = Some ([(d, sz)], ctx') \<and> smpt_reach ctx' (remove1 (a, d, sz) live)"
proof -
  note inv = smpt_reach_inv [OF reach]
  have "0 < unat sz" using inv l by (fastforce simp: smpt_inv_def live_ok.simps)
  from live_translation(5) [OF inv l this] have "mic_to_dma_addr ctx a = d" by simp
  moreover obtain ctx' where "mic_unmap a sz ctx = Some ctx'" using smpt_inv_unmap [OF inv l] by blast
  ultimately show ?thesis using smpt_reach.unmapped [OF reach l]
    by (auto simp: mic_ctx_unmap_single_def mic_unmap_single_def)
qed

theorem smpt_unmap_total_witness:
  "\<exists>ctx ctx'. mic_ctx_unmap_single ctx 0x83fffff000 0x2000 = Some ([(0x3fffff000, 0x2000)], ctx') \<and> smpt_reach ctx' []"
proof -
  obtain ctx where r: "smpt_reach ctx [(0x83fffff000, 0x3fffff000, 0x2000)]" by (rule board_mapped)
  show ?thesis using smpt_unmap_total [OF r, of "0x83fffff000" "0x3fffff000" "0x2000"] by auto
qed

text \<open>C31. An address that \<open>mic_map\<close> hands out lies, with the whole range, in the 512 GB system window of the card and has the offset of the host
  address within its 16 GB page; a request that needs more than the 32 entries of the reference array is the only one for which the
  array would be overrun.\<close>

theorem smpt_map_bounds:
  assumes reach: "smpt_reach ctx live" and sz: "0 < unat sz" and no: "unat d + unat sz + PG \<le> 2 ^ 64"
  shows "(mic_map pm d sz ctx = None \<longleftrightarrow> NUM_SMPT_ENTRIES_IN_USE < (unat d + unat sz - 1) div PG + 1 - unat d div PG) \<and>
    (\<forall>a ctx'. mic_map pm d sz ctx = Some (a, ctx') \<longrightarrow> a = 0 \<and> ctx' = ctx \<or>
       unat MIC_SYSTEM_BASE \<le> unat a \<and> unat a + unat sz \<le> unat MIC_SYSTEM_BASE + 32 * PG \<and> unat a mod PG = unat d mod PG)"
proof -
  define off where "off = unat d mod PG"
  have d: "unat d = unat d div PG * PG + off" and off: "off < PG" by (simp_all add: off_def)
  have len: "length (mic_smpt_tab ctx) = NUM_SMPT_ENTRIES_IN_USE"
    using smpt_reach_inv [OF reach] by (simp add: smpt_inv_def regs_ok_def)
  have np: "npages off (off + unat sz) = (unat d + unat sz - 1) div PG + 1 - unat d div PG"
    using npages_shift [OF off sz, of "unat d div PG"] sz unfolding d [symmetric] by (simp add: npages_def)
  have "mic_map pm d sz ctx = None \<longleftrightarrow> NUM_SMPT_ENTRIES_IN_USE < npages off (off + unat sz)"
    using get_smpt_ref_count_spec [OF sz no, folded off_def] sz
    by (auto simp: mic_map_def Let_def unat_gt_0 split: prod.splits)
  moreover have "a = 0 \<and> ctx' = ctx \<or> unat MIC_SYSTEM_BASE \<le> unat a \<and> unat a + unat sz \<le> unat MIC_SYSTEM_BASE + 32 * PG \<and>
      unat a mod PG = unat d mod PG" if op: "mic_map pm d sz ctx = Some (a, ctx')" for a ctx'
    using mic_map_cases [OF len sz no op, folded off_def]
  proof (elim disjE exE conjE)
    fix spt assume s: "spt + npages off (off + unat sz) \<le> NUM_SMPT_ENTRIES_IN_USE" and a: "unat a = (32 + spt) * PG + off"
    have "off + unat sz \<le> npages off (off + unat sz) * PG" by (rule npages_cover [OF off sz])
    then have "off + unat sz + spt * PG \<le> 32 * PG"
      using mult_le_mono1 [OF s, of PG] unfolding add_mult_distrib by linarith
    moreover have "unat a mod PG = off" unfolding a mod_mult_self3 using off by simp
    ultimately show ?thesis using a by (simp add: off_def)
  qed simp
  ultimately show ?thesis unfolding np by blast
qed

theorem smpt_map_bounds_witness:
  "\<exists>a ctx. mic_map True 0x3fffff000 0x2000 (mic_smpt_init board) = Some (a, ctx) \<and> a \<noteq> 0 \<and> unat a + 0x2000 \<le> 2 ^ 40"
proof -
  obtain ctx where m: "mic_map True 0x3fffff000 0x2000 (mic_smpt_init board) = Some (0x83fffff000, ctx)" by (rule board_mapped)
  have "smpt_reach (mic_smpt_init board) []" by (rule smpt_reach.init) (simp add: board_def)
  from smpt_map_bounds [OF this, of "0x2000" "0x3fffff000" True] m show ?thesis by auto
qed

text \<open>A board whose table was just set up reaches host memory below 512 GB by adding the base of the system window: mapping such a range
  succeeds and gives the host address plus \<open>MIC_SYSTEM_BASE\<close>.\<close>

theorem smpt_identity:
  assumes len: "length (smpt_regs ctx) = NUM_SMPT_ENTRIES_IN_USE" and sz: "0 < unat sz" and b: "unat d + unat sz \<le> 32 * PG"
  shows "\<exists>ctx'. mic_ctx_map_single True (Some d) sz (mic_smpt_init ctx) = Some (MIC_SYSTEM_BASE + d, [], ctx') \<and>
    smpt_reach ctx' [(MIC_SYSTEM_BASE + d, d, sz)]"
proof -
  obtain ctx' where m: "mic_map True d sz (mic_smpt_init ctx) = Some (MIC_SYSTEM_BASE + d, ctx')"
    using mic_map_init [OF len sz b] by blast
  have "unat (MIC_SYSTEM_BASE + d) = unat MIC_SYSTEM_BASE + unat d" using b by (simp add: unat_word_ariths)
  then have nz: "MIC_SYSTEM_BASE + d \<noteq> 0" by (auto simp: unat_eq_0 [symmetric] simp del: unat_eq_0)
  have "smpt_reach ctx' [(MIC_SYSTEM_BASE + d, d, sz)]"
    by (rule smpt_reach.mapped [OF smpt_reach.init [OF len] sz _ _ m nz]) (use b in \<open>simp_all add: live_bytes_def\<close>)
  then show ?thesis using m nz by (simp add: mic_ctx_map_single_def mic_map_single_def)
qed

theorem smpt_identity_witness:
  "\<exists>ctx'. mic_ctx_map_single True (Some 0x12345000) 0x1000 (mic_smpt_init board) = Some (0x8012345000, [], ctx')"
  using smpt_identity [of board "0x1000" "0x12345000"] by (auto simp: board_def)

text \<open>A mapping of several pages is refused, although entries are free, when the first entry that refers to its first page is not
  followed by an entry for its second page: the search of \<open>smpt_op\<close> gives up without looking for free entries.\<close>

theorem smpt_prefix_refused:
  assumes tab: "mic_smpt_tab ctx = pre @ e # e' # rest" and pre: "\<forall>x \<in> set pre. smpt_dma_addr x \<noteq> SMPT_ALIGN_LOW d"
    and e: "smpt_dma_addr e = SMPT_ALIGN_LOW d" "smpt_dma_addr e' \<noteq> SMPT_ALIGN_LOW d + MIC_SYSTEM_PAGE_SIZE"
    and two: "unat d div PG < (unat d + unat sz - 1) div PG"
    and fit: "unat d + unat sz \<le> unat d div PG * PG + 32 * PG" and no: "unat d + unat sz + PG \<le> 2 ^ 64"
  shows "mic_map pm d sz ctx = Some (0, ctx)"
proof -
  define off where "off = unat d mod PG"
  have d: "unat d = unat d div PG * PG + off" and off: "off < PG" by (simp_all add: off_def)
  have sz: "0 < unat sz" using two by (auto intro!: gr0I)
  let ?n = "npages off (off + unat sz)"
  have np: "?n = (unat d + unat sz - 1) div PG + 1 - unat d div PG"
    using npages_shift [OF off sz, of "unat d div PG"] sz unfolding d [symmetric] by (simp add: npages_def)
  then have n1: "1 < ?n" using two by linarith
  have "unat d + unat sz - 1 < (unat d div PG + 32) * PG" using fit sz unfolding add_mult_distrib by linarith
  then have "(unat d + unat sz - 1) div PG < unat d div PG + 32" by (simp only: div_less_iff_less_mult zero_less_numeral)
  then have "?n \<le> NUM_SMPT_ENTRIES_IN_USE" using np by linarith
  then have rf: "get_smpt_ref_count d sz = Some (map of_nat (page_bytes off (off + unat sz)), SMPT_ALIGN_LOW d)"
    using get_smpt_ref_count_spec [OF sz no, folded off_def] by simp
  have "length (map of_nat (page_bytes off (off + unat sz)) :: u64 list) = ?n" by (simp add: page_bytes_def)
  then show ?thesis using rf find_existing_broken [OF pre e n1] sz
    by (auto simp: mic_map_def smpt_op_def Let_def tab)
qed

theorem smpt_prefix_refused_witness:
  "mic_map True 0x8000000000 0x400000001 (board\<lparr>mic_smpt_tab := [\<lparr>smpt_dma_addr = 0x8000000000, ref_count = 0\<rparr>,
     \<lparr>smpt_dma_addr = 0x400000000, ref_count = 0\<rparr>] @ map identity_entry [2..<32]\<rparr>) = Some (0, board\<lparr>mic_smpt_tab := [\<lparr>smpt_dma_addr = 0x8000000000, ref_count = 0\<rparr>,
     \<lparr>smpt_dma_addr = 0x400000000, ref_count = 0\<rparr>] @ map identity_entry [2..<32]\<rparr>)"
proof -
  have "unat (SMPT_ALIGN_LOW 0x8000000000) = unat (0x8000000000 :: u64)" unfolding align_low by simp
  then have "SMPT_ALIGN_LOW 0x8000000000 = 0x8000000000" by (simp only: word_unat_eq_iff)
  then show ?thesis by (intro smpt_prefix_refused [where pre = "[]"]) (auto simp: board_def)
qed

end
