(* ===== verification/Rma_Dma.thy ===== *)
theory Rma_Dma
  imports Rma_Window Smpt
begin

text \<open>
  Copies between registered windows (\<open>micscif_rma_dma.c\<close>, host build for KNC): the copy by DMA of ranges with the same offset in
  a cache line, with its head and tail copied by the processor, and the copy by the processor alone. The result of a copy is its return
  value with the sequence of operations it issues. The functions of the kernel that translate pages and addresses, the answers of the DMA
  engine and whether the channel drains are arguments. \<open>None\<close> is a \<open>BUG_ON\<close>, or an access
  outside of an array or past the end of a list.
\<close>

section \<open>Data\<close>

record host_mem =
  page_address :: "u64 \<Rightarrow> u64"
  page_to_phys :: "u64 \<Rightarrow> u64"
  phys_to_virt :: "u64 \<Rightarrow> u64"
  peer_pinned :: "u64 \<Rightarrow> u64 list"
  aper_va :: u64

datatype dma_flag = NO_FLAG | DO_DMA_POLLING | DO_DMA_INTR

text \<open>An operation has the source address, the destination address and the number of bytes.\<close>

datatype rma_op = Cpu u64 u64 u64 | Dma dma_flag u64 u64 u64 | Fence | Drain

record mic_copy_work =
  src_offset :: u64
  dst_offset :: u64
  src_windows :: "reg_range list"
  dst_windows :: "reg_range list"
  loopback :: bool
  ordered :: bool
  len :: u64

text \<open>One side of a copy: the windows from the current one on, the offset and the index of the last lookup.\<close>

record cursor =
  cur_ws :: "reg_range list"
  cur_off :: u64
  cur_idx :: "nat \<times> u64"

abbreviation L1_CACHE_BYTES :: u64 where "L1_CACHE_BYTES \<equiv> 64"
abbreviation (input) ENOMEM_RET :: int where "ENOMEM_RET \<equiv> - 12"

section \<open>Addresses\<close>

definition page_of :: "u64 list \<Rightarrow> reg_range \<Rightarrow> u64 \<Rightarrow> u64 option" where
  "page_of pages w off =
     (let page_nr = unat (drop_bit WPAGE_SHIFT (off - offset w)) in if page_nr < length pages then Some (pages ! page_nr) else None)"

definition get_local_va :: "host_mem \<Rightarrow> u64 \<Rightarrow> reg_range \<Rightarrow> u64 option" where
  "get_local_va h off w =
     (if wtype w = RMA_WINDOW_SELF
      then map_option (\<lambda>pg. page_address h pg OR (off AND (WPAGE - 1))) (page_of (pinned w) w off)
      else map_option (\<lambda>(phys, _). phys_to_virt h phys) (micscif_get_dma_addr w off (no_index w)))"

definition loopback_va :: "host_mem \<Rightarrow> u64 \<Rightarrow> reg_range \<Rightarrow> u64 option" where
  "loopback_va h off w =
     map_option (\<lambda>pg. phys_to_virt h (page_to_phys h pg) OR (off AND (WPAGE - 1))) (page_of (peer_pinned h (peer_window w)) w off)"

definition ioremap_remote_gtt :: "host_mem \<Rightarrow> u64 \<Rightarrow> reg_range \<Rightarrow> bool \<Rightarrow> u64 option" where
  "ioremap_remote_gtt h off w lb =
     (if \<not> lb then map_option (\<lambda>(phys, _). aper_va h + phys) (micscif_get_dma_addr w off (no_index w))
      else loopback_va h off w)"

definition ioremap_remote :: "host_mem \<Rightarrow> u64 \<Rightarrow> reg_range \<Rightarrow> bool \<Rightarrow> nat \<times> u64 \<Rightarrow> (u64 \<times> nat \<times> u64) option" where
  "ioremap_remote h off w lb idx =
     (if \<not> lb then map_option (\<lambda>(phys, _, idx). (aper_va h + phys, idx)) (micscif_get_dma_addr w off idx)
      else map_option (\<lambda>va. (va, idx)) (loopback_va h off w))"

definition is_local_dma_addr :: "u64 \<Rightarrow> bool" where
  "is_local_dma_addr addr \<longleftrightarrow> is_syspa addr"

definition ordered_memcpy :: "u64 \<Rightarrow> u64 \<Rightarrow> u64 \<Rightarrow> rma_op list" where
  "ordered_memcpy dst src n = (if n = 0 then [] else [Cpu src dst (n - 1), Fence, Cpu (src + (n - 1)) (dst + (n - 1)) 1])"

definition micscif_unaligned_memcpy :: "u64 \<Rightarrow> u64 \<Rightarrow> u64 \<Rightarrow> bool \<Rightarrow> rma_op list" where
  "micscif_unaligned_memcpy dst src n ord = (if ord then ordered_memcpy dst src n else [Cpu src dst n])"

section \<open>The copy by DMA\<close>

text \<open>The copy of the head, and of the tail, by the processor: the return value and the operations.\<close>

definition side_va :: "host_mem \<Rightarrow> bool \<Rightarrow> u64 \<Rightarrow> u64 \<Rightarrow> reg_range \<Rightarrow> u64 option" where
  "side_va h lb dma off w = (if is_local_dma_addr dma then get_local_va h off w else ioremap_remote_gtt h off w lb)"

definition cpu_piece :: "host_mem \<Rightarrow> bool \<Rightarrow> bool \<Rightarrow> cursor \<Rightarrow> cursor \<Rightarrow> u64 \<Rightarrow> (int \<times> rma_op list) option" where
  "cpu_piece h lb ord src dst n =
     (case (cur_ws src, cur_ws dst) of
        (sw # _, dw # _) \<Rightarrow>
          do { (sdma, _) \<leftarrow> micscif_get_dma_addr sw (cur_off src) (no_index sw);
               (ddma, _) \<leftarrow> micscif_get_dma_addr dw (cur_off dst) (no_index dw);
               src_virt \<leftarrow> side_va h lb sdma (cur_off src) sw;
               if src_virt = 0 then Some (ENOMEM_RET, [])
               else do {
                 dst_virt \<leftarrow> side_va h lb ddma (cur_off dst) dw;
                 if dst_virt = 0 then Some (ENOMEM_RET, [])
                 else Some (0, if is_local_dma_addr sdma then micscif_unaligned_memcpy dst_virt src_virt n ord
                               else [Cpu src_virt dst_virt n]) } }
      | _ \<Rightarrow> None)"

definition next_window :: "cursor \<Rightarrow> cursor option" where
  "next_window c =
     (case cur_ws c of
        [] \<Rightarrow> None
      | w # ws \<Rightarrow>
          if cur_off c = end_offset w
          then (case ws of [] \<Rightarrow> None | v # _ \<Rightarrow> Some (c\<lparr>cur_ws := ws, cur_idx := (0, offset v)\<rparr>))
          else Some c)"

definition move :: "cursor \<Rightarrow> u64 \<Rightarrow> cursor" where
  "move c n = c\<lparr>cur_off := cur_off c + n\<rparr>"

text \<open>The lookup at a cursor, which keeps the index for the next one.\<close>

definition lookup_at :: "cursor \<Rightarrow> (u64 \<times> u64 \<times> cursor) option" where
  "lookup_at c =
     (case cur_ws c of
        [] \<Rightarrow> None
      | w # _ \<Rightarrow> map_option (\<lambda>(a, n, idx). (a, n, c\<lparr>cur_idx := idx\<rparr>)) (micscif_get_dma_addr w (cur_off c) (cur_idx c)))"

lemma chunk_search_pos: "chunk_search w off n i start = Some (a, nr, idx) \<Longrightarrow> 0 < nr"
  by (induction n arbitrary: i start) (auto simp: Let_def word_neq_0_conv [symmetric] split: if_splits)

lemma get_dma_addr_pos: "micscif_get_dma_addr w off idx = Some (a, n, idx') \<Longrightarrow> 0 < n"
proof -
  have "WPAGE - (off AND (WPAGE - 1)) \<noteq> 0"
  proof
    assume "WPAGE - (off AND (WPAGE - 1)) = 0"
    then have "off AND (WPAGE - 1) = WPAGE" by simp
    then have "unat off mod 4096 = 4096" using page_off [of off] by simp
    then show False using mod_less_divisor [of 4096 "unat off"] by simp
  qed
  then show "micscif_get_dma_addr w off idx = Some (a, n, idx') \<Longrightarrow> 0 < n"
    using chunk_search_pos by (fastforce simp: micscif_get_dma_addr_def Let_def word_neq_0_conv [symmetric] split: if_splits)
qed

lemma lookup_at_pos: "lookup_at c = Some (a, n, c') \<Longrightarrow> 0 < n"
  by (auto simp: lookup_at_def split: list.splits dest: get_dma_addr_pos)

lemma shrinks: "n \<noteq> 0 \<Longrightarrow> n \<le> r \<Longrightarrow> r - n < r" for n r :: u64
  by (metis word_less_nat_alt word_le_nat_alt unat_sub diff_less unat_gt_0 gr0I le_zero_eq)

text \<open>
  The loop over the part of whole cache lines. \<open>dma k\<close> is the answer of the DMA engine to its call number \<open>k\<close>. \<open>Inl\<close> is an early return.
\<close>

function dma_body :: "(nat \<Rightarrow> int) \<Rightarrow> bool \<Rightarrow> u64 \<Rightarrow> cursor \<Rightarrow> cursor \<Rightarrow> u64 \<Rightarrow> nat \<Rightarrow> int \<Rightarrow> rma_op list \<Rightarrow>
    ((int \<times> rma_op list) + (cursor \<times> cursor \<times> int \<times> rma_op list)) option" where
  "dma_body dma ord tail_len src dst remaining k ret ops =
     (if remaining = 0 then Some (Inr (src, dst, ret, ops))
      else
        case next_window src of None \<Rightarrow> None | Some src \<Rightarrow>
        case next_window dst of None \<Rightarrow> None | Some dst \<Rightarrow>
        case lookup_at src of None \<Rightarrow> None | Some (sa, sn, src) \<Rightarrow>
        case lookup_at dst of None \<Rightarrow> None | Some (da, dn, dst) \<Rightarrow>
          let loop_len = min (min sn dn) remaining
          in if ord \<and> tail_len = 0 \<and> remaining - loop_len = 0 \<and> loop_len \<noteq> L1_CACHE_BYTES
             then
               let body = loop_len - L1_CACHE_BYTES; rest = remaining - body
               in if dma k < 0 then Some (Inl (dma k, ops))
                  else if dma (k + 1) < 0 then Some (Inl (dma (k + 1), ops @ [Dma DO_DMA_POLLING sa da body]))
                  else Some (Inr (move (move src body) rest, move (move dst body) rest, dma (k + 1),
                         ops @ [Dma DO_DMA_POLLING sa da body, Dma NO_FLAG (sa + body) (da + body) rest]))
             else if dma k < 0 then Some (Inl (dma k, ops))
             else dma_body dma ord tail_len (move src loop_len) (move dst loop_len) (remaining - loop_len) (k + 1) (dma k)
                    (ops @ [Dma NO_FLAG sa da loop_len]))"
  by pat_completeness auto
termination
proof (relation "measure (\<lambda>(_, _, _, _, _, remaining, _). unat remaining)", goal_cases)
  case (2 dma ord tail_len src dst remaining k ret ops src1 dst1 p sa q sn src2 p' da q' dn dst2 loop_len)
  then have "0 < sn" "0 < dn" using lookup_at_pos by blast+
  then have "loop_len \<noteq> 0" "loop_len \<le> remaining" using 2 by (auto simp: min_def)
  then have "remaining - loop_len < remaining" by (rule shrinks)
  then show ?case by (simp add: word_less_nat_alt)
qed auto

declare dma_body.simps [simp del]

definition first_dma :: "cursor \<Rightarrow> u64 option" where
  "first_dma c = (case cur_ws c of [] \<Rightarrow> None | w # _ \<Rightarrow> map_option fst (micscif_get_dma_addr w (cur_off c) (no_index w)))"

lemma cpu_piece_dma: "cpu_piece h lb ord src dst n = Some r \<Longrightarrow> \<exists>a b. first_dma src = Some a \<and> first_dma dst = Some b"
  by (auto simp: cpu_piece_def first_dma_def bind_eq_Some_conv split: list.splits)

definition copy_tail :: "host_mem \<Rightarrow> int \<Rightarrow> mic_copy_work \<Rightarrow> u64 \<Rightarrow> cursor \<Rightarrow> cursor \<Rightarrow> int \<Rightarrow> rma_op list \<Rightarrow> (int \<times> rma_op list) option" where
  "copy_tail h drain work tail_len src dst ret ops =
     (if tail_len = 0 then Some (ret, ops)
      else
        do { src \<leftarrow> next_window src;
             dst \<leftarrow> next_window dst;
             src_dma \<leftarrow> first_dma src;
             dst_dma \<leftarrow> first_dma dst;
             if ordered work \<and> drain \<noteq> 0 then Some (drain, ops)
             else
               do { (r, ops') \<leftarrow> cpu_piece h (loopback work) (ordered work) src dst tail_len;
                    Some (if r \<noteq> 0 then r else if ordered work then drain else ret,
                          ops @ (if ordered work then [Drain] else []) @ ops') } })"

definition copy_head :: "host_mem \<Rightarrow> mic_copy_work \<Rightarrow> cursor \<Rightarrow> cursor \<Rightarrow> (int \<times> rma_op list \<times> cursor \<times> cursor \<times> u64) option" where
  "copy_head h work src dst =
     (let cache_off = cur_off src AND (L1_CACHE_BYTES - 1); remaining = len work
      in if cache_off \<noteq> 0 then
           let n = min (L1_CACHE_BYTES - cache_off) remaining
           in do { (r, ops) \<leftarrow> cpu_piece h (loopback work) (remaining = n \<and> ordered work) src dst n;
                   Some (r, ops, move src n, move dst n, remaining - n) }
         else Some (0, [], src, dst, remaining))"

definition start_cursor :: "reg_range list \<Rightarrow> u64 \<Rightarrow> cursor" where
  "start_cursor ws off = \<lparr>cur_ws = ws, cur_off = off, cur_idx = (0, case ws of [] \<Rightarrow> 0 | w # _ \<Rightarrow> offset w)\<rparr>"

definition micscif_rma_list_dma_copy_aligned ::
  "host_mem \<Rightarrow> (nat \<Rightarrow> int) \<Rightarrow> int \<Rightarrow> mic_copy_work \<Rightarrow> (int \<times> rma_op list) option" where
  "micscif_rma_list_dma_copy_aligned h dma drain work =
     (let src = start_cursor (src_windows work) (src_offset work); dst = start_cursor (dst_windows work) (dst_offset work)
      in if src_offset work AND (L1_CACHE_BYTES - 1) \<noteq> dst_offset work AND (L1_CACHE_BYTES - 1) then None
         else
           do { (r, ops, src, dst, remaining) \<leftarrow> copy_head h work src dst;
                if r \<noteq> 0 then Some (r, ops)
                else
                  let tail_len = remaining AND (L1_CACHE_BYTES - 1)
                  in do { b \<leftarrow> dma_body dma (ordered work) tail_len src dst (remaining - tail_len) 0 0 ops;
                          case b of
                            Inl (ret, ops) \<Rightarrow> Some (ret, ops)
                          | Inr (src, dst, ret, ops) \<Rightarrow> copy_tail h drain work tail_len src dst ret ops } })"

section \<open>The copy by the processor\<close>

definition cpu_va :: "host_mem \<Rightarrow> bool \<Rightarrow> cursor \<Rightarrow> (u64 \<times> cursor) option" where
  "cpu_va h lb c =
     (case cur_ws c of
        [] \<Rightarrow> None
      | w # _ \<Rightarrow>
          if wtype w = RMA_WINDOW_SELF then map_option (\<lambda>va. (va, c)) (get_local_va h (cur_off c) w)
          else map_option (\<lambda>(va, idx). (va, c\<lparr>cur_idx := idx\<rparr>)) (ioremap_remote h (cur_off c) w lb (cur_idx c)))"

definition page_len :: "u64 \<Rightarrow> u64 \<Rightarrow> u64 \<Rightarrow> u64" where
  "page_len soff doff remaining =
     (let n = WPAGE - max (soff AND (WPAGE - 1)) (doff AND (WPAGE - 1)) in if remaining < n then remaining else n)"

lemma page_len_pos: "remaining \<noteq> 0 \<Longrightarrow> page_len soff doff remaining \<noteq> 0 \<and> page_len soff doff remaining \<le> remaining"
proof -
  assume r: "remaining \<noteq> 0"
  have "WPAGE - max (soff AND (WPAGE - 1)) (doff AND (WPAGE - 1)) \<noteq> 0"
  proof
    assume "WPAGE - max (soff AND (WPAGE - 1)) (doff AND (WPAGE - 1)) = 0"
    then have "max (soff AND (WPAGE - 1)) (doff AND (WPAGE - 1)) = WPAGE" by simp
    then have "unat soff mod 4096 = 4096 \<or> unat doff mod 4096 = 4096"
      using page_off [of soff] page_off [of doff] by (auto simp: max_def split: if_splits)
    then show False using mod_less_divisor [of 4096 "unat soff"] mod_less_divisor [of 4096 "unat doff"] by auto
  qed
  then show ?thesis using r by (auto simp: page_len_def Let_def)
qed

function cpu_loop :: "host_mem \<Rightarrow> bool \<Rightarrow> cursor \<Rightarrow> cursor \<Rightarrow> u64 \<Rightarrow> rma_op list \<Rightarrow> (int \<times> rma_op list) option" where
  "cpu_loop h lb src dst remaining ops =
     (if remaining = 0 then Some (0, ops)
      else
        let n = page_len (cur_off src) (cur_off dst) remaining
        in case cpu_va h lb src of None \<Rightarrow> None | Some (src_virt, src) \<Rightarrow>
           if src_virt = 0 then Some (ENOMEM_RET, ops)
           else
             case cpu_va h lb dst of None \<Rightarrow> None | Some (dst_virt, dst) \<Rightarrow>
             if dst_virt = 0 then Some (ENOMEM_RET, ops)
             else if remaining - n = 0 then Some (0, ops @ [Cpu src_virt dst_virt n])
             else
               case next_window (move src n) of None \<Rightarrow> None | Some src \<Rightarrow>
               case next_window (move dst n) of None \<Rightarrow> None | Some dst \<Rightarrow>
                 cpu_loop h lb src dst (remaining - n) (ops @ [Cpu src_virt dst_virt n]))"
  by pat_completeness auto
termination
proof (relation "measure (\<lambda>(_, _, _, _, remaining, _). unat remaining)", goal_cases)
  case (2 h lb src dst remaining ops n)
  have "n \<noteq> 0" "n \<le> remaining" using page_len_pos [OF 2(1)] unfolding 2(2) by blast+
  then have "remaining - n < remaining" by (rule shrinks)
  then show ?case by (simp only: in_measure case_prod_conv word_less_nat_alt)
qed auto

declare cpu_loop.simps [simp del]

definition micscif_rma_list_cpu_copy :: "host_mem \<Rightarrow> mic_copy_work \<Rightarrow> (int \<times> rma_op list) option" where
  "micscif_rma_list_cpu_copy h work =
     cpu_loop h (loopback work) (start_cursor (src_windows work) (src_offset work))
       (start_cursor (dst_windows work) (dst_offset work)) (len work) []"

section \<open>The bytes an operation moves\<close>

datatype byte_loc = Bus nat | Virt nat

fun op_bytes :: "rma_op \<Rightarrow> (byte_loc \<times> byte_loc) list" where
  "op_bytes (Cpu s d n) = map (\<lambda>k. (Virt (unat s + k), Virt (unat d + k))) [0..<unat n]"
| "op_bytes (Dma f s d n) = map (\<lambda>k. (Bus (unat s + k), Bus (unat d + k))) [0..<unat n]"
| "op_bytes Fence = []"
| "op_bytes Drain = []"

text \<open>
  The locations of a byte of the registered address space: its bus address, and the virtual address at which the kernel sees it. The bytes of a
  window of this node are in its pinned pages. Those of a window of the peer are in the peer's memory, which the aperture shows from \<open>aper_va\<close> on,
  or, when the peer is this node, in the pages the peer has pinned.
\<close>

definition va_names :: "host_mem \<Rightarrow> bool \<Rightarrow> reg_range \<Rightarrow> nat \<Rightarrow> nat \<Rightarrow> bool" where
  "va_names h lb w x v \<longleftrightarrow>
     (let page = (x - wlo w) div 4096
      in v = (if wtype w = RMA_WINDOW_SELF then unat (page_address h (pinned w ! page)) + x mod 4096
              else if lb then unat (phys_to_virt h (page_to_phys h (peer_pinned h (peer_window w) ! page))) + x mod 4096
              else unat (aper_va h) + byte_addr w x))"

fun loc_names :: "host_mem \<Rightarrow> bool \<Rightarrow> reg_range \<Rightarrow> nat \<Rightarrow> byte_loc \<Rightarrow> bool" where
  "loc_names h lb w x (Bus a) \<longleftrightarrow> a = byte_addr w x"
| "loc_names h lb w x (Virt v) \<longleftrightarrow> va_names h lb w x v"

definition names :: "host_mem \<Rightarrow> bool \<Rightarrow> reg_range list \<Rightarrow> nat \<Rightarrow> byte_loc \<Rightarrow> bool" where
  "names h lb ws x l \<longleftrightarrow> (\<exists>w \<in> set ws. wlo w \<le> x \<and> x < whi w \<and> loc_names h lb w x l)"

text \<open>
  The operations move \<open>n\<close> bytes one after the other, number \<open>i\<close> from a location with \<open>S i\<close> to one with \<open>D i\<close>; between windows, from \<open>x\<close> on to \<open>y\<close> on.
\<close>

definition moves_via :: "(nat \<Rightarrow> byte_loc \<Rightarrow> bool) \<Rightarrow> (nat \<Rightarrow> byte_loc \<Rightarrow> bool) \<Rightarrow> nat \<Rightarrow> rma_op list \<Rightarrow> bool" where
  "moves_via S D n ops \<longleftrightarrow>
     (let bs = concat (map op_bytes ops) in length bs = n \<and> (\<forall>i < n. S i (fst (bs ! i)) \<and> D i (snd (bs ! i))))"

definition moves :: "host_mem \<Rightarrow> bool \<Rightarrow> reg_range list \<Rightarrow> reg_range list \<Rightarrow> nat \<Rightarrow> nat \<Rightarrow> nat \<Rightarrow> rma_op list \<Rightarrow> bool" where
  "moves h lb sws dws x y n ops \<longleftrightarrow> moves_via (\<lambda>i. names h lb sws (x + i)) (\<lambda>i. names h lb dws (y + i)) n ops"

lemma names_I: "w \<in> set ws \<Longrightarrow> wlo w \<le> x \<Longrightarrow> x < whi w \<Longrightarrow> loc_names h lb w x l \<Longrightarrow> names h lb ws x l"
  unfolding names_def by blast

lemma moves_via_Nil [simp]: "moves_via S D 0 []"
  by (simp add: moves_via_def)

lemma moves_via_append:
  assumes "moves_via S D n ops" and "moves_via (\<lambda>i. S (n + i)) (\<lambda>i. D (n + i)) m ops'"
  shows "moves_via S D (n + m) (ops @ ops')"
  unfolding moves_via_def Let_def
proof (intro conjI allI impI)
  let ?a = "concat (map op_bytes ops)" and ?b = "concat (map op_bytes ops')"
  have len: "length ?a = n" "length ?b = m" using assms by (simp_all add: moves_via_def Let_def)
  then show "length (concat (map op_bytes (ops @ ops'))) = n + m" by simp
  fix i assume i: "i < n + m"
  consider "i < n" | j where "i = n + j" "j < m" using i by (metis add_less_cancel_left le_Suc_ex not_le)
  then show "S i (fst (concat (map op_bytes (ops @ ops')) ! i))" "D i (snd (concat (map op_bytes (ops @ ops')) ! i))"
    using assms len by (cases; simp add: moves_via_def Let_def nth_append)+
qed

lemma moves_Nil [simp]: "moves h lb sws dws x y 0 []"
  by (simp add: moves_def)

lemma moves_append: "moves h lb sws dws x y n ops \<Longrightarrow> moves h lb sws dws (x + n) (y + n) m ops' \<Longrightarrow> moves h lb sws dws x y (n + m) (ops @ ops')"
  unfolding moves_def by (rule moves_via_append) (simp_all add: add.assoc)

section \<open>Addresses within a page\<close>

text \<open>
  What the copies rely on: the kernel maps pages at page boundaries and nothing at address \<open>0\<close>, the direct mapping of physical memory keeps page
  boundaries; the pages of a window are all present, and its bus addresses fit in the aperture.
\<close>

definition host_mem_ok :: "host_mem \<Rightarrow> bool" where
  "host_mem_ok h \<longleftrightarrow> aper_va h \<noteq> 0 \<and>
     (\<forall>a. unat a < 2 ^ 46 \<longrightarrow> unat (phys_to_virt h a) mod 4096 = unat a mod 4096 \<and> phys_to_virt h a \<noteq> 0)"

definition page_ok :: "host_mem \<Rightarrow> u64 \<Rightarrow> bool" where
  "page_ok h p \<longleftrightarrow> unat (page_address h p) mod 4096 = 0 \<and> page_address h p \<noteq> 0 \<and>
     unat (page_to_phys h p) mod 4096 = 0 \<and> unat (page_to_phys h p) < 2 ^ 46"

definition reach_ok :: "host_mem \<Rightarrow> bool \<Rightarrow> reg_range \<Rightarrow> bool" where
  "reach_ok h lb w \<longleftrightarrow> dma_ok w \<and>
     (wtype w = RMA_WINDOW_SELF \<longrightarrow> unat (nr_pages w) \<le> length (pinned w) \<and> (\<forall>p \<in> set (pinned w). page_ok h p)) \<and>
     (lb \<longrightarrow> unat (nr_pages w) \<le> length (peer_pinned h (peer_window w)) \<and> (\<forall>p \<in> set (peer_pinned h (peer_window w)). page_ok h p)) \<and>
     (\<forall>x. wlo w \<le> x \<and> x < whi w \<longrightarrow> unat (aper_va h) + byte_addr w x < 2 ^ 64)"

text \<open>
  The copy by DMA tells memory of this node from memory of the peer by the bus address: \<open>bus_side_ok\<close> says that the addresses of a window of this node are
  system addresses, those the SMPT gives, and that the addresses of a window of the peer are not.
\<close>

definition bus_side_ok :: "reg_range \<Rightarrow> bool" where
  "bus_side_ok w \<longleftrightarrow> (\<forall>x. wlo w \<le> x \<and> x < whi w \<longrightarrow> is_syspa (of_nat (byte_addr w x)) = (wtype w = RMA_WINDOW_SELF))"

lemma same_page:
  assumes "wlo w mod 4096 = 0" and "wlo w \<le> x" and "x mod 4096 + k < 4096"
  shows "(x + k - wlo w) div 4096 = (x - wlo w) div 4096" and "(x + k) mod 4096 = x mod 4096 + k"
proof -
  have "x mod 4096 = (x - wlo w) mod 4096"
    using assms(1,2) by (metis le_add_diff_inverse2 add_0_right mod_add_right_eq)
  then have "(x - wlo w) + k = (x - wlo w) div 4096 * 4096 + (x mod 4096 + k)"
    using div_mult_mod_eq [of "x - wlo w" 4096] by linarith
  then have "((x - wlo w) + k) div 4096 = (x - wlo w) div 4096" using assms(3)
    by (metis div_mult_self3 div_less add.commute add_0_right zero_neq_numeral)
  then show "(x + k - wlo w) div 4096 = (x - wlo w) div 4096" using assms(2) by simp
  show "(x + k) mod 4096 = x mod 4096 + k" using assms(3) by (metis mod_add_left_eq mod_less)
qed

lemma byte_addr_page:
  assumes "win_ok w" and "wlo w \<le> x" and "x mod 4096 + k < 4096"
  shows "byte_addr w (x + k) = byte_addr w x + k"
  using same_page [of w x k] assms by (simp add: byte_addr_def win_ok_def wlo_def)

lemma page_addr_mem:
  assumes w: "dma_ok w" and x: "wlo w \<le> x" "x < whi w"
  shows "page_addrs w ! ((x - wlo w) div 4096) \<in> set (page_addrs w)"
proof -
  have "length (page_addrs w) = pages_before w (nchunks w)"
    by (simp add: page_addrs_def pages_before_def length_concat comp_def interv_sum_list_conv_sum_set_nat atLeast0LessThan)
  then have "(x - wlo w) div 4096 < length (page_addrs w)" using w x
    by (simp add: dma_ok_def whi_def wlo_def div_less_iff_less_mult)
  then show ?thesis by (rule nth_mem)
qed

lemma byte_addr_bound:
  assumes w: "dma_ok w" and x: "wlo w \<le> x" "x < whi w"
  shows "byte_addr w x < 2 ^ 64" and "byte_addr w x mod 4096 = x mod 4096"
proof -
  have "whi w < 2 ^ 64" using w by (simp add: dma_ok_def win_ok_def)
  then have u: "unat (of_nat x :: u64) = x" using x by (intro unat_of_nat64) linarith
  obtain a nr idx where "micscif_get_dma_addr w (of_nat x) (no_index w) = Some (a, nr, idx)" and l: "lookup_ok w x a nr"
    using get_dma_addr_spec [OF w, of "of_nat x" "no_index w"] idx_ok_start [OF w] x unfolding u by (auto simp: wlo_def)
  then have "byte_addr w (x + 0) = unat a + 0" unfolding lookup_ok_def by blast
  then show "byte_addr w x < 2 ^ 64" using unat_less_pow [of a] by simp
  have "page_addrs w ! ((x - wlo w) div 4096) \<in> set (page_addrs w)" by (rule page_addr_mem [OF w x])
  moreover have "p mod 4096 = 0" if "p \<in> set (page_addrs w)" for p
    using that w by (auto simp: page_addrs_def dma_ok_def)
  ultimately have "page_addrs w ! ((x - wlo w) div 4096) mod 4096 = 0" by blast
  then show "byte_addr w x mod 4096 = x mod 4096" unfolding byte_addr_def by (metis mod_add_left_eq add_0 mod_mod_trivial)
qed

text \<open>The virtual address \<open>va\<close> of an offset, good for the rest of its page.\<close>

definition va_src :: "host_mem \<Rightarrow> bool \<Rightarrow> reg_range \<Rightarrow> u64 \<Rightarrow> u64 \<Rightarrow> bool" where
  "va_src h lb w off va \<longleftrightarrow> va \<noteq> 0 \<and> (\<forall>k. unat off mod 4096 + k < 4096 \<longrightarrow>
     va_names h lb w (unat off + k) (unat va + k) \<and> unat (va + of_nat k) = unat va + k)"

lemma va_src_names:
  assumes "va_src h lb w off va" and "unat off mod 4096 + k < 4096"
  shows "va_names h lb w (unat off + k) (unat va + k)" and "unat (va + of_nat k) = unat va + k"
  using assms unfolding va_src_def by blast+

lemma va_src_nonzero: "va_src h lb w off va \<Longrightarrow> va \<noteq> 0"
  unfolding va_src_def by blast

lemma page_room:
  fixes va :: u64
  assumes "unat va mod 4096 + k < 4096"
  shows "unat (va + of_nat k) = unat va + k"
proof -
  have "unat va div 4096 < 2 ^ 52" using unat_less_pow [of va] by (simp add: div_less_iff_less_mult)
  then have "(unat va div 4096 + 1) * 4096 \<le> 2 ^ 64" by simp
  then have "unat va + k < 2 ^ 64" using assms div_mult_mod_eq [of "unat va" 4096] unfolding add_mult_distrib by linarith
  then show ?thesis by (simp add: unat_word_ariths unat_of_nat)
qed

text \<open>An offset in a window and one in the same page.\<close>

lemma off_in_page:
  fixes off :: u64
  assumes "win_ok w" and "wlo w \<le> unat off" and "unat off < whi w" and "unat off mod 4096 + k < 4096"
  shows "unat (off + of_nat k) = unat off + k" and "unat off + k < whi w"
proof -
  have "whi w mod 4096 = 0" using assms(1) by (simp add: win_ok_def whi_def)
  then have h: "whi w = whi w div 4096 * 4096" by (simp add: minus_mod_eq_div_mult [symmetric])
  have "unat off div 4096 < whi w div 4096" using assms(3) h by (metis div_less_iff_less_mult zero_less_numeral)
  then have "(unat off div 4096 + 1) * 4096 \<le> whi w" using h by (metis Suc_eq_plus1 Suc_leI mult_le_mono1)
  then show l: "unat off + k < whi w" using assms(4) div_mult_mod_eq [of "unat off" 4096] unfolding add_mult_distrib by linarith
  have "whi w < 2 ^ 63" using assms(1) by (simp add: win_ok_def)
  then have "unat off + k < 2 ^ 64" using l by simp
  then show "unat (off + of_nat k) = unat off + k" by (simp add: unat_word_ariths unat_of_nat)
qed

lemma page_of_nth:
  assumes "wlo w \<le> unat off" and "unat off < whi w" and "unat (nr_pages w) \<le> length pages"
  shows "page_of pages w off = Some (pages ! ((unat off - wlo w) div 4096))" and "pages ! ((unat off - wlo w) div 4096) \<in> set pages"
proof -
  have "unat (drop_bit WPAGE_SHIFT (off - offset w)) = (unat off - wlo w) div 4096"
    using assms(1) by (simp add: drop_bit_eq_div unat_div unat_sub word_le_nat_alt wlo_def)
  moreover have "(unat off - wlo w) div 4096 < length pages" using assms by (simp add: whi_def wlo_def div_less_iff_less_mult)
  ultimately show "page_of pages w off = Some (pages ! ((unat off - wlo w) div 4096))" and "pages ! ((unat off - wlo w) div 4096) \<in> set pages"
    by (simp_all add: page_of_def Let_def)
qed

text \<open>The address of a byte of a page that is mapped at \<open>base\<close>.\<close>

lemma in_page_va:
  fixes base off :: u64
  assumes b: "unat base mod 4096 = 0" "base \<noteq> 0" and w: "win_ok w" "wlo w \<le> unat off"
    and n: "\<And>y. (y - wlo w) div 4096 = (unat off - wlo w) div 4096 \<Longrightarrow> va_names h lb w y (unat base + y mod 4096)"
  shows "va_src h lb w off (base OR (off AND (WPAGE - 1)))"
proof -
  have "of_nat (unat (off AND (WPAGE - 1))) = (of_nat (unat off mod 4096) :: u64)" unfolding page_off ..
  then have "off AND (WPAGE - 1) = of_nat (unat off mod 4096)" by (simp only: of_nat_unat ucast_id)
  then have r: "base OR (off AND (WPAGE - 1)) = base + of_nat (unat off mod 4096)" using page_or [OF b(1), of "unat off mod 4096"] by simp
  have u: "unat (base OR (off AND (WPAGE - 1))) = unat base + unat off mod 4096" unfolding r by (rule page_room) (use b in simp)
  then have m: "unat (base OR (off AND (WPAGE - 1))) mod 4096 = unat off mod 4096" using b(1) by (simp add: mod_add_left_eq [symmetric])
  show ?thesis unfolding va_src_def
  proof (intro conjI allI impI)
    show "base OR (off AND (WPAGE - 1)) \<noteq> 0" using u b(2) by (metis add_is_0 unat_0 unat_eq_0)
    fix k assume k: "unat off mod 4096 + k < 4096"
    note s = same_page [OF _ w(2) k]
    have a: "wlo w mod 4096 = 0" using w(1) by (simp add: win_ok_def wlo_def)
    show "va_names h lb w (unat off + k) (unat (base OR (off AND (WPAGE - 1))) + k)"
      using n [OF s(1) [OF a]] s(2) [OF a] u by (simp add: add.assoc)
    show "unat ((base OR (off AND (WPAGE - 1))) + of_nat k) = unat (base OR (off AND (WPAGE - 1))) + k"
      using k m by (intro page_room) simp
  qed
qed

lemma local_va_src:
  assumes w: "reach_ok h lb w" "wtype w = RMA_WINDOW_SELF" and x: "wlo w \<le> unat off" "unat off < whi w"
  shows "\<exists>va. get_local_va h off w = Some va \<and> va_src h lb w off va"
proof -
  have ok: "win_ok w" "unat (nr_pages w) \<le> length (pinned w)" using w by (simp_all add: reach_ok_def dma_ok_def)
  let ?pg = "pinned w ! ((unat off - wlo w) div 4096)"
  note pg = page_of_nth [OF x ok(2)]
  have "page_ok h ?pg" using w pg(2) by (simp add: reach_ok_def)
  then have "va_src h lb w off (page_address h ?pg OR (off AND (WPAGE - 1)))"
    using w(2) ok(1) x(1) by (intro in_page_va) (simp_all add: page_ok_def va_names_def)
  then show ?thesis using pg(1) w(2) by (simp add: get_local_va_def)
qed

lemma loopback_va_src:
  assumes h: "host_mem_ok h" and w: "reach_ok h True w" "wtype w \<noteq> RMA_WINDOW_SELF" and x: "wlo w \<le> unat off" "unat off < whi w"
  shows "\<exists>va. loopback_va h off w = Some va \<and> va_src h True w off va"
proof -
  have ok: "win_ok w" "unat (nr_pages w) \<le> length (peer_pinned h (peer_window w))" using w by (simp_all add: reach_ok_def dma_ok_def)
  let ?pg = "peer_pinned h (peer_window w) ! ((unat off - wlo w) div 4096)"
  note pg = page_of_nth [OF x ok(2)]
  have "page_ok h ?pg" using w pg(2) by (simp add: reach_ok_def)
  then have "unat (phys_to_virt h (page_to_phys h ?pg)) mod 4096 = 0" "phys_to_virt h (page_to_phys h ?pg) \<noteq> 0"
    using h by (auto simp: page_ok_def host_mem_ok_def)
  then have "va_src h True w off (phys_to_virt h (page_to_phys h ?pg) OR (off AND (WPAGE - 1)))"
    using w(2) ok(1) x(1) by (intro in_page_va) (simp_all add: va_names_def)
  then show ?thesis using pg(1) by (simp add: loopback_va_def)
qed

lemma aperture_va_src:
  assumes h: "host_mem_ok h" and w: "reach_ok h False w" "wtype w \<noteq> RMA_WINDOW_SELF" and x: "wlo w \<le> unat off" "unat off < whi w"
  shows "va_src h False w off (aper_va h + of_nat (byte_addr w (unat off)))"
  unfolding va_src_def
proof (intro conjI allI impI)
  have ok: "win_ok w" using w by (simp add: reach_ok_def dma_ok_def)
  have u: "unat (aper_va h + of_nat (byte_addr w y)) = unat (aper_va h) + byte_addr w y" if "wlo w \<le> y" "y < whi w" for y
  proof -
    have "unat (aper_va h) + byte_addr w y < 2 ^ 64" using w(1) that by (simp add: reach_ok_def)
    then show ?thesis by (simp add: unat_word_ariths unat_of_nat)
  qed
  have "unat (aper_va h) \<noteq> 0" using h by (auto simp: host_mem_ok_def unat_eq_0)
  then show "aper_va h + of_nat (byte_addr w (unat off)) \<noteq> 0" using u [OF x] by (metis add_is_0 unat_eq_0)
  fix k assume k: "unat off mod 4096 + k < 4096"
  have b: "byte_addr w (unat off + k) = byte_addr w (unat off) + k" by (rule byte_addr_page [OF ok x(1) k])
  show "va_names h False w (unat off + k) (unat (aper_va h + of_nat (byte_addr w (unat off))) + k)"
    using w(2) unfolding va_names_def Let_def u [OF x] by (simp add: b)
  have "unat (aper_va h + of_nat (byte_addr w (unat off + k))) = unat (aper_va h) + byte_addr w (unat off + k)"
    using off_in_page [OF ok x k] x by (intro u) simp_all
  then show "unat (aper_va h + of_nat (byte_addr w (unat off)) + of_nat k) = unat (aper_va h + of_nat (byte_addr w (unat off))) + k"
    unfolding u [OF x] b by (simp add: add.assoc)
qed

lemma ioremap_va_src:
  assumes h: "host_mem_ok h" and w: "reach_ok h lb w" "wtype w \<noteq> RMA_WINDOW_SELF" and x: "wlo w \<le> unat off" "unat off < whi w"
  shows "\<exists>va. ioremap_remote_gtt h off w lb = Some va \<and> va_src h lb w off va"
proof (cases lb)
  case True
  then show ?thesis using loopback_va_src [OF h] w x by (simp add: ioremap_remote_gtt_def)
next
  case False
  have "dma_ok w" using w(1) by (simp add: reach_ok_def)
  then show ?thesis using False dma_addr_start [OF _ x] aperture_va_src [OF h _ w(2) x] w(1) by (auto simp: ioremap_remote_gtt_def)
qed

section \<open>Walking along the windows\<close>

text \<open>A cursor at \<open>x\<close> in the windows \<open>ws\<close>, from where the next \<open>n\<close> bytes are all in windows.\<close>

definition at :: "reg_range list \<Rightarrow> nat \<Rightarrow> nat \<Rightarrow> cursor \<Rightarrow> bool" where
  "at ws x n c \<longleftrightarrow> unat (cur_off c) = x \<and> x + n < 2 ^ 63 \<and> wins_ok ws \<and> (\<forall>w \<in> set ws. dma_ok w) \<and>
     (\<exists>pre w rest. ws = pre @ w # rest \<and> cur_ws c = w # rest \<and> wlo w \<le> x \<and> x \<le> whi w \<and> idx_ok w (cur_idx c) \<and>
        unat (snd (cur_idx c)) \<le> x \<and> check_bytes (w # rest) 0 x n = None)"

lemma permits_0 [simp]: "permits 0 w"
  by (simp add: permits_def)

lemma at_next:
  assumes a: "at ws x n c" and n: "0 < n"
  shows "\<exists>c' w rest. next_window c = Some c' \<and> at ws x n c' \<and> cur_ws c' = w # rest \<and> w \<in> set ws \<and> wlo w \<le> x \<and> x < whi w"
proof -
  obtain pre w rest where c: "ws = pre @ w # rest" "cur_ws c = w # rest" "wlo w \<le> x" "x \<le> whi w"
    "check_bytes (w # rest) 0 x n = None" using a unfolding at_def by blast
  have w: "win_ok w" using a c(1) by (simp add: at_def wins_ok_def)
  have e: "cur_off c = end_offset w \<longleftrightarrow> x = whi w"
    using a win_ok_end(1) [OF w] by (auto simp: at_def word_unat_eq_iff)
  show ?thesis
  proof (cases "x = whi w")
    case False
    then show ?thesis using a c e by (intro exI [of _ c] exI [of _ w] exI [of _ rest]) (auto simp: next_window_def)
  next
    case True
    then have cb: "check_bytes rest 0 x n = None" using c(5) check_bytes_after [of w x rest] by simp
    then obtain v where v: "win_at rest x = Some v" using n by (cases n) (auto split: option.splits)
    then obtain u us where r: "rest = u # us" by (cases rest) (auto simp: win_at_def)
    have ok: "wins_ok (u # us)" using a c(1) r by (simp add: at_def wins_ok_append)
    have u: "wlo u \<le> x" using v r win_at_before [OF ok] by (cases "x < wlo u") auto
    moreover have "whi w \<le> wlo u" using a c(1) r by (simp add: at_def wins_ok_append)
    ultimately have "wlo u = x" using True by simp
    moreover have "wlo u < whi u" using ok win_ok_end(2) by simp
    moreover have d: "dma_ok u" using a c(1) r by (simp add: at_def)
    ultimately show ?thesis using a c r True e cb idx_ok_start [OF d]
      by (intro exI [of _ "c\<lparr>cur_ws := rest, cur_idx := no_index u\<rparr>"] exI [of _ u] exI [of _ us])
        (auto simp: next_window_def at_def wlo_def intro: exI [of _ "pre @ [w]"])
  qed
qed

lemma at_lookup:
  assumes a: "at ws x n c" and c: "cur_ws c = w # rest" "x < whi w"
  shows "\<exists>nr c'. lookup_at c = Some (of_nat (byte_addr w x), nr, c') \<and> lookup_ok w x (of_nat (byte_addr w x)) nr \<and>
    at ws x n c' \<and> cur_ws c' = w # rest"
proof -
  obtain pre where p: "ws = pre @ w # rest" "wlo w \<le> x" "idx_ok w (cur_idx c)" "unat (snd (cur_idx c)) \<le> x"
    "check_bytes (w # rest) 0 x n = None" and x: "unat (cur_off c) = x" using a c unfolding at_def by auto
  have "dma_ok w" using a p(1) by (simp add: at_def)
  from dma_addr_at [OF this, of "cur_off c" "cur_idx c"] p c(2) obtain nr idx' where
    l: "micscif_get_dma_addr w (cur_off c) (cur_idx c) = Some (of_nat (byte_addr w x), nr, idx')"
      "lookup_ok w x (of_nat (byte_addr w x)) nr" "idx_ok w idx'" "unat (snd idx') \<le> x" unfolding x by blast
  then show ?thesis using a c p by (auto simp: lookup_at_def at_def)
qed

lemma at_move:
  assumes a: "at ws x n c" and c: "cur_ws c = w # rest" and m: "unat m \<le> n" "x + unat m \<le> whi w"
  shows "at ws (x + unat m) (n - unat m) (move c m)"
proof -
  have "unat (cur_off c + m) = x + unat m" using a m by (simp add: at_def unat_word_ariths)
  moreover obtain pre where p: "ws = pre @ w # rest" "wlo w \<le> x" "idx_ok w (cur_idx c)" "unat (snd (cur_idx c)) \<le> x"
    "check_bytes (w # rest) 0 x n = None" using a c unfolding at_def by auto
  moreover have "check_bytes (w # rest) 0 (x + unat m) (n - unat m) = None"
    using check_bytes_drop [of "w # rest" 0 x "unat m" "n - unat m"] p(5) m(1) by simp
  ultimately show ?thesis using a c m by (auto simp: at_def move_def)
qed

lemma at_fewer: "at ws x n c \<Longrightarrow> m \<le> n \<Longrightarrow> at ws x m c"
  unfolding at_def using check_bytes_le by fastforce

lemma dma_op_moves:
  assumes "w \<in> set sws" "wlo w \<le> x" "lookup_ok w x sa sn" and "v \<in> set dws" "wlo v \<le> y" "lookup_ok v y da dn"
    and n: "unat n \<le> unat sn" "unat n \<le> unat dn"
  shows "moves h lb sws dws x y (unat n) [Dma f sa da n]"
  unfolding moves_def moves_via_def Let_def
proof (intro conjI allI impI)
  fix i assume i: "i < unat n"
  have "byte_addr w (x + i) = unat sa + i" "byte_addr v (y + i) = unat da + i" "x + i < whi w" "y + i < whi v"
    using assms(3,6) i n unfolding lookup_ok_def by (auto dest: spec [of _ i])
  then show "names h lb sws (x + i) (fst (concat (map op_bytes [Dma f sa da n]) ! i))"
    "names h lb dws (y + i) (snd (concat (map op_bytes [Dma f sa da n]) ! i))"
    using assms i by (simp_all add: names_I [of w] names_I [of v])
qed simp

lemma lookup_ok_shift:
  assumes l: "lookup_ok w x a nr" and m: "unat m < unat nr"
  shows "lookup_ok w (x + unat m) (a + m) (nr - m)"
proof -
  have a: "unat (a + m) = unat a + unat m" using l m by (simp add: lookup_ok_def unat_word_ariths)
  have n: "unat (nr - m) = unat nr - unat m" using m by (simp add: unat_sub word_le_nat_alt)
  have "byte_addr w (x + unat m + k) = unat a + unat m + k" if "k < unat nr - unat m" for k
    using l that unfolding lookup_ok_def by (auto dest!: spec [of _ "unat m + k"] simp: add.assoc)
  then show ?thesis using l m unfolding lookup_ok_def a n by simp
qed

lemma lookup_lines: "lookup_ok w x a nr \<Longrightarrow> x mod 64 = 0 \<Longrightarrow> unat nr mod 64 = 0"
proof -
  assume "lookup_ok w x a nr" and x: "x mod 64 = 0"
  then have "(x + unat nr) mod 4096 = 0" by (simp add: lookup_ok_def)
  then have "4096 dvd x + unat nr" by (simp add: mod_eq_0_iff_dvd)
  moreover have "(64 :: nat) dvd 4096" by simp
  ultimately have "64 dvd x + unat nr" by (rule dvd_trans [rotated])
  then have "(x + unat nr) mod 64 = 0" by (simp add: mod_eq_0_iff_dvd)
  then show ?thesis using x by (simp add: mod_eq_0_iff_dvd dvd_add_right_iff)
qed

definition body_done :: "host_mem \<Rightarrow> bool \<Rightarrow> reg_range list \<Rightarrow> reg_range list \<Rightarrow> nat \<Rightarrow> nat \<Rightarrow> nat \<Rightarrow> nat \<Rightarrow> rma_op list \<Rightarrow>
    ((int \<times> rma_op list) + (cursor \<times> cursor \<times> int \<times> rma_op list)) option \<Rightarrow> bool" where
  "body_done h lb sws dws x y r t ops res \<longleftrightarrow>
     (\<exists>src dst ret ops'. res = Some (Inr (src, dst, ret, ops @ ops')) \<and> 0 \<le> ret \<and>
        at sws (x + r) t src \<and> at dws (y + r) t dst \<and> moves h lb sws dws x y r ops')"

lemma body_doneI:
  "0 \<le> ret \<Longrightarrow> at sws (x + r) t src \<Longrightarrow> at dws (y + r) t dst \<Longrightarrow> moves h lb sws dws x y r ops' \<Longrightarrow>
   body_done h lb sws dws x y r t ops (Some (Inr (src, dst, ret, ops @ ops')))"
  unfolding body_done_def by blast

lemma body_done_step:
  assumes "moves h lb sws dws x y n ops1" and "body_done h lb sws dws (x + n) (y + n) m t (ops @ ops1) res"
  shows "body_done h lb sws dws x y (n + m) t ops res"
proof -
  obtain src dst ret ops' where r: "res = Some (Inr (src, dst, ret, (ops @ ops1) @ ops'))" "0 \<le> ret" "at sws (x + n + m) t src"
    "at dws (y + n + m) t dst" "moves h lb sws dws (x + n) (y + n) m ops'" using assms(2) unfolding body_done_def by blast
  then show ?thesis using moves_append [OF assms(1) r(5)] unfolding body_done_def
    by (intro exI [of _ src] exI [of _ dst] exI [of _ ret] exI [of _ "ops1 @ ops'"]) (simp add: add.assoc)
qed

lemma line_more: "m mod 64 = 0 \<Longrightarrow> m \<noteq> 0 \<Longrightarrow> m \<noteq> 64 \<Longrightarrow> 64 < m" for m :: nat
  by (metis linorder_neqE_nat mod_less)

lemma unat_minus_line: "64 < unat n \<Longrightarrow> unat (n - L1_CACHE_BYTES) = unat n - 64" for n :: u64
  by (simp add: unat_sub word_le_nat_alt)

lemma at_move2:
  assumes a: "at ws x (unat n + t) c" and c: "cur_ws c = w # rest" and n: "64 < unat n" and b: "x + unat n \<le> whi w"
  shows "at ws (x + unat n) t (move (move c (n - L1_CACHE_BYTES)) L1_CACHE_BYTES)"
proof -
  note u = unat_minus_line [OF n]
  have "at ws (x + (unat n - 64)) (64 + t) (move c (n - L1_CACHE_BYTES))"
    using at_move [OF a c, of "n - L1_CACHE_BYTES"] b n by (simp add: u add.commute)
  from at_move [OF this, of w rest L1_CACHE_BYTES] show ?thesis using c b n by (simp add: move_def)
qed

lemma last_line_moves:
  assumes w: "w \<in> set sws" "wlo w \<le> x" "lookup_ok w x sa sn" and v: "v \<in> set dws" "wlo v \<le> y" "lookup_ok v y da dn"
    and n: "unat n \<le> unat sn" "unat n \<le> unat dn" "64 < unat n"
  shows "moves h lb sws dws x y (unat n)
    [Dma DO_DMA_POLLING sa da (n - L1_CACHE_BYTES), Dma NO_FLAG (sa + (n - L1_CACHE_BYTES)) (da + (n - L1_CACHE_BYTES)) L1_CACHE_BYTES]"
proof -
  let ?m = "n - L1_CACHE_BYTES"
  note u = unat_minus_line [OF n(3)]
  have "moves h lb sws dws x y (unat ?m) [Dma DO_DMA_POLLING sa da ?m]"
    using n by (intro dma_op_moves [OF w v]) (simp_all add: u)
  moreover have "moves h lb sws dws (x + unat ?m) (y + unat ?m) (unat L1_CACHE_BYTES) [Dma NO_FLAG (sa + ?m) (da + ?m) L1_CACHE_BYTES]"
  proof (rule dma_op_moves)
    show "lookup_ok w (x + unat ?m) (sa + ?m) (sn - ?m)" "lookup_ok v (y + unat ?m) (da + ?m) (dn - ?m)"
      using n by (intro lookup_ok_shift w v; simp add: u)+
    show "unat L1_CACHE_BYTES \<le> unat (sn - ?m)" "unat L1_CACHE_BYTES \<le> unat (dn - ?m)"
      using n by (simp_all add: unat_sub word_le_nat_alt u)
  qed (use w v in simp_all)
  ultimately have "moves h lb sws dws x y (unat ?m + unat L1_CACHE_BYTES)
      ([Dma DO_DMA_POLLING sa da ?m] @ [Dma NO_FLAG (sa + ?m) (da + ?m) L1_CACHE_BYTES])" by (rule moves_append)
  moreover have "unat ?m + unat L1_CACHE_BYTES = unat n" using n(3) by (simp add: u)
  ultimately show ?thesis by simp
qed

lemma dma_body_spec:
  assumes dma: "\<And>k. 0 \<le> dma k"
    and "at sws x (unat rem + t) src" and "at dws y (unat rem + t) dst" and "unat rem mod 64 = 0"
    and "rem \<noteq> 0 \<Longrightarrow> x mod 64 = 0 \<and> y mod 64 = 0" and "0 \<le> ret"
  shows "body_done h lb sws dws x y (unat rem) t ops (dma_body dma ord tln src dst rem k ret ops)"
  using assms(2-6)
proof (induction "unat rem" arbitrary: x y src dst rem k ret ops rule: less_induct)
  case less
  show ?case
  proof (cases "rem = 0")
    case True
    then show ?thesis using less.prems body_doneI [of ret sws x 0 t src dws y dst h lb "[]" ops] by (simp add: dma_body.simps [of _ _ _ _ _ 0])
  next
    case False
    have r: "0 < unat rem" using False by (simp add: unat_gt_0)
    have al: "x mod 64 = 0" "y mod 64 = 0" using less.prems(4) False by auto
    obtain src1 w ws' where s1: "next_window src = Some src1" "at sws x (unat rem + t) src1" "cur_ws src1 = w # ws'" "w \<in> set sws" "wlo w \<le> x" "x < whi w"
      using at_next [OF less.prems(1)] r by auto
    obtain dst1 v vs' where d1: "next_window dst = Some dst1" "at dws y (unat rem + t) dst1" "cur_ws dst1 = v # vs'" "v \<in> set dws" "wlo v \<le> y" "y < whi v"
      using at_next [OF less.prems(2)] r by auto
    obtain sa sn src2 where s2: "lookup_at src1 = Some (sa, sn, src2)" "lookup_ok w x sa sn" "at sws x (unat rem + t) src2" "cur_ws src2 = w # ws'"
      using at_lookup [OF s1(2,3,6)] by blast
    obtain da dn dst2 where d2: "lookup_at dst1 = Some (da, dn, dst2)" "lookup_ok v y da dn" "at dws y (unat rem + t) dst2" "cur_ws dst2 = v # vs'"
      using at_lookup [OF d1(2,3,6)] by blast
    define n where "n = min (min sn dn) rem"
    have n: "unat n \<le> unat sn" "unat n \<le> unat dn" "unat n \<le> unat rem" "n \<noteq> 0" "n \<le> rem"
      using lookup_at_pos [OF s2(1)] lookup_at_pos [OF d2(1)] False by (auto simp: n_def min_def word_le_nat_alt)
    have n64: "unat n mod 64 = 0" using lookup_lines [OF s2(2) al(1)] lookup_lines [OF d2(2) al(2)] less.prems(3)
      by (simp add: n_def min_def)
    have b: "x + unat n \<le> whi w" "y + unat n \<le> whi v" using s2(2) d2(2) n by (simp_all add: lookup_ok_def)
    have nneg: "\<not> dma k < 0" for k using dma [of k] by linarith
    note step = dma_body.simps [of dma ord tln src dst rem k ret ops]
    show ?thesis
    proof (cases "ord \<and> tln = 0 \<and> rem - n = 0 \<and> n \<noteq> L1_CACHE_BYTES")
      case True
      then have rn: "rem = n" by simp
      have "unat n \<noteq> 64" using True word_unat_eq_iff [of n L1_CACHE_BYTES] by simp
      then have n65: "64 < unat n" using n64 n(4) unat_eq_0 [of n] by (intro line_more) simp_all
      have e: "rem - (n - L1_CACHE_BYTES) = L1_CACHE_BYTES" using rn by simp
      have "dma_body dma ord tln src dst rem k ret ops =
          Some (Inr (move (move src2 (n - L1_CACHE_BYTES)) L1_CACHE_BYTES, move (move dst2 (n - L1_CACHE_BYTES)) L1_CACHE_BYTES, dma (k + 1),
            ops @ [Dma DO_DMA_POLLING sa da (n - L1_CACHE_BYTES), Dma NO_FLAG (sa + (n - L1_CACHE_BYTES)) (da + (n - L1_CACHE_BYTES)) L1_CACHE_BYTES]))"
        unfolding step if_not_P [OF False] s1(1) d1(1) s2(1) d2(1) option.case prod.case Let_def n_def [symmetric] if_P [OF True]
          e if_not_P [OF nneg] ..
      moreover have "at sws (x + unat n) t (move (move src2 (n - L1_CACHE_BYTES)) L1_CACHE_BYTES)"
        "at dws (y + unat n) t (move (move dst2 (n - L1_CACHE_BYTES)) L1_CACHE_BYTES)"
        using at_move2 [OF s2(3) [unfolded rn] s2(4) n65 b(1)] at_move2 [OF d2(3) [unfolded rn] d2(4) n65 b(2)] by blast+
      moreover have "moves h lb sws dws x y (unat n)
          [Dma DO_DMA_POLLING sa da (n - L1_CACHE_BYTES), Dma NO_FLAG (sa + (n - L1_CACHE_BYTES)) (da + (n - L1_CACHE_BYTES)) L1_CACHE_BYTES]"
        by (rule last_line_moves [OF s1(4,5) s2(2) d1(4,5) d2(2) n(1,2) n65])
      ultimately show ?thesis using body_doneI [OF dma] unfolding rn by presburger
    next
      case no: False
      have ur: "unat (rem - n) = unat rem - unat n" using n(5) by (simp add: unat_sub)
      have "dma_body dma ord tln src dst rem k ret ops =
          dma_body dma ord tln (move src2 n) (move dst2 n) (rem - n) (k + 1) (dma k) (ops @ [Dma NO_FLAG sa da n])"
        unfolding step if_not_P [OF False] s1(1) d1(1) s2(1) d2(1) option.case prod.case Let_def n_def [symmetric] if_not_P [OF no]
          if_not_P [OF nneg] ..
      moreover have "body_done h lb sws dws (x + unat n) (y + unat n) (unat (rem - n)) t (ops @ [Dma NO_FLAG sa da n])
          (dma_body dma ord tln (move src2 n) (move dst2 n) (rem - n) (k + 1) (dma k) (ops @ [Dma NO_FLAG sa da n]))"
      proof (rule less.hyps)
        show "unat (rem - n) < unat rem" using ur n(4) r by (simp add: unat_gt_0)
        show "at sws (x + unat n) (unat (rem - n) + t) (move src2 n)" "at dws (y + unat n) (unat (rem - n) + t) (move dst2 n)"
          using at_move [OF s2(3,4), of n] at_move [OF d2(3,4), of n] n b ur by simp_all
        show "unat (rem - n) mod 64 = 0" unfolding ur using n64 less.prems(3) by (simp add: mod_eq_0_iff_dvd dvd_diff_nat)
        show "(x + unat n) mod 64 = 0 \<and> (y + unat n) mod 64 = 0" using al n64 by (simp add: mod_eq_0_iff_dvd)
      qed (rule dma)
      moreover have "moves h lb sws dws x y (unat n) [Dma NO_FLAG sa da n]"
        by (rule dma_op_moves [OF s1(4,5) s2(2) d1(4,5) d2(2) n(1,2)])
      ultimately show ?thesis using body_done_step [of h lb sws dws x y "unat n" _ "unat rem - unat n"] n(3) by (simp add: ur)
    qed
  qed
qed

section \<open>Pieces copied by the processor\<close>

lemma cpu_op_moves:
  assumes w: "w \<in> set sws" "wlo w \<le> unat soff" "unat soff < whi w" "win_ok w" "va_src h lb w soff sv"
    and v: "v \<in> set dws" "wlo v \<le> unat doff" "unat doff < whi v" "win_ok v" "va_src h lb v doff dv"
    and n: "unat soff mod 4096 + unat n \<le> 4096" "unat doff mod 4096 + unat n \<le> 4096"
  shows "moves h lb sws dws (unat soff) (unat doff) (unat n) [Cpu sv dv n]"
  unfolding moves_def moves_via_def Let_def
proof (intro conjI allI impI)
  fix i assume i: "i < unat n"
  have s: "unat soff mod 4096 + i < 4096" "unat doff mod 4096 + i < 4096" using n i by linarith+
  show "names h lb sws (unat soff + i) (fst (concat (map op_bytes [Cpu sv dv n]) ! i))"
    using w i off_in_page(2) [OF w(4,2,3) s(1)] va_src_names(1) [OF w(5) s(1)] by (intro names_I [of w]) simp_all
  show "names h lb dws (unat doff + i) (snd (concat (map op_bytes [Cpu sv dv n]) ! i))"
    using v i off_in_page(2) [OF v(4,2,3) s(2)] va_src_names(1) [OF v(5) s(2)] by (intro names_I [of v]) simp_all
qed simp

lemma ordered_bytes:
  assumes "0 < unat n" and "unat (s + (n - 1)) = unat s + (unat n - 1)" and "unat (d + (n - 1)) = unat d + (unat n - 1)"
  shows "concat (map op_bytes (ordered_memcpy d s n)) = op_bytes (Cpu s d n)"
proof -
  have "n \<noteq> 0" using assms(1) by auto
  moreover from this have "unat (n - 1) = unat n - 1" by (rule unat_minus_one)
  moreover have "[0..<unat n] = [0..<unat n - 1] @ [unat n - 1]" using assms(1) by (metis upt_Suc_append Suc_diff_1 zero_le)
  ultimately show ?thesis using assms by (simp add: ordered_memcpy_def)
qed

lemma unaligned_memcpy_moves:
  assumes w: "w \<in> set sws" "wlo w \<le> unat soff" "unat soff < whi w" "win_ok w" "va_src h lb w soff sv"
    and v: "v \<in> set dws" "wlo v \<le> unat doff" "unat doff < whi v" "win_ok v" "va_src h lb v doff dv"
    and n: "unat soff mod 4096 + unat n \<le> 4096" "unat doff mod 4096 + unat n \<le> 4096" "0 < unat n"
  shows "moves h lb sws dws (unat soff) (unat doff) (unat n) (micscif_unaligned_memcpy dv sv n ord)"
proof (cases ord)
  case True
  have k: "n - 1 = of_nat (unat n - 1)" using n(3) by (simp add: of_nat_diff)
  have "unat soff mod 4096 + (unat n - 1) < 4096" "unat doff mod 4096 + (unat n - 1) < 4096" using n by linarith+
  then have "unat (sv + (n - 1)) = unat sv + (unat n - 1)" "unat (dv + (n - 1)) = unat dv + (unat n - 1)"
    unfolding k using va_src_names(2) w(5) v(5) by blast+
  then have "concat (map op_bytes (ordered_memcpy dv sv n)) = op_bytes (Cpu sv dv n)" by (rule ordered_bytes [OF n(3)])
  then show ?thesis using cpu_op_moves [OF w v n(1,2)] True by (simp add: moves_def moves_via_def micscif_unaligned_memcpy_def)
next
  case False
  then show ?thesis using cpu_op_moves [OF w v n(1,2)] by (simp add: micscif_unaligned_memcpy_def)
qed

lemma side_va_src:
  assumes h: "host_mem_ok h" and w: "reach_ok h lb w" "bus_side_ok w" and x: "wlo w \<le> unat off" "unat off < whi w"
  shows "\<exists>va. side_va h lb (of_nat (byte_addr w (unat off))) off w = Some va \<and> va_src h lb w off va"
proof -
  have "is_local_dma_addr (of_nat (byte_addr w (unat off))) = (wtype w = RMA_WINDOW_SELF)"
    using w(2) x by (simp add: bus_side_ok_def is_local_dma_addr_def)
  then show ?thesis using local_va_src [OF w(1) _ x] ioremap_va_src [OF h w(1) _ x] by (auto simp: side_va_def)
qed

lemma cpu_piece_spec:
  assumes h: "host_mem_ok h" and sok: "\<forall>w \<in> set sws. reach_ok h lb w \<and> bus_side_ok w" and dok: "\<forall>w \<in> set dws. reach_ok h lb w \<and> bus_side_ok w"
    and s: "at sws x N src" "cur_ws src = w # ws'" "x < whi w" and d: "at dws y N dst" "cur_ws dst = v # vs'" "y < whi v"
    and n: "x mod 4096 + unat n \<le> 4096" "y mod 4096 + unat n \<le> 4096" "0 < unat n"
  shows "\<exists>ops. cpu_piece h lb ord src dst n = Some (0, ops) \<and> moves h lb sws dws x y (unat n) ops"
proof -
  have x: "unat (cur_off src) = x" "unat (cur_off dst) = y" using s(1) d(1) by (simp_all add: at_def)
  have w: "w \<in> set sws" "wlo w \<le> x" "dma_ok w" and v: "v \<in> set dws" "wlo v \<le> y" "dma_ok v"
    using s d unfolding at_def by auto
  then have ok: "win_ok w" "win_ok v" by (simp_all add: dma_ok_def)
  obtain sn si where ds: "micscif_get_dma_addr w (cur_off src) (no_index w) = Some (of_nat (byte_addr w x), sn, si)"
    using dma_addr_start [OF w(3), of "cur_off src"] w(2) s(3) unfolding x by blast
  obtain dn di where dd: "micscif_get_dma_addr v (cur_off dst) (no_index v) = Some (of_nat (byte_addr v y), dn, di)"
    using dma_addr_start [OF v(3), of "cur_off dst"] v(2) d(3) unfolding x by blast
  obtain sv where sv: "side_va h lb (of_nat (byte_addr w x)) (cur_off src) w = Some sv" "va_src h lb w (cur_off src) sv"
    using side_va_src [OF h, of lb w "cur_off src"] sok w(1,2) s(3) unfolding x by blast
  obtain dv where dv: "side_va h lb (of_nat (byte_addr v y)) (cur_off dst) v = Some dv" "va_src h lb v (cur_off dst) dv"
    using side_va_src [OF h, of lb v "cur_off dst"] dok v(1,2) d(3) unfolding x by blast
  let ?ops = "if is_local_dma_addr (of_nat (byte_addr w x)) then micscif_unaligned_memcpy dv sv n ord else [Cpu sv dv n]"
  have "cpu_piece h lb ord src dst n = Some (0, ?ops)"
    using s(2) d(2) ds dd sv dv va_src_nonzero [OF sv(2)] va_src_nonzero [OF dv(2)] by (simp add: cpu_piece_def)
  moreover have "moves h lb sws dws x y (unat n) ?ops"
    using unaligned_memcpy_moves [of w sws "cur_off src" h lb sv v dws "cur_off dst" dv n ord]
      cpu_op_moves [of w sws "cur_off src" h lb sv v dws "cur_off dst" dv n] w v ok s(3) d(3) sv(2) dv(2) n
    unfolding x by simp
  ultimately show ?thesis by blast
qed

section \<open>The whole copy\<close>

text \<open>
  A copy that may be issued: the first window on each side has the first byte, and the range on each side lies in windows, as
  \<open>micscif_query_window\<close> has checked.
\<close>

definition side_ok :: "host_mem \<Rightarrow> bool \<Rightarrow> reg_range list \<Rightarrow> u64 \<Rightarrow> u64 \<Rightarrow> bool" where
  "side_ok h lb ws off n \<longleftrightarrow> wins_ok ws \<and> (\<forall>w \<in> set ws. reach_ok h lb w) \<and> unat off + unat n < 2 ^ 63 \<and>
     ws \<noteq> [] \<and> wlo (hd ws) \<le> unat off \<and> unat off < whi (hd ws) \<and> check_bytes ws 0 (unat off) (unat n) = None"

lemma start_at:
  assumes "side_ok h lb ws off n"
  shows "at ws (unat off) (unat n) (start_cursor ws off)"
proof -
  obtain w rest where ws: "ws = w # rest" using assms by (cases ws) (auto simp: side_ok_def)
  have d: "\<forall>v \<in> set ws. dma_ok v" using assms by (auto simp: side_ok_def reach_ok_def)
  then have "idx_ok w (no_index w)" using ws idx_ok_start by simp
  then show ?thesis using assms ws d unfolding at_def
    by (intro conjI exI [of _ "[]"] exI [of _ w] exI [of _ rest]) (auto simp: side_ok_def start_cursor_def wlo_def)
qed

lemma line_off: "unat (off AND (L1_CACHE_BYTES - 1)) = unat off mod 64" for off :: u64
  using unat_and_pow2_minus_1 [of "L1_CACHE_BYTES" 6 off] by simp

lemma line_in_page: "x mod 64 + n \<le> 64 \<Longrightarrow> x mod 4096 + n \<le> 4096" for x n :: nat
proof -
  assume a: "x mod 64 + n \<le> 64"
  have "x mod 4096 mod 64 = x mod 64" by (simp add: mod_mod_cancel)
  then have "x mod 4096 = x mod 4096 div 64 * 64 + x mod 64" using div_mult_mod_eq [of "x mod 4096" 64] by simp
  moreover have "x mod 4096 div 64 < 64" using mod_less_divisor [of 4096 x] by (simp add: div_less_iff_less_mult)
  ultimately show ?thesis using a by linarith
qed

lemma line_fill: "(x + (64 - x mod 64)) mod 64 = 0" for x :: nat
proof -
  have "x + (64 - x mod 64) = (x div 64 + 1) * 64"
    using div_mult_mod_eq [of x 64] mod_less_divisor [of 64 x] unfolding add_mult_distrib by linarith
  then show ?thesis by (metis mod_mult_self2_is_0)
qed

text \<open>After the head either nothing is left or both sides are at the start of a cache line.\<close>

lemma copy_head_spec:
  assumes h: "host_mem_ok h" and s: "side_ok h (loopback work) (src_windows work) (src_offset work) (len work)"
    and d: "side_ok h (loopback work) (dst_windows work) (dst_offset work) (len work)"
    and b: "\<forall>w \<in> set (src_windows work @ dst_windows work). bus_side_ok w"
    and c: "unat (src_offset work) mod 64 = unat (dst_offset work) mod 64" and l: "0 < unat (len work)"
  defines "src \<equiv> start_cursor (src_windows work) (src_offset work)" and "dst \<equiv> start_cursor (dst_windows work) (dst_offset work)"
    and "x \<equiv> unat (src_offset work)" and "y \<equiv> unat (dst_offset work)"
  shows "\<exists>ops src' dst' r m. copy_head h work src dst = Some (0, ops, src', dst', r) \<and> m + unat r = unat (len work) \<and>
    at (src_windows work) (x + m) (unat r) src' \<and> at (dst_windows work) (y + m) (unat r) dst' \<and>
    moves h (loopback work) (src_windows work) (dst_windows work) x y m ops \<and> (r \<noteq> 0 \<longrightarrow> (x + m) mod 64 = 0 \<and> (y + m) mod 64 = 0)"
proof -
  note at0 = start_at [OF s, folded src_def x_def] start_at [OF d, folded dst_def y_def]
  have o: "cur_off src = src_offset work" by (simp add: src_def start_cursor_def)
  have off: "unat (cur_off src AND (L1_CACHE_BYTES - 1)) = x mod 64" unfolding line_off o x_def ..
  show ?thesis
  proof (cases "x mod 64 = 0")
    case True
    then have "cur_off src AND (L1_CACHE_BYTES - 1) = 0" using off by (simp add: unat_eq_0)
    then have "copy_head h work src dst = Some (0, [], src, dst, len work)" by (simp add: copy_head_def)
    then show ?thesis using at0 True c unfolding x_def y_def
      by (intro exI [of _ "[]"] exI [of _ src] exI [of _ dst] exI [of _ "len work"] exI [of _ 0]) simp
  next
    case False
    have nz: "cur_off src AND (L1_CACHE_BYTES - 1) \<noteq> 0" using False off by (auto simp: unat_eq_0 [symmetric])
    define n where "n = min (L1_CACHE_BYTES - (cur_off src AND (L1_CACHE_BYTES - 1))) (len work)"
    have "unat (L1_CACHE_BYTES - (cur_off src AND (L1_CACHE_BYTES - 1))) = 64 - x mod 64"
      using off by (subst unat_sub) (simp_all add: word_le_nat_alt)
    then have n: "unat n = min (64 - x mod 64) (unat (len work))" by (simp add: n_def min_def word_le_nat_alt)
    have n1: "0 < unat n" "unat n \<le> unat (len work)" "x mod 64 + unat n \<le> 64" "y mod 64 + unat n \<le> 64"
      using n l c by (auto simp: x_def y_def)
    obtain w ws where w: "src_windows work = w # ws" "wlo w \<le> x" "x < whi w" "win_ok w"
      using s by (cases "src_windows work") (auto simp: side_ok_def x_def)
    obtain v vs where v: "dst_windows work = v # vs" "wlo v \<le> y" "y < whi v" "win_ok v"
      using d by (cases "dst_windows work") (auto simp: side_ok_def y_def)
    have cw: "cur_ws src = w # ws" "cur_ws dst = v # vs" using w v by (simp_all add: src_def dst_def start_cursor_def)
    have ok: "\<forall>w \<in> set (src_windows work). reach_ok h (loopback work) w \<and> bus_side_ok w" "\<forall>w \<in> set (dst_windows work). reach_ok h (loopback work) w \<and> bus_side_ok w"
      using s d b by (auto simp: side_ok_def)
    obtain ops where p: "cpu_piece h (loopback work) (len work = n \<and> ordered work) src dst n = Some (0, ops)"
      "moves h (loopback work) (src_windows work) (dst_windows work) x y (unat n) ops"
      using cpu_piece_spec [OF h ok at0(1) cw(1) w(3) at0(2) cw(2) v(3) line_in_page [OF n1(3)] line_in_page [OF n1(4)] n1(1)] by blast
    have e: "x + unat n \<le> whi w" "y + unat n \<le> whi v"
      using off_in_page(2) [OF w(4), of "src_offset work" "unat n - 1"] off_in_page(2) [OF v(4), of "dst_offset work" "unat n - 1"]
        line_in_page [OF n1(3)] line_in_page [OF n1(4)] w v n1(1) unfolding x_def y_def by linarith+
    have r: "unat (len work - n) = unat (len work) - unat n" using n1 by (simp add: unat_sub word_le_nat_alt)
    have "copy_head h work src dst = Some (0, ops, move src n, move dst n, len work - n)"
      unfolding copy_head_def Let_def n_def [symmetric] if_P [OF nz] p(1) by simp
    moreover have "(x + unat n) mod 64 = 0 \<and> (y + unat n) mod 64 = 0" if "len work - n \<noteq> 0"
    proof -
      have "unat n \<noteq> unat (len work)" using that by (metis right_minus_eq word_unat_eq_iff)
      then have "unat n = 64 - x mod 64" using n by linarith
      then show ?thesis using line_fill [of x] line_fill [of y] c unfolding x_def y_def by simp
    qed
    ultimately show ?thesis using at_move [OF at0(1) cw(1) n1(2) e(1)] at_move [OF at0(2) cw(2) n1(2) e(2)] p(2) n1(2) r
      by (intro exI [of _ ops] exI [of _ "move src n"] exI [of _ "move dst n"] exI [of _ "len work - n"] exI [of _ "unat n"]) simp
  qed
qed

lemma copy_tail_spec:
  assumes h: "host_mem_ok h" and sok: "\<forall>w \<in> set sws. reach_ok h (loopback work) w \<and> bus_side_ok w"
    and dok: "\<forall>w \<in> set dws. reach_ok h (loopback work) w \<and> bus_side_ok w"
    and s: "at sws x (unat t) src" and d: "at dws y (unat t) dst" and t: "t \<noteq> 0 \<Longrightarrow> x mod 64 = 0 \<and> y mod 64 = 0" "unat t < 64"
    and ret: "0 \<le> ret"
  shows "\<exists>ret' ops'. copy_tail h 0 work t src dst ret ops = Some (ret', ops @ ops') \<and> 0 \<le> ret' \<and>
    moves h (loopback work) sws dws x y (unat t) ops'"
proof (cases "t = 0")
  case True
  then show ?thesis using ret by (auto simp: copy_tail_def)
next
  case False
  have t0: "0 < unat t" using False by (simp add: unat_gt_0)
  obtain src' w ws where s': "next_window src = Some src'" "at sws x (unat t) src'" "cur_ws src' = w # ws" "x < whi w"
    using at_next [OF s t0] by blast
  obtain dst' v vs where d': "next_window dst = Some dst'" "at dws y (unat t) dst'" "cur_ws dst' = v # vs" "y < whi v"
    using at_next [OF d t0] by blast
  have "x mod 64 + unat t \<le> 64" "y mod 64 + unat t \<le> 64" using t False by auto
  then obtain ops' where p: "cpu_piece h (loopback work) (ordered work) src' dst' t = Some (0, ops')" "moves h (loopback work) sws dws x y (unat t) ops'"
    using cpu_piece_spec [OF h sok dok s'(2-4) d'(2-4) line_in_page line_in_page t0] by blast
  have "moves h (loopback work) sws dws x y (unat t) ((if ordered work then [Drain] else []) @ ops')"
    using p(2) by (simp add: moves_def moves_via_def)
  then show ?thesis using False s'(1) d'(1) p(1) cpu_piece_dma [OF p(1)] ret by (auto simp: copy_tail_def)
qed

lemma cpu_va_spec:
  assumes h: "host_mem_ok h" and sok: "\<forall>w \<in> set ws. reach_ok h lb w" and a: "at ws x n c" "cur_ws c = w # rest" "x < whi w"
  shows "\<exists>va c'. cpu_va h lb c = Some (va, c') \<and> va_src h lb w (cur_off c) va \<and> at ws x n c' \<and> cur_ws c' = w # rest \<and> cur_off c' = cur_off c"
proof -
  have x: "unat (cur_off c) = x" using a(1) by (simp add: at_def)
  have w: "w \<in> set ws" "wlo w \<le> x" "dma_ok w" "idx_ok w (cur_idx c)" "unat (snd (cur_idx c)) \<le> x"
    using a unfolding at_def by auto
  have r: "reach_ok h lb w" using sok w(1) by blast
  show ?thesis
  proof (cases "wtype w = RMA_WINDOW_SELF")
    case True
    then show ?thesis using local_va_src [OF r True, of "cur_off c"] w(2) a unfolding x by (auto simp: cpu_va_def)
  next
    case False
    obtain va where va: "ioremap_remote_gtt h (cur_off c) w lb = Some va" "va_src h lb w (cur_off c) va"
      using ioremap_va_src [OF h r False, of "cur_off c"] w(2) a(3) unfolding x by blast
    obtain nr idx' where l: "micscif_get_dma_addr w (cur_off c) (cur_idx c) = Some (of_nat (byte_addr w x), nr, idx')"
      "idx_ok w idx'" "unat (snd idx') \<le> x"
      using dma_addr_at [OF w(3), of "cur_off c" "cur_idx c"] w a(3) unfolding x by blast
    obtain nr0 idx0 where l0: "micscif_get_dma_addr w (cur_off c) (no_index w) = Some (of_nat (byte_addr w x), nr0, idx0)"
      using dma_addr_start [OF w(3), of "cur_off c"] w a(3) unfolding x by blast
    have "\<exists>idx'. ioremap_remote h (cur_off c) w lb (cur_idx c) = Some (va, idx') \<and> idx_ok w idx' \<and> unat (snd idx') \<le> x"
      using va(1) l l0 w by (cases lb) (auto simp: ioremap_remote_def ioremap_remote_gtt_def)
    then obtain idx1 where i: "ioremap_remote h (cur_off c) w lb (cur_idx c) = Some (va, idx1)" "idx_ok w idx1" "unat (snd idx1) \<le> x" by blast
    have "at ws x n (c\<lparr>cur_idx := idx1\<rparr>)" using a i unfolding at_def by auto
    then show ?thesis using False i(1) va a(2) by (auto simp: cpu_va_def)
  qed
qed

lemma page_len_nat:
  fixes soff doff remaining :: u64
  assumes "remaining \<noteq> 0"
  defines "n \<equiv> page_len soff doff remaining"
  shows "unat n \<le> unat remaining" and "unat soff mod 4096 + unat n \<le> 4096" and "unat doff mod 4096 + unat n \<le> 4096" and "0 < unat n"
proof -
  let ?m = "max (soff AND (WPAGE - 1)) (doff AND (WPAGE - 1))"
  have m: "unat ?m = max (unat soff mod 4096) (unat doff mod 4096)"
    using page_off [of soff] page_off [of doff] by (auto simp: max_def word_le_nat_alt)
  have "unat soff mod 4096 < 4096" "unat doff mod 4096 < 4096" by simp_all
  then have "unat (WPAGE - ?m) = 4096 - unat ?m" using m by (subst unat_sub) (auto simp: word_le_nat_alt)
  then have "unat n \<le> 4096 - unat ?m" by (auto simp: n_def page_len_def Let_def word_less_nat_alt)
  then show "unat soff mod 4096 + unat n \<le> 4096" "unat doff mod 4096 + unat n \<le> 4096"
    using m \<open>unat soff mod 4096 < 4096\<close> \<open>unat doff mod 4096 < 4096\<close> by (auto simp: max_def split: if_splits)
  show "unat n \<le> unat remaining" "0 < unat n" using page_len_pos [OF assms(1)] unfolding n_def by (auto simp: word_le_nat_alt unat_gt_0)
qed

lemma cpu_loop_spec:
  assumes h: "host_mem_ok h" and sok: "\<forall>w \<in> set sws. reach_ok h lb w" and dok: "\<forall>w \<in> set dws. reach_ok h lb w"
    and "at sws x (unat rem) src" and "cur_ws src = w # ws'" and "x < whi w"
    and "at dws y (unat rem) dst" and "cur_ws dst = v # vs'" and "y < whi v"
  shows "\<exists>ops'. cpu_loop h lb src dst rem ops = Some (0, ops @ ops') \<and> moves h lb sws dws x y (unat rem) ops'"
  using assms(4-9)
proof (induction "unat rem" arbitrary: x y src dst rem ops w ws' v vs' rule: less_induct)
  case less
  show ?case
  proof (cases "rem = 0")
    case True
    then show ?thesis by (simp add: cpu_loop.simps [of _ _ _ _ 0])
  next
    case False
    define n where "n = page_len (cur_off src) (cur_off dst) rem"
    have x: "unat (cur_off src) = x" "unat (cur_off dst) = y" using less.prems by (simp_all add: at_def)
    note n = page_len_nat [OF False, where soff = "cur_off src" and doff = "cur_off dst", folded n_def, unfolded x]
    obtain sv src1 where s1: "cpu_va h lb src = Some (sv, src1)" "va_src h lb w (cur_off src) sv" "at sws x (unat rem) src1"
      "cur_ws src1 = w # ws'" using cpu_va_spec [OF h sok less.prems(1-3)] by blast
    obtain dv dst1 where d1: "cpu_va h lb dst = Some (dv, dst1)" "va_src h lb v (cur_off dst) dv" "at dws y (unat rem) dst1"
      "cur_ws dst1 = v # vs'" using cpu_va_spec [OF h dok less.prems(4-6)] by blast
    have w: "w \<in> set sws" "wlo w \<le> x" "win_ok w" and v: "v \<in> set dws" "wlo v \<le> y" "win_ok v"
      using less.prems unfolding at_def by (auto simp: dma_ok_def)
    have mv: "moves h lb sws dws x y (unat n) [Cpu sv dv n]"
      using cpu_op_moves [of w sws "cur_off src" h lb sv v dws "cur_off dst" dv n] w v less.prems(3,6) s1(2) d1(2) n unfolding x by blast
    have nz: "sv \<noteq> 0" "dv \<noteq> 0" using va_src_nonzero s1(2) d1(2) by blast+
    note step = cpu_loop.simps [of h lb src dst rem ops, unfolded if_not_P [OF False] Let_def n_def [symmetric] s1(1) d1(1)
      option.case prod.case if_not_P [OF nz(1)] if_not_P [OF nz(2)]]
    show ?thesis
    proof (cases "rem - n = 0")
      case True
      then have "unat n = unat rem" by simp
      then show ?thesis using mv True step by simp
    next
      case ne: False
      have ur: "unat (rem - n) = unat rem - unat n" using n(1) by (simp add: unat_sub word_le_nat_alt)
      have r0: "0 < unat (rem - n)" using ne by (simp add: unat_gt_0)
      have e: "x + unat n \<le> whi w" "y + unat n \<le> whi v"
        using off_in_page(2) [OF w(3), of "cur_off src" "unat n - 1"] off_in_page(2) [OF v(3), of "cur_off dst" "unat n - 1"]
          w v less.prems(3,6) n unfolding x by linarith+
      have a: "at sws (x + unat n) (unat (rem - n)) (move src1 n)" "at dws (y + unat n) (unat (rem - n)) (move dst1 n)"
        using at_move [OF s1(3,4) n(1) e(1)] at_move [OF d1(3,4) n(1) e(2)] unfolding ur by blast+
      obtain src2 w2 ws2 where s2: "next_window (move src1 n) = Some src2" "at sws (x + unat n) (unat (rem - n)) src2" "cur_ws src2 = w2 # ws2" "x + unat n < whi w2"
        using at_next [OF a(1) r0] by blast
      obtain dst2 v2 vs2 where d2: "next_window (move dst1 n) = Some dst2" "at dws (y + unat n) (unat (rem - n)) dst2" "cur_ws dst2 = v2 # vs2" "y + unat n < whi v2"
        using at_next [OF a(2) r0] by blast
      have "unat (rem - n) < unat rem" using ur n(1,4) by linarith
      from less.hyps [OF this s2(2-4) d2(2-4), of "ops @ [Cpu sv dv n]"] obtain ops' where
        i: "cpu_loop h lb src2 dst2 (rem - n) (ops @ [Cpu sv dv n]) = Some (0, (ops @ [Cpu sv dv n]) @ ops')"
          "moves h lb sws dws (x + unat n) (y + unat n) (unat (rem - n)) ops'" by blast
      have "moves h lb sws dws x y (unat n + unat (rem - n)) ([Cpu sv dv n] @ ops')" by (rule moves_append [OF mv i(2)])
      moreover have "unat n + unat (rem - n) = unat rem" using ur n(1) by linarith
      ultimately show ?thesis using step ne s2(1) d2(1) i(1) by auto
    qed
  qed
qed

lemma dma_copy_moves:
  assumes h: "host_mem_ok h" and dma: "\<And>k. 0 \<le> dma k" and l: "0 < unat (len work)"
    and s: "side_ok h (loopback work) (src_windows work) (src_offset work) (len work)"
    and d: "side_ok h (loopback work) (dst_windows work) (dst_offset work) (len work)"
    and b: "\<forall>w \<in> set (src_windows work @ dst_windows work). bus_side_ok w"
    and c: "unat (src_offset work) mod 64 = unat (dst_offset work) mod 64"
  shows "\<exists>ret ops. micscif_rma_list_dma_copy_aligned h dma 0 work = Some (ret, ops) \<and> 0 \<le> ret \<and>
    moves h (loopback work) (src_windows work) (dst_windows work) (unat (src_offset work)) (unat (dst_offset work)) (unat (len work)) ops"
proof -
  let ?sw = "src_windows work" and ?dw = "dst_windows work" and ?x = "unat (src_offset work)" and ?y = "unat (dst_offset work)" and ?lb = "loopback work"
  obtain ops src dst r m where hd: "copy_head h work (start_cursor ?sw (src_offset work)) (start_cursor ?dw (dst_offset work)) = Some (0, ops, src, dst, r)"
    "m + unat r = unat (len work)" "at ?sw (?x + m) (unat r) src" "at ?dw (?y + m) (unat r) dst" "moves h ?lb ?sw ?dw ?x ?y m ops"
    "r \<noteq> 0 \<longrightarrow> (?x + m) mod 64 = 0 \<and> (?y + m) mod 64 = 0" using copy_head_spec [OF h s d b c l] by (elim exE conjE) (rule that)
  define t where "t = r AND (L1_CACHE_BYTES - 1)"
  have t: "unat t = unat r mod 64" unfolding t_def by (rule line_off)
  have tr: "t \<le> r" unfolding word_le_nat_alt t by simp
  have rb: "unat (r - t) = unat r - unat r mod 64" using tr t by (simp add: unat_sub)
  have sum: "unat (r - t) + unat t = unat r" and b64: "unat (r - t) mod 64 = 0" using rb t by (simp_all add: minus_mod_eq_mult_div)
  have "body_done h ?lb ?sw ?dw (?x + m) (?y + m) (unat (r - t)) (unat t) ops (dma_body dma (ordered work) t src dst (r - t) 0 0 ops)"
    using hd(3,4,6) sum b64 by (intro dma_body_spec dma) (auto simp: t_def)
  then obtain src' dst' ret ops1 where bd: "dma_body dma (ordered work) t src dst (r - t) 0 0 ops = Some (Inr (src', dst', ret, ops @ ops1))"
    "0 \<le> ret" "at ?sw (?x + m + unat (r - t)) (unat t) src'" "at ?dw (?y + m + unat (r - t)) (unat t) dst'"
    "moves h ?lb ?sw ?dw (?x + m) (?y + m) (unat (r - t)) ops1" unfolding body_done_def by blast
  have t0: "(?x + m + unat (r - t)) mod 64 = 0 \<and> (?y + m + unat (r - t)) mod 64 = 0" if "t \<noteq> 0"
  proof -
    have "r \<noteq> 0" using that by (auto simp: t_def)
    then show ?thesis using hd(6) b64 by (simp add: mod_eq_0_iff_dvd)
  qed
  have "unat t < 64" using t by simp
  moreover have "\<forall>w \<in> set ?sw. reach_ok h ?lb w \<and> bus_side_ok w" "\<forall>w \<in> set ?dw. reach_ok h ?lb w \<and> bus_side_ok w"
    using s d b by (auto simp: side_ok_def)
  ultimately obtain ret' ops2 where tl: "copy_tail h 0 work t src' dst' ret (ops @ ops1) = Some (ret', (ops @ ops1) @ ops2)" "0 \<le> ret'"
    "moves h ?lb ?sw ?dw (?x + m + unat (r - t)) (?y + m + unat (r - t)) (unat t) ops2"
    using copy_tail_spec [OF h _ _ bd(3,4) t0 _ bd(2)] by blast
  have "moves h ?lb ?sw ?dw ?x ?y (m + unat (r - t) + unat t) ((ops @ ops1) @ ops2)"
    using moves_append [OF moves_append [OF hd(5) bd(5)], of "unat t" ops2] tl(3) by (simp add: add.assoc)
  then have "moves h ?lb ?sw ?dw ?x ?y (unat (len work)) ((ops @ ops1) @ ops2)" using sum hd(2) by (simp add: add.assoc)
  moreover have "src_offset work AND (L1_CACHE_BYTES - 1) = dst_offset work AND (L1_CACHE_BYTES - 1)"
    unfolding word_unat_eq_iff line_off by (rule c)
  then have "micscif_rma_list_dma_copy_aligned h dma 0 work = Some (ret', (ops @ ops1) @ ops2)"
    using hd(1) bd(1) tl(1) unfolding micscif_rma_list_dma_copy_aligned_def Let_def t_def by simp
  ultimately show ?thesis using tl(2) by blast
qed

lemma cpu_copy_moves:
  assumes h: "host_mem_ok h"
    and s: "side_ok h (loopback work) (src_windows work) (src_offset work) (len work)"
    and d: "side_ok h (loopback work) (dst_windows work) (dst_offset work) (len work)"
  shows "\<exists>ops. micscif_rma_list_cpu_copy h work = Some (0, ops) \<and>
    moves h (loopback work) (src_windows work) (dst_windows work) (unat (src_offset work)) (unat (dst_offset work)) (unat (len work)) ops"
proof -
  obtain w ws where w: "src_windows work = w # ws" "unat (src_offset work) < whi w" using s by (cases "src_windows work") (auto simp: side_ok_def)
  obtain v vs where v: "dst_windows work = v # vs" "unat (dst_offset work) < whi v" using d by (cases "dst_windows work") (auto simp: side_ok_def)
  have c: "cur_ws (start_cursor (src_windows work) (src_offset work)) = w # ws" "cur_ws (start_cursor (dst_windows work) (dst_offset work)) = v # vs"
    using w v by (simp_all add: start_cursor_def)
  show ?thesis using cpu_loop_spec [OF h _ _ start_at [OF s] c(1) w(2) start_at [OF d] c(2) v(2), where ops = "[]"] s d
    unfolding micscif_rma_list_cpu_copy_def side_ok_def by simp
qed

section \<open>Properties\<close>

text \<open>A copy of 100 bytes from a window of one chunk of two pages to two adjacent windows of the peer.\<close>

definition demo_mem :: host_mem where
  "demo_mem = \<lparr>page_address = id, page_to_phys = (\<lambda>p. 0), phys_to_virt = (\<lambda>a. a + 0xffff880000000000), peer_pinned = (\<lambda>_. []),
     aper_va = 0xffffc90000000000\<rparr>"

definition demo_window :: "u64 \<Rightarrow> rma_window_type \<Rightarrow> u64 list \<Rightarrow> u64 \<Rightarrow> u32 \<Rightarrow> reg_range" where
  "demo_window off t pages dma n = \<lparr>waddr = 0, nr_pages = ucast n, nr_contig_chunks = 1, prot = 3, wref_count = 0, magic = SCIFEP_MAGIC, offset = off,
     va_for_temp = 0, wtype = t, peer_window = 0, unreg_state = OP_IDLE, offset_freed = False, pinned = pages, get_put_ref_count = 0,
     dma_addrs = [dma], num_pages = [n], wtemp = False, reg_state = OP_COMPLETED,
     alloc_handle = \<lparr>al_phys_addr = 0, al_vaddr = 0, al_state = OP_COMPLETED\<rparr>, pinned_pages = 0,
     mapped_offset = 0, nr_lookup = 0, dma_lookup = [], dma_lookup_offset = 0\<rparr>"

definition demo_src :: reg_range where
  "demo_src = demo_window 0x1000 RMA_WINDOW_SELF [0xffff880000010000, 0xffff880000011000] 0x8000010000 2"

definition demo_dst :: "reg_range list" where
  "demo_dst = [demo_window 0 RMA_WINDOW_PEER [] 0x200000 1, demo_window 0x1000 RMA_WINDOW_PEER [] 0x500000 1]"

definition demo_work :: mic_copy_work where
  "demo_work = \<lparr>src_offset = 0x1020, dst_offset = 0xfe0, src_windows = [demo_src], dst_windows = demo_dst, loopback = False, ordered = True, len = 100\<rparr>"

lemma demo_mem_ok: "host_mem_ok demo_mem"
proof -
  have "unat (a + 0xffff880000000000) = unat a + 0xffff880000000000" if "unat a < 2 ^ 46" for a :: u64
    using that by (simp add: unat_word_ariths)
  moreover have "(unat a + 0xffff880000000000) mod 4096 = unat a mod 4096" for a :: u64
  proof -
    have "(unat a + 0xffff880000000 * 4096) mod 4096 = unat a mod 4096" by (rule mod_mult_self1)
    then show ?thesis by simp
  qed
  ultimately show ?thesis by (auto simp: host_mem_ok_def demo_mem_def unat_eq_0 [symmetric] simp del: unat_eq_0)
qed

lemma reach_okI:
  assumes "dma_ok w" and "wtype w = RMA_WINDOW_SELF \<Longrightarrow> unat (nr_pages w) \<le> length (pinned w) \<and> (\<forall>p \<in> set (pinned w). page_ok h p)"
    and "\<forall>a \<in> set (page_addrs w). unat (aper_va h) + a + 4096 \<le> 2 ^ 64"
  shows "reach_ok h False w"
proof -
  have "unat (aper_va h) + byte_addr w x < 2 ^ 64" if x: "wlo w \<le> x" "x < whi w" for x
  proof -
    have "page_addrs w ! ((x - wlo w) div 4096) \<in> set (page_addrs w)" by (rule page_addr_mem [OF assms(1) x])
    moreover have "x mod 4096 < 4096" by simp
    ultimately show ?thesis using assms(3) unfolding byte_addr_def by fastforce
  qed
  then show ?thesis using assms(1,2) by (auto simp: reach_ok_def)
qed

lemma demo_window_ok:
  assumes "n = 1 \<or> n = 2" and "unat off + 8192 < 2 ^ 63" and "unat off mod 4096 = 0" and "unat dma mod 4096 = 0" and "unat dma < 2 ^ 45"
    and "t = RMA_WINDOW_SELF \<Longrightarrow> unat n \<le> length pages \<and> (\<forall>p \<in> set pages. page_ok demo_mem p)"
  shows "reach_ok demo_mem False (demo_window off t pages dma n)"
    and "wlo (demo_window off t pages dma n) = unat off" and "whi (demo_window off t pages dma n) = unat off + unat n * 4096"
    and "win_ok (demo_window off t pages dma n)"
proof -
  have "unat (ucast n :: u64) = unat n" using assms(1) by auto
  then show lo: "wlo (demo_window off t pages dma n) = unat off" "whi (demo_window off t pages dma n) = unat off + unat n * 4096"
    and w: "win_ok (demo_window off t pages dma n)"
    using assms(1-3) by (auto simp: wlo_def whi_def win_ok_def demo_window_def)
  have "dma_ok (demo_window off t pages dma n)" using w assms
    by (auto simp: dma_ok_def demo_window_def nchunks_def pages_before_def)
  then show "reach_ok demo_mem False (demo_window off t pages dma n)"
  proof (rule reach_okI)
    show "unat (nr_pages (demo_window off t pages dma n)) \<le> length (pinned (demo_window off t pages dma n)) \<and>
        (\<forall>p \<in> set (pinned (demo_window off t pages dma n)). page_ok demo_mem p)"
      if "wtype (demo_window off t pages dma n) = RMA_WINDOW_SELF" using assms(1,6) that by (auto simp: demo_window_def)
    have "page_addrs (demo_window off t pages dma n) = map (\<lambda>k. unat dma + k * 4096) [0..<unat n]"
      by (simp add: page_addrs_def nchunks_def demo_window_def)
    then have "\<forall>a \<in> set (page_addrs (demo_window off t pages dma n)). a \<le> unat dma + 4096" using assms(1) by auto
    then show "\<forall>a \<in> set (page_addrs (demo_window off t pages dma n)). unat (aper_va demo_mem) + a + 4096 \<le> 2 ^ 64"
      using assms(5) by (fastforce simp: demo_mem_def)
  qed
qed

lemma demo_sides:
  "side_ok demo_mem (loopback demo_work) (src_windows demo_work) (src_offset demo_work) (len demo_work)"
  "side_ok demo_mem (loopback demo_work) (dst_windows demo_work) (dst_offset demo_work) (len demo_work)"
proof -
  have pg: "\<forall>p \<in> set [0xffff880000010000, 0xffff880000011000]. page_ok demo_mem p" by (simp add: page_ok_def demo_mem_def)
  note s = demo_window_ok [of 2 "0x1000" "0x8000010000" RMA_WINDOW_SELF "[0xffff880000010000, 0xffff880000011000]", folded demo_src_def]
  show "side_ok demo_mem (loopback demo_work) (src_windows demo_work) (src_offset demo_work) (len demo_work)"
    unfolding side_ok_def demo_work_def using s pg by (auto intro!: check_bytes_inside)
  note d1 = demo_window_ok [of 1 0 "0x200000" RMA_WINDOW_PEER "[]"] and d2 = demo_window_ok [of 1 "0x1000" "0x500000" RMA_WINDOW_PEER "[]"]
  have "check_bytes demo_dst 0 0xfe0 100 = None" unfolding demo_dst_def
    using d1 d2 by (subst check_bytes_beyond) (auto intro!: check_bytes_inside)
  then show "side_ok demo_mem (loopback demo_work) (dst_windows demo_work) (dst_offset demo_work) (len demo_work)"
    unfolding side_ok_def demo_work_def using d1 d2 by (auto simp: demo_dst_def)
qed

lemma bus_side_okI:
  assumes "dma_ok w" and "\<forall>a \<in> set (page_addrs w). \<forall>r < 4096. is_syspa (of_nat (a + r)) = (wtype w = RMA_WINDOW_SELF)"
  shows "bus_side_ok w"
  unfolding bus_side_ok_def byte_addr_def using page_addr_mem [OF assms(1)] assms(2) by simp

lemma demo_bus: "\<forall>w \<in> set (src_windows demo_work @ dst_windows demo_work). bus_side_ok w"
proof -
  have d: "dma_ok w" if "w \<in> set (src_windows demo_work @ dst_windows demo_work)" for w
    using that demo_sides by (auto simp: side_ok_def reach_ok_def)
  have a: "page_addrs demo_src = [0x8000010000, 0x8000011000]"
    "page_addrs (demo_window 0 RMA_WINDOW_PEER [] 0x200000 1) = [0x200000]" "page_addrs (demo_window 0x1000 RMA_WINDOW_PEER [] 0x500000 1) = [0x500000]"
    by (simp_all add: page_addrs_def nchunks_def demo_window_def demo_src_def upt_conv_Cons)
  have syspa: "is_syspa (of_nat n) \<longleftrightarrow> 0x8000000000 \<le> n \<and> n < 0x10000000000" if "n < 0x20000000000" for n
    using that by (simp add: is_syspa_def IS_MIC_SYSTEM_ADDR_def word_le_nat_alt unat_of_nat) linarith
  have t: "wtype demo_src = RMA_WINDOW_SELF" "wtype (demo_window off RMA_WINDOW_PEER ps a n) = RMA_WINDOW_PEER" for off ps a n
    by (simp_all add: demo_src_def demo_window_def)
  show ?thesis
  proof
    fix w assume w: "w \<in> set (src_windows demo_work @ dst_windows demo_work)"
    then consider "w = demo_src" | "w = demo_window 0 RMA_WINDOW_PEER [] 0x200000 1" | "w = demo_window 0x1000 RMA_WINDOW_PEER [] 0x500000 1"
      by (auto simp: demo_work_def demo_dst_def)
    then show "bus_side_ok w" by cases (use d [OF w] in \<open>rule bus_side_okI; simp add: a t syspa del: of_nat_add\<close>)+
  qed
qed

text \<open>C3. A copy by DMA between two registered ranges with the same offset in a cache line is exact, when every request to the engine is taken and the
  channel drains: it returns without an error and without running past an array or a list, and the operations it issues, in their order, move the
  bytes of the range one after the other from the locations of the source to the locations of the destination, each byte once and no other;
  whatever the windows and their contiguous chunks are, and whether the copy is ordered or not. The engine is given the bus address of a byte;
  the processor, which copies the head and the tail, uses the pinned page for a window of this node and the aperture for a window of the peer.
  The addresses of the windows of this node are system addresses and those of the peer are not, which is how the code tells them apart.\<close>

theorem rma_dma_copy_exact:
  assumes h: "host_mem_ok h" and dma: "\<And>k. 0 \<le> dma k" and l: "0 < unat (len work)"
    and s: "side_ok h (loopback work) (src_windows work) (src_offset work) (len work)"
    and d: "side_ok h (loopback work) (dst_windows work) (dst_offset work) (len work)"
    and b: "\<forall>w \<in> set (src_windows work @ dst_windows work). bus_side_ok w"
    and c: "unat (src_offset work) mod 64 = unat (dst_offset work) mod 64"
  shows "\<exists>ret ops. micscif_rma_list_dma_copy_aligned h dma 0 work = Some (ret, ops) \<and> 0 \<le> ret \<and>
    moves h (loopback work) (src_windows work) (dst_windows work) (unat (src_offset work)) (unat (dst_offset work)) (unat (len work)) ops"
  using assms by (rule dma_copy_moves)

theorem rma_dma_copy_exact_witness:
  "\<exists>ret ops. micscif_rma_list_dma_copy_aligned demo_mem (\<lambda>_. 0) 0 demo_work = Some (ret, ops) \<and>
    moves demo_mem False [demo_src] demo_dst 0x1020 0xfe0 100 ops"
  using rma_dma_copy_exact [OF demo_mem_ok _ _ demo_sides demo_bus, of "\<lambda>_. 0"] by (auto simp: demo_work_def)

text \<open>C35. The copy by the processor is exact as well: for any two registered ranges, whatever their alignment, it returns \<open>0\<close> and the copies it makes move
  the bytes of the range one after the other, each once and no other: to and from the pinned pages for the windows of this node, and for those of
  the peer through the aperture, or in a loopback to and from the pages the peer has pinned.\<close>

theorem rma_cpu_copy_exact:
  assumes h: "host_mem_ok h"
    and s: "side_ok h (loopback work) (src_windows work) (src_offset work) (len work)"
    and d: "side_ok h (loopback work) (dst_windows work) (dst_offset work) (len work)"
  shows "\<exists>ops. micscif_rma_list_cpu_copy h work = Some (0, ops) \<and>
    moves h (loopback work) (src_windows work) (dst_windows work) (unat (src_offset work)) (unat (dst_offset work)) (unat (len work)) ops"
  using assms by (rule cpu_copy_moves)

theorem rma_cpu_copy_exact_witness:
  "\<exists>ops. micscif_rma_list_cpu_copy demo_mem demo_work = Some (0, ops) \<and> moves demo_mem False [demo_src] demo_dst 0x1020 0xfe0 100 ops"
  using rma_cpu_copy_exact [OF demo_mem_ok demo_sides] by (auto simp: demo_work_def)

end
