(* ===== verification/Aes.thy ===== *)
theory Aes
  imports Aes_Tables
begin

text \<open>
  The AES cipher of the benchmark programs (\<open>aes_bench/aes.c\<close>, the same in \<open>scaling\<close> and
  \<open>openmpmic\<close>): key expansion, encryption and decryption by table lookup. A pointer to key or
  block bytes is the list of the bytes readable through it; \<open>None\<close> is a read past its end. The pointer \<open>kp\<close>
  into a key schedule is an index, and an operation that advances it returns the new index. The program runs
  on x86, so a pointer to bytes read as \<open>__le32\<close> yields little-endian words.
\<close>

section \<open>State and helpers\<close>

record crypto_aes_ctx =
  key_enc :: "u32 list"
  key_dec :: "u32 list"
  key_length :: u32

record crypto_tfm =
  crt_flags :: u32
  crt_ctx :: crypto_aes_ctx

abbreviation (input) AES_MAX_KEYLENGTH_U32 :: nat where "AES_MAX_KEYLENGTH_U32 \<equiv> 60"
abbreviation (input) AES_KEYSIZE_128 :: u32 where "AES_KEYSIZE_128 \<equiv> 16"
abbreviation (input) AES_KEYSIZE_192 :: u32 where "AES_KEYSIZE_192 \<equiv> 24"
abbreviation (input) AES_KEYSIZE_256 :: u32 where "AES_KEYSIZE_256 \<equiv> 32"
abbreviation CRYPTO_TFM_RES_BAD_KEY_LEN :: u32 where "CRYPTO_TFM_RES_BAD_KEY_LEN \<equiv> 0x00200000"

definition byte :: "u32 \<Rightarrow> nat \<Rightarrow> u8" where
  "byte x n = ucast (drop_bit (8 * n) x)"

definition ror32 :: "u32 \<Rightarrow> nat \<Rightarrow> u32" where
  "ror32 word shift = drop_bit shift word OR push_bit (32 - shift) word"

text \<open>The word stored in four bytes, lowest byte first, and \<open>__bswap_32\<close>.\<close>

definition pack :: "u8 \<Rightarrow> u8 \<Rightarrow> u8 \<Rightarrow> u8 \<Rightarrow> u32" where
  "pack a b c d = ucast a OR push_bit 8 (ucast b) OR push_bit 16 (ucast c) OR push_bit 24 (ucast d)"

definition bswap_32 :: "u32 \<Rightarrow> u32" where
  "bswap_32 x = pack (byte x 3) (byte x 2) (byte x 1) (byte x 0)"

definition le32_to_cpu :: "u32 \<Rightarrow> u32" where
  "le32_to_cpu v = bswap_32 v"

definition load32 :: "u8 list \<Rightarrow> nat \<Rightarrow> u32" where
  "load32 p i = pack (p ! (4 * i)) (p ! (4 * i + 1)) (p ! (4 * i + 2)) (p ! (4 * i + 3))"

definition store32s :: "u32 list \<Rightarrow> u8 list" where
  "store32s ws = concat (map (\<lambda>w. [byte w 0, byte w 1, byte w 2, byte w 3]) ws)"

section \<open>Key expansion\<close>

definition rco_tab :: "u32 list" where
  "rco_tab = [1, 2, 4, 8, 16, 32, 64, 128, 27, 54]"

definition star_x :: "u32 \<Rightarrow> u32" where
  "star_x x = push_bit 1 (x AND 0x7f7f7f7f) XOR drop_bit 7 (x AND 0x80808080) * 0x1b"

definition imix_col :: "u32 \<Rightarrow> u32" where
  "imix_col x =
     (let u = star_x x; v = star_x u; w = star_x v; t = w XOR x; y = u XOR v XOR w
      in y XOR (ror32 (u XOR t) 8 XOR ror32 (v XOR t) 16 XOR ror32 t 24))"

definition ls_box :: "u32 \<Rightarrow> u32" where
  "ls_box x = crypto_fl_tab ! 0 ! unat (byte x 0) XOR crypto_fl_tab ! 1 ! unat (byte x 1) XOR
     crypto_fl_tab ! 2 ! unat (byte x 2) XOR crypto_fl_tab ! 3 ! unat (byte x 3)"

text \<open>The loop bodies work on the schedule and on the last word \<open>t\<close>.\<close>

fun chain :: "nat list \<Rightarrow> nat \<Rightarrow> u32 list \<times> u32 \<Rightarrow> u32 list \<times> u32" where
  "chain [] nk (ke, t) = (ke, t)"
| "chain (j # js) nk (ke, t) = (let t = t XOR ke ! j in chain js nk (ke[j + nk := t], t))"

definition loop4 :: "nat \<Rightarrow> u32 list \<times> u32 \<Rightarrow> u32 list \<times> u32" where
  "loop4 i s = (let (ke, t) = s; t = ror32 t 8; t = ls_box t XOR rco_tab ! i
     in chain [4 * i, 4 * i + 1, 4 * i + 2, 4 * i + 3] 4 (ke, t))"

definition loop6 :: "nat \<Rightarrow> u32 list \<times> u32 \<Rightarrow> u32 list \<times> u32" where
  "loop6 i s = (let (ke, t) = s; t = ror32 t 8; t = ls_box t XOR rco_tab ! i
     in chain [6 * i, 6 * i + 1, 6 * i + 2, 6 * i + 3, 6 * i + 4, 6 * i + 5] 6 (ke, t))"

definition loop8tophalf :: "nat \<Rightarrow> u32 list \<times> u32 \<Rightarrow> u32 list \<times> u32" where
  "loop8tophalf i s = (let (ke, t) = s; t = ror32 t 8; t = ls_box t XOR rco_tab ! i
     in chain [8 * i, 8 * i + 1, 8 * i + 2, 8 * i + 3] 8 (ke, t))"

definition loop8 :: "nat \<Rightarrow> u32 list \<times> u32 \<Rightarrow> u32 list \<times> u32" where
  "loop8 i s = (let (ke, t) = loop8tophalf i s
     in chain [8 * i + 4, 8 * i + 5, 8 * i + 6, 8 * i + 7] 8 (ke, ls_box t))"

definition imix_keys :: "nat \<Rightarrow> u32 list \<Rightarrow> u32 list \<Rightarrow> u32 list" where
  "imix_keys key_len ke kd =
     fold (\<lambda>i kd. kd[key_len + 24 - 4 * (i div 4) + i mod 4 := imix_col (ke ! i)]) [4..<key_len + 24] kd"

definition crypto_aes_expand_key ::
  "crypto_aes_ctx \<Rightarrow> u8 list \<Rightarrow> u32 \<Rightarrow> (errno + crypto_aes_ctx) option" where
  "crypto_aes_expand_key ctx in_key key_len =
     (if key_len \<noteq> AES_KEYSIZE_128 \<and> key_len \<noteq> AES_KEYSIZE_192 \<and> key_len \<noteq> AES_KEYSIZE_256
      then Some (Inl EINVAL)
      else if length in_key < unat key_len then None
      else
        (let kl = unat key_len;
             key = (\<lambda>i. le32_to_cpu (load32 in_key i));
             ke = (key_enc ctx)[0 := key 0, 1 := key 1, 2 := key 2, 3 := key 3];
             kd = (key_dec ctx)[kl + 24 := key 0, kl + 25 := key 1, kl + 26 := key 2, kl + 27 := key 3];
             ke = (if key_len = AES_KEYSIZE_128 then fst (fold loop4 [0..<10] (ke, ke ! 3))
                   else if key_len = AES_KEYSIZE_192 then
                     (let ke = ke[4 := key 4, 5 := key 5] in fst (fold loop6 [0..<8] (ke, ke ! 5)))
                   else
                     (let ke = ke[4 := key 4, 5 := key 5, 6 := key 6, 7 := key 7]
                      in fst (loop8tophalf 6 (fold loop8 [0..<6] (ke, ke ! 7)))));
             kd = kd[0 := ke ! (kl + 24), 1 := ke ! (kl + 25), 2 := ke ! (kl + 26), 3 := ke ! (kl + 27)]
         in Some (Inr (ctx\<lparr>key_length := key_len, key_enc := ke, key_dec := imix_keys kl ke kd\<rparr>))))"

definition crypto_aes_set_key :: "crypto_tfm \<Rightarrow> u8 list \<Rightarrow> u32 \<Rightarrow> ((errno \<times> crypto_tfm) + crypto_tfm) option" where
  "crypto_aes_set_key tfm in_key key_len =
     (case crypto_aes_expand_key (crt_ctx tfm) in_key key_len of
        None \<Rightarrow> None
      | Some (Inr ctx) \<Rightarrow> Some (Inr (tfm\<lparr>crt_ctx := ctx\<rparr>))
      | Some (Inl e) \<Rightarrow> Some (Inl (EINVAL, tfm\<lparr>crt_flags := crt_flags tfm OR CRYPTO_TFM_RES_BAD_KEY_LEN\<rparr>)))"

section \<open>Encryption and decryption\<close>

definition enc_round :: "u32 list \<Rightarrow> u32 list \<Rightarrow> nat \<Rightarrow> u32 list \<times> nat" where
  "enc_round keys b1 kp =
     (map (\<lambda>n. crypto_ft_tab ! 0 ! unat (byte (b1 ! n) 0) XOR
               crypto_ft_tab ! 1 ! unat (byte (b1 ! ((n + 1) mod 4)) 1) XOR
               crypto_ft_tab ! 2 ! unat (byte (b1 ! ((n + 2) mod 4)) 2) XOR
               crypto_ft_tab ! 3 ! unat (byte (b1 ! ((n + 3) mod 4)) 3) XOR keys ! (kp + n)) [0..<4], kp + 4)"

definition encl_round :: "u32 list \<Rightarrow> u32 list \<Rightarrow> nat \<Rightarrow> u32 list" where
  "encl_round keys b1 kp =
     map (\<lambda>n. crypto_fl_tab ! 0 ! unat (byte (b1 ! n) 0) XOR
               crypto_fl_tab ! 1 ! unat (byte (b1 ! ((n + 1) mod 4)) 1) XOR
               crypto_fl_tab ! 2 ! unat (byte (b1 ! ((n + 2) mod 4)) 2) XOR
               crypto_fl_tab ! 3 ! unat (byte (b1 ! ((n + 3) mod 4)) 3) XOR keys ! (kp + n)) [0..<4]"

definition aes_encrypt :: "crypto_tfm \<Rightarrow> u8 list \<Rightarrow> u8 list option" where
  "aes_encrypt tfm inb =
     (let ctx = crt_ctx tfm; kp = 4; ke = key_enc ctx; key_len = key_length ctx in
      if length inb < 16 then None
      else
        (let b0 = map (\<lambda>i. load32 inb i XOR ke ! i) [0..<4];
             (b0, kp) = (if sint key_len > 24
                         then (let (b1, kp) = enc_round ke b0 kp in enc_round ke b1 kp) else (b0, kp));
             (b0, kp) = (if sint key_len > 16
                         then (let (b1, kp) = enc_round ke b0 kp in enc_round ke b1 kp) else (b0, kp));
             (b1, kp) = enc_round ke b0 kp;
             (b0, kp) = enc_round ke b1 kp;
             (b1, kp) = enc_round ke b0 kp;
             (b0, kp) = enc_round ke b1 kp;
             (b1, kp) = enc_round ke b0 kp;
             (b0, kp) = enc_round ke b1 kp;
             (b1, kp) = enc_round ke b0 kp;
             (b0, kp) = enc_round ke b1 kp;
             (b1, kp) = enc_round ke b0 kp
         in Some (store32s (encl_round ke b1 kp))))"

definition dec_round :: "u32 list \<Rightarrow> u32 list \<Rightarrow> nat \<Rightarrow> u32 list \<times> nat" where
  "dec_round keys b1 kp =
     (map (\<lambda>n. crypto_it_tab ! 0 ! unat (byte (b1 ! n) 0) XOR
               crypto_it_tab ! 1 ! unat (byte (b1 ! ((n + 3) mod 4)) 1) XOR
               crypto_it_tab ! 2 ! unat (byte (b1 ! ((n + 2) mod 4)) 2) XOR
               crypto_it_tab ! 3 ! unat (byte (b1 ! ((n + 1) mod 4)) 3) XOR keys ! (kp + n)) [0..<4], kp + 4)"

definition decl_round :: "u32 list \<Rightarrow> u32 list \<Rightarrow> nat \<Rightarrow> u32 list" where
  "decl_round keys b1 kp =
     map (\<lambda>n. crypto_il_tab ! 0 ! unat (byte (b1 ! n) 0) XOR
               crypto_il_tab ! 1 ! unat (byte (b1 ! ((n + 3) mod 4)) 1) XOR
               crypto_il_tab ! 2 ! unat (byte (b1 ! ((n + 2) mod 4)) 2) XOR
               crypto_il_tab ! 3 ! unat (byte (b1 ! ((n + 1) mod 4)) 3) XOR keys ! (kp + n)) [0..<4]"

definition aes_decrypt :: "crypto_tfm \<Rightarrow> u8 list \<Rightarrow> u8 list option" where
  "aes_decrypt tfm inb =
     (let ctx = crt_ctx tfm; kp = 4; kd = key_dec ctx; key_len = key_length ctx in
      if length inb < 16 then None
      else
        (let b0 = map (\<lambda>i. load32 inb i XOR kd ! i) [0..<4];
             (b0, kp) = (if sint key_len > 24
                         then (let (b1, kp) = dec_round kd b0 kp in dec_round kd b1 kp) else (b0, kp));
             (b0, kp) = (if sint key_len > 16
                         then (let (b1, kp) = dec_round kd b0 kp in dec_round kd b1 kp) else (b0, kp));
             (b1, kp) = dec_round kd b0 kp;
             (b0, kp) = dec_round kd b1 kp;
             (b1, kp) = dec_round kd b0 kp;
             (b0, kp) = dec_round kd b1 kp;
             (b1, kp) = dec_round kd b0 kp;
             (b0, kp) = dec_round kd b1 kp;
             (b1, kp) = dec_round kd b0 kp;
             (b0, kp) = dec_round kd b1 kp;
             (b1, kp) = dec_round kd b0 kp
         in Some (store32s (decl_round kd b1 kp))))"

end
