(* ===== verification/Aes_Columns.thy ===== *)
theory Aes_Columns
  imports Aes
begin

text \<open>
  Words as columns of four bytes: rotation by bytes, doubling in the field of AES, the column
  multiplication of encryption and its inverse, and how the lookup tables are built from them.
\<close>

section \<open>Words of four bytes\<close>

lemma less_32_cases: "(\<forall>n \<in> set [0..<32]. P n) \<Longrightarrow> n < 32 \<Longrightarrow> P (n :: nat)"
  by simp

lemma mask_bits:
  assumes "n < 32"
  shows "bit (0x7f7f7f7f :: u32) n \<longleftrightarrow> n mod 8 \<noteq> 7" and "bit (0x80808080 :: u32) n \<longleftrightarrow> n mod 8 = 7"
  by (rule less_32_cases [OF _ assms], simp add: upt_conv_Cons)+

lemma bit_high_bits: "bit (drop_bit 7 (x AND 0x80808080 :: u32)) n \<longleftrightarrow> n mod 8 = 0 \<and> bit x (n + 7)"
proof (cases "n + 7 < 32")
  case True
  then have "n mod 8 = 0 \<longleftrightarrow> (n + 7) mod 8 = 7" by presburger
  then show ?thesis using mask_bits(2) [OF True] unfolding bit_drop_bit_eq bit_and_iff comp_def add.commute [of 7] by metis
next
  case False
  then have "\<not> bit x (n + 7)" using bit_imp_le_length [of x "n + 7"] by auto
  then show ?thesis unfolding bit_drop_bit_eq bit_and_iff comp_def add.commute [of 7] by blast
qed

lemma star_x_product:
  assumes "\<And>n. bit a n \<Longrightarrow> n mod 8 = 0"
  shows "(a :: u32) * 0x1b = a XOR push_bit 1 a XOR push_bit 3 a XOR push_bit 4 a"
proof -
  have b: "push_bit i a AND push_bit j a = 0" if "i < 8" "j < 8" "i \<noteq> j" for i j
  proof (rule bit_word_eqI)
    fix n assume "n < LENGTH(32)"
    have "\<not> ((n - i) mod 8 = 0 \<and> (n - j) mod 8 = 0 \<and> i \<le> n \<and> j \<le> n)" using that by presburger
    then show "bit (push_bit i a AND push_bit j a) n = bit 0 n" using assms by (auto simp: bit_and_iff bit_push_bit_iff)
  qed
  have b0: "push_bit 0 a = a" by simp
  note dis = b [of 0 1, unfolded b0] b [of 0 3, unfolded b0] b [of 0 4, unfolded b0] b [of 1 3] b [of 1 4] b [of 3 4]
  have "a * 0x1b = a + (push_bit 1 a + (push_bit 3 a + push_bit 4 a))" by (simp add: push_bit_eq_mult)
  also have "push_bit 3 a + push_bit 4 a = push_bit 3 a XOR push_bit 4 a"
    using dis by (intro disjunctive_add_eq_xor) simp
  also have "push_bit 1 a + (push_bit 3 a XOR push_bit 4 a) = push_bit 1 a XOR (push_bit 3 a XOR push_bit 4 a)"
    using dis by (intro disjunctive_add_eq_xor) (simp add: bit.conj_xor_distrib)
  also have "a + (push_bit 1 a XOR (push_bit 3 a XOR push_bit 4 a)) = a XOR (push_bit 1 a XOR (push_bit 3 a XOR push_bit 4 a))"
    using dis by (intro disjunctive_add_eq_xor) (simp add: bit.conj_xor_distrib)
  finally show ?thesis by (simp add: xor.assoc)
qed

text \<open>Doubling of the bytes of a word in the field of AES, bit by bit.\<close>

lemma bit_star_x:
  assumes "n < 32"
  shows "bit (star_x x) n \<longleftrightarrow> (n mod 8 \<noteq> 0 \<and> bit x (n - 1)) \<noteq>
    ((n mod 8 = 0 \<or> n mod 8 = 1 \<or> n mod 8 = 3 \<or> n mod 8 = 4) \<and> bit x (n - n mod 8 + 7))"
proof -
  let ?a = "drop_bit 7 (x AND 0x80808080)"
  have p: "?a * 0x1b = ?a XOR push_bit 1 ?a XOR push_bit 3 ?a XOR push_bit 4 ?a"
    by (rule star_x_product) (simp only: bit_high_bits)
  have l: "bit (push_bit 1 (x AND 0x7f7f7f7f)) n \<longleftrightarrow> n mod 8 \<noteq> 0 \<and> bit x (n - 1)"
  proof (cases n)
    case (Suc m)
    then have "m mod 8 \<noteq> 7 \<longleftrightarrow> n mod 8 \<noteq> 0" by presburger
    then show ?thesis unfolding bit_push_bit_iff bit_and_iff using mask_bits(1) [of m] assms Suc by auto
  qed (simp only: bit_push_bit_iff, simp)
  have h: "bit (push_bit i ?a) n \<longleftrightarrow> n mod 8 = i \<and> bit x (n - n mod 8 + 7)" if "i < 8" for i
  proof -
    have eq: "i \<le> n \<and> (n - i) mod 8 = 0 \<longleftrightarrow> n mod 8 = i"
    proof
      assume "i \<le> n \<and> (n - i) mod 8 = 0"
      then have "n = i + (n - i)" "(n - i) mod 8 = 0" by auto
      then show "n mod 8 = i" using that by (metis add.right_neutral mod_add_right_eq mod_less)
    qed (auto simp: minus_mod_eq_mult_div)
    have "n < LENGTH(32)" using assms by simp
    then have "bit (push_bit i ?a) n \<longleftrightarrow> (i \<le> n \<and> (n - i) mod 8 = 0) \<and> bit x (n - i + 7)"
      unfolding bit_push_bit_iff bit_high_bits by auto
    then show ?thesis unfolding eq by auto
  qed
  have h0: "bit ?a n \<longleftrightarrow> n mod 8 = 0 \<and> bit x (n - n mod 8 + 7)" using h [of 0] by simp
  have h134: "bit (push_bit 1 ?a) n \<longleftrightarrow> n mod 8 = 1 \<and> bit x (n - n mod 8 + 7)"
    "bit (push_bit 3 ?a) n \<longleftrightarrow> n mod 8 = 3 \<and> bit x (n - n mod 8 + 7)"
    "bit (push_bit 4 ?a) n \<longleftrightarrow> n mod 8 = 4 \<and> bit x (n - n mod 8 + 7)"
    by (rule h; simp)+
  show ?thesis unfolding star_x_def p bit_xor_iff l h0 h134 by auto
qed

lemma bit_ror32:
  assumes "0 < s" "s < 32" "n < 32"
  shows "bit (ror32 x s) n \<longleftrightarrow> bit x ((n + s) mod 32)"
proof (cases "n + s < 32")
  case True
  then show ?thesis using assms by (auto simp: ror32_def bit_or_iff bit_drop_bit_eq bit_push_bit_iff add.commute)
next
  case False
  then have "(n + s) mod 32 = n - (32 - s)" "\<not> bit x (n + s)" using assms bit_imp_le_length [of x "n + s"]
    by (auto simp: mod_if)
  then show ?thesis using assms False by (auto simp: ror32_def bit_or_iff bit_drop_bit_eq bit_push_bit_iff add.commute)
qed

lemma ror32_xor: "0 < s \<Longrightarrow> s < 32 \<Longrightarrow> ror32 (x XOR y) s = ror32 x s XOR ror32 y s"
  by (rule bit_word_eqI) (simp add: bit_ror32 bit_xor_iff)

lemma ror32_ror32:
  assumes "0 < s" "s < 32" "0 < t" "t < 32" "s + t \<noteq> 32"
  shows "ror32 (ror32 x s) t = ror32 x ((s + t) mod 32)"
proof (rule bit_word_eqI)
  fix n assume "n < LENGTH(32)"
  moreover have "0 < (s + t) mod 32" using assms by (auto simp: mod_if)
  ultimately show "bit (ror32 (ror32 x s) t) n \<longleftrightarrow> bit (ror32 x ((s + t) mod 32)) n"
    using assms by (simp add: bit_ror32 mod_simps ac_simps)
qed

lemma ror32_inverse: "0 < s \<Longrightarrow> s < 32 \<Longrightarrow> 0 < t \<Longrightarrow> s + t = 32 \<Longrightarrow> ror32 (ror32 x s) t = x"
  by (rule bit_word_eqI) (simp add: bit_ror32 mod_simps ac_simps)

lemma ror32_bytes:
  "ror32 (ror32 x 8) 8 = ror32 x 16" "ror32 (ror32 x 8) 16 = ror32 x 24" "ror32 (ror32 x 8) 24 = x"
  "ror32 (ror32 x 16) 8 = ror32 x 24" "ror32 (ror32 x 16) 16 = x" "ror32 (ror32 x 16) 24 = ror32 x 8"
  "ror32 (ror32 x 24) 8 = x" "ror32 (ror32 x 24) 16 = ror32 x 8" "ror32 (ror32 x 24) 24 = ror32 x 16"
  by (simp_all add: ror32_ror32 ror32_inverse)

lemma star_x_xor: "star_x (x XOR y) = star_x x XOR star_x y"
  by (rule bit_word_eqI) (auto simp: bit_star_x bit_xor_iff)

lemma star_x_ror:
  assumes "s = 8 \<or> s = 16 \<or> s = 24"
  shows "star_x (ror32 x s) = ror32 (star_x x) s"
proof (rule bit_word_eqI)
  fix n assume "n < LENGTH(32)"
  then have n: "n < 32" by simp
  have s: "0 < s" "s < 32" "s mod 8 = 0" using assms by auto
  let ?m = "(n + s) mod 32"
  have m8: "?m mod 8 = n mod 8" using s(3) by (simp add: mod_mod_cancel mod_add_eq [of n 8 s, symmetric] mod_simps)
  have "\<forall>s \<in> set [8, 16, 24]. \<forall>n \<in> set [0..<32]. (n mod 8 \<noteq> 0 \<longrightarrow> (n - 1 + s) mod 32 = (n + s) mod 32 - 1) \<and>
      (n - n mod 8 + 7 + s) mod 32 = (n + s) mod 32 - (n + s) mod 32 mod 8 + 7 \<and> n - n mod 8 + 7 < 32"
    by code_simp
  then have "(n mod 8 \<noteq> 0 \<longrightarrow> (n - 1 + s) mod 32 = ?m - 1) \<and> (n - n mod 8 + 7 + s) mod 32 = ?m - ?m mod 8 + 7 \<and>
      n - n mod 8 + 7 < 32"
    using assms n by auto
  then have "n mod 8 \<noteq> 0 \<Longrightarrow> bit (ror32 x s) (n - 1) \<longleftrightarrow> bit x (?m - 1)"
    "bit (ror32 x s) (n - n mod 8 + 7) \<longleftrightarrow> bit x (?m - ?m mod 8 + 7)"
    using bit_ror32 [OF s(1,2), of "n - 1" x] bit_ror32 [OF s(1,2), of "n - n mod 8 + 7" x] n by auto
  moreover have "bit (ror32 (star_x x) s) n \<longleftrightarrow> bit (star_x x) ?m" "?m < 32" using bit_ror32 [OF s(1,2) n] by auto
  ultimately show "bit (star_x (ror32 x s)) n \<longleftrightarrow> bit (ror32 (star_x x) s) n"
    using bit_star_x [OF n, of "ror32 x s"] bit_star_x [of ?m x] m8 by metis
qed

lemmas word_col = ror32_xor ror32_bytes star_x_xor star_x_ror

text \<open>The multiplication of a column that encryption does, and its inverse.\<close>

definition mix_col :: "u32 \<Rightarrow> u32" where
  "mix_col x = star_x x XOR ror32 (star_x x XOR x) 8 XOR ror32 x 16 XOR ror32 x 24"

lemma imix_col_linear: "imix_col (x XOR y) = imix_col x XOR imix_col y"
  by (simp add: imix_col_def Let_def word_col ac_simps)

lemma imix_col_mix_col: "imix_col (mix_col x) = x"
  by (simp add: imix_col_def mix_col_def Let_def word_col ac_simps)

section \<open>The tables\<close>

text \<open>The rows of a table are rotations of its first row.\<close>

lemma ft_tab_1: "crypto_ft_tab_1 = map (\<lambda>w. ror32 w 24) crypto_ft_tab_0"
  by (simp add: crypto_ft_tab_1_def crypto_ft_tab_0_def ror32_def)

lemma ft_tab_2: "crypto_ft_tab_2 = map (\<lambda>w. ror32 w 16) crypto_ft_tab_0"
  by (simp add: crypto_ft_tab_2_def crypto_ft_tab_0_def ror32_def)

lemma ft_tab_3: "crypto_ft_tab_3 = map (\<lambda>w. ror32 w 8) crypto_ft_tab_0"
  by (simp add: crypto_ft_tab_3_def crypto_ft_tab_0_def ror32_def)

lemma fl_tab_1: "crypto_fl_tab_1 = map (\<lambda>w. ror32 w 24) crypto_fl_tab_0"
  by (simp add: crypto_fl_tab_1_def crypto_fl_tab_0_def ror32_def)

lemma fl_tab_2: "crypto_fl_tab_2 = map (\<lambda>w. ror32 w 16) crypto_fl_tab_0"
  by (simp add: crypto_fl_tab_2_def crypto_fl_tab_0_def ror32_def)

lemma fl_tab_3: "crypto_fl_tab_3 = map (\<lambda>w. ror32 w 8) crypto_fl_tab_0"
  by (simp add: crypto_fl_tab_3_def crypto_fl_tab_0_def ror32_def)

lemma it_tab_1: "crypto_it_tab_1 = map (\<lambda>w. ror32 w 24) crypto_it_tab_0"
  by (simp add: crypto_it_tab_1_def crypto_it_tab_0_def ror32_def)

lemma it_tab_2: "crypto_it_tab_2 = map (\<lambda>w. ror32 w 16) crypto_it_tab_0"
  by (simp add: crypto_it_tab_2_def crypto_it_tab_0_def ror32_def)

lemma it_tab_3: "crypto_it_tab_3 = map (\<lambda>w. ror32 w 8) crypto_it_tab_0"
  by (simp add: crypto_it_tab_3_def crypto_it_tab_0_def ror32_def)

lemma il_tab_1: "crypto_il_tab_1 = map (\<lambda>w. ror32 w 24) crypto_il_tab_0"
  by (simp add: crypto_il_tab_1_def crypto_il_tab_0_def ror32_def)

lemma il_tab_2: "crypto_il_tab_2 = map (\<lambda>w. ror32 w 16) crypto_il_tab_0"
  by (simp add: crypto_il_tab_2_def crypto_il_tab_0_def ror32_def)

lemma il_tab_3: "crypto_il_tab_3 = map (\<lambda>w. ror32 w 8) crypto_il_tab_0"
  by (simp add: crypto_il_tab_3_def crypto_il_tab_0_def ror32_def)

text \<open>The tables of the inner rounds are the column multiplications of those of the last round.\<close>

lemma ft_tab_0: "crypto_ft_tab_0 = map mix_col crypto_fl_tab_0"
  by (simp add: crypto_ft_tab_0_def crypto_fl_tab_0_def mix_col_def star_x_def ror32_def)

definition imix4 :: "u32 \<Rightarrow> u32 \<Rightarrow> u32 \<Rightarrow> u32 \<Rightarrow> u32" where
  "imix4 x u v w =
     u XOR v XOR w XOR (ror32 (u XOR (w XOR x)) 8 XOR ror32 (v XOR (w XOR x)) 16 XOR ror32 (w XOR x) 24)"

lemma imix_col_alt: "imix_col x = imix4 x (star_x x) (star_x (star_x x)) (star_x (star_x (star_x x)))"
  by (simp add: imix_col_def imix4_def Let_def xor.assoc)

lemma it_tab_0: "crypto_it_tab_0 = map imix_col crypto_il_tab_0"
  by (simp add: crypto_it_tab_0_def crypto_il_tab_0_def imix_col_alt imix4_def star_x_def ror32_def)

text \<open>The two last-round tables hold bytes and are inverse to each other.\<close>

lemma il_fl: "map (\<lambda>x. crypto_il_tab_0 ! unat x) crypto_fl_tab_0 = map of_nat [0..<256]"
  by (simp add: crypto_fl_tab_0_def crypto_il_tab_0_def upt_conv_Cons)

lemma fl_tab_bytes: "\<forall>w \<in> set crypto_fl_tab_0. w < 256"
  by (simp add: crypto_fl_tab_0_def)

lemma tab_lengths: "length crypto_fl_tab_0 = 256" "length crypto_il_tab_0 = 256"
  by (simp_all add: crypto_fl_tab_0_def crypto_il_tab_0_def)

end
