(* ===== verification/Aes_Cipher.thy ===== *)
theory Aes_Cipher
  imports Aes_Columns
begin

text \<open>
  Encryption and decryption with the tables: decryption inverts encryption for every key schedule the key
  expansion produces, because the tables are inverse to each other, column multiplication is linear and
  the decryption schedule is the encryption schedule in reverse with its inner part multiplied.
\<close>

section \<open>Bytes of words\<close>

lemma bit_byte: "bit (byte x k) n \<longleftrightarrow> n < 8 \<and> bit x (8 * k + n)"
  by (auto simp: byte_def bit_ucast_iff bit_drop_bit_eq)

lemma byte_xor [simp]: "byte (x XOR y) k = byte x k XOR byte y k"
  by (rule bit_word_eqI) (simp add: bit_byte bit_xor_iff)

lemma byte_ror32:
  assumes "k < 4" and "0 < s" and "s < 4"
  shows "byte (ror32 x (8 * s)) k = byte x ((k + s) mod 4)"
proof (rule bit_word_eqI)
  fix n assume "n < LENGTH(8)"
  then have n: "n < 8" by simp
  have "(8 * k + n + 8 * s) mod 32 = 8 * ((k + s) mod 4) + n" using assms n by (cases "k + s < 4") (auto simp: mod_if)
  then show "bit (byte (ror32 x (8 * s)) k) n \<longleftrightarrow> bit (byte x ((k + s) mod 4)) n"
    using assms n by (simp add: bit_byte bit_ror32)
qed

lemma word_bytes_eqI: "(\<And>k. k < 4 \<Longrightarrow> byte x k = byte y k) \<Longrightarrow> x = y"
proof (rule bit_word_eqI)
  fix n assume e: "\<And>k. k < 4 \<Longrightarrow> byte x k = byte y k" and "n < LENGTH(32)"
  then have "byte x (n div 8) = byte y (n div 8)" by (simp add: div_less_iff_less_mult)
  then have "bit (byte x (n div 8)) (n mod 8) = bit (byte y (n div 8)) (n mod 8)" by simp
  then show "bit x n \<longleftrightarrow> bit y n" by (simp add: bit_byte)
qed

lemma small_bits:
  assumes "(x :: u32) < 256" and "8 \<le> n"
  shows "\<not> bit x n"
proof -
  have "unat x < 2 ^ 8" using assms(1) by (simp add: word_less_nat_alt)
  then have "\<not> bit (unat x) n" using assms(2)
    by (metis bit_nat_iff bit_take_bit_iff linorder_not_le take_bit_nat_eq_self)
  then show ?thesis by (simp add: bit_unsigned_iff)
qed

lemma byte_small:
  assumes "x < 256"
  shows "byte x 0 = ucast x" and "0 < k \<Longrightarrow> byte x k = 0"
proof -
  show "byte x 0 = ucast x" by (simp add: byte_def)
  show "0 < k \<Longrightarrow> byte x k = 0"
    using small_bits [OF assms] by (intro bit_word_eqI) (simp add: bit_byte)
qed

lemma ucast_up_small: "(w :: u32) < 256 \<Longrightarrow> ucast (ucast w :: u8) = w"
  by (rule bit_word_eqI) (use small_bits [of w] in \<open>auto simp: bit_ucast_iff not_le [symmetric]\<close>)

lemma ucast_down_u8 [simp]: "ucast (ucast (x :: u8) :: u32) = x"
  by (rule bit_word_eqI) (auto simp: bit_ucast_iff)

lemma byte_pack:
  "byte (pack a b c d) 0 = a" "byte (pack a b c d) 1 = b" "byte (pack a b c d) 2 = c" "byte (pack a b c d) 3 = d"
proof -
  have "\<not> bit x n" if "8 \<le> n" for x :: u8 and n using bit_imp_le_length [of x n] that by auto
  then show "byte (pack a b c d) 0 = a" "byte (pack a b c d) 1 = b" "byte (pack a b c d) 2 = c" "byte (pack a b c d) 3 = d"
    by (intro bit_word_eqI; auto simp: bit_byte pack_def bit_or_iff bit_push_bit_iff bit_ucast_iff)+
qed

section \<open>Byte substitution\<close>

definition sbox :: "u8 \<Rightarrow> u8" where
  "sbox b = ucast (crypto_fl_tab_0 ! unat b)"

definition inv_sbox :: "u8 \<Rightarrow> u8" where
  "inv_sbox b = ucast (crypto_il_tab_0 ! unat b)"

lemma il_tab_bytes: "\<forall>w \<in> set crypto_il_tab_0. w < 256"
  by (simp add: crypto_il_tab_0_def)

lemma unat_u8: "unat (b :: u8) < 256"
  using unat_less_pow [of b] by simp

lemma unat_ucast_u8: "unat (ucast (x :: u8) :: u32) = unat x"
  by (rule unat_ucast_up) simp

lemma fl_lookup:
  "crypto_fl_tab ! 0 ! unat b = ucast (sbox b)" "crypto_fl_tab ! 1 ! unat b = ror32 (ucast (sbox b)) 24"
  "crypto_fl_tab ! 2 ! unat b = ror32 (ucast (sbox b)) 16" "crypto_fl_tab ! 3 ! unat b = ror32 (ucast (sbox b)) 8"
proof -
  have "crypto_fl_tab_0 ! unat b < 256" using fl_tab_bytes tab_lengths(1) unat_u8 [of b] by simp
  then have "ucast (sbox b) = crypto_fl_tab_0 ! unat b" by (simp add: sbox_def ucast_up_small)
  then show "crypto_fl_tab ! 0 ! unat b = ucast (sbox b)" "crypto_fl_tab ! 1 ! unat b = ror32 (ucast (sbox b)) 24"
    "crypto_fl_tab ! 2 ! unat b = ror32 (ucast (sbox b)) 16" "crypto_fl_tab ! 3 ! unat b = ror32 (ucast (sbox b)) 8"
    using tab_lengths(1) unat_u8 [of b] by (simp_all add: crypto_fl_tab_def fl_tab_1 fl_tab_2 fl_tab_3)
qed

lemma il_lookup:
  "crypto_il_tab ! 0 ! unat b = ucast (inv_sbox b)" "crypto_il_tab ! 1 ! unat b = ror32 (ucast (inv_sbox b)) 24"
  "crypto_il_tab ! 2 ! unat b = ror32 (ucast (inv_sbox b)) 16" "crypto_il_tab ! 3 ! unat b = ror32 (ucast (inv_sbox b)) 8"
proof -
  have "crypto_il_tab_0 ! unat b < 256" using il_tab_bytes tab_lengths(2) unat_u8 [of b] by simp
  then have "ucast (inv_sbox b) = crypto_il_tab_0 ! unat b" by (simp add: inv_sbox_def ucast_up_small)
  then show "crypto_il_tab ! 0 ! unat b = ucast (inv_sbox b)" "crypto_il_tab ! 1 ! unat b = ror32 (ucast (inv_sbox b)) 24"
    "crypto_il_tab ! 2 ! unat b = ror32 (ucast (inv_sbox b)) 16" "crypto_il_tab ! 3 ! unat b = ror32 (ucast (inv_sbox b)) 8"
    using tab_lengths(2) unat_u8 [of b] by (simp_all add: crypto_il_tab_def il_tab_1 il_tab_2 il_tab_3)
qed

lemma ft_lookup:
  "crypto_ft_tab ! 0 ! unat b = mix_col (ucast (sbox b))" "crypto_ft_tab ! 1 ! unat b = ror32 (mix_col (ucast (sbox b))) 24"
  "crypto_ft_tab ! 2 ! unat b = ror32 (mix_col (ucast (sbox b))) 16" "crypto_ft_tab ! 3 ! unat b = ror32 (mix_col (ucast (sbox b))) 8"
  using fl_lookup(1) [of b] tab_lengths(1) unat_u8 [of b]
  by (simp_all add: crypto_ft_tab_def ft_tab_0 ft_tab_1 ft_tab_2 ft_tab_3 crypto_fl_tab_def)

lemma it_lookup:
  "crypto_it_tab ! 0 ! unat b = imix_col (ucast (inv_sbox b))" "crypto_it_tab ! 1 ! unat b = ror32 (imix_col (ucast (inv_sbox b))) 24"
  "crypto_it_tab ! 2 ! unat b = ror32 (imix_col (ucast (inv_sbox b))) 16"
  "crypto_it_tab ! 3 ! unat b = ror32 (imix_col (ucast (inv_sbox b))) 8"
  using il_lookup(1) [of b] tab_lengths(2) unat_u8 [of b]
  by (simp_all add: crypto_it_tab_def it_tab_0 it_tab_1 it_tab_2 it_tab_3 crypto_il_tab_def)

lemma inv_sbox_sbox [simp]: "inv_sbox (sbox b) = b"
proof -
  have "map (\<lambda>x. crypto_il_tab_0 ! unat x) crypto_fl_tab_0 ! unat b = map of_nat [0..<256] ! unat b"
    by (simp only: il_fl)
  then have "crypto_il_tab_0 ! unat (crypto_fl_tab_0 ! unat b) = of_nat (unat b)"
    using tab_lengths(1) unat_u8 [of b] by simp
  moreover have "unat (crypto_fl_tab_0 ! unat b) = unat (sbox b)"
    using fl_lookup(1) [of b] by (simp add: crypto_fl_tab_def unat_ucast_u8)
  ultimately show ?thesis by (simp add: inv_sbox_def)
qed

text \<open>A column assembled from four looked-up bytes.\<close>

lemma pack_rotations: "ucast a XOR ror32 (ucast b) 24 XOR ror32 (ucast c) 16 XOR ror32 (ucast d) 8 = pack a b c d"
proof (rule word_bytes_eqI)
  fix k :: nat assume "k < 4"
  then consider "k = 0" | "k = 1" | "k = 2" | "k = 3" by linarith
  moreover have small: "(ucast x :: u32) < 256" for x :: u8 using unat_u8 [of x] by (simp add: word_less_nat_alt unat_ucast_u8)
  ultimately show "byte (ucast a XOR ror32 (ucast b) 24 XOR ror32 (ucast c) 16 XOR ror32 (ucast d) 8) k = byte (pack a b c d) k"
    using byte_ror32 [of k 3 "ucast b"] byte_ror32 [of k 2 "ucast c"] byte_ror32 [of k 1 "ucast d"]
    by cases (simp_all add: byte_pack byte_pack(2) [simplified] byte_small)
qed

lemma mix_col_linear: "mix_col (x XOR y) = mix_col x XOR mix_col y"
  by (simp add: mix_col_def word_col ac_simps)

lemma mix_col_ror: "mix_col (ror32 x 8) = ror32 (mix_col x) 8" "mix_col (ror32 x 16) = ror32 (mix_col x) 16"
  "mix_col (ror32 x 24) = ror32 (mix_col x) 24"
  by (simp_all add: mix_col_def word_col ac_simps)

lemma imix_col_ror: "imix_col (ror32 x 8) = ror32 (imix_col x) 8" "imix_col (ror32 x 16) = ror32 (imix_col x) 16"
  "imix_col (ror32 x 24) = ror32 (imix_col x) 24"
  by (simp_all add: imix_col_def Let_def word_col ac_simps)

section \<open>The rounds\<close>

text \<open>The bytes that substitution and row shifting bring to column \<open>n\<close>, and their inverse.\<close>

definition sub_shift :: "u32 list \<Rightarrow> nat \<Rightarrow> u32" where
  "sub_shift b n = pack (sbox (byte (b ! n) 0)) (sbox (byte (b ! ((n + 1) mod 4)) 1))
     (sbox (byte (b ! ((n + 2) mod 4)) 2)) (sbox (byte (b ! ((n + 3) mod 4)) 3))"

definition inv_sub_shift :: "u32 list \<Rightarrow> nat \<Rightarrow> u32" where
  "inv_sub_shift b n = pack (inv_sbox (byte (b ! n) 0)) (inv_sbox (byte (b ! ((n + 3) mod 4)) 1))
     (inv_sbox (byte (b ! ((n + 2) mod 4)) 2)) (inv_sbox (byte (b ! ((n + 1) mod 4)) 3))"

lemma ls_box_bytes: "ls_box x = pack (sbox (byte x 0)) (sbox (byte x 1)) (sbox (byte x 2)) (sbox (byte x 3))"
  by (simp only: ls_box_def fl_lookup pack_rotations)

lemma enc_round_columns:
  "enc_round keys b kp = (map (\<lambda>n. mix_col (sub_shift b n) XOR keys ! (kp + n)) [0..<4], kp + 4)"
  unfolding enc_round_def ft_lookup sub_shift_def pack_rotations [symmetric] mix_col_linear mix_col_ror xor.assoc by (rule refl)

lemma encl_round_columns:
  "encl_round keys b kp = map (\<lambda>n. sub_shift b n XOR keys ! (kp + n)) [0..<4]"
  unfolding encl_round_def fl_lookup sub_shift_def pack_rotations [symmetric] xor.assoc by (rule refl)

lemma dec_round_columns:
  "dec_round keys b kp = (map (\<lambda>n. imix_col (inv_sub_shift b n) XOR keys ! (kp + n)) [0..<4], kp + 4)"
  unfolding dec_round_def it_lookup inv_sub_shift_def pack_rotations [symmetric] imix_col_linear imix_col_ror xor.assoc by (rule refl)

lemma decl_round_columns:
  "decl_round keys b kp = map (\<lambda>n. inv_sub_shift b n XOR keys ! (kp + n)) [0..<4]"
  unfolding decl_round_def il_lookup inv_sub_shift_def pack_rotations [symmetric] xor.assoc by (rule refl)

lemma pack_bytes: "pack (byte x 0) (byte x 1) (byte x 2) (byte x 3) = x"
proof (rule word_bytes_eqI)
  fix k :: nat assume "k < 4"
  then consider "k = 0" | "k = 1" | "k = 2" | "k = 3" by linarith
  then show "byte (pack (byte x 0) (byte x 1) (byte x 2) (byte x 3)) k = byte x k" by cases (simp_all only: byte_pack)
qed

lemma inv_sub_shift_sub_shift:
  assumes "n < 4"
  shows "inv_sub_shift (map (sub_shift b) [0..<4]) n = b ! n"
proof -
  have s: "map (sub_shift b) [0..<4] ! m = sub_shift b m" if "m < 4" for m using that by simp
  have "(n + 3) mod 4 < 4" "(n + 2) mod 4 < 4" "(n + 1) mod 4 < 4" by auto
  moreover have "((n + 3) mod 4 + 1) mod 4 = n" "((n + 2) mod 4 + 2) mod 4 = n" "((n + 1) mod 4 + 3) mod 4 = n"
    using assms by (simp_all add: mod_simps)
  ultimately show ?thesis using assms
    unfolding inv_sub_shift_def by (simp only: s) (simp only: sub_shift_def byte_pack inv_sbox_sbox pack_bytes)
qed

text \<open>The rounds of a whole encryption and decryption; \<open>m\<close> is the number of inner rounds.\<close>

definition enc_step :: "u32 list \<Rightarrow> u32 list \<Rightarrow> nat \<Rightarrow> u32 list" where
  "enc_step ke b kp = map (\<lambda>n. mix_col (sub_shift b n) XOR ke ! (kp + n)) [0..<4]"

definition dec_step :: "u32 list \<Rightarrow> u32 list \<Rightarrow> nat \<Rightarrow> u32 list" where
  "dec_step kd b kp = map (\<lambda>n. imix_col (inv_sub_shift b n) XOR kd ! (kp + n)) [0..<4]"

lemma round_steps: "enc_round ke b kp = (enc_step ke b kp, kp + 4)" "dec_round kd b kp = (dec_step kd b kp, kp + 4)"
  by (simp_all add: enc_round_columns enc_step_def dec_round_columns dec_step_def)

primrec enc_inner :: "u32 list \<Rightarrow> nat \<Rightarrow> u32 list \<Rightarrow> u32 list" where
  "enc_inner ke 0 b = b"
| "enc_inner ke (Suc m) b = enc_step ke (enc_inner ke m b) (4 * m + 4)"

primrec dec_inner :: "u32 list \<Rightarrow> nat \<Rightarrow> u32 list \<Rightarrow> u32 list" where
  "dec_inner kd 0 b = b"
| "dec_inner kd (Suc m) b = dec_step kd (dec_inner kd m b) (4 * m + 4)"

lemma inner_numeral:
  "enc_inner ke (numeral k) b = enc_step ke (enc_inner ke (pred_numeral k) b) (4 * pred_numeral k + 4)"
  "dec_inner kd (numeral k) b = dec_step kd (dec_inner kd (pred_numeral k) b) (4 * pred_numeral k + 4)"
  by (simp_all add: numeral_eq_Suc)

definition inner_rounds :: "u32 \<Rightarrow> nat" where
  "inner_rounds key_len = unat key_len div 4 + 5"

definition valid_key_len :: "u32 \<Rightarrow> bool" where
  "valid_key_len kl \<longleftrightarrow> kl = 16 \<or> kl = 24 \<or> kl = 32"

lemma aes_encrypt_rounds:
  assumes "valid_key_len (key_length (crt_ctx tfm))" and "16 \<le> length blk"
  defines "ke \<equiv> key_enc (crt_ctx tfm)" and "m \<equiv> inner_rounds (key_length (crt_ctx tfm))"
  shows "aes_encrypt tfm blk =
    Some (store32s (encl_round ke (enc_inner ke m (map (\<lambda>i. load32 blk i XOR ke ! i) [0..<4])) (4 * m + 4)))"
  using assms(1,2) unfolding valid_key_len_def ke_def m_def
  by (elim disjE) (simp_all add: aes_encrypt_def Let_def round_steps inner_rounds_def inner_numeral)

lemma aes_decrypt_rounds:
  assumes "valid_key_len (key_length (crt_ctx tfm))" and "16 \<le> length blk"
  defines "kd \<equiv> key_dec (crt_ctx tfm)" and "m \<equiv> inner_rounds (key_length (crt_ctx tfm))"
  shows "aes_decrypt tfm blk =
    Some (store32s (decl_round kd (dec_inner kd m (map (\<lambda>i. load32 blk i XOR kd ! i) [0..<4])) (4 * m + 4)))"
  using assms(1,2) unfolding valid_key_len_def kd_def m_def
  by (elim disjE) (simp_all add: aes_decrypt_def Let_def round_steps inner_rounds_def inner_numeral)

section \<open>Decryption inverts encryption\<close>

definition inverse_schedule :: "u32 list \<Rightarrow> u32 list \<Rightarrow> nat \<Rightarrow> bool" where
  "inverse_schedule ke kd m \<longleftrightarrow> (\<forall>n < 4. kd ! n = ke ! (4 * m + 4 + n) \<and> kd ! (4 * m + 4 + n) = ke ! n \<and>
     (\<forall>j < m. kd ! (4 * j + 4 + n) = imix_col (ke ! (4 * (m - j) + n))))"

lemma length_enc_inner: "length b = 4 \<Longrightarrow> length (enc_inner ke m b) = 4"
  by (cases m) (auto simp: enc_step_def)

lemma map_nth_4: "length b = 4 \<Longrightarrow> map (\<lambda>n. b ! n) [0..<4] = b"
  by (metis map_nth)

lemma dec_step_inverts:
  assumes "\<forall>n < 4. kd ! (kp + n) = imix_col (ke ! (kq + n))"
  shows "dec_step kd (map (sub_shift (enc_step ke b kq)) [0..<4]) kp = map (sub_shift b) [0..<4]"
proof (rule nth_equalityI)
  fix n assume "n < length (dec_step kd (map (sub_shift (enc_step ke b kq)) [0..<4]) kp)"
  then have n: "n < 4" by (simp add: dec_step_def)
  have "dec_step kd (map (sub_shift (enc_step ke b kq)) [0..<4]) kp ! n =
      imix_col (mix_col (sub_shift b n) XOR ke ! (kq + n)) XOR kd ! (kp + n)"
    using n by (simp add: dec_step_def inv_sub_shift_sub_shift enc_step_def)
  also have "\<dots> = sub_shift b n" using assms n by (simp add: imix_col_linear imix_col_mix_col xor.assoc)
  finally show "dec_step kd (map (sub_shift (enc_step ke b kq)) [0..<4]) kp ! n = map (sub_shift b) [0..<4] ! n"
    using n by simp
qed (simp add: dec_step_def)

lemma dec_inner_inverts:
  assumes inv: "inverse_schedule ke kd m" and "j \<le> m"
  shows "dec_inner kd j (map (sub_shift (enc_inner ke m b)) [0..<4]) = map (sub_shift (enc_inner ke (m - j) b)) [0..<4]"
  using assms(2)
proof (induction j)
  case (Suc j)
  then obtain r where r: "m - j = Suc r" "m - Suc j = r" by (cases "m - j") auto
  have "\<forall>n < 4. kd ! (4 * j + 4 + n) = imix_col (ke ! (4 * r + 4 + n))"
    using inv Suc.prems r unfolding inverse_schedule_def by (simp add: add.commute)
  then show ?case using Suc r dec_step_inverts [of kd "4 * j + 4" ke "4 * r + 4" "enc_inner ke r b"] by simp
qed simp

lemma load32_store32s:
  assumes "length ws = 4" and "i < 4"
  shows "load32 (store32s ws) i = ws ! i"
proof -
  obtain a b c d where ws: "ws = [a, b, c, d]" using assms(1) by (auto simp: length_Suc_conv eval_nat_numeral)
  have "i = 0 \<or> i = 1 \<or> i = 2 \<or> i = 3" using assms(2) by linarith
  then show ?thesis by (elim disjE) (simp_all add: ws store32s_def load32_def pack_bytes pack_bytes [simplified])
qed

lemma store32s_load32:
  assumes "16 \<le> length p"
  shows "store32s (map (load32 p) [0..<4]) = take 16 p"
proof (rule nth_equalityI)
  have four: "[0..<4] = [0, 1, 2, 3 :: nat]" by (simp add: upt_conv_Cons)
  show "length (store32s (map (load32 p) [0..<4])) = length (take 16 p)" using assms by (simp add: store32s_def four)
  fix i assume "i < length (store32s (map (load32 p) [0..<4]))"
  then have "i \<in> set [0..<16]" by (simp add: store32s_def four)
  moreover have "[0..<16] = [0, 1, 2, 3, 4, 5, 6, 7, 8, 9, 10, 11, 12, 13, 14, 15 :: nat]" by (simp add: upt_conv_Cons)
  ultimately have "i \<in> {0, 1, 2, 3, 4, 5, 6, 7, 8, 9, 10, 11, 12, 13, 14, 15}" by (simp only: list.set)
  then show "store32s (map (load32 p) [0..<4]) ! i = take 16 p ! i"
    unfolding store32s_def four load32_def by (elim insertE emptyE) (simp_all add: byte_pack byte_pack [simplified], simp add: numeral_2_eq_2)
qed

lemma length_store32s: "length (store32s ws) = 4 * length ws"
  by (induction ws) (simp_all add: store32s_def)

lemma decrypt_encrypt:
  assumes kl: "valid_key_len (key_length (crt_ctx tfm))" and blk: "16 \<le> length blk"
    and inv: "inverse_schedule (key_enc (crt_ctx tfm)) (key_dec (crt_ctx tfm)) (inner_rounds (key_length (crt_ctx tfm)))"
  shows "\<exists>c. aes_encrypt tfm blk = Some c \<and> length c = 16 \<and> aes_decrypt tfm c = Some (take 16 blk)"
proof -
  define ke kd m where k: "ke = key_enc (crt_ctx tfm)" "kd = key_dec (crt_ctx tfm)" "m = inner_rounds (key_length (crt_ctx tfm))"
  define b where "b = map (\<lambda>i. load32 blk i XOR ke ! i) [0..<4]"
  define c where "c = encl_round ke (enc_inner ke m b) (4 * m + 4)"
  have enc: "aes_encrypt tfm blk = Some (store32s c)"
    using aes_encrypt_rounds [OF kl blk] by (simp add: k b_def c_def)
  have lc: "length c = 4" by (simp add: c_def encl_round_columns)
  have l16: "length (store32s c) = 16" using lc by (simp add: length_store32s)
  have start: "map (\<lambda>i. load32 (store32s c) i XOR kd ! i) [0..<4] = map (sub_shift (enc_inner ke m b)) [0..<4]"
  proof (rule map_cong [OF refl])
    fix n assume "n \<in> set [0..<4]"
    then have n: "n < 4" by simp
    then have "c ! n = sub_shift (enc_inner ke m b) n XOR ke ! (4 * m + 4 + n)" by (simp add: c_def encl_round_columns)
    moreover have "kd ! n = ke ! (4 * m + 4 + n)" using inv n by (simp add: inverse_schedule_def k)
    ultimately show "load32 (store32s c) n XOR kd ! n = sub_shift (enc_inner ke m b) n"
      using load32_store32s [OF lc n] by (simp add: xor.assoc)
  qed
  have "decl_round kd (map (sub_shift b) [0..<4]) (4 * m + 4) = map (load32 blk) [0..<4]"
    unfolding decl_round_columns
  proof (rule map_cong [OF refl])
    fix n assume "n \<in> set [0..<4]"
    then have n: "n < 4" by simp
    then have "kd ! (4 * m + 4 + n) = ke ! n" using inv by (simp add: inverse_schedule_def k)
    then show "inv_sub_shift (map (sub_shift b) [0..<4]) n XOR kd ! (4 * m + 4 + n) = load32 blk n"
      using n inv_sub_shift_sub_shift [OF n, of b] by (simp add: b_def xor.assoc)
  qed
  moreover have "dec_inner kd m (map (sub_shift (enc_inner ke m b)) [0..<4]) = map (sub_shift b) [0..<4]"
    using dec_inner_inverts [of ke kd m m b] inv by (simp add: k)
  ultimately have "aes_decrypt tfm (store32s c) = Some (take 16 blk)"
    using aes_decrypt_rounds [OF kl, of "store32s c", folded k] l16 store32s_load32 [OF blk] unfolding start by simp
  then show ?thesis using enc l16 by blast
qed

section \<open>The key schedule\<close>

text \<open>
  The recurrence of the key expansion of FIPS-197 on little-endian words, for a key of \<open>nk\<close> words: word \<open>i\<close>
  is the word \<open>nk\<close> places before, combined with the preceding word, which is first rotated and substituted at
  every multiple of \<open>nk\<close> and only substituted half-way for 256-bit keys.
\<close>

definition key_recurrence :: "nat \<Rightarrow> u32 list \<Rightarrow> nat \<Rightarrow> bool" where
  "key_recurrence nk ke i \<longleftrightarrow> ke ! i = ke ! (i - nk) XOR
     (if i mod nk = 0 then ls_box (ror32 (ke ! (i - 1)) 8) XOR rco_tab ! (i div nk - 1)
      else if 6 < nk \<and> i mod nk = 4 then ls_box (ke ! (i - 1))
      else ke ! (i - 1))"

lemma length_chain [simp]: "length (fst (chain js nk s)) = length (fst s)"
  by (induction js nk s rule: chain.induct) (simp_all add: Let_def)

lemma chain_upt:
  assumes "a + n + nk \<le> length ke" and "n \<le> nk" and "0 < n"
  shows "let (ke', t') = chain [a..<a + n] nk (ke, t) in
    t' = ke' ! (a + n - 1 + nk) \<and> ke' ! (a + nk) = ke ! a XOR t \<and>
    (\<forall>i. (i < a + nk \<or> a + n + nk \<le> i) \<longrightarrow> ke' ! i = ke ! i) \<and>
    (\<forall>i. a + nk < i \<and> i < a + n + nk \<longrightarrow> ke' ! i = ke' ! (i - nk) XOR ke' ! (i - 1))"
  using assms
proof (induction n arbitrary: a ke t)
  case (Suc n)
  have split: "[a..<a + Suc n] = a # [Suc a..<Suc a + n]" by (simp add: upt_conv_Cons)
  let ?t = "t XOR ke ! a" and ?ke = "ke[a + nk := t XOR ke ! a]"
  show ?case
  proof (cases "n = 0")
    case True
    then show ?thesis using Suc.prems by (auto simp: Let_def xor.commute)
  next
    case False
    obtain ke' t' where c: "chain [Suc a..<Suc a + n] nk (?ke, ?t) = (ke', t')" by fastforce
    have ih: "t' = ke' ! (Suc a + n - 1 + nk)" "ke' ! (Suc a + nk) = ?ke ! Suc a XOR ?t"
      "\<And>i. i < Suc a + nk \<or> Suc a + n + nk \<le> i \<Longrightarrow> ke' ! i = ?ke ! i"
      "\<And>i. Suc a + nk < i \<Longrightarrow> i < Suc a + n + nk \<Longrightarrow> ke' ! i = ke' ! (i - nk) XOR ke' ! (i - 1)"
      using Suc.IH [of "Suc a" ?ke ?t] Suc.prems False unfolding c by (auto simp: Let_def)
    have k0: "ke' ! (a + nk) = ?t" using ih(3) [of "a + nk"] Suc.prems by simp
    have "ke' ! Suc a = ke ! Suc a" "?ke ! Suc a = ke ! Suc a"
      using ih(3) [of "Suc a"] Suc.prems False by (auto simp: nth_list_update)
    then have "ke' ! (Suc a + nk) = ke' ! (Suc a + nk - nk) XOR ke' ! (Suc a + nk - 1)" using ih(2) k0 by simp
    then have "ke' ! i = ke' ! (i - nk) XOR ke' ! (i - 1)" if "a + nk < i" "i < a + Suc n + nk" for i
      using ih(4) [of i] that by (cases "i = Suc a + nk") auto
    moreover have "ke' ! i = ke ! i" if "i < a + nk \<or> a + Suc n + nk \<le> i" for i
      using ih(3) [of i] that by (auto simp: nth_list_update)
    ultimately show ?thesis using ih(1) k0 unfolding split chain.simps Let_def c
      by (simp add: xor.commute)
  qed
qed simp

text \<open>The schedule as filled up to word \<open>p\<close>, with \<open>t\<close> its last word.\<close>

definition filled :: "nat \<Rightarrow> u32 list \<Rightarrow> nat \<Rightarrow> u32 list \<times> u32 \<Rightarrow> bool" where
  "filled nk ke0 p s \<longleftrightarrow> length (fst s) = AES_MAX_KEYLENGTH_U32 \<and> snd s = fst s ! (p - 1) \<and> take nk (fst s) = take nk ke0 \<and>
     (\<forall>i. nk \<le> i \<and> i < p \<longrightarrow> key_recurrence nk (fst s) i)"

definition key_head :: "nat \<Rightarrow> nat \<Rightarrow> u32 \<Rightarrow> u32" where
  "key_head nk i t = (if i mod nk = 0 then ls_box (ror32 t 8) XOR rco_tab ! (i div nk - 1)
      else if 6 < nk \<and> i mod nk = 4 then ls_box t else t)"

lemma filled_chain:
  assumes f: "filled nk ke0 (a + nk) (ke, t)" and n: "0 < n" "n \<le> nk" "a + n + nk \<le> AES_MAX_KEYLENGTH_U32"
    and plain: "\<And>j. a + nk < j \<Longrightarrow> j < a + n + nk \<Longrightarrow> j mod nk \<noteq> 0 \<and> \<not> (6 < nk \<and> j mod nk = 4)"
  shows "filled nk ke0 (a + n + nk) (chain [a..<a + n] nk (ke, key_head nk (a + nk) t))"
proof -
  obtain ke' t' where c: "chain [a..<a + n] nk (ke, key_head nk (a + nk) t) = (ke', t')" by fastforce
  have len: "length ke = AES_MAX_KEYLENGTH_U32" "length ke' = AES_MAX_KEYLENGTH_U32"
    using f length_chain [of "[a..<a + n]" nk "(ke, key_head nk (a + nk) t)", unfolded c] by (simp_all add: filled_def)
  have ch: "t' = ke' ! (a + n - 1 + nk)" "ke' ! (a + nk) = ke ! a XOR key_head nk (a + nk) t"
    "\<And>i. i < a + nk \<Longrightarrow> ke' ! i = ke ! i"
    "\<And>i. a + nk < i \<Longrightarrow> i < a + n + nk \<Longrightarrow> ke' ! i = ke' ! (i - nk) XOR ke' ! (i - 1)"
    using chain_upt [of a n nk ke "key_head nk (a + nk) t"] n len by (simp_all add: c)
  have t: "t = ke ! (a + nk - 1)" using f by (simp add: filled_def)
  have "key_recurrence nk ke' i" if "nk \<le> i" "i < a + n + nk" for i
  proof -
    consider "i < a + nk" | "i = a + nk" | "a + nk < i" by linarith
    then show ?thesis
    proof cases
      case 1
      then have "key_recurrence nk ke i" using f that by (simp add: filled_def)
      moreover have "ke' ! i = ke ! i" "ke' ! (i - nk) = ke ! (i - nk)" "ke' ! (i - 1) = ke ! (i - 1)" using 1 by (auto simp: ch(3))
      ultimately show ?thesis by (simp add: key_recurrence_def)
    next
      case 2
      moreover have "ke' ! a = ke ! a" "ke' ! (a + nk - 1) = t" using n t by (simp_all add: ch(3))
      ultimately show ?thesis using ch(2) by (simp add: key_recurrence_def key_head_def)
    next
      case 3
      then show ?thesis using ch(4) [of i] plain [of i] that by (auto simp: key_recurrence_def)
    qed
  qed
  moreover have "take nk ke' = take nk ke0"
  proof -
    have "take nk ke' = take nk ke" using len by (intro nth_equalityI) (auto simp: ch(3))
    then show ?thesis using f by (simp add: filled_def)
  qed
  ultimately show ?thesis using ch(1) len n by (simp add: filled_def c add.commute)
qed

lemma loop4_filled:
  assumes "filled 4 ke0 (4 * i + 4) s" and "i < 10"
  shows "filled 4 ke0 (4 * Suc i + 4) (loop4 i s)"
proof -
  have "filled 4 ke0 (4 * i + 4 + 4) (chain [4 * i..<4 * i + 4] 4 (fst s, key_head 4 (4 * i + 4) (snd s)))"
  proof (rule filled_chain)
    fix j assume "4 * i + 4 < j" "j < 4 * i + 4 + 4"
    then show "j mod 4 \<noteq> 0 \<and> \<not> ((6 :: nat) < 4 \<and> j mod 4 = 4)" by presburger
  qed (use assms in simp_all)
  moreover have "[4 * i..<4 * i + 4] = [4 * i, 4 * i + 1, 4 * i + 2, 4 * i + 3]" by (simp add: upt_conv_Cons)
  ultimately show ?thesis by (simp add: loop4_def key_head_def case_prod_unfold Let_def add.commute)
qed

lemma loop6_filled:
  assumes "filled 6 ke0 (6 * i + 6) s" and "i < 8"
  shows "filled 6 ke0 (6 * Suc i + 6) (loop6 i s)"
proof -
  have "filled 6 ke0 (6 * i + 6 + 6) (chain [6 * i..<6 * i + 6] 6 (fst s, key_head 6 (6 * i + 6) (snd s)))"
  proof (rule filled_chain)
    fix j assume "6 * i + 6 < j" "j < 6 * i + 6 + 6"
    then show "j mod 6 \<noteq> 0 \<and> \<not> ((6 :: nat) < 6 \<and> j mod 6 = 4)" by presburger
  qed (use assms in simp_all)
  moreover have "[6 * i..<6 * i + 6] = [6 * i, 6 * i + 1, 6 * i + 2, 6 * i + 3, 6 * i + 4, 6 * i + 5]" by (simp add: upt_conv_Cons)
  ultimately show ?thesis by (simp add: loop6_def key_head_def case_prod_unfold Let_def add.commute)
qed

lemma loop8tophalf_filled:
  assumes "filled 8 ke0 (8 * i + 8) s" and "i < 7"
  shows "filled 8 ke0 (8 * i + 12) (loop8tophalf i s)"
proof -
  have "filled 8 ke0 (8 * i + 4 + 8) (chain [8 * i..<8 * i + 4] 8 (fst s, key_head 8 (8 * i + 8) (snd s)))"
  proof (rule filled_chain)
    fix j assume "8 * i + 8 < j" "j < 8 * i + 4 + 8"
    then show "j mod 8 \<noteq> 0 \<and> \<not> ((6 :: nat) < 8 \<and> j mod 8 = 4)" by presburger
  qed (use assms in simp_all)
  moreover have "[8 * i..<8 * i + 4] = [8 * i, 8 * i + 1, 8 * i + 2, 8 * i + 3]" by (simp add: upt_conv_Cons)
  ultimately show ?thesis by (simp add: loop8tophalf_def key_head_def case_prod_unfold Let_def add.commute)
qed

lemma loop8_filled:
  assumes "filled 8 ke0 (8 * i + 8) s" and "i < 6"
  shows "filled 8 ke0 (8 * Suc i + 8) (loop8 i s)"
proof -
  let ?s = "loop8tophalf i s"
  have h: "(8 * i + 12) mod 8 = 4" by presburger
  have "filled 8 ke0 (8 * i + 4 + 8) (fst ?s, snd ?s)"
    using loop8tophalf_filled [OF assms(1)] assms(2) by (simp add: add.commute)
  then have "filled 8 ke0 (8 * i + 4 + 4 + 8) (chain [8 * i + 4..<8 * i + 4 + 4] 8 (fst ?s, key_head 8 (8 * i + 4 + 8) (snd ?s)))"
  proof (rule filled_chain)
    fix j assume "8 * i + 4 + 8 < j" "j < 8 * i + 4 + 4 + 8"
    then show "j mod 8 \<noteq> 0 \<and> \<not> ((6 :: nat) < 8 \<and> j mod 8 = 4)" by presburger
  qed (use assms in simp_all)
  moreover have "[8 * i + 4..<8 * i + 4 + 4] = [8 * i + 4, 8 * i + 5, 8 * i + 6, 8 * i + 7]" by (simp add: upt_conv_Cons)
  moreover have "key_head 8 (8 * i + 4 + 8) (snd ?s) = ls_box (snd ?s)" using h by (simp add: key_head_def)
  ultimately show ?thesis by (simp add: loop8_def case_prod_unfold Let_def add.commute)
qed

lemma fold_loop_filled:
  assumes "\<And>i s. filled nk ke0 (nk * i + nk) s \<Longrightarrow> i < m \<Longrightarrow> filled nk ke0 (nk * Suc i + nk) (lp i s)"
    and "filled nk ke0 nk s" and "k \<le> m"
  shows "filled nk ke0 (nk * k + nk) (fold lp [0..<k] s)"
  using assms(3)
proof (induction k)
  case (Suc k)
  then show ?case using assms(1) [of k "fold lp [0..<k] s"] by simp
qed (use assms(2) in simp)

text \<open>The inner part of the decryption schedule.\<close>

lemma fold_update_other: "p \<notin> f ` set xs \<Longrightarrow> fold (\<lambda>i ys. ys[f i := g i]) xs ys ! p = ys ! p"
  by (induction xs arbitrary: ys) auto

lemma length_fold_update [simp]: "length (fold (\<lambda>i ys. ys[f i := g i]) xs ys) = length ys"
  by (induction xs arbitrary: ys) auto

lemma fold_update_at:
  "inj_on f (set xs) \<Longrightarrow> distinct xs \<Longrightarrow> i \<in> set xs \<Longrightarrow> f i < length ys \<Longrightarrow>
    fold (\<lambda>i ys. ys[f i := g i]) xs ys ! f i = g i"
proof (induction xs arbitrary: ys)
  case (Cons x xs)
  show ?case
  proof (cases "i = x")
    case True
    then have "f x \<notin> f ` set xs" using Cons.prems(1,2) by auto
    then show ?thesis using Cons.prems(4) True by (simp add: fold_update_other)
  next
    case False
    then show ?thesis using Cons by auto
  qed
qed simp

lemma imix_keys_at:
  fixes N :: nat
  assumes len: "length kd = AES_MAX_KEYLENGTH_U32" and N: "kl + 24 = 4 * N" "N \<le> 14"
  shows "n < 4 \<Longrightarrow> j + 1 < N \<Longrightarrow> imix_keys kl ke kd ! (4 * j + 4 + n) = imix_col (ke ! (4 * (N - 1 - j) + n))"
    and "p < 4 \<or> 4 * N \<le> p \<Longrightarrow> imix_keys kl ke kd ! p = kd ! p"
proof -
  let ?f = "\<lambda>i. kl + 24 - 4 * (i div 4) + i mod 4"
  have inj: "inj_on ?f (set [4..<kl + 24])"
  proof (rule inj_onI)
    fix x y assume "x \<in> set [4..<kl + 24]" "y \<in> set [4..<kl + 24]" and e: "?f x = ?f y"
    then have d: "x div 4 < N" "y div 4 < N" using N(1) by auto
    have "4 * (N - x div 4) + x mod 4 = 4 * (N - y div 4) + y mod 4" using e d N(1) by (simp add: diff_mult_distrib2)
    then have "(4 * (N - x div 4) + x mod 4) div 4 = (4 * (N - y div 4) + y mod 4) div 4"
      "(4 * (N - x div 4) + x mod 4) mod 4 = (4 * (N - y div 4) + y mod 4) mod 4" by simp_all
    then have "N - x div 4 = N - y div 4" "x mod 4 = y mod 4" by simp_all
    then have "x div 4 = y div 4" "x mod 4 = y mod 4" using d by linarith+
    then show "x = y" by (metis div_mult_mod_eq)
  qed
  show "imix_keys kl ke kd ! (4 * j + 4 + n) = imix_col (ke ! (4 * (N - 1 - j) + n))" if n: "n < 4" and j: "j + 1 < N"
  proof -
    let ?i = "4 * (N - 1 - j) + n"
    have i: "?i div 4 = N - 1 - j" "?i mod 4 = n" "?i \<in> set [4..<kl + 24]" using n j N(1) by auto
    have "4 * N - 4 * (N - 1 - j) = 4 * j + 4" using j by (simp add: diff_mult_distrib2)
    then have fi: "?f ?i = 4 * j + 4 + n" unfolding i N(1) by simp
    then have "?f ?i < length kd" using n j N(2) len by simp
    from fold_update_at [OF inj _ i(3) this, of "\<lambda>i. imix_col (ke ! i)"]
    show ?thesis unfolding imix_keys_def fi by simp
  qed
  show "imix_keys kl ke kd ! p = kd ! p" if p: "p < 4 \<or> 4 * N \<le> p"
  proof -
    have "?f i \<noteq> p" if "i \<in> set [4..<kl + 24]" for i
    proof -
      have d: "1 \<le> i div 4" "i div 4 < N" using that N(1) by auto
      have "?f i = 4 * (N - i div 4) + i mod 4" using d N(1) by (simp add: diff_mult_distrib2)
      moreover have "1 \<le> N - i div 4" "N - i div 4 \<le> N - 1" "i mod 4 < 4" using d by auto
      ultimately have "4 \<le> ?f i \<and> ?f i < 4 * N" by linarith
      then show ?thesis using p by linarith
    qed
    then show ?thesis unfolding imix_keys_def by (intro fold_update_other) blast
  qed
qed

definition key_words :: "u8 list \<Rightarrow> nat \<Rightarrow> u32 list" where
  "key_words in_key nk = map (\<lambda>i. le32_to_cpu (load32 in_key i)) [0..<nk]"

definition dec_frame :: "crypto_aes_ctx \<Rightarrow> u8 list \<Rightarrow> nat \<Rightarrow> u32 list \<Rightarrow> u32 list" where
  "dec_frame ctx in_key kl ke =
     (let key = (\<lambda>i. le32_to_cpu (load32 in_key i))
      in (key_dec ctx)[kl + 24 := key 0, kl + 25 := key 1, kl + 26 := key 2, kl + 27 := key 3,
           0 := ke ! (kl + 24), 1 := ke ! (kl + 25), 2 := ke ! (kl + 26), 3 := ke ! (kl + 27)])"

definition schedule_ok :: "u8 list \<Rightarrow> nat \<Rightarrow> u32 list \<Rightarrow> bool" where
  "schedule_ok in_key nk ke \<longleftrightarrow> length ke = AES_MAX_KEYLENGTH_U32 \<and> take nk ke = key_words in_key nk \<and>
     (\<forall>i. nk \<le> i \<and> i < 4 * nk + 28 \<longrightarrow> key_recurrence nk ke i)"

lemma filled_start:
  assumes "length ke = AES_MAX_KEYLENGTH_U32"
  shows "filled nk ke nk (ke, ke ! (nk - 1))"
  using assms by (auto simp: filled_def)

lemma filled_schedule:
  assumes "filled nk ke0 p s" and "take nk ke0 = key_words in_key nk" and "4 * nk + 28 \<le> p"
  shows "schedule_ok in_key nk (fst s)"
  using assms by (auto simp: filled_def schedule_ok_def)

lemma take_key_words:
  assumes "length xs = AES_MAX_KEYLENGTH_U32"
  shows "take 4 (xs[0 := k 0, 1 := k 1, 2 := k 2, 3 := k 3]) = map k [0..<4]"
    and "take 6 (xs[0 := k 0, 1 := k 1, 2 := k 2, 3 := k 3, 4 := k 4, 5 := k 5]) = map k [0..<6]"
    and "take 8 (xs[0 := k 0, 1 := k 1, 2 := k 2, 3 := k 3, 4 := k 4, 5 := k 5, 6 := k 6, 7 := k 7]) = map k [0..<8]"
proof -
  have "length xs \<ge> 8" using assms by simp
  then obtain x0 x1 x2 x3 x4 x5 x6 x7 ys where "xs = x0 # x1 # x2 # x3 # x4 # x5 # x6 # x7 # ys"
    by (metis Suc_le_length_iff numeral_eq_Suc pred_numeral_simps(2,3) eval_nat_numeral(2,3) BitM.simps le_zero_eq)
  then show "take 4 (xs[0 := k 0, 1 := k 1, 2 := k 2, 3 := k 3]) = map k [0..<4]"
    "take 6 (xs[0 := k 0, 1 := k 1, 2 := k 2, 3 := k 3, 4 := k 4, 5 := k 5]) = map k [0..<6]"
    "take 8 (xs[0 := k 0, 1 := k 1, 2 := k 2, 3 := k 3, 4 := k 4, 5 := k 5, 6 := k 6, 7 := k 7]) = map k [0..<8]"
    by (simp_all add: upt_conv_Cons eval_nat_numeral)
qed

lemma expand_key_schedule:
  assumes len: "length (key_enc ctx) = AES_MAX_KEYLENGTH_U32" and kl: "valid_key_len kl" and key: "unat kl \<le> length in_key"
  shows "\<exists>ke. crypto_aes_expand_key ctx in_key kl = Some (Inr (ctx\<lparr>key_length := kl, key_enc := ke,
      key_dec := imix_keys (unat kl) ke (dec_frame ctx in_key (unat kl) ke)\<rparr>)) \<and> schedule_ok in_key (unat kl div 4) ke"
proof -
  define k where "k = (\<lambda>i. le32_to_cpu (load32 in_key i))"
  define ke0 where "ke0 = (key_enc ctx)[0 := k 0, 1 := k 1, 2 := k 2, 3 := k 3]"
  have kw: "key_words in_key n = map k [0..<n]" for n by (simp add: key_words_def k_def)
  note tk = take_key_words [OF len, of k]
  have l0: "length ke0 = AES_MAX_KEYLENGTH_U32" using len by (simp add: ke0_def)
  consider "kl = 16" | "kl = 24" | "kl = 32" using kl by (auto simp: valid_key_len_def)
  then show ?thesis
  proof cases
    case 1
    have "filled 4 ke0 (4 * 10 + 4) (fold loop4 [0..<10] (ke0, ke0 ! 3))"
      by (rule fold_loop_filled [of 4 ke0 10]) (use loop4_filled filled_start [OF l0, of 4] in auto)
    then have "schedule_ok in_key 4 (fst (fold loop4 [0..<10] (ke0, ke0 ! 3)))"
      by (rule filled_schedule) (simp only: kw ke0_def tk, simp)
    moreover have "crypto_aes_expand_key ctx in_key kl = Some (Inr (ctx\<lparr>key_length := kl,
        key_enc := fst (fold loop4 [0..<10] (ke0, ke0 ! 3)),
        key_dec := imix_keys 16 (fst (fold loop4 [0..<10] (ke0, ke0 ! 3)))
          (dec_frame ctx in_key 16 (fst (fold loop4 [0..<10] (ke0, ke0 ! 3))))\<rparr>))"
      using key 1 unfolding crypto_aes_expand_key_def dec_frame_def Let_def ke0_def k_def by simp
    ultimately show ?thesis using 1 by auto
  next
    case 2
    let ?ke = "ke0[4 := k 4, 5 := k 5]"
    have "filled 6 ?ke (6 * 8 + 6) (fold loop6 [0..<8] (?ke, ?ke ! 5))"
      by (rule fold_loop_filled [of 6 ?ke 8]) (use loop6_filled filled_start [of ?ke 6] l0 in auto)
    then have "schedule_ok in_key 6 (fst (fold loop6 [0..<8] (?ke, ?ke ! 5)))"
      by (rule filled_schedule) (simp only: kw ke0_def tk, simp)
    moreover have "crypto_aes_expand_key ctx in_key kl = Some (Inr (ctx\<lparr>key_length := kl,
        key_enc := fst (fold loop6 [0..<8] (?ke, ?ke ! 5)),
        key_dec := imix_keys 24 (fst (fold loop6 [0..<8] (?ke, ?ke ! 5)))
          (dec_frame ctx in_key 24 (fst (fold loop6 [0..<8] (?ke, ?ke ! 5))))\<rparr>))"
      using key 2 unfolding crypto_aes_expand_key_def dec_frame_def Let_def ke0_def k_def by simp
    ultimately show ?thesis using 2 by auto
  next
    case 3
    let ?ke = "ke0[4 := k 4, 5 := k 5, 6 := k 6, 7 := k 7]"
    let ?r = "loop8tophalf 6 (fold loop8 [0..<6] (?ke, ?ke ! 7))"
    have "filled 8 ?ke (8 * 6 + 8) (fold loop8 [0..<6] (?ke, ?ke ! 7))"
      by (rule fold_loop_filled [of 8 ?ke 6]) (use loop8_filled filled_start [of ?ke 8] l0 in auto)
    then have "filled 8 ?ke (8 * 6 + 12) ?r" by (rule loop8tophalf_filled) simp
    then have "schedule_ok in_key 8 (fst ?r)"
      by (rule filled_schedule) (simp only: kw ke0_def tk, simp)
    moreover have "crypto_aes_expand_key ctx in_key kl = Some (Inr (ctx\<lparr>key_length := kl, key_enc := fst ?r,
        key_dec := imix_keys 32 (fst ?r) (dec_frame ctx in_key 32 (fst ?r))\<rparr>))"
      using key 3 unfolding crypto_aes_expand_key_def dec_frame_def Let_def ke0_def k_def by simp
    ultimately show ?thesis using 3 by auto
  qed
qed

lemma expand_key_inverse:
  assumes kl: "valid_key_len kl" and len: "length (key_dec ctx) = AES_MAX_KEYLENGTH_U32"
    and sch: "schedule_ok in_key (unat kl div 4) ke"
  shows "inverse_schedule ke (imix_keys (unat kl) ke (dec_frame ctx in_key (unat kl) ke)) (inner_rounds kl)"
proof -
  define N where "N = unat kl div 4 + 6"
  let ?l = "unat kl" and ?kd = "dec_frame ctx in_key (unat kl) ke"
  have N: "?l + 24 = 4 * N" "N \<le> 14" "10 \<le> N" "inner_rounds kl = N - 1"
    using kl by (auto simp: valid_key_len_def N_def inner_rounds_def)
  have ld: "length ?kd = AES_MAX_KEYLENGTH_U32" using len by (simp add: dec_frame_def Let_def)
  have first: "ke ! i = le32_to_cpu (load32 in_key i)" if "i < 4" for i
  proof -
    have i: "i < unat kl div 4" using that kl by (auto simp: valid_key_len_def)
    then have "take (unat kl div 4) ke ! i = key_words in_key (unat kl div 4) ! i" using sch by (simp add: schedule_ok_def)
    then show ?thesis using i by (simp add: key_words_def)
  qed
  have "?kd ! n = ke ! (4 * N + n) \<and> ?kd ! (4 * N + n) = ke ! n" if "n < 4" for n
  proof -
    have k: "?l + 25 = Suc (4 * N)" "?l + 26 = Suc (Suc (4 * N))" "?l + 27 = 4 * N + 3" using N(1) by auto
    consider "n = 0" | "n = 1" | "n = 2" | "n = 3" using \<open>n < 4\<close> by linarith
    then show ?thesis unfolding dec_frame_def Let_def k N(1)
      by cases (use N(2,3) len first in \<open>simp_all add: nth_list_update\<close>)
  qed
  moreover have "imix_keys ?l ke ?kd ! n = ?kd ! n" "imix_keys ?l ke ?kd ! (4 * N + n) = ?kd ! (4 * N + n)" if "n < 4" for n
    using imix_keys_at(2) [OF ld N(1,2)] that by auto
  moreover have "imix_keys ?l ke ?kd ! (4 * j + 4 + n) = imix_col (ke ! (4 * (N - 1 - j) + n))" if "n < 4" "j < N - 1" for n j
    using imix_keys_at(1) [OF ld N(1,2), of n j] that by simp
  moreover have "4 * (N - 1) + 4 = 4 * N" using N(3) by simp
  ultimately show ?thesis unfolding inverse_schedule_def N(4) by simp
qed

section \<open>The cipher of FIPS-197\<close>

text \<open>
  The rounds of the standard on a state of bytes, indexed by row and column, with the bytes of the key
  schedule indexed by word and byte.
\<close>

type_synonym aes_state = "nat \<Rightarrow> nat \<Rightarrow> u8"

definition xtime :: "u8 \<Rightarrow> u8" where
  "xtime b = push_bit 1 b XOR (if bit b 7 then 0x1b else 0)"

definition SubBytes :: "aes_state \<Rightarrow> aes_state" where
  "SubBytes s r c = sbox (s r c)"

definition ShiftRows :: "aes_state \<Rightarrow> aes_state" where
  "ShiftRows s r c = s r ((c + r) mod 4)"

definition MixColumns :: "aes_state \<Rightarrow> aes_state" where
  "MixColumns s r c = xtime (s r c) XOR (xtime (s ((r + 1) mod 4) c) XOR s ((r + 1) mod 4) c) XOR
     s ((r + 2) mod 4) c XOR s ((r + 3) mod 4) c"

definition AddRoundKey :: "(nat \<Rightarrow> nat \<Rightarrow> u8) \<Rightarrow> nat \<Rightarrow> aes_state \<Rightarrow> aes_state" where
  "AddRoundKey w rnd s r c = s r c XOR w (4 * rnd + c) r"

primrec cipher_rounds :: "(nat \<Rightarrow> nat \<Rightarrow> u8) \<Rightarrow> nat \<Rightarrow> aes_state \<Rightarrow> aes_state" where
  "cipher_rounds w 0 s = AddRoundKey w 0 s"
| "cipher_rounds w (Suc m) s = AddRoundKey w (Suc m) (MixColumns (ShiftRows (SubBytes (cipher_rounds w m s))))"

definition cipher :: "(nat \<Rightarrow> nat \<Rightarrow> u8) \<Rightarrow> nat \<Rightarrow> aes_state \<Rightarrow> aes_state" where
  "cipher w nr s = AddRoundKey w nr (ShiftRows (SubBytes (cipher_rounds w (nr - 1) s)))"

lemma bit_27: "bit (0x1b :: u8) n \<longleftrightarrow> n = 0 \<or> n = 1 \<or> n = 3 \<or> n = 4"
proof (cases "n < 8")
  case True
  have "\<forall>n \<in> set [0..<8]. bit (0x1b :: u8) n \<longleftrightarrow> n = 0 \<or> n = 1 \<or> n = 3 \<or> n = 4" by code_simp
  then show ?thesis using True by simp
next
  case False
  then show ?thesis using bit_imp_le_length [of "0x1b :: u8" n] by auto
qed

lemma byte_star_x: "r < 4 \<Longrightarrow> byte (star_x x) r = xtime (byte x r)"
proof (rule bit_word_eqI)
  fix n assume r: "r < 4" and "n < LENGTH(8)"
  then have n: "n < 8" by simp
  have m: "(8 * r + n) mod 8 = n" "8 * r + n < 32" using r n by auto
  have x: "bit (xtime b) n \<longleftrightarrow> (n \<noteq> 0 \<and> bit b (n - 1)) \<noteq> ((n = 0 \<or> n = 1 \<or> n = 3 \<or> n = 4) \<and> bit b 7)" for b
    using n bit_27 [of n] unfolding xtime_def bit_xor_iff bit_push_bit_iff by auto
  have "8 * r + n - 1 = 8 * r + (n - 1)" if "n \<noteq> 0" using that by simp
  then have "n \<noteq> 0 \<Longrightarrow> bit (byte x r) (n - 1) \<longleftrightarrow> bit x (8 * r + n - 1)" using n by (auto simp: bit_byte)
  moreover have "bit (byte x r) 7 \<longleftrightarrow> bit x (8 * r + n - (8 * r + n) mod 8 + 7)" using m by (simp add: bit_byte)
  moreover have "bit (byte (star_x x) r) n \<longleftrightarrow> bit (star_x x) (8 * r + n)" using n by (simp add: bit_byte)
  ultimately show "bit (byte (star_x x) r) n \<longleftrightarrow> bit (xtime (byte x r)) n"
    unfolding x using bit_star_x [OF m(2), of x] m(1) by metis
qed

lemma byte_mix_col:
  assumes "r < 4"
  shows "byte (mix_col x) r = xtime (byte x r) XOR (xtime (byte x ((r + 1) mod 4)) XOR byte x ((r + 1) mod 4)) XOR
    byte x ((r + 2) mod 4) XOR byte x ((r + 3) mod 4)"
  using byte_ror32 [OF assms, of 1] byte_ror32 [OF assms, of 2] byte_ror32 [OF assms, of 3] assms
  by (simp add: mix_col_def byte_star_x)

lemma byte_sub_shift:
  assumes "r < 4" and "c < 4"
  shows "byte (sub_shift b c) r = ShiftRows (SubBytes (\<lambda>r c. byte (b ! c) r)) r c"
proof -
  consider "r = 0" | "r = 1" | "r = 2" | "r = 3" using assms by linarith
  then show ?thesis using assms by cases (simp_all only: sub_shift_def byte_pack ShiftRows_def SubBytes_def, simp_all)
qed

text \<open>The words of the implementation as a state of bytes.\<close>

definition state_of :: "u32 list \<Rightarrow> aes_state" where
  "state_of b r c = byte (b ! c) r"

definition block_state :: "u8 list \<Rightarrow> aes_state" where
  "block_state blk r c = blk ! (4 * c + r)"

lemma enc_inner_cipher:
  assumes "r < 4" and "c < 4"
  shows "state_of (enc_inner ke m (map (\<lambda>i. load32 blk i XOR ke ! i) [0..<4])) r c =
    cipher_rounds (\<lambda>i r. byte (ke ! i) r) m (block_state blk) r c"
  using assms
proof (induction m arbitrary: r c)
  case 0
  consider "r = 0" | "r = 1" | "r = 2" | "r = 3" using 0 by linarith
  then have "byte (load32 blk c) r = block_state blk r c"
    by cases (simp_all only: load32_def byte_pack block_state_def, simp_all)
  then show ?case using 0 by (simp add: state_of_def AddRoundKey_def)
next
  case (Suc m)
  let ?b = "enc_inner ke m (map (\<lambda>i. load32 blk i XOR ke ! i) [0..<4])"
  have cong: "ShiftRows (SubBytes (state_of ?b)) r' c' = ShiftRows (SubBytes (cipher_rounds (\<lambda>i r. byte (ke ! i) r) m (block_state blk))) r' c'"
    if "r' < 4" for r' c' using Suc.IH [of r' "(c' + r') mod 4"] that by (simp add: ShiftRows_def SubBytes_def)
  have ss: "byte (sub_shift ?b c) r' = ShiftRows (SubBytes (state_of ?b)) r' c" if "r' < 4" for r'
    using byte_sub_shift [OF that Suc.prems(2), of ?b] by (simp add: state_of_def [abs_def])
  have "byte (mix_col (sub_shift ?b c)) r = MixColumns (ShiftRows (SubBytes (state_of ?b))) r c"
    unfolding byte_mix_col [OF Suc.prems(1)] MixColumns_def using Suc.prems(1) by (simp add: ss)
  also have "\<dots> = MixColumns (ShiftRows (SubBytes (cipher_rounds (\<lambda>i r. byte (ke ! i) r) m (block_state blk)))) r c"
    unfolding MixColumns_def using cong Suc.prems(1) by simp
  finally show ?case using Suc.prems by (simp add: state_of_def enc_step_def AddRoundKey_def add.commute add.left_commute)
qed

lemma store32s_nth:
  assumes "length ws = 4" and "r < 4" and "c < 4"
  shows "store32s ws ! (4 * c + r) = byte (ws ! c) r"
proof -
  obtain w x y z where ws: "ws = [w, x, y, z]" using assms(1) by (auto simp: length_Suc_conv eval_nat_numeral)
  have "r = 0 \<or> r = 1 \<or> r = 2 \<or> r = 3" "c = 0 \<or> c = 1 \<or> c = 2 \<or> c = 3" using assms by linarith+
  then show ?thesis unfolding ws store32s_def by (elim disjE) simp_all
qed

lemma encrypt_cipher:
  assumes kl: "valid_key_len (key_length (crt_ctx tfm))" and blk: "16 \<le> length blk"
  shows "\<exists>out. aes_encrypt tfm blk = Some out \<and> length out = 16 \<and>
    (\<forall>r < 4. \<forall>c < 4. block_state out r c =
      cipher (\<lambda>i r. byte (key_enc (crt_ctx tfm) ! i) r) (inner_rounds (key_length (crt_ctx tfm)) + 1) (block_state blk) r c)"
proof -
  define ke m where k: "ke = key_enc (crt_ctx tfm)" "m = inner_rounds (key_length (crt_ctx tfm))"
  let ?b = "enc_inner ke m (map (\<lambda>i. load32 blk i XOR ke ! i) [0..<4])"
  let ?o = "encl_round ke ?b (4 * m + 4)"
  have lo: "length ?o = 4" by (simp add: encl_round_columns)
  have "block_state (store32s ?o) r c = cipher (\<lambda>i r. byte (ke ! i) r) (m + 1) (block_state blk) r c"
    if "r < 4" "c < 4" for r c
  proof -
    have "block_state (store32s ?o) r c = byte (sub_shift ?b c) r XOR byte (ke ! (4 * m + 4 + c)) r"
      using store32s_nth [OF lo that] that by (simp add: block_state_def encl_round_columns)
    also have "byte (sub_shift ?b c) r = sbox (state_of ?b r ((c + r) mod 4))"
      using byte_sub_shift [OF that, of ?b] by (simp add: ShiftRows_def SubBytes_def state_of_def)
    finally show ?thesis using enc_inner_cipher [of r "(c + r) mod 4" ke m blk] that
      by (simp add: cipher_def AddRoundKey_def ShiftRows_def SubBytes_def add.commute add.left_commute)
  qed
  then show ?thesis using aes_encrypt_rounds [OF kl blk] lo by (simp add: k length_store32s)
qed

section \<open>Properties\<close>

definition ctx_wf :: "crypto_aes_ctx \<Rightarrow> bool" where
  "ctx_wf ctx \<longleftrightarrow> length (key_enc ctx) = AES_MAX_KEYLENGTH_U32 \<and> length (key_dec ctx) = AES_MAX_KEYLENGTH_U32"

lemma set_key_schedule:
  assumes wf: "ctx_wf (crt_ctx tfm)" and kl: "valid_key_len kl" and key: "unat kl \<le> length in_key"
  obtains tfm' where "crypto_aes_set_key tfm in_key kl = Some (Inr tfm')" "key_length (crt_ctx tfm') = kl"
    "schedule_ok in_key (unat kl div 4) (key_enc (crt_ctx tfm'))"
    "inverse_schedule (key_enc (crt_ctx tfm')) (key_dec (crt_ctx tfm')) (inner_rounds kl)"
proof -
  have len: "length (key_enc (crt_ctx tfm)) = AES_MAX_KEYLENGTH_U32" "length (key_dec (crt_ctx tfm)) = AES_MAX_KEYLENGTH_U32"
    using wf by (simp_all add: ctx_wf_def)
  obtain ke where ke: "crypto_aes_expand_key (crt_ctx tfm) in_key kl = Some (Inr ((crt_ctx tfm)\<lparr>key_length := kl, key_enc := ke,
      key_dec := imix_keys (unat kl) ke (dec_frame (crt_ctx tfm) in_key (unat kl) ke)\<rparr>))" "schedule_ok in_key (unat kl div 4) ke"
    using expand_key_schedule [OF len(1) kl key] by blast
  note inv = expand_key_inverse [OF kl len(2) ke(2)]
  show thesis
    by (rule that [of "tfm\<lparr>crt_ctx := (crt_ctx tfm)\<lparr>key_length := kl, key_enc := ke,
      key_dec := imix_keys (unat kl) ke (dec_frame (crt_ctx tfm) in_key (unat kl) ke)\<rparr>\<rparr>"])
       (simp_all add: crypto_aes_set_key_def ke inv)
qed

definition tfm_blank :: crypto_tfm where
  "tfm_blank = \<lparr>crt_flags = 0, crt_ctx = \<lparr>key_enc = replicate 60 0, key_dec = replicate 60 0, key_length = 0\<rparr>\<rparr>"

lemma tfm_blank_wf: "ctx_wf (crt_ctx tfm_blank)"
  by (simp add: ctx_wf_def tfm_blank_def)

text \<open>
  C13. Decryption inverts encryption: for each of the three key lengths, setting the key succeeds, every
  block is encrypted to sixteen bytes, and decrypting those under the same key gives the block back.
\<close>

theorem aes_roundtrip:
  assumes "ctx_wf (crt_ctx tfm)" and "valid_key_len kl" and "unat kl \<le> length in_key" and blk: "16 \<le> length blk"
  shows "\<exists>tfm' c. crypto_aes_set_key tfm in_key kl = Some (Inr tfm') \<and> aes_encrypt tfm' blk = Some c \<and>
    length c = 16 \<and> aes_decrypt tfm' c = Some (take 16 blk)"
proof -
  obtain tfm' where t: "crypto_aes_set_key tfm in_key kl = Some (Inr tfm')" "key_length (crt_ctx tfm') = kl"
    "inverse_schedule (key_enc (crt_ctx tfm')) (key_dec (crt_ctx tfm')) (inner_rounds kl)"
    using set_key_schedule [OF assms(1-3)] by blast
  then show ?thesis using decrypt_encrypt [of tfm' blk] assms(2) blk by auto
qed

theorem aes_roundtrip_witness:
  "\<exists>tfm' c. crypto_aes_set_key tfm_blank (replicate 32 7) 32 = Some (Inr tfm') \<and> aes_encrypt tfm' (replicate 16 9) = Some c \<and>
    length c = 16 \<and> aes_decrypt tfm' c = Some (take 16 (replicate 16 9))"
  by (rule aes_roundtrip [OF tfm_blank_wf]) (simp_all add: valid_key_len_def)

text \<open>
  C29. The table-driven encryption computes the cipher of FIPS-197: the sixteen output bytes are those of the
  rounds of the standard, with substitution, row shift, column multiplication and key addition on a
  state of bytes, for 10, 12 or 14 rounds, under the key schedule in the context.
\<close>

theorem aes_encrypt_fips:
  assumes "valid_key_len (key_length (crt_ctx tfm))" and "16 \<le> length blk"
  shows "\<exists>out. aes_encrypt tfm blk = Some out \<and> length out = 16 \<and>
    (\<forall>r < 4. \<forall>c < 4. block_state out r c =
      cipher (\<lambda>i r. byte (key_enc (crt_ctx tfm) ! i) r) (unat (key_length (crt_ctx tfm)) div 4 + 6) (block_state blk) r c)"
proof -
  have e: "inner_rounds kl + 1 = unat kl div 4 + 6" for kl by (simp add: inner_rounds_def)
  show ?thesis using encrypt_cipher [OF assms] unfolding e .
qed

theorem aes_encrypt_fips_witness:
  "\<exists>out. aes_encrypt (tfm_blank\<lparr>crt_ctx := (crt_ctx tfm_blank)\<lparr>key_length := 16\<rparr>\<rparr>) (replicate 16 9) = Some out \<and> length out = 16"
  using aes_encrypt_fips [of "tfm_blank\<lparr>crt_ctx := (crt_ctx tfm_blank)\<lparr>key_length := 16\<rparr>\<rparr>" "replicate 16 9"]
  by (auto simp: valid_key_len_def)

text \<open>
  Setting a key fills the encryption schedule by the recurrence of FIPS-197 up to the last round key,
  and the decryption schedule is its equivalent inverse: the round keys in reverse order, the inner ones
  with their columns multiplied.
\<close>

theorem aes_key_schedule:
  assumes "ctx_wf (crt_ctx tfm)" and "valid_key_len kl" and "unat kl \<le> length in_key"
  shows "\<exists>tfm'. crypto_aes_set_key tfm in_key kl = Some (Inr tfm') \<and>
    take (unat kl div 4) (key_enc (crt_ctx tfm')) = key_words in_key (unat kl div 4) \<and>
    (\<forall>i. unat kl div 4 \<le> i \<and> i < unat kl + 28 \<longrightarrow> key_recurrence (unat kl div 4) (key_enc (crt_ctx tfm')) i) \<and>
    inverse_schedule (key_enc (crt_ctx tfm')) (key_dec (crt_ctx tfm')) (unat kl div 4 + 5)"
proof -
  have "4 * (unat kl div 4) = unat kl" using assms(2) by (auto simp: valid_key_len_def)
  then show ?thesis using set_key_schedule [OF assms] by (auto simp: schedule_ok_def inner_rounds_def)
qed

theorem aes_key_schedule_witness:
  "\<exists>tfm'. crypto_aes_set_key tfm_blank (replicate 16 7) 16 = Some (Inr tfm') \<and>
    take (unat (16 :: u32) div 4) (key_enc (crt_ctx tfm')) = key_words (replicate 16 7) (unat (16 :: u32) div 4)"
  using aes_key_schedule [OF tfm_blank_wf, of 16 "replicate 16 7"] by (auto simp: valid_key_len_def)

text \<open>
  A key length other than 16, 24 or 32 is refused: \<open>-EINVAL\<close> is returned, the flag for a bad key length
  is set, and the context keeps its schedules.
\<close>

theorem aes_set_key_bad_length:
  assumes "\<not> valid_key_len kl"
  shows "\<exists>tfm'. crypto_aes_set_key tfm in_key kl = Some (Inl (EINVAL, tfm')) \<and>
    crt_ctx tfm' = crt_ctx tfm \<and> crt_flags tfm' AND CRYPTO_TFM_RES_BAD_KEY_LEN = CRYPTO_TFM_RES_BAD_KEY_LEN"
proof -
  have "(f OR c) AND c = c" for f c :: u32 by (rule bit_word_eqI) (auto simp: bit_and_iff bit_or_iff)
  then show ?thesis using assms by (simp add: crypto_aes_set_key_def crypto_aes_expand_key_def valid_key_len_def)
qed

theorem aes_set_key_bad_length_witness:
  "\<exists>tfm'. crypto_aes_set_key tfm_blank [] 17 = Some (Inl (EINVAL, tfm')) \<and> crt_ctx tfm' = crt_ctx tfm_blank"
  using aes_set_key_bad_length [of 17 tfm_blank "[]"] by (auto simp: valid_key_len_def)

text \<open>
  The key is used with the bytes of each word in reverse: byte \<open>r\<close> of word \<open>i\<close> of the schedule is
  byte \<open>4 i + 3 - r\<close> of the key, where the standard takes byte \<open>4 i + r\<close>, while blocks are taken in the
  order of the standard.
\<close>

theorem aes_key_byte_order:
  assumes wf: "ctx_wf (crt_ctx tfm)" and kl: "valid_key_len kl" and key: "unat kl \<le> length in_key"
    and i: "i < unat kl div 4" and r: "r < 4"
  shows "\<exists>tfm'. crypto_aes_set_key tfm in_key kl = Some (Inr tfm') \<and>
    byte (key_enc (crt_ctx tfm') ! i) r = in_key ! (4 * i + 3 - r)"
proof -
  obtain tfm' where t: "crypto_aes_set_key tfm in_key kl = Some (Inr tfm')"
    "schedule_ok in_key (unat kl div 4) (key_enc (crt_ctx tfm'))"
    using set_key_schedule [OF wf kl key] by blast
  have "take (unat kl div 4) (key_enc (crt_ctx tfm')) ! i = key_words in_key (unat kl div 4) ! i"
    using t(2) by (simp add: schedule_ok_def)
  then have e: "key_enc (crt_ctx tfm') ! i = bswap_32 (load32 in_key i)"
    using i by (simp add: key_words_def le32_to_cpu_def)
  consider "r = 0" | "r = 1" | "r = 2" | "r = 3" using r by linarith
  then have "byte (key_enc (crt_ctx tfm') ! i) r = in_key ! (4 * i + 3 - r)"
    unfolding e bswap_32_def load32_def by cases (simp_all only: byte_pack, simp_all)
  then show ?thesis using t(1) by blast
qed

theorem aes_key_byte_order_witness:
  "\<exists>tfm'. crypto_aes_set_key tfm_blank (map of_nat [0..<16]) 16 = Some (Inr tfm') \<and>
    byte (key_enc (crt_ctx tfm') ! 0) 0 = map of_nat [0..<16] ! (4 * 0 + 3 - 0)"
  by (rule aes_key_byte_order [OF tfm_blank_wf]) (simp_all add: valid_key_len_def)

end
