(* ===== verification/Aes_Sbox.thy ===== *)
theory Aes_Sbox
  imports Aes_Cipher
begin

text \<open>
  The substitution table against the definition of the standard: the entry of a byte is an affine
  transformation of its inverse in the field of 256 elements.
\<close>

primrec gmul_bits :: "nat \<Rightarrow> u8 \<Rightarrow> u8 \<Rightarrow> u8" where
  "gmul_bits 0 a b = 0"
| "gmul_bits (Suc n) a b = (if bit b 0 then a else 0) XOR gmul_bits n (xtime a) (drop_bit 1 b)"

text \<open>Multiplication in the field, and the affine transformation with its inverse.\<close>

definition gmul :: "u8 \<Rightarrow> u8 \<Rightarrow> u8" where
  "gmul = gmul_bits 8"

definition rotl8 :: "u8 \<Rightarrow> nat \<Rightarrow> u8" where
  "rotl8 x n = push_bit n x OR drop_bit (8 - n) x"

definition affine :: "u8 \<Rightarrow> u8" where
  "affine x = x XOR rotl8 x 1 XOR rotl8 x 2 XOR rotl8 x 3 XOR rotl8 x 4 XOR 0x63"

definition inv_affine :: "u8 \<Rightarrow> u8" where
  "inv_affine y = rotl8 y 1 XOR rotl8 y 3 XOR rotl8 y 6 XOR 0x05"

definition sbox_entry :: "u8 \<Rightarrow> u8 \<Rightarrow> bool" where
  "sbox_entry b s \<longleftrightarrow> (let x = inv_affine s in affine x = s \<and> (if b = 0 then x = 0 else gmul b x = 1))"

lemma sbox_block_0: "list_all2 sbox_entry (map of_nat [0..<32]) (map ucast (take 32 (drop 0 crypto_fl_tab_0)))"
  by code_simp

lemma sbox_block_1: "list_all2 sbox_entry (map of_nat [32..<64]) (map ucast (take 32 (drop 32 crypto_fl_tab_0)))"
  by code_simp

lemma sbox_block_2: "list_all2 sbox_entry (map of_nat [64..<96]) (map ucast (take 32 (drop 64 crypto_fl_tab_0)))"
  by code_simp

lemma sbox_block_3: "list_all2 sbox_entry (map of_nat [96..<128]) (map ucast (take 32 (drop 96 crypto_fl_tab_0)))"
  by code_simp

lemma sbox_block_4: "list_all2 sbox_entry (map of_nat [128..<160]) (map ucast (take 32 (drop 128 crypto_fl_tab_0)))"
  by code_simp

lemma sbox_block_5: "list_all2 sbox_entry (map of_nat [160..<192]) (map ucast (take 32 (drop 160 crypto_fl_tab_0)))"
  by code_simp

lemma sbox_block_6: "list_all2 sbox_entry (map of_nat [192..<224]) (map ucast (take 32 (drop 192 crypto_fl_tab_0)))"
  by code_simp

lemma sbox_block_7: "list_all2 sbox_entry (map of_nat [224..<256]) (map ucast (take 32 (drop 224 crypto_fl_tab_0)))"
  by code_simp

lemma sbox_entry_block:
  assumes "list_all2 sbox_entry (map of_nat [k..<k + 32]) (map ucast (take 32 (drop k crypto_fl_tab_0)))"
    and "k \<le> unat b" and "unat b < k + 32" and "k + 32 \<le> 256"
  shows "sbox_entry b (sbox b)"
proof -
  have "unat b - k < length (map of_nat [k..<k + 32])" using assms(2,3) by simp
  from list_all2_nthD [OF assms(1) this] show ?thesis
    using assms(2-4) tab_lengths(1) by (simp add: sbox_def)
qed

text \<open>
  C30. The substitution table is the one of the standard: every byte other than 0 has an inverse in the
  field, 0 counts as its own inverse, and the table entry is the affine transformation of that inverse.
\<close>

theorem sbox_fips: "\<exists>x. sbox b = affine x \<and> (if b = 0 then x = 0 else gmul b x = 1)"
proof -
  define k where "k = unat b div 32"
  have "k < 8" using unat_u8 [of b] by (simp add: k_def div_less_iff_less_mult)
  then have "k = 0 \<or> k = 1 \<or> k = 2 \<or> k = 3 \<or> k = 4 \<or> k = 5 \<or> k = 6 \<or> k = 7" by linarith
  then have blk: "list_all2 sbox_entry (map of_nat [32 * k..<32 * k + 32]) (map ucast (take 32 (drop (32 * k) crypto_fl_tab_0)))"
    by (elim disjE) (simp_all only: arith_simps mult_1_right sbox_block_0 sbox_block_1 sbox_block_2 sbox_block_3
        sbox_block_4 sbox_block_5 sbox_block_6 sbox_block_7)
  have "sbox_entry b (sbox b)"
    by (rule sbox_entry_block [OF blk]) (use \<open>k < 8\<close> in \<open>auto simp: k_def\<close>)
  then show ?thesis unfolding sbox_entry_def Let_def by metis
qed

end
