(* ===== verification/Scif_Endpoint_Inv.thy ===== *)
theory Scif_Endpoint_Inv
  imports Scif_Endpoint
begin

text \<open>
  The invariant of the endpoints of a node: the lists of listening, connected, disconnected and zombie endpoints agree with the states of the endpoints, the
  counts of requests, of accepted endpoints, of connections to a node and of zombies are the lengths of what they count, and no two open endpoints own the same port.
  The lemmas say what the elementary changes do to it: an endpoint that changes in place, that moves between the lists, that gets or gives back a port, that is made or deleted.
\<close>

section \<open>The invariant\<close>

definition listening :: "endpt \<Rightarrow> bool" where
  "listening p \<longleftrightarrow> state p = SCIFEP_LISTENING \<or> state p = SCIFEP_CLLISTEN"

definition owns :: "endpt \<Rightarrow> bool" where
  "owns p \<longleftrightarrow> state p \<noteq> SCIFEP_ZOMBIE \<and> \<not> accepted_ep p \<and> pport (port p) \<noteq> 0"

text \<open>What the parts of the invariant look at.\<close>

definition dev_of :: "scif_node \<Rightarrow> u64 \<Rightarrow> nat option" where
  "dev_of s e = (case eps s e of Some p \<Rightarrow> remote_dev p | None \<Rightarrow> None)"

definition st_of :: "scif_node \<Rightarrow> u64 \<Rightarrow> endptstate option" where
  "st_of s e = map_option state (eps s e)"

definition listener :: "scif_node \<Rightarrow> u64 \<Rightarrow> endpt option" where
  "listener s e = (case eps s e of Some p \<Rightarrow> if listening p then Some p else None | None \<Rightarrow> None)"

definition accepted_by :: "scif_node \<Rightarrow> u64 \<Rightarrow> (u64 option \<times> bool) option" where
  "accepted_by s e = map_option (\<lambda>p. (listenep p, accepted_ep p)) (eps s e)"

definition port_of :: "scif_node \<Rightarrow> u64 \<Rightarrow> u16 option" where
  "port_of s e = (case eps s e of Some p \<Rightarrow> if owns p then Some (pport (port p)) else None | None \<Rightarrow> None)"

definition lists_ok :: "scif_node \<Rightarrow> bool" where
  "lists_ok s \<longleftrightarrow> distinct (mi_listen s @ mi_connected s @ mi_disconnected s @ mi_zombie s) \<and>
     (\<forall>e. e \<in> set (mi_listen s) \<longleftrightarrow> st_of s e = Some SCIFEP_LISTENING \<or> st_of s e = Some SCIFEP_CLLISTEN) \<and>
     (\<forall>e. e \<in> set (mi_zombie s) \<longleftrightarrow> st_of s e = Some SCIFEP_ZOMBIE) \<and>
     (\<forall>e \<in> set (mi_connected s). st_of s e \<in> {Some SCIFEP_CONNECTED, Some SCIFEP_CLOSING} \<and> dev_of s e \<noteq> None) \<and>
     (\<forall>e \<in> set (mi_disconnected s). st_of s e \<in> {Some SCIFEP_DISCONNECTED, Some SCIFEP_CLOSING})"

definition counts_ok :: "scif_node \<Rightarrow> bool" where
  "counts_ok s \<longleftrightarrow> mi_nr_zombies s = of_nat (length (mi_zombie s)) \<and>
     (\<forall>d. num_active_conn s d = int (length (filter (\<lambda>e. dev_of s e = Some d) (mi_connected s)))) \<and>
     (\<forall>e p. listener s e = Some p \<longrightarrow> conreqcnt p = int (length (conlist p)) \<and> length (conlist p) \<le> unat (backlog p))"

text \<open>Accepted endpoints that no process has attached yet; the listener of those in \<open>A\<close> is being closed.\<close>

definition accepts_but :: "u64 set \<Rightarrow> scif_node \<Rightarrow> bool" where
  "accepts_but A s \<longleftrightarrow> distinct (mi_uaccept s) \<and>
     (\<forall>e p. listener s e = Some p \<longrightarrow> acceptcnt p = int (length (li_accept p)) \<and> distinct (li_accept p) \<and>
        (\<forall>a \<in> set (li_accept p). a \<in> set (mi_uaccept s) \<and> (\<exists>b. accepted_by s a = Some (Some e, b)))) \<and>
     (\<forall>a \<in> set (mi_uaccept s). (a \<in> set (mi_connected s) \<or> a \<in> set (mi_disconnected s)) \<and>
        (\<exists>e. accepted_by s a = Some (Some e, True) \<and> (case listener s e of None \<Rightarrow> a \<in> A | Some p \<Rightarrow> a \<notin> A \<and> a \<in> set (li_accept p))))"

definition ports_ok :: "scif_node \<Rightarrow> bool" where
  "ports_ok s \<longleftrightarrow> ports_inv (ports s) \<and> (\<forall>e q. port_of s e = Some q \<longrightarrow> q \<notin> ports_free (ports s)) \<and>
     (\<forall>e e' q. port_of s e = Some q \<longrightarrow> port_of s e' = Some q \<longrightarrow> e = e')"

definition inv_but :: "u64 set \<Rightarrow> scif_node \<Rightarrow> bool" where
  "inv_but A s \<longleftrightarrow> lists_ok s \<and> counts_ok s \<and> accepts_but A s \<and> ports_ok s"

abbreviation node_inv :: "scif_node \<Rightarrow> bool" where "node_inv \<equiv> inv_but {}"

section \<open>Views of changed states\<close>

named_theorems ep_views \<open>what a change of a state does to the views\<close>

lemma set_ep_sel [simp]:
  "eps (set_ep e p s) = (eps s)(e := Some p)" "mi_listen (set_ep e p s) = mi_listen s" "mi_connected (set_ep e p s) = mi_connected s"
  "mi_disconnected (set_ep e p s) = mi_disconnected s" "mi_zombie (set_ep e p s) = mi_zombie s" "mi_uaccept (set_ep e p s) = mi_uaccept s"
  "mi_nr_zombies (set_ep e p s) = mi_nr_zombies s" "num_active_conn (set_ep e p s) = num_active_conn s" "ports (set_ep e p s) = ports s"
  "dev_state (set_ep e p s) = dev_state s" "outbox (set_ep e p s) = outbox s" "mi_nodeid (set_ep e p s) = mi_nodeid s" "max_board (set_ep e p s) = max_board s"
  by (simp_all add: set_ep_def)

lemmas views_def = dev_of_def st_of_def listener_def accepted_by_def port_of_def

text \<open>The views depend on the endpoints only.\<close>

lemma views_same:
  "eps t = eps s \<Longrightarrow> dev_of t = dev_of s \<and> st_of t = st_of s \<and> listener t = listener s \<and> accepted_by t = accepted_by s \<and> port_of t = port_of s"
  by (auto simp: views_def fun_eq_iff)

lemma views_set_ep [ep_views]:
  "dev_of (set_ep e p s) = (dev_of s)(e := remote_dev p)" "st_of (set_ep e p s) = (st_of s)(e := Some (state p))"
  "listener (set_ep e p s) = (listener s)(e := if listening p then Some p else None)"
  "accepted_by (set_ep e p s) = (accepted_by s)(e := Some (listenep p, accepted_ep p))"
  "port_of (set_ep e p s) = (port_of s)(e := if owns p then Some (pport (port p)) else None)"
  by (auto simp: views_def fun_eq_iff)

lemma views_upd [ep_views]:
  "dev_of (s\<lparr>mi_listen := l\<rparr>) = dev_of s" "dev_of (s\<lparr>mi_connected := l\<rparr>) = dev_of s" "dev_of (s\<lparr>mi_disconnected := l\<rparr>) = dev_of s"
  "dev_of (s\<lparr>mi_zombie := l\<rparr>) = dev_of s" "dev_of (s\<lparr>mi_uaccept := l\<rparr>) = dev_of s" "dev_of (s\<lparr>mi_nr_zombies := z\<rparr>) = dev_of s"
  "dev_of (s\<lparr>num_active_conn := c\<rparr>) = dev_of s" "dev_of (s\<lparr>ports := ps\<rparr>) = dev_of s" "dev_of (s\<lparr>outbox := ms\<rparr>) = dev_of s"
  "st_of (s\<lparr>mi_listen := l\<rparr>) = st_of s" "st_of (s\<lparr>mi_connected := l\<rparr>) = st_of s" "st_of (s\<lparr>mi_disconnected := l\<rparr>) = st_of s"
  "st_of (s\<lparr>mi_zombie := l\<rparr>) = st_of s" "st_of (s\<lparr>mi_uaccept := l\<rparr>) = st_of s" "st_of (s\<lparr>mi_nr_zombies := z\<rparr>) = st_of s"
  "st_of (s\<lparr>num_active_conn := c\<rparr>) = st_of s" "st_of (s\<lparr>ports := ps\<rparr>) = st_of s" "st_of (s\<lparr>outbox := ms\<rparr>) = st_of s"
  "listener (s\<lparr>mi_listen := l\<rparr>) = listener s" "listener (s\<lparr>mi_connected := l\<rparr>) = listener s" "listener (s\<lparr>mi_disconnected := l\<rparr>) = listener s"
  "listener (s\<lparr>mi_zombie := l\<rparr>) = listener s" "listener (s\<lparr>mi_uaccept := l\<rparr>) = listener s" "listener (s\<lparr>mi_nr_zombies := z\<rparr>) = listener s"
  "listener (s\<lparr>num_active_conn := c\<rparr>) = listener s" "listener (s\<lparr>ports := ps\<rparr>) = listener s" "listener (s\<lparr>outbox := ms\<rparr>) = listener s"
  "accepted_by (s\<lparr>mi_listen := l\<rparr>) = accepted_by s" "accepted_by (s\<lparr>mi_connected := l\<rparr>) = accepted_by s" "accepted_by (s\<lparr>mi_disconnected := l\<rparr>) = accepted_by s"
  "accepted_by (s\<lparr>mi_zombie := l\<rparr>) = accepted_by s" "accepted_by (s\<lparr>mi_uaccept := l\<rparr>) = accepted_by s" "accepted_by (s\<lparr>mi_nr_zombies := z\<rparr>) = accepted_by s"
  "accepted_by (s\<lparr>num_active_conn := c\<rparr>) = accepted_by s" "accepted_by (s\<lparr>ports := ps\<rparr>) = accepted_by s" "accepted_by (s\<lparr>outbox := ms\<rparr>) = accepted_by s"
  "port_of (s\<lparr>mi_listen := l\<rparr>) = port_of s" "port_of (s\<lparr>mi_connected := l\<rparr>) = port_of s" "port_of (s\<lparr>mi_disconnected := l\<rparr>) = port_of s"
  "port_of (s\<lparr>mi_zombie := l\<rparr>) = port_of s" "port_of (s\<lparr>mi_uaccept := l\<rparr>) = port_of s" "port_of (s\<lparr>mi_nr_zombies := z\<rparr>) = port_of s"
  "port_of (s\<lparr>num_active_conn := c\<rparr>) = port_of s" "port_of (s\<lparr>ports := ps\<rparr>) = port_of s" "port_of (s\<lparr>outbox := ms\<rparr>) = port_of s"
  using views_same [of "s\<lparr>mi_listen := l\<rparr>" s] views_same [of "s\<lparr>mi_connected := l\<rparr>" s] views_same [of "s\<lparr>mi_disconnected := l\<rparr>" s]
    views_same [of "s\<lparr>mi_zombie := l\<rparr>" s] views_same [of "s\<lparr>mi_uaccept := l\<rparr>" s] views_same [of "s\<lparr>mi_nr_zombies := z\<rparr>" s]
    views_same [of "s\<lparr>num_active_conn := c\<rparr>" s] views_same [of "s\<lparr>ports := ps\<rparr>" s] views_same [of "s\<lparr>outbox := ms\<rparr>" s] by simp_all

lemma inv_sent [simp]: "inv_but A (s\<lparr>outbox := ms\<rparr>) = inv_but A s"
  by (simp add: inv_but_def lists_ok_def counts_ok_def accepts_but_def ports_ok_def ep_views)

lemma send_result: "\<exists>ms. snd (micscif_nodeqp_send room d m p s) = s\<lparr>outbox := ms\<rparr>"
  by (auto simp: micscif_nodeqp_send_def intro: exI [of _ "outbox s"])

lemma inv_send [simp]: "inv_but A (snd (micscif_nodeqp_send room d m p s)) = inv_but A s"
  using send_result [of room d m p s] by auto

text \<open>Where an endpoint is, by its state.\<close>

lemma in_lists:
  assumes "lists_ok s" and "eps s e = Some p"
  shows "e \<in> set (mi_listen s) \<longleftrightarrow> listening p" and "e \<in> set (mi_zombie s) \<longleftrightarrow> state p = SCIFEP_ZOMBIE"
    and "e \<in> set (mi_connected s) \<Longrightarrow> state p \<in> {SCIFEP_CONNECTED, SCIFEP_CLOSING}" and "e \<in> set (mi_disconnected s) \<Longrightarrow> state p \<in> {SCIFEP_DISCONNECTED, SCIFEP_CLOSING}"
  using assms by (auto simp: lists_ok_def st_of_def listening_def)

lemma in_accepts: "inv_but A s \<Longrightarrow> e \<in> set (mi_uaccept s) \<Longrightarrow> e \<in> set (mi_connected s) \<or> e \<in> set (mi_disconnected s)"
  by (auto simp: inv_but_def accepts_but_def)

section \<open>Changes of one endpoint\<close>

text \<open>A change that keeps the place of the endpoint, and a new endpoint.\<close>

lemma filter_dev:
  assumes "e \<notin> set xs \<or> f e = d"
  shows "filter (\<lambda>x. (f(e := d)) x = Some c) xs = filter (\<lambda>x. f x = Some c) xs"
  using assms by (intro filter_cong) auto

lemma counts_set:
  assumes "counts_ok s" and "e \<notin> set (mi_connected s) \<or> dev_of s e = remote_dev p'"
    and "listening p' \<Longrightarrow> conreqcnt p' = int (length (conlist p')) \<and> length (conlist p') \<le> unat (backlog p')"
  shows "counts_ok (set_ep e p' s)"
proof -
  have "filter (\<lambda>x. dev_of (set_ep e p' s) x = Some d) (mi_connected s) = filter (\<lambda>x. dev_of s x = Some d) (mi_connected s)" for d
    unfolding views_set_ep(1) using assms(2) by (intro filter_dev)
  then show ?thesis using assms(1,3) by (auto simp: counts_ok_def views_set_ep(3) split: if_splits)
qed

lemma ports_same: "port_of t = port_of s \<Longrightarrow> ports t = ports s \<Longrightarrow> ports_ok t = ports_ok s"
  by (simp add: ports_ok_def)

lemma ports_set:
  assumes "ports_ok s" and "owns p' \<Longrightarrow> port_of s e = Some (pport (port p'))"
  shows "ports_ok (set_ep e p' s)"
  using assms unfolding ports_ok_def by (auto simp: ep_views)

lemma accepts_set:
  assumes "accepts_but A s" and "e \<notin> set (mi_uaccept s) \<or> accepted_by s e = Some (listenep p', accepted_ep p')"
    and "map_option (\<lambda>p. (acceptcnt p, li_accept p)) (listener s e) = (if listening p' then Some (acceptcnt p', li_accept p') else None)"
  shows "accepts_but A (set_ep e p' s)"
proof -
  have l: "\<exists>q. listener s x = Some q \<and> acceptcnt q = acceptcnt p \<and> li_accept q = li_accept p" if "listener (set_ep e p' s) x = Some p" for x p
    using that assms(3) by (cases "x = e") (auto simp: ep_views split: if_splits)
  have l': "\<exists>q. listener (set_ep e p' s) x = Some q \<and> li_accept q = li_accept p" if "listener s x = Some p" for x p
    using that assms(3) by (cases "x = e") (auto simp: ep_views split: if_splits)
  have a: "accepted_by (set_ep e p' s) x = accepted_by s x" if "x \<in> set (mi_uaccept s)" for x
    using that assms(2) by (auto simp: ep_views)
  show ?thesis unfolding accepts_but_def set_ep_sel
  proof (intro conjI allI impI ballI)
    show "distinct (mi_uaccept s)" using assms(1) by (simp add: accepts_but_def)
  next
    fix x p assume "listener (set_ep e p' s) x = Some p"
    then obtain q where q: "listener s x = Some q" "acceptcnt q = acceptcnt p" "li_accept q = li_accept p" using l by blast
    have p: "acceptcnt p = int (length (li_accept p)) \<and> distinct (li_accept p) \<and>
        (\<forall>b \<in> set (li_accept p). b \<in> set (mi_uaccept s) \<and> (\<exists>c. accepted_by s b = Some (Some x, c)))"
      using q(1) assms(1) unfolding accepts_but_def q(2,3) [symmetric] by blast
    then show "acceptcnt p = int (length (li_accept p))" "distinct (li_accept p)" by blast+
    fix b assume "b \<in> set (li_accept p)"
    then have "b \<in> set (mi_uaccept s) \<and> (\<exists>c. accepted_by s b = Some (Some x, c))" using p by blast
    then show "b \<in> set (mi_uaccept s)" "\<exists>c. accepted_by (set_ep e p' s) b = Some (Some x, c)" using a by auto
  next
    fix b assume b: "b \<in> set (mi_uaccept s)"
    then show "b \<in> set (mi_connected s) \<or> b \<in> set (mi_disconnected s)" using assms(1) by (simp add: accepts_but_def)
    obtain x where x: "accepted_by s b = Some (Some x, True)" "case listener s x of None \<Rightarrow> b \<in> A | Some p \<Rightarrow> b \<notin> A \<and> b \<in> set (li_accept p)"
      using b assms(1) unfolding accepts_but_def by blast
    have "case listener (set_ep e p' s) x of None \<Rightarrow> b \<in> A | Some p \<Rightarrow> b \<notin> A \<and> b \<in> set (li_accept p)"
      using x(2) l [of x] l' [of x] by (cases "listener s x"; cases "listener (set_ep e p' s) x") auto
    then show "\<exists>x. accepted_by (set_ep e p' s) b = Some (Some x, True) \<and>
        (case listener (set_ep e p' s) x of None \<Rightarrow> b \<in> A | Some p \<Rightarrow> b \<notin> A \<and> b \<in> set (li_accept p))"
      unfolding a [OF b] using x(1) by blast
  qed
qed

lemma lists_set:
  assumes "lists_ok s" and "e \<in> set (mi_listen s) \<longleftrightarrow> listening p'" and "e \<in> set (mi_zombie s) \<longleftrightarrow> state p' = SCIFEP_ZOMBIE"
    and "e \<in> set (mi_connected s) \<Longrightarrow> state p' \<in> {SCIFEP_CONNECTED, SCIFEP_CLOSING} \<and> remote_dev p' \<noteq> None"
    and "e \<in> set (mi_disconnected s) \<Longrightarrow> state p' \<in> {SCIFEP_DISCONNECTED, SCIFEP_CLOSING}"
  shows "lists_ok (set_ep e p' s)"
  using assms unfolding lists_ok_def by (auto simp: ep_views listening_def)

text \<open>An endpoint that stays where it is.\<close>

definition keeps :: "scif_node \<Rightarrow> u64 \<Rightarrow> endpt \<Rightarrow> endpt \<Rightarrow> bool" where
  "keeps s e p p' \<longleftrightarrow> listening p' = listening p \<and> (state p' = SCIFEP_ZOMBIE \<longleftrightarrow> state p = SCIFEP_ZOMBIE) \<and>
     (e \<in> set (mi_connected s) \<longrightarrow> state p' \<in> {SCIFEP_CONNECTED, SCIFEP_CLOSING} \<and> remote_dev p' = remote_dev p) \<and>
     (e \<in> set (mi_disconnected s) \<longrightarrow> state p' \<in> {SCIFEP_DISCONNECTED, SCIFEP_CLOSING}) \<and>
     (listening p' \<longrightarrow> conreqcnt p' = int (length (conlist p')) \<and> length (conlist p') \<le> unat (backlog p') \<and>
        acceptcnt p' = acceptcnt p \<and> li_accept p' = li_accept p) \<and>
     listenep p' = listenep p \<and> accepted_ep p' = accepted_ep p \<and> (owns p' \<longrightarrow> owns p \<and> pport (port p') = pport (port p))"

lemma set_ep_inv:
  assumes i: "inv_but A s" and p: "eps s e = Some p" and k: "keeps s e p p'"
  shows "inv_but A (set_ep e p' s)"
proof -
  note l = i [unfolded inv_but_def]
  have d: "remote_dev p \<noteq> None" if "e \<in> set (mi_connected s)" using that p l by (auto simp: lists_ok_def dev_of_def)
  have "lists_ok (set_ep e p' s)" using l k d in_lists [OF _ p] by (intro lists_set) (auto simp: keeps_def)
  moreover have "counts_ok (set_ep e p' s)" using l k p by (intro counts_set) (auto simp: keeps_def dev_of_def)
  moreover have "accepts_but A (set_ep e p' s)" using l k p by (intro accepts_set) (auto simp: keeps_def accepted_by_def listener_def)
  moreover have "ports_ok (set_ep e p' s)" using l k p by (intro ports_set) (auto simp: keeps_def port_of_def)
  ultimately show ?thesis by (simp add: inv_but_def)
qed

lemma new_ep_inv:
  assumes i: "inv_but A s" and n: "eps s e = None" and "\<not> listening p" and "state p \<noteq> SCIFEP_ZOMBIE" and "\<not> owns p"
  shows "inv_but A (set_ep e p s)"
proof -
  note l = i [unfolded inv_but_def]
  have out: "e \<notin> set (mi_listen s)" "e \<notin> set (mi_zombie s)" "e \<notin> set (mi_connected s)" "e \<notin> set (mi_disconnected s)"
    using l n by (auto simp: lists_ok_def st_of_def)
  have u: "e \<notin> set (mi_uaccept s)" using in_accepts [OF i] out by blast
  have "lists_ok (set_ep e p s)" using l out assms(3,4) by (intro lists_set) auto
  moreover have "counts_ok (set_ep e p s)" using l out assms(3) by (intro counts_set) auto
  moreover have "accepts_but A (set_ep e p s)" using l u n assms(3) by (intro accepts_set) (auto simp: listener_def)
  moreover have "ports_ok (set_ep e p s)" using l assms(5) by (intro ports_set) auto
  ultimately show ?thesis by (simp add: inv_but_def)
qed

section \<open>Changes of the lists\<close>

lemma accepts_lists:
  assumes "accepts_but A s" and "listener t = listener s" "accepted_by t = accepted_by s" "mi_uaccept t = mi_uaccept s"
    and "\<And>a. a \<in> set (mi_uaccept s) \<Longrightarrow> a \<in> set (mi_connected s) \<or> a \<in> set (mi_disconnected s) \<Longrightarrow> a \<in> set (mi_connected t) \<or> a \<in> set (mi_disconnected t)"
  shows "accepts_but A t"
  using assms(1,5) unfolding accepts_but_def assms(2-4) by simp

lemma remove1_sets:
  assumes "inv_but A s"
  shows "set (remove1 e (mi_connected s)) = set (mi_connected s) - {e}" and "set (remove1 e (mi_disconnected s)) = set (mi_disconnected s) - {e}"
    and "set (remove1 e (mi_uaccept s)) = set (mi_uaccept s) - {e}"
  using assms by (auto simp: inv_but_def lists_ok_def accepts_but_def set_remove1_eq)

lemma inv_connected_add:
  assumes i: "inv_but A s" and "st_of s e = Some SCIFEP_CONNECTED" and "dev_of s e = Some d" and "e \<notin> set (mi_connected s)"
  shows "inv_but A (get_conn_count d (s\<lparr>mi_connected := mi_connected s @ [e]\<rparr>))"
proof -
  have "e \<notin> set (mi_listen s)" "e \<notin> set (mi_zombie s)" "e \<notin> set (mi_disconnected s)" using i assms(2) by (auto simp: inv_but_def lists_ok_def)
  then show ?thesis using assms
    by (auto simp: inv_but_def lists_ok_def counts_ok_def accepts_but_def ports_ok_def get_conn_count_def ep_views)
qed

lemma filter_remove_count: "e \<in> set xs \<Longrightarrow> P e \<Longrightarrow> length (filter P xs) = length (filter P (remove1 e xs)) + 1"
  by (induction xs) auto

lemma connected_count:
  assumes "inv_but A s" and "e \<in> set (mi_connected s)" and "dev_of s e = Some d"
  shows "num_active_conn s d = int (length (filter (\<lambda>x. dev_of s x = Some d) (remove1 e (mi_connected s)))) + 1"
    and "c \<noteq> d \<Longrightarrow> filter (\<lambda>x. dev_of s x = Some c) (remove1 e (mi_connected s)) = filter (\<lambda>x. dev_of s x = Some c) (mi_connected s)"
proof -
  show "num_active_conn s d = int (length (filter (\<lambda>x. dev_of s x = Some d) (remove1 e (mi_connected s)))) + 1"
    using assms(1) filter_remove_count [where P = "\<lambda>x. dev_of s x = Some d", OF assms(2,3)] by (simp add: inv_but_def counts_ok_def)
  show "c \<noteq> d \<Longrightarrow> filter (\<lambda>x. dev_of s x = Some c) (remove1 e (mi_connected s)) = filter (\<lambda>x. dev_of s x = Some c) (mi_connected s)"
    using assms(3) by (simp add: filter_remove1 remove1_idem)
qed

text \<open>Leaving the list of connected endpoints: the count of the node does not become negative.\<close>

lemma inv_connected_del:
  assumes i: "inv_but A s" and e: "e \<in> set (mi_connected s)" and d: "dev_of s e = Some d" and u: "e \<notin> set (mi_uaccept s)"
  shows "\<exists>c. put_conn_count d (s\<lparr>mi_connected := remove1 e (mi_connected s)\<rparr>) = Some (s\<lparr>mi_connected := remove1 e (mi_connected s), num_active_conn := c\<rparr>) \<and>
    inv_but A (s\<lparr>mi_connected := remove1 e (mi_connected s), num_active_conn := c\<rparr>)"
proof -
  let ?c = "(num_active_conn s)(d := num_active_conn s d - 1)"
  let ?t = "s\<lparr>mi_connected := remove1 e (mi_connected s), num_active_conn := ?c\<rparr>"
  note cc = connected_count [OF i e d]
  have "put_conn_count d (s\<lparr>mi_connected := remove1 e (mi_connected s)\<rparr>) = Some ?t" using cc(1) by (simp add: put_conn_count_def)
  moreover have "inv_but A ?t"
  proof -
    have "lists_ok ?t" using i notin_set_remove1 [of _ _ e] by (auto simp: inv_but_def lists_ok_def ep_views distinct_remove1 dest: notin_set_remove1)
    moreover have "counts_ok ?t" using i cc by (auto simp: inv_but_def counts_ok_def ep_views)
    moreover have "accepts_but A ?t" 
    proof (rule accepts_lists [of A s])
      show "accepts_but A s" using i by (simp add: inv_but_def)
    qed (use u in \<open>auto simp: ep_views remove1_sets [OF i]\<close>)
    ultimately show ?thesis using i by (auto simp: inv_but_def ports_ok_def ep_views)
  qed
  ultimately show ?thesis by (intro exI [of _ ?c]) simp
qed

lemma inv_disconnected_add:
  assumes i: "inv_but A s" and "st_of s e = Some SCIFEP_DISCONNECTED" and "e \<notin> set (mi_disconnected s)"
  shows "inv_but A (s\<lparr>mi_disconnected := mi_disconnected s @ [e]\<rparr>)"
proof -
  have "e \<notin> set (mi_listen s)" "e \<notin> set (mi_zombie s)" "e \<notin> set (mi_connected s)" using i assms(2) by (auto simp: inv_but_def lists_ok_def)
  then show ?thesis using assms by (auto simp: inv_but_def lists_ok_def counts_ok_def accepts_but_def ports_ok_def ep_views)
qed

lemma inv_disconnected_del:
  assumes i: "inv_but A s" and u: "e \<notin> set (mi_uaccept s)"
  shows "inv_but A (s\<lparr>mi_disconnected := remove1 e (mi_disconnected s)\<rparr>)"
proof -
  have "lists_ok (s\<lparr>mi_disconnected := remove1 e (mi_disconnected s)\<rparr>)" using i by (auto simp: inv_but_def lists_ok_def ep_views distinct_remove1 dest: notin_set_remove1)
  moreover have "accepts_but A (s\<lparr>mi_disconnected := remove1 e (mi_disconnected s)\<rparr>)"
  proof (rule accepts_lists [of A s])
    show "accepts_but A s" using i by (simp add: inv_but_def)
  qed (use u in \<open>auto simp: ep_views remove1_sets [OF i]\<close>)
  ultimately show ?thesis using i by (auto simp: inv_but_def counts_ok_def ports_ok_def ep_views)
qed

text \<open>From connected to disconnected, also for endpoints that no process has attached yet.\<close>

lemma inv_connected_disconnected:
  assumes i: "inv_but A s" and e: "e \<in> set (mi_connected s)" and d: "dev_of s e = Some d" and p: "eps s e = Some p"
    and p': "state p' = SCIFEP_DISCONNECTED" "listenep p' = listenep p" "accepted_ep p' = accepted_ep p" "port p' = port p"
  shows "\<exists>c. put_conn_count d (s\<lparr>mi_connected := remove1 e (mi_connected s)\<rparr>) = Some (s\<lparr>mi_connected := remove1 e (mi_connected s), num_active_conn := c\<rparr>) \<and>
    inv_but A ((set_ep e p' (s\<lparr>mi_connected := remove1 e (mi_connected s), num_active_conn := c\<rparr>))\<lparr>mi_disconnected := mi_disconnected s @ [e]\<rparr>)"
proof -
  let ?c = "(num_active_conn s)(d := num_active_conn s d - 1)"
  let ?t = "s\<lparr>mi_connected := remove1 e (mi_connected s), num_active_conn := ?c\<rparr>"
  let ?u = "(set_ep e p' ?t)\<lparr>mi_disconnected := mi_disconnected s @ [e]\<rparr>"
  note cc = connected_count [OF i e d]
  note l = i [unfolded inv_but_def]
  have st: "state p \<in> {SCIFEP_CONNECTED, SCIFEP_CLOSING}" using l e p by (auto simp: lists_ok_def st_of_def)
  have out: "e \<notin> set (mi_listen s)" "e \<notin> set (mi_zombie s)" "e \<notin> set (mi_disconnected s)" using l e by (auto simp: lists_ok_def)
  have dist: "distinct (mi_connected s)" using l by (simp add: lists_ok_def)
  have lp: "\<not> listening p'" "\<not> listening p" using p'(1) st by (auto simp: listening_def)
  have ow: "owns p' = owns p" using p' st by (auto simp: owns_def)
  have "put_conn_count d (s\<lparr>mi_connected := remove1 e (mi_connected s)\<rparr>) = Some ?t" using cc(1) by (simp add: put_conn_count_def)
  moreover have "inv_but A ?u"
  proof -
    have "lists_ok ?u" using l out p'(1) dist by (auto simp: lists_ok_def ep_views listening_def dest: notin_set_remove1)
    moreover have "counts_ok ?u"
    proof -
      have "filter (\<lambda>x. ((dev_of s)(e := remote_dev p')) x = Some k) (remove1 e (mi_connected s)) = filter (\<lambda>x. dev_of s x = Some k) (remove1 e (mi_connected s))" for k
        using dist by (intro filter_dev) simp
      then show ?thesis using l cc lp by (auto simp: counts_ok_def ep_views)
    qed
    moreover have "accepts_but A ?u"
    proof -
      have "accepted_by ?u = accepted_by s" "listener ?u = listener s" using p p' lp by (auto simp: ep_views fun_eq_iff accepted_by_def listener_def)
      then show ?thesis
        using l by (intro accepts_lists [of A s ?u]) (auto simp: remove1_sets [OF i])
    qed
    moreover have "ports_ok ?u"
    proof -
      have "port_of ?u = port_of s" using p p' ow by (auto simp: ep_views fun_eq_iff port_of_def)
      then show ?thesis using l by (simp add: ports_ok_def)
    qed
    ultimately show ?thesis by (simp add: inv_but_def)
  qed
  ultimately show ?thesis by (intro exI [of _ ?c]) simp
qed

section \<open>Ports\<close>

lemma inv_release:
  assumes "inv_but A s" and "\<And>e. port_of s e \<noteq> Some q" and "q \<noteq> 0"
  shows "inv_but A (s\<lparr>ports := put_scif_port q (ports s)\<rparr>)"
proof -
  have "ports_inv (put_scif_port q (ports s)) \<and> ports_free (put_scif_port q (ports s)) = ports_free (ports s) \<union> {q}"
    using assms scif_port.release_adds by (simp add: inv_but_def ports_ok_def)
  then show ?thesis using assms(1,2) by (auto simp: inv_but_def lists_ok_def counts_ok_def accepts_but_def ports_ok_def ep_views)
qed

lemma inv_ports_same:
  assumes "inv_but A s" and "ports_inv ps" and "ports_free ps = ports_free (ports s)"
  shows "inv_but A (s\<lparr>ports := ps\<rparr>)"
  using assms by (auto simp: inv_but_def lists_ok_def counts_ok_def accepts_but_def ports_ok_def ep_views)

text \<open>An endpoint that owned no port gets one that was free.\<close>

lemma inv_acquire:
  assumes i: "inv_but A s" and p: "eps s e = Some p" and "\<not> listening p" and "q \<in> ports_free (ports s)"
    and ps: "ports_inv ps" "ports_free ps = ports_free (ports s) - {q}"
    and p': "p' = p\<lparr>port := x\<rparr>" "pport x = q"
  shows "inv_but A (set_ep e p' (s\<lparr>ports := ps\<rparr>))"
proof -
  note l = i [unfolded inv_but_def]
  let ?t = "set_ep e (p\<lparr>port := zero_port\<rparr>) s"
  have k: "keeps s e p (p\<lparr>port := zero_port\<rparr>)"
    using l p assms(3) in_lists [of s e p] by (auto simp: keeps_def owns_def zero_port_def listening_def)
  have t: "inv_but A ?t" by (rule set_ep_inv [OF i p k])
  have same: "listener (set_ep e p' (s\<lparr>ports := ps\<rparr>)) = (listener s)(e := if listening p then Some p' else None)"
      "dev_of (set_ep e p' (s\<lparr>ports := ps\<rparr>)) = dev_of ?t" "st_of (set_ep e p' (s\<lparr>ports := ps\<rparr>)) = st_of ?t"
      "accepted_by (set_ep e p' (s\<lparr>ports := ps\<rparr>)) = accepted_by ?t"
    using p'(1) by (auto simp: ep_views listening_def)
  have "lists_ok (set_ep e p' (s\<lparr>ports := ps\<rparr>))" using t unfolding inv_but_def lists_ok_def same by simp
  moreover have "counts_ok (set_ep e p' (s\<lparr>ports := ps\<rparr>))"
  proof -
    have "counts_ok (s\<lparr>ports := ps\<rparr>)" using l by (simp add: counts_ok_def ep_views)
    then show ?thesis using p p'(1) assms(3) by (intro counts_set) (auto simp: dev_of_def listening_def)
  qed
  moreover have "accepts_but A (set_ep e p' (s\<lparr>ports := ps\<rparr>))"
  proof -
    have "accepts_but A (s\<lparr>ports := ps\<rparr>)" using l by (simp add: accepts_but_def ep_views)
    then show ?thesis using p p'(1) by (intro accepts_set) (auto simp: accepted_by_def listener_def listening_def)
  qed
  moreover have "ports_ok (set_ep e p' (s\<lparr>ports := ps\<rparr>))"
    using l assms(4) ps p' unfolding ports_ok_def by (auto simp: ep_views split: if_splits)
  ultimately show ?thesis by (simp add: inv_but_def)
qed

section \<open>Endpoints that come and go\<close>

text \<open>An endpoint on none of the lists.\<close>

definition loose :: "scif_node \<Rightarrow> u64 \<Rightarrow> bool" where
  "loose s e \<longleftrightarrow> \<not> on_list s e"

lemma loose_iff: "loose s e \<longleftrightarrow> e \<notin> set (mi_listen s) \<and> e \<notin> set (mi_connected s) \<and> e \<notin> set (mi_disconnected s) \<and> e \<notin> set (mi_zombie s)"
  by (simp add: loose_def on_list_def)

lemma loose_state:
  assumes "inv_but A s" and "eps s e = Some p" and "loose s e"
  shows "\<not> listening p" and "state p \<noteq> SCIFEP_ZOMBIE" and "e \<notin> set (mi_uaccept s)"
  using assms in_lists [of s e p] in_accepts [of A s e] by (auto simp: inv_but_def loose_iff)

lemma state_loose:
  assumes "inv_but A s" and "eps s e = Some p" and "state p \<in> {SCIFEP_CLOSED, SCIFEP_UNBOUND, SCIFEP_BOUND, SCIFEP_CONNECTING, SCIFEP_MAPPING}"
  shows "loose s e"
  using assms in_lists [of s e p] by (auto simp: inv_but_def loose_iff listening_def)

lemma inv_zombie_add:
  assumes i: "inv_but A s" and p: "eps s e = Some p" and e: "loose s e" and p': "state p' = SCIFEP_ZOMBIE"
  shows "inv_but A ((set_ep e p' s)\<lparr>mi_zombie := mi_zombie s @ [e], mi_nr_zombies := mi_nr_zombies s + 1\<rparr>)" (is "inv_but A ?t")
proof -
  note l = i [unfolded inv_but_def] and o = loose_state [OF i p e]
  have n: "\<not> listening p'" "\<not> owns p'" using p' by (simp_all add: listening_def owns_def)
  have "lists_ok ?t" using l e p' by (auto simp: lists_ok_def loose_iff ep_views listening_def)
  moreover have "counts_ok ?t"
  proof -
    have "counts_ok (set_ep e p' s)" using l e n by (intro counts_set) (auto simp: loose_iff)
    then show ?thesis by (simp add: counts_ok_def ep_views)
  qed
  moreover have "accepts_but A ?t"
  proof -
    have "accepts_but A (set_ep e p' s)" using l o n p by (intro accepts_set) (auto simp: listener_def)
    then show ?thesis by (simp add: accepts_but_def ep_views)
  qed
  moreover have "ports_ok ?t"
  proof -
    have "ports_ok (set_ep e p' s)" using l n by (intro ports_set) auto
    then show ?thesis using ports_same [of ?t "set_ep e p' s"] by (simp add: ep_views)
  qed
  ultimately show ?thesis by (simp add: inv_but_def)
qed

lemma add_zombie:
  assumes "micscif_add_epd_to_zombie_list e s = Some t" and "eps s e = Some p"
  shows "t = (set_ep e (p\<lparr>state := SCIFEP_ZOMBIE\<rparr>) s)\<lparr>mi_zombie := mi_zombie s @ [e], mi_nr_zombies := mi_nr_zombies s + 1\<rparr>" and "loose s e"
  using assms by (auto simp: micscif_add_epd_to_zombie_list_def loose_def split: if_splits)

lemma set_ep_twice [simp]: "set_ep e p' (set_ep e p s) = set_ep e p' s"
  by (simp add: set_ep_def)

lemma set_ep_upd:
  "set_ep e p (s\<lparr>ports := ps\<rparr>) = (set_ep e p s)\<lparr>ports := ps\<rparr>" "set_ep e p (s\<lparr>mi_connected := xs\<rparr>) = (set_ep e p s)\<lparr>mi_connected := xs\<rparr>"
  "set_ep e p (s\<lparr>mi_disconnected := xs\<rparr>) = (set_ep e p s)\<lparr>mi_disconnected := xs\<rparr>" "set_ep e p (s\<lparr>mi_uaccept := xs\<rparr>) = (set_ep e p s)\<lparr>mi_uaccept := xs\<rparr>"
  "set_ep e p (s\<lparr>num_active_conn := c\<rparr>) = (set_ep e p s)\<lparr>num_active_conn := c\<rparr>"
  by (simp_all add: set_ep_def)

text \<open>The end of a close: the port goes back and the endpoint, which is on no list, is a zombie.\<close>

lemma close_end_loose:
  assumes "scif_close_end e s = Some t"
  shows "loose s e"
proof -
  obtain p where p: "eps s e = Some p" using assms by (auto simp: scif_close_end_def split: bind_splits)
  let ?s = "if pport (port p) \<noteq> 0 \<and> \<not> accepted_ep p then s\<lparr>ports := put_scif_port (pport (port p)) (ports s)\<rparr> else s"
  have "micscif_add_epd_to_zombie_list e (set_ep e (micscif_teardown_ep p) ?s) = Some t" using assms p by (simp add: scif_close_end_def)
  from add_zombie(2) [OF this] have "loose ?s e" by (simp add: loose_iff)
  then show ?thesis by (simp add: loose_iff split: if_splits)
qed

lemma inv_close_end:
  assumes i: "inv_but A s" and p: "eps s e = Some p" and e: "loose s e" and t: "scif_close_end e s = Some t"
  shows "inv_but A t"
proof -
  let ?p = "(micscif_teardown_ep p)\<lparr>state := SCIFEP_ZOMBIE\<rparr>"
  let ?z = "(set_ep e ?p s)\<lparr>mi_zombie := mi_zombie s @ [e], mi_nr_zombies := mi_nr_zombies s + 1\<rparr>"
  have z: "inv_but A ?z" by (rule inv_zombie_add [OF i p e]) simp
  show ?thesis
  proof (cases "pport (port p) \<noteq> 0 \<and> \<not> accepted_ep p")
    case True
    have "port_of s e = Some (pport (port p))" using True loose_state [OF i p e] p by (simp add: port_of_def owns_def)
    then have "port_of ?z e' \<noteq> Some (pport (port p))" for e'
      using i by (auto simp: inv_but_def ports_ok_def ep_views owns_def)
    then have "inv_but A (?z\<lparr>ports := put_scif_port (pport (port p)) (ports ?z)\<rparr>)" using z True by (intro inv_release) auto
    moreover have "t = ?z\<lparr>ports := put_scif_port (pport (port p)) (ports ?z)\<rparr>"
      using t p True by (auto simp: scif_close_end_def set_ep_upd dest!: add_zombie(1))
    ultimately show ?thesis by simp
  next
    case False
    then have "t = ?z" using t p by (auto simp: scif_close_end_def dest!: add_zombie(1))
    then show ?thesis using z by simp
  qed
qed

text \<open>An endpoint whose memory is given back.\<close>

lemma views_drop [ep_views]:
  "dev_of (s\<lparr>eps := (eps s)(e := None)\<rparr>) = (dev_of s)(e := None)" "st_of (s\<lparr>eps := (eps s)(e := None)\<rparr>) = (st_of s)(e := None)"
  "listener (s\<lparr>eps := (eps s)(e := None)\<rparr>) = (listener s)(e := None)" "accepted_by (s\<lparr>eps := (eps s)(e := None)\<rparr>) = (accepted_by s)(e := None)"
  "port_of (s\<lparr>eps := (eps s)(e := None)\<rparr>) = (port_of s)(e := None)"
  by (auto simp: views_def fun_eq_iff)

lemma inv_delete:
  assumes i: "inv_but A s" and p: "eps s e = Some p" and n: "\<not> listening p" "e \<notin> set (mi_connected s)" "e \<notin> set (mi_disconnected s)"
    and z: "zs = remove1 e (mi_zombie s)" "n = (if e \<in> set (mi_zombie s) then mi_nr_zombies s - 1 else mi_nr_zombies s)"
  shows "inv_but A (s\<lparr>mi_zombie := zs, mi_nr_zombies := n, eps := (eps s)(e := None)\<rparr>)" (is "inv_but A ?t")
proof -
  note l = i [unfolded inv_but_def]
  have ls: "e \<notin> set (mi_listen s)" "e \<notin> set (mi_uaccept s)" "listener s e = None" using l n p in_lists [of s e p] in_accepts [OF i] by (auto simp: listener_def)
  have dz: "distinct (mi_zombie s)" using l by (simp add: lists_ok_def)
  let ?v = "(s\<lparr>mi_zombie := zs, mi_nr_zombies := n\<rparr>)"
  have v: "?t = ?v\<lparr>eps := (eps ?v)(e := None)\<rparr>" by simp
  have "lists_ok ?t" unfolding v lists_ok_def ep_views using l ls n z dz by (auto simp: lists_ok_def)
  moreover have "counts_ok ?t"
  proof -
    have "filter (\<lambda>x. ((dev_of s)(e := None)) x = Some k) (mi_connected s) = filter (\<lambda>x. dev_of s x = Some k) (mi_connected s)" for k
      using n by (intro filter_dev) simp
    moreover have "n = of_nat (length zs)"
    proof (cases "e \<in> set (mi_zombie s)")
      case True
      then have "length (mi_zombie s) = Suc (length zs)" using z(1) length_pos_if_in_set [OF True] by (simp add: length_remove1)
      then show ?thesis using l z(2) True by (simp add: counts_ok_def)
    qed (use l z in \<open>simp add: counts_ok_def remove1_idem\<close>)
    ultimately show ?thesis unfolding v counts_ok_def ep_views using l by (auto simp: counts_ok_def)
  qed
  moreover have "accepts_but A ?t"
  proof -
    have "(listener s)(e := None) = listener s" using ls by auto
    moreover have "((accepted_by s)(e := None)) a = accepted_by s a" if "a \<in> set (mi_uaccept s)" for a using that ls by auto
    ultimately show ?thesis using l unfolding v accepts_but_def ep_views by auto
  qed
  moreover have "ports_ok ?t" unfolding v ports_ok_def ep_views using l by (auto simp: ports_ok_def)
  ultimately show ?thesis by (simp add: inv_but_def)
qed

text \<open>Changes of an endpoint that is on no list.\<close>

lemma inv_loose_set:
  assumes i: "inv_but A s" and p: "eps s e = Some p" and e: "loose s e" and p': "\<not> listening p'" "state p' \<noteq> SCIFEP_ZOMBIE"
    and o: "owns p' \<Longrightarrow> owns p \<and> pport (port p') = pport (port p)"
  shows "inv_but A (set_ep e p' s)"
proof -
  note l = i [unfolded inv_but_def] and n = loose_state [OF i p e]
  have "lists_ok (set_ep e p' s)" using l e p' by (intro lists_set) (auto simp: loose_iff)
  moreover have "counts_ok (set_ep e p' s)" using l e p' by (intro counts_set) (auto simp: loose_iff)
  moreover have "accepts_but A (set_ep e p' s)" using l n p p' by (intro accepts_set) (auto simp: listener_def)
  moreover have "ports_ok (set_ep e p' s)" using l o p by (intro ports_set) (auto simp: port_of_def)
  ultimately show ?thesis by (simp add: inv_but_def)
qed

lemma inv_loose_acquire:
  assumes i: "inv_but A s" and p: "eps s e = Some p" and e: "loose s e" and p': "\<not> listening p'" "state p' \<noteq> SCIFEP_ZOMBIE"
    and ps: "pport (port p') \<in> ports_free (ports s)" "ports_inv ps" "ports_free ps = ports_free (ports s) - {pport (port p')}"
  shows "inv_but A (set_ep e p' (s\<lparr>ports := ps\<rparr>))"
proof -
  let ?q = "p'\<lparr>port := zero_port\<rparr>"
  have q: "\<not> listening ?q" "state ?q \<noteq> SCIFEP_ZOMBIE" "\<not> owns ?q" using p' by (simp_all add: listening_def owns_def zero_port_def)
  have "inv_but A (set_ep e ?q s)" using inv_loose_set [OF i p e q(1,2)] q(3) by simp
  then have "inv_but A (set_ep e p' ((set_ep e ?q s)\<lparr>ports := ps\<rparr>))"
    using q(1) ps by (intro inv_acquire [where p = ?q and q = "pport (port p')" and x = "port p'"]) auto
  then show ?thesis by (simp add: set_ep_def)
qed

lemma inv_delete_loose:
  assumes "inv_but A s" and "eps s e = Some p" and "loose s e"
  shows "inv_but A (s\<lparr>eps := (eps s)(e := None)\<rparr>)"
proof -
  have "mi_zombie s = remove1 e (mi_zombie s)" "mi_nr_zombies s = (if e \<in> set (mi_zombie s) then mi_nr_zombies s - 1 else mi_nr_zombies s)"
    using assms(3) by (simp_all add: loose_iff remove1_idem)
  from inv_delete [OF assms(1,2) loose_state(1) [OF assms] _ _ this] show ?thesis using assms(3) by (simp add: loose_iff)
qed

lemma send_cases: "\<exists>r ms. micscif_nodeqp_send room d m p s = (r, s\<lparr>outbox := ms\<rparr>)"
  using send_result [of room d m p s] by (cases "micscif_nodeqp_send room d m p s") auto

lemma set_ep_sent [simp]: "set_ep e p (s\<lparr>outbox := ms\<rparr>) = (set_ep e p s)\<lparr>outbox := ms\<rparr>"
  by (simp add: set_ep_def)

lemma loose_upd [simp]: "loose (set_ep e' p s) e = loose s e" "loose (s\<lparr>outbox := ms\<rparr>) e = loose s e" "loose (s\<lparr>ports := ps\<rparr>) e = loose s e"
  by (simp_all add: loose_iff)

end
