(* ===== verification/Scif_Endpoint_Ops.thy ===== *)
theory Scif_Endpoint_Ops
  imports Scif_Endpoint_Inv
begin

text \<open>
  Every call and every handler keeps the invariant of the endpoints. \<open>ep_step\<close> is the state machine of all of them, with what the callers and the peers keep to as
  guards; \<open>ep_reach\<close> are its runs from the empty node.
\<close>

section \<open>The operations keep the invariant\<close>

lemma open_inv:
  assumes "inv_but A s" and "\<And>e. addr = Some e \<Longrightarrow> eps s e = None"
  shows "inv_but A (snd (scif_open addr q r s))"
  using assms new_ep_inv [of A s _ "new_endpt\<lparr>qp := True, state := SCIFEP_UNBOUND\<rparr>"]
  by (auto simp: scif_open_def new_endpt_def listening_def owns_def zero_port_def split: option.split)

text \<open>What the two ways to get a port have in common.\<close>

lemma port_result:
  assumes "ports_inv ps" and "(if pn \<noteq> 0 then rsrv_scif_port pn ps else get_scif_port ps) = (q, ps')"
  shows "ports_inv ps' \<and> (q = 0 \<and> ports_free ps' = ports_free ps \<or> q \<in> ports_free ps \<and> q \<noteq> 0 \<and> ports_free ps' = ports_free ps - {q} \<and> (pn \<noteq> 0 \<longrightarrow> q = pn))"
proof (cases "pn = 0")
  case True
  then show ?thesis using assms scif_port.acquire_cases [OF assms(1), of q ps'] scif_port.zero_not_avail [OF assms(1)] by auto
next
  case False
  then show ?thesis using assms scif_port.reserve_ok [OF assms(1), of pn] scif_port.reserve_fail [OF assms(1), of pn] by (cases "pn \<in> ports_free ps") auto
qed

lemma bind_inv:
  assumes i: "inv_but A s" and r: "scif_bind capable e pn s = Some (r, t)"
  shows "inv_but A t"
proof -
  obtain p where p: "eps s e = Some p" using r by (auto simp: scif_bind_def split: bind_splits)
  obtain q ps where g: "(if pn \<noteq> 0 then rsrv_scif_port pn (ports s) else get_scif_port (ports s)) = (q, ps)" by fastforce
  show ?thesis
  proof (cases "t = s")
    case False
    then have u: "state p = SCIFEP_UNBOUND" using r p by (auto simp: scif_bind_def split: if_splits)
    have e: "loose s e" using state_loose [OF i p] u by simp
    have pr: "ports_inv (ports s)" using i by (simp add: inv_but_def ports_ok_def)
    note c = port_result [OF pr g]
    show ?thesis
    proof (cases "q = 0")
      case True
      then have "t = s\<lparr>ports := ps\<rparr>" using r p u g False by (auto simp: scif_bind_def split: if_splits)
      then show ?thesis using inv_ports_same [OF i] c True by auto
    next
      case q: False
      then have "t = set_ep e (p\<lparr>state := SCIFEP_BOUND, port := \<lparr>pnode = mi_nodeid s, pport = q\<rparr>\<rparr>) (s\<lparr>ports := ps\<rparr>)"
        using r p u g False c by (auto simp: scif_bind_def split: if_splits)
      moreover have "q \<in> ports_free (ports s)" "ports_inv ps" "ports_free ps = ports_free (ports s) - {q}" using c q by blast+
      ultimately show ?thesis using inv_loose_acquire [OF i p e, of "p\<lparr>state := SCIFEP_BOUND, port := \<lparr>pnode = mi_nodeid s, pport = q\<rparr>\<rparr>" ps] by (simp add: listening_def)
    qed
  qed (use i in simp)
qed

text \<open>Becoming a listener.\<close>

lemma inv_listen_add:
  assumes i: "inv_but {} s" and p: "eps s e = Some p" and e: "loose s e"
    and p': "listening p'" "conreqcnt p' = int (length (conlist p'))" "length (conlist p') \<le> unat (backlog p')" "acceptcnt p' = 0" "li_accept p' = []"
    and o: "owns p' \<Longrightarrow> owns p \<and> pport (port p') = pport (port p)"
  shows "inv_but {} ((set_ep e p' s)\<lparr>mi_listen := mi_listen s @ [e]\<rparr>)" (is "inv_but {} ?t")
proof -
  note l = i [unfolded inv_but_def] and n = loose_state [OF i p e]
  have le: "listener s e = None" using n(1) p by (simp add: listener_def)
  have z: "state p' \<noteq> SCIFEP_ZOMBIE" using p'(1) by (auto simp: listening_def)
  have "lists_ok ?t" using l e p'(1) z by (auto simp: lists_ok_def loose_iff ep_views listening_def)
  moreover have "counts_ok ?t"
  proof -
    have "counts_ok (set_ep e p' s)" using l e p' by (intro counts_set) (auto simp: loose_iff)
    then show ?thesis by (simp add: counts_ok_def ep_views)
  qed
  moreover have "accepts_but {} ?t"
  proof -
    have a: "accepted_by ?t a = accepted_by s a" if "a \<in> set (mi_uaccept s)" for a using that n(3) by (auto simp: ep_views)
    have la: "listener ?t = (listener s)(e \<mapsto> p')" using p'(1) by (simp add: ep_views)
    have ac: "accepts_but {} s" using l by blast
    show ?thesis unfolding accepts_but_def la
    proof (intro conjI allI impI ballI)
      fix x q assume q: "((listener s)(e \<mapsto> p')) x = Some q"
      have "acceptcnt q = int (length (li_accept q)) \<and> distinct (li_accept q) \<and>
          (\<forall>b \<in> set (li_accept q). b \<in> set (mi_uaccept s) \<and> (\<exists>c. accepted_by s b = Some (Some x, c)))"
        using q ac p'(4,5) unfolding accepts_but_def by (cases "x = e") auto
      then show "acceptcnt q = int (length (li_accept q))" "distinct (li_accept q)" by blast+
      fix b assume "b \<in> set (li_accept q)"
      then have "b \<in> set (mi_uaccept s) \<and> (\<exists>c. accepted_by s b = Some (Some x, c))" using q ac p'(5) unfolding accepts_but_def by (cases "x = e") auto
      then show "b \<in> set (mi_uaccept ?t)" "\<exists>c. accepted_by ?t b = Some (Some x, c)" using a [of b] by auto
    next
      fix b assume "b \<in> set (mi_uaccept ?t)"
      then have b: "b \<in> set (mi_uaccept s)" by simp
      then obtain x where x: "accepted_by s b = Some (Some x, True)" "case listener s x of None \<Rightarrow> b \<in> {} | Some q \<Rightarrow> b \<notin> {} \<and> b \<in> set (li_accept q)"
        using ac unfolding accepts_but_def by blast
      then have "x \<noteq> e" using le by auto
      then show "\<exists>x. accepted_by ?t b = Some (Some x, True) \<and> (case ((listener s)(e \<mapsto> p')) x of None \<Rightarrow> b \<in> {} | Some q \<Rightarrow> b \<notin> {} \<and> b \<in> set (li_accept q))"
        using x a [OF b] by (intro exI [of _ x]) simp
      show "b \<in> set (mi_connected ?t) \<or> b \<in> set (mi_disconnected ?t)" using b in_accepts [OF i] by simp
    qed (use ac in \<open>simp add: accepts_but_def\<close>)
  qed
  moreover have "ports_ok ?t"
  proof -
    have "ports_ok (set_ep e p' s)" using l o p by (intro ports_set) (auto simp: port_of_def)
    then show ?thesis using ports_same [of ?t "set_ep e p' s"] by (simp add: ep_views)
  qed
  ultimately show ?thesis by (simp add: inv_but_def)
qed

lemma listen_inv:
  assumes i: "inv_but {} s" and r: "scif_listen e b s = Some (r, t)"
  shows "inv_but {} t"
proof -
  obtain p where p: "eps s e = Some p" using r by (auto simp: scif_listen_def split: bind_splits)
  show ?thesis
  proof (cases "state p = SCIFEP_BOUND")
    case True
    let ?p = "micscif_teardown_ep (p\<lparr>state := SCIFEP_LISTENING, backlog := ucast b, conreqcnt := 0, acceptcnt := 0, conlist := [], li_accept := []\<rparr>)"
    have "t = (set_ep e ?p s)\<lparr>mi_listen := mi_listen s @ [e]\<rparr>" using r p True by (simp add: scif_listen_def)
    moreover have "inv_but {} \<dots>" using state_loose [OF i p] True
      by (intro inv_listen_add [OF i p]) (auto simp: listening_def owns_def micscif_teardown_ep_def)
    ultimately show ?thesis by simp
  next
    case False
    then have "t = s" using r p by (auto simp: scif_listen_def split: endptstate.splits)
    then show ?thesis using i by simp
  qed
qed

lemma send_inv: "micscif_nodeqp_send room d m q s = (r, t) \<Longrightarrow> inv_but A s \<Longrightarrow> inv_but A t"
  using inv_send [of A room d m q s] by simp

lemma connect_begin_inv:
  assumes i: "inv_but A s" and r: "scif_connect_begin room dma setup e dst s = Some (r, t)"
  shows "inv_but A t"
proof (cases "t = s")
  case False
  obtain p where p: "eps s e = Some p" using r by (auto simp: scif_connect_begin_def split: bind_splits)
  have u: "state p = SCIFEP_UNBOUND \<or> state p = SCIFEP_BOUND" using r p False by (cases "state p") (auto simp: scif_connect_begin_def split: if_splits)
  have e: "loose s e" using state_loose [OF i p] u by auto
  show ?thesis
  proof (cases "state p = SCIFEP_BOUND")
    case True
    have k: "inv_but A (set_ep e p' s)" if "\<not> listening p'" "state p' \<noteq> SCIFEP_ZOMBIE" "port p' = port p" "accepted_ep p' = accepted_ep p" for p'
      using that True by (intro inv_loose_set [OF i p e]) (auto simp: owns_def)
    show ?thesis using r p True False unfolding scif_connect_begin_def
      by (auto simp: Let_def listening_def intro!: k elim!: send_inv split: if_splits option.splits sum.splits)
  next
    case nb: False
    then have st: "state p = SCIFEP_UNBOUND" using u by simp
    obtain pn ps where g: "get_scif_port (ports s) = (pn, ps)" by fastforce
    have pr: "ports_inv (ports s)" using i by (simp add: inv_but_def ports_ok_def)
    have c: "ports_inv ps \<and> (pn = 0 \<and> ports_free ps = ports_free (ports s) \<or> pn \<in> ports_free (ports s) \<and> ports_free ps = ports_free (ports s) - {pn})"
      using scif_port.acquire_cases [OF pr g] .
    have k: "inv_but A (set_ep e p' (s\<lparr>ports := ps\<rparr>))" if "\<not> listening p'" "state p' \<noteq> SCIFEP_ZOMBIE" "pport (port p') = pn" for p'
    proof (cases "pn = 0")
      case True
      then have "\<not> owns p'" using that by (simp add: owns_def)
      moreover have "inv_but A (s\<lparr>ports := ps\<rparr>)" using inv_ports_same [OF i] c True scif_port.zero_not_avail [OF pr] by auto
      ultimately show ?thesis using that p e by (intro inv_loose_set [where p = p]) auto
    next
      case False
      then show ?thesis using that c by (intro inv_loose_acquire [OF i p e]) auto
    qed
    show ?thesis using r p g st False unfolding scif_connect_begin_def
      by (auto simp: Let_def listening_def intro!: k elim!: send_inv split: if_splits option.splits sum.splits)
  qed
qed (use i in simp)

lemma inv_connect:
  assumes i: "inv_but A s" and p: "eps s e = Some p" and e: "loose s e" and d: "remote_dev p' = Some d" "state p' = SCIFEP_CONNECTED"
    and o: "owns p' \<Longrightarrow> owns p \<and> pport (port p') = pport (port p)"
  shows "inv_but A (get_conn_count d ((set_ep e p' s)\<lparr>mi_connected := mi_connected s @ [e]\<rparr>))"
proof -
  have "inv_but A (set_ep e p' s)" using d(2) o by (intro inv_loose_set [OF i p e]) (auto simp: listening_def)
  from inv_connected_add [OF this, of e d] show ?thesis using d e by (simp add: ep_views loose_iff)
qed

lemma connect_end_inv:
  assumes i: "inv_but A s" and r: "scif_connect_end room resp peer_ep e dst s = Some (r, t)"
  shows "inv_but A t"
proof (cases "t = s")
  case False
  obtain p where p: "eps s e = Some p" using r by (auto simp: scif_connect_end_def split: bind_splits)
  have st: "state p = SCIFEP_MAPPING" using r p False by (auto simp: scif_connect_end_def split: if_splits)
  have e: "loose s e" using state_loose [OF i p] st by auto
  obtain d x where d: "remote_dev p = Some d" "peer_ep = Some x" using r p st by (auto simp: scif_connect_end_def connect_grant_def split: bind_splits)
  let ?p = "p\<lparr>remote_ep := x\<rparr>"
  have k: "inv_but A (set_ep e (?p\<lparr>state := SCIFEP_BOUND\<rparr>) s)" using st by (intro inv_loose_set [OF i p e]) (auto simp: listening_def owns_def)
  show ?thesis
  proof (cases resp)
    case None
    obtain f ms where g: "micscif_nodeqp_send room d (conn_msg SCIF_CNCT_GNTACK ?p dst x (qp_offset ?p)) (Some ?p) s = (f, s\<lparr>outbox := ms\<rparr>)"
      using send_cases by blast
    show ?thesis
    proof (cases f)
      case n: None
      let ?s = "s\<lparr>outbox := ms\<rparr>"
      have "inv_but A (get_conn_count d ((set_ep e (?p\<lparr>state := SCIFEP_CONNECTED\<rparr>) ?s)\<lparr>mi_connected := mi_connected ?s @ [e]\<rparr>))"
        using i p e st d by (intro inv_connect [where p = p]) (auto simp: owns_def)
      then show ?thesis using r p st d None g n by (auto simp: scif_connect_end_def connect_grant_def connect_commit_def get_conn_count_def)
    next
      case (Some err)
      then have "t = (set_ep e (?p\<lparr>state := SCIFEP_BOUND\<rparr>) s)\<lparr>outbox := ms\<rparr>" using r p st d None g by (simp add: scif_connect_end_def connect_grant_def)
      then show ?thesis using k by simp
    qed
  next
    case (Some err)
    obtain f ms where g: "micscif_nodeqp_send room d (conn_msg SCIF_CNCT_GNTNACK ?p dst x (qp_offset ?p)) (Some ?p) s = (f, s\<lparr>outbox := ms\<rparr>)"
      using send_cases by blast
    have "t = (set_ep e (?p\<lparr>state := SCIFEP_BOUND\<rparr>) s)\<lparr>outbox := ms\<rparr>" using r p st d Some g by (simp add: scif_connect_end_def connect_grant_def)
    then show ?thesis using k by simp
  qed
qed (use i in simp)

lemma connect_term_inv:
  assumes "inv_but A s" and "scif_connect_term room e dst s = Some (r, t)"
  shows "inv_but A t"
  using assms by (auto simp: scif_connect_term_def elim!: send_inv split: bind_splits)

lemma connect_term_end_inv:
  assumes i: "inv_but A s" and p: "eps s e = Some p" and st: "state p \<in> {SCIFEP_CONNECTING, SCIFEP_MAPPING, SCIFEP_BOUND}"
    and r: "scif_connect_term_end room peer_ep err e dst s = Some (r, t)"
  shows "inv_but A t"
proof -
  have e: "loose s e" using state_loose [OF i p] st by auto
  have k: "inv_but A (set_ep e (p\<lparr>state := SCIFEP_BOUND\<rparr>) s)" "inv_but A (set_ep e (p\<lparr>remote_ep := x, state := SCIFEP_BOUND\<rparr>) s)" for x
    using st by (auto intro!: inv_loose_set [OF i p e] simp: listening_def owns_def)
  have q: "inv_but A (set_ep e (p\<lparr>remote_ep := x, state := SCIFEP_BOUND\<rparr>) (snd (micscif_nodeqp_send room d m y s)))" for x d m y
    using send_result [of room d m y s] k(2) [of x] by auto
  show ?thesis using r p k q by (auto simp: scif_connect_term_end_def Let_def split: bind_splits if_splits)
qed

text \<open>Changes of a listener that keep its accepted endpoints.\<close>

lemma listener_counts:
  assumes "inv_but A s" and "eps s e = Some p" and "listening p"
  shows "conreqcnt p = int (length (conlist p))" and "length (conlist p) \<le> unat (backlog p)" and "acceptcnt p = int (length (li_accept p))" and "distinct (li_accept p)"
proof -
  have "listener s e = Some p" using assms(2,3) by (simp add: listener_def)
  then show "conreqcnt p = int (length (conlist p))" "length (conlist p) \<le> unat (backlog p)" "acceptcnt p = int (length (li_accept p))" "distinct (li_accept p)"
    using assms(1) by (auto simp: inv_but_def counts_ok_def accepts_but_def)
qed

lemma inv_listener_set:
  assumes i: "inv_but A s" and p: "eps s e = Some p" and l: "listening p"
    and p': "listening p'" "conreqcnt p' = int (length (conlist p'))" "length (conlist p') \<le> unat (backlog p')" "acceptcnt p' = acceptcnt p" "li_accept p' = li_accept p"
      "listenep p' = listenep p" "accepted_ep p' = accepted_ep p" "port p' = port p"
  shows "inv_but A (set_ep e p' s)"
proof -
  have "e \<in> set (mi_listen s)" using i p l in_lists [of s e p] by (simp add: inv_but_def)
  then have "e \<notin> set (mi_connected s)" "e \<notin> set (mi_disconnected s)" using i by (auto simp: inv_but_def lists_ok_def)
  moreover have "state p \<noteq> SCIFEP_ZOMBIE" "state p' \<noteq> SCIFEP_ZOMBIE" using l p'(1) by (auto simp: listening_def)
  ultimately show ?thesis using l p' by (intro set_ep_inv [OF i p]) (auto simp: keeps_def owns_def)
qed

lemma accept_error_inv: "inv_but A s \<Longrightarrow> inv_but A (snd (accept_error room m err s))"
  by (simp add: accept_error_def)

lemma accept_take_inv:
  assumes i: "inv_but A s" and c: "\<And>c. acc_addr env = Some c \<Longrightarrow> eps s c = None" and r: "scif_accept_take room env e s = Some (r, t)"
  shows "inv_but A t"
proof (cases "t = s")
  case False
  obtain p where p: "eps s e = Some p" using r by (auto simp: scif_accept_take_def split: bind_splits)
  obtain m ms where m: "conlist p = m # ms" and st: "state p = SCIFEP_LISTENING" and n0: "conreqcnt p \<noteq> 0"
    using r p False by (auto simp: scif_accept_take_def split: if_splits list.splits)
  have lp: "listening p" using st by (simp add: listening_def)
  let ?s = "set_ep e (p\<lparr>conlist := ms, conreqcnt := conreqcnt p - 1\<rparr>) s"
  have s: "inv_but A ?s" using lp m listener_counts [OF i p lp] by (intro inv_listener_set [OF i p lp]) (auto simp: listening_def)
  have er: "inv_but A t" if "accept_error room m err ?s = (r, t)" for err using accept_error_inv [OF s, of room m err] that by simp
  have er': "inv_but A (snd (accept_error room m err (?s\<lparr>outbox := x\<rparr>)))" for err x using s by (simp add: accept_error_inv)
  have nc: "inv_but A (set_ep c q ?s)" if "acc_addr env = Some c" "\<not> listening q" "state q \<noteq> SCIFEP_ZOMBIE" "accepted_ep q" for c q
  proof -
    have "eps ?s c = None" using c [OF that(1)] p by auto
    then show ?thesis using that by (intro new_ep_inv [OF s]) (auto simp: owns_def)
  qed
  show ?thesis
  proof (cases "\<exists>err. accept_error room m err ?s = (r, t)")
    case True
    then show ?thesis using er by blast
  next
    case ne: False
    obtain ca off where a: "acc_addr env = Some ca" "acc_setup env = Inr off"
      using r p m st n0 ne by (auto simp: scif_accept_take_def Let_def split: option.splits if_splits sum.splits)
    define q where "q = new_endpt\<lparr>state := SCIFEP_CONNECTING, remote_dev := Some (pnode (msg_src m)), remote_ep := payload0 m, ep_sd_state := SCIFDEV_RUNNING,
        qp := True, qp_offset := off, port := port p, peer := msg_src m, accepted_ep := True\<rparr>"
    obtain f x where g: "micscif_nodeqp_send room (pnode (msg_src m)) (conn_msg SCIF_CNCT_GNT q zero_port (remote_ep q) off) (Some q) ?s = (f, ?s\<lparr>outbox := x\<rparr>)"
      using send_cases by blast
    have q: "\<not> listening q" "state q \<noteq> SCIFEP_ZOMBIE" "accepted_ep q" by (simp_all add: q_def listening_def)
    have "t = (set_ep ca q ?s)\<lparr>outbox := x\<rparr> \<or> (\<exists>err. accept_error room m err (?s\<lparr>outbox := x\<rparr>) = (r, t))"
      using r p m st n0 ne a g unfolding q_def by (auto simp: scif_accept_take_def Let_def split: option.splits if_splits)
    then show ?thesis using nc [OF a(1) q] er' by (metis inv_sent snd_conv)
  qed
qed (use i in simp)

lemma accept_end_inv:
  assumes i: "inv_but A s" and r: "scif_accept_end sync c s = Some (r, t)"
  shows "inv_but A t"
proof (cases "t = s")
  case False
  obtain p where p: "eps s c = Some p" "loose s c" and t: "t = s\<lparr>eps := (eps s)(c := None)\<rparr>"
    using r False by (auto simp: scif_accept_end_def loose_def split: bind_splits if_splits)
  show ?thesis unfolding t by (rule inv_delete_loose [OF i p])
qed (use i in simp)

lemma accept_lost_inv:
  assumes i: "inv_but A s" and p: "eps s c = Some p" "state p = SCIFEP_CONNECTING" and r: "scif_accept_lost room m c s = (r, t)"
  shows "inv_but A t"
proof -
  have "inv_but A (s\<lparr>eps := (eps s)(c := None)\<rparr>)" using state_loose [OF i p(1)] p(2) by (intro inv_delete_loose [OF i p(1)]) simp
  from accept_error_inv [OF this, of room m ENODEV] r show ?thesis by (simp add: scif_accept_lost_def)
qed

section \<open>Accepted endpoints that wait for their process\<close>

lemma acceptreq_done_inv:
  assumes i: "inv_but {} s" and l: "eps s l = Some lep" "listening lep" and c: "eps s c = Some cep" "accepted_ep cep" "c \<notin> set (mi_uaccept s)"
    and on: "c \<in> set (mi_connected s) \<or> c \<in> set (mi_disconnected s)" and r: "scif_acceptreq_done l c s = Some t"
  shows "inv_but {} t"
proof -
  let ?c = "cep\<lparr>listenep := Some l\<rparr>" and ?l = "lep\<lparr>li_accept := li_accept lep @ [c], acceptcnt := acceptcnt lep + 1\<rparr>"
  let ?s = "set_ep c ?c s"
  have ne: "l \<noteq> c" using on l c i in_lists [of s c cep] by (auto simp: inv_but_def listening_def)
  have nl: "\<not> listening cep" using on c i in_lists [of s c cep] by (auto simp: inv_but_def listening_def)
  have t: "t = (set_ep l ?l ?s)\<lparr>mi_uaccept := mi_uaccept s @ [c]\<rparr>" using r l c by (simp add: scif_acceptreq_done_def)
  note b = i [unfolded inv_but_def]
  have ll: "listener t = (listener s)(l \<mapsto> ?l)" "accepted_by t = (accepted_by s)(c \<mapsto> (Some l, True))"
    using l c nl ne by (auto simp: t ep_views listening_def fun_eq_iff accepted_by_def listener_def)
  have sl: "listener s l = Some lep" using l by (simp add: listener_def)
  have same: "st_of t = st_of s" "dev_of t = dev_of s" "port_of t = port_of s"
    using l c ne by (auto simp: t ep_views fun_eq_iff st_of_def dev_of_def port_of_def owns_def)
  have "lists_ok t" using b unfolding lists_ok_def same by (simp add: t)
  moreover have "counts_ok t" using b sl unfolding counts_ok_def same ll by (auto simp: t)
  moreover have "accepts_but {} t" unfolding accepts_but_def ll
  proof (intro conjI allI impI ballI)
    have u: "mi_uaccept t = mi_uaccept s @ [c]" by (simp add: t)
    show "distinct (mi_uaccept t)" using b c by (simp add: u accepts_but_def)
    fix x q assume q: "((listener s)(l \<mapsto> ?l)) x = Some q"
    have s: "acceptcnt p = int (length (li_accept p))" "distinct (li_accept p)"
        "a \<in> set (li_accept p) \<Longrightarrow> a \<in> set (mi_uaccept s) \<and> (\<exists>b. accepted_by s a = Some (Some x, b))" if "listener s x = Some p" for p a
      using that b by (auto simp: accepts_but_def)
    have nc: "c \<notin> set (li_accept p)" if "listener s x = Some p" for p using s(3) [OF that, of c] c by blast
    show "acceptcnt q = int (length (li_accept q))" "distinct (li_accept q)" using q s sl nc by (cases "x = l"; auto)+
    fix a assume a: "a \<in> set (li_accept q)"
    show "a \<in> set (mi_uaccept t)" "\<exists>b. ((accepted_by s)(c \<mapsto> (Some l, True))) a = Some (Some x, b)"
      using q a s(3) [of _ a] sl nc by (cases "x = l"; auto simp: u)+
  next
    fix a assume a: "a \<in> set (mi_uaccept t)"
    show "a \<in> set (mi_connected t) \<or> a \<in> set (mi_disconnected t)" using a on b by (auto simp: t accepts_but_def)
    show "\<exists>x. ((accepted_by s)(c \<mapsto> (Some l, True))) a = Some (Some x, True) \<and>
        (case ((listener s)(l \<mapsto> ?l)) x of None \<Rightarrow> a \<in> {} | Some p \<Rightarrow> a \<notin> {} \<and> a \<in> set (li_accept p))"
    proof (cases "a = c")
      case False
      then have "a \<in> set (mi_uaccept s)" using a by (simp add: t)
      then obtain x p where "accepted_by s a = Some (Some x, True)" "listener s x = Some p" "a \<in> set (li_accept p)"
        using b unfolding accepts_but_def by (force split: option.splits)
      then show ?thesis using False sl by (intro exI [of _ x]) auto
    qed simp
  qed
  moreover have "ports_ok t" using b ports_same [of t s] same(3) by (simp add: t)
  ultimately show ?thesis by (simp add: inv_but_def)
qed

text \<open>Taking an accepted endpoint out of both lists; the listener of those in \<open>A\<close> is gone.\<close>

lemma inv_uaccept_del:
  assumes i: "inv_but (insert a A) s" and a: "a \<notin> A" and u: "a \<in> set (mi_uaccept s)"
    and g: "\<exists>l. accepted_by s a = Some (Some l, True) \<and> listener s l = None"
  shows "inv_but A (s\<lparr>mi_uaccept := remove1 a (mi_uaccept s)\<rparr>)" (is "inv_but A ?t")
proof -
  note b = i [unfolded inv_but_def]
  obtain l where l: "accepted_by s a = Some (Some l, True)" "listener s l = None" using g by blast
  have no: "a \<notin> set (li_accept p)" if "listener s x = Some p" for x p using that l b unfolding accepts_but_def by fastforce
  have "accepts_but A ?t" unfolding accepts_but_def ep_views
  proof (intro conjI allI impI ballI)
    show "distinct (mi_uaccept ?t)" using b by (simp add: accepts_but_def distinct_remove1)
    fix x p assume p: "listener s x = Some p"
    show "acceptcnt p = int (length (li_accept p))" "distinct (li_accept p)" using p b by (auto simp: accepts_but_def)
    fix y assume "y \<in> set (li_accept p)"
    then show "y \<in> set (mi_uaccept ?t)" "\<exists>c. accepted_by s y = Some (Some x, c)" using p no [OF p] b by (auto simp: accepts_but_def remove1_sets(3) [OF i])
  next
    fix y assume "y \<in> set (mi_uaccept ?t)"
    then have y: "y \<in> set (mi_uaccept s)" "y \<noteq> a" by (auto simp: remove1_sets(3) [OF i])
    then show "y \<in> set (mi_connected ?t) \<or> y \<in> set (mi_disconnected ?t)" using in_accepts [OF i] by simp
    obtain x where "accepted_by s y = Some (Some x, True)" "case listener s x of None \<Rightarrow> y \<in> insert a A | Some p \<Rightarrow> y \<notin> insert a A \<and> y \<in> set (li_accept p)"
      using y b unfolding accepts_but_def by blast
    then show "\<exists>x. accepted_by s y = Some (Some x, True) \<and> (case listener s x of None \<Rightarrow> y \<in> A | Some p \<Rightarrow> y \<notin> A \<and> y \<in> set (li_accept p))"
      using y(2) by (intro exI [of _ x]) (auto split: option.splits)
  qed
  then show ?thesis using b by (auto simp: inv_but_def lists_ok_def counts_ok_def ports_ok_def ep_views)
qed

text \<open>A process attaches an accepted endpoint: it leaves the list of its listener and the list of all of them.\<close>

lemma inv_detach:
  assumes i: "inv_but {} s" and l: "eps s l = Some lep" "listening lep" and c: "c \<in> set (li_accept lep)"
  shows "inv_but {} (set_ep l (lep\<lparr>li_accept := remove1 c (li_accept lep), acceptcnt := acceptcnt lep - 1\<rparr>) (s\<lparr>mi_uaccept := remove1 c (mi_uaccept s)\<rparr>))" (is "inv_but {} ?t")
proof -
  let ?l = "lep\<lparr>li_accept := remove1 c (li_accept lep), acceptcnt := acceptcnt lep - 1\<rparr>"
  note b = i [unfolded inv_but_def] and lc = listener_counts [OF i l]
  have sl: "listener s l = Some lep" using l by (simp add: listener_def)
  have ll: "listener ?t = (listener s)(l \<mapsto> ?l)" "accepted_by ?t = accepted_by s"
    using l by (auto simp: ep_views listening_def fun_eq_iff accepted_by_def)
  have same: "st_of ?t = st_of s" "dev_of ?t = dev_of s" "port_of ?t = port_of s"
    using l by (auto simp: ep_views fun_eq_iff st_of_def dev_of_def port_of_def owns_def)
  have s: "acceptcnt p = int (length (li_accept p))" "distinct (li_accept p)"
      "a \<in> set (li_accept p) \<Longrightarrow> a \<in> set (mi_uaccept s) \<and> (\<exists>b. accepted_by s a = Some (Some x, b))" if "listener s x = Some p" for x p a
    using that b by (auto simp: accepts_but_def)
  have cl: "x = l" if "listener s x = Some p" "c \<in> set (li_accept p)" for x p using s(3) [OF that] s(3) [OF sl c] by auto
  have d: "set (remove1 c (li_accept lep)) = set (li_accept lep) - {c}" using lc(4) by (simp add: set_remove1_eq)
  have len: "length (li_accept lep) = Suc (length (remove1 c (li_accept lep)))" using c length_pos_if_in_set [OF c] by (simp add: length_remove1)
  have u: "set (mi_uaccept ?t) = set (mi_uaccept s) - {c}" using remove1_sets(3) [OF i, of c] by simp
  have "lists_ok ?t" using b unfolding lists_ok_def same by simp
  moreover have "counts_ok ?t" using b sl unfolding counts_ok_def same ll by auto
  moreover have "accepts_but {} ?t" unfolding accepts_but_def ll
  proof (intro conjI allI impI ballI)
    show "distinct (mi_uaccept ?t)" using b by (simp add: accepts_but_def distinct_remove1)
    fix x q assume q: "((listener s)(l \<mapsto> ?l)) x = Some q"
    show "acceptcnt q = int (length (li_accept q))" "distinct (li_accept q)" using q s [of x] lc len by (cases "x = l"; auto simp: distinct_remove1)+
    fix a assume a: "a \<in> set (li_accept q)"
    have "a \<noteq> c \<and> (\<exists>p. listener s x = Some p \<and> a \<in> set (li_accept p))" using q a d sl cl by (cases "x = l") auto
    then show "a \<in> set (mi_uaccept ?t)" "\<exists>b. accepted_by s a = Some (Some x, b)" using s(3) [of x _ a] u by blast+
  next
    fix a assume "a \<in> set (mi_uaccept ?t)"
    then have a: "a \<in> set (mi_uaccept s)" "a \<noteq> c" using u by blast+
    then show "a \<in> set (mi_connected ?t) \<or> a \<in> set (mi_disconnected ?t)" using in_accepts [OF i] by simp
    obtain x p where x: "accepted_by s a = Some (Some x, True)" "listener s x = Some p" "a \<in> set (li_accept p)"
      using a b unfolding accepts_but_def by (force split: option.splits)
    have "\<exists>q. ((listener s)(l \<mapsto> ?l)) x = Some q \<and> a \<in> set (li_accept q)" using x(2,3) a(2) d sl by (cases "x = l") auto
    then show "\<exists>x. accepted_by s a = Some (Some x, True) \<and> (case ((listener s)(l \<mapsto> ?l)) x of None \<Rightarrow> a \<in> {} | Some p \<Rightarrow> a \<notin> {} \<and> a \<in> set (li_accept p))"
      using x(1) by (intro exI [of _ x]) auto
  qed
  moreover have "ports_ok ?t" using b ports_same [of ?t s] same(3) by simp
  ultimately show ?thesis by (simp add: inv_but_def)
qed

lemma acceptreg_inv:
  assumes i: "inv_but {} s" and r: "scif_acceptreg e c s = Some (x, t)"
  shows "inv_but {} t"
proof (cases "t = s")
  case False
  then have c: "c \<in> set (mi_uaccept s)" using r by (auto simp: scif_acceptreg_def split: if_splits)
  then obtain l lep where l: "accepted_by s c = Some (Some l, True)" "listener s l = Some lep" "c \<in> set (li_accept lep)"
    using i unfolding inv_but_def accepts_but_def by (force split: option.splits)
  have le: "eps s l = Some lep" "listening lep" using l(2) by (auto simp: listener_def split: option.splits if_splits)
  obtain p where p: "eps s c = Some p" "listenep p = Some l" using l(1) by (auto simp: accepted_by_def)
  let ?s = "set_ep l (lep\<lparr>li_accept := remove1 c (li_accept lep), acceptcnt := acceptcnt lep - 1\<rparr>) (s\<lparr>mi_uaccept := remove1 c (mi_uaccept s)\<rparr>)"
  have s: "inv_but {} ?s" by (rule inv_detach [OF i le l(3)])
  obtain q where q: "eps ?s e = Some q" and z: "micscif_add_epd_to_zombie_list e (set_ep e (micscif_teardown_ep q) ?s) = Some t"
    using r c p le l(3) by (auto simp: scif_acceptreg_def Let_def split: bind_splits)
  note az = add_zombie [OF z, of "micscif_teardown_ep q"]
  have t: "t = (set_ep e ((micscif_teardown_ep q)\<lparr>state := SCIFEP_ZOMBIE\<rparr>) ?s)\<lparr>mi_zombie := mi_zombie ?s @ [e], mi_nr_zombies := mi_nr_zombies ?s + 1\<rparr>"
    and lo: "loose ?s e" using az by simp_all
  show ?thesis unfolding t using inv_zombie_add [OF s q lo, of "(micscif_teardown_ep q)\<lparr>state := SCIFEP_ZOMBIE\<rparr>"] by simp
qed (use i in simp)

section \<open>Closing\<close>

lemma close_drop_disconnected:
  assumes i: "inv_but A s" and p: "eps s e = Some p" and u: "e \<notin> set (mi_uaccept s)" and c: "e \<notin> set (mi_connected s)" and l: "\<not> listening p" "state p \<noteq> SCIFEP_ZOMBIE"
    and p': "\<not> listening p'" "state p' \<noteq> SCIFEP_ZOMBIE" "owns p' \<Longrightarrow> owns p \<and> pport (port p') = pport (port p)"
  shows "inv_but A ((set_ep e p' s)\<lparr>mi_disconnected := remove1 e (mi_disconnected s)\<rparr>)" and "loose ((set_ep e p' s)\<lparr>mi_disconnected := remove1 e (mi_disconnected s)\<rparr>) e"
proof -
  let ?s = "s\<lparr>mi_disconnected := remove1 e (mi_disconnected s)\<rparr>"
  have s: "inv_but A ?s" by (rule inv_disconnected_del [OF i u])
  have lo: "loose ?s e" using in_lists [of s e p] i p c l remove1_sets(2) [OF i, of e] by (auto simp: loose_iff inv_but_def)
  then show "loose ((set_ep e p' s)\<lparr>mi_disconnected := remove1 e (mi_disconnected s)\<rparr>) e" by (simp add: loose_iff)
  have "inv_but A (set_ep e p' ?s)" using p' p by (intro inv_loose_set [OF s _ lo, of p]) auto
  then show "inv_but A ((set_ep e p' s)\<lparr>mi_disconnected := remove1 e (mi_disconnected s)\<rparr>)" by (simp add: set_ep_upd)
qed

text \<open>A connected endpoint leaves the list and its node's count, and is on no list then.\<close>

lemma close_drop_connected:
  assumes i: "inv_but A s" and p: "eps s e = Some p" and u: "e \<notin> set (mi_uaccept s)" and c: "e \<in> set (mi_connected s)" and d: "remote_dev p = Some d"
    and p': "\<not> listening p'" "state p' \<noteq> SCIFEP_ZOMBIE" "owns p' \<Longrightarrow> owns p \<and> pport (port p') = pport (port p)"
    and r: "put_conn_count d ((set_ep e p' s)\<lparr>mi_connected := remove1 e (mi_connected s)\<rparr>) = Some t"
  shows "inv_but A t" and "loose t e" and "eps t e = Some p'"
proof -
  have de: "dev_of s e = Some d" using p d by (simp add: dev_of_def)
  obtain k where k: "put_conn_count d (s\<lparr>mi_connected := remove1 e (mi_connected s)\<rparr>) = Some (s\<lparr>mi_connected := remove1 e (mi_connected s), num_active_conn := k\<rparr>)"
      "inv_but A (s\<lparr>mi_connected := remove1 e (mi_connected s), num_active_conn := k\<rparr>)" (is "inv_but A ?s")
    using inv_connected_del [OF i c de u] by blast
  have "k = (num_active_conn s)(d := num_active_conn s d - 1)"
    using k(1) by (auto simp: put_conn_count_def split: if_splits dest: arg_cong [where f = num_active_conn])
  then have t: "t = set_ep e p' ?s" using r by (auto simp: put_conn_count_def set_ep_def split: if_splits)
  have "loose ?s e" using i c remove1_sets(1) [OF i, of e] by (auto simp: loose_iff inv_but_def lists_ok_def)
  moreover from inv_loose_set [OF k(2) _ this, of p p'] p p' show "inv_but A t" unfolding t by auto
  ultimately show "loose t e" "eps t e = Some p'" unfolding t by simp_all
qed

text \<open>A listener that is closed: its accepted endpoints are left over, and become zombies one by one.\<close>

lemma inv_unlisten:
  assumes i: "inv_but {} s" and p: "eps s e = Some p" "listening p"
    and p': "\<not> listening p'" "state p' \<noteq> SCIFEP_ZOMBIE" "listenep p' = listenep p" "accepted_ep p' = accepted_ep p" "port p' = port p"
  shows "inv_but (set (li_accept p)) ((set_ep e p' s)\<lparr>mi_listen := removeAll e (mi_listen s)\<rparr>)" (is "inv_but ?A ?t")
proof -
  note b = i [unfolded inv_but_def]
  have sl: "listener s e = Some p" using p by (simp add: listener_def)
  have z: "state p \<noteq> SCIFEP_ZOMBIE" using p(2) by (auto simp: listening_def)
  have e: "e \<in> set (mi_listen s)" using b p in_lists [of s e p] by simp
  have ll: "listener ?t = (listener s)(e := None)" "accepted_by ?t = accepted_by s" "port_of ?t = port_of s" "st_of ?t = (st_of s)(e \<mapsto> state p')" "dev_of ?t = (dev_of s)(e := remote_dev p')"
    using p p' z by (auto simp: ep_views fun_eq_iff accepted_by_def port_of_def owns_def)
  have "lists_ok ?t" using b e p'(1,2) unfolding lists_ok_def ll by (auto simp: listening_def distinct_removeAll)
  moreover have "counts_ok ?t"
  proof -
    have "e \<notin> set (mi_connected s)" using b e by (auto simp: lists_ok_def)
    then have "counts_ok (set_ep e p' s)" using b p'(1) by (intro counts_set) auto
    then show ?thesis by (simp add: counts_ok_def ep_views)
  qed
  moreover have "accepts_but ?A ?t" unfolding accepts_but_def ll
  proof (intro conjI allI impI ballI)
    show "distinct (mi_uaccept ?t)" using b by (simp add: accepts_but_def)
    fix x q assume "((listener s)(e := None)) x = Some q"
    then have q: "listener s x = Some q" "x \<noteq> e" by (auto split: if_splits)
    show "acceptcnt q = int (length (li_accept q))" "distinct (li_accept q)" using q b by (auto simp: accepts_but_def)
    fix a assume "a \<in> set (li_accept q)"
    then show "a \<in> set (mi_uaccept ?t)" "\<exists>c. accepted_by s a = Some (Some x, c)" using q b by (auto simp: accepts_but_def)
  next
    fix a assume "a \<in> set (mi_uaccept ?t)"
    then have a: "a \<in> set (mi_uaccept s)" by simp
    then show "a \<in> set (mi_connected ?t) \<or> a \<in> set (mi_disconnected ?t)" using in_accepts [OF i] by simp
    obtain x q where x: "accepted_by s a = Some (Some x, True)" "listener s x = Some q" "a \<in> set (li_accept q)"
      using a b unfolding accepts_but_def by (force split: option.splits)
    have "x = e" if "a \<in> ?A" using that x(1) sl b unfolding accepts_but_def by fastforce
    then have "case ((listener s)(e := None)) x of None \<Rightarrow> a \<in> ?A | Some p \<Rightarrow> a \<notin> ?A \<and> a \<in> set (li_accept p)" using x sl by (cases "x = e") auto
    then show "\<exists>x. accepted_by s a = Some (Some x, True) \<and> (case ((listener s)(e := None)) x of None \<Rightarrow> a \<in> ?A | Some p \<Rightarrow> a \<notin> ?A \<and> a \<in> set (li_accept p))"
      using x(1) by blast
  qed
  moreover have "ports_ok ?t" using b ports_same [of ?t s] ll(3) by simp
  ultimately show ?thesis by (simp add: inv_but_def)
qed

lemma drop_accepts_inv:
  assumes "inv_but (set as) s" and "distinct as" and "set as \<subseteq> set (mi_uaccept s)" and "drop_accepts as s = Some t"
  shows "inv_but {} t" and "e \<notin> set as \<Longrightarrow> eps t e = eps s e" and "e \<notin> set as \<Longrightarrow> loose s e \<Longrightarrow> loose t e"
proof -
  have "inv_but {} t \<and> (e \<notin> set as \<longrightarrow> eps t e = eps s e \<and> (loose s e \<longrightarrow> loose t e))"
    using assms
  proof (induction as arbitrary: s)
    case (Cons a as)
    note i = Cons.prems(1) [simplified]
    have a: "a \<in> set (mi_uaccept s)" "a \<notin> set as" using Cons.prems by auto
    obtain l where l: "accepted_by s a = Some (Some l, True)" "listener s l = None"
      using i a(1) unfolding inv_but_def accepts_but_def by (fastforce split: option.splits)
    obtain p where p: "eps s a = Some p" "accepted_ep p" using l by (auto simp: accepted_by_def)
    let ?u = "s\<lparr>mi_uaccept := remove1 a (mi_uaccept s)\<rparr>"
    have u: "inv_but (set as) ?u" using inv_uaccept_del [OF i a(2,1)] l by blast
    have ua: "a \<notin> set (mi_uaccept ?u)" using remove1_sets(3) [OF i, of a] by auto
    obtain s' where s': "(if a \<in> set (mi_connected ?u) then do { d \<leftarrow> remote_dev p; put_conn_count d (?u\<lparr>mi_connected := remove1 a (mi_connected ?u)\<rparr>) } else Some ?u) = Some s'"
      and n: "do { s \<leftarrow> micscif_add_epd_to_zombie_list a (set_ep a (micscif_teardown_ep p) (s'\<lparr>mi_disconnected := remove1 a (mi_disconnected s')\<rparr>)); drop_accepts as s } = Some t"
      using Cons.prems(4) p by (auto simp: Let_def split: bind_splits if_splits)
    let ?v = "s'\<lparr>mi_disconnected := remove1 a (mi_disconnected s')\<rparr>"
    have s'_i: "inv_but (set as) s' \<and> a \<notin> set (mi_connected s') \<and> eps s' = eps s \<and> mi_uaccept s' = mi_uaccept ?u \<and> mi_listen s' = mi_listen s \<and> mi_zombie s' = mi_zombie s \<and>
        mi_disconnected s' = mi_disconnected s \<and> set (mi_connected s') = set (mi_connected s) - {a}"
    proof (cases "a \<in> set (mi_connected s)")
      case True
      then obtain d where d: "remote_dev p = Some d" "put_conn_count d (?u\<lparr>mi_connected := remove1 a (mi_connected ?u)\<rparr>) = Some s'" using s' by (auto split: bind_splits)
      have "dev_of ?u a = Some d" using d p by (simp add: dev_of_def)
      then obtain c where c: "put_conn_count d (?u\<lparr>mi_connected := remove1 a (mi_connected ?u)\<rparr>) = Some (?u\<lparr>mi_connected := remove1 a (mi_connected ?u), num_active_conn := c\<rparr>)"
          "inv_but (set as) (?u\<lparr>mi_connected := remove1 a (mi_connected ?u), num_active_conn := c\<rparr>)"
        using inv_connected_del [OF u _ _ ua] True by fastforce
      have "s' = ?u\<lparr>mi_connected := remove1 a (mi_connected ?u), num_active_conn := c\<rparr>" using c(1) d(2) by simp
      then show ?thesis using c(2) remove1_sets(1) [OF i, of a] by simp
    qed (use s' u in auto)
    have v: "inv_but (set as) ?v" by (rule inv_disconnected_del) (use s'_i ua in simp_all)
    have st: "state p \<in> {SCIFEP_CONNECTED, SCIFEP_DISCONNECTED, SCIFEP_CLOSING}" "\<not> listening p" using in_accepts [OF i a(1)] in_lists [of s a p] i p by (auto simp: inv_but_def listening_def)
    have ls: "lists_ok s" using i by (simp add: inv_but_def)
    have "a \<notin> set (mi_listen s)" "a \<notin> set (mi_zombie s)" using st in_lists(1,2) [OF ls p(1)] by auto
    then have lo: "loose ?v a" using s'_i remove1_sets(2) [OF i, of a] by (simp add: loose_iff)
    have ep: "eps ?v a = Some p" using s'_i p by simp
    obtain z where z: "micscif_add_epd_to_zombie_list a (set_ep a (micscif_teardown_ep p) ?v) = Some z" and rest: "drop_accepts as z = Some t"
      using n by (auto split: bind_splits)
    have zz: "z = (set_ep a ((micscif_teardown_ep p)\<lparr>state := SCIFEP_ZOMBIE\<rparr>) ?v)\<lparr>mi_zombie := mi_zombie ?v @ [a], mi_nr_zombies := mi_nr_zombies ?v + 1\<rparr>"
      using add_zombie [OF z, of "micscif_teardown_ep p"] by simp
    have zi: "inv_but (set as) z" unfolding zz by (rule inv_zombie_add [OF v ep lo]) simp
    have "set as \<subseteq> set (mi_uaccept z)" using Cons.prems(2,3) s'_i remove1_sets(3) [OF i, of a] by (auto simp: zz)
    from Cons.IH [OF zi _ this rest] Cons.prems(2) have t: "inv_but {} t \<and> (e \<notin> set as \<longrightarrow> eps t e = eps z e \<and> (loose z e \<longrightarrow> loose t e))" by simp
    have "eps z e = eps s e \<and> (loose s e \<longrightarrow> loose z e)" if "e \<noteq> a"
      using that s'_i remove1_sets(2) [OF i, of a] by (auto simp: zz loose_iff)
    then show ?case using t by auto
  qed simp
  then show "inv_but {} t" "e \<notin> set as \<Longrightarrow> eps t e = eps s e" "e \<notin> set as \<Longrightarrow> loose s e \<Longrightarrow> loose t e" by auto
qed

lemma reject_all_result: "\<exists>ms. reject_all room xs p s = s\<lparr>outbox := ms\<rparr>"
proof (induction xs arbitrary: s)
  case (Cons m xs)
  obtain ms where "snd (micscif_nodeqp_send room (pnode (msg_src m)) (reject_msg m) (Some p) s) = s\<lparr>outbox := ms\<rparr>" using send_result by blast
  then show ?case using Cons [of "s\<lparr>outbox := ms\<rparr>"] by auto
next
  case Nil
  show ?case by (intro exI [of _ "outbox s"]) simp
qed

lemma close_listener_inv:
  assumes i: "inv_but {} s" and p: "eps s e = Some p" "listening p" and r: "scif_close room e s = Some (x, t)"
  shows "inv_but {} t"
proof -
  let ?p = "p\<lparr>state := SCIFEP_CLOSING\<rparr>"
  let ?s = "(set_ep e ?p s)\<lparr>mi_listen := removeAll e (mi_listen s)\<rparr>"
  note lc = listener_counts [OF i p]
  have s: "inv_but (set (li_accept p)) ?s" by (rule inv_unlisten [OF i p]) (simp_all add: listening_def)
  have ls: "lists_ok s" using i by (simp add: inv_but_def)
  have z: "state p \<noteq> SCIFEP_ZOMBIE" "state p \<noteq> SCIFEP_CONNECTED" "state p \<noteq> SCIFEP_DISCONNECTED" "state p \<noteq> SCIFEP_CLOSING" using p(2) by (auto simp: listening_def)
  have lo: "loose ?s e" using in_lists [OF ls p(1)] z by (auto simp: loose_iff)
  have "listener s e = Some p" using p by (simp add: listener_def)
  then have sub: "set (li_accept p) \<subseteq> set (mi_uaccept s)" using i by (auto simp: inv_but_def accepts_but_def)
  have ne: "e \<notin> set (li_accept p)" using sub in_accepts [OF i, of e] in_lists [OF ls p(1)] z by blast
  obtain s1 where s1: "drop_accepts (li_accept p) ?s = Some s1"
    and t: "scif_close_end e (set_ep e (?p\<lparr>conlist := [], conreqcnt := 0, li_accept := [], acceptcnt := 0\<rparr>) (reject_all room (conlist p) ?p s1)) = Some t"
    using r p lc by (auto simp: scif_close_def Let_def listening_def split: bind_splits)
  have "set (li_accept p) \<subseteq> set (mi_uaccept ?s)" using sub by simp
  note d = drop_accepts_inv [OF s lc(4) this s1]
  obtain ms where ms: "reject_all room (conlist p) ?p s1 = s1\<lparr>outbox := ms\<rparr>" using reject_all_result by blast
  let ?q = "?p\<lparr>conlist := [], conreqcnt := 0, li_accept := [], acceptcnt := 0\<rparr>"
  have e1: "eps s1 e = Some ?p" "loose s1 e" using d(2,3) ne lo by auto
  have "inv_but {} (set_ep e ?q s1)" by (rule inv_loose_set [OF d(1) e1]) (auto simp: listening_def owns_def)
  then have q: "inv_but {} (set_ep e ?q (s1\<lparr>outbox := ms\<rparr>))" by simp
  show ?thesis by (rule inv_close_end [OF q _ _ t [unfolded ms], of ?q]) (use e1 in simp_all)
qed

text \<open>The parts of a close: the endpoint stays on its list while the windows are unregistered.\<close>

lemma closing_inv:
  assumes i: "inv_but A s" and p: "eps s e = Some p" and l: "\<not> listening p" "state p \<noteq> SCIFEP_ZOMBIE"
  shows "inv_but A (set_ep e (p\<lparr>state := SCIFEP_CLOSING\<rparr>) s)"
  by (rule set_ep_inv [OF i p]) (use l in \<open>auto simp: keeps_def listening_def owns_def\<close>)

lemma close_inv:
  assumes i: "inv_but {} s" and p: "eps s e = Some p" and r: "scif_close room e s = Some (x, t)"
  shows "inv_but {} t"
proof (cases "listening p")
  case False
  let ?p = "p\<lparr>state := SCIFEP_CLOSING\<rparr>"
  have z: "state p \<noteq> SCIFEP_ZOMBIE" using r p by (auto simp: scif_close_def)
  have c: "inv_but {} (set_ep e ?p s)" by (rule closing_inv [OF i p False z])
  show ?thesis
  proof (cases "state p \<in> {SCIFEP_UNBOUND, SCIFEP_BOUND, SCIFEP_CONNECTING}")
    case True
    then have "loose s e" using state_loose [OF i p] by auto
    moreover have "scif_close_end e (set_ep e ?p s) = Some t" using r p True by (auto simp: scif_close_def Let_def)
    ultimately show ?thesis using inv_close_end [OF c, of e ?p t] by simp
  next
    case n: False
    have "t = set_ep e ?p s" using r p n z False by (cases "state p") (auto simp: scif_close_def Let_def listening_def)
    then show ?thesis using c by simp
  qed
qed (rule close_listener_inv [OF i p _ r])

lemma closing_states:
  assumes "state p \<in> {SCIFEP_CLOSING, SCIFEP_DISCONNECTED}"
  shows "\<not> listening p" and "state p \<noteq> SCIFEP_ZOMBIE" and "\<not> listening (p\<lparr>rma_info := x\<rparr>)" and "owns (p\<lparr>rma_info := x\<rparr>) = owns p"
  using assms by (auto simp: listening_def owns_def)

lemma close_disconnected_inv:
  assumes i: "inv_but A s" and p: "eps s e = Some p" "state p \<in> {SCIFEP_CLOSING, SCIFEP_DISCONNECTED}" and u: "e \<notin> set (mi_uaccept s)"
    and r: "scif_close_disconnected unreg e s = Some t"
  shows "inv_but A t"
proof -
  let ?q = "p\<lparr>rma_info := unreg (rma_info p)\<rparr>"
  let ?s = "(set_ep e ?q s)\<lparr>mi_disconnected := remove1 e (mi_disconnected s)\<rparr>"
  note st = closing_states [OF p(2)]
  have e: "scif_close_end e ?s = Some t" using r p by (simp add: scif_close_disconnected_def)
  have "loose ?s e" by (rule close_end_loose [OF e])
  then have "e \<notin> set (mi_connected s)" by (simp add: loose_iff)
  note c = close_drop_disconnected [OF i p(1) u this st(1,2), of ?q]
  have "inv_but A ?s" "loose ?s e" using c st p(2) by auto
  from inv_close_end [OF this(1) _ this(2) e, of ?q] show ?thesis by simp
qed

lemma close_connected_inv:
  assumes i: "inv_but A s" and p: "eps s e = Some p" "state p \<in> {SCIFEP_CLOSING, SCIFEP_DISCONNECTED}" and u: "e \<notin> set (mi_uaccept s)"
    and r: "scif_close_connected room unreg e s = Some (x, t)"
  shows "inv_but A t"
proof (cases "e \<in> set (mi_connected s)")
  case True
  let ?q = "p\<lparr>rma_info := unreg (rma_info p)\<rparr>"
  note st = closing_states [OF p(2)]
  obtain d s1 where d: "remote_dev p = Some d" "put_conn_count d ((set_ep e ?q s)\<lparr>mi_connected := remove1 e (mi_connected s)\<rparr>) = Some s1"
    using r p True by (auto simp: scif_close_connected_def Let_def split: bind_splits)
  obtain f ms where g: "micscif_nodeqp_send room d (conn_msg SCIF_DISCNCT ?q (peer ?q) e (remote_ep ?q)) (Some ?q) s1 = (f, s1\<lparr>outbox := ms\<rparr>)"
    using send_cases by blast
  have t: "t = s1\<lparr>outbox := ms\<rparr> \<or> scif_close_end e (s1\<lparr>outbox := ms\<rparr>) = Some t"
    using r p True d g by (auto simp: scif_close_connected_def Let_def split: option.splits)
  have "inv_but A s1" "loose s1 e" "eps s1 e = Some ?q" using close_drop_connected [OF i p(1) u True d(1) st(3) _ _ d(2)] st p(2) by auto
  then show ?thesis using t inv_close_end [of A "s1\<lparr>outbox := ms\<rparr>" e ?q t] by auto
qed (use r p close_disconnected_inv [OF i p u] in \<open>auto simp: scif_close_connected_def\<close>)

lemma close_end_inv: "inv_but A s \<Longrightarrow> eps s e = Some p \<Longrightarrow> scif_close_end e s = Some t \<Longrightarrow> inv_but A t"
  using inv_close_end close_end_loose by blast

lemma flush_end_inv:
  assumes i: "inv_but A s" and p: "eps s e = Some p" and r: "scif_flush_end e s = Some t"
  shows "inv_but A t"
proof -
  let ?p = "p\<lparr>state := SCIFEP_DISCONNECTED\<rparr>"
  have e: "loose s e" using r p by (auto simp: scif_flush_end_def loose_def split: if_splits)
  have z: "state p \<noteq> SCIFEP_ZOMBIE" by (rule loose_state [OF i p e])
  have "inv_but A (set_ep e ?p s)" by (rule inv_loose_set [OF i p e]) (use z in \<open>auto simp: listening_def owns_def\<close>)
  from inv_disconnected_add [OF this, of e] show ?thesis using r p e by (simp add: scif_flush_end_def ep_views loose_iff on_list_def)
qed

lemma flush_inv:
  assumes i: "inv_but A s" and p: "eps s e = Some p" "e \<notin> set (mi_uaccept s)" and r: "scif_flush room e s = Some (x, t)"
  shows "inv_but A t"
proof (cases "state p = SCIFEP_CONNECTED")
  case True
  have nl: "\<not> listening p" "state p \<noteq> SCIFEP_ZOMBIE" using True by (simp_all add: listening_def)
  show ?thesis
  proof (cases "e \<in> set (mi_connected s)")
    case c: True
    then obtain d s1 where d: "remote_dev p = Some d" "put_conn_count d (s\<lparr>mi_connected := remove1 e (mi_connected s)\<rparr>) = Some s1"
      using r p True by (auto simp: scif_flush_def split: bind_splits)
    have same: "set_ep e p s = s" using p(1) by (simp add: set_ep_def fun_upd_idem)
    have "put_conn_count d ((set_ep e p s)\<lparr>mi_connected := remove1 e (mi_connected s)\<rparr>) = Some s1" using d(2) same by simp
    note k = close_drop_connected [OF i p c d(1) nl _ this]
    obtain f ms where g: "micscif_nodeqp_send room d (conn_msg SCIF_DISCNCT p (peer p) e (remote_ep p)) (Some p) s1 = (f, s1\<lparr>outbox := ms\<rparr>)"
      using send_cases by blast
    have "t = s1\<lparr>outbox := ms\<rparr> \<or> scif_flush_end e (s1\<lparr>outbox := ms\<rparr>) = Some t" using r p True c d g by (auto simp: scif_flush_def split: option.splits)
    then show ?thesis using k flush_end_inv [of A "s1\<lparr>outbox := ms\<rparr>" e p t] by auto
  next
    case False
    then have "t = s\<lparr>mi_disconnected := remove1 e (mi_disconnected s)\<rparr>" using r p True by (simp add: scif_flush_def)
    then show ?thesis using inv_disconnected_del [OF i p(2)] by simp
  qed
next
  case False
  show ?thesis
  proof (cases "state p = SCIFEP_LISTENING")
    case True
    then have lp: "listening p" by (simp add: listening_def)
    have "inv_but A (set_ep e (p\<lparr>state := SCIFEP_CLLISTEN\<rparr>) s)"
      by (rule inv_listener_set [OF i p(1) lp]) (use listener_counts [OF i p(1) lp] in \<open>simp_all add: listening_def\<close>)
    then show ?thesis using r p True by (simp add: scif_flush_def)
  next
    case n: False
    then show ?thesis using r p False i by (simp add: scif_flush_def)
  qed
qed

section \<open>The handlers keep the invariant\<close>

lemma find_listen:
  assumes "inv_but A s" and "micscif_find_listen_ep pn s = Some e"
  obtains p where "eps s e = Some p" "listening p" "pport (port p) = pn"
proof -
  have "e \<in> set (mi_listen s)" "case eps s e of Some p \<Rightarrow> pport (port p) = pn | None \<Rightarrow> False"
    using assms(2) by (auto simp: micscif_find_listen_ep_def find_Some_iff)
  then show thesis using that assms(1) in_lists(1) [of s e] by (auto simp: inv_but_def split: option.splits)
qed

lemma cnctreq_inv:
  assumes i: "inv_but A s" and r: "scif_cnctreq_resp room mem m s = Some t"
  shows "inv_but A t"
proof (cases "t = snd (micscif_nodeqp_send room (pnode (msg_src m)) (m\<lparr>uop := SCIF_CNCT_REJ\<rparr>) None s)")
  case False
  then obtain e where f: "micscif_find_listen_ep (pport (msg_dst m)) s = Some e" using r by (auto simp: scif_cnctreq_resp_def Let_def split: if_splits option.splits)
  obtain p where p: "eps s e = Some p" "listening p" by (rule find_listen [OF i f])
  have b: "conreqcnt p < int (unat (backlog p))" and t: "t = set_ep e (p\<lparr>conlist := conlist p @ [m], conreqcnt := conreqcnt p + 1\<rparr>) s"
    using r False f p by (auto simp: scif_cnctreq_resp_def Let_def split: if_splits)
  have "length (conlist p) < unat (backlog p)" using b listener_counts(1) [OF i p] by (simp only: of_nat_less_iff)
  then show ?thesis unfolding t by (intro inv_listener_set [OF i p]) (use p(2) listener_counts [OF i p] in \<open>simp_all add: listening_def\<close>)
qed (use i in simp)

lemma take_request_length: "take_request x ms = Some ms' \<Longrightarrow> length ms = Suc (length ms')"
  by (induction ms arbitrary: ms') (auto split: if_splits)

lemma cnctterm_inv:
  assumes i: "inv_but A s" and r: "scif_cnctterm_resp room m s = Some t"
  shows "inv_but A t"
proof (cases "t = s")
  case False
  then obtain e where f: "micscif_find_listen_ep (pport (msg_dst m)) s = Some e" using r by (auto simp: scif_cnctterm_resp_def split: option.splits)
  obtain p where p: "eps s e = Some p" "listening p" by (rule find_listen [OF i f])
  obtain p' where p': "miscscif_get_connection_request p (payload0 m) = Some p'"
      and t: "t = snd (micscif_nodeqp_send room (pnode (msg_src m)) (m\<lparr>uop := SCIF_TERM_ACK\<rparr>) None (set_ep e p' s))"
    using r False f p by (auto simp: scif_cnctterm_resp_def split: option.splits)
  obtain ms where ms: "take_request (payload0 m) (conlist p) = Some ms" "p' = p\<lparr>conlist := ms, conreqcnt := conreqcnt p - 1\<rparr>"
    using p' by (auto simp: miscscif_get_connection_request_def)
  have "inv_but A (set_ep e p' s)" unfolding ms(2)
    by (rule inv_listener_set [OF i p]) (use p(2) take_request_length [OF ms(1)] listener_counts [OF i p] in \<open>simp_all add: listening_def\<close>)
  then show ?thesis unfolding t by simp
qed (use i in simp)

text \<open>Handlers that change the state of an endpoint on no list.\<close>

lemma inv_state:
  assumes "inv_but A s" and "eps s e = Some p" and "loose s e" and "p' = p\<lparr>peer := q, cnct_gnt_payload := x, state := st\<rparr>"
    and "st \<notin> {SCIFEP_LISTENING, SCIFEP_CLLISTEN, SCIFEP_ZOMBIE}"
  shows "inv_but A (set_ep e p' s)"
  using assms(4,5) loose_state(2) [OF assms(1-3)] by (intro inv_loose_set [OF assms(1-3)]) (auto simp: listening_def owns_def)

lemma state_upd: "p\<lparr>state := st\<rparr> = p\<lparr>peer := peer p, cnct_gnt_payload := cnct_gnt_payload p, state := st\<rparr>"
  by simp

text \<open>
  What a peer keeps to: a grant is answered once, by the node it was sent to; a withdrawn request is acknowledged once; a disconnect comes from the node of the peer.
  The answer to a disconnect finds the endpoint that sent it: on no list while the call waits, or on the list of disconnected endpoints when \<open>__scif_flush\<close> has given up
  the wait; an answer after \<open>__scif_close\<close> has given up is not covered (it changes the state of a zombie, or freed memory).
\<close>

definition msg_ok :: "scif_node \<Rightarrow> nat \<Rightarrow> nodemsg \<Rightarrow> bool" where
  "msg_ok s d m \<longleftrightarrow>
     (case uop m of
        SCIF_CNCT_GNTACK \<Rightarrow> st_of s (payload0 m) = Some SCIFEP_CONNECTING \<and> dev_of s (payload0 m) = Some d
      | SCIF_CNCT_GNTNACK \<Rightarrow> st_of s (payload0 m) = Some SCIFEP_CONNECTING
      | SCIF_TERM_ACK \<Rightarrow> st_of s (payload0 m) \<in> {Some SCIFEP_CONNECTING, Some SCIFEP_BOUND}
      | SCIF_DISCNCT \<Rightarrow> payload1 m \<in> set (mi_connected s) \<longrightarrow> dev_of s (payload1 m) = Some d
      | SCIF_DISCNT_ACK \<Rightarrow> payload0 m \<notin> set (mi_listen s) \<and> payload0 m \<notin> set (mi_connected s) \<and> payload0 m \<notin> set (mi_zombie s)
      | _ \<Rightarrow> True)"

lemma discnct_inv:
  assumes i: "inv_but A s" and d: "payload1 m \<in> set (mi_connected s) \<Longrightarrow> dev_of s (payload1 m) = Some d" and r: "scif_discnct_resp room d m s = Some t"
  shows "inv_but A t"
proof (cases "payload1 m \<in> set (mi_connected s)")
  case True
  obtain p where p: "eps s (payload1 m) = Some p" using d [OF True] by (auto simp: dev_of_def split: option.splits)
  obtain c where c: "put_conn_count d (s\<lparr>mi_connected := remove1 (payload1 m) (mi_connected s)\<rparr>) = Some (s\<lparr>mi_connected := remove1 (payload1 m) (mi_connected s), num_active_conn := c\<rparr>)"
      "inv_but A ((set_ep (payload1 m) (p\<lparr>state := SCIFEP_DISCONNECTED\<rparr>) (s\<lparr>mi_connected := remove1 (payload1 m) (mi_connected s), num_active_conn := c\<rparr>))\<lparr>mi_disconnected := mi_disconnected s @ [payload1 m]\<rparr>)"
      (is "inv_but A ?s")
    using inv_connected_disconnected [OF i True d [OF True] p, of "p\<lparr>state := SCIFEP_DISCONNECTED\<rparr>"] by auto
  have "t = snd (micscif_nodeqp_send room (pnode (msg_src m)) (m\<lparr>uop := SCIF_DISCNT_ACK\<rparr>) None ?s)"
    using r True c(1) p by (simp add: scif_discnct_resp_def)
  then show ?thesis using c(2) by simp
next
  case False
  then show ?thesis using r i by (auto simp: scif_discnct_resp_def)
qed

lemma handler_inv:
  assumes i: "inv_but A s" and m: "msg_ok s d m" and r: "micscif_nodeqp_msg_handler room mem d m s = Some t"
  shows "inv_but A t"
proof (cases "uop m")
  case SCIF_CNCT_REQ
  then show ?thesis using r cnctreq_inv [OF i] by (simp add: micscif_nodeqp_msg_handler_def)
next
  case SCIF_CNCT_TERM
  then show ?thesis using r cnctterm_inv [OF i] by (simp add: micscif_nodeqp_msg_handler_def)
next
  case SCIF_DISCNCT
  then show ?thesis using r m discnct_inv [OF i, of m d room t] by (auto simp: micscif_nodeqp_msg_handler_def msg_ok_def)
next
  case SCIF_CNCT_GNT
  then obtain p where p: "eps s (payload0 m) = Some p" and r': "scif_cnctgnt_resp m s = Some t" using r by (auto simp: micscif_nodeqp_msg_handler_def scif_cnctgnt_resp_def split: bind_splits)
  show ?thesis
  proof (cases "state p = SCIFEP_CONNECTING")
    case True
    show ?thesis using r' p True inv_state [OF i p state_loose [OF i p] refl, of SCIFEP_MAPPING] by (auto simp: scif_cnctgnt_resp_def)
  qed (use r' p i in \<open>simp add: scif_cnctgnt_resp_def\<close>)
next
  case SCIF_CNCT_REJ
  then obtain p where p: "eps s (payload0 m) = Some p" and r': "scif_cnctrej_resp m s = Some t" using r by (auto simp: micscif_nodeqp_msg_handler_def scif_cnctrej_resp_def split: bind_splits)
  show ?thesis
  proof (cases "state p = SCIFEP_CONNECTING")
    case True
    show ?thesis using r' p True inv_state [OF i p state_loose [OF i p] state_upd, of SCIFEP_BOUND] by (auto simp: scif_cnctrej_resp_def)
  qed (use r' p i in \<open>simp add: scif_cnctrej_resp_def\<close>)
next
  case SCIF_CNCT_GNTACK
  then obtain p where p: "eps s (payload0 m) = Some p" "state p = SCIFEP_CONNECTING" "remote_dev p = Some d" using m by (auto simp: msg_ok_def st_of_def dev_of_def)
  have "loose s (payload0 m)" using state_loose [OF i p(1)] p(2) by simp
  from inv_connect [OF i p(1) this, of "p\<lparr>state := SCIFEP_CONNECTED\<rparr>" d] show ?thesis
    using r p SCIF_CNCT_GNTACK by (simp add: micscif_nodeqp_msg_handler_def scif_cnctgntack_resp_def owns_def)
next
  case SCIF_CNCT_GNTNACK
  then obtain p where p: "eps s (payload0 m) = Some p" "state p = SCIFEP_CONNECTING" using m by (auto simp: msg_ok_def st_of_def)
  show ?thesis using r p SCIF_CNCT_GNTNACK inv_state [OF i p(1) state_loose [OF i p(1)] state_upd, of SCIFEP_CLOSING]
    by (simp add: micscif_nodeqp_msg_handler_def scif_cnctgntnack_resp_def)
next
  case SCIF_TERM_ACK
  then obtain p where p: "eps s (payload0 m) = Some p" "state p = SCIFEP_CONNECTING \<or> state p = SCIFEP_BOUND" using m by (auto simp: msg_ok_def st_of_def)
  have "loose s (payload0 m)" using state_loose [OF i p(1)] p(2) by auto
  from inv_state [OF i p(1) this state_upd, of SCIFEP_BOUND] show ?thesis
    using r p SCIF_TERM_ACK i by (auto simp: micscif_nodeqp_msg_handler_def scif_termack_resp_def split: if_splits)
next
  case SCIF_DISCNT_ACK
  then obtain p where p: "eps s (payload0 m) = Some p" using r by (auto simp: micscif_nodeqp_msg_handler_def scif_discntack_resp_def split: bind_splits)
  have ls: "lists_ok s" using i by (simp add: inv_but_def)
  have "keeps s (payload0 m) p (p\<lparr>state := SCIFEP_DISCONNECTED\<rparr>)"
    using m in_lists [OF ls p] SCIF_DISCNT_ACK by (auto simp: msg_ok_def keeps_def listening_def owns_def)
  from set_ep_inv [OF i p this] show ?thesis using r p SCIF_DISCNT_ACK by (simp add: micscif_nodeqp_msg_handler_def scif_discntack_resp_def)
next
  case SCIF_CLIENT_SENT
  then show ?thesis using r i by (auto simp: micscif_nodeqp_msg_handler_def scif_clientsend_resp_def split: bind_splits)
next
  case SCIF_CLIENT_RCVD
  then show ?thesis using r i by (auto simp: micscif_nodeqp_msg_handler_def scif_clientrcvd_resp_def split: bind_splits)
qed

section \<open>Zombies and nodes that are gone\<close>

lemma cleanup_scan_inv:
  assumes "inv_but A s" and "distinct es" and "set es \<subseteq> set (mi_zombie s)" and "cleanup_scan es s = Some t"
  shows "inv_but A t"
  using assms
proof (induction es arbitrary: s)
  case (Cons e es)
  obtain p where p: "eps s e = Some p" using Cons.prems(4) by (auto split: bind_splits)
  have ls: "lists_ok s" using Cons.prems(1) by (simp add: inv_but_def)
  have z: "e \<in> set (mi_zombie s)" using Cons.prems(3) by simp
  have st: "state p = SCIFEP_ZOMBIE" using z in_lists(2) [OF ls p] by simp
  let ?s = "s\<lparr>mi_zombie := remove1 e (mi_zombie s), mi_nr_zombies := mi_nr_zombies s - 1, eps := (eps s)(e := None)\<rparr>"
  have "inv_but A ?s"
    by (rule inv_delete [OF Cons.prems(1) p]) (use st z in_lists(3,4) [OF ls p] in \<open>auto simp: listening_def\<close>)
  moreover have "distinct (mi_zombie s)" using ls by (simp add: lists_ok_def)
  then have "set es \<subseteq> set (mi_zombie ?s)" using Cons.prems(2,3) by (auto simp: set_remove1_eq)
  ultimately have k: "cleanup_scan es ?s = Some t \<Longrightarrow> inv_but A t" using Cons.IH Cons.prems(2) by simp
  show ?case
  proof (cases "micscif_rma_ep_can_uninit p")
    case True
    then show ?thesis using k Cons.prems(4) p by simp
  next
    case False
    then show ?thesis using Cons.IH [OF Cons.prems(1)] Cons.prems p by simp
  qed
qed simp

lemma cleanup_inv:
  assumes "inv_but A s" and "micscif_cleanup_zombie_epd s = Some t"
  shows "inv_but A t"
  using assms cleanup_scan_inv [OF assms(1), of "mi_zombie s" t] by (auto simp: micscif_cleanup_zombie_epd_def inv_but_def lists_ok_def)

text \<open>A change of the state of the device, seen by the endpoint, keeps everything.\<close>

lemma sd_state_inv:
  assumes "inv_but A s" and "eps s e = Some p"
  shows "inv_but A (set_ep e (p\<lparr>ep_sd_state := x, rma_info := y\<rparr>) s)"
proof -
  have ls: "lists_ok s" using assms(1) by (simp add: inv_but_def)
  have "listening p \<Longrightarrow> conreqcnt p = int (length (conlist p)) \<and> length (conlist p) \<le> unat (backlog p)" using listener_counts [OF assms] by simp
  then show ?thesis using in_lists(3,4) [OF ls assms(2)] by (intro set_ep_inv [OF assms]) (auto simp: keeps_def listening_def owns_def)
qed

lemma invalidate_disconnected_inv:
  assumes "inv_but A s" and "invalidate_disconnected d es s = Some t"
  shows "inv_but A t \<and> mi_connected t = mi_connected s \<and> dev_of t = dev_of s"
  using assms
proof (induction es arbitrary: s)
  case (Cons e es)
  obtain p r where p: "eps s e = Some p" "remote_dev p = Some r" using Cons.prems(2) by (auto split: bind_splits)
  have "inv_but A (set_ep e (p\<lparr>ep_sd_state := SCIFDEV_STOPPED\<rparr>) s)" using sd_state_inv [OF Cons.prems(1) p(1), where x = SCIFDEV_STOPPED and y = "rma_info p"] by simp
  moreover have "dev_of (set_ep e (p\<lparr>ep_sd_state := SCIFDEV_STOPPED\<rparr>) s) = dev_of s" using p by (auto simp: ep_views dev_of_def)
  ultimately show ?case using Cons.IH [of s] Cons.IH [of "set_ep e (p\<lparr>ep_sd_state := SCIFDEV_STOPPED\<rparr>) s"] Cons.prems p by (auto split: if_splits)
qed simp

lemma invalidate_connected_inv:
  assumes "inv_but A s" and "distinct es" and "set es \<subseteq> set (mi_connected s)" and "invalidate_connected d es s = Some t"
  shows "inv_but A t"
  using assms
proof (induction es arbitrary: s)
  case (Cons e es)
  note i = Cons.prems(1)
  obtain p r where p: "eps s e = Some p" "remote_dev p = Some r" using Cons.prems(4) by (auto split: bind_splits)
  have e: "e \<in> set (mi_connected s)" using Cons.prems(3) by simp
  have de: "dev_of s e = Some r" using p by (simp add: dev_of_def)
  show ?case
  proof (cases "r = d")
    case True
    let ?p = "p\<lparr>state := SCIFEP_DISCONNECTED, ep_sd_state := SCIFDEV_STOPPED\<rparr>"
    obtain c where c: "put_conn_count r (s\<lparr>mi_connected := remove1 e (mi_connected s)\<rparr>) = Some (s\<lparr>mi_connected := remove1 e (mi_connected s), num_active_conn := c\<rparr>)"
        "inv_but A ((set_ep e ?p (s\<lparr>mi_connected := remove1 e (mi_connected s), num_active_conn := c\<rparr>))\<lparr>mi_disconnected := mi_disconnected s @ [e]\<rparr>)" (is "inv_but A ?s")
      using inv_connected_disconnected [OF i e de p(1), of ?p] by auto
    have "set es \<subseteq> set (mi_connected ?s)" using Cons.prems(2,3) remove1_sets(1) [OF i, of e] by auto
    from Cons.IH [OF c(2) _ this] show ?thesis using Cons.prems(2,4) p c(1) True by simp
  next
    case False
    then show ?thesis using Cons.IH [OF i] Cons.prems p by simp
  qed
qed simp

lemma invalidate_inv:
  assumes i: "inv_but A s" and r: "scif_invalidate_ep d s = Some t"
  shows "inv_but A t"
proof -
  obtain s1 where s1: "invalidate_disconnected d (mi_disconnected s) s = Some s1" "invalidate_connected d (mi_connected s1) s1 = Some t"
    using r by (auto simp: scif_invalidate_ep_def split: bind_splits)
  have "inv_but A s1" using invalidate_disconnected_inv [OF i s1(1)] by blast
  moreover from this have "distinct (mi_connected s1)" by (simp add: inv_but_def lists_ok_def)
  ultimately show ?thesis using invalidate_connected_inv [OF _ _ _ s1(2)] by blast
qed

section \<open>The state machine of a node\<close>

text \<open>
  One step is one call up to its next wait, the part of a call between two waits, or one message. New endpoints get addresses that are not in use; a close and a flush are
  made by the holder of the endpoint, so not on an accepted endpoint without a process; messages are those that the protocol allows. A run goes as far as no step
  ends in a \<open>BUG_ON\<close> or with a damaged list: \<open>SCIF_ACCEPTREG\<close> does the latter when the endpoint of the file is on a list.
\<close>

definition node_init :: "nat \<Rightarrow> nat \<Rightarrow> (nat \<Rightarrow> scif_state) \<Rightarrow> scif_node" where
  "node_init n b ds = \<lparr>mi_nodeid = n, max_board = b, eps = (\<lambda>_. None), mi_listen = [], mi_uaccept = [], mi_connected = [], mi_disconnected = [], mi_zombie = [],
     mi_nr_zombies = 0, dev_state = ds, num_active_conn = (\<lambda>_. 0), ports = scif_ports_static, outbox = []\<rparr>"

inductive ep_step :: "scif_node \<Rightarrow> scif_node \<Rightarrow> bool" where
  Open: "\<lbrakk>\<And>e. addr = Some e \<Longrightarrow> eps s e = None; scif_open addr q r s = (x, t)\<rbrakk> \<Longrightarrow> ep_step s t"
| Bind: "scif_bind capable e pn s = Some (x, t) \<Longrightarrow> ep_step s t"
| Listen: "scif_listen e b s = Some (x, t) \<Longrightarrow> ep_step s t"
| Connect: "scif_connect_begin room dma setup e dst s = Some (x, t) \<Longrightarrow> ep_step s t"
| Connect_End: "scif_connect_end room resp pe e dst s = Some (x, t) \<Longrightarrow> ep_step s t"
| Connect_Term: "scif_connect_term room e dst s = Some (x, t) \<Longrightarrow> ep_step s t"
| Connect_Term_End: "\<lbrakk>eps s e = Some p; state p \<in> {SCIFEP_CONNECTING, SCIFEP_MAPPING, SCIFEP_BOUND}; scif_connect_term_end room pe err e dst s = Some (x, t)\<rbrakk> \<Longrightarrow> ep_step s t"
| Accept: "\<lbrakk>\<And>c. acc_addr env = Some c \<Longrightarrow> eps s c = None; scif_accept_take room env e s = Some (r, t)\<rbrakk> \<Longrightarrow> ep_step s t"
| Accept_End: "scif_accept_end sync c s = Some (r, t) \<Longrightarrow> ep_step s t"
| Accept_Lost: "\<lbrakk>eps s c = Some p; state p = SCIFEP_CONNECTING; scif_accept_lost room m c s = (r, t)\<rbrakk> \<Longrightarrow> ep_step s t"
| Accept_Req: "\<lbrakk>eps s l = Some lep; listening lep; eps s c = Some cep; accepted_ep cep; c \<notin> set (mi_uaccept s);
    c \<in> set (mi_connected s) \<or> c \<in> set (mi_disconnected s); scif_acceptreq_done l c s = Some t\<rbrakk> \<Longrightarrow> ep_step s t"
| Accept_Reg: "scif_acceptreg e c s = Some (x, t) \<Longrightarrow> ep_step s t"
| Close: "\<lbrakk>eps s e = Some p; scif_close room e s = Some (b, t)\<rbrakk> \<Longrightarrow> ep_step s t"
| Close_Disconnected: "\<lbrakk>eps s e = Some p; state p \<in> {SCIFEP_CLOSING, SCIFEP_DISCONNECTED}; e \<notin> set (mi_uaccept s);
    scif_close_disconnected unreg e s = Some t\<rbrakk> \<Longrightarrow> ep_step s t"
| Close_Connected: "\<lbrakk>eps s e = Some p; state p \<in> {SCIFEP_CLOSING, SCIFEP_DISCONNECTED}; e \<notin> set (mi_uaccept s);
    scif_close_connected room unreg e s = Some (b, t)\<rbrakk> \<Longrightarrow> ep_step s t"
| Close_End: "\<lbrakk>eps s e = Some p; state p \<in> {SCIFEP_CLOSING, SCIFEP_DISCONNECTED}; scif_close_end e s = Some t\<rbrakk> \<Longrightarrow> ep_step s t"
| Flush: "\<lbrakk>eps s e = Some p; e \<notin> set (mi_uaccept s); scif_flush room e s = Some (b, t)\<rbrakk> \<Longrightarrow> ep_step s t"
| Flush_End: "\<lbrakk>eps s e = Some p; state p \<in> {SCIFEP_CONNECTED, SCIFEP_DISCONNECTED}; scif_flush_end e s = Some t\<rbrakk> \<Longrightarrow> ep_step s t"
| Message: "\<lbrakk>msg_ok s d m; micscif_nodeqp_msg_handler room mem d m s = Some t\<rbrakk> \<Longrightarrow> ep_step s t"
| Cleanup: "micscif_cleanup_zombie_epd s = Some t \<Longrightarrow> ep_step s t"
| Invalidate: "scif_invalidate_ep d s = Some t \<Longrightarrow> ep_step s t"
| Device: "ep_step s (s\<lparr>dev_state := ds\<rparr>)"
| Memory: "eps s e = Some p \<Longrightarrow> ep_step s (set_ep e (p\<lparr>rma_info := y\<rparr>) s)"

inductive ep_reach :: "scif_node \<Rightarrow> bool" where
  Init: "ep_reach (node_init n b ds)"
| Step: "ep_reach s \<Longrightarrow> ep_step s t \<Longrightarrow> ep_reach t"

lemma node_init_inv: "inv_but {} (node_init n b ds)"
  using ports_inv_static by (simp add: node_init_def inv_but_def lists_ok_def counts_ok_def accepts_but_def ports_ok_def views_def)

lemma dev_state_inv: "inv_but A (s\<lparr>dev_state := ds\<rparr>) = inv_but A s"
  using views_same [of "s\<lparr>dev_state := ds\<rparr>" s] by (simp add: inv_but_def lists_ok_def counts_ok_def accepts_but_def ports_ok_def)

lemma ep_step_inv: "ep_step s t \<Longrightarrow> inv_but {} s \<Longrightarrow> inv_but {} t"
proof (induction rule: ep_step.induct)
  case (Open addr s q r x t)
  then show ?case using open_inv [of "{}" s addr q r] by simp
next
  case (Memory s e p y)
  then show ?case using sd_state_inv [of "{}" s e p y "ep_sd_state p"] by simp
qed (auto simp: dev_state_inv intro: bind_inv listen_inv connect_begin_inv connect_end_inv connect_term_inv connect_term_end_inv accept_take_inv accept_end_inv accept_lost_inv
    acceptreq_done_inv acceptreg_inv close_inv close_disconnected_inv close_connected_inv close_end_inv flush_inv flush_end_inv handler_inv cleanup_inv invalidate_inv)

lemma ep_reach_node_inv: "ep_reach s \<Longrightarrow> inv_but {} s"
  by (induction rule: ep_reach.induct) (auto intro: node_init_inv ep_step_inv)

end
