(* ===== verification/Scif_Connect.thy ===== *)
theory Scif_Connect
  imports Scif_Endpoint_Ops
begin

text \<open>
  What the endpoints of a node promise: the invariant of all runs, ports that belong to one endpoint, disconnects that never end in a \<open>BUG_ON\<close>;
  and the messages between two nodes by which a connection is made or refused.
\<close>

section \<open>All runs\<close>


lemma reach_opened: "ep_reach (snd (scif_open (Some e) True True (node_init n b ds)))"
  by (rule ep_reach.Step [OF ep_reach.Init], rule ep_step.Open [where addr = "Some e" and q = True and r = True]) (auto simp: node_init_def prod_eq_iff)

text \<open>
  C18. In every run as above, two endpoints that are not closed and were not made by an accept never have the same port, and the port of such an endpoint is not
  in the pool of free ports.
\<close>

theorem open_ports_exclusive:
  assumes "ep_reach s" and "eps s e = Some p" "state p \<noteq> SCIFEP_ZOMBIE" "\<not> accepted_ep p" "pport (port p) \<noteq> 0"
    and "eps s e' = Some p'" "state p' \<noteq> SCIFEP_ZOMBIE" "\<not> accepted_ep p'" and "e \<noteq> e'"
  shows "pport (port p') \<noteq> pport (port p) \<and> pport (port p) \<notin> ports_free (ports s)"
proof -
  have "port_of s e = Some (pport (port p))" using assms(2-5) by (simp add: port_of_def owns_def)
  moreover have "port_of s e' = Some (pport (port p'))" if "pport (port p') = pport (port p)" using assms(5-8) that by (simp add: port_of_def owns_def)
  ultimately show ?thesis using ep_reach_node_inv [OF assms(1)] assms(9) unfolding inv_but_def ports_ok_def by metis
qed

text \<open>A node with one bound endpoint, reached without looking into the pool of ports.\<close>

definition bound_ep :: endpt where
  "bound_ep = new_endpt\<lparr>qp := True, state := SCIFEP_BOUND, port := \<lparr>pnode = 0, pport = 2000\<rparr>\<rparr>"

definition bound_node :: "scif_ports \<Rightarrow> scif_node" where
  "bound_node ps = set_ep 4096 bound_ep ((snd (scif_open (Some 4096) True True (node_init 0 1 (\<lambda>_. SCIFDEV_RUNNING))))\<lparr>ports := ps\<rparr>)"

lemmas bound_node_defs = bound_node_def bound_ep_def scif_open_def node_init_def set_ep_def new_endpt_def zero_port_def

lemma reach_bound: "\<exists>ps. ep_reach (bound_node ps)"
proof -
  let ?a = "snd (scif_open (Some 4096) True True (node_init 0 1 (\<lambda>_. SCIFDEV_RUNNING)))"
  have free: "2000 \<in> ports_free (ports ?a)" "ports_inv (ports ?a)"
    using ports_inv_static by (simp_all add: scif_open_def node_init_def ports_free_def scif_ports_static_def set_ep_def)
  obtain ps where ps: "rsrv_scif_port 2000 (ports ?a) = (2000, ps)" using scif_port.reserve_ok [OF free(2,1)] by blast
  have "scif_bind True 4096 2000 ?a = Some (Inr 2000, bound_node ps)" using ps by (simp add: scif_bind_def bound_node_defs)
  then show ?thesis by (intro exI [of _ ps] ep_reach.Step [OF reach_opened] ep_step.Bind)
qed

theorem open_ports_exclusive_witness:
  "\<exists>s p p'. ep_reach s \<and> eps s 4096 = Some p \<and> eps s 8192 = Some p' \<and> pport (port p) = 2000 \<and> pport (port p') \<noteq> pport (port p)"
proof -
  obtain ps where b: "ep_reach (bound_node ps)" using reach_bound by blast
  let ?q = "new_endpt\<lparr>qp := True, state := SCIFEP_UNBOUND\<rparr>"
  let ?c = "set_ep 8192 ?q (bound_node ps)"
  have "eps (bound_node ps) 8192 = None" by (simp add: bound_node_defs)
  then have c: "ep_reach ?c" by (intro ep_reach.Step [OF b] ep_step.Open [where addr = "Some 8192" and q = True and r = True and x = "Some 8192"]) (auto simp: scif_open_def)
  have e: "eps ?c 4096 = Some bound_ep" "eps ?c 8192 = Some ?q" by (simp_all add: bound_node_defs)
  have "pport (port ?q) \<noteq> pport (port bound_ep)"
    using open_ports_exclusive [OF c e(1) _ _ _ e(2)] by (simp add: bound_ep_def new_endpt_def)
  then show ?thesis using c e by (intro exI [of _ ?c] exI [of _ bound_ep] exI [of _ ?q]) (simp add: bound_ep_def)
qed

text \<open>
  C23. In every run as above (messages that the protocol allows, no \<open>BUG_ON\<close> and no damaged list so far), a message that the peer closes, from the node the endpoint
  is connected to, and the end of the last process that has an endpoint open find the count of connections of that node above zero: the handler and
  \<open>__scif_flush\<close> return. This includes endpoints whose close is in progress.
\<close>

theorem disconnect_returns:
  assumes "ep_reach s" and "msg_ok s d m" "uop m = SCIF_DISCNCT" and "eps s e \<noteq> None"
  shows "(\<exists>t. micscif_nodeqp_msg_handler room mem d m s = Some t) \<and> (\<exists>r. scif_flush room e s = Some r)"
proof
  note i = ep_reach_node_inv [OF assms(1)]
  have ex: "\<exists>t. put_conn_count k (s\<lparr>mi_connected := remove1 x (mi_connected s)\<rparr>) = Some t \<and> eps t = eps s" if "x \<in> set (mi_connected s)" "dev_of s x = Some k" for x k
    using connected_count(1) [OF i that] by (auto simp: put_conn_count_def)
  have d: "dev_of s (payload1 m) = Some d" if "payload1 m \<in> set (mi_connected s)" using assms(2,3) that by (simp add: msg_ok_def)
  show "\<exists>t. micscif_nodeqp_msg_handler room mem d m s = Some t"
  proof (cases "payload1 m \<in> set (mi_connected s)")
    case True
    obtain p where p: "eps s (payload1 m) = Some p" using d [OF True] by (auto simp: dev_of_def split: option.splits)
    show ?thesis using ex [OF True d [OF True]] True p assms(3) by (auto simp: micscif_nodeqp_msg_handler_def scif_discnct_resp_def)
  qed (use assms(3) in \<open>simp add: micscif_nodeqp_msg_handler_def scif_discnct_resp_def\<close>)
  obtain p where p: "eps s e = Some p" using assms(4) by blast
  show "\<exists>r. scif_flush room e s = Some r"
  proof (cases "state p = SCIFEP_CONNECTED \<and> e \<in> set (mi_connected s)")
    case True
    then obtain k where k: "dev_of s e = Some k" using i by (auto simp: inv_but_def lists_ok_def)
    then have rd: "remote_dev p = Some k" using p by (simp add: dev_of_def)
    obtain t where t: "put_conn_count k (s\<lparr>mi_connected := remove1 e (mi_connected s)\<rparr>) = Some t" "eps t e = Some p" using ex [of e k] True k p by auto
    have "\<not> on_list t e" using t(1) i True remove1_sets(1) [OF i, of e] by (auto simp: put_conn_count_def on_list_def inv_but_def lists_ok_def split: if_splits)
    moreover obtain f ms where "micscif_nodeqp_send room k (conn_msg SCIF_DISCNCT p (peer p) e (remote_ep p)) (Some p) t = (f, t\<lparr>outbox := ms\<rparr>)" using send_cases by blast
    ultimately show ?thesis using True p rd t by (cases f) (auto simp: scif_flush_def scif_flush_end_def on_list_def)
  qed (use p in \<open>auto simp: scif_flush_def\<close>)
qed

text \<open>The bound endpoint connects to node 1.\<close>

lemma reach_connected: "\<exists>s. ep_reach s \<and> mi_connected s = [4096] \<and> dev_of s 4096 = Some 1 \<and> st_of s 4096 = Some SCIFEP_CONNECTED"
proof -
  obtain ps where b: "ep_reach (bound_node ps)" using reach_bound by blast
  let ?room = "\<lambda>_ :: nat. True" and ?dst = "\<lparr>pnode = 1, pport = 9\<rparr>"
  let ?gnt = "\<lparr>msg_src = ?dst, msg_dst = zero_port, uop = SCIF_CNCT_GNT, payload0 = 4096, payload1 = 0\<rparr>"
  obtain s1 where s1: "scif_connect_begin ?room None (Inr 0) 4096 ?dst (bound_node ps) = Some (None, s1)"
      "eps s1 4096 = Some (bound_ep\<lparr>state := SCIFEP_CONNECTING, remote_dev := Some 1, ep_sd_state := SCIFDEV_RUNNING\<rparr>)" "dev_up s1 1" "mi_connected s1 = []"
    by (simp add: scif_connect_begin_def bound_node_defs dev_up_def micscif_nodeqp_send_def Let_def)
  obtain s2 where s2: "micscif_nodeqp_msg_handler ?room True 1 ?gnt s1 = Some s2" and p2: "\<exists>p. eps s2 4096 = Some p \<and> state p = SCIFEP_MAPPING \<and> remote_dev p = Some 1 \<and> ep_sd_state p = SCIFDEV_RUNNING"
      "dev_up s2 1" "mi_connected s2 = []"
    using s1(2-4) by (simp add: micscif_nodeqp_msg_handler_def scif_cnctgnt_resp_def dev_up_def set_ep_def)
  obtain s3 where s3: "scif_connect_end ?room None (Some 77) 4096 ?dst s2 = Some (None, s3)" "mi_connected s3 = [4096]" "dev_of s3 4096 = Some 1" "st_of s3 4096 = Some SCIFEP_CONNECTED"
    using p2 by (auto simp: st_of_def scif_connect_end_def connect_grant_def connect_commit_def micscif_nodeqp_send_def dev_of_def get_conn_count_def dev_up_def set_ep_def Let_def)
  have "msg_ok s1 1 ?gnt" by (simp add: msg_ok_def)
  then have "ep_reach s3" using ep_reach.Step [OF ep_reach.Step [OF ep_reach.Step [OF b ep_step.Connect [OF s1(1)]] ep_step.Message [OF _ s2]] ep_step.Connect_End [OF s3(1)]] by blast
  then show ?thesis using s3 by blast
qed


theorem disconnect_returns_witness:
  "\<exists>s m t. ep_reach s \<and> uop m = SCIF_DISCNCT \<and> payload1 m \<in> set (mi_connected s) \<and> micscif_nodeqp_msg_handler (\<lambda>_. True) True 1 m s = Some t"
proof -
  obtain s where r: "ep_reach s" "mi_connected s = [4096]" "dev_of s 4096 = Some 1" "st_of s 4096 = Some SCIFEP_CONNECTED" using reach_connected by blast
  then have s: "ep_reach s" "4096 \<in> set (mi_connected s)" "dev_of s 4096 = Some 1" "eps s 4096 \<noteq> None" by (auto simp: st_of_def)
  let ?m = "\<lparr>msg_src = \<lparr>pnode = 1, pport = 9\<rparr>, msg_dst = \<lparr>pnode = 0, pport = 2000\<rparr>, uop = SCIF_DISCNCT, payload0 = 77, payload1 = 4096\<rparr>"
  have "msg_ok s 1 ?m" using s by (simp add: msg_ok_def)
  then obtain t where "micscif_nodeqp_msg_handler (\<lambda>_. True) True 1 ?m s = Some t" using disconnect_returns [OF s(1) _ _ s(4), of 1 ?m "\<lambda>_. True" True] by auto
  then show ?thesis using s by (intro exI [of _ s] exI [of _ ?m] exI [of _ t]) simp
qed

section \<open>Two nodes\<close>

text \<open>
  The seven steps of a connection between node \<open>a\<close>, where the bound endpoint \<open>e\<close> connects, and node \<open>b\<close>, where \<open>l\<close> listens and the new endpoint gets the address \<open>c\<close>;
  \<open>dst\<close> is the port of the listener. Each message that a node sends is given to the handler of the other one. What the mapping of the server's queue pair shows the
  client is the address that the server has stored there.
\<close>

definition handshake :: "(errno + u64) \<Rightarrow> accept_env \<Rightarrow> u64 \<Rightarrow> scif_portID \<Rightarrow> u64 \<Rightarrow> scif_node \<Rightarrow> scif_node \<Rightarrow> (errno option \<times> scif_node \<times> accept_outcome \<times> scif_node) option" where
  "handshake setup env e dst l a b = do {
     let up = (\<lambda>_. True);
     (_, a) \<leftarrow> scif_connect_begin up None setup e dst a;
     b \<leftarrow> micscif_nodeqp_msg_handler up True (mi_nodeid a) (snd (last (outbox a))) b;
     (_, b) \<leftarrow> scif_accept_take up env l b;
     a \<leftarrow> micscif_nodeqp_msg_handler up True (mi_nodeid b) (snd (last (outbox b))) a;
     (r, a) \<leftarrow> scif_connect_end up None (acc_addr env) e dst a;
     b \<leftarrow> micscif_nodeqp_msg_handler up True (mi_nodeid a) (snd (last (outbox a))) b;
     c \<leftarrow> acc_addr env;
     (out, b) \<leftarrow> scif_accept_end True c b;
     Some (r, a, out, b) }"

text \<open>
  C7. When the resources are there and the listener has no older request, the messages of a connect and an accept end with both endpoints connected, each with the
  address of the other one as its remote endpoint and the port of the other one as its peer, on the list of connected endpoints and in the count of the other node.
\<close>

theorem handshake_connects:
  assumes p: "eps a e = Some p" "state p = SCIFEP_BOUND" "qp p" "pnode (port p) = mi_nodeid a" and da: "pnode dst \<le> max_board a" "dev_up a (pnode dst)"
    and l: "micscif_find_listen_ep (pport dst) b = Some l" "eps b l = Some lp" "state lp = SCIFEP_LISTENING" "conlist lp = []" "conreqcnt lp = 0" "backlog lp \<noteq> 0"
    and db: "dev_up b (mi_nodeid a)" "pnode dst = mi_nodeid b"
    and env: "setup = Inr off" "acc_addr env = Some c" "acc_rma_ok env" "acc_dma env = None" "acc_qp_ok env" "acc_setup env = Inr off'" and c: "eps b c = None"
  shows "\<exists>a' b' p' q'. handshake setup env e dst l a b = Some (None, a', Accepted c, b') \<and>
    eps a' e = Some p' \<and> state p' = SCIFEP_CONNECTED \<and> remote_ep p' = c \<and> peer p' = port q' \<and> remote_dev p' = Some (mi_nodeid b) \<and>
    eps b' c = Some q' \<and> state q' = SCIFEP_CONNECTED \<and> remote_ep q' = e \<and> peer q' = port p' \<and> remote_dev q' = Some (mi_nodeid a) \<and> port q' = port lp \<and>
    mi_connected a' = mi_connected a @ [e] \<and> num_active_conn a' (mi_nodeid b) = num_active_conn a (mi_nodeid b) + 1 \<and>
    mi_connected b' = mi_connected b @ [c] \<and> num_active_conn b' (mi_nodeid a) = num_active_conn b (mi_nodeid a) + 1"
proof -
  let ?up = "\<lambda>_ :: nat. True"
  define p1 where "p1 = p\<lparr>state := SCIFEP_CONNECTING, remote_dev := Some (pnode dst), ep_sd_state := SCIFDEV_RUNNING, qp_offset := off\<rparr>"
  define req where "req = conn_msg SCIF_CNCT_REQ p1 dst e off"
  define a1 where "a1 = (set_ep e p1 a)\<lparr>outbox := outbox a @ [(pnode dst, req)]\<rparr>"
  have s1: "scif_connect_begin ?up None setup e dst a = Some (None, a1)"
    using p da env by (simp add: scif_connect_begin_def a1_def req_def p1_def micscif_nodeqp_send_def dev_up_def set_ep_def Let_def)
  define b1 where "b1 = set_ep l (lp\<lparr>conlist := [req], conreqcnt := 1\<rparr>) b"
  have req: "pport (msg_dst req) = pport dst" "msg_src req = port p" "payload0 req = e" "uop req = SCIF_CNCT_REQ" by (simp_all add: req_def conn_msg_def p1_def)
  have "unat (backlog lp) \<noteq> 0" using l(6) unsigned_eq_0_iff by blast
  then have "\<not> int (unat (backlog lp)) \<le> 0" by linarith
  then have s2: "micscif_nodeqp_msg_handler ?up True (mi_nodeid a1) (snd (last (outbox a1))) b = Some b1"
    using l req by (simp add: micscif_nodeqp_msg_handler_def scif_cnctreq_resp_def b1_def a1_def)
  define q1 where "q1 = new_endpt\<lparr>state := SCIFEP_CONNECTING, remote_dev := Some (mi_nodeid a), remote_ep := e, ep_sd_state := SCIFDEV_RUNNING,
      qp := True, qp_offset := off', port := port lp, peer := port p, accepted_ep := True\<rparr>"
  define gnt where "gnt = conn_msg SCIF_CNCT_GNT q1 zero_port e off'"
  define b2 where "b2 = (set_ep c q1 (set_ep l (lp\<lparr>conlist := [], conreqcnt := 0\<rparr>) b))\<lparr>outbox := outbox b @ [(mi_nodeid a, gnt)]\<rparr>"
  have ne: "c \<noteq> l" using l c by auto
  have s3: "scif_accept_take ?up env l b1 = Some (Accept_Wait_Peer c req, b2)"
    using l env req p(4) db ne by (auto simp: scif_accept_take_def b1_def b2_def gnt_def q1_def micscif_nodeqp_send_def dev_up_def Let_def set_ep_def new_endpt_def)
  define p2 where "p2 = p1\<lparr>peer := port lp, cnct_gnt_payload := off', state := SCIFEP_MAPPING\<rparr>"
  define a2 where "a2 = set_ep e p2 a1"
  have s4: "micscif_nodeqp_msg_handler ?up True (mi_nodeid b2) (snd (last (outbox b2))) a1 = Some a2"
    by (simp add: micscif_nodeqp_msg_handler_def b2_def gnt_def conn_msg_def scif_cnctgnt_resp_def a1_def a2_def p2_def p1_def q1_def set_ep_def)
  define p3 where "p3 = p2\<lparr>remote_ep := c\<rparr>"
  define ack where "ack = conn_msg SCIF_CNCT_GNTACK p3 dst c off"
  define a3 where "a3 = get_conn_count (pnode dst) ((set_ep e (p3\<lparr>state := SCIFEP_CONNECTED\<rparr>) (a2\<lparr>outbox := outbox a2 @ [(pnode dst, ack)]\<rparr>))\<lparr>mi_connected := mi_connected a @ [e]\<rparr>)"
  have s5: "scif_connect_end ?up None (acc_addr env) e dst a2 = Some (None, a3)"
    using da env by (simp add: scif_connect_end_def connect_grant_def connect_commit_def a3_def ack_def p3_def a2_def a1_def p2_def p1_def micscif_nodeqp_send_def dev_up_def Let_def set_ep_def)
  define q2 where "q2 = q1\<lparr>state := SCIFEP_CONNECTED\<rparr>"
  define b3 where "b3 = get_conn_count (mi_nodeid a) ((set_ep c q2 b2)\<lparr>mi_connected := mi_connected b @ [c]\<rparr>)"
  have s6: "micscif_nodeqp_msg_handler ?up True (mi_nodeid a3) (snd (last (outbox a3))) b2 = Some b3"
    by (simp add: micscif_nodeqp_msg_handler_def a3_def get_conn_count_def ack_def conn_msg_def scif_cnctgntack_resp_def b3_def b2_def q2_def set_ep_def a2_def a1_def)
  have s7: "scif_accept_end True c b3 = Some (Accepted c, b3)" by (simp add: scif_accept_end_def b3_def q2_def get_conn_count_def)
  have h: "handshake setup env e dst l a b = Some (None, a3, Accepted c, b3)"
    unfolding handshake_def Let_def using s1 s2 s3 s4 s5 s6 s7 env(2) by simp
  have fin: "eps a3 e = Some (p3\<lparr>state := SCIFEP_CONNECTED\<rparr>)" "eps b3 c = Some q2" "mi_connected a3 = mi_connected a @ [e]" "mi_connected b3 = mi_connected b @ [c]"
      "num_active_conn a3 (mi_nodeid b) = num_active_conn a (mi_nodeid b) + 1" "num_active_conn b3 (mi_nodeid a) = num_active_conn b (mi_nodeid a) + 1"
    using db(2) by (simp_all add: a3_def b3_def get_conn_count_def a2_def a1_def b2_def)
  show ?thesis using h fin db(2)
    by (intro exI [of _ a3] exI [of _ b3] exI [of _ "p3\<lparr>state := SCIFEP_CONNECTED\<rparr>"] exI [of _ q2]) (simp add: p3_def p2_def p1_def q2_def q1_def)
qed

definition listen_ep :: endpt where
  "listen_ep = new_endpt\<lparr>state := SCIFEP_LISTENING, port := \<lparr>pnode = 1, pport = 9\<rparr>, backlog := 1\<rparr>"

definition listen_node :: scif_node where
  "listen_node = (node_init 1 1 (\<lambda>_. SCIFDEV_RUNNING))\<lparr>eps := [512 \<mapsto> listen_ep], mi_listen := [512]\<rparr>"

theorem handshake_connects_witness:
  "\<exists>a' b' p' q'. handshake (Inr 0) \<lparr>acc_addr = Some 1024, acc_rma_ok = True, acc_dma = None, acc_qp_ok = True, acc_setup = Inr 64\<rparr> 4096 \<lparr>pnode = 1, pport = 9\<rparr> 512
      (bound_node scif_ports_static) listen_node = Some (None, a', Accepted 1024, b') \<and>
    eps a' 4096 = Some p' \<and> state p' = SCIFEP_CONNECTED \<and> eps b' 1024 = Some q' \<and> state q' = SCIFEP_CONNECTED \<and> peer q' = port p'"
  using handshake_connects [of "bound_node scif_ports_static" 4096 bound_ep "\<lparr>pnode = 1, pport = 9\<rparr>" listen_node 512 listen_ep "Inr 0" 0
      "\<lparr>acc_addr = Some 1024, acc_rma_ok = True, acc_dma = None, acc_qp_ok = True, acc_setup = Inr 64\<rparr>" 1024 64]
  by (fastforce simp: bound_node_defs listen_node_def listen_ep_def micscif_find_listen_ep_def dev_up_def)

text \<open>
  C36. A connect to a port where nobody listens, or whose listener has as many requests as its backlog, is refused: the handler of the request sends it back as a rejection,
  and with that the connect returns \<open>ECONNREFUSED\<close>, the endpoint is bound again and the other node is unchanged but for the message.
\<close>

theorem connect_refused:
  assumes p: "eps a e = Some p" "state p = SCIFEP_BOUND" "qp p" "pnode (port p) = mi_nodeid a" and da: "pnode dst \<le> max_board a" "dev_up a (pnode dst)" "room (pnode dst)"
    and db: "dev_up b (mi_nodeid a)" "room' (mi_nodeid a)"
    and no: "\<forall>l lp. micscif_find_listen_ep (pport dst) b = Some l \<longrightarrow> eps b l = Some lp \<longrightarrow> int (unat (backlog lp)) \<le> conreqcnt lp"
    and ex: "\<forall>l. micscif_find_listen_ep (pport dst) b = Some l \<longrightarrow> eps b l \<noteq> None"
  shows "\<exists>a1 m a2 p2. scif_connect_begin room None (Inr off) e dst a = Some (None, a1) \<and> outbox a1 = outbox a @ [(pnode dst, m)] \<and>
    micscif_nodeqp_msg_handler room' mem (mi_nodeid a) m b = Some (b\<lparr>outbox := outbox b @ [(mi_nodeid a, m\<lparr>uop := SCIF_CNCT_REJ\<rparr>)]\<rparr>) \<and>
    micscif_nodeqp_msg_handler room mem' (pnode dst) (m\<lparr>uop := SCIF_CNCT_REJ\<rparr>) a1 = Some a2 \<and>
    scif_connect_end room resp pe e dst a2 = Some (Some ECONNREFUSED, a2) \<and> eps a2 e = Some p2 \<and> state p2 = SCIFEP_BOUND"
proof -
  define p1 where "p1 = p\<lparr>state := SCIFEP_CONNECTING, remote_dev := Some (pnode dst), ep_sd_state := SCIFDEV_RUNNING, qp_offset := off\<rparr>"
  define m where "m = conn_msg SCIF_CNCT_REQ p1 dst e off"
  define a1 where "a1 = (set_ep e p1 a)\<lparr>outbox := outbox a @ [(pnode dst, m)]\<rparr>"
  have s1: "scif_connect_begin room None (Inr off) e dst a = Some (None, a1)"
    using p da by (simp add: scif_connect_begin_def a1_def m_def p1_def micscif_nodeqp_send_def dev_up_def set_ep_def Let_def)
  have m: "pport (msg_dst m) = pport dst" "pnode (msg_src m) = mi_nodeid a" "payload0 m = e" "uop m = SCIF_CNCT_REQ" using p(4) by (simp_all add: m_def conn_msg_def p1_def)
  have rej: "snd (micscif_nodeqp_send room' (mi_nodeid a) (m\<lparr>uop := SCIF_CNCT_REJ\<rparr>) None b) = b\<lparr>outbox := outbox b @ [(mi_nodeid a, m\<lparr>uop := SCIF_CNCT_REJ\<rparr>)]\<rparr>"
    using db by (simp add: micscif_nodeqp_send_def)
  have s2: "micscif_nodeqp_msg_handler room' mem (mi_nodeid a) m b = Some (b\<lparr>outbox := outbox b @ [(mi_nodeid a, m\<lparr>uop := SCIF_CNCT_REJ\<rparr>)]\<rparr>)"
  proof (cases "micscif_find_listen_ep (pport dst) b")
    case None
    then show ?thesis using m rej by (simp add: micscif_nodeqp_msg_handler_def scif_cnctreq_resp_def Let_def)
  next
    case (Some l)
    then obtain lp where "eps b l = Some lp" "int (unat (backlog lp)) \<le> conreqcnt lp" using no ex by blast
    then show ?thesis using Some m rej by (simp add: micscif_nodeqp_msg_handler_def scif_cnctreq_resp_def Let_def)
  qed
  define a2 where "a2 = set_ep e (p1\<lparr>state := SCIFEP_BOUND\<rparr>) a1"
  have s3: "micscif_nodeqp_msg_handler room mem' (pnode dst) (m\<lparr>uop := SCIF_CNCT_REJ\<rparr>) a1 = Some a2"
    using m by (simp add: micscif_nodeqp_msg_handler_def scif_cnctrej_resp_def a1_def a2_def p1_def set_ep_def)
  have s4: "scif_connect_end room resp pe e dst a2 = Some (Some ECONNREFUSED, a2)" by (simp add: scif_connect_end_def a2_def)
  show ?thesis using s1 s2 s3 s4 by (intro exI [of _ a1] exI [of _ m] exI [of _ a2] exI [of _ "p1\<lparr>state := SCIFEP_BOUND\<rparr>"]) (simp add: a1_def a2_def)
qed

theorem connect_refused_witness:
  "\<exists>a1 a2. scif_connect_begin (\<lambda>_. True) None (Inr 0) 4096 \<lparr>pnode = 1, pport = 10\<rparr> (bound_node scif_ports_static) = Some (None, a1) \<and>
    scif_connect_end (\<lambda>_. True) None None 4096 \<lparr>pnode = 1, pport = 10\<rparr> a2 = Some (Some ECONNREFUSED, a2)"
  using connect_refused [of "bound_node scif_ports_static" 4096 bound_ep "\<lparr>pnode = 1, pport = 10\<rparr>" "\<lambda>_. True" listen_node "\<lambda>_. True" 0 True True None None]
  by (fastforce simp: bound_node_defs listen_node_def listen_ep_def micscif_find_listen_ep_def dev_up_def)

section \<open>Where the code does less than it means to\<close>

text \<open>
  \<open>SCIF_ACCEPTREG\<close> on a file whose own endpoint is on a list, for instance connected, makes the endpoint a zombie without taking it off the list first: both lists are
  damaged.
\<close>

theorem acceptreg_listed:
  assumes "c \<in> set (mi_uaccept s)" "eps s c = Some p" "listenep p = Some l" "eps s l = Some lep" and "e \<in> set (mi_connected s)"
  shows "scif_acceptreg e c s = None"
  using assms by (auto simp: scif_acceptreg_def Let_def micscif_add_epd_to_zombie_list_def on_list_def split: bind_splits)

text \<open>
  The answer to a disconnect that comes after the close has given up its wait finds a zombie, and changes its state: the endpoint stays on the list of zombies, but its state says that
  it is disconnected.
\<close>

theorem discntack_zombie:
  assumes "ep_reach s" and "e \<in> set (mi_zombie s)" and "uop m = SCIF_DISCNT_ACK" "payload0 m = e"
  shows "\<exists>t. micscif_nodeqp_msg_handler room mem d m s = Some t \<and> e \<in> set (mi_zombie t) \<and> st_of t e = Some SCIFEP_DISCONNECTED"
proof -
  obtain p where "eps s e = Some p" using ep_reach_node_inv [OF assms(1)] assms(2) by (auto simp: inv_but_def lists_ok_def st_of_def)
  then show ?thesis using assms(2-4) by (simp add: micscif_nodeqp_msg_handler_def scif_discntack_resp_def ep_views)
qed

lemma find_snoc: "find P xs = None \<Longrightarrow> find P (xs @ [x]) = (if P x then Some x else None)"
  by (induction xs) auto

text \<open>
  A listener with a backlog of 256, the first value that the eight bits of the field do not hold, is put on the list without an error, and after that no
  request for its port gets in: every one is sent back as a rejection.
\<close>

theorem listen_256_rejects:
  assumes "eps s e = Some p" "state p = SCIFEP_BOUND" and "micscif_find_listen_ep (pport (port p)) s = None" "e \<notin> set (mi_listen s)"
    and "pport (msg_dst m) = pport (port p)" and "dev_up s (pnode (msg_src m))" "room (pnode (msg_src m))"
  shows "\<exists>t. scif_listen e 256 s = Some (None, t) \<and> e \<in> set (mi_listen t) \<and>
    scif_cnctreq_resp room mem m t = Some (t\<lparr>outbox := outbox t @ [(pnode (msg_src m), m\<lparr>uop := SCIF_CNCT_REJ\<rparr>)]\<rparr>)"
proof -
  let ?p = "micscif_teardown_ep (p\<lparr>state := SCIFEP_LISTENING, backlog := ucast (256 :: u32), conreqcnt := 0, acceptcnt := 0, conlist := [], li_accept := []\<rparr>)"
  let ?t = "(set_ep e ?p s)\<lparr>mi_listen := mi_listen s @ [e]\<rparr>"
  have t: "scif_listen e 256 s = Some (None, ?t)" using assms(1,2) by (simp add: scif_listen_def Let_def)
  have "\<not> (case eps ?t x of Some q \<Rightarrow> pport (port q) = pport (port p) | None \<Rightarrow> False)" if "x \<in> set (mi_listen s)" for x
    using assms(3,4) that by (auto simp: micscif_find_listen_ep_def find_None_iff)
  then have "find (\<lambda>x. case eps ?t x of Some q \<Rightarrow> pport (port q) = pport (port p) | None \<Rightarrow> False) (mi_listen s) = None" by (auto simp: find_None_iff)
  then have f: "micscif_find_listen_ep (pport (port p)) ?t = Some e" unfolding micscif_find_listen_ep_def by (simp add: find_snoc micscif_teardown_ep_def)
  have b: "backlog ?p = 0" "conreqcnt ?p = 0" by (simp_all add: micscif_teardown_ep_def)
  have "dev_up ?t (pnode (msg_src m))" using assms(6) by (simp add: dev_up_def set_ep_def)
  then have "scif_cnctreq_resp room mem m ?t = Some (?t\<lparr>outbox := outbox ?t @ [(pnode (msg_src m), m\<lparr>uop := SCIF_CNCT_REJ\<rparr>)]\<rparr>)"
    using f b assms(5,7) by (simp add: scif_cnctreq_resp_def micscif_nodeqp_send_def Let_def)
  then show ?thesis using t by (intro exI [of _ ?t]) simp
qed

text \<open>
  When the request of a connect cannot be sent, the call returns the error and the endpoint stays in the state of connecting: a further connect or a listen returns \<open>EISCONN\<close>,
  a further bind too. The other two errors on the way put the endpoint back into the bound state.
\<close>

theorem connect_send_fails:
  assumes "eps s e = Some p" "state p = SCIFEP_BOUND" "qp p" "pnode dst \<le> max_board s" "dev_up s (pnode dst)" "\<not> room (pnode dst)"
    and "pnode dst' \<le> max_board s" "dev_up s (pnode dst')"
  shows "\<exists>t. scif_connect_begin room None (Inr off) e dst s = Some (Some ENODEV, t) \<and> outbox t = outbox s \<and>
    scif_connect_begin room' None (Inr off') e dst' t = Some (Some EISCONN, t) \<and> scif_listen e n t = Some (Some EISCONN, t) \<and> scif_bind True e pn t = Some (Inl EISCONN, t)"
proof -
  let ?p = "p\<lparr>state := SCIFEP_CONNECTING, remote_dev := Some (pnode dst), ep_sd_state := SCIFDEV_RUNNING, qp_offset := off\<rparr>"
  have "scif_connect_begin room None (Inr off) e dst s = Some (Some ENODEV, set_ep e ?p s)"
    using assms by (simp add: scif_connect_begin_def micscif_nodeqp_send_def dev_up_def set_ep_def Let_def)
  moreover have "scif_connect_begin room' None (Inr off') e dst' (set_ep e ?p s) = Some (Some EISCONN, set_ep e ?p s)"
    using assms(7,8) by (auto simp: scif_connect_begin_def dev_up_def)
  moreover have "scif_listen e n (set_ep e ?p s) = Some (Some EISCONN, set_ep e ?p s)" "scif_bind True e pn (set_ep e ?p s) = Some (Inl EISCONN, set_ep e ?p s)"
    by (simp_all add: scif_listen_def scif_bind_def)
  ultimately show ?thesis by (intro exI [of _ "set_ep e ?p s"]) simp
qed

theorem connect_send_fails_witness:
  "\<exists>t. scif_connect_begin (\<lambda>_. False) None (Inr 0) 4096 \<lparr>pnode = 1, pport = 9\<rparr> (bound_node scif_ports_static) = Some (Some ENODEV, t) \<and>
    scif_connect_begin (\<lambda>_. True) None (Inr 0) 4096 \<lparr>pnode = 1, pport = 9\<rparr> t = Some (Some EISCONN, t)"
  using connect_send_fails [of "bound_node scif_ports_static" 4096 bound_ep "\<lparr>pnode = 1, pport = 9\<rparr>" "\<lambda>_. False" "\<lparr>pnode = 1, pport = 9\<rparr>" 0 "\<lambda>_. True" 0 5 6]
  by (fastforce simp: bound_node_defs dev_up_def)

theorem listen_256_rejects_witness:
  "\<exists>t. scif_listen 4096 256 (bound_node scif_ports_static) = Some (None, t) \<and> 4096 \<in> set (mi_listen t) \<and>
    scif_cnctreq_resp (\<lambda>_. True) True \<lparr>msg_src = \<lparr>pnode = 1, pport = 9\<rparr>, msg_dst = \<lparr>pnode = 0, pport = 2000\<rparr>, uop = SCIF_CNCT_REQ, payload0 = 7, payload1 = 0\<rparr> t =
      Some (t\<lparr>outbox := outbox t @ [(1, \<lparr>msg_src = \<lparr>pnode = 1, pport = 9\<rparr>, msg_dst = \<lparr>pnode = 0, pport = 2000\<rparr>, uop = SCIF_CNCT_REJ, payload0 = 7, payload1 = 0\<rparr>)]\<rparr>)"
  using listen_256_rejects [of "bound_node scif_ports_static" 4096 bound_ep "\<lparr>msg_src = \<lparr>pnode = 1, pport = 9\<rparr>, msg_dst = \<lparr>pnode = 0, pport = 2000\<rparr>, uop = SCIF_CNCT_REQ, payload0 = 7, payload1 = 0\<rparr>" "\<lambda>_. True" True]
  by (fastforce simp: bound_node_defs dev_up_def micscif_find_listen_ep_def)

text \<open>
  A withdrawn request is looked up by the address of the connecting endpoint alone, which is a number of the sender's memory: the request of another node that has the same
  number, and came first, is taken out, and the one that was withdrawn stays in the queue.
\<close>

theorem cnctterm_takes_other_node:
  assumes "micscif_find_listen_ep (pport (msg_dst m)) s = Some e" "eps s e = Some p" "conlist p = r # r' # ms" and "payload0 r = payload0 m" "pnode (msg_src r) \<noteq> pnode (msg_src m)"
    "r' = m\<lparr>uop := SCIF_CNCT_REQ\<rparr>"
  shows "\<exists>t q. scif_cnctterm_resp room m s = Some t \<and> eps t e = Some q \<and> conlist q = r' # ms"
proof -
  let ?q = "p\<lparr>conlist := r' # ms, conreqcnt := conreqcnt p - 1\<rparr>"
  obtain x where "snd (micscif_nodeqp_send room (pnode (msg_src m)) (m\<lparr>uop := SCIF_TERM_ACK\<rparr>) None (set_ep e ?q s)) = (set_ep e ?q s)\<lparr>outbox := x\<rparr>" using send_result by blast
  then have "scif_cnctterm_resp room m s = Some ((set_ep e ?q s)\<lparr>outbox := x\<rparr>)"
    using assms(1-4) by (simp add: scif_cnctterm_resp_def miscscif_get_connection_request_def)
  then show ?thesis by (intro exI [of _ "(set_ep e ?q s)\<lparr>outbox := x\<rparr>"] exI [of _ ?q]) simp
qed

theorem cnctterm_takes_other_node_witness:
  "\<exists>t q. scif_cnctterm_resp (\<lambda>_. True) \<lparr>msg_src = \<lparr>pnode = 2, pport = 5\<rparr>, msg_dst = \<lparr>pnode = 1, pport = 9\<rparr>, uop = SCIF_CNCT_TERM, payload0 = 7, payload1 = 0\<rparr>
      ((node_init 1 2 (\<lambda>_. SCIFDEV_RUNNING))\<lparr>mi_listen := [512], eps := [512 \<mapsto> listen_ep\<lparr>conlist :=
        [\<lparr>msg_src = \<lparr>pnode = 0, pport = 5\<rparr>, msg_dst = \<lparr>pnode = 1, pport = 9\<rparr>, uop = SCIF_CNCT_REQ, payload0 = 7, payload1 = 0\<rparr>,
         \<lparr>msg_src = \<lparr>pnode = 2, pport = 5\<rparr>, msg_dst = \<lparr>pnode = 1, pport = 9\<rparr>, uop = SCIF_CNCT_REQ, payload0 = 7, payload1 = 0\<rparr>]\<rparr>]\<rparr>) = Some t \<and>
    eps t 512 = Some q \<and> conlist q = [\<lparr>msg_src = \<lparr>pnode = 2, pport = 5\<rparr>, msg_dst = \<lparr>pnode = 1, pport = 9\<rparr>, uop = SCIF_CNCT_REQ, payload0 = 7, payload1 = 0\<rparr>]"
proof (rule cnctterm_takes_other_node)
  let ?r = "\<lparr>msg_src = \<lparr>pnode = 0, pport = 5\<rparr>, msg_dst = \<lparr>pnode = 1, pport = 9\<rparr>, uop = SCIF_CNCT_REQ, payload0 = 7, payload1 = 0\<rparr>"
  let ?r' = "\<lparr>msg_src = \<lparr>pnode = 2, pport = 5\<rparr>, msg_dst = \<lparr>pnode = 1, pport = 9\<rparr>, uop = SCIF_CNCT_REQ, payload0 = 7, payload1 = 0\<rparr>"
  show "conlist (listen_ep\<lparr>conlist := [?r, ?r']\<rparr>) = [?r, ?r']" by simp
qed (simp_all add: micscif_find_listen_ep_def listen_ep_def node_init_def)

end
