(* ===== verification/Ring_Buffer.thy ===== *)
theory Ring_Buffer
  imports Scif_Prelude
begin

text \<open>
  The byte ring buffer shared by host and card (\<open>micscif_rb.c\<close>, \<open>mic/micscif_rb.h\<close>).
  A context \<open>micscif_rb\<close> caches the two offsets; the memory the pointers \<open>rb_base\<close>,
  \<open>read_ptr\<close> and \<open>write_ptr\<close> of the context refer to is a separate record, because two contexts
  (producer and consumer, one on each side of the bus) refer to the same memory. The second store
  to the same cell that the card build adds (\<open>CONFIG_MK1OM\<close> with \<open>_MIC_SCIF_\<close>) writes the same value
  again and is not repeated here; fences order accesses and have no counterpart in a sequence
  of steps.
\<close>

section \<open>Contexts and shared memory\<close>

record rb_mem =
  rb_base :: "u8 list"
  read_ptr :: u32
  write_ptr :: u32

record micscif_rb =
  rb_size :: u32
  current_read_offset :: u32
  current_write_offset :: u32
  old_current_read_offset :: u32
  old_current_write_offset :: u32

text \<open>\<open>None\<close> is the \<open>BUG_ON\<close> of a size that is not a power of two.\<close>

definition micscif_rb_init :: "micscif_rb \<Rightarrow> rb_mem \<Rightarrow> u32 \<Rightarrow> micscif_rb option" where
  "micscif_rb_init rb m sz =
     (if sz AND (sz - 1) \<noteq> 0 then None
      else Some (rb\<lparr>rb_size := sz, current_read_offset := read_ptr m,
                   current_write_offset := write_ptr m\<rparr>))"

definition micscif_rb_reset :: "micscif_rb \<Rightarrow> rb_mem \<Rightarrow> micscif_rb \<times> rb_mem" where
  "micscif_rb_reset rb m =
     (let m' = m\<lparr>read_ptr := 0, write_ptr := 0\<rparr>
      in (rb\<lparr>current_write_offset := write_ptr m', current_read_offset := read_ptr m'\<rparr>, m'))"

section \<open>Copies with wrap-around\<close>

text \<open>\<open>header\<close> is the offset of the header pointer from \<open>rb_base\<close>.\<close>

definition memcpy_torb :: "micscif_rb \<Rightarrow> u8 list \<Rightarrow> nat \<Rightarrow> u8 list \<Rightarrow> u32 \<Rightarrow> u8 list option" where
  "memcpy_torb rb base header msg sz =
     (if header + unat sz \<ge> unat (rb_size rb) then
        (let size1 = rb_size rb - of_nat header; size2 = sz - size1 in
         do { part1 \<leftarrow> memcpy_fromio msg 0 (unat size1);
              base1 \<leftarrow> memcpy_toio base header part1;
              part2 \<leftarrow> memcpy_fromio msg (unat size1) (unat size2);
              memcpy_toio base1 0 part2 })
      else do { part \<leftarrow> memcpy_fromio msg 0 (unat sz); memcpy_toio base header part })"

definition memcpy_fromrb :: "micscif_rb \<Rightarrow> u8 list \<Rightarrow> nat \<Rightarrow> u32 \<Rightarrow> u8 list option" where
  "memcpy_fromrb rb base header sz =
     (if header + unat sz \<ge> unat (rb_size rb) then
        (let size1 = rb_size rb - of_nat header; size2 = sz - size1 in
         do { part1 \<leftarrow> memcpy_fromio base header (unat size1);
              part2 \<leftarrow> memcpy_fromio base 0 (unat size2);
              Some (part1 @ part2) })
      else memcpy_fromio base header (unat sz))"

section \<open>Writer operations\<close>

definition micscif_rb_space :: "micscif_rb \<Rightarrow> rb_mem \<Rightarrow> u32 \<times> micscif_rb" where
  "micscif_rb_space rb m =
     (let rb' = rb\<lparr>old_current_read_offset := current_read_offset rb,
                  current_read_offset := read_ptr m\<rparr>
      in (CIRC_SPACE (current_write_offset rb') (current_read_offset rb') (rb_size rb'), rb'))"

definition micscif_rb_write ::
  "micscif_rb \<Rightarrow> rb_mem \<Rightarrow> u8 list \<Rightarrow> u32 \<Rightarrow> ((errno + unit) \<times> micscif_rb \<times> rb_mem) option" where
  "micscif_rb_write rb m msg sz =
     (case micscif_rb_space rb m of (space, rb1) \<Rightarrow>
        if space < sz then Some (Inl ENOMEM, rb1, m)
        else do {
          base' \<leftarrow> memcpy_torb rb1 (rb_base m) (unat (current_write_offset rb1)) msg sz;
          Some (Inr (),
                rb1\<lparr>old_current_write_offset := current_write_offset rb1,
                    current_write_offset := (current_write_offset rb1 + sz) AND (rb_size rb1 - 1)\<rparr>,
                m\<lparr>rb_base := base'\<rparr>) })"

definition micscif_rb_commit :: "micscif_rb \<Rightarrow> rb_mem \<Rightarrow> rb_mem" where
  "micscif_rb_commit rb m = m\<lparr>write_ptr := current_write_offset rb\<rparr>"

section \<open>Reader operations\<close>

definition micscif_rb_count :: "micscif_rb \<Rightarrow> rb_mem \<Rightarrow> u32 \<Rightarrow> u32 \<times> micscif_rb" where
  "micscif_rb_count rb m sz =
     (let rb' = (if CIRC_CNT (current_write_offset rb) (current_read_offset rb) (rb_size rb) < sz
                 then rb\<lparr>old_current_write_offset := current_write_offset rb,
                         current_write_offset := write_ptr m\<rparr>
                 else rb)
      in (CIRC_CNT (current_write_offset rb') (current_read_offset rb') (rb_size rb'), rb'))"

text \<open>The header of the next packet as an offset into \<open>rb_base\<close>, \<open>None\<close> for \<open>NULL\<close>.\<close>

definition micscif_rb_get :: "micscif_rb \<Rightarrow> rb_mem \<Rightarrow> u32 \<Rightarrow> nat option \<times> micscif_rb" where
  "micscif_rb_get rb m sz =
     (case micscif_rb_count rb m sz of (cnt, rb1) \<Rightarrow>
        (if cnt \<ge> sz then Some (unat (current_read_offset rb1)) else None, rb1))"

text \<open>The number of bytes read, the bytes stored to the caller's buffer, the new context.\<close>

definition micscif_rb_get_next ::
  "micscif_rb \<Rightarrow> rb_mem \<Rightarrow> u32 \<Rightarrow> (u32 \<times> u8 list \<times> micscif_rb) option" where
  "micscif_rb_get_next rb m sz =
     (case micscif_rb_get rb m sz of
        (None, rb1) \<Rightarrow> Some (0, [], rb1)
      | (Some header, rb1) \<Rightarrow>
          (let next_cmd_offset = (current_read_offset rb1 + sz) AND (rb_size rb1 - 1);
               rb2 = rb1\<lparr>old_current_read_offset := current_read_offset rb1,
                         current_read_offset := next_cmd_offset\<rparr>
           in do { bs \<leftarrow> memcpy_fromrb rb2 (rb_base m) header sz; Some (sz, bs, rb2) }))"

definition micscif_rb_update_read_ptr :: "micscif_rb \<Rightarrow> rb_mem \<Rightarrow> rb_mem" where
  "micscif_rb_update_read_ptr rb m = m\<lparr>read_ptr := current_read_offset rb\<rparr>"

definition micscif_rb_get_version :: u16 where
  "micscif_rb_get_version = 1"

lemmas rb_op_defs = micscif_rb_space_def micscif_rb_write_def micscif_rb_commit_def
  micscif_rb_count_def micscif_rb_get_def micscif_rb_get_next_def micscif_rb_update_read_ptr_def

section \<open>A producer and a consumer on one buffer\<close>

text \<open>
  The two contexts of a queue and their shared memory, with the history the correctness
  statements speak about: the bytes written and received so far, and how many of them have
  been published by \<open>micscif_rb_commit\<close> and released by \<open>micscif_rb_update_read_ptr\<close>.
\<close>

record rb_sys =
  producer :: micscif_rb
  consumer :: micscif_rb
  shared :: rb_mem
  sent :: "u8 list"
  rcvd :: "u8 list"
  committed :: nat
  released :: nat

definition rb_zero :: micscif_rb where
  "rb_zero = \<lparr>rb_size = 0, current_read_offset = 0, current_write_offset = 0,
              old_current_read_offset = 0, old_current_write_offset = 0\<rparr>"

text \<open>Both sides run \<open>micscif_rb_init\<close> on a zeroed buffer of the given size.\<close>

definition rb_sys_init :: "u32 \<Rightarrow> rb_sys option" where
  "rb_sys_init sz =
     (let m = \<lparr>rb_base = replicate (unat sz) 0, read_ptr = 0, write_ptr = 0\<rparr> in
      do { p \<leftarrow> micscif_rb_init rb_zero m sz;
           c \<leftarrow> micscif_rb_init rb_zero m sz;
           Some \<lparr>producer = p, consumer = c, shared = m, sent = [], rcvd = [],
                 committed = 0, released = 0\<rparr> })"

inductive rb_step :: "rb_sys \<Rightarrow> rb_sys \<Rightarrow> bool" where
  rb_wr: "micscif_rb_write (producer s) (shared s) msg n = Some (Inr (), p', m') \<Longrightarrow>
    rb_step s (s\<lparr>producer := p', shared := m', sent := sent s @ take (unat n) msg\<rparr>)"
| rb_wr_full: "micscif_rb_write (producer s) (shared s) msg n = Some (Inl e, p', m') \<Longrightarrow>
    rb_step s (s\<lparr>producer := p', shared := m'\<rparr>)"
| rb_sp: "micscif_rb_space (producer s) (shared s) = (k, p') \<Longrightarrow> rb_step s (s\<lparr>producer := p'\<rparr>)"
| rb_ci: "rb_step s (s\<lparr>shared := micscif_rb_commit (producer s) (shared s),
                       committed := length (sent s)\<rparr>)"
| rb_ct: "micscif_rb_count (consumer s) (shared s) n = (k, c') \<Longrightarrow> rb_step s (s\<lparr>consumer := c'\<rparr>)"
| rb_rd: "micscif_rb_get_next (consumer s) (shared s) n = Some (r, bs, c') \<Longrightarrow>
    rb_step s (s\<lparr>consumer := c', rcvd := rcvd s @ bs\<rparr>)"
| rb_upd: "rb_step s (s\<lparr>shared := micscif_rb_update_read_ptr (consumer s) (shared s),
                                released := length (rcvd s)\<rparr>)"

inductive rb_reach :: "u32 \<Rightarrow> rb_sys \<Rightarrow> bool" for sz where
  start: "rb_sys_init sz = Some s \<Longrightarrow> rb_reach sz s"
| step: "rb_reach sz s \<Longrightarrow> rb_step s t \<Longrightarrow> rb_reach sz t"


section \<open>The copies, position by position\<close>

lemma mod_ring_add:
  "j < N \<Longrightarrow> (H + j) mod N = (if H mod N + j < N then H mod N + j else H mod N + j - N)" for N :: nat
proof -
  assume j: "j < N"
  then have h: "H mod N < N" by (simp add: mod_less_divisor)
  then have "(H mod N + j) mod N = (if H mod N + j < N then H mod N + j else H mod N + j - N)"
  proof (cases "H mod N + j < N")
    case False
    have "H mod N + j - N < N" using j h by linarith
    with False show ?thesis by (simp add: le_mod_geq)
  qed simp
  then show ?thesis by (simp add: mod_add_left_eq)
qed

lemma wrap_sizes:
  assumes "unat (sz :: u32) = N" and "h < N" and "N \<le> h + unat n"
  shows "unat (sz - of_nat h) = N - h" and "unat (n - (sz - of_nat h)) = unat n - (N - h)"
proof -
  have h: "unat (of_nat h :: u32) = h"
    using assms(1,2) unat_less_pow [of sz] by (simp add: unat_of_nat)
  then show 1: "unat (sz - of_nat h) = N - h" using assms(1,2) by (simp add: unat_sub word_le_nat_alt)
  then show "unat (n - (sz - of_nat h)) = unat n - (N - h)"
    using assms(3) by (simp add: unat_sub word_le_nat_alt)
qed

lemma memcpy_torb_spec:
  assumes "unat (rb_size rb) = N" and "length base = N" and "header = H mod N"
    and "unat n < N" and "unat n \<le> length msg"
  obtains base' where "memcpy_torb rb base header msg n = Some base'" and "length base' = N"
    and "\<And>j. j < unat n \<Longrightarrow> base' ! ((H + j) mod N) = msg ! j"
    and "\<And>j. unat n \<le> j \<Longrightarrow> j < N \<Longrightarrow> base' ! ((H + j) mod N) = base ! ((H + j) mod N)"
proof -
  have h: "header < N" using assms(3,4) by (simp add: mod_less_divisor order.strict_trans1 [OF le0])
  have m: "(H + j) mod N = (if header + j < N then header + j else header + j - N)" if "j < N" for j
    using mod_ring_add [OF that, of H] assms(3) by simp
  show thesis
  proof (cases "N \<le> header + unat n")
    case True
    note sizes = wrap_sizes [OF assms(1) h True]
    let ?a = "N - header"
    have fit: "?a \<le> unat n" using True by simp
    obtain b1 where b1: "memcpy_toio base header (take ?a msg) = Some b1"
      using memcpy_toio_Some [of header "take ?a msg" base] assms(2,5) h fit by (auto simp: min_absorb2)
    have l1: "length b1 = N" using memcpy_toio_length [OF b1] assms(2) by simp
    let ?p2 = "take (unat n - ?a) (drop ?a msg)"
    obtain b2 where b2: "memcpy_toio b1 0 ?p2 = Some b2"
      using memcpy_toio_Some [of 0 ?p2 b1] l1 assms(4,5) diff_le_self [of "unat n" ?a]
      by (auto dest: le_trans)
    have l2: "length b2 = N" using memcpy_toio_length [OF b2] l1 by simp
    have nth: "b2 ! i = (if i < unat n - ?a then msg ! (?a + i)
        else if header \<le> i then msg ! (i - header) else base ! i)" if "i < N" for i
      using memcpy_toio_nth [OF b2, of i] memcpy_toio_nth [OF b1, of i] that l1 assms(2,5) fit h
      by auto
    have eq: "memcpy_torb rb base header msg n = Some b2"
      using True sizes assms(1,5) fit b1 b2
      by (simp add: memcpy_torb_def memcpy_fromio_def Let_def)
    show thesis
    proof (rule that [OF eq l2])
      fix j assume j: "j < unat n"
      then have jN: "j < N" using assms(4) by simp
      show "b2 ! ((H + j) mod N) = msg ! j"
      proof (cases "header + j < N")
        case True
        have "\<not> header + j < unat n - ?a" using j assms(4) by linarith
        with True show ?thesis using nth [of "header + j"] m [OF jN] assms(4) by simp
      next
        case False
        have "header + j - N < unat n - ?a" and "?a + (header + j - N) = j" using False j h by linarith+
        then show ?thesis using nth [of "header + j - N"] m [OF jN] False assms(4) by simp
      qed
    next
      fix j assume "unat n \<le> j" "j < N"
      then show "b2 ! ((H + j) mod N) = base ! ((H + j) mod N)"
        using nth [of "header + j"] nth [of "header + j - N"] m [of j] assms(4) h fit True by auto
    qed
  next
    case False
    obtain b1 where b1: "memcpy_toio base header (take (unat n) msg) = Some b1"
      using memcpy_toio_Some [of header "take (unat n) msg" base] assms(2,5) False by auto
    have l1: "length b1 = N" using memcpy_toio_length [OF b1] assms(2) by simp
    note nth = memcpy_toio_nth [OF b1]
    have eq: "memcpy_torb rb base header msg n = Some b1"
      using False assms(1,5) b1 by (simp add: memcpy_torb_def memcpy_fromio_def)
    show thesis
    proof (rule that [OF eq l1])
      fix j assume "j < unat n"
      then show "b1 ! ((H + j) mod N) = msg ! j"
        using nth [of "(H + j) mod N"] m [of j] assms(2,4,5) False by auto
    next
      fix j assume "unat n \<le> j" "j < N"
      then show "b1 ! ((H + j) mod N) = base ! ((H + j) mod N)"
        using nth [of "(H + j) mod N"] m [of j] assms(2,4,5) False by auto
    qed
  qed
qed

lemma memcpy_fromrb_spec:
  assumes "unat (rb_size rb) = N" and "length base = N" and "header = H mod N" and "unat n < N"
  shows "memcpy_fromrb rb base header n = Some (map (\<lambda>j. base ! ((H + j) mod N)) [0..<unat n])"
proof -
  have h: "header < N" using assms(3,4) by (simp add: mod_less_divisor order.strict_trans1 [OF le0])
  have m: "(H + j) mod N = (if header + j < N then header + j else header + j - N)" if "j < N" for j
    using mod_ring_add [OF that, of H] assms(3) by simp
  show ?thesis
  proof (cases "N \<le> header + unat n")
    case True
    note sizes = wrap_sizes [OF assms(1) h True]
    have "memcpy_fromrb rb base header n =
        Some (map (\<lambda>i. base ! (header + i)) [0..<N - header] @ map (\<lambda>i. base ! i) [0..<unat n - (N - header)])"
      using True sizes assms(1,2,4) h by (simp add: memcpy_fromrb_def Let_def memcpy_fromio_Some)
    also have "map (\<lambda>i. base ! (header + i)) [0..<N - header] @ map (\<lambda>i. base ! i) [0..<unat n - (N - header)]
        = map (\<lambda>j. base ! ((H + j) mod N)) [0..<unat n]"
      by (rule nth_equalityI) (use True h m assms(4) in \<open>auto simp: nth_append add.commute\<close>)
    finally show ?thesis .
  next
    case False
    then show ?thesis
      using assms m by (auto simp: memcpy_fromrb_def memcpy_fromio_Some)
  qed
qed


lemma memcpy_torb_Some_le:
  assumes "memcpy_torb rb base header msg n = Some b" and "unat (rb_size rb) = N" and "header < N"
  shows "unat n \<le> length msg"
proof (cases "N \<le> header + unat n")
  case True
  note sizes = wrap_sizes [OF assms(2,3) True]
  from assms(1,2) True sizes have "(N - header) + (unat n - (N - header)) \<le> length msg"
    by (auto simp: memcpy_torb_def memcpy_fromio_def Let_def Option.bind_eq_Some_conv split: if_splits)
  then show ?thesis using True by linarith
next
  case False
  with assms(1,2) show ?thesis
    by (auto simp: memcpy_torb_def memcpy_fromio_def Option.bind_eq_Some_conv split: if_splits)
qed

section \<open>The invariant of the queue\<close>

text \<open>
  With \<open>N\<close> the size of the ring, the history counters are ordered and the unreleased bytes fit;
  every offset is its counter modulo \<open>N\<close>; the buffer holds the unreleased bytes; what was
  received is what was sent. The write offset the consumer has cached is some earlier published
  one.
\<close>

definition rb_counts :: "nat \<Rightarrow> rb_sys \<Rightarrow> bool" where
  "rb_counts N s \<longleftrightarrow> released s \<le> length (rcvd s) \<and> length (rcvd s) \<le> committed s \<and>
     committed s \<le> length (sent s) \<and> length (sent s) < released s + N"

definition rb_offsets :: "nat \<Rightarrow> rb_sys \<Rightarrow> bool" where
  "rb_offsets N s \<longleftrightarrow>
     unat (current_write_offset (producer s)) = length (sent s) mod N \<and>
     unat (current_read_offset (consumer s)) = length (rcvd s) mod N \<and>
     unat (write_ptr (shared s)) = committed s mod N \<and>
     unat (read_ptr (shared s)) = released s mod N \<and>
     (\<exists>seen. length (rcvd s) \<le> seen \<and> seen \<le> committed s \<and>
        unat (current_write_offset (consumer s)) = seen mod N)"

definition rb_content :: "nat \<Rightarrow> rb_sys \<Rightarrow> bool" where
  "rb_content N s \<longleftrightarrow> length (rb_base (shared s)) = N \<and>
     (\<forall>i. released s \<le> i \<longrightarrow> i < length (sent s) \<longrightarrow> rb_base (shared s) ! (i mod N) = sent s ! i) \<and>
     rcvd s = take (length (rcvd s)) (sent s)"

definition rb_inv :: "u32 \<Rightarrow> rb_sys \<Rightarrow> bool" where
  "rb_inv sz s \<longleftrightarrow> (\<exists>k. unat sz = 2 ^ k) \<and> rb_size (producer s) = sz \<and> rb_size (consumer s) = sz \<and>
     rb_counts (unat sz) s \<and> rb_offsets (unat sz) s \<and> rb_content (unat sz) s"

lemmas rb_inv_defs = rb_inv_def rb_counts_def rb_offsets_def rb_content_def

definition rb_free :: "rb_sys \<Rightarrow> nat" where
  "rb_free s = released s + unat (rb_size (producer s)) - 1 - length (sent s)"

lemma rb_space_free:
  assumes "rb_inv sz s"
  shows "unat (fst (micscif_rb_space (producer s) (shared s))) = rb_free s"
proof -
  obtain k where k: "unat sz = 2 ^ k" using assms by (auto simp: rb_inv_def)
  have "unat (CIRC_SPACE (current_write_offset (producer s)) (read_ptr (shared s)) sz)
      = released s + 2 ^ k - 1 - length (sent s)"
    by (rule CIRC_SPACE_nat) (use assms k in \<open>auto simp: rb_inv_defs\<close>)
  then show ?thesis using assms k by (simp add: micscif_rb_space_def rb_free_def rb_inv_def)
qed

lemma rb_inv_space:
  "rb_inv sz s \<Longrightarrow> rb_inv sz (s\<lparr>producer := snd (micscif_rb_space (producer s) (shared s))\<rparr>)"
  by (simp add: rb_inv_defs micscif_rb_space_def)

lemma rb_write_full:
  assumes "rb_inv sz s" and "rb_free s < unat n"
  shows "micscif_rb_write (producer s) (shared s) msg n =
    Some (Inl ENOMEM, snd (micscif_rb_space (producer s) (shared s)), shared s)"
  using rb_space_free [OF assms(1)] assms(2)
  by (simp add: micscif_rb_write_def word_less_nat_alt case_prod_unfold)

text \<open>A write that fits succeeds, stays in bounds and appends to the history.\<close>

lemma rb_write_ok:
  assumes inv: "rb_inv sz s" and free: "unat n \<le> rb_free s" and msg: "unat n \<le> length msg"
  obtains p' m' where "micscif_rb_write (producer s) (shared s) msg n = Some (Inr (), p', m')"
    and "rb_inv sz (s\<lparr>producer := p', shared := m', sent := sent s @ take (unat n) msg\<rparr>)"
proof -
  let ?N = "unat sz" and ?p = "snd (micscif_rb_space (producer s) (shared s))"
  let ?H = "length (sent s)"
  obtain k where k: "?N = 2 ^ k" using inv by (auto simp: rb_inv_def)
  have n: "unat n < ?N" and free': "?H + unat n < released s + ?N"
    using free inv by (auto simp: rb_free_def rb_inv_defs)
  have p: "rb_size ?p = sz" "current_write_offset ?p = current_write_offset (producer s)"
    using inv by (auto simp: micscif_rb_space_def rb_inv_def)
  obtain b where b: "memcpy_torb ?p (rb_base (shared s)) (unat (current_write_offset ?p)) msg n = Some b"
    and len: "length b = ?N" and new: "\<And>j. j < unat n \<Longrightarrow> b ! ((?H + j) mod ?N) = msg ! j"
    and old: "\<And>j. unat n \<le> j \<Longrightarrow> j < ?N \<Longrightarrow> b ! ((?H + j) mod ?N) = rb_base (shared s) ! ((?H + j) mod ?N)"
    by (rule memcpy_torb_spec [of ?p ?N "rb_base (shared s)" "unat (current_write_offset ?p)" ?H n msg])
       (use inv n msg p in \<open>auto simp: rb_inv_defs\<close>)
  have keep: "b ! (i mod ?N) = sent s ! i" if "released s \<le> i" "i < ?H" for i
  proof -
    define j where "j = i + ?N - ?H"
    have j: "unat n \<le> j" "j < ?N" "?H + j = i + ?N"
      using that inv free' by (auto simp: rb_inv_defs j_def)
    then have "b ! (i mod ?N) = rb_base (shared s) ! (i mod ?N)" using old [of j] by simp
    then show ?thesis using that inv by (auto simp: rb_inv_defs)
  qed
  have fresh: "b ! (i mod ?N) = msg ! (i - ?H)" if "?H \<le> i" "i < ?H + unat n" for i
    using new [of "i - ?H"] that by simp
  have adv: "unat ((current_write_offset ?p + n) AND (sz - 1)) = (?H + unat n) mod ?N"
    unfolding k by (rule ring_advance) (use k inv p in \<open>auto simp: rb_inv_defs\<close>)
  let ?p' = "?p\<lparr>old_current_write_offset := current_write_offset ?p,
      current_write_offset := (current_write_offset ?p + n) AND (sz - 1)\<rparr>"
  have eq: "micscif_rb_write (producer s) (shared s) msg n = Some (Inr (), ?p', (shared s)\<lparr>rb_base := b\<rparr>)"
    using rb_space_free [OF inv] free b p
    by (simp add: micscif_rb_write_def word_less_nat_alt case_prod_unfold)
  show thesis
  proof (rule that [OF eq])
    show "rb_inv sz (s\<lparr>producer := ?p', shared := (shared s)\<lparr>rb_base := b\<rparr>, sent := sent s @ take (unat n) msg\<rparr>)"
      using inv msg free' len adv p
      by (auto simp: rb_inv_defs nth_append min_absorb2 keep fresh)
  qed
qed

lemma rb_inv_write:
  assumes inv: "rb_inv sz s" and w: "micscif_rb_write (producer s) (shared s) msg n = Some (Inr (), p', m')"
  shows "rb_inv sz (s\<lparr>producer := p', shared := m', sent := sent s @ take (unat n) msg\<rparr>)"
proof -
  have free: "unat n \<le> rb_free s"
    using w rb_write_full [OF inv, of n msg] by (cases "unat n \<le> rb_free s") auto
  have "0 < unat sz" using inv by (auto simp: rb_inv_def)
  then have "unat (current_write_offset (producer s)) < unat sz" using inv by (simp add: rb_inv_defs)
  then have msg: "unat n \<le> length msg"
    using w inv memcpy_torb_Some_le [of _ _ "unat (current_write_offset (producer s))" msg n]
    by (auto simp: micscif_rb_write_def micscif_rb_space_def rb_inv_def Option.bind_eq_Some_conv split: if_splits)
  from rb_write_ok [OF inv free msg] w show ?thesis by (metis option.inject prod.inject)
qed


section \<open>The consumer side\<close>

definition rb_avail :: "rb_sys \<Rightarrow> nat" where
  "rb_avail s = committed s - length (rcvd s)"

lemma rb_cached_count:
  assumes inv: "rb_inv sz s" and "length (rcvd s) \<le> w" and "w \<le> committed s"
    and "unat off = w mod unat sz"
  shows "unat (CIRC_CNT off (current_read_offset (consumer s)) sz) = w - length (rcvd s)"
proof -
  obtain k where k: "unat sz = 2 ^ k" using inv by (auto simp: rb_inv_def)
  have "unat (CIRC_CNT off (current_read_offset (consumer s)) sz) = (w - length (rcvd s)) mod 2 ^ k"
    by (rule CIRC_CNT_nat) (use assms k in \<open>auto simp: rb_inv_defs\<close>)
  moreover have "w - length (rcvd s) < 2 ^ k" using inv assms(2,3) k by (auto simp: rb_inv_defs)
  ultimately show ?thesis by simp
qed

text \<open>
  The count refreshes the cached write offset only when too few bytes are cached; either way
  it is enough exactly when that many committed bytes are unread.
\<close>

lemma rb_count_spec:
  assumes inv: "rb_inv sz s" and c: "micscif_rb_count (consumer s) (shared s) n = (cnt, c')"
  shows "rb_inv sz (s\<lparr>consumer := c'\<rparr>)" and "n \<le> cnt \<longleftrightarrow> unat n \<le> rb_avail s"
    and "current_read_offset c' = current_read_offset (consumer s)" and "rb_size c' = sz"
    and "cnt = CIRC_CNT (current_write_offset c') (current_read_offset c') sz"
proof -
  let ?c = "consumer s"
  obtain w where w: "length (rcvd s) \<le> w" "w \<le> committed s" "unat (current_write_offset ?c) = w mod unat sz"
    using inv by (auto simp: rb_inv_defs)
  have sz: "rb_size ?c = sz" using inv by (simp add: rb_inv_def)
  have old: "unat (CIRC_CNT (current_write_offset ?c) (current_read_offset ?c) sz) = w - length (rcvd s)"
    using rb_cached_count [OF inv w] .
  have new: "unat (CIRC_CNT (write_ptr (shared s)) (current_read_offset ?c) sz) = rb_avail s"
    using rb_cached_count [OF inv, of "committed s" "write_ptr (shared s)"] inv
    by (simp add: rb_inv_defs rb_avail_def)
  have eqs: "cnt = CIRC_CNT (current_write_offset c') (current_read_offset ?c) sz"
    "c' = (if w - length (rcvd s) < unat n
           then ?c\<lparr>old_current_write_offset := current_write_offset ?c, current_write_offset := write_ptr (shared s)\<rparr>
           else ?c)"
    using c old sz by (auto simp: micscif_rb_count_def Let_def word_less_nat_alt split: if_splits)
  show "rb_inv sz (s\<lparr>consumer := c'\<rparr>)"
    using inv by (auto simp: eqs(2) rb_inv_defs)
  show ro: "current_read_offset c' = current_read_offset ?c" and "rb_size c' = sz"
    using sz by (auto simp: eqs(2))
  show "cnt = CIRC_CNT (current_write_offset c') (current_read_offset c') sz"
    unfolding ro by (rule eqs(1))
  show "n \<le> cnt \<longleftrightarrow> unat n \<le> rb_avail s"
    using old new w by (auto simp: eqs word_le_nat_alt rb_avail_def)
qed

lemma rb_get_next_empty:
  assumes inv: "rb_inv sz s" and few: "rb_avail s < unat n"
  obtains c' where "micscif_rb_get_next (consumer s) (shared s) n = Some (0, [], c')"
    and "rb_inv sz (s\<lparr>consumer := c'\<rparr>)"
proof -
  obtain cnt c' where c: "micscif_rb_count (consumer s) (shared s) n = (cnt, c')" by fastforce
  from rb_count_spec [OF inv c] few have "\<not> n \<le> cnt" by simp
  with c have "micscif_rb_get_next (consumer s) (shared s) n = Some (0, [], c')"
    by (simp add: micscif_rb_get_next_def micscif_rb_get_def)
  then show thesis using that rb_count_spec(1) [OF inv c] by blast
qed

lemma rb_get_next_ok:
  assumes inv: "rb_inv sz s" and enough: "unat n \<le> rb_avail s"
  obtains c' where "micscif_rb_get_next (consumer s) (shared s) n =
      Some (n, take (unat n) (drop (length (rcvd s)) (sent s)), c')"
    and "rb_inv sz (s\<lparr>consumer := c', rcvd := rcvd s @ take (unat n) (drop (length (rcvd s)) (sent s))\<rparr>)"
proof -
  let ?N = "unat sz" and ?R = "length (rcvd s)"
  let ?bs = "take (unat n) (drop ?R (sent s))"
  obtain cnt c1 where c: "micscif_rb_count (consumer s) (shared s) n = (cnt, c1)" by fastforce
  note cs = rb_count_spec [OF inv c]
  obtain k where k: "?N = 2 ^ k" using inv by (auto simp: rb_inv_def)
  have n: "unat n < ?N" and fits: "?R + unat n \<le> committed s" "committed s \<le> length (sent s)"
    and R: "released s \<le> ?R" "unat (current_read_offset c1) = ?R mod ?N" and len: "length ?bs = unat n"
    using enough inv cs(3) by (auto simp: rb_inv_defs rb_avail_def)
  let ?c' = "c1\<lparr>old_current_read_offset := current_read_offset c1,
      current_read_offset := (current_read_offset c1 + n) AND (sz - 1)\<rparr>"
  have "memcpy_fromrb ?c' (rb_base (shared s)) (unat (current_read_offset c1)) n
      = Some (map (\<lambda>j. rb_base (shared s) ! ((?R + j) mod ?N)) [0..<unat n])"
    by (rule memcpy_fromrb_spec) (use inv cs(4) R n in \<open>auto simp: rb_inv_defs\<close>)
  also have "map (\<lambda>j. rb_base (shared s) ! ((?R + j) mod ?N)) [0..<unat n] = map (\<lambda>j. sent s ! (?R + j)) [0..<unat n]"
    using inv fits R by (auto simp: rb_inv_defs)
  also have "\<dots> = ?bs" using fits by (intro map_nth_upt_eq_take_drop) simp
  finally have eq: "micscif_rb_get_next (consumer s) (shared s) n = Some (n, ?bs, ?c')"
    using c cs(2,4) enough by (simp add: micscif_rb_get_next_def micscif_rb_get_def Let_def)
  have adv: "unat ((current_read_offset c1 + n) AND (sz - 1)) = (?R + unat n) mod ?N"
    unfolding k by (rule ring_advance) (use k R in auto)
  obtain w where w: "?R \<le> w" "w \<le> committed s" "unat (current_write_offset c1) = w mod ?N"
    using cs(1) by (auto simp: rb_inv_defs)
  have "w - ?R = unat cnt" using rb_cached_count [OF inv w] cs(3) unfolding cs(5) by simp
  then have "?R + unat n \<le> w" using cs(2) enough w(1) by (simp add: word_le_nat_alt)
  moreover have "rcvd s @ ?bs = take (?R + unat n) (sent s)"
    using inv by (simp add: rb_inv_defs take_add)
  ultimately have "rb_inv sz (s\<lparr>consumer := ?c', rcvd := rcvd s @ ?bs\<rparr>)"
    using cs(1) adv fits len w by (auto simp: rb_inv_defs)
  with eq show thesis by (rule that)
qed

section \<open>Every step keeps the invariant\<close>

lemma rb_inv_commit:
  "rb_inv sz s \<Longrightarrow> rb_inv sz (s\<lparr>shared := micscif_rb_commit (producer s) (shared s), committed := length (sent s)\<rparr>)"
  by (fastforce simp: rb_inv_defs micscif_rb_commit_def)

lemma rb_inv_update:
  "rb_inv sz s \<Longrightarrow> rb_inv sz (s\<lparr>shared := micscif_rb_update_read_ptr (consumer s) (shared s), released := length (rcvd s)\<rparr>)"
  by (auto simp: rb_inv_defs micscif_rb_update_read_ptr_def)

lemma rb_inv_step: "rb_step s t \<Longrightarrow> rb_inv sz s \<Longrightarrow> rb_inv sz t"
proof (induction rule: rb_step.induct)
  case (rb_wr s msg n p' m')
  then show ?case by (blast intro: rb_inv_write)
next
  case (rb_wr_full s msg n e p' m')
  then have "p' = snd (micscif_rb_space (producer s) (shared s)) \<and> m' = shared s"
    by (auto simp: micscif_rb_write_def case_prod_unfold Option.bind_eq_Some_conv split: if_splits)
  then show ?case using rb_inv_space [OF rb_wr_full.prems] by simp
next
  case (rb_sp s k p')
  then show ?case using rb_inv_space by fastforce
next
  case (rb_rd s n r bs c')
  show ?case
  proof (cases "unat n \<le> rb_avail s")
    case True
    from rb_get_next_ok [OF rb_rd.prems True] rb_rd.hyps show ?thesis by (metis option.inject prod.inject)
  next
    case False
    then have "rb_avail s < unat n" by simp
    from rb_get_next_empty [OF rb_rd.prems this] rb_rd.hyps have "bs = []" and "rb_inv sz (s\<lparr>consumer := c'\<rparr>)"
      by (metis option.inject prod.inject)+
    then show ?thesis by (simp add: rb_inv_defs)
  qed
qed (simp_all add: rb_inv_commit rb_inv_update rb_count_spec)

lemma rb_inv_init:
  assumes "rb_sys_init sz = Some s" and "0 < sz"
  shows "rb_inv sz s"
proof -
  have "sz AND (sz - 1) = 0" using assms(1)
    by (auto simp: rb_sys_init_def micscif_rb_init_def Let_def split: if_splits)
  then obtain k where "unat sz = 2 ^ k" using assms(2) pow2_of_and_minus_1 by (metis word_neq_0_conv)
  then show ?thesis using assms
    by (auto simp: rb_sys_init_def micscif_rb_init_def rb_inv_defs Let_def Option.bind_eq_Some_conv split: if_splits)
qed

lemma rb_reach_inv: "rb_reach sz s \<Longrightarrow> 0 < sz \<Longrightarrow> rb_inv sz s"
  by (induction rule: rb_reach.induct) (auto intro: rb_inv_init rb_inv_step)


section \<open>The queue as a first-in first-out channel of messages\<close>

text \<open>
  What the node queue pair and the endpoint code rely on: a channel that accepts a block of
  bytes when there is room for it, and hands out blocks in the order they were accepted.
\<close>

locale byte_fifo =
  fixes invar :: "'s \<Rightarrow> bool"
    and queued :: "'s \<Rightarrow> u8 list"
    and room :: "'s \<Rightarrow> nat"
    and put :: "'s \<Rightarrow> u8 list \<Rightarrow> 's option"
    and get :: "'s \<Rightarrow> u32 \<Rightarrow> (u8 list \<times> 's) option"
  assumes put_fits: "invar s \<Longrightarrow> length bs < 2 ^ 32 \<Longrightarrow> length bs \<le> room s \<Longrightarrow>
      \<exists>t. put s bs = Some t \<and> invar t \<and> queued t = queued s @ bs \<and> room t + length bs = room s"
    and put_full: "invar s \<Longrightarrow> length bs < 2 ^ 32 \<Longrightarrow> room s < length bs \<Longrightarrow> put s bs = None"
    and get_enough: "invar s \<Longrightarrow> unat n \<le> length (queued s) \<Longrightarrow>
      \<exists>t. get s n = Some (take (unat n) (queued s), t) \<and> invar t \<and>
          queued t = drop (unat n) (queued s) \<and> room t = room s + unat n"
    and get_short: "invar s \<Longrightarrow> length (queued s) < unat n \<Longrightarrow> get s n = None"

text \<open>Writing a list of messages, and reading a number of messages of one size.\<close>

fun put_msgs :: "('s \<Rightarrow> u8 list \<Rightarrow> 's option) \<Rightarrow> 's \<Rightarrow> u8 list list \<Rightarrow> 's option" where
  "put_msgs put s [] = Some s"
| "put_msgs put s (m # ms) = do { t \<leftarrow> put s m; put_msgs put t ms }"

fun get_msgs :: "('s \<Rightarrow> u32 \<Rightarrow> (u8 list \<times> 's) option) \<Rightarrow> u32 \<Rightarrow> nat \<Rightarrow> 's \<Rightarrow> (u8 list list \<times> 's) option" where
  "get_msgs get n 0 s = Some ([], s)"
| "get_msgs get n (Suc k) s =
     do { (m, t) \<leftarrow> get s n; (ms, u) \<leftarrow> get_msgs get n k t; Some (m # ms, u) }"

context byte_fifo
begin

lemma put_msgs_fits:
  assumes "invar s" and "\<forall>m \<in> set ms. length m = unat (n :: u32)" and "length ms * unat n \<le> room s"
  shows "\<exists>t. put_msgs put s ms = Some t \<and> invar t \<and> queued t = queued s @ concat ms \<and>
           room t + length ms * unat n = room s"
  using assms
proof (induction ms arbitrary: s)
  case (Cons m ms)
  have m: "length m = unat n" "length m < 2 ^ 32" "length m \<le> room s"
    using Cons.prems unat_less_pow [of n] by auto
  then obtain t where t: "put s m = Some t" "invar t" "queued t = queued s @ m" "room t + unat n = room s"
    using put_fits [of s m] Cons.prems(1) by auto
  then obtain u where "put_msgs put t ms = Some u" "invar u" "queued u = queued t @ concat ms"
      "room u + length ms * unat n = room t"
    using Cons.IH [of t] Cons.prems by auto
  with t show ?case by auto
qed simp

lemma get_msgs_queued:
  assumes "invar s" and "\<forall>m \<in> set ms. length m = unat n" and "queued s = concat ms @ rest"
  shows "\<exists>t. get_msgs get n (length ms) s = Some (ms, t) \<and> invar t \<and> queued t = rest"
  using assms
proof (induction ms arbitrary: s)
  case (Cons m ms)
  then obtain t where t: "get s n = Some (m, t)" "invar t" "queued t = concat ms @ rest"
    using get_enough [of s n] by auto
  with Cons show ?case by fastforce
qed simp

text \<open>Messages put into an empty channel come out unchanged and in order.\<close>

lemma messages_in_order:
  assumes "invar s" and "queued s = []" and "\<forall>m \<in> set ms. length m = unat n"
    and "length ms * unat n \<le> room s"
  shows "\<exists>t u. put_msgs put s ms = Some t \<and> get_msgs get n (length ms) t = Some (ms, u) \<and>
           invar u \<and> queued u = []"
proof -
  obtain t where t: "put_msgs put s ms = Some t" "invar t" "queued t = concat ms"
    using put_msgs_fits [OF assms(1,3,4)] assms(2) by auto
  then show ?thesis using get_msgs_queued [of t ms n "[]"] assms(3) by auto
qed

end

text \<open>
  The ring buffer provides the channel: a block is put by \<open>micscif_rb_write\<close> followed by
  \<open>micscif_rb_commit\<close> and taken by \<open>micscif_rb_get_next\<close> followed by
  \<open>micscif_rb_update_read_ptr\<close>, the two sequences the node queue pair uses.
\<close>

definition rb_put :: "rb_sys \<Rightarrow> u8 list \<Rightarrow> rb_sys option" where
  "rb_put s bs =
     (case micscif_rb_write (producer s) (shared s) bs (of_nat (length bs)) of
        Some (Inr _, p', m') \<Rightarrow>
          Some (s\<lparr>producer := p', shared := micscif_rb_commit p' m', sent := sent s @ bs,
                  committed := length (sent s @ bs)\<rparr>)
      | _ \<Rightarrow> None)"

definition rb_get :: "rb_sys \<Rightarrow> u32 \<Rightarrow> (u8 list \<times> rb_sys) option" where
  "rb_get s n =
     (case micscif_rb_get_next (consumer s) (shared s) n of
        Some (r, bs, c') \<Rightarrow>
          if r = n then
            Some (bs, s\<lparr>consumer := c', shared := micscif_rb_update_read_ptr c' (shared s),
                        rcvd := rcvd s @ bs, released := length (rcvd s @ bs)\<rparr>)
          else None
      | None \<Rightarrow> None)"

definition rb_quiet :: "u32 \<Rightarrow> rb_sys \<Rightarrow> bool" where
  "rb_quiet sz s \<longleftrightarrow> rb_inv sz s \<and> committed s = length (sent s) \<and> released s = length (rcvd s)"

definition rb_queued :: "rb_sys \<Rightarrow> u8 list" where
  "rb_queued s = drop (length (rcvd s)) (sent s)"

lemma rb_put_fits:
  assumes q: "rb_quiet sz s" and len: "length bs < 2 ^ 32" and fits: "length bs \<le> rb_free s"
  shows "\<exists>t. rb_put s bs = Some t \<and> rb_quiet sz t \<and> rb_queued t = rb_queued s @ bs \<and>
           rb_free t + length bs = rb_free s"
proof -
  let ?n = "of_nat (length bs) :: u32"
  have n: "unat ?n = length bs" using len by (simp add: unat_of_nat)
  have inv: "rb_inv sz s" using q by (simp add: rb_quiet_def)
  obtain p' m' where w: "micscif_rb_write (producer s) (shared s) bs ?n = Some (Inr (), p', m')"
    and inv': "rb_inv sz (s\<lparr>producer := p', shared := m', sent := sent s @ bs\<rparr>)"
    using rb_write_ok [OF inv, of ?n bs] fits n by auto
  let ?t = "s\<lparr>producer := p', shared := micscif_rb_commit p' m', sent := sent s @ bs,
              committed := length (sent s @ bs)\<rparr>"
  have "rb_inv sz ?t" using rb_inv_commit [OF inv'] by (simp add: rb_inv_defs)
  moreover have "length (rcvd s) \<le> length (sent s)" and "rb_size p' = rb_size (producer s)"
    using inv inv' by (auto simp: rb_inv_defs)
  ultimately show ?thesis using w q fits
    by (auto simp: rb_put_def rb_quiet_def rb_queued_def rb_free_def)
qed

lemma rb_get_enough:
  assumes q: "rb_quiet sz s" and enough: "unat n \<le> length (rb_queued s)"
  shows "\<exists>t. rb_get s n = Some (take (unat n) (rb_queued s), t) \<and> rb_quiet sz t \<and>
           rb_queued t = drop (unat n) (rb_queued s) \<and> rb_free t = rb_free s + unat n"
proof -
  let ?bs = "take (unat n) (rb_queued s)"
  have inv: "rb_inv sz s" using q by (simp add: rb_quiet_def)
  have avail: "unat n \<le> rb_avail s" using q enough by (simp add: rb_quiet_def rb_avail_def rb_queued_def)
  obtain c' where g: "micscif_rb_get_next (consumer s) (shared s) n = Some (n, ?bs, c')"
    and inv': "rb_inv sz (s\<lparr>consumer := c', rcvd := rcvd s @ ?bs\<rparr>)"
    using rb_get_next_ok [OF inv avail] by (auto simp: rb_queued_def)
  let ?t = "s\<lparr>consumer := c', shared := micscif_rb_update_read_ptr c' (shared s),
              rcvd := rcvd s @ ?bs, released := length (rcvd s @ ?bs)\<rparr>"
  have "rb_inv sz ?t" using rb_inv_update [OF inv'] by (simp add: rb_inv_defs)
  moreover have "length ?bs = unat n" using enough by simp
  moreover have "length (sent s) < length (rcvd s) + unat (rb_size (producer s))"
    using q by (auto simp: rb_quiet_def rb_inv_defs)
  ultimately show ?thesis using g q
    by (auto simp: rb_get_def rb_quiet_def rb_queued_def rb_free_def add.commute)
qed

interpretation rb_channel: byte_fifo "rb_quiet sz" rb_queued rb_free rb_put rb_get
proof unfold_locales
  fix s and bs :: "u8 list"
  assume q: "rb_quiet sz s" and len: "length bs < 2 ^ 32" and full: "rb_free s < length bs"
  have "unat (of_nat (length bs) :: u32) = length bs" using len by (simp add: unat_of_nat)
  then show "rb_put s bs = None"
    using rb_write_full [of sz s "of_nat (length bs)" bs] q full by (simp add: rb_put_def rb_quiet_def)
next
  fix s and n :: u32
  assume q: "rb_quiet sz s" and short: "length (rb_queued s) < unat n"
  then have "rb_avail s < unat n" by (simp add: rb_quiet_def rb_avail_def rb_queued_def)
  then obtain c' where "micscif_rb_get_next (consumer s) (shared s) n = Some (0, [], c')"
    using rb_get_next_empty [of sz s n] q by (auto simp: rb_quiet_def)
  then show "rb_get s n = None" using short by (auto simp: rb_get_def)
qed (rule rb_put_fits rb_get_enough; assumption)+


section \<open>Properties\<close>

text \<open>
  C1. However the steps of the writer (write, commit, space query) and of the reader (count, read,
  release) interleave, what the reader has received is exactly the beginning of what the writer
  has written, it received nothing that was not committed, and the bytes not yet released
  never exceed the buffer less one byte.
\<close>

theorem rb_fifo_safety:
  assumes "rb_reach sz s" and "0 < sz"
  shows "rcvd s = take (length (rcvd s)) (sent s) \<and> length (rcvd s) \<le> committed s \<and>
    length (sent s) - released s < unat sz"
  using rb_reach_inv [OF assms] by (auto simp: rb_inv_defs)

text \<open>A run: four bytes of buffer, two bytes written, committed and read.\<close>

definition rb_demo0 :: rb_sys where
  "rb_demo0 = the (rb_sys_init 4)"

definition rb_demo1 :: rb_sys where
  "rb_demo1 = (case micscif_rb_write (producer rb_demo0) (shared rb_demo0) [7, 9] 2 of
     Some (Inr _, p', m') \<Rightarrow> rb_demo0\<lparr>producer := p', shared := m', sent := sent rb_demo0 @ take 2 [7, 9]\<rparr>
   | _ \<Rightarrow> rb_demo0)"

definition rb_demo2 :: rb_sys where
  "rb_demo2 = rb_demo1\<lparr>shared := micscif_rb_commit (producer rb_demo1) (shared rb_demo1),
                      committed := length (sent rb_demo1)\<rparr>"

lemma rb_demo0_reach: "rb_reach 4 rb_demo0"
  by (rule rb_reach.start) (simp add: rb_demo0_def rb_sys_init_def micscif_rb_init_def Let_def)

lemma rb_demo1_reach: "rb_reach 4 rb_demo1"
proof -
  have free: "unat (2::u32) \<le> rb_free rb_demo0"
    by (simp add: rb_demo0_def rb_sys_init_def micscif_rb_init_def rb_free_def Let_def)
  have inv: "rb_inv 4 rb_demo0" by (rule rb_reach_inv [OF rb_demo0_reach]) simp
  obtain p' m' where w: "micscif_rb_write (producer rb_demo0) (shared rb_demo0) [7, 9] 2 = Some (Inr (), p', m')"
    by (rule rb_write_ok [OF inv free, of "[7, 9]"]) auto
  then have "rb_demo1 = rb_demo0\<lparr>producer := p', shared := m', sent := sent rb_demo0 @ take (unat (2::u32)) [7, 9]\<rparr>"
    by (simp add: rb_demo1_def)
  then show ?thesis using rb_step.rb_wr [OF w] rb_demo0_reach by (metis rb_reach.step)
qed

lemma rb_demo2_reach: "rb_reach 4 rb_demo2"
  unfolding rb_demo2_def by (rule rb_reach.step [OF rb_demo1_reach rb_step.rb_ci])

theorem rb_fifo_safety_witness:
  "rb_reach 4 rb_demo2 \<and> (0::u32) < 4 \<and> length (rcvd rb_demo2) \<le> committed rb_demo2"
  using rb_fifo_safety [OF rb_demo2_reach] rb_demo2_reach by simp

text \<open>
  C27. In every reachable state a write of \<open>n\<close> bytes from a buffer of at least \<open>n\<close> bytes
  stays in bounds. It succeeds exactly when the free space suffices; otherwise it returns
  \<open>-ENOMEM\<close> and leaves the shared memory alone.
\<close>

theorem rb_write_total:
  assumes "rb_reach sz s" and "0 < sz" and "unat n \<le> length msg"
  shows "\<exists>r p' m'. micscif_rb_write (producer s) (shared s) msg n = Some (r, p', m') \<and>
    (r = Inr () \<longleftrightarrow> unat n \<le> rb_free s) \<and> (r = Inl ENOMEM \<and> m' = shared s \<longleftrightarrow> rb_free s < unat n)"
proof (cases "unat n \<le> rb_free s")
  case True
  obtain p' m' where "micscif_rb_write (producer s) (shared s) msg n = Some (Inr (), p', m')"
    by (rule rb_write_ok [OF rb_reach_inv [OF assms(1,2)] True assms(3)])
  with True show ?thesis by simp
next
  case False
  then have "micscif_rb_write (producer s) (shared s) msg n =
      Some (Inl ENOMEM, snd (micscif_rb_space (producer s) (shared s)), shared s)"
    using rb_write_full [OF rb_reach_inv [OF assms(1,2)]] by simp
  with False show ?thesis by simp
qed

theorem rb_write_total_witness:
  "\<exists>r p' m'. micscif_rb_write (producer rb_demo2) (shared rb_demo2) [1, 2, 3] 2 = Some (r, p', m') \<and>
    (r = Inr () \<longleftrightarrow> unat (2::u32) \<le> rb_free rb_demo2) \<and>
    (r = Inl ENOMEM \<and> m' = shared rb_demo2 \<longleftrightarrow> rb_free rb_demo2 < unat (2::u32))"
  by (rule rb_write_total [OF rb_demo2_reach]) simp_all

text \<open>
  C17. In every reachable state a read of \<open>n\<close> bytes stays in bounds. When \<open>n\<close> committed bytes are
  unread it returns \<open>n\<close> and exactly the next \<open>n\<close> bytes of the stream; otherwise it returns 0
  and no bytes.
\<close>

theorem rb_get_next_total:
  assumes "rb_reach sz s" and "0 < sz"
  shows "\<exists>c'. micscif_rb_get_next (consumer s) (shared s) n =
    (if unat n \<le> rb_avail s then Some (n, take (unat n) (drop (length (rcvd s)) (sent s)), c')
     else Some (0, [], c'))"
proof (cases "unat n \<le> rb_avail s")
  case True
  then show ?thesis using rb_get_next_ok [OF rb_reach_inv [OF assms] True] by auto
next
  case False
  then show ?thesis using rb_get_next_empty [OF rb_reach_inv [OF assms], of n] by auto
qed

theorem rb_get_next_total_witness:
  "\<exists>c'. micscif_rb_get_next (consumer rb_demo2) (shared rb_demo2) 1 =
    (if unat (1::u32) \<le> rb_avail rb_demo2
     then Some (1, take (unat (1::u32)) (drop (length (rcvd rb_demo2)) (sent rb_demo2)), c')
     else Some (0, [], c'))"
  by (rule rb_get_next_total [OF rb_demo2_reach]) simp

text \<open>
  Messages of one size that fit into an empty ring together are all accepted, and reading
  as many messages back returns the same messages in the same order and leaves the ring empty.
\<close>

theorem rb_messages_roundtrip:
  assumes "rb_quiet sz s" and "rb_queued s = []" and "\<forall>m \<in> set ms. length m = unat n"
    and "length ms * unat n \<le> rb_free s"
  shows "\<exists>t u. put_msgs rb_put s ms = Some t \<and> get_msgs rb_get n (length ms) t = Some (ms, u) \<and>
    rb_queued u = []"
  using rb_channel.messages_in_order [OF assms] by blast

lemma rb_demo0_quiet: "rb_quiet 4 rb_demo0"
  using rb_reach_inv [OF rb_demo0_reach]
  by (simp add: rb_quiet_def) (simp add: rb_demo0_def rb_sys_init_def micscif_rb_init_def Let_def)

theorem rb_messages_roundtrip_witness:
  "\<exists>t u. put_msgs rb_put rb_demo0 [[5], [6], [7]] = Some t \<and>
     get_msgs rb_get 1 (length [[5 :: u8], [6], [7]]) t = Some ([[5], [6], [7]], u) \<and> rb_queued u = []"
  by (rule rb_messages_roundtrip [OF rb_demo0_quiet])
     (simp_all add: rb_demo0_def rb_sys_init_def micscif_rb_init_def rb_queued_def rb_free_def Let_def)

end
