(* ===== verification/Scif_Msg.thy ===== *)
theory Scif_Msg
  imports Ring_Buffer Scif_Endpoint
begin

text \<open>
  Messages on a connection (\<open>_scif_send\<close>, \<open>_scif_recv\<close> and what calls them in \<open>micscif_api.c\<close>), host build. One direction of a connection is a ring buffer with its
  two contexts and the history of its bytes; the sender has the outbound context, the receiver the inbound one. A call is run against a list of environments, one for each
  turn of its loop and for each time the condition of a wait is looked at: the state of the endpoint and of its device at that time, what the notification of the peer
  returns, whether a signal is pending, and what the other end did to the ring buffer before. A call that has used up the list is still in its loop, or in its wait.
\<close>

section \<open>Parameters\<close>

definition SCIF_SEND_BLOCK :: u32 where "SCIF_SEND_BLOCK = 1"
definition SCIF_RECV_BLOCK :: u32 where "SCIF_RECV_BLOCK = 1"
definition ENDPT_QP_SIZE :: nat where "ENDPT_QP_SIZE = 0x1000"

definition scif_msg_param_check :: "int \<Rightarrow> u32 \<Rightarrow> errno option" where
  "scif_msg_param_check len flags =
     (if len < 0 then Some EINVAL else if flags \<noteq> 0 \<and> flags AND SCIF_RECV_BLOCK = 0 then Some EINVAL else None)"

datatype call_result = Returned "errno + nat" | Waiting nat | Running

text \<open>\<open>before\<close> is what the other end does to the ring buffer between the turns; \<open>notif\<close> the result of \<open>micscif_nodeqp_send\<close>.\<close>

record turn =
  t_state :: endptstate
  t_alive :: bool
  notif :: "errno option"
  before :: "rb_sys \<Rightarrow> rb_sys"
  signal :: bool

definition part_or :: "nat \<Rightarrow> errno \<Rightarrow> errno + nat" where
  "part_or n err = (if n \<noteq> 0 then Inr n else Inl err)"

section \<open>Sending\<close>

text \<open>
  The bytes from \<open>sent_len\<close> on. \<open>None\<close> is the \<open>BUG_ON\<close> of a write that returns neither success nor an error, or a copy out of bounds. \<open>Waiting k\<close> is
  the wait for space for \<open>k\<close> bytes.
\<close>

definition send_turn :: "bool \<Rightarrow> u8 list \<Rightarrow> turn \<Rightarrow> nat \<Rightarrow> rb_sys \<Rightarrow> ((call_result + nat) \<times> rb_sys) option" where
  "send_turn block msg e sent_len s =
     (if t_state e = SCIFEP_DISCONNECTED then Some (Inl (Returned (part_or sent_len ECONNRESET)), s)
      else if t_state e \<noteq> SCIFEP_CONNECTED then Some (Inl (Returned (part_or sent_len ENOTCONN)), s)
      else if \<not> t_alive e then Some (Inl (Returned (part_or sent_len ENODEV)), s)
      else case micscif_rb_space (producer s) (shared s) of (write_count, p) \<Rightarrow>
        let s = s\<lparr>producer := p\<rparr>
        in if write_count \<noteq> 0 then
             let curr_xfer_len = min (length msg - sent_len) (unat write_count); bs = take curr_xfer_len (drop sent_len msg)
             in (case micscif_rb_write p (shared s) bs (of_nat curr_xfer_len) of
                   None \<Rightarrow> None
                 | Some (Inl _, p, m) \<Rightarrow> Some (Inl (Returned (Inl EFAULT)), s\<lparr>producer := p, shared := m\<rparr>)
                 | Some (Inr _, p, m) \<Rightarrow>
                     let s = s\<lparr>producer := p, shared := micscif_rb_commit p m, sent := sent s @ bs, committed := length (sent s @ bs)\<rparr>
                     in (case notif e of
                           Some err \<Rightarrow> Some (Inl (Returned (part_or sent_len err)), s)
                         | None \<Rightarrow> Some (Inr (sent_len + curr_xfer_len), s)))
           else if \<not> block then Some (Inl (Returned (Inr sent_len)), s)
           else Some (Inl (Waiting (min (length msg - sent_len) (ENDPT_QP_SIZE - 1))), s))"

text \<open>
  The wait ends when its condition holds, which is looked at first, or with a pending signal. After the wait the loop looks at the endpoint again.
\<close>

definition send_ready :: "nat \<Rightarrow> turn \<Rightarrow> rb_sys \<Rightarrow> bool \<times> rb_sys" where
  "send_ready k e s =
     (if t_state e \<noteq> SCIFEP_CONNECTED then (True, s)
      else case micscif_rb_space (producer s) (shared s) of (space, p) \<Rightarrow> (k \<le> unat space \<or> \<not> t_alive e, s\<lparr>producer := p\<rparr>))"

fun scif_send_loop :: "bool \<Rightarrow> u8 list \<Rightarrow> turn list \<Rightarrow> nat \<Rightarrow> rb_sys \<Rightarrow> (call_result \<times> rb_sys) option"
  and send_wait :: "bool \<Rightarrow> u8 list \<Rightarrow> nat \<Rightarrow> turn list \<Rightarrow> nat \<Rightarrow> rb_sys \<Rightarrow> (call_result \<times> rb_sys) option" where
  "scif_send_loop block msg es sent_len s =
     (if sent_len = length msg then Some (Returned (Inr (length msg)), s)
      else case es of
        [] \<Rightarrow> Some (Running, s)
      | e # es \<Rightarrow>
          (case send_turn block msg e sent_len (before e s) of
             None \<Rightarrow> None
           | Some (Inr n, s) \<Rightarrow> scif_send_loop block msg es n s
           | Some (Inl (Waiting k), s) \<Rightarrow> send_wait block msg k es sent_len s
           | Some (Inl r, s) \<Rightarrow> Some (r, s)))"
| "send_wait block msg k es sent_len s =
     (case es of
        [] \<Rightarrow> Some (Waiting k, s)
      | e # es \<Rightarrow>
          (case send_ready k e (before e s) of (ready, s) \<Rightarrow>
             if ready then scif_send_loop block msg es sent_len s
             else if signal e then Some (Returned (part_or sent_len ERESTARTSYS), s)
             else send_wait block msg k es sent_len s))"

declare send_wait.simps [simp del]
declare scif_send_loop.simps [simp del]

section \<open>Receiving\<close>

text \<open>The device is looked at in the wait only. \<open>got\<close> are the bytes stored so far.\<close>

definition recv_turn :: "bool \<Rightarrow> nat \<Rightarrow> turn \<Rightarrow> u8 list \<Rightarrow> rb_sys \<Rightarrow> ((call_result + unit) \<times> u8 list \<times> rb_sys) option" where
  "recv_turn block len e got s =
     (if t_state e \<noteq> SCIFEP_CONNECTED \<and> t_state e \<noteq> SCIFEP_DISCONNECTED then Some (Inl (Returned (part_or (length got) ENOTCONN)), got, s)
      else
        let remaining_len = len - length got
        in case micscif_rb_count (consumer s) (shared s) (of_nat remaining_len) of (read_count, c) \<Rightarrow>
          let s = s\<lparr>consumer := c\<rparr>
          in if read_count \<noteq> 0 then
               let curr_recv_len = min remaining_len (unat read_count)
               in (case micscif_rb_get_next c (shared s) (of_nat curr_recv_len) of
                     None \<Rightarrow> None
                   | Some (read_size, bs, c) \<Rightarrow>
                       if unat read_size \<noteq> curr_recv_len then None
                       else
                         let s = s\<lparr>consumer := c, rcvd := rcvd s @ bs\<rparr>
                         in if t_state e = SCIFEP_CONNECTED then
                              let s = s\<lparr>shared := micscif_rb_update_read_ptr c (shared s), released := length (rcvd s)\<rparr>
                              in (case notif e of
                                    Some err \<Rightarrow> Some (Inl (Returned (part_or (length got) err)), got @ bs, s)
                                  | None \<Rightarrow> Some (Inr (), got @ bs, s))
                            else Some (Inr (), got @ bs, s))
             else if t_state e = SCIFEP_DISCONNECTED then Some (Inl (Returned (part_or (length got) ECONNRESET)), got, s)
             else if \<not> block then Some (Inl (Returned (Inr (length got))), got, s)
             else Some (Inl (Waiting (min remaining_len (ENDPT_QP_SIZE - 1))), got, s))"

definition recv_ready :: "nat \<Rightarrow> turn \<Rightarrow> rb_sys \<Rightarrow> bool \<times> rb_sys" where
  "recv_ready k e s =
     (if t_state e \<noteq> SCIFEP_CONNECTED then (True, s)
      else case micscif_rb_count (consumer s) (shared s) (of_nat k) of (n, c) \<Rightarrow> (k \<le> unat n \<or> \<not> t_alive e, s\<lparr>consumer := c\<rparr>))"

fun scif_recv_loop :: "bool \<Rightarrow> nat \<Rightarrow> turn list \<Rightarrow> u8 list \<Rightarrow> rb_sys \<Rightarrow> (call_result \<times> u8 list \<times> rb_sys) option"
  and recv_wait :: "bool \<Rightarrow> nat \<Rightarrow> nat \<Rightarrow> turn list \<Rightarrow> u8 list \<Rightarrow> rb_sys \<Rightarrow> (call_result \<times> u8 list \<times> rb_sys) option" where
  "scif_recv_loop block len es got s =
     (if length got = len then Some (Returned (Inr len), got, s)
      else case es of
        [] \<Rightarrow> Some (Running, got, s)
      | e # es \<Rightarrow>
          (case recv_turn block len e got (before e s) of
             None \<Rightarrow> None
           | Some (Inr _, got, s) \<Rightarrow> scif_recv_loop block len es got s
           | Some (Inl (Waiting k), got, s) \<Rightarrow> recv_wait block len k es got s
           | Some (Inl r, got, s) \<Rightarrow> Some (r, got, s)))"
| "recv_wait block len k es got s =
     (case es of
        [] \<Rightarrow> Some (Waiting k, got, s)
      | e # es \<Rightarrow>
          (case recv_ready k e (before e s) of (ready, s) \<Rightarrow>
             if ready then scif_recv_loop block len es got s
             else if signal e then Some (Returned (part_or (length got) ERESTARTSYS), got, s)
             else recv_wait block len k es got s))"

declare recv_wait.simps [simp del]
declare scif_recv_loop.simps [simp del]

section \<open>The calls\<close>


definition scif_recv :: "bool \<Rightarrow> int \<Rightarrow> u32 \<Rightarrow> turn list \<Rightarrow> rb_sys \<Rightarrow> (call_result \<times> u8 list \<times> rb_sys) option" where
  "scif_recv idle len flags es s =
     (if len = 0 then Some (Returned (Inr 0), [], s)
      else case scif_msg_param_check len flags of
        Some err \<Rightarrow> Some (Returned (Inl err), [], s)
      | None \<Rightarrow> if flags = 0 \<and> idle then Some (Returned (Inl ENODEV), [], s)
               else scif_recv_loop (flags AND SCIF_RECV_BLOCK \<noteq> 0) (nat len) es [] s)"

text \<open>
  User processes: the message goes through a kernel buffer of \<open>chunk\<close> bytes; \<open>copy_ok\<close> says whether the copy of a part from or to the memory of the process succeeds.
  Every part has its own turns. A negative result of a part is the result of the call, whatever was sent before.
\<close>

fun user_send_loop :: "nat \<Rightarrow> bool \<Rightarrow> u8 list \<Rightarrow> (bool \<times> turn list) list \<Rightarrow> nat \<Rightarrow> rb_sys \<Rightarrow> (call_result \<times> rb_sys) option" where
  "user_send_loop chunk block msg cs sent_len s =
     (if sent_len = length msg then Some (Returned (Inr sent_len), s)
      else case cs of
        [] \<Rightarrow> Some (Running, s)
      | (copy_ok, es) # cs \<Rightarrow>
          let loop_len = min chunk (length msg - sent_len)
          in if \<not> copy_ok then Some (Returned (Inl EFAULT), s)
             else (case scif_send_loop block (take loop_len (drop sent_len msg)) es 0 s of
                     None \<Rightarrow> None
                   | Some (Returned (Inr n), s) \<Rightarrow>
                       if n \<noteq> loop_len then Some (Returned (Inr (sent_len + n)), s) else user_send_loop chunk block msg cs (sent_len + n) s
                   | Some (r, s) \<Rightarrow> Some (r, s)))"

declare user_send_loop.simps [simp del]

definition scif_user_send :: "nat \<Rightarrow> bool \<Rightarrow> u8 list \<Rightarrow> int \<Rightarrow> u32 \<Rightarrow> (bool \<times> turn list) list \<Rightarrow> rb_sys \<Rightarrow> (call_result \<times> rb_sys) option" where
  "scif_user_send maxchunk mem msg len flags cs s =
     (if len = 0 then Some (Returned (Inr 0), s)
      else case scif_msg_param_check len flags of
        Some err \<Rightarrow> Some (Returned (Inl err), s)
      | None \<Rightarrow> if \<not> mem then Some (Returned (Inl ENOMEM), s)
               else user_send_loop (min (nat len) maxchunk) (flags AND SCIF_SEND_BLOCK \<noteq> 0) (take (nat len) msg) cs 0 s)"

fun user_recv_loop :: "nat \<Rightarrow> bool \<Rightarrow> nat \<Rightarrow> (bool \<times> turn list) list \<Rightarrow> u8 list \<Rightarrow> rb_sys \<Rightarrow> (call_result \<times> u8 list \<times> rb_sys) option" where
  "user_recv_loop chunk block len cs buf s =
     (if length buf = len then Some (Returned (Inr len), buf, s)
      else case cs of
        [] \<Rightarrow> Some (Running, buf, s)
      | (copy_ok, es) # cs \<Rightarrow>
          let loop_len = min chunk (len - length buf)
          in (case scif_recv_loop block loop_len es [] s of
                None \<Rightarrow> None
              | Some (Returned (Inr n), got, s) \<Rightarrow>
                  if \<not> copy_ok then Some (Returned (Inl EFAULT), buf, s)
                  else if n \<noteq> loop_len then Some (Returned (Inr (length buf + n)), buf @ take n got, s)
                  else user_recv_loop chunk block len cs (buf @ take n got) s
              | Some (r, got, s) \<Rightarrow> Some (r, buf, s)))"

declare user_recv_loop.simps [simp del]

definition scif_user_recv :: "nat \<Rightarrow> bool \<Rightarrow> int \<Rightarrow> u32 \<Rightarrow> (bool \<times> turn list) list \<Rightarrow> rb_sys \<Rightarrow> (call_result \<times> u8 list \<times> rb_sys) option" where
  "scif_user_recv maxchunk mem len flags cs s =
     (if len = 0 then Some (Returned (Inr 0), [], s)
      else case scif_msg_param_check len flags of
        Some err \<Rightarrow> Some (Returned (Inl err), [], s)
      | None \<Rightarrow> if \<not> mem then Some (Returned (Inl ENOMEM), [], s)
               else user_recv_loop (min (nat len) maxchunk) (flags AND SCIF_RECV_BLOCK \<noteq> 0) (nat len) cs [] s)"

section \<open>One turn\<close>

lemma unat_of_nat32: "n < 2 ^ 32 \<Longrightarrow> unat (of_nat n :: u32) = n"
  by (simp add: unat_of_nat)

text \<open>All that was written has been committed, which is so whenever no write is under way.\<close>

definition rb_live :: "u32 \<Rightarrow> rb_sys \<Rightarrow> bool" where
  "rb_live sz s \<longleftrightarrow> rb_inv sz s \<and> committed s = length (sent s)"

text \<open>What the other end may do between the turns: the receiver takes bytes out, the sender adds some.\<close>

definition reader_acts :: "u32 \<Rightarrow> turn \<Rightarrow> bool" where
  "reader_acts sz e \<longleftrightarrow> (\<forall>s. rb_live sz s \<longrightarrow> rb_live sz (before e s) \<and> sent (before e s) = sent s)"

definition writer_acts :: "u32 \<Rightarrow> turn \<Rightarrow> bool" where
  "writer_acts sz e \<longleftrightarrow> (\<forall>s. rb_live sz s \<longrightarrow> rb_live sz (before e s) \<and> rcvd (before e s) = rcvd s \<and> (\<exists>bs. sent (before e s) = sent s @ bs))"

lemma live_free: "rb_live sz s \<Longrightarrow> unat (fst (micscif_rb_space (producer s) (shared s))) = rb_free s"
  using rb_space_free [of sz s] by (simp add: rb_live_def)

text \<open>A turn that finds space writes as much as fits.\<close>

lemma send_turn_writes:
  assumes l: "rb_live sz s" and st: "t_state e = SCIFEP_CONNECTED" "t_alive e" and f: "rb_free s \<noteq> 0" and m: "sent_len < length msg" "length msg < 2 ^ 31"
  defines "n \<equiv> min (length msg - sent_len) (rb_free s)"
  obtains t where "send_turn block msg e sent_len s = Some (case notif e of Some err \<Rightarrow> Inl (Returned (part_or sent_len err)) | None \<Rightarrow> Inr (sent_len + n), t)"
    and "rb_live sz t" and "sent t = sent s @ take n (drop sent_len msg)" and "rb_free t = rb_free s - n"
proof -
  obtain w p where sp: "micscif_rb_space (producer s) (shared s) = (w, p)" by fastforce
  have w: "unat w = rb_free s" using live_free [OF l] sp by simp
  let ?s = "s\<lparr>producer := p\<rparr>" and ?bs = "take n (drop sent_len msg)"
  have inv: "rb_inv sz ?s" using rb_inv_space [of sz s] l sp by (simp add: rb_live_def)
  have fs: "rb_free ?s = rb_free s" using sp by (auto simp: rb_free_def micscif_rb_space_def Let_def)
  have n: "unat (of_nat n :: u32) = n" "length ?bs = n" using m by (auto simp: n_def unat_of_nat)
  obtain p' m' where wr: "micscif_rb_write p (shared s) ?bs (of_nat n) = Some (Inr (), p', m')"
      and i': "rb_inv sz (?s\<lparr>producer := p', shared := m', sent := sent s @ ?bs\<rparr>)"
    using rb_write_ok [OF inv, of "of_nat n" ?bs] n fs by (auto simp: n_def)
  let ?t = "?s\<lparr>producer := p', shared := micscif_rb_commit p' m', sent := sent s @ ?bs, committed := length (sent s @ ?bs)\<rparr>"
  have "rb_inv sz ?t" using rb_inv_commit [OF i'] by (simp add: rb_inv_defs)
  then have lt: "rb_live sz ?t" by (simp add: rb_live_def)
  have "rb_size p' = rb_size (producer s)" using i' l by (simp add: rb_live_def rb_inv_def)
  then have ft: "rb_free ?t = rb_free s - n" using n(2) by (simp add: rb_free_def)
  have "w \<noteq> 0" using w f by auto
  then have "send_turn block msg e sent_len s = Some (case notif e of Some err \<Rightarrow> Inl (Returned (part_or sent_len err)) | None \<Rightarrow> Inr (sent_len + n), ?t)"
    using st sp w wr unfolding send_turn_def by (simp add: n_def Let_def split: option.split)
  then show thesis using that lt ft by simp
qed

text \<open>The other turns of the sender write nothing.\<close>

lemma send_turn_idle:
  assumes l: "rb_live sz s" and n: "\<not> (t_state e = SCIFEP_CONNECTED \<and> t_alive e \<and> rb_free s \<noteq> 0)"
  obtains t where "send_turn block msg e sent_len s =
      Some (Inl (if t_state e = SCIFEP_DISCONNECTED then Returned (part_or sent_len ECONNRESET) else if t_state e \<noteq> SCIFEP_CONNECTED then Returned (part_or sent_len ENOTCONN)
        else if \<not> t_alive e then Returned (part_or sent_len ENODEV) else if \<not> block then Returned (Inr sent_len)
        else Waiting (min (length msg - sent_len) (ENDPT_QP_SIZE - 1))), t)"
    and "rb_live sz t" and "sent t = sent s" and "rb_free t = rb_free s"
proof -
  obtain w p where sp: "micscif_rb_space (producer s) (shared s) = (w, p)" by fastforce
  let ?s = "s\<lparr>producer := p\<rparr>"
  have "rb_inv sz ?s" using rb_inv_space [of sz s] l sp by (simp add: rb_live_def)
  then have ls: "rb_live sz ?s" using l by (simp add: rb_live_def)
  have fs: "rb_free ?s = rb_free s" using sp by (auto simp: rb_free_def micscif_rb_space_def Let_def)
  show thesis
  proof (cases "t_state e = SCIFEP_CONNECTED \<and> t_alive e")
    case True
    have "unat w = 0" using n True live_free [OF l] sp by simp
    then have "w = 0" using unsigned_eq_0_iff by blast
    then show thesis using that [of ?s] ls fs True sp by (simp add: send_turn_def)
  next
    case False
    then show thesis using that [of s] l by (auto simp: send_turn_def)
  qed
qed

lemma send_turn_idle_cases:
  assumes "rb_live sz s" and "\<not> (t_state e = SCIFEP_CONNECTED \<and> t_alive e \<and> rb_free s \<noteq> 0)"
  obtains x t where "send_turn block msg e sent_len s = Some (Inl x, t)" and "rb_live sz t" and "sent t = sent s" and "rb_free t = rb_free s"
    and "(x = Returned (Inr sent_len) \<and> \<not> block) \<or> (\<exists>err. x = Returned (part_or sent_len err)) \<or> ((\<exists>k. x = Waiting k) \<and> block)"
proof (rule send_turn_idle [OF assms, of block msg sent_len])
  fix t assume t: "send_turn block msg e sent_len s =
      Some (Inl (if t_state e = SCIFEP_DISCONNECTED then Returned (part_or sent_len ECONNRESET) else if t_state e \<noteq> SCIFEP_CONNECTED then Returned (part_or sent_len ENOTCONN)
        else if \<not> t_alive e then Returned (part_or sent_len ENODEV) else if \<not> block then Returned (Inr sent_len)
        else Waiting (min (length msg - sent_len) (ENDPT_QP_SIZE - 1))), t)" "rb_live sz t" "sent t = sent s" "rb_free t = rb_free s"
  show thesis by (rule that [OF t]) auto
qed

section \<open>The loop of the sender\<close>

lemma take_drop_append: "take (k - n) (drop n xs) = take m (drop n xs) @ take (k - (n + m)) (drop (n + m) xs)" if "n + m \<le> k" for xs :: "'a list"
proof -
  have "k - n = m + (k - (n + m))" using that by simp
  then show ?thesis by (metis add.commute drop_drop take_add)
qed

text \<open>
  Whatever the environments are, the loop ends without a \<open>BUG_ON\<close> and what it has added to the stream are the bytes of the message from \<open>sent_len\<close> up to some position:
  the returned one, except that a failed notification is not counted.
\<close>

definition send_post :: "u32 \<Rightarrow> u8 list \<Rightarrow> turn list \<Rightarrow> nat \<Rightarrow> rb_sys \<Rightarrow> call_result \<Rightarrow> rb_sys \<Rightarrow> nat \<Rightarrow> bool" where
  "send_post sz msg es sent_len s r t k \<longleftrightarrow> rb_live sz t \<and> sent_len \<le> k \<and> k \<le> length msg \<and> sent t = sent s @ take (k - sent_len) (drop sent_len msg) \<and>
     (case r of
        Returned (Inr n) \<Rightarrow> n \<le> k \<and> ((\<forall>e \<in> set es. notif e = None) \<longrightarrow> n = k)
      | Returned (Inl _) \<Rightarrow> sent_len = 0 \<and> ((\<forall>e \<in> set es. notif e = None) \<longrightarrow> k = 0)
      | _ \<Rightarrow> True)"

lemma send_post_same:
  assumes "rb_live sz t" "sent t = sent s" "sent_len \<le> length msg"
    and "r = Returned (Inr sent_len) \<or> (\<exists>err. r = Returned (part_or sent_len err)) \<or> (\<exists>k. r = Waiting k) \<or> r = Running"
  shows "send_post sz msg es sent_len s r t sent_len"
  using assms by (auto simp: send_post_def part_or_def)

lemma send_post_step:
  assumes "send_post sz msg es (sent_len + n) s' r t k" and "sent s' = sent s @ take n (drop sent_len msg)" and "notif e = None"
  shows "send_post sz msg (e # es) sent_len s r t k"
proof -
  have k: "sent_len + n \<le> k" using assms(1) by (simp add: send_post_def)
  have "sent t = sent s @ take (k - sent_len) (drop sent_len msg)" using assms(1,2) take_drop_append [OF k, of msg] by (simp add: send_post_def)
  then show ?thesis using assms(1,3) by (auto simp: send_post_def split: call_result.splits sum.splits)
qed

lemma send_post_more: "send_post sz msg es sent_len s' r t k \<Longrightarrow> sent s' = sent s \<Longrightarrow> send_post sz msg (e # es) sent_len s r t k"
  by (auto simp: send_post_def split: call_result.splits sum.splits)

lemma send_ready_live:
  assumes l: "rb_live sz s"
  obtains t where "send_ready k e s = (t_state e \<noteq> SCIFEP_CONNECTED \<or> k \<le> rb_free s \<or> \<not> t_alive e, t)"
    and "rb_live sz t" and "sent t = sent s" and "rb_free t = rb_free s"
proof (cases "t_state e = SCIFEP_CONNECTED")
  case True
  obtain w p where sp: "micscif_rb_space (producer s) (shared s) = (w, p)" by fastforce
  have "rb_inv sz (s\<lparr>producer := p\<rparr>)" using rb_inv_space [of sz s] l sp by (simp add: rb_live_def)
  then have "rb_live sz (s\<lparr>producer := p\<rparr>)" using l by (simp add: rb_live_def)
  moreover have "rb_free (s\<lparr>producer := p\<rparr>) = rb_free s" using sp by (auto simp: rb_free_def micscif_rb_space_def Let_def)
  moreover have "unat w = rb_free s" using live_free [OF l] sp by simp
  ultimately show thesis using that [of "s\<lparr>producer := p\<rparr>"] True sp by (simp add: send_ready_def)
next
  case False
  then show thesis using that [of s] l by (simp add: send_ready_def)
qed

lemma send_stream_both:
  assumes "rb_live sz s" and "sent_len \<le> length msg" "length msg < 2 ^ 31" and "\<forall>e \<in> set es. reader_acts sz e"
  shows "(\<exists>r t k. scif_send_loop block msg es sent_len s = Some (r, t) \<and> send_post sz msg es sent_len s r t k) \<and>
    (\<forall>w. \<exists>r t k. send_wait block msg w es sent_len s = Some (r, t) \<and> send_post sz msg es sent_len s r t k)"
  using assms
proof (induction es arbitrary: sent_len s)
  case Nil
  then have "send_post sz msg [] sent_len s (if sent_len = length msg then Returned (Inr (length msg)) else Running) s sent_len"
    and "send_post sz msg [] sent_len s (Waiting w) s sent_len" for w by (intro send_post_same; auto)+
  then show ?case by (auto simp: scif_send_loop.simps send_wait.simps)
next
  case (Cons e es)
  let ?s = "before e s"
  have s: "rb_live sz ?s" "sent ?s = sent s" using Cons.prems(1,4) by (auto simp: reader_acts_def)
  have es: "\<forall>e \<in> set es. reader_acts sz e" using Cons.prems(4) by simp
  have "\<exists>r t k. send_wait block msg w (e # es) sent_len s = Some (r, t) \<and> send_post sz msg (e # es) sent_len s r t k" for w
  proof -
    obtain b t where t: "send_ready w e ?s = (b, t)" "rb_live sz t" "sent t = sent s" using send_ready_live [OF s(1), of w e] s(2) by metis
    note ih = Cons.IH [OF t(2) Cons.prems(2,3) es]
    have "send_post sz msg (e # es) sent_len s (Returned (part_or sent_len ERESTARTSYS)) t sent_len" by (rule send_post_same [OF t(2,3) Cons.prems(2)]) blast
    moreover obtain r u k where "(if b then scif_send_loop block msg es sent_len t else send_wait block msg w es sent_len t) = Some (r, u)" "send_post sz msg es sent_len t r u k"
      using ih by (cases b; simp; blast)
    ultimately show ?thesis using t(1) send_post_more [OF _ t(3), of sz msg es sent_len r u k e]
      by (cases b; cases "signal e") (auto simp: send_wait.simps [of block msg w "e # es"])
  qed
  moreover have "\<exists>r t k. scif_send_loop block msg (e # es) sent_len s = Some (r, t) \<and> send_post sz msg (e # es) sent_len s r t k"
  proof (cases "sent_len = length msg")
    case True
    then have "send_post sz msg (e # es) sent_len s (Returned (Inr (length msg))) s sent_len" using Cons.prems(1) by (intro send_post_same) auto
    then show ?thesis using True by (auto simp: scif_send_loop.simps)
  next
    case ne: False
    then have lt: "sent_len < length msg" using Cons.prems(2) by simp
    note unf = scif_send_loop.simps [of block msg "e # es"]
    show ?thesis
    proof (cases "t_state e = SCIFEP_CONNECTED \<and> t_alive e \<and> rb_free ?s \<noteq> 0")
      case True
      define n where "n = min (length msg - sent_len) (rb_free ?s)"
      obtain t where t: "send_turn block msg e sent_len ?s = Some (case notif e of Some err \<Rightarrow> Inl (Returned (part_or sent_len err)) | None \<Rightarrow> Inr (sent_len + n), t)"
          "rb_live sz t" "sent t = sent s @ take n (drop sent_len msg)"
        using send_turn_writes [OF s(1), of e sent_len msg block] True lt Cons.prems(3) s(2) unfolding n_def by metis
      have le: "sent_len + n \<le> length msg" using lt by (simp add: n_def)
      show ?thesis
      proof (cases "notif e")
        case None
        obtain r u k where u: "scif_send_loop block msg es (sent_len + n) t = Some (r, u)" "send_post sz msg es (sent_len + n) t r u k"
          using Cons.IH [OF t(2) le Cons.prems(3) es] by blast
        have "send_post sz msg (e # es) sent_len s r u k" using send_post_step [OF u(2) t(3) None] by simp
        then show ?thesis using u(1) t(1) None ne by (auto simp: unf)
      next
        case (Some err)
        have "send_post sz msg (e # es) sent_len s (Returned (part_or sent_len err)) t (sent_len + n)"
          using t(2,3) le Some by (auto simp: send_post_def part_or_def)
        then show ?thesis using t(1) Some ne by (auto simp: unf)
      qed
    next
      case False
      obtain x t where t: "send_turn block msg e sent_len ?s = Some (Inl x, t)" "rb_live sz t" "sent t = sent s"
          and x: "x = Returned (Inr sent_len) \<or> (\<exists>err. x = Returned (part_or sent_len err)) \<or> (\<exists>k. x = Waiting k)"
        using send_turn_idle_cases [OF s(1) False, of block msg sent_len] s(2) by metis
      note same = send_post_same [OF t(2,3) Cons.prems(2), where es = "e # es"]
      show ?thesis
      proof (cases x)
        case (Waiting k)
        obtain r u k' where u: "send_wait block msg k es sent_len t = Some (r, u)" "send_post sz msg es sent_len t r u k'"
          using Cons.IH [OF t(2) Cons.prems(2,3) es] by blast
        then show ?thesis using t(1) Waiting ne send_post_more [OF u(2) t(3)] by (auto simp: unf)
      next
        case (Returned y)
        have "send_post sz msg (e # es) sent_len s x t sent_len" using same x by blast
        then show ?thesis using t(1) Returned ne by (auto simp: unf)
      next
        case Running
        then show ?thesis using x by simp
      qed
    qed
  qed
  ultimately show ?case by blast
qed

lemma send_loop_stream:
  assumes "rb_live sz s" and "sent_len \<le> length msg" "length msg < 2 ^ 31" and "\<forall>e \<in> set es. reader_acts sz e"
  shows "\<exists>r t k. scif_send_loop block msg es sent_len s = Some (r, t) \<and> send_post sz msg es sent_len s r t k"
  using send_stream_both [OF assms] by blast

text \<open>A call that does not wait returns: every turn of it ends the loop or writes at least one byte.\<close>

lemma send_loop_returns:
  assumes "rb_live sz s" and "sent_len \<le> length msg" "length msg < 2 ^ 31" and "\<forall>e \<in> set es. reader_acts sz e" and "length msg - sent_len < length es"
  shows "\<exists>x t. scif_send_loop False msg es sent_len s = Some (Returned x, t)"
  using assms
proof (induction es arbitrary: sent_len s)
  case (Cons e es)
  let ?s = "before e s"
  have s: "rb_live sz ?s" using Cons.prems(1,4) by (auto simp: reader_acts_def)
  show ?case
  proof (cases "sent_len = length msg")
    case ne: False
    then have lt: "sent_len < length msg" using Cons.prems(2) by simp
    show ?thesis
    proof (cases "t_state e = SCIFEP_CONNECTED \<and> t_alive e \<and> rb_free ?s \<noteq> 0")
      case True
      define n where "n = min (length msg - sent_len) (rb_free ?s)"
      obtain t where t: "send_turn False msg e sent_len ?s = Some (case notif e of Some err \<Rightarrow> Inl (Returned (part_or sent_len err)) | None \<Rightarrow> Inr (sent_len + n), t)" "rb_live sz t"
        using send_turn_writes [OF s, of e sent_len msg False] True lt Cons.prems(3) unfolding n_def by metis
      have "n \<noteq> 0" "sent_len + n \<le> length msg" using True lt by (auto simp: n_def)
      then have "\<exists>x u. scif_send_loop False msg es (sent_len + n) t = Some (Returned x, u)" using Cons.IH [OF t(2)] Cons.prems(3-5) by auto
      then show ?thesis using t ne by (cases "notif e") (auto simp: scif_send_loop.simps [of False msg "e # es"])
    next
      case False
      then obtain y t where "send_turn False msg e sent_len ?s = Some (Inl (Returned y), t)" by (rule send_turn_idle_cases [OF s, of e False msg sent_len]) blast+
      then show ?thesis using ne by (auto simp: scif_send_loop.simps [of False msg "e # es"])
    qed
  qed (simp add: scif_send_loop.simps)
qed simp





section \<open>The loop of the receiver\<close>

lemma count_min:
  assumes i: "rb_inv sz s" and c: "micscif_rb_count (consumer s) (shared s) n = (cnt, c')"
  shows "min (unat n) (unat cnt) = min (unat n) (rb_avail s)"
proof (cases "CIRC_CNT (current_write_offset (consumer s)) (current_read_offset (consumer s)) (rb_size (consumer s)) < n")
  case True
  then have "cnt = CIRC_CNT (write_ptr (shared s)) (current_read_offset (consumer s)) sz" using c i by (simp add: micscif_rb_count_def Let_def rb_inv_def)
  then have "unat cnt = rb_avail s" using rb_cached_count [OF i, of "committed s" "write_ptr (shared s)"] i by (simp add: rb_inv_defs rb_avail_def)
  then show ?thesis by simp
next
  case False
  then have "n \<le> cnt" using c by (auto simp: micscif_rb_count_def Let_def)
  then show ?thesis using rb_count_spec(2) [OF i c] by (simp add: word_le_nat_alt)
qed

lemma recv_turn_reads:
  assumes l: "rb_live sz s" and st: "t_state e = SCIFEP_CONNECTED \<or> t_state e = SCIFEP_DISCONNECTED" and a: "rb_avail s \<noteq> 0" and g: "length got < len" "len < 2 ^ 31"
  defines "n \<equiv> min (len - length got) (rb_avail s)"
  obtains t bs where "recv_turn block len e got s =
      Some (case (t_state e = SCIFEP_CONNECTED, notif e) of (True, Some err) \<Rightarrow> Inl (Returned (part_or (length got) err)) | _ \<Rightarrow> Inr (), got @ bs, t)"
    and "length bs = n" and "rb_live sz t" and "rcvd t = rcvd s @ bs" and "sent t = sent s"
proof -
  let ?r = "of_nat (len - length got) :: u32"
  have r: "unat ?r = len - length got" using g by (intro unat_of_nat32) simp
  obtain cnt c where c: "micscif_rb_count (consumer s) (shared s) ?r = (cnt, c)" by fastforce
  have i: "rb_inv sz s" using l by (simp add: rb_live_def)
  have m: "min (len - length got) (unat cnt) = n" using count_min [OF i c] r by (simp add: n_def)
  let ?s = "s\<lparr>consumer := c\<rparr>"
  have ci: "rb_inv sz ?s" using rb_count_spec(1) [OF i c] .
  have n: "unat (of_nat n :: u32) = n" "n \<noteq> 0" using g a by (auto simp: n_def unat_of_nat)
  have av: "rb_avail ?s = rb_avail s" by (simp add: rb_avail_def)
  define bs where "bs = take n (drop (length (rcvd s)) (sent s))"
  obtain c' where c': "micscif_rb_get_next c (shared s) (of_nat n) = Some (of_nat n, bs, c')" "rb_inv sz (?s\<lparr>consumer := c', rcvd := rcvd s @ bs\<rparr>)"
    using rb_get_next_ok [OF ci, of "of_nat n"] n av unfolding bs_def by (auto simp: n_def)
  have lb: "length bs = n" using i l by (auto simp: bs_def n_def rb_avail_def rb_live_def)
  let ?t = "?s\<lparr>consumer := c', rcvd := rcvd s @ bs\<rparr>"
  let ?u = "?t\<lparr>shared := micscif_rb_update_read_ptr c' (shared s), released := length (rcvd s @ bs)\<rparr>"
  have t: "rb_live sz ?t" "rb_live sz ?u" using c'(2) rb_inv_update [OF c'(2)] l by (simp_all add: rb_live_def)
  have "cnt \<noteq> 0" using m n(2) by auto
  then have "recv_turn block len e got s =
      Some (case (t_state e = SCIFEP_CONNECTED, notif e) of (True, Some err) \<Rightarrow> Inl (Returned (part_or (length got) err)) | _ \<Rightarrow> Inr (), got @ bs, if t_state e = SCIFEP_CONNECTED then ?u else ?t)"
    using st c c'(1) m n(1) unfolding recv_turn_def by (auto simp: Let_def split: option.split)
  then show thesis using that t lb by (cases "t_state e = SCIFEP_CONNECTED") auto
qed

lemma recv_turn_idle:
  assumes l: "rb_live sz s" and n: "\<not> ((t_state e = SCIFEP_CONNECTED \<or> t_state e = SCIFEP_DISCONNECTED) \<and> rb_avail s \<noteq> 0)" and g: "length got < len" "len < 2 ^ 31"
  obtains x t where "recv_turn block len e got s = Some (Inl x, got, t)" and "rb_live sz t" and "rcvd t = rcvd s" and "sent t = sent s"
    and "(x = Returned (Inr (length got)) \<and> \<not> block) \<or> (\<exists>err. x = Returned (part_or (length got) err)) \<or> ((\<exists>k. x = Waiting k) \<and> block)"
proof (cases "t_state e = SCIFEP_CONNECTED \<or> t_state e = SCIFEP_DISCONNECTED")
  case True
  let ?r = "of_nat (len - length got) :: u32"
  obtain cnt c where c: "micscif_rb_count (consumer s) (shared s) ?r = (cnt, c)" by fastforce
  have i: "rb_inv sz s" using l by (simp add: rb_live_def)
  have "unat ?r = len - length got" using g by (intro unat_of_nat32) simp
  then have "unat cnt = 0" using count_min [OF i c] n True g by auto
  then have z: "cnt = 0" using unsigned_eq_0_iff by blast
  have "rb_live sz (s\<lparr>consumer := c\<rparr>)" using rb_count_spec(1) [OF i c] l by (simp add: rb_live_def)
  moreover have "recv_turn block len e got s = Some (Inl (if t_state e = SCIFEP_DISCONNECTED then Returned (part_or (length got) ECONNRESET) else if \<not> block then Returned (Inr (length got))
      else Waiting (min (len - length got) (ENDPT_QP_SIZE - 1))), got, s\<lparr>consumer := c\<rparr>)"
    using True c z by (auto simp: recv_turn_def Let_def)
  ultimately show thesis using that by (cases "t_state e = SCIFEP_DISCONNECTED"; cases block) auto
next
  case False
  then show thesis using that [of "Returned (part_or (length got) ENOTCONN)" s] l by (auto simp: recv_turn_def)
qed

definition recv_post :: "u32 \<Rightarrow> turn list \<Rightarrow> u8 list \<Rightarrow> rb_sys \<Rightarrow> call_result \<Rightarrow> u8 list \<Rightarrow> rb_sys \<Rightarrow> bool" where
  "recv_post sz es got s r got' t \<longleftrightarrow> rb_live sz t \<and> (\<exists>bs. got' = got @ bs \<and> rcvd t = rcvd s @ bs) \<and> (\<exists>ws. sent t = sent s @ ws) \<and>
     (case r of
        Returned (Inr n) \<Rightarrow> n \<le> length got' \<and> ((\<forall>e \<in> set es. notif e = None) \<longrightarrow> n = length got')
      | Returned (Inl _) \<Rightarrow> got = [] \<and> ((\<forall>e \<in> set es. notif e = None) \<longrightarrow> got' = [])
      | _ \<Rightarrow> True)"

lemma recv_post_same:
  assumes "rb_live sz t" "rcvd t = rcvd s" "\<exists>ws. sent t = sent s @ ws"
    and "r = Returned (Inr (length got)) \<or> (\<exists>err. r = Returned (part_or (length got) err)) \<or> (\<exists>k. r = Waiting k) \<or> r = Running"
  shows "recv_post sz es got s r got t"
  using assms by (auto simp: recv_post_def part_or_def)

lemma recv_post_step:
  assumes "recv_post sz es (got @ bs) u r got' t" and "rcvd u = rcvd s @ bs" and "\<exists>ws. sent u = sent s @ ws" and "bs \<noteq> [] \<or> rcvd u = rcvd s"
  shows "recv_post sz (e # es) got s r got' t"
  using assms by (auto simp: recv_post_def split: call_result.splits sum.splits)

lemma recv_ready_live:
  assumes l: "rb_live sz s"
  obtains b t where "recv_ready k e s = (b, t)" and "rb_live sz t" and "rcvd t = rcvd s" and "sent t = sent s"
proof (cases "t_state e = SCIFEP_CONNECTED")
  case True
  obtain cnt c where c: "micscif_rb_count (consumer s) (shared s) (of_nat k) = (cnt, c)" by fastforce
  have i: "rb_inv sz s" using l by (simp add: rb_live_def)
  have "rb_live sz (s\<lparr>consumer := c\<rparr>)" using rb_count_spec(1) [OF i c] l by (simp add: rb_live_def)
  then show thesis using that True c by (simp add: recv_ready_def)
next
  case False
  then show thesis using that [of True s] l by (simp add: recv_ready_def)
qed

lemma recv_stream_both:
  assumes "rb_live sz s" and "length got \<le> len" "len < 2 ^ 31" and "\<forall>e \<in> set es. writer_acts sz e"
  shows "(\<exists>r got' t. scif_recv_loop block len es got s = Some (r, got', t) \<and> recv_post sz es got s r got' t \<and> length got' \<le> len) \<and>
    (\<forall>w. \<exists>r got' t. recv_wait block len w es got s = Some (r, got', t) \<and> recv_post sz es got s r got' t \<and> length got' \<le> len)"
  using assms
proof (induction es arbitrary: got s)
  case Nil
  then have "recv_post sz [] got s (if length got = len then Returned (Inr (length got)) else Running) got s"
    and "recv_post sz [] got s (Waiting w) got s" for w by (intro recv_post_same; auto)+
  then show ?case using Nil.prems(2) by (auto simp: scif_recv_loop.simps recv_wait.simps)
next
  case (Cons e es)
  let ?s = "before e s"
  have s: "rb_live sz ?s" "rcvd ?s = rcvd s" "\<exists>ws. sent ?s = sent s @ ws" using Cons.prems(1,4) by (auto simp: writer_acts_def)
  have es: "\<forall>e \<in> set es. writer_acts sz e" using Cons.prems(4) by simp
  note unf = scif_recv_loop.simps [of block len "e # es"]
  have "\<exists>r got' t. recv_wait block len w (e # es) got s = Some (r, got', t) \<and> recv_post sz (e # es) got s r got' t \<and> length got' \<le> len" for w
  proof -
    obtain b t where t: "recv_ready w e ?s = (b, t)" "rb_live sz t" "rcvd t = rcvd s" "sent t = sent ?s" using recv_ready_live [OF s(1), of w e] s(2) by metis
    have se: "\<exists>ws. sent t = sent s @ ws" using t(4) s(3) by simp
    have "recv_post sz (e # es) got s (Returned (part_or (length got) ERESTARTSYS)) got t" by (rule recv_post_same [OF t(2,3) se]) blast
    moreover obtain r got' u where u: "(if b then scif_recv_loop block len es got t else recv_wait block len w es got t) = Some (r, got', u)"
        "recv_post sz es got t r got' u" "length got' \<le> len"
      using Cons.IH [OF t(2) Cons.prems(2,3) es] by (cases b; simp; blast)
    moreover have "recv_post sz (e # es) got s r got' u" using recv_post_step [of sz es got "[]" t r got' u s e] u(2) t(3) se by simp
    ultimately show ?thesis using t(1) Cons.prems(2) by (cases b; cases "signal e") (auto simp: recv_wait.simps [of block len w "e # es"])
  qed
  moreover have "\<exists>r got' t. scif_recv_loop block len (e # es) got s = Some (r, got', t) \<and> recv_post sz (e # es) got s r got' t \<and> length got' \<le> len"
  proof (cases "length got = len")
    case True
    then have "recv_post sz (e # es) got s (Returned (Inr (length got))) got s" using Cons.prems(1) by (intro recv_post_same) auto
    then show ?thesis using True by (auto simp: unf)
  next
    case ne: False
    then have lt: "length got < len" using Cons.prems(2) by simp
    show ?thesis
    proof (cases "(t_state e = SCIFEP_CONNECTED \<or> t_state e = SCIFEP_DISCONNECTED) \<and> rb_avail ?s \<noteq> 0")
      case True
      obtain t bs where t: "recv_turn block len e got ?s =
            Some (case (t_state e = SCIFEP_CONNECTED, notif e) of (True, Some err) \<Rightarrow> Inl (Returned (part_or (length got) err)) | _ \<Rightarrow> Inr (), got @ bs, t)"
          "length bs = min (len - length got) (rb_avail ?s)" "rb_live sz t" "rcvd t = rcvd s @ bs" "sent t = sent ?s"
        using recv_turn_reads [OF s(1), of e got len block] True lt Cons.prems(3) s(2) by metis
      have gl: "length (got @ bs) \<le> len" "bs \<noteq> []" using t(2) lt True by auto
      have se: "\<exists>ws. sent t = sent s @ ws" using t(5) s(3) by simp
      show ?thesis
      proof (cases "t_state e = SCIFEP_CONNECTED \<and> notif e \<noteq> None")
        case True
        then obtain err where err: "notif e = Some err" by blast
        have "recv_post sz (e # es) got s (Returned (part_or (length got) err)) (got @ bs) t"
          using t(3,4) se err gl by (auto simp: recv_post_def part_or_def)
        then show ?thesis using t(1) True err ne gl by (auto simp: unf)
      next
        case False
        then have eq: "recv_turn block len e got ?s = Some (Inr (), got @ bs, t)" using t(1) by (cases "t_state e = SCIFEP_CONNECTED"; cases "notif e") auto
        obtain r got' u where u: "scif_recv_loop block len es (got @ bs) t = Some (r, got', u)" "recv_post sz es (got @ bs) t r got' u" "length got' \<le> len"
          using Cons.IH [OF t(3) gl(1) Cons.prems(3) es] by blast
        have "recv_post sz (e # es) got s r got' u" using recv_post_step [OF u(2) t(4) se] gl(2) by simp
        then show ?thesis using u(1,3) eq ne by (auto simp: unf)
      qed
    next
      case False
      obtain x t where t: "recv_turn block len e got ?s = Some (Inl x, got, t)" "rb_live sz t" "rcvd t = rcvd s" "sent t = sent ?s"
          and x: "x = Returned (Inr (length got)) \<or> (\<exists>err. x = Returned (part_or (length got) err)) \<or> (\<exists>k. x = Waiting k)"
        using recv_turn_idle [OF s(1) False lt Cons.prems(3), of block] s(2) by metis
      have se: "\<exists>ws. sent t = sent s @ ws" using t(4) s(3) by simp
      note same = recv_post_same [OF t(2,3) se, where es = "e # es"]
      show ?thesis
      proof (cases x)
        case (Waiting k)
        obtain r got' u where u: "recv_wait block len k es got t = Some (r, got', u)" "recv_post sz es got t r got' u" "length got' \<le> len"
          using Cons.IH [OF t(2) Cons.prems(2,3) es] by blast
        have "recv_post sz (e # es) got s r got' u" using recv_post_step [of sz es got "[]" t r got' u s e] u(2) t(3) se by simp
        then show ?thesis using t(1) Waiting ne u(1,3) by (auto simp: unf)
      next
        case (Returned y)
        have "recv_post sz (e # es) got s x got t" using same x by blast
        then show ?thesis using t(1) Returned ne Cons.prems(2) by (auto simp: unf)
      next
        case Running
        then show ?thesis using x by simp
      qed
    qed
  qed
  ultimately show ?case by blast
qed

lemma recv_loop_stream:
  assumes "rb_live sz s" and "length got \<le> len" "len < 2 ^ 31" and "\<forall>e \<in> set es. writer_acts sz e"
  shows "\<exists>r got' t. scif_recv_loop block len es got s = Some (r, got', t) \<and> recv_post sz es got s r got' t \<and> length got' \<le> len"
  using recv_stream_both [OF assms] by blast

lemma recv_loop_returns:
  assumes "rb_live sz s" and "length got \<le> len" "len < 2 ^ 31" and "\<forall>e \<in> set es. writer_acts sz e" and "len - length got < length es"
  shows "\<exists>x got' t. scif_recv_loop False len es got s = Some (Returned x, got', t)"
  using assms
proof (induction es arbitrary: got s)
  case (Cons e es)
  let ?s = "before e s"
  have s: "rb_live sz ?s" using Cons.prems(1,4) by (auto simp: writer_acts_def)
  show ?case
  proof (cases "length got = len")
    case ne: False
    then have lt: "length got < len" using Cons.prems(2) by simp
    show ?thesis
    proof (cases "(t_state e = SCIFEP_CONNECTED \<or> t_state e = SCIFEP_DISCONNECTED) \<and> rb_avail ?s \<noteq> 0")
      case True
      obtain t bs where t: "recv_turn False len e got ?s =
            Some (case (t_state e = SCIFEP_CONNECTED, notif e) of (True, Some err) \<Rightarrow> Inl (Returned (part_or (length got) err)) | _ \<Rightarrow> Inr (), got @ bs, t)"
          "length bs = min (len - length got) (rb_avail ?s)" "rb_live sz t"
        using recv_turn_reads [OF s, of e got len False] True lt Cons.prems(3) by metis
      have g: "length (got @ bs) \<le> len" "bs \<noteq> []" using t(2) lt True by auto
      then have "len - length (got @ bs) < length es" using Cons.prems(5) lt by (cases bs) auto
      then have "\<exists>x got' u. scif_recv_loop False len es (got @ bs) t = Some (Returned x, got', u)" using Cons.IH [OF t(3) g(1) Cons.prems(3)] Cons.prems(4) by simp
      then show ?thesis using t ne by (cases "t_state e = SCIFEP_CONNECTED"; cases "notif e") (auto simp: scif_recv_loop.simps [of False len "e # es"])
    next
      case False
      then obtain y t where "recv_turn False len e got ?s = Some (Inl (Returned y), got, t)" by (rule recv_turn_idle [OF s _ lt Cons.prems(3), of e False]) blast+
      then show ?thesis using ne by (auto simp: scif_recv_loop.simps [of False len "e # es"])
    qed
  qed (simp add: scif_recv_loop.simps)
qed simp

section \<open>A connection that is up\<close>

definition calm :: "turn \<Rightarrow> bool" where
  "calm e \<longleftrightarrow> t_state e = SCIFEP_CONNECTED \<and> t_alive e \<and> notif e = None \<and> before e = id"

lemma send_calm:
  assumes l: "rb_live sz s" and m: "length msg < 2 ^ 31" and e: "calm e" "calm e'"
  shows "\<exists>t. scif_send_loop False msg (e # e' # es) 0 s = Some (Returned (Inr (min (length msg) (rb_free s))), t) \<and> rb_live sz t \<and> sent t = sent s @ take (rb_free s) msg \<and> rcvd t = rcvd s"
proof -
  note ec = e [unfolded calm_def]
  have keep: "rcvd t = rcvd s" if "send_turn b x y n s = Some (r, t)" for b x y n r t s
    using that by (auto simp: send_turn_def Let_def split: if_splits option.splits prod.splits sum.splits)
  show ?thesis
  proof (cases "msg = []")
    case True
    then show ?thesis using l by (simp add: scif_send_loop.simps)
  next
    case ne: False
    show ?thesis
    proof (cases "rb_free s = 0")
      case True
      obtain t where "send_turn False msg e 0 s = Some (Inl (Returned (Inr 0)), t)" "rb_live sz t" "sent t = sent s"
        using send_turn_idle [OF l, of e False msg 0] True ec by auto
      then show ?thesis using ne True ec keep by (auto simp: scif_send_loop.simps [of False msg "e # e' # es"])
    next
      case False
      let ?n = "min (length msg) (rb_free s)"
      obtain t where t: "send_turn False msg e 0 s = Some (Inr ?n, t)" "rb_live sz t" "sent t = sent s @ take ?n msg" "rb_free t = rb_free s - ?n"
        using send_turn_writes [OF l, of e 0 msg False] False ne m ec by auto
      have tk: "take ?n msg = take (rb_free s) msg" by (cases "length msg \<le> rb_free s") simp_all
      have r1: "rcvd t = rcvd s" using keep [OF t(1)] .
      show ?thesis
      proof (cases "?n = length msg")
        case True
        then show ?thesis using t ne ec tk r1 by (auto simp: scif_send_loop.simps [of False msg "e # e' # es"] scif_send_loop.simps [of False msg "e' # es"])
      next
        case short: False
        then have f: "rb_free t = 0" using t(4) by auto
        obtain u where u: "send_turn False msg e' ?n t = Some (Inl (Returned (Inr ?n)), u)" "rb_live sz u" "sent u = sent t"
          using send_turn_idle [OF t(2), of e' False msg ?n] f ec by auto
        show ?thesis using u t ne ec tk short r1 keep [OF u(1)]
          by (auto simp: scif_send_loop.simps [of False msg "e # e' # es"] scif_send_loop.simps [of False msg "e' # es"])
      qed
    qed
  qed
qed

text \<open>What was queued comes out.\<close>

lemma live_prefix: "rb_live sz s \<Longrightarrow> rcvd s = take (length (rcvd s)) (sent s)"
  by (simp add: rb_live_def rb_inv_defs)

lemma recv_turn_dry:
  assumes "rb_live sz s" and "t_state e = SCIFEP_CONNECTED" and "rb_avail s = 0" and "length got < len" "len < 2 ^ 31"
  shows "\<exists>t. recv_turn False len e got s = Some (Inl (Returned (Inr (length got))), got, t) \<and> rb_live sz t"
proof -
  obtain cnt c where c: "micscif_rb_count (consumer s) (shared s) (of_nat (len - length got)) = (cnt, c)" by fastforce
  have i: "rb_inv sz s" using assms(1) by (simp add: rb_live_def)
  have "unat (of_nat (len - length got) :: u32) = len - length got" using assms(5) by (intro unat_of_nat32) simp
  then have "unat cnt = 0" using count_min [OF i c] assms(3,4) by auto
  then have "cnt = 0" using unsigned_eq_0_iff by blast
  moreover have "rb_live sz (s\<lparr>consumer := c\<rparr>)" using rb_count_spec(1) [OF i c] assms(1) by (simp add: rb_live_def)
  ultimately show ?thesis using c assms(2) unfolding recv_turn_def Let_def by simp
qed

lemma recv_calm:
  assumes l: "rb_live sz s" and len: "len < 2 ^ 31" "length (rb_queued s) \<le> len" and e: "calm e" "calm e'"
  shows "\<exists>t. scif_recv_loop False len (e # e' # es) [] s = Some (Returned (Inr (length (rb_queued s))), rb_queued s, t) \<and> rb_live sz t"
proof -
  note ec = e [unfolded calm_def]
  have av: "rb_avail s = length (rb_queued s)" using l by (simp add: rb_avail_def rb_queued_def rb_live_def)
  show ?thesis
  proof (cases "len = 0")
    case True
    then show ?thesis using l len by (simp add: scif_recv_loop.simps)
  next
    case ne: False
    show ?thesis
    proof (cases "rb_queued s = []")
      case True
      then obtain t where "recv_turn False len e [] s = Some (Inl (Returned (Inr 0)), [], t)" "rb_live sz t"
        using recv_turn_dry [OF l, of e "[]" len] av len ne ec by auto
      then show ?thesis using True ne ec by (auto simp: scif_recv_loop.simps [of False len "e # e' # es"])
    next
      case False
      obtain t bs where r: "recv_turn False len e [] s =
            Some (case (t_state e = SCIFEP_CONNECTED, notif e) of (True, Some err) \<Rightarrow> Inl (Returned (part_or (length ([] :: u8 list)) err)) | _ \<Rightarrow> Inr (), [] @ bs, t)"
          "length bs = min (len - length ([] :: u8 list)) (rb_avail s)" "rb_live sz t" "rcvd t = rcvd s @ bs" "sent t = sent s"
        by (rule recv_turn_reads [OF l, of e "[]" len False]) (use False av len ne ec in auto)
      then have t: "recv_turn False len e [] s = Some (Inr (), bs, t)" "length bs = length (rb_queued s)" "rb_live sz t" "rcvd t = rcvd s @ bs" "sent t = sent s"
        using av len ec by simp_all
      have "rcvd s @ bs = take (length (rcvd s) + length bs) (sent s)" using live_prefix [OF t(3)] t(4,5) by simp
      also have "\<dots> = rcvd s @ take (length bs) (rb_queued s)" using live_prefix [OF l] by (simp add: take_add rb_queued_def)
      finally have bs: "bs = rb_queued s" using t(2) by simp
      show ?thesis
      proof (cases "length bs = len")
        case True
        then show ?thesis using t ne ec bs by (auto simp: scif_recv_loop.simps [of False len "e # e' # es"] scif_recv_loop.simps [of False len "e' # es"])
      next
        case short: False
        then have lt: "length bs < len" using bs len by simp
        have rq: "rb_avail t = 0" using t(2-5) l bs by (auto simp: rb_avail_def rb_live_def rb_queued_def)
        obtain u where u: "recv_turn False len e' bs t = Some (Inl (Returned (Inr (length bs))), bs, u)" "rb_live sz u"
          using recv_turn_dry [OF t(3) _ rq lt len(1), of e'] ec by auto
        show ?thesis using t ne ec bs short u by (auto simp: scif_recv_loop.simps [of False len "e # e' # es"] scif_recv_loop.simps [of False len "e' # es"])
      qed
    qed
  qed
qed

section \<open>The loop over the parts of a message\<close>

lemma user_send_loop_stream:
  assumes "rb_live sz s" and "n0 \<le> length msg" "length msg < 2 ^ 31" and "\<forall>c \<in> set cs. \<forall>e \<in> set (snd c). reader_acts sz e"
  shows "\<exists>r t k. user_send_loop chunk block msg cs n0 s = Some (r, t) \<and> rb_live sz t \<and> n0 \<le> k \<and> k \<le> length msg \<and> sent t = sent s @ take (k - n0) (drop n0 msg) \<and>
    (\<forall>n. r = Returned (Inr n) \<longrightarrow> n \<le> k \<and> ((\<forall>c \<in> set cs. \<forall>e \<in> set (snd c). notif e = None) \<longrightarrow> n = k)) \<and>
    (\<forall>err. r = Returned (Inl err) \<longrightarrow> (\<forall>c \<in> set cs. \<forall>e \<in> set (snd c). notif e = None) \<longrightarrow> chunk dvd k - n0 \<and> k < length msg)"
  using assms
proof (induction cs arbitrary: n0 s)
  case Nil
  then show ?case by (intro exI [of _ "if n0 = length msg then Returned (Inr n0) else Running"] exI [of _ s] exI [of _ n0]) (simp add: user_send_loop.simps)
next
  case (Cons c cs)
  obtain ok es where c: "c = (ok, es)" by (cases c)
  note unf = user_send_loop.simps [of chunk block msg "(ok, es) # cs"]
  have same: ?case if "user_send_loop chunk block msg (c # cs) n0 s = Some (r, s)" "\<And>n. r = Returned (Inr n) \<Longrightarrow> n = n0" "\<And>err. r = Returned (Inl err) \<Longrightarrow> n0 < length msg" for r
    using that Cons.prems(1,2) by (intro exI [of _ r] exI [of _ s] exI [of _ n0]) auto
  show ?case
  proof (cases "n0 = length msg \<or> \<not> ok")
    case True
    then have "user_send_loop chunk block msg (c # cs) n0 s = Some (if n0 = length msg then Returned (Inr n0) else Returned (Inl EFAULT), s)" by (auto simp: c unf)
    then show ?thesis by (rule same) (use Cons.prems(2) in \<open>simp_all split: if_splits\<close>)
  next
    case False
    define p where "p = take (min chunk (length msg - n0)) (drop n0 msg)"
    have lp: "length p = min chunk (length msg - n0)" "length p < 2 ^ 31" "n0 + length p \<le> length msg" using Cons.prems(2,3) by (auto simp: p_def)
    obtain r t k where t: "scif_send_loop block p es 0 s = Some (r, t)" "send_post sz p es 0 s r t k"
      using send_loop_stream [OF Cons.prems(1), of 0 p es block] lp(2) Cons.prems(4) c by auto
    have k: "k \<le> length p" "rb_live sz t" "sent t = sent s @ take k (drop n0 msg)" using t(2) lp by (auto simp: send_post_def p_def min_absorb1)
    show ?thesis
    proof (cases "r = Returned (Inr (length p))")
      case True
      then have kp: "k = length p" using t(2) k(1) by (simp add: send_post_def)
      have cs: "\<forall>c \<in> set cs. \<forall>e \<in> set (snd c). reader_acts sz e" using Cons.prems(4) by simp
      obtain r' u k' where u: "user_send_loop chunk block msg cs (n0 + length p) t = Some (r', u)" "rb_live sz u" "n0 + length p \<le> k'" "k' \<le> length msg"
          "sent u = sent t @ take (k' - (n0 + length p)) (drop (n0 + length p) msg)"
          "\<forall>n. r' = Returned (Inr n) \<longrightarrow> n \<le> k' \<and> ((\<forall>c \<in> set cs. \<forall>e \<in> set (snd c). notif e = None) \<longrightarrow> n = k')"
          "\<forall>err. r' = Returned (Inl err) \<longrightarrow> (\<forall>c \<in> set cs. \<forall>e \<in> set (snd c). notif e = None) \<longrightarrow> chunk dvd k' - (n0 + length p) \<and> k' < length msg"
        using Cons.IH [OF k(2) lp(3) Cons.prems(3) cs] by (elim exE conjE) (rule that)
      have "sent u = sent s @ take (k' - n0) (drop n0 msg)" using u(5) k(3) kp take_drop_append [OF u(3), of msg] by simp
      moreover have "user_send_loop chunk block msg (c # cs) n0 s = Some (r', u)" unfolding c unf using False t(1) True u(1) lp(1) by (simp add: p_def)
      moreover have "chunk dvd k' - n0" if "chunk dvd k' - (n0 + length p)" "k' < length msg"
      proof -
        have "length p = chunk" using lp(1) u(3) that(2) by auto
        then have "k' - n0 = chunk + (k' - (n0 + length p))" using u(3) by simp
        then show ?thesis using that(1) by simp
      qed
      ultimately show ?thesis using u(2-4,6,7) by (intro exI [of _ r'] exI [of _ u] exI [of _ k']) auto
    next
      case stop: False
      define r1 where "r1 = (case r of Returned (Inr n) \<Rightarrow> Returned (Inr (n0 + n)) | _ \<Rightarrow> r)"
      have "user_send_loop chunk block msg (c # cs) n0 s = Some (r1, t)"
        unfolding c unf using False t(1) stop lp(1) by (auto simp: p_def r1_def split: call_result.split sum.split)
      moreover have "n \<le> n0 + k \<and> ((\<forall>c \<in> set (c # cs). \<forall>e \<in> set (snd c). notif e = None) \<longrightarrow> n = n0 + k)" if "r1 = Returned (Inr n)" for n
        using that t(2) c by (auto simp: r1_def send_post_def split: call_result.splits sum.splits)
      moreover have "k = 0" if "r1 = Returned (Inl err)" "\<forall>c \<in> set (c # cs). \<forall>e \<in> set (snd c). notif e = None" for err
        using that t(2) c by (auto simp: r1_def send_post_def split: call_result.splits sum.splits)
      moreover have "n0 < length msg" using False Cons.prems(2) by simp
      ultimately show ?thesis using k lp(3) by (intro exI [of _ r1] exI [of _ t] exI [of _ "n0 + k"]) auto
    qed
  qed
qed

section \<open>Properties\<close>

lemma demo_live: "rb_live 4 rb_demo0" "sent rb_demo0 = []" "rcvd rb_demo0 = []" "rb_free rb_demo0 = 3"
  using rb_demo0_quiet by (auto simp: rb_quiet_def rb_live_def rb_demo0_def rb_sys_init_def micscif_rb_init_def rb_zero_def rb_free_def)

definition calm_turn :: turn where
  "calm_turn = \<lparr>t_state = SCIFEP_CONNECTED, t_alive = True, notif = None, before = id, signal = False\<rparr>"

lemma calm_turn [simp]: "calm calm_turn" "reader_acts sz calm_turn" "writer_acts sz calm_turn" "notif calm_turn = None"
  by (simp_all add: calm_turn_def calm_def reader_acts_def writer_acts_def)

text \<open>
  C4. Whatever the state of the connection, the receiver and signals do while a process sends, \<open>scif_user_send\<close> runs into no \<open>BUG_ON\<close>, and what it has added to the stream is a
  beginning of the message, without a gap between the parts the message is copied in. A number it returns is never more than that, and when no notification of the peer
  fails it is exactly that. When no notification fails, an error means that the part it happened in has added nothing: what was added is a number of whole parts,
  so nothing at all for a message of one part; for a longer one the parts before the error are sent, and the call does not tell their number.
\<close>

theorem user_send_stream:
  assumes "rb_live sz s" and "len = int (length msg)" "length msg < 2 ^ 31" and "\<forall>c \<in> set cs. \<forall>e \<in> set (snd c). reader_acts sz e"
  shows "\<exists>r t k. scif_user_send chunk mem msg len flags cs s = Some (r, t) \<and> rb_live sz t \<and> k \<le> length msg \<and> sent t = sent s @ take k msg \<and>
    (\<forall>n. r = Returned (Inr n) \<longrightarrow> n \<le> k \<and> ((\<forall>c \<in> set cs. \<forall>e \<in> set (snd c). notif e = None) \<longrightarrow> n = k)) \<and>
    (\<forall>err. r = Returned (Inl err) \<longrightarrow> (\<forall>c \<in> set cs. \<forall>e \<in> set (snd c). notif e = None) \<longrightarrow> min (length msg) chunk dvd k \<and> k < length msg)"
proof (cases "len = 0 \<or> scif_msg_param_check len flags \<noteq> None \<or> \<not> mem")
  case True
  define r where "r = (if len = 0 then Returned (Inr 0) else case scif_msg_param_check len flags of Some err \<Rightarrow> Returned (Inl err) | None \<Rightarrow> Returned (Inl ENOMEM))"
  have "scif_user_send chunk mem msg len flags cs s = Some (r, s)" "\<forall>n. r = Returned (Inr n) \<longrightarrow> n = 0" "\<forall>err. r = Returned (Inl err) \<longrightarrow> 0 < length msg"
    using True assms(2) by (auto simp: scif_user_send_def r_def split: option.splits if_splits)
  then show ?thesis using assms(1) by (intro exI [of _ r] exI [of _ s] exI [of _ 0]) auto
next
  case False
  then show ?thesis
    using user_send_loop_stream [OF assms(1) _ assms(3,4), of 0 "min (nat len) chunk" "flags AND SCIF_SEND_BLOCK \<noteq> 0"] assms(2) by (simp add: scif_user_send_def)
qed

theorem user_send_stream_witness:
  "\<exists>r t k. scif_user_send 2 True [7, 8, 9] 3 0 [(True, [calm_turn, calm_turn]), (True, [calm_turn, calm_turn])] rb_demo0 = Some (r, t) \<and> sent t = take k [7, 8, 9] \<and>
    (\<forall>err. r = Returned (Inl err) \<longrightarrow> even k)"
proof -
  obtain r t k where "scif_user_send 2 True [7, 8, 9] 3 0 [(True, [calm_turn, calm_turn]), (True, [calm_turn, calm_turn])] rb_demo0 = Some (r, t)"
    and "sent t = sent rb_demo0 @ take k [7, 8, 9]" and "\<forall>err. r = Returned (Inl err) \<longrightarrow> min (length [7 :: u8, 8, 9]) 2 dvd k"
    using user_send_stream [OF demo_live(1), of 3 "[7, 8, 9]" "[(True, [calm_turn, calm_turn]), (True, [calm_turn, calm_turn])]" 2 True 0] by auto
  then show ?thesis using demo_live(2) by (intro exI [of _ r] exI [of _ t] exI [of _ k]) (simp add: numeral_2_eq_2)
qed

text \<open>
  C19. Whatever the sender does while a receive runs, \<open>scif_recv\<close> runs into no \<open>BUG_ON\<close>; the bytes it stores are the next bytes of the stream, in order and
  never more than asked for; and when no notification fails, the number it returns is the number of bytes stored, and it returns an error only when it has stored none.
\<close>

theorem recv_stream:
  assumes "rb_live sz s" and "0 \<le> len" "len < 2 ^ 31" and "\<forall>e \<in> set es. writer_acts sz e"
  shows "\<exists>r got t. scif_recv idle len flags es s = Some (r, got, t) \<and> rb_live sz t \<and> int (length got) \<le> len \<and> rcvd t = rcvd s @ got \<and>
    got = take (length got) (drop (length (rcvd s)) (sent t)) \<and>
    ((\<forall>e \<in> set es. notif e = None) \<longrightarrow> (\<forall>n. r = Returned (Inr n) \<longrightarrow> n = length got) \<and> (\<forall>err. r = Returned (Inl err) \<longrightarrow> got = []))"
proof (cases "len = 0 \<or> scif_msg_param_check len flags \<noteq> None \<or> (flags = 0 \<and> idle)")
  case True
  define r where "r = (if len = 0 then Returned (Inr 0) else case scif_msg_param_check len flags of Some err \<Rightarrow> Returned (Inl err) | None \<Rightarrow> Returned (Inl ENODEV))"
  have "scif_recv idle len flags es s = Some (r, [], s)" "\<forall>n. r = Returned (Inr n) \<longrightarrow> n = 0"
    using True by (auto simp: scif_recv_def r_def split: option.splits if_splits)
  then show ?thesis using assms(1,2) by (intro exI [of _ r] exI [of _ "[]"] exI [of _ s]) auto
next
  case False
  have "nat len < 2 ^ 31" using assms(2,3) by (simp add: nat_less_iff)
  then obtain r got t where g: "scif_recv_loop (flags AND SCIF_RECV_BLOCK \<noteq> 0) (nat len) es [] s = Some (r, got, t)" "recv_post sz es [] s r got t" "length got \<le> nat len"
    using recv_loop_stream [OF assms(1), of "[]" "nat len" es "flags AND SCIF_RECV_BLOCK \<noteq> 0"] assms(4) by auto
  have t: "rb_live sz t" "rcvd t = rcvd s @ got" using g(2) by (auto simp: recv_post_def)
  have "rcvd s @ got = take (length (rcvd s) + length got) (sent t)" using live_prefix [OF t(1)] t(2) by simp
  then have "got = take (length got) (drop (length (rcvd s)) (sent t))"
    by (metis append_eq_conv_conj drop_take add_diff_cancel_left' append_eq_append_conv append_take_drop_id)
  moreover have "scif_recv idle len flags es s = Some (r, got, t)" using False g(1) by (auto simp: scif_recv_def)
  moreover have "(\<forall>e \<in> set es. notif e = None) \<longrightarrow> (\<forall>n. r = Returned (Inr n) \<longrightarrow> n = length got) \<and> (\<forall>err. r = Returned (Inl err) \<longrightarrow> got = [])"
    using g(2) by (auto simp: recv_post_def)
  ultimately show ?thesis using t g(3) assms(2) by (intro exI [of _ r] exI [of _ got] exI [of _ t]) auto
qed

theorem recv_stream_witness:
  "\<exists>r got t. scif_recv False 2 1 [calm_turn, calm_turn] rb_demo0 = Some (r, got, t) \<and> rb_live 4 t \<and> rcvd t = got"
  using recv_stream [OF demo_live(1), of 2 "[calm_turn, calm_turn]" False 1] demo_live(3) by auto

text \<open>
  C26. A send that does not block returns after at most one turn of its loop more than the message has bytes, and so does a receive, whatever the other end does meanwhile.
\<close>

theorem nonblocking_returns:
  assumes "rb_live sz s" and "length msg < 2 ^ 31" and "\<forall>e \<in> set es. reader_acts sz e" "length msg < length es"
    and "n < 2 ^ 31" and "\<forall>e \<in> set fs. writer_acts sz e" "n < length fs"
  shows "(\<exists>x t. scif_send_loop False msg es 0 s = Some (Returned x, t)) \<and> (\<exists>x got t. scif_recv_loop False n fs [] s = Some (Returned x, got, t))"
  using send_loop_returns [OF assms(1) _ assms(2,3), of 0] recv_loop_returns [OF assms(1) _ assms(5,6), of "[]"] assms(4,7) by simp

theorem nonblocking_returns_witness:
  "(\<exists>x t. scif_send_loop False [7] [calm_turn, calm_turn] 0 rb_demo0 = Some (Returned x, t)) \<and> (\<exists>x got t. scif_recv_loop False 1 [calm_turn, calm_turn] [] rb_demo0 = Some (Returned x, got, t))"
  using nonblocking_returns [OF demo_live(1), of "[7]" "[calm_turn, calm_turn]" 1 "[calm_turn, calm_turn]"] by simp








text \<open>
  C25. On a connection that is up and has no bytes under way, a message that is sent without blocking is accepted up to the free space of the ring buffer, and
  a receive of at least that many bytes gives exactly the accepted bytes.
\<close>

theorem send_recv_roundtrip:
  assumes "rb_live sz s" and "rb_queued s = []" and "length msg < 2 ^ 31" and "calm e" "calm e'" "calm f" "calm f'" and "n < 2 ^ 31" "min (length msg) (rb_free s) \<le> n"
  shows "\<exists>t u. scif_send_loop False msg [e, e'] 0 s = Some (Returned (Inr (min (length msg) (rb_free s))), t) \<and>
    scif_recv_loop False n [f, f'] [] t = Some (Returned (Inr (min (length msg) (rb_free s))), take (rb_free s) msg, u)"
proof -
  obtain t where t: "scif_send_loop False msg [e, e'] 0 s = Some (Returned (Inr (min (length msg) (rb_free s))), t)" "rb_live sz t" "sent t = sent s @ take (rb_free s) msg" "rcvd t = rcvd s"
    using send_calm [OF assms(1,3-5), of "[]"] by blast
  have "length (sent s) \<le> length (rcvd s)" using assms(2) by (simp add: rb_queued_def)
  moreover have "length (rcvd s) \<le> length (sent s)" using assms(1) by (auto simp: rb_live_def rb_inv_defs)
  ultimately have q: "rb_queued t = take (rb_free s) msg" using t(3,4) by (simp add: rb_queued_def)
  have "\<exists>u. scif_recv_loop False n [f, f'] [] t = Some (Returned (Inr (length (rb_queued t))), rb_queued t, u) \<and> rb_live sz u"
    by (rule recv_calm [OF t(2) assms(8) _ assms(6,7)]) (use assms(9) q in simp)
  then show ?thesis using t(1) q by auto
qed

theorem send_recv_roundtrip_witness:
  "\<exists>t u. scif_send_loop False [7, 8, 9, 10] [calm_turn, calm_turn] 0 rb_demo0 = Some (Returned (Inr 3), t) \<and>
    scif_recv_loop False 5 [calm_turn, calm_turn] [] t = Some (Returned (Inr 3), [7, 8, 9], u)"
proof -
  have m: "min (length [7 :: u8, 8, 9, 10]) (rb_free rb_demo0) = 3" "take (rb_free rb_demo0) [7 :: u8, 8, 9, 10] = [7, 8, 9]" by (simp_all add: demo_live(4))
  have "rb_queued rb_demo0 = []" by (simp add: rb_queued_def demo_live)
  from send_recv_roundtrip [OF demo_live(1) this, of "[7, 8, 9, 10]" calm_turn calm_turn calm_turn calm_turn 5, unfolded m] show ?thesis by simp
qed

text \<open>
  When the notification of the peer fails after the first write, \<open>_scif_send\<close> returns the error, although the whole message is committed to the ring buffer: a receive at the
  other end gives all of it. A caller that sends the message again sends it twice.
\<close>

theorem send_error_but_sent:
  assumes "rb_live sz s" and "rb_queued s = []" and "msg \<noteq> []" "length msg < 2 ^ 31" "length msg \<le> rb_free s"
    and "t_state e = SCIFEP_CONNECTED" "t_alive e" "notif e = Some err" "before e = id" and "calm f" "calm f'"
  shows "\<exists>t u. scif_send_loop block msg [e] 0 s = Some (Returned (Inl err), t) \<and> scif_recv_loop False (length msg) [f, f'] [] t = Some (Returned (Inr (length msg)), msg, u)"
proof -
  have f: "rb_free s \<noteq> 0" using assms(3,5) by (cases msg) auto
  obtain t where t: "send_turn block msg e 0 s = Some (Inl (Returned (Inl err)), t)" "rb_live sz t" "sent t = sent s @ msg"
    using send_turn_writes [OF assms(1,6,7) f, of 0 msg block] assms(3-5,8) by (auto simp: part_or_def min_absorb1)
  have r: "rcvd t = rcvd s" using t(1) by (auto simp: send_turn_def Let_def split: if_splits option.splits prod.splits sum.splits)
  have "length (sent s) \<le> length (rcvd s)" using assms(2) by (simp add: rb_queued_def)
  moreover have "length (rcvd s) \<le> length (sent s)" using assms(1) by (auto simp: rb_live_def rb_inv_defs)
  ultimately have q: "rb_queued t = msg" using t(3) r by (simp add: rb_queued_def)
  have "\<exists>u. scif_recv_loop False (length msg) [f, f'] [] t = Some (Returned (Inr (length msg)), msg, u)"
    using recv_calm [OF t(2) assms(4) _ assms(10,11), of "[]"] q by auto
  moreover have "scif_send_loop block msg [e] 0 s = Some (Returned (Inl err), t)" using t(1) assms(3,9) by (simp add: scif_send_loop.simps [of block msg "[e]"])
  ultimately show ?thesis by blast
qed

theorem send_error_but_sent_witness:
  "\<exists>t u. scif_send_loop True [7, 8] [calm_turn\<lparr>notif := Some ENODEV\<rparr>] 0 rb_demo0 = Some (Returned (Inl ENODEV), t) \<and>
    scif_recv_loop False 2 [calm_turn, calm_turn] [] t = Some (Returned (Inr 2), [7, 8], u)"
proof -
  have "rb_queued rb_demo0 = []" by (simp add: rb_queued_def demo_live)
  then have "\<exists>t u. scif_send_loop True [7, 8] [calm_turn\<lparr>notif := Some ENODEV\<rparr>] 0 rb_demo0 = Some (Returned (Inl ENODEV), t) \<and>
      scif_recv_loop False (length [7 :: u8, 8]) [calm_turn, calm_turn] [] t = Some (Returned (Inr (length [7 :: u8, 8])), [7, 8], u)"
    by (intro send_error_but_sent [OF demo_live(1)]) (simp_all add: demo_live calm_turn_def calm_def)
  moreover have "length [7 :: u8, 8] = 2" by simp
  ultimately show ?thesis by (simp only:)
qed

text \<open>
  When a process sends a message of more than one part, and the connection ends after the first part, \<open>scif_user_send\<close> returns the error of the second part, although the first
  one has been sent.
\<close>

theorem user_send_count_lost:
  assumes "rb_live sz s" and "length msg < 2 ^ 31" and "0 < chunk" "chunk < length msg" "chunk \<le> rb_free s" and "calm e" "calm e'" and "t_state f = SCIFEP_DISCONNECTED" "before f = id"
  shows "\<exists>t. scif_user_send chunk True msg (int (length msg)) 0 [(True, [e, e']), (True, [f])] s = Some (Returned (Inl ECONNRESET), t) \<and> sent t = sent s @ take chunk msg"
proof -
  let ?p = "take chunk msg" and ?q = "take (min chunk (length msg - chunk)) (drop chunk msg)"
  have p: "length ?p = chunk" "length ?p < 2 ^ 31" "length ?q \<noteq> 0" using assms(2-4) by auto
  obtain t where t: "scif_send_loop False ?p [e, e'] 0 s = Some (Returned (Inr chunk), t)" "sent t = sent s @ ?p"
    using send_calm [OF assms(1) p(2) assms(6,7), of "[]"] p(1) assms(5) by (auto simp: min_absorb1)
  have q: "scif_send_loop False ?q [f] 0 t = Some (Returned (Inl ECONNRESET), t)"
    using p(3) assms(8,9) by (auto simp: scif_send_loop.simps [of False ?q "[f]"] send_turn_def part_or_def)
  have m: "min chunk (length msg) = chunk" "chunk \<noteq> length msg" "length msg \<noteq> 0" "msg \<noteq> []" using assms(3,4) by auto
  have "user_send_loop chunk False msg [(True, [f])] chunk t = Some (Returned (Inl ECONNRESET), t)" using q m by (simp add: user_send_loop.simps [of chunk False msg "[(True, [f])]"])
  then have "user_send_loop chunk False msg [(True, [e, e']), (True, [f])] 0 s = Some (Returned (Inl ECONNRESET), t)"
    using t(1) m by (simp add: user_send_loop.simps [of chunk False msg "[(True, [e, e']), (True, [f])]"])
  then show ?thesis using t(2) m by (intro exI [of _ t]) (simp add: scif_user_send_def scif_msg_param_check_def min.commute)
qed

end
