(* ===== verification/Spec2Isabelle.thy ===== *)
theory Spec2Isabelle
  imports Rma_Registration Smpt Rma_Dma Aes_Sbox Scif_Connect Scif_Msg
begin

text \<open>
  \<^bold>\<open>The program.\<close> The repository integrates Intel Xeon Phi (Knights Corner) cards with a Linux host: the SCIF driver, under
  \<open>src/module/include\<close>, gives programs on host and card connections, shared memory windows and remote memory access, and benchmark
  programs measure it, in particular with an AES cipher that runs on the card (\<open>src/aes_bench\<close>, with copies under \<open>src/scaling\<close> and
  \<open>src/openmpmic\<close>). The parts of the driver interact as follows. Nodes exchange messages through ring buffers. An endpoint is bound to a port
  from the port allocator. It registers memory as windows: an offset in its registered address space comes from the
  address generator, its pages are pinned, the other node is told their addresses, the window enters the lists of both endpoints, and its pages are reached by the card through the
  system memory page table. Remote reads and writes look up the windows of a range and copy between them, by DMA or by the
  processor.

  \<^bold>\<open>The theories.\<close> Each theory has the data and operations of one source file in the order of the source, then lemmas, then
  its properties.
  \<^item> \<open>Scif_Prelude\<close>: integer types, error numbers, the kernel macros the sources expand, and lemmas on words and lists.
  \<^item> \<open>Ring_Buffer\<close> (\<open>micscif_rb.c\<close>): writer and reader contexts over shared memory. \<open>rb_step\<close> interleaves their operations; the locale
    \<open>byte_fifo\<close> is the contract of the channel, interpreted on the model. Shown: the stream is delivered in order and unchanged, all accesses are
    in bounds, and messages come back as they were written.
  \<^item> \<open>Scif_Ports\<close> (\<open>micscif_ports.c\<close>): the bit array of ports, with both variants of the bit handlers. The locale \<open>port_allocator\<close> is its
    contract. Shown: no port is handed out twice, which port is handed out, when one is found, and where the search is stuck.
  \<^item> \<open>Va_Node\<close> (\<open>micscif_va_node.c\<close>): the slabs of list nodes, with the locale \<open>node_store\<close>.
  \<^item> \<open>Va_Ranges\<close>: the abstract specification of the address generator, lists of separated page ranges.
  \<^item> \<open>Va_Gen\<close> (\<open>micscif_va_gen.c\<close>): the linked lists of holes and claims refine \<open>Va_Ranges\<close>. Shown: ranges allocated and not given back are disjoint, an
    allocation fails only when no hole is long enough, giving a range back succeeds when there is memory for a list node; and the defects of claims and alignments.
  \<^item> \<open>Smpt\<close> (\<open>micscif_smpt.c\<close>): the table of 32 entries of 16 GB with its registers. \<open>smpt_reach\<close> is the state machine of the
    mappings of a board. Shown: addresses of live mappings are translated to what was mapped, the counts are exact, unmapping always
    succeeds, bounds of addresses and of the reference array; and when a mapping is refused.
  \<^item> \<open>Rma_Window\<close> (\<open>micscif_rma_list.c\<close>, \<open>micscif_rma.h\<close>): the ordered lists of windows. Shown: the query agrees with a check of every byte, except that a request
    for full windows may start inside a window; insertion keeps the order, the lookup of DMA addresses is exact from any index.
  \<^item> \<open>Rma_Dma\<close> (\<open>micscif_rma_dma.c\<close>): the copies, as sequences of operations on bus and virtual addresses. Shown: every
    byte of the range is moved once, in order, and nothing else. Where a byte is, \<open>va_names\<close> and \<open>byte_addr\<close> say without the functions of the code: in the pinned pages, in the aperture,
    or, in a loopback, in the pages of the peer. The copy by DMA tells the nodes apart by the bus address, as \<open>bus_side_ok\<close> assumes it can.
  \<^item> \<open>Rma_List\<close> (\<open>micscif_rma_list.c\<close>): the walks that map a range of windows into a process and unmap it. Shown: every page of the range gets the frame of its offset,
    each window counts the pages used of it, and unmapping restores the counts and removes the windows without a user.
  \<^item> \<open>Rma_Pages\<close> (\<open>micscif_api.c\<close>, \<open>micscif_rma.h\<close>): pinning pages, with the limit on pinned pages and the division into chunks. Shown: a set of pages is well formed and has the pages of its
    range, a failed call whose second attempt is no shorter than the first gives back every reference it took, unpinning restores the counts; and a page that is released twice.
  \<^item> \<open>Rma_Remote\<close> (\<open>micscif_rma.c\<close>): the windows of owner and other node and the transfer of addresses through the lookup table. Shown: both have the same pages, the table
    stays in bounds and is taken down completely; and a failed allocation that is not noticed.
  \<^item> \<open>Rma_Register\<close> (\<open>micscif_api.c\<close>, \<open>micscif_rma.c\<close>, \<open>micscif_nodeqp.c\<close>): registration and unregistration of windows and the handlers of their messages at both nodes.
    \<open>Rma_Register_Inv\<close> has the invariant of an endpoint, over the contract \<open>offset_space\<close> that the address generator meets; \<open>Rma_Register_Ops\<close> shows that every step keeps it
    and puts the steps together as \<open>rma_run\<close>; \<open>Rma_Registration\<close> has the properties. Shown, of the runs in which no client chooses an offset with \<open>SCIF_MAP_FIXED\<close> and there is memory whenever
    an offset is given back (\<open>rma_reach\<close>): registered windows are ordered and disjoint, no offset is lost or given back twice, the counts of
    pinned pages are exact, assertions hold, and the messages between two nodes register the same window at both; and concurrent unregistrations that lose a window.
  \<^item> \<open>Node_Deps\<close> (\<open>micscif_nm.c\<close>): the matrix of dependencies between nodes and the searches over it, with their explicit stack. Shown: the nodes to wake up are exactly
    those that can be reached over disconnected dependencies, if no node actively depends on the nodes to put to sleep the set found is exactly those that have to sleep together, the searches return; and an error code that is lost.
  \<^item> \<open>Node_Power\<close> (\<open>micscif_nm.c\<close>, \<open>micscif_nm.h\<close>): activity counts and the removal of nodes. Shown: only idle nodes are put to sleep, a node in use makes the request fail, and who is told of it.
  \<^item> \<open>Scif_Endpoint\<close> (\<open>micscif_api.c\<close>, \<open>micscif_fd.c\<close>, \<open>micscif.h\<close>, \<open>micscif_nodeqp.c\<close>): the endpoints of a node, the calls from open to close, and the handlers of the
    messages about connections. \<open>Scif_Endpoint_Inv\<close> states the invariant of a node and what elementary changes do to it; \<open>Scif_Endpoint_Ops\<close> shows that every call and
    handler keeps it and puts them together as the state machine \<open>ep_step\<close>. It rests on the contract \<open>port_allocator\<close> of \<open>Scif_Ports\<close>.
  \<^item> \<open>Scif_Connect\<close>: the properties of all runs of a node, and of the messages between two nodes: lists, states and counts agree, ports belong to one endpoint, disconnects
    meet no \<open>BUG_ON\<close>, connects succeed or are refused as described; and defects of listen, connect and the withdrawal of requests.
  \<^item> \<open>Scif_Msg\<close> (\<open>micscif_api.c\<close>): sending and receiving over a connection, on the ring buffer. The loops run against arbitrary behaviour of the other end. Shown: what is
    sent and received is the stream in order and without gaps, calls that do not block return, blocking sends of any length complete when the receiver goes on emptying the buffer; and bytes that are sent but not counted.
  \<^item> \<open>Aes_Tables\<close>, \<open>Aes\<close>, \<open>Aes_Columns\<close>, \<open>Aes_Cipher\<close>, \<open>Aes_Sbox\<close> (\<open>aes_bench/aes.c\<close>): the tables as lists of words, key expansion, encryption and
    decryption. Shown: decryption inverts encryption, the rounds and the key schedule are those of FIPS-197, the substitution table is the
    affine image of the inverse in the field of 256 elements; and the order of the key bytes.

  \<^bold>\<open>Conventions.\<close> Machine integers have their width. An access outside of an array, a dereference of an invalid pointer and a \<open>BUG_ON\<close>
  are \<open>None\<close>, so a result \<open>Some\<close> says that none of them happens. An error return is \<open>Inl\<close> of the error number, or a negative integer where the source
  mixes error numbers with other results. A function under a spin lock or mutex is one step. What the kernel, the PCI layer and the DMA engine
  answer is an argument. Every loop is a terminating function: the measures are the remaining bytes (copies), the free places of the reference
  array (\<open>ref_loop\<close>, 32 as in the source) and the length of lists; the walks of \<open>Va_Gen\<close> over linked nodes are partial functions, and their properties say
  that they return. No fuel is used.

  \<^bold>\<open>Calls that sleep.\<close> In \<open>Scif_Endpoint\<close> and \<open>Rma_Register\<close> a call is split at its waits, and the part after a wait is a step of its own; between two steps any other call or message may
  come. A close, for instance, waits while the windows of the endpoint are unregistered, when the endpoint is still on its list, and again for the answer of the peer. In \<open>Scif_Msg\<close> a loop has one environment
  per turn and per look at its wait condition; it returns \<open>Running\<close> or \<open>Waiting\<close> when they are used up. The properties about returning give a number of them that is enough.

  \<^bold>\<open>Runs.\<close> \<open>ep_reach\<close> are the runs of a node. Their guards say what callers and peers keep to: addresses of new endpoints are fresh, a call is made on an endpoint that is held, and messages answer what was
  sent (\<open>msg_ok\<close>); in particular the answer to a disconnect does not come after the close has stopped waiting for it, when the handler would change a zombie (\<open>discntack_zombie\<close>). A step that
  puts an endpoint on a list while it is on another damages both lists; this is \<open>None\<close>, like a \<open>BUG_ON\<close>, and ends the run. \<open>SCIF_ACCEPTREG\<close> on a file whose endpoint is on a list does so (\<open>acceptreg_listed\<close>).
  \<open>rma_run\<close> are the runs of the registrations of an endpoint, with flags for an offset chosen by a client and for a lack of memory when an offset is given back; new addresses are fresh
  and ranges have less than \<open>2 ^ 31\<close> pages.

  \<^bold>\<open>Not modelled.\<close> Of \<open>micscif_rma.c\<close> and the end of \<open>micscif_api.c\<close> the temporary windows, fences, reads and writes, the release of all windows on close (an argument of the steps of a close) and, when a window is destroyed, the charge of
  its pages to the process; of the copies the one through a temporary buffer. Of \<open>micscif_nodeqp.c\<close> the set-up of queue pairs and the messages about nodes that come up; of
  \<open>micscif_nm.c\<close> recovery and watchdog, which run in work queues. The code for KNF boards (\<open>CONFIG_ML1OM\<close>), for the card side (\<open>_MIC_SCIF_\<close>), logging, memory fences, start-up, \<open>select\<close>, debugging and the benchmark
  programs, which measure time.
\<close>

end
